(* ===== verification/Xv6_Prelude.thy ===== *)
theory Xv6_Prelude
  imports Main "HOL-Library.Word" "HOL-Library.While_Combinator"
begin

text \<open>
  Shared ground of the development: the fixed-width integer types of kernel/types.h,
  the outcome type of kernel code (a result, or one of the ways in which a kernel
  thread does not return), the sequencing of kernel operations over an explicit state,
  little-endian byte strings, and page arithmetic on 64-bit words.
\<close>

unbundle bit_operations_syntax

named_theorems kmon \<open>unfolding rules of the kernel state monad\<close>
named_theorems pgs \<open>page arithmetic on 64-bit words\<close>

section \<open>Integer types\<close>

type_synonym u8 = "8 word"
type_synonym u16 = "16 word"
type_synonym u32 = "32 word"
type_synonym u64 = "64 word"

lemma u8_lt: "unat (x::u8) < 256"
  using unsigned_less [of x] by simp

lemma u16_lt: "unat (x::u16) < 65536"
  using unsigned_less [of x] by simp

lemma u32_lt: "unat (x::u32) < 4294967296"
  using unsigned_less [of x] by simp

lemma u64_lt: "unat (x::u64) < 18446744073709551616"
  using unsigned_less [of x] by simp

section \<open>Outcomes of kernel code\<close>

text \<open>
  The identity of a sleep lock, of a spin lock and of a wait channel. The C code uses the
  address of the object; the model uses a name for each object, or the address itself
  for the objects that live in pages from the page allocator.
\<close>

datatype sleep_id = BufLock nat | InodeLock nat

datatype lock_id =
    KmemLock | KmemsLock nat | PidLock | ProcLock nat | TicksLock
  | BcacheLock | BucketLock nat | LogLock | VdiskLock | IcacheLock | FtableLock
  | ConsLock | UartTxLock | PrLock | PipeLock u64 | InnerLock sleep_id

datatype chan =
    ChProc nat | ChTicks | ChLog | ChBuf nat | ChSleep sleep_id | ChDiskFree
  | ChPipeRead u64 | ChPipeWrite u64 | ChCons | ChUartTx

text \<open>
  Why a kernel thread does not return from a call: a panic with its message, a spin on a
  lock held elsewhere, a sleep on a channel that nobody wakes in the run considered, a
  loop that never ends, or an access outside an array, whose effect C leaves open.
\<close>

datatype stop = Panic string | Spin lock_id | Asleep chan | Diverge | Undef string

type_synonym ('s, 'a) km = "'s \<Rightarrow> stop + ('a \<times> 's)"

definition kret :: "'a \<Rightarrow> ('s, 'a) km" where
  [kmon]: "kret x = (\<lambda>s. Inr (x, s))"

definition kstop :: "stop \<Rightarrow> ('s, 'a) km" where
  [kmon]: "kstop e = (\<lambda>s. Inl e)"

definition kbind :: "('s, 'a) km \<Rightarrow> ('a \<Rightarrow> ('s, 'b) km) \<Rightarrow> ('s, 'b) km" where
  "kbind m f = (\<lambda>s. case m s of Inl e \<Rightarrow> Inl e | Inr (x, s') \<Rightarrow> f x s')"

definition kseq :: "('s, 'a) km \<Rightarrow> ('s, 'b) km \<Rightarrow> ('s, 'b) km" where
  [kmon]: "kseq m n = kbind m (\<lambda>_. n)"

definition kget :: "('s \<Rightarrow> 'a) \<Rightarrow> ('s, 'a) km" where
  [kmon]: "kget f = (\<lambda>s. Inr (f s, s))"

definition kmod :: "('s \<Rightarrow> 's) \<Rightarrow> ('s, unit) km" where
  [kmon]: "kmod f = (\<lambda>s. Inr ((), f s))"

definition kpanic :: "string \<Rightarrow> ('s, 'a) km" where
  [kmon]: "kpanic msg = kstop (Panic msg)"

text \<open>A while loop whose end is not known: \<^term>\<open>Diverge\<close> when it never ends.\<close>

definition kwhile :: "('x \<Rightarrow> bool) \<Rightarrow> ('x \<Rightarrow> 'x) \<Rightarrow> 'x \<Rightarrow> stop + 'x" where
  "kwhile b c x = (case while_option b c x of None \<Rightarrow> Inl Diverge | Some y \<Rightarrow> Inr y)"

lemma kbind_Inr [simp]: "m s = Inr (x, s') \<Longrightarrow> kbind m f s = f x s'"
  by (simp add: kbind_def)

lemma kbind_Inl [simp]: "m s = Inl e \<Longrightarrow> kbind m f s = Inl e"
  by (simp add: kbind_def)

lemma kseq_Inr: "m s = Inr (x, s') \<Longrightarrow> kseq m n s = n s'"
  by (simp add: kseq_def)

lemma kseq_Inl: "m s = Inl e \<Longrightarrow> kseq m n s = Inl e"
  by (simp add: kseq_def)

lemma kbind_cases [kmon]:
  "kbind m f s = (case m s of Inl e \<Rightarrow> Inl e | Inr (x, s') \<Rightarrow> f x s')"
  by (simp add: kbind_def)

lemma kbind_assoc: "kbind (kbind m f) g = kbind m (\<lambda>x. kbind (f x) g)"
  by (rule ext) (simp add: kbind_def split: sum.splits prod.splits)

lemma kbind_eq_Inr:
  "kbind m f s = Inr (y, t) \<longleftrightarrow> (\<exists>x s'. m s = Inr (x, s') \<and> f x s' = Inr (y, t))"
  by (simp add: kbind_def split: sum.splits prod.splits)

section \<open>Signed 32-bit integers\<close>

text \<open>What is left of an integer in a C int of 32 bits: the machine addition wraps around.\<close>

definition int32 :: "int \<Rightarrow> int" where
  "int32 v = sint (word_of_int v :: 32 word)"

lemma int32_id: "- 2147483648 \<le> v \<Longrightarrow> v < 2147483648 \<Longrightarrow> int32 v = v"
  by (simp add: int32_def signed_take_bit_int_eq_self sint_sbintrunc')

section \<open>Little-endian byte strings\<close>

fun le_nat :: "u8 list \<Rightarrow> nat" where
  "le_nat [] = 0"
| "le_nat (b # bs) = unat b + 256 * le_nat bs"

fun nat_le :: "nat \<Rightarrow> nat \<Rightarrow> u8 list" where
  "nat_le 0 v = []"
| "nat_le (Suc n) v = of_nat (v mod 256) # nat_le n (v div 256)"

lemma length_nat_le [simp]: "length (nat_le n v) = n"
  by (induction n arbitrary: v) auto

lemma le_nat_nat_le: "v < 256 ^ n \<Longrightarrow> le_nat (nat_le n v) = v"
proof (induction n arbitrary: v)
  case 0
  then show ?case by simp
next
  case (Suc n)
  then have "v div 256 < 256 ^ n" by (simp add: less_mult_imp_div_less mult.commute)
  then have "le_nat (nat_le n (v div 256)) = v div 256" by (rule Suc.IH)
  then show ?case by (simp add: unat_of_nat)
qed

lemma le_nat_bound: "le_nat bs < 256 ^ length bs"
proof (induction bs)
  case Nil
  then show ?case by simp
next
  case (Cons b bs)
  have "unat b < 256" using unsigned_less [of b] by simp
  moreover have "Suc (le_nat bs) \<le> 256 ^ length bs" using Cons by simp
  then have "256 * Suc (le_nat bs) \<le> 256 * 256 ^ length bs" by (rule mult_le_mono2)
  ultimately show ?case by simp
qed

lemma nat_le_le_nat: "nat_le (length bs) (le_nat bs) = bs"
proof (induction bs)
  case Nil
  then show ?case by simp
next
  case (Cons b bs)
  have "unat b < 256" using unsigned_less [of b] by simp
  then show ?case using Cons by simp
qed

lemma nat_le_mod: "nat_le n (v mod 256 ^ n) = nat_le n v"
proof (induction n arbitrary: v)
  case 0
  then show ?case by simp
next
  case (Suc n)
  have "v mod (256 * 256 ^ n) mod 256 = v mod 256" by (simp add: mod_mod_cancel)
  moreover have "v mod (256 * 256 ^ n) div 256 = v div 256 mod 256 ^ n"
    by (simp add: mod_mult2_eq)
  ultimately show ?case using Suc.IH [of "v div 256"] by simp
qed

text \<open>Reading and writing little-endian fields of a byte string.\<close>

definition get_le :: "nat \<Rightarrow> u8 list \<Rightarrow> nat \<Rightarrow> nat" where
  "get_le n bs off = le_nat (take n (drop off bs))"

definition put_bytes :: "u8 list \<Rightarrow> nat \<Rightarrow> u8 list \<Rightarrow> u8 list" where
  "put_bytes bs off new = take off bs @ new @ drop (off + length new) bs"

definition put_le :: "nat \<Rightarrow> u8 list \<Rightarrow> nat \<Rightarrow> nat \<Rightarrow> u8 list" where
  "put_le n bs off v = put_bytes bs off (nat_le n v)"

definition get32 :: "u8 list \<Rightarrow> nat \<Rightarrow> u32" where
  "get32 bs off = of_nat (get_le 4 bs off)"

definition put32 :: "u8 list \<Rightarrow> nat \<Rightarrow> u32 \<Rightarrow> u8 list" where
  "put32 bs off v = put_le 4 bs off (unat v)"

definition get16 :: "u8 list \<Rightarrow> nat \<Rightarrow> u16" where
  "get16 bs off = of_nat (get_le 2 bs off)"

definition put16 :: "u8 list \<Rightarrow> nat \<Rightarrow> u16 \<Rightarrow> u8 list" where
  "put16 bs off v = put_le 2 bs off (unat v)"

lemma length_put_bytes [simp]: "off + length new \<le> length bs \<Longrightarrow> length (put_bytes bs off new) = length bs"
  by (simp add: put_bytes_def)

lemma length_put32 [simp]: "off + 4 \<le> length bs \<Longrightarrow> length (put32 bs off v) = length bs"
  by (simp add: put32_def put_le_def)

lemma length_put16 [simp]: "off + 2 \<le> length bs \<Longrightarrow> length (put16 bs off v) = length bs"
  by (simp add: put16_def put_le_def)

lemma get_put_bytes:
  assumes "off + length new \<le> length bs" and "n = length new"
  shows "take n (drop off (put_bytes bs off new)) = new"
  using assms by (simp add: put_bytes_def)

lemma get_put_bytes_other:
  assumes "off + length new \<le> length bs" and "o' + n \<le> off \<or> off + length new \<le> o'"
  shows "take n (drop o' (put_bytes bs off new)) = take n (drop o' bs)"
  using assms(2)
proof
  assume o: "o' + n \<le> off"
  have "take n (drop o' (put_bytes bs off new)) = take n (drop o' (take off bs))"
    using o assms(1) by (simp add: put_bytes_def)
  also have "\<dots> = take n (drop o' bs)" using o by (simp add: drop_take)
  finally show ?thesis .
next
  assume o: "off + length new \<le> o'"
  then have "drop o' (put_bytes bs off new) = drop o' bs"
    using assms(1) by (simp add: put_bytes_def)
  then show ?thesis by simp
qed

lemma get32_put32 [simp]: "off + 4 \<le> length bs \<Longrightarrow> get32 (put32 bs off v) off = v"
  using u32_lt [of v] by (simp add: get32_def put32_def get_le_def put_le_def get_put_bytes le_nat_nat_le)

lemma get32_put32_other:
  "off + 4 \<le> length bs \<Longrightarrow> o' + 4 \<le> off \<or> off + 4 \<le> o' \<Longrightarrow> get32 (put32 bs off v) o' = get32 bs o'"
  by (simp add: get32_def put32_def get_le_def put_le_def get_put_bytes_other)

lemma get16_put16 [simp]: "off + 2 \<le> length bs \<Longrightarrow> get16 (put16 bs off v) off = v"
  using u16_lt [of v] by (simp add: get16_def put16_def get_le_def put_le_def get_put_bytes le_nat_nat_le)

section \<open>Loops of kernel code\<close>

text \<open>
  A counted loop; a counted loop that a return or break inside its body may leave early (the
  body then gives Some result); and a loop without a bound, over its loop variables, which
  is \<^term>\<open>Diverge\<close> when it never ends.
\<close>

fun kfor :: "'i list \<Rightarrow> ('i \<Rightarrow> ('s, unit) km) \<Rightarrow> ('s, unit) km" where
  "kfor [] body = kret ()"
| "kfor (i # is) body = kseq (body i) (kfor is body)"

fun kfind :: "'i list \<Rightarrow> ('i \<Rightarrow> ('s, 'r option) km) \<Rightarrow> ('s, 'r option) km" where
  "kfind [] body = kret None"
| "kfind (i # is) body =
     kbind (body i) (\<lambda>r. case r of None \<Rightarrow> kfind is body | Some x \<Rightarrow> kret (Some x))"

definition kiter :: "('x \<Rightarrow> ('s, 'x + 'r) km) \<Rightarrow> 'x \<Rightarrow> ('s, 'r) km" where
  "kiter body x s =
     (case while_option (\<lambda>y. case y of Inr (Inl _, _) \<Rightarrow> True | _ \<Rightarrow> False)
         (\<lambda>y. case y of Inr (Inl x, s) \<Rightarrow> body x s | _ \<Rightarrow> y) (Inr (Inl x, s)) of
        None \<Rightarrow> Inl Diverge
      | Some (Inl e) \<Rightarrow> Inl e
      | Some (Inr (Inl _, _)) \<Rightarrow> Inl Diverge
      | Some (Inr (Inr r, s')) \<Rightarrow> Inr (r, s'))"

definition kloop :: "('s, 'r option) km \<Rightarrow> ('s, 'r) km" where
  "kloop body = kiter (\<lambda>_. kbind body (\<lambda>r. kret (case r of None \<Rightarrow> Inl () | Some x \<Rightarrow> Inr x))) ()"

lemma kiter_unfold:
  "kiter body x s =
     (case body x s of Inl e \<Rightarrow> Inl e
      | Inr (Inl x', s') \<Rightarrow> kiter body x' s'
      | Inr (Inr r, s') \<Rightarrow> Inr (r, s'))"
proof -
  let ?b = "\<lambda>y :: stop + ('c + 'a) \<times> 'b. case y of Inr (Inl _, _) \<Rightarrow> True | _ \<Rightarrow> False"
  let ?c = "\<lambda>y. case y of Inr (Inl x, s) \<Rightarrow> body x s | _ \<Rightarrow> y"
  have "while_option ?b ?c (Inr (Inl x, s)) = while_option ?b ?c (body x s)"
    by (subst while_option_unfold) simp
  then have eq: "kiter body x s = (case while_option ?b ?c (body x s) of None \<Rightarrow> Inl Diverge
      | Some (Inl e) \<Rightarrow> Inl e | Some (Inr (Inl _, _)) \<Rightarrow> Inl Diverge
      | Some (Inr (Inr r, s')) \<Rightarrow> Inr (r, s'))"
    unfolding kiter_def by simp
  have ended: "while_option ?b ?c (Inl e) = Some (Inl e)"
    "while_option ?b ?c (Inr (Inr r, t)) = Some (Inr (Inr r, t))" for e r t
    by (simp_all add: while_option_unfold)
  consider (a) e where "body x s = Inl e" | (b) x' t where "body x s = Inr (Inl x', t)"
    | (c) r t where "body x s = Inr (Inr r, t)"
    by (metis old.sum.exhaust prod.exhaust)
  then show ?thesis
  proof cases
    case a
    then show ?thesis unfolding eq by (simp only: ended sum.case option.case)
  next
    case b
    then show ?thesis unfolding eq by (simp add: kiter_def)
  next
    case c
    then show ?thesis unfolding eq by (simp only: ended sum.case option.case prod.case)
  qed
qed

lemma kloop_unfold:
  "kloop body s = (case body s of Inl e \<Rightarrow> Inl e
     | Inr (None, s') \<Rightarrow> kloop body s' | Inr (Some r, s') \<Rightarrow> Inr (r, s'))"
  unfolding kloop_def
  by (subst kiter_unfold) (simp add: kbind_def kret_def split: sum.splits prod.splits option.splits)

lemma kfor_inv:
  assumes "\<And>i s. i \<in> set is \<Longrightarrow> P s \<Longrightarrow> \<exists>s'. body i s = Inr ((), s') \<and> P s'" and "P s"
  shows "\<exists>s'. kfor is body s = Inr ((), s') \<and> P s'"
  using assms
proof (induction "is" arbitrary: s)
  case Nil
  then show ?case by (simp add: kret_def)
next
  case (Cons i "is")
  obtain s1 where "body i s = Inr ((), s1)" and "P s1" using Cons.prems by (metis list.set_intros(1))
  with Cons.IH [of s1] Cons.prems(1) show ?case by (simp add: kseq_def)
qed

lemma kfor_Cons_ok: "body i s = Inr ((), s1) \<Longrightarrow> kfor (i # is) body s = kfor is body s1"
  by (simp add: kseq_def)

lemma kfind_Cons_None: "body i s = Inr (None, s1) \<Longrightarrow> kfind (i # is) body s = kfind is body s1"
  by simp

lemma kfind_Cons_Some: "body i s = Inr (Some x, s1) \<Longrightarrow> kfind (i # is) body s = Inr (Some x, s1)"
  by (simp add: kret_def)

lemma kfor_append: "kfor (xs @ ys) body = kseq (kfor xs body) (kfor ys body)"
  by (induction xs) (auto simp: kseq_def kret_def kbind_def fun_eq_iff split: sum.splits prod.splits)

end
