(* ===== verification/Riscv.thy ===== *)
theory Riscv
  imports Xv6_Prelude
begin

text \<open>
  The address arithmetic of kernel/riscv.h, kernel/memlayout.h and kernel/param.h: page
  rounding, Sv39 page-table entries and indices, and the fixed addresses of the memory
  layout, all on 64-bit words with C's wrap-around, and the facts about them that the
  page allocator and the virtual memory code rely on.
\<close>

section \<open>Constants and macros\<close>

text \<open>The open modes of kernel/fcntl.h, and the sizes of kernel/param.h.\<close>

definition O_RDONLY :: u32 where "O_RDONLY = 0"
definition O_WRONLY :: u32 where "O_WRONLY = 1"
definition O_RDWR :: u32 where "O_RDWR = 2"
definition O_CREATE :: u32 where "O_CREATE = 0x200"
definition O_TRUNC :: u32 where "O_TRUNC = 0x400"

definition NPROC :: nat where "NPROC = 64"
definition NCPU :: nat where "NCPU = 8"
definition NOFILE :: nat where "NOFILE = 16"
definition NFILE :: nat where "NFILE = 100"
definition MAXOPBLOCKS :: nat where "MAXOPBLOCKS = 10"
definition LOGSIZE :: nat where "LOGSIZE = MAXOPBLOCKS * 3"
definition NBUF :: nat where "NBUF = MAXOPBLOCKS * 3"

definition PGSIZE :: u64 where "PGSIZE = 4096"

definition PGROUNDUP :: "u64 \<Rightarrow> u64" where
  "PGROUNDUP sz = (sz + PGSIZE - 1) AND NOT (PGSIZE - 1)"

definition PGROUNDDOWN :: "u64 \<Rightarrow> u64" where
  "PGROUNDDOWN a = a AND NOT (PGSIZE - 1)"

definition PTE_V :: u64 where "PTE_V = 1"
definition PTE_R :: u64 where "PTE_R = 2"
definition PTE_W :: u64 where "PTE_W = 4"
definition PTE_X :: u64 where "PTE_X = 8"
definition PTE_U :: u64 where "PTE_U = 16"

definition PA2PTE :: "u64 \<Rightarrow> u64" where
  "PA2PTE pa = push_bit 10 (drop_bit 12 pa)"

definition PTE2PA :: "u64 \<Rightarrow> u64" where
  "PTE2PA pte = push_bit 12 (drop_bit 10 pte)"

definition PTE_FLAGS :: "u64 \<Rightarrow> u64" where
  "PTE_FLAGS pte = pte AND 0x3FF"

definition PXSHIFT :: "nat \<Rightarrow> nat" where
  "PXSHIFT level = 12 + 9 * level"

definition PX :: "nat \<Rightarrow> u64 \<Rightarrow> u64" where
  "PX level va = drop_bit (PXSHIFT level) va AND 0x1FF"

definition MAXVA :: u64 where "MAXVA = push_bit (9 + 9 + 9 + 12 - 1) 1"

definition MAKE_SATP :: "u64 \<Rightarrow> u64" where
  "MAKE_SATP pagetable = push_bit 60 8 OR drop_bit 12 pagetable"

definition KERNBASE :: u64 where "KERNBASE = 0x80000000"
definition PHYSTOP :: u64 where "PHYSTOP = KERNBASE + 128 * 1024 * 1024"
definition TRAMPOLINE :: u64 where "TRAMPOLINE = MAXVA - PGSIZE"
definition TRAPFRAME :: u64 where "TRAPFRAME = TRAMPOLINE - PGSIZE"

definition KSTACK :: "nat \<Rightarrow> u64" where
  "KSTACK p = TRAMPOLINE - (of_nat p + 1) * 2 * PGSIZE"

definition UART0 :: u64 where "UART0 = 0x10000000"
definition VIRTIO0 :: u64 where "VIRTIO0 = 0x10001000"
definition CLINT :: u64 where "CLINT = 0x2000000"
definition PLIC :: u64 where "PLIC = 0x0c000000"

lemmas pte_bits_defs = PTE_V_def PTE_R_def PTE_W_def PTE_X_def PTE_U_def

section \<open>Page rounding\<close>

lemma PGSIZE_unat [simp]: "unat PGSIZE = 4096"
  by (simp add: PGSIZE_def)

lemma and_not_4095: "(a::u64) AND NOT 4095 = a - (a AND 4095)"
proof -
  have "(a AND 4095) + (a AND NOT 4095) = (a AND 4095) OR (a AND NOT 4095)"
    by (rule disjunctive_add) (simp add: bit_simps)
  also have "\<dots> = a" by (rule bit_eqI) (auto simp: bit_simps)
  finally show ?thesis by (simp add: algebra_simps)
qed

lemma u_eqI: "unat a = unat b \<Longrightarrow> a = b"
  by (simp add: word_unat_eq_iff)

lemma unat_take_bit: "unat (take_bit n (a::u64)) = take_bit n (unat a)"
  by (rule unsigned_take_bit_eq)

lemma unat_and_4095: "unat ((a::u64) AND 4095) = unat a mod 4096"
proof -
  have "(a AND 4095) = take_bit 12 a" by (simp only: take_bit_eq_mask) (simp add: mask_eq_exp_minus_1)
  then have "unat (a AND 4095) = take_bit 12 (unat a)" by (simp only: unat_take_bit)
  then show ?thesis by (simp add: take_bit_eq_mod)
qed

lemma unat_PGROUNDDOWN: "unat (PGROUNDDOWN a) = unat a - unat a mod 4096"
proof -
  have le: "a AND 4095 \<le> a" by (simp add: word_and_le2)
  have "PGROUNDDOWN a = a AND NOT 4095" by (simp add: PGROUNDDOWN_def PGSIZE_def)
  also have "\<dots> = a - (a AND 4095)" by (rule and_not_4095)
  finally show ?thesis by (simp only: unat_sub [OF le] unat_and_4095)
qed

lemma unat_PGROUNDDOWN_div: "unat (PGROUNDDOWN a) = unat a div 4096 * 4096"
  by (simp add: unat_PGROUNDDOWN minus_mod_eq_div_mult)

lemma PGROUNDUP_DOWN: "PGROUNDUP a = PGROUNDDOWN (a + 4095)"
  by (simp add: PGROUNDUP_def PGROUNDDOWN_def PGSIZE_def add.commute)

definition pg_aligned :: "u64 \<Rightarrow> bool" where
  "pg_aligned a \<longleftrightarrow> unat a mod 4096 = 0"

lemma pg_aligned_mod: "pg_aligned a \<longleftrightarrow> a mod PGSIZE = 0"
proof -
  have "unat (a mod PGSIZE) = unat a mod 4096" by (simp add: unat_mod_distrib)
  then show ?thesis unfolding pg_aligned_def by (metis unat_0 unat_eq_zero)
qed

lemma pg_aligned_PGROUNDDOWN [simp]: "pg_aligned (PGROUNDDOWN a)"
  by (simp add: pg_aligned_def unat_PGROUNDDOWN_div)

lemma pg_aligned_PGROUNDUP [simp]: "pg_aligned (PGROUNDUP a)"
  by (simp add: PGROUNDUP_DOWN)

lemma pg_aligned_0 [simp]: "pg_aligned 0"
  by (simp add: pg_aligned_def)

lemma aligned_below: "(n::nat) mod 4096 = 0 \<Longrightarrow> n < 4096 * k \<Longrightarrow> n + 4096 \<le> 4096 * k"
proof -
  assume "n mod 4096 = 0" and lt: "n < 4096 * k"
  then obtain q where q: "n = 4096 * q" by (auto simp: mod_eq_0_iff_dvd elim: dvdE)
  with lt have "Suc q \<le> k" by simp
  then have "4096 * Suc q \<le> 4096 * k" by (rule mult_le_mono2)
  with q show ?thesis by simp
qed

lemma pg_aligned_room: "pg_aligned p \<Longrightarrow> unat p + 4096 \<le> 2 ^ 64"
proof -
  assume "pg_aligned p"
  then have "4096 dvd unat p" by (simp add: pg_aligned_def dvd_eq_mod_eq_0)
  then obtain k where k: "unat p = 4096 * k" by (elim dvdE)
  have "unat p < 2 ^ 64" using unsigned_less [of p] by simp
  with k have "k < 2 ^ 52" by simp
  then show ?thesis using k by simp
qed

lemma unat_page_off:
  assumes "pg_aligned p" and "off < 4096"
  shows "unat (p + of_nat off) = unat p + off"
proof -
  have "unat p + off < 2 ^ 64" using pg_aligned_room [OF assms(1)] assms(2) by simp
  then show ?thesis using assms(2)
    by (simp add: unat_word_ariths unat_of_nat)
qed

lemma PGROUNDDOWN_page_off [pgs]:
  assumes "pg_aligned p" and "off < 4096"
  shows "PGROUNDDOWN (p + of_nat off) = p"
proof -
  have "unat (PGROUNDDOWN (p + of_nat off)) = unat p"
    using assms by (simp add: unat_PGROUNDDOWN unat_page_off pg_aligned_def)
      (metis assms(1) diff_add_inverse2 mod_add_self2 mod_less pg_aligned_def mod_add_left_eq add_0)
  then show ?thesis by (rule u_eqI)
qed

lemma PGROUNDDOWN_aligned [simp]: "pg_aligned p \<Longrightarrow> PGROUNDDOWN p = p"
  using PGROUNDDOWN_page_off [of p 0] by simp

lemma addr_split: "a = PGROUNDDOWN a + of_nat (unat a mod 4096)"
proof -
  have "unat (PGROUNDDOWN a + of_nat (unat a mod 4096)) = unat a"
    by (simp add: unat_page_off unat_PGROUNDDOWN)
  then show ?thesis by (rule u_eqI [OF sym])
qed

lemma page_off_inj:
  assumes "pg_aligned p" "pg_aligned q" "i < 4096" "j < 4096"
    and "p + of_nat i = q + of_nat j"
  shows "p = q \<and> i = j"
proof -
  have "p = q" using assms PGROUNDDOWN_page_off by metis
  with assms show ?thesis using unat_page_off by (metis add_left_cancel)
qed

lemma pg_aligned_add_PGSIZE: "pg_aligned a \<Longrightarrow> pg_aligned (a + PGSIZE)"
proof -
  assume "pg_aligned a"
  moreover have "(unat a + 4096) mod 2 ^ 64 mod 4096 = (unat a + 4096) mod 4096"
    by (rule mod_mod_cancel) simp
  ultimately show ?thesis by (simp add: pg_aligned_def unat_word_ariths)
qed

section \<open>Page-table entries\<close>

lemma bit_lt_1024: "(f::u64) < 1024 \<Longrightarrow> bit f n \<Longrightarrow> n < 10"
proof (rule ccontr)
  assume f: "f < 1024" and b: "bit f n" and "\<not> n < 10"
  have "take_bit 10 f = f" using f by (simp add: take_bit_eq_mod mod_word_less)
  then have "bit (take_bit 10 f) n" using b by simp
  with \<open>\<not> n < 10\<close> show False by (simp add: bit_take_bit_iff)
qed

lemma pg_aligned_take_bit: "pg_aligned p \<longleftrightarrow> take_bit 12 p = 0"
proof -
  have "unat (take_bit 12 p) = unat p mod 4096"
    by (simp only: unat_take_bit) (simp add: take_bit_eq_mod)
  then show ?thesis unfolding pg_aligned_def by (metis unat_0 unat_eq_zero)
qed

lemma pg_aligned_bit: "pg_aligned p \<Longrightarrow> bit p n \<Longrightarrow> 12 \<le> n"
proof (rule ccontr)
  assume "pg_aligned p" "bit p n" "\<not> 12 \<le> n"
  then have "bit (take_bit 12 p) n" by (simp add: bit_take_bit_iff)
  with \<open>pg_aligned p\<close> show False by (simp add: pg_aligned_take_bit)
qed

lemma PTE2PA_PA2PTE:
  assumes "pg_aligned pa" and "f < 1024"
  shows "PTE2PA (PA2PTE pa OR f) = pa"
proof (rule bit_eqI)
  fix n
  show "bit (PTE2PA (PA2PTE pa OR f)) n = bit pa n"
    using bit_lt_1024 [OF assms(2), of "n - 2"] pg_aligned_bit [OF assms(1), of n]
      bit_imp_le_length [of pa n]
    by (auto simp: PTE2PA_def PA2PTE_def bit_simps)
qed

lemma PTE_FLAGS_PA2PTE:
  assumes "f < 1024"
  shows "PTE_FLAGS (PA2PTE pa OR f) = f"
proof (rule bit_eqI)
  fix n
  have m: "(0x3FF::u64) = mask 10" by (simp add: mask_eq_exp_minus_1)
  show "bit (PTE_FLAGS (PA2PTE pa OR f)) n = bit f n"
    using bit_lt_1024 [OF assms, of n] bit_imp_le_length [of f n]
    by (auto simp: PTE_FLAGS_def PA2PTE_def m bit_simps)
qed

lemma pg_aligned_PTE2PA [simp]: "pg_aligned (PTE2PA pte)"
  by (simp add: pg_aligned_take_bit PTE2PA_def take_bit_push_bit)

section \<open>Page-table indices\<close>

lemma PX_bound: "unat (PX level va) < 512"
proof -
  have "PX level va \<le> 0x1FF" by (simp add: PX_def word_and_le1)
  then show ?thesis by (simp add: word_le_nat_alt)
qed

lemma unat_PX: "unat (PX level va) = unat va div 2 ^ (12 + 9 * level) mod 512"
proof -
  have "PX level va = take_bit 9 (drop_bit (PXSHIFT level) va)"
    by (simp only: PX_def take_bit_eq_mask) (simp add: mask_eq_exp_minus_1)
  then have "unat (PX level va) = take_bit 9 (drop_bit (PXSHIFT level) (unat va))"
    by (simp only: unat_take_bit unat_drop_bit_eq)
  then show ?thesis by (simp add: PXSHIFT_def take_bit_eq_mod drop_bit_eq_div)
qed

lemma unat_MAXVA: "unat MAXVA = 2 ^ 38"
  by (simp add: MAXVA_def)

text \<open>Below MAXVA the three indices determine the page.\<close>

lemma PX_page_number:
  assumes "va < MAXVA"
  shows "unat va div 4096 = unat (PX 2 va) * 262144 + unat (PX 1 va) * 512 + unat (PX 0 va)"
proof -
  define m where "m = unat va div 4096"
  have d: "unat (PX 0 va) = m mod 512" "unat (PX 1 va) = m div 512 mod 512"
    "unat (PX 2 va) = m div 512 div 512 mod 512"
    by (simp_all add: unat_PX m_def div_mult2_eq [symmetric])
  have "unat va < 2 ^ 38" using assms by (simp add: word_less_nat_alt unat_MAXVA)
  then have "m div 512 div 512 mod 512 = m div 512 div 512"
    by (simp add: m_def div_mult2_eq [symmetric])
  moreover have "m = m div 512 * 512 + m mod 512" by simp
  moreover have "m div 512 = m div 512 div 512 * 512 + m div 512 mod 512"
    by (simp only: div_mult_mod_eq)
  ultimately show ?thesis unfolding d m_def [symmetric] by linarith
qed

lemma PX_inj:
  assumes "va < MAXVA" and "vb < MAXVA"
    and "PX 2 va = PX 2 vb" and "PX 1 va = PX 1 vb" and "PX 0 va = PX 0 vb"
  shows "PGROUNDDOWN va = PGROUNDDOWN vb"
proof (rule u_eqI)
  show "unat (PGROUNDDOWN va) = unat (PGROUNDDOWN vb)"
    using PX_page_number [OF assms(1)] PX_page_number [OF assms(2)] assms(3-5)
    by (simp only: unat_PGROUNDDOWN_div)
qed

lemma PX_PGROUNDDOWN [simp]: "PX level (PGROUNDDOWN va) = PX level va"
proof -
  have "n div 4096 * 4096 div 2 ^ (12 + 9 * level) = n div 2 ^ (12 + 9 * level)" for n :: nat
    by (simp add: power_add div_mult2_eq)
  then have "unat (PX level (PGROUNDDOWN va)) = unat (PX level va)"
    by (simp add: unat_PX unat_PGROUNDDOWN_div)
  then show ?thesis by (rule u_eqI)
qed

end
