(* ===== verification/Memory.thy ===== *)
theory Memory
  imports Riscv
begin

text \<open>
  Byte-addressed memory and kernel/string.c. Memory is a total map from 64-bit addresses
  to bytes, so every aliasing of the C code is an aliasing of the model. The routines that
  write through a pointer transform the memory; the routines that only read through a
  pointer take the view of it: the bytes p[0], p[1], ... as a function of the index.
\<close>

type_synonym memory = "u64 \<Rightarrow> u8"

section \<open>Blocks of bytes\<close>

definition rd :: "memory \<Rightarrow> u64 \<Rightarrow> nat \<Rightarrow> u8 list" where
  "rd m a n = map (\<lambda>i. m (a + of_nat i)) [0..<n]"

fun wr :: "memory \<Rightarrow> u64 \<Rightarrow> u8 list \<Rightarrow> memory" where
  "wr m a [] = m"
| "wr m a (b # bs) = wr (m(a := b)) (a + 1) bs"

definition load64 :: "memory \<Rightarrow> u64 \<Rightarrow> u64" where
  "load64 m a = of_nat (le_nat (rd m a 8))"

definition store64 :: "memory \<Rightarrow> u64 \<Rightarrow> u64 \<Rightarrow> memory" where
  "store64 m a v = wr m a (nat_le 8 (unat v))"

lemma length_rd [simp]: "length (rd m a n) = n"
  by (simp add: rd_def)

lemma rd_nth [simp]: "i < n \<Longrightarrow> rd m a n ! i = m (a + of_nat i)"
  by (simp add: rd_def)

lemma unat_minus_Suc: "(x::u64) \<noteq> a \<Longrightarrow> unat (x - a) = Suc (unat (x - (a + 1)))"
proof -
  assume "x \<noteq> a"
  then have "x - a \<noteq> 0" by simp
  then have "unat (x - a) = Suc (unat (x - a - 1))"
    using unat_minus_one [of "x - a"] unat_gt_0 [of "x - a"] by simp
  then show ?thesis by (simp add: algebra_simps)
qed

lemma unat_m1_64 [simp]: "unat (- 1 :: u64) = 2 ^ 64 - 1"
  by (simp add: unsigned_minus_1_eq_mask mask_eq_exp_minus_1)

text \<open>A block write, pointwise: the block is the cyclic interval that starts at a.\<close>

lemma wr_apply:
  "length bs \<le> 2 ^ 64 \<Longrightarrow>
   wr m a bs x = (if unat (x - a) < length bs then bs ! unat (x - a) else m x)"
proof (induction bs arbitrary: m a)
  case Nil
  then show ?case by simp
next
  case (Cons b bs)
  show ?case
  proof (cases "x = a")
    case True
    have "\<not> unat (x - (a + 1)) < length bs" using Cons.prems True by simp
    then show ?thesis using Cons True by simp
  next
    case False
    then show ?thesis using Cons by (simp add: unat_minus_Suc)
  qed
qed

lemma rd_wr_same: "length bs \<le> 2 ^ 64 \<Longrightarrow> rd (wr m a bs) a (length bs) = bs"
proof (rule nth_equalityI)
  fix i assume len: "length bs \<le> 2 ^ 64" and "i < length (rd (wr m a bs) a (length bs))"
  then have i: "i < length bs" by simp
  then have "unat (of_nat i :: u64) = i" using len by (simp add: unat_of_nat)
  then show "rd (wr m a bs) a (length bs) ! i = bs ! i" using i len by (simp add: wr_apply)
qed simp

lemma wr_outside:
  "length bs \<le> 2 ^ 64 \<Longrightarrow> length bs \<le> unat (x - a) \<Longrightarrow> wr m a bs x = m x"
  by (simp add: wr_apply)

lemma rd_cong: "(\<And>i. i < n \<Longrightarrow> m (a + of_nat i) = m' (a + of_nat i)) \<Longrightarrow> rd m a n = rd m' a n"
  by (simp add: rd_def)

lemma store64_outside: "\<not> x - a < 8 \<Longrightarrow> store64 m a v x = m x"
  unfolding store64_def by (intro wr_outside) (simp_all add: word_less_nat_alt)

lemma load64_store64 [simp]: "load64 (store64 m a v) a = v"
proof -
  have "rd (wr m a (nat_le 8 (unat v))) a (length (nat_le 8 (unat v))) = nat_le 8 (unat v)"
    by (rule rd_wr_same) simp
  moreover have "unat v < 256 ^ 8" using unsigned_less [of v] by simp
  ultimately show ?thesis by (simp add: load64_def store64_def le_nat_nat_le)
qed

section \<open>memset and memmove\<close>

fun memset_loop :: "memory \<Rightarrow> u64 \<Rightarrow> u8 \<Rightarrow> nat \<Rightarrow> nat \<Rightarrow> memory" where
  "memset_loop m dst c i 0 = m"
| "memset_loop m dst c i (Suc k) = memset_loop (m(dst + of_nat i := c)) dst c (Suc i) k"

definition memset :: "memory \<Rightarrow> u64 \<Rightarrow> int \<Rightarrow> u32 \<Rightarrow> memory" where
  "memset m dst c n = memset_loop m dst (of_int c) 0 (unat n)"

fun copy_fwd :: "memory \<Rightarrow> u64 \<Rightarrow> u64 \<Rightarrow> nat \<Rightarrow> memory" where
  "copy_fwd m d s 0 = m"
| "copy_fwd m d s (Suc k) = copy_fwd (m(d := m s)) (d + 1) (s + 1) k"

fun copy_back :: "memory \<Rightarrow> u64 \<Rightarrow> u64 \<Rightarrow> nat \<Rightarrow> memory" where
  "copy_back m d s 0 = m"
| "copy_back m d s (Suc k) = copy_back (m(d - 1 := m (s - 1))) (d - 1) (s - 1) k"

definition memmove :: "memory \<Rightarrow> u64 \<Rightarrow> u64 \<Rightarrow> u32 \<Rightarrow> memory" where
  "memmove m dst src n =
     (if src < dst \<and> src + ucast n > dst
      then copy_back m (dst + ucast n) (src + ucast n) (unat n)
      else copy_fwd m dst src (unat n))"

lemma memset_loop_wr:
  "memset_loop m dst c i k = wr m (dst + of_nat i) (replicate k c)"
  by (induction k arbitrary: m i) (simp_all add: algebra_simps)

lemma memset_wr: "memset m dst c n = wr m dst (replicate (unat n) (of_int c))"
  by (simp add: memset_def memset_loop_wr)

lemma u32_le_64: "unat (n::u32) \<le> 2 ^ 64"
  using u32_lt [of n] by simp

lemma memset_apply:
  "memset m dst c n x = (if unat (x - dst) < unat n then of_int c else m x)"
  using u32_le_64 [of n] by (simp add: memset_wr wr_apply)

lemma copy_fwd_apply:
  assumes "unat (d - s) = 0 \<or> k \<le> unat (d - s)" and "k \<le> 2 ^ 64"
  shows "copy_fwd m d s k x = (if unat (x - d) < k then m (s + (x - d)) else m x)"
  using assms
proof (induction k arbitrary: m d s)
  case 0
  then show ?case by simp
next
  case (Suc k)
  let ?m = "m(d := m s)"
  have "unat ((d + 1) - (s + 1)) = unat (d - s)" by simp
  then have IH: "copy_fwd ?m (d + 1) (s + 1) k x =
      (if unat (x - (d + 1)) < k then ?m (s + 1 + (x - (d + 1))) else ?m x)"
    using Suc.prems by (intro Suc.IH) auto
  show ?case
  proof (cases "x = d")
    case True
    have "\<not> unat (x - (d + 1)) < k" using Suc.prems(2) True by simp
    then show ?thesis using IH True by simp
  next
    case False
    have sx: "s + 1 + (x - (d + 1)) = s + (x - d)" by simp
    have "s + (x - d) \<noteq> d" if "unat (x - d) < Suc k" "unat (d - s) \<noteq> 0"
    proof
      assume "s + (x - d) = d"
      then have "x - d = d - s" by (simp add: algebra_simps)
      then show False using that Suc.prems(1) by simp
    qed
    moreover have "s = d" if "unat (d - s) = 0" using that by (simp add: unat_eq_zero)
    ultimately have "?m (s + (x - d)) = m (s + (x - d))" if "unat (x - d) < Suc k"
      using that False by fastforce
    then show ?thesis using IH False sx unat_minus_Suc [OF False] by auto
  qed
qed

lemma copy_back_apply:
  assumes "unat (s - d) = 0 \<or> k \<le> unat (s - d)" and "k \<le> 2 ^ 64"
  shows "copy_back m (d + of_nat k) (s + of_nat k) k x =
         (if unat (x - d) < k then m (s + (x - d)) else m x)"
  using assms
proof (induction k arbitrary: m)
  case 0
  then show ?case by simp
next
  case (Suc k)
  let ?m = "m(d + of_nat k := m (s + of_nat k))"
  have k: "unat (of_nat k :: u64) = k" using Suc.prems(2) by (simp add: unat_of_nat)
  have IH: "copy_back ?m (d + of_nat k) (s + of_nat k) k x =
      (if unat (x - d) < k then ?m (s + (x - d)) else ?m x)"
    using Suc.prems by (intro Suc.IH) auto
  have "s + (x - d) \<noteq> d + of_nat k" if "unat (x - d) < k" "unat (s - d) \<noteq> 0"
  proof
    assume "s + (x - d) = d + of_nat k"
    then have "s - d = of_nat k - (x - d)" by (simp add: algebra_simps)
    moreover have "x - d \<le> of_nat k" using that k by (simp add: word_le_nat_alt)
    then have "unat (of_nat k - (x - d)) = k - unat (x - d)" by (simp add: unat_sub k)
    ultimately have "unat (s - d) \<le> k" by (metis diff_le_self)
    then show False using Suc.prems(1) that by simp
  qed
  moreover have "s = d" if "unat (s - d) = 0" using that by (simp add: unat_eq_zero)
  moreover have "x = d + of_nat k \<longleftrightarrow> unat (x - d) = k"
    using k by (metis add_diff_cancel_left' diff_add_cancel add.commute u_eqI)
  ultimately show ?case using IH by (auto simp: algebra_simps)
qed

text \<open>
  memmove copies as if through an intermediate buffer, whatever the overlap, as long as
  neither block reaches past the top of the address space.
\<close>

lemma memmove_wr:
  assumes src: "unat src + unat n < 2 ^ 64" and dst: "unat dst + unat n \<le> 2 ^ 64"
  shows "memmove m dst src n = wr m dst (rd m src (unat n))"
proof (rule ext)
  fix x
  let ?n = "unat n"
  have n64: "?n \<le> 2 ^ 64" by (rule u32_le_64)
  have un: "unat (ucast n :: u64) = ?n"
    using u32_lt [of n] by (simp add: unsigned_ucast_eq take_bit_nat_eq_self)
  then have cn: "(ucast n :: u64) = of_nat ?n" using u32_lt [of n]
    by (intro u_eqI) (simp add: unat_of_nat)
  have usn: "unat (src + ucast n) = unat src + ?n"
    using src un by (simp add: unat_word_ariths)
  have wr: "wr m dst (rd m src ?n) x = (if unat (x - dst) < ?n then m (src + (x - dst)) else m x)"
    using n64 by (simp add: wr_apply)
  show "memmove m dst src n x = wr m dst (rd m src ?n) x"
  proof (cases "src < dst \<and> src + ucast n > dst")
    case True
    then have "unat (src - dst) = 2 ^ 64 + unat src - unat dst"
      using unsigned_less [of dst] by (simp add: word_less_nat_alt unat_sub_if')
    then have "?n \<le> unat (src - dst)" using True dst by (simp add: word_less_nat_alt)
    then have "copy_back m (dst + ucast n) (src + ucast n) ?n x
        = (if unat (x - dst) < ?n then m (src + (x - dst)) else m x)"
      unfolding cn by (intro copy_back_apply) (use n64 in auto)
    then show ?thesis using True wr by (simp add: memmove_def)
  next
    case False
    have "unat (dst - src) = 0 \<or> ?n \<le> unat (dst - src)"
    proof (cases "src < dst")
      case True
      then have "unat src + ?n \<le> unat dst" using False usn by (simp add: word_less_nat_alt)
      then show ?thesis using True by (simp add: word_less_nat_alt unat_sub_if')
    next
      case nlt: False
      then show ?thesis using src by (auto simp: word_less_nat_alt unat_sub_if')
    qed
    then have "copy_fwd m dst src ?n x = wr m dst (rd m src ?n) x"
      using n64 wr copy_fwd_apply [of dst src ?n m x] by simp
    then show ?thesis using False by (simp only: memmove_def if_False)
  qed
qed

section \<open>Pages of memory\<close>

lemma in_page: "pg_aligned p \<Longrightarrow> unat (x - p) < 4096 \<longleftrightarrow> PGROUNDDOWN x = p"
proof
  assume al: "pg_aligned p" and "unat (x - p) < 4096"
  then have "PGROUNDDOWN (p + of_nat (unat (x - p))) = p" by (rule PGROUNDDOWN_page_off)
  then show "PGROUNDDOWN x = p" by simp
next
  assume "PGROUNDDOWN x = p"
  then have "x - p = of_nat (unat x mod 4096)" using addr_split [of x] by (simp add: algebra_simps)
  then have "unat (x - p) = unat x mod 4096" by (simp add: unat_of_nat)
  then show "unat (x - p) < 4096" by simp
qed

lemma in_page_block:
  assumes "pg_aligned p" and "off + n \<le> 4096" and "unat (x - (p + of_nat off)) < n"
  shows "PGROUNDDOWN x = p"
proof -
  let ?j = "unat (x - (p + of_nat off))"
  have "x = p + of_nat (off + ?j)" by (simp add: algebra_simps)
  moreover have "off + ?j < 4096" using assms by simp
  ultimately show ?thesis using PGROUNDDOWN_page_off [OF assms(1)] by metis
qed

text \<open>A page-sized memset changes the bytes of its page and no others.\<close>

lemma memset_page:
  assumes "pg_aligned p"
  shows "memset m p c 4096 x = (if PGROUNDDOWN x = p then of_int c else m x)"
  using in_page [OF assms, of x] by (simp add: memset_apply)

lemma wr_page_other:
  assumes "pg_aligned p" and "off + length bs \<le> 4096" and "PGROUNDDOWN x \<noteq> p"
  shows "wr m (p + of_nat off) bs x = m x"
  using in_page_block [OF assms(1,2)] assms by (subst wr_apply) auto

lemma rd_page_cong:
  assumes "pg_aligned p" and "off + n \<le> 4096"
    and "\<And>x. PGROUNDDOWN x = p \<Longrightarrow> m x = m' x"
  shows "rd m (p + of_nat off) n = rd m' (p + of_nat off) n"
proof (rule rd_cong)
  fix i assume "i < n"
  then have "PGROUNDDOWN (p + of_nat (off + i)) = p"
    using assms by (intro PGROUNDDOWN_page_off) auto
  then show "m (p + of_nat off + of_nat i) = m' (p + of_nat off + of_nat i)"
    using assms(3) by (simp add: algebra_simps)
qed

lemma load64_page_cong:
  assumes "pg_aligned p" and "off + 8 \<le> 4096"
    and "\<And>x. PGROUNDDOWN x = p \<Longrightarrow> m x = m' x"
  shows "load64 m (p + of_nat off) = load64 m' (p + of_nat off)"
  using rd_page_cong [OF assms] by (simp add: load64_def)

lemma store64_page_other:
  assumes "pg_aligned p" and "off + 8 \<le> 4096" and "PGROUNDDOWN x \<noteq> p"
  shows "store64 m (p + of_nat off) v x = m x"
  unfolding store64_def using assms by (intro wr_page_other) auto

lemma load64_store64_slot:
  assumes "pg_aligned p" and "i < 512" and "j < 512" and "i \<noteq> j"
  shows "load64 (store64 m (p + of_nat (8 * i)) v) (p + of_nat (8 * j)) = load64 m (p + of_nat (8 * j))"
proof -
  have "rd (store64 m (p + of_nat (8 * i)) v) (p + of_nat (8 * j)) 8 = rd m (p + of_nat (8 * j)) 8"
  proof (rule rd_cong)
    fix k :: nat assume k: "k < 8"
    let ?x = "p + of_nat (8 * j) + of_nat k"
    have "8 \<le> unat (?x - (p + of_nat (8 * i)))"
    proof (rule ccontr)
      assume "\<not> ?thesis"
      then obtain l where l: "l < 8" and e: "?x - (p + of_nat (8 * i)) = of_nat l"
        by (metis not_le of_nat_unat ucast_id)
      have "p + of_nat (8 * j + k) = p + of_nat (8 * i + l)" using e by (simp add: algebra_simps)
      then have "8 * j + k = 8 * i + l" using page_off_inj [OF assms(1) assms(1)] assms(2,3) k l by auto
      then show False using k l assms(4) by arith
    qed
    then show "store64 m (p + of_nat (8 * i)) v ?x = m ?x"
      unfolding store64_def by (intro wr_outside) auto
  qed
  then show ?thesis by (simp add: load64_def)
qed

lemma load64_zero_page:
  assumes "pg_aligned p" and "off + 8 \<le> 4096" and "\<And>x. PGROUNDDOWN x = p \<Longrightarrow> m x = 0"
  shows "load64 m (p + of_nat off) = 0"
proof -
  have "load64 m (p + of_nat off) = load64 (\<lambda>_. 0) (p + of_nat off)"
    using assms by (intro load64_page_cong) auto
  also have "\<dots> = 0" by (simp add: load64_def rd_def upt_rec)
  finally show ?thesis .
qed

section \<open>Reading through pointers: memcmp, strncmp, strlen\<close>

type_synonym view = "nat \<Rightarrow> u8"

definition at :: "memory \<Rightarrow> u64 \<Rightarrow> view" where
  "at m p = (\<lambda>i. m (p + of_nat i))"

definition adv :: "view \<Rightarrow> view" where
  [simp]: "adv p = (\<lambda>i. p (Suc i))"

fun memcmp :: "view \<Rightarrow> view \<Rightarrow> nat \<Rightarrow> int" where
  "memcmp s1 s2 0 = 0"
| "memcmp s1 s2 (Suc n) =
     (if s1 0 \<noteq> s2 0 then uint (s1 0) - uint (s2 0) else memcmp (adv s1) (adv s2) n)"

fun strncmp :: "view \<Rightarrow> view \<Rightarrow> nat \<Rightarrow> int" where
  "strncmp p q 0 = 0"
| "strncmp p q (Suc n) =
     (if p 0 \<noteq> 0 \<and> p 0 = q 0 then strncmp (adv p) (adv q) n
      else uint (p 0) - uint (q 0))"

definition strlen :: "view \<Rightarrow> stop + nat" where
  "strlen s = kwhile (\<lambda>n. s n \<noteq> 0) Suc 0"

text \<open>The C string of at most n bytes that a pointer designates.\<close>

definition cstr :: "view \<Rightarrow> nat \<Rightarrow> u8 list" where
  "cstr p n = takeWhile (\<lambda>c. c \<noteq> 0) (map p [0..<n])"

lemma map_upt_Suc_view: "map p [0..<Suc n] = p 0 # map (adv p) [0..<n]"
  by (simp add: upt_conv_Cons map_Suc_upt [symmetric] comp_def del: upt_Suc)

lemma cstr_simps [simp]:
  "cstr p 0 = []"
  "cstr p (Suc n) = (if p 0 \<noteq> 0 then p 0 # cstr (adv p) n else [])"
  by (simp_all only: cstr_def map_upt_Suc_view) (simp_all)

lemma length_cstr: "length (cstr p n) \<le> n"
  by (simp add: cstr_def) (metis length_takeWhile_le length_map length_upt minus_nat.diff_0)

lemma memcmp_zero: "memcmp s1 s2 n = 0 \<longleftrightarrow> (\<forall>i < n. s1 i = s2 i)"
  by (induction n arbitrary: s1 s2) (auto simp: All_less_Suc2 word_uint_eq_iff)

lemma strncmp_zero: "strncmp p q n = 0 \<longleftrightarrow> cstr p n = cstr q n"
proof (induction n arbitrary: p q)
  case 0
  then show ?case by simp
next
  case (Suc n)
  have "uint (p 0) - uint (q 0) = 0 \<longleftrightarrow> p 0 = q 0" by (simp add: word_uint_eq_iff)
  then show ?case using Suc.IH [of "adv p" "adv q"] by auto
qed

lemma strncmp_swap: "strncmp q p n = - strncmp p q n"
proof (induction n arbitrary: p q)
  case (Suc n)
  show ?case using Suc.IH [of "adv p" "adv q"] by (cases "p 0 = q 0") simp_all
qed simp

section \<open>Writing strings: strncpy and safestrcpy\<close>

text \<open>The bytes stored at s[0], s[1], ..., in this order.\<close>

fun strncpy :: "view \<Rightarrow> nat \<Rightarrow> u8 list" where
  "strncpy t 0 = []"
| "strncpy t (Suc n) = (if t 0 \<noteq> 0 then t 0 # strncpy (adv t) n else 0 # replicate n 0)"

fun safestrcpy :: "view \<Rightarrow> nat \<Rightarrow> u8 list" where
  "safestrcpy t 0 = []"
| "safestrcpy t (Suc 0) = [0]"
| "safestrcpy t (Suc (Suc n)) = (if t 0 \<noteq> 0 then t 0 # safestrcpy (adv t) (Suc n) else [0, 0])"

lemma strncpy_eq: "strncpy t n = cstr t n @ replicate (n - length (cstr t n)) 0"
  by (induction n arbitrary: t) auto

lemma length_strncpy [simp]: "length (strncpy t n) = n"
  by (induction n arbitrary: t) auto

lemma safestrcpy_terminated:
  "0 < n \<Longrightarrow> \<exists>k. safestrcpy t n = cstr t (n - 1) @ replicate (Suc k) 0 \<and> length (safestrcpy t n) \<le> n"
proof (induction t n rule: safestrcpy.induct)
  case (3 t n)
  show ?case
  proof (cases "t 0 = 0")
    case True
    then show ?thesis by (intro exI [of _ 1]) simp
  next
    case False
    with 3 obtain k where "safestrcpy (adv t) (Suc n) = cstr (adv t) n @ replicate (Suc k) 0"
      "length (safestrcpy (adv t) (Suc n)) \<le> Suc n" by auto
    then show ?thesis using False by (intro exI [of _ k]) simp
  qed
qed auto

section \<open>Properties\<close>

text \<open>Memmove copies n bytes as if through an intermediate buffer, for every overlap of
  the two blocks, and changes no other byte of memory.\<close>

theorem memmove_correct:
  assumes "unat src + unat n < 2 ^ 64" and "unat dst + unat n \<le> 2 ^ 64"
  shows "memmove m dst src n x = (if unat (x - dst) < unat n then m (src + (x - dst)) else m x)"
  using memmove_wr [OF assms, of m] u32_le_64 [of n] by (simp add: wr_apply)

theorem memmove_correct_witness:
  "memmove (\<lambda>a. ucast a) 2 1 3 4 = (3 :: u8) \<and> memmove (\<lambda>a. ucast a) 2 1 3 5 = (5 :: u8)"
  using memmove_correct [of 1 3 2 "\<lambda>a. ucast a" 4] memmove_correct [of 1 3 2 "\<lambda>a. ucast a" 5]
  by simp

text \<open>A name stored with strncpy into a field of n bytes fills the field exactly, and
  strncmp over the field finds a queried name equal exactly when the two names agree up to
  their first NUL or n bytes.\<close>

theorem strncpy_strncmp_roundtrip:
  "length (strncpy t n) = n \<and>
   (strncmp q (\<lambda>i. strncpy t n ! i) n = 0 \<longleftrightarrow> cstr q n = cstr t n)"
proof -
  have "map (\<lambda>i. strncpy t n ! i) [0..<n] = strncpy t n"
    using map_nth [of "strncpy t n"] by simp
  then have "cstr (\<lambda>i. strncpy t n ! i) n = takeWhile (\<lambda>c. c \<noteq> 0) (strncpy t n)"
    by (simp add: cstr_def)
  also have "\<dots> = cstr t n"
    by (induction n arbitrary: t) auto
  finally show ?thesis by (simp add: strncmp_zero)
qed

text \<open>safestrcpy into a buffer of n bytes stores at most n bytes, always terminates the
  string, and the string stored is the source truncated to n - 1 bytes.\<close>

theorem safestrcpy_bounded:
  assumes "0 < n"
  shows "length (safestrcpy t n) \<le> n \<and> 0 \<in> set (safestrcpy t n) \<and>
    takeWhile (\<lambda>c. c \<noteq> 0) (safestrcpy t n) = cstr t (n - 1)"
proof -
  obtain k where "safestrcpy t n = cstr t (n - 1) @ replicate (Suc k) 0" "length (safestrcpy t n) \<le> n"
    using safestrcpy_terminated [OF assms] by blast
  moreover have "\<forall>c \<in> set (cstr t (n - 1)). c \<noteq> 0" by (auto simp: cstr_def dest: set_takeWhileD)
  ultimately show ?thesis by (auto simp: takeWhile_append2)
qed

theorem safestrcpy_bounded_witness:
  "length (safestrcpy (\<lambda>i. 65) 3) \<le> 3 \<and> safestrcpy (\<lambda>i. 65) 3 = [65, 65, 0]"
  using safestrcpy_bounded [of 3 "\<lambda>i. 65"] by (simp add: numeral_3_eq_3)

end
