(* ===== verification/Spinlock.thy ===== *)
theory Spinlock
  imports Riscv
begin

text \<open>
  kernel/spinlock.c and the per-CPU state it keeps (struct cpu of kernel/proc.h).

  The first part is the code as a kernel thread executes it on one hart: push_off and
  pop_off nest the disabling of interrupts, acquire and release take and give back a
  lock. A lock that another hart holds makes acquire spin, which is the outcome
  Spin. The second part is the protocol between harts: the atomic swap, the recording of
  the owner and the two stores of release are separate steps of an interleaving
  semantics, and mutual exclusion is proved over all reachable states.
\<close>

section \<open>State\<close>

record cpu =
  cpu_proc :: "nat option"
  noff :: int
  intena :: bool

record spinlock =
  locked :: bool
  lname :: string
  lcpu :: "nat option"

record kcore =
  tp :: nat
  sie :: "nat \<Rightarrow> bool"
  cpus :: "nat \<Rightarrow> cpu"
  locks :: "lock_id \<Rightarrow> spinlock"

abbreviation cur_cpu :: "'a kcore_scheme \<Rightarrow> cpu" where
  "cur_cpu s \<equiv> cpus s (tp s)"

section \<open>Operations\<close>

definition cpuid :: "('a kcore_scheme, nat) km" where
  "cpuid = kget tp"

definition mycpu :: "('a kcore_scheme, cpu) km" where
  "mycpu = kbind cpuid (\<lambda>id. kget (\<lambda>s. cpus s id))"

definition upd_mycpu :: "(cpu \<Rightarrow> cpu) \<Rightarrow> ('a kcore_scheme, unit) km" where
  "upd_mycpu f = kmod (\<lambda>s. s\<lparr>cpus := (cpus s)(tp s := f (cur_cpu s))\<rparr>)"

definition intr_get :: "('a kcore_scheme, bool) km" where
  "intr_get = kget (\<lambda>s. sie s (tp s))"

definition intr_off :: "('a kcore_scheme, unit) km" where
  "intr_off = kmod (\<lambda>s. s\<lparr>sie := (sie s)(tp s := False)\<rparr>)"

definition intr_on :: "('a kcore_scheme, unit) km" where
  "intr_on = kmod (\<lambda>s. s\<lparr>sie := (sie s)(tp s := True)\<rparr>)"

definition push_off :: "('a kcore_scheme, unit) km" where
  "push_off =
     kbind intr_get (\<lambda>old.
     kseq intr_off (
     kbind mycpu (\<lambda>c.
     kseq (if noff c = 0 then upd_mycpu (\<lambda>c. c\<lparr>intena := old\<rparr>) else kret ()) (
     upd_mycpu (\<lambda>c. c\<lparr>noff := noff c + 1\<rparr>)))))"

definition pop_off :: "('a kcore_scheme, unit) km" where
  "pop_off =
     kbind intr_get (\<lambda>on.
     if on then kpanic ''pop_off - interruptible''
     else kbind mycpu (\<lambda>c.
       if noff c < 1 then kpanic ''pop_off''
       else kseq (upd_mycpu (\<lambda>c. c\<lparr>noff := noff c - 1\<rparr>)) (
         kbind mycpu (\<lambda>c.
         if noff c = 0 \<and> intena c then intr_on else kret ()))))"

definition initlock :: "lock_id \<Rightarrow> string \<Rightarrow> ('a kcore_scheme, unit) km" where
  "initlock l name =
     kmod (\<lambda>s. s\<lparr>locks := (locks s)(l := \<lparr>locked = False, lname = name, lcpu = None\<rparr>)\<rparr>)"

definition holding :: "lock_id \<Rightarrow> ('a kcore_scheme, bool) km" where
  "holding l = kbind cpuid (\<lambda>id. kget (\<lambda>s. locked (locks s l) \<and> lcpu (locks s l) = Some id))"

definition upd_lock :: "lock_id \<Rightarrow> (spinlock \<Rightarrow> spinlock) \<Rightarrow> ('a kcore_scheme, unit) km" where
  "upd_lock l f = kmod (\<lambda>s. s\<lparr>locks := (locks s)(l := f (locks s l))\<rparr>)"

definition acquire :: "lock_id \<Rightarrow> ('a kcore_scheme, unit) km" where
  "acquire l =
     kseq push_off (
     kbind (holding l) (\<lambda>h.
     if h then kpanic ''acquire''
     else kbind (kget (\<lambda>s. locked (locks s l))) (\<lambda>busy.
       if busy then kstop (Spin l)
       else kseq (upd_lock l (\<lambda>k. k\<lparr>locked := True\<rparr>)) (
         kbind cpuid (\<lambda>id. upd_lock l (\<lambda>k. k\<lparr>lcpu := Some id\<rparr>))))))"

definition release :: "lock_id \<Rightarrow> ('a kcore_scheme, unit) km" where
  "release l =
     kbind (holding l) (\<lambda>h.
     if \<not> h then kpanic ''release''
     else kseq (upd_lock l (\<lambda>k. k\<lparr>lcpu := None\<rparr>)) (
       kseq (upd_lock l (\<lambda>k. k\<lparr>locked := False\<rparr>)) pop_off))"

definition myproc :: "('a kcore_scheme, nat option) km" where
  "myproc = kseq push_off (kbind mycpu (\<lambda>c. kseq pop_off (kret (cpu_proc c))))"

lemmas core_defs = cpuid_def mycpu_def upd_mycpu_def intr_get_def intr_off_def intr_on_def
  upd_lock_def holding_def

section \<open>Critical sections\<close>

text \<open>
  A hart is settled when its interrupt bookkeeping agrees with the hardware: at depth 0
  the recorded enable bit is the actual one, deeper down interrupts are off. A direct
  intr_on() at depth 0, in scheduler() and usertrap(), leaves the recorded bit stale, so
  the state right after it is not settled; the first push_off/pop_off pair settles it
  (push_pop_off), and until then the recorded bit is not read, because push_off at depth 0
  overwrites it (push_off_resync). Such states satisfy hart_ok below.
\<close>

definition settled :: "'a kcore_scheme \<Rightarrow> bool" where
  "settled s \<longleftrightarrow>
     (noff (cur_cpu s) = 0 \<and> intena (cur_cpu s) = sie s (tp s)) \<or>
     (noff (cur_cpu s) > 0 \<and> \<not> sie s (tp s))"

definition lk_free :: "lock_id \<Rightarrow> 'a kcore_scheme \<Rightarrow> bool" where
  "lk_free l s \<longleftrightarrow> \<not> locked (locks s l) \<and> lcpu (locks s l) = None"

text \<open>The state just after acquiring lock l.\<close>

definition lockit :: "lock_id \<Rightarrow> 'a kcore_scheme \<Rightarrow> 'a kcore_scheme" where
  "lockit l s = s\<lparr>sie := (sie s)(tp s := False),
     cpus := (cpus s)(tp s := (cur_cpu s)\<lparr>noff := noff (cur_cpu s) + 1\<rparr>),
     locks := (locks s)(l := (locks s l)\<lparr>locked := True, lcpu := Some (tp s)\<rparr>)\<rparr>"

lemma cpu_same [simp]:
  "intena c = b \<Longrightarrow> c\<lparr>intena := b\<rparr> = c"
  "noff c = n \<Longrightarrow> c\<lparr>noff := n\<rparr> = c"
  by (auto intro: cpu.equality)

lemma push_off_settled:
  "settled s \<Longrightarrow> push_off s = Inr ((), s\<lparr>sie := (sie s)(tp s := False),
     cpus := (cpus s)(tp s := (cur_cpu s)\<lparr>noff := noff (cur_cpu s) + 1\<rparr>)\<rparr>)"
  by (auto simp: push_off_def core_defs kmon settled_def)

lemma pop_off_settled:
  assumes "settled s"
  shows "pop_off (s\<lparr>sie := (sie s)(tp s := False),
     cpus := (cpus s)(tp s := (cur_cpu s)\<lparr>noff := noff (cur_cpu s) + 1\<rparr>)\<rparr>) = Inr ((), s)"
  using assms by (auto simp: pop_off_def core_defs kmon settled_def fun_upd_idem)

text \<open>push_off and pop_off match, at every depth and for every interrupt state.\<close>

lemma push_pop_off:
  assumes "noff (cur_cpu s) \<ge> 0" and "noff (cur_cpu s) > 0 \<Longrightarrow> \<not> sie s (tp s)"
  shows "\<exists>s'. kseq push_off pop_off s = Inr ((), s') \<and> settled s' \<and> tp s' = tp s \<and>
    sie s' = sie s \<and> locks s' = locks s \<and> noff (cur_cpu s') = noff (cur_cpu s)"
  using assms by (auto simp: push_off_def pop_off_def core_defs kmon settled_def fun_upd_idem)

lemma spinlock_free_eq:
  "\<not> locked k \<Longrightarrow> lcpu k = None \<Longrightarrow> k\<lparr>locked := False, lcpu := None\<rparr> = k"
  by simp

lemma acquire_ok [simp]:
  "settled s \<Longrightarrow> lk_free l s \<Longrightarrow> acquire l s = Inr ((), lockit l s)"
  by (simp add: acquire_def kmon push_off_settled) (simp add: core_defs kmon lk_free_def lockit_def)

lemma release_ok [simp]:
  assumes "settled s" and "lk_free l s"
  shows "release l (lockit l s) = Inr ((), s)"
proof -
  let ?s = "s\<lparr>sie := (sie s)(tp s := False),
     cpus := (cpus s)(tp s := (cur_cpu s)\<lparr>noff := noff (cur_cpu s) + 1\<rparr>)\<rparr>"
  have "(locks s)(l := (locks s l)\<lparr>lcpu := None, locked := False\<rparr>) = locks s"
    using assms(2) by (simp add: lk_free_def fun_upd_idem)
  then have "release l (lockit l s) = pop_off ?s"
    using assms(2) by (simp add: release_def core_defs kmon lockit_def lk_free_def fun_upd_idem)
  then show ?thesis using pop_off_settled [OF assms(1)] by simp
qed

lemma myproc_ok [simp]: "settled s \<Longrightarrow> myproc s = Inr (cpu_proc (cur_cpu s), s)"
  by (simp add: myproc_def kmon push_off_settled) (simp add: core_defs kmon pop_off_settled)

text \<open>The failure branches: re-acquiring panics, another hart's lock spins, releasing a lock not held panics.\<close>

lemma acquire_held:
  "settled s \<Longrightarrow> locked (locks s l) \<Longrightarrow>
   acquire l s = Inl (if lcpu (locks s l) = Some (tp s) then Panic ''acquire'' else Spin l)"
  by (simp add: acquire_def kmon push_off_settled) (simp add: core_defs kmon)

lemma release_not_held:
  "\<not> (locked (locks s l) \<and> lcpu (locks s l) = Some (tp s)) \<Longrightarrow> release l s = Inl (Panic ''release'')"
  by (auto simp: release_def core_defs kmon)

lemma settled_lockit [simp]: "settled s \<Longrightarrow> settled (lockit l s)"
  by (auto simp: settled_def lockit_def)

lemma lk_free_lockit [simp]: "lk_free k (lockit l s) \<longleftrightarrow> k \<noteq> l \<and> lk_free k s"
  by (auto simp: lk_free_def lockit_def)

lemma lockit_core [simp]:
  "tp (lockit l s) = tp s"
  "cpu_proc (cpus (lockit l s) i) = cpu_proc (cpus s i)"
  "kcore.more (lockit l s) = kcore.more s"
  by (simp_all add: lockit_def)

text \<open>
  What every state of the code satisfies: the depth is not negative and interrupts are off
  inside a critical section. resync brings the recorded enable bit up to date, which is
  what push_off at depth 0 does first.
\<close>

definition hart_ok :: "'a kcore_scheme \<Rightarrow> bool" where
  "hart_ok s \<longleftrightarrow> 0 \<le> noff (cur_cpu s) \<and> (0 < noff (cur_cpu s) \<longrightarrow> \<not> sie s (tp s))"

definition resync :: "'a kcore_scheme \<Rightarrow> 'a kcore_scheme" where
  "resync s = (if noff (cur_cpu s) = 0
     then s\<lparr>cpus := (cpus s)(tp s := (cur_cpu s)\<lparr>intena := sie s (tp s)\<rparr>)\<rparr> else s)"

lemma settled_resync: "hart_ok s \<Longrightarrow> settled (resync s)"
  by (auto simp: hart_ok_def resync_def settled_def)

lemma resync_settled: "settled s \<Longrightarrow> resync s = s"
  by (auto simp: resync_def settled_def fun_upd_idem)

lemma resync_core [simp]:
  "lk_free l (resync s) \<longleftrightarrow> lk_free l s" "tp (resync s) = tp s" "sie (resync s) = sie s"
  "noff (cpus (resync s) i) = noff (cpus s i)"
  by (auto simp: resync_def lk_free_def)

lemma push_off_resync: "push_off (resync s) = push_off s"
  by (auto simp: push_off_def core_defs kmon resync_def)

lemma acquire_resync: "acquire l (resync s) = acquire l s"
  by (simp add: acquire_def kseq_def kbind_def push_off_resync)

primrec acquire_all :: "lock_id list \<Rightarrow> ('a kcore_scheme, unit) km" where
  "acquire_all [] = kret ()"
| "acquire_all (l # ls) = kseq (acquire l) (acquire_all ls)"

primrec release_all :: "lock_id list \<Rightarrow> ('a kcore_scheme, unit) km" where
  "release_all [] = kret ()"
| "release_all (l # ls) = kseq (release_all ls) (release l)"

lemma acquire_all_one: "acquire_all [l] = acquire l" "release_all [l] = release l"
  by (auto simp: kmon fun_eq_iff split: sum.splits)

definition lockits :: "lock_id list \<Rightarrow> 'a kcore_scheme \<Rightarrow> 'a kcore_scheme" where
  "lockits = fold lockit"

lemma lockits_simps [simp]: "lockits [] s = s" "lockits (l # ls) s = lockits ls (lockit l s)"
  by (simp_all add: lockits_def)

lemma acquire_all_ok:
  "settled s \<Longrightarrow> distinct ls \<Longrightarrow> \<forall>l\<in>set ls. lk_free l s \<Longrightarrow> acquire_all ls s = Inr ((), lockits ls s)"
proof (induction ls arbitrary: s)
  case (Cons l ls)
  moreover have "\<forall>k\<in>set ls. lk_free k (lockit l s)" using Cons.prems by auto
  ultimately show ?case using Cons.IH [of "lockit l s"] by (simp add: kmon)
qed (simp add: kmon)

lemma release_all_ok:
  "settled s \<Longrightarrow> distinct ls \<Longrightarrow> \<forall>l\<in>set ls. lk_free l s \<Longrightarrow> release_all ls (lockits ls s) = Inr ((), s)"
proof (induction ls arbitrary: s)
  case (Cons l ls)
  moreover have "\<forall>k\<in>set ls. lk_free k (lockit l s)" using Cons.prems by auto
  ultimately show ?case using Cons.IH [of "lockit l s"] by (simp add: kmon)
qed (simp add: kmon)

lemma lockits_state:
  "tp (lockits ls s) = tp s"
  "l \<notin> set ls \<Longrightarrow> locks (lockits ls s) l = locks s l"
  "noff (cpus (lockits ls s) (tp s)) = noff (cur_cpu s) + int (length ls)"
  "sie (lockits ls s) (tp s) \<longleftrightarrow> ls = [] \<and> sie s (tp s)"
proof (induction ls arbitrary: s)
  case (Cons k ls)
  { case 1 show ?case using Cons(1) by simp }
  { case 2 then show ?case using Cons(2) [of "lockit k s"] by (simp add: lockit_def) }
  { case 3 show ?case using Cons(3) [of "lockit k s"] by (simp add: lockit_def) }
  { case 4 show ?case using Cons(4) [of "lockit k s"] by (simp add: lockit_def) }
qed simp_all

lemma lockits_held:
  "distinct ls \<Longrightarrow> l \<in> set ls \<Longrightarrow> locked (locks (lockits ls s) l) \<and> lcpu (locks (lockits ls s) l) = Some (tp s)"
proof (induction ls arbitrary: s)
  case (Cons k ls)
  then show ?case using Cons.IH [of "lockit k s"] lockits_state(2) [of l ls "lockit k s"]
    by (cases "l = k") (auto simp: lockit_def)
qed simp

text \<open>Holding one lock, a hart still holds it; the lock of another name is untouched.\<close>

lemma holding_lockit [simp]: "holding l (lockit l s) = Inr (True, lockit l s)"
  by (simp add: core_defs kmon lockit_def)

section \<open>The protocol between harts\<close>

text \<open>
  One lock, any number of harts. A hart is outside, in the swap loop of acquire, past the
  successful swap but before it has recorded itself as owner, in its critical section, or
  in release between clearing the owner and clearing the lock word. A hart that fails one
  of the holding checks has panicked.
\<close>

datatype lpc = Outside | Swapping | Won | Critical | Clearing | Panicked

record smp =
  w_locked :: bool
  w_cpu :: "nat option"
  w_pc :: "nat \<Rightarrow> lpc"

definition smp_init :: smp where
  "smp_init = \<lparr>w_locked = False, w_cpu = None, w_pc = (\<lambda>_. Outside)\<rparr>"

definition w_holding :: "smp \<Rightarrow> nat \<Rightarrow> bool" where
  "w_holding w h \<longleftrightarrow> w_locked w \<and> w_cpu w = Some h"

inductive smp_step :: "smp \<Rightarrow> smp \<Rightarrow> bool" where
  enter: "w_pc w h = Outside \<Longrightarrow>
     smp_step w (w\<lparr>w_pc := (w_pc w)(h := if w_holding w h then Panicked else Swapping)\<rparr>)"
| reenter: "w_pc w h = Critical \<Longrightarrow> w_holding w h \<Longrightarrow>
     smp_step w (w\<lparr>w_pc := (w_pc w)(h := Panicked)\<rparr>)"
| swap: "w_pc w h = Swapping \<Longrightarrow>
     smp_step w (w\<lparr>w_locked := True, w_pc := (w_pc w)(h := if w_locked w then Swapping else Won)\<rparr>)"
| own: "w_pc w h = Won \<Longrightarrow>
     smp_step w (w\<lparr>w_cpu := Some h, w_pc := (w_pc w)(h := Critical)\<rparr>)"
| disown: "w_pc w h = Critical \<Longrightarrow> w_holding w h \<Longrightarrow>
     smp_step w (w\<lparr>w_cpu := None, w_pc := (w_pc w)(h := Clearing)\<rparr>)"
| disown_panic: "w_pc w h = Critical \<Longrightarrow> \<not> w_holding w h \<Longrightarrow>
     smp_step w (w\<lparr>w_pc := (w_pc w)(h := Panicked)\<rparr>)"
| clear: "w_pc w h = Clearing \<Longrightarrow>
     smp_step w (w\<lparr>w_locked := False, w_pc := (w_pc w)(h := Outside)\<rparr>)"
| stray_release: "w_pc w h = Outside \<Longrightarrow> \<not> w_holding w h \<Longrightarrow>
     smp_step w (w\<lparr>w_pc := (w_pc w)(h := Panicked)\<rparr>)"

inductive smp_reach :: "smp \<Rightarrow> bool" where
  smp_start: "smp_reach smp_init"
| smp_next: "smp_reach w \<Longrightarrow> smp_step w w' \<Longrightarrow> smp_reach w'"

inductive_cases smp_step_cases: "smp_step w w'"

definition inside :: "lpc \<Rightarrow> bool" where
  "inside p \<longleftrightarrow> p = Won \<or> p = Critical \<or> p = Clearing"

text \<open>
  The inductive invariant, with a ghost owner: whoever is inside is the owner, there is an
  owner only while the lock word is set, and the recorded cpu is an owner that is in its
  critical section or died there.
\<close>

definition smp_own :: "smp \<Rightarrow> nat option \<Rightarrow> bool" where
  "smp_own w ow \<longleftrightarrow>
     (\<forall>h. inside (w_pc w h) \<longrightarrow> ow = Some h) \<and> (ow \<noteq> None \<longrightarrow> w_locked w) \<and>
     (\<forall>h. w_pc w h = Critical \<longrightarrow> w_cpu w = Some h) \<and>
     (\<forall>h. w_cpu w = Some h \<longrightarrow> ow = Some h \<and> (w_pc w h = Critical \<or> w_pc w h = Panicked))"

lemma smp_own_inside: "smp_own w ow \<Longrightarrow> inside (w_pc w h) \<Longrightarrow> ow = Some h"
  unfolding smp_own_def by blast

lemma smp_own_cpu:
  "smp_own w ow \<Longrightarrow> w_cpu w = Some h \<Longrightarrow> ow = Some h \<and> (w_pc w h = Critical \<or> w_pc w h = Panicked)"
  unfolding smp_own_def by blast

lemma smp_own_critical: "smp_own w ow \<Longrightarrow> w_pc w h = Critical \<Longrightarrow> w_cpu w = Some h"
  unfolding smp_own_def by blast

lemma smp_step_own:
  assumes "smp_step w w'" and "smp_own w ow"
  shows "\<exists>ow'. smp_own w' ow'"
  using assms
proof (cases rule: smp_step.cases)
  case (swap h)
  then show ?thesis using assms(2)
    by (intro exI [of _ "if w_locked w then ow else Some h"]) (auto simp: smp_own_def inside_def)
next
  case (clear h)
  have "w_cpu w = None"
  proof (cases "w_cpu w")
    case (Some k)
    moreover have "ow = Some h" using smp_own_inside [OF assms(2)] clear by (simp add: inside_def)
    ultimately show ?thesis using smp_own_cpu [OF assms(2)] clear by fastforce
  qed simp
  then show ?thesis using clear assms(2)
    by (intro exI [of _ None]) (auto simp: smp_own_def inside_def split: if_splits)
qed (intro exI [of _ ow], auto simp: smp_own_def inside_def w_holding_def)+

lemma smp_reach_own: "smp_reach w \<Longrightarrow> \<exists>ow. smp_own w ow"
proof (induction rule: smp_reach.induct)
  case smp_start
  show ?case by (rule exI [of _ None]) (simp add: smp_own_def smp_init_def inside_def)
next
  case (smp_next w w')
  then show ?case by (blast intro: smp_step_own)
qed

section \<open>Properties\<close>

text \<open>C4: over every interleaving of the harts, at most one hart is in the critical section of a
  spin lock, and for that hart the holding check of release succeeds.\<close>

theorem spinlock_mutual_exclusion:
  assumes "smp_reach w" and "w_pc w h = Critical"
  shows "w_holding w h \<and> (w_pc w k = Critical \<longrightarrow> k = h) \<and> w_pc w k \<noteq> Won"
proof -
  obtain ow where ow: "smp_own w ow" using smp_reach_own [OF assms(1)] by blast
  have o: "ow = Some h" using smp_own_inside [OF ow, of h] assms(2) by (simp add: inside_def)
  have c: "w_cpu w = Some h" by (rule smp_own_critical [OF ow assms(2)])
  have "w_locked w" using ow o by (simp add: smp_own_def)
  moreover have "k = h" if "inside (w_pc w k)" using smp_own_inside [OF ow that] o by simp
  ultimately show ?thesis using c assms(2) by (auto simp: w_holding_def inside_def)
qed

theorem spinlock_mutual_exclusion_witness:
  "\<exists>w. smp_reach w \<and> w_pc w 1 = Critical \<and> w_pc w 0 = Swapping \<and> w_holding w 1"
proof -
  let ?w1 = "smp_init\<lparr>w_pc := (w_pc smp_init)(1 := Swapping)\<rparr>"
  let ?w2 = "?w1\<lparr>w_locked := True, w_pc := (w_pc ?w1)(1 := Won)\<rparr>"
  let ?w3 = "?w2\<lparr>w_cpu := Some 1, w_pc := (w_pc ?w2)(1 := Critical)\<rparr>"
  let ?w4 = "?w3\<lparr>w_pc := (w_pc ?w3)(0 := Swapping)\<rparr>"
  have "smp_reach ?w1"
    using smp_next [OF smp_start enter [of smp_init 1]] by (simp add: smp_init_def w_holding_def)
  then have "smp_reach ?w2"
    using smp_next [OF _ swap [of ?w1 1]] by (simp add: smp_init_def)
  then have "smp_reach ?w3" using smp_next [OF _ own [of ?w2 1]] by simp
  then have r: "smp_reach ?w4"
    using smp_next [OF _ enter [of ?w3 0]] by (simp add: smp_init_def w_holding_def)
  then show ?thesis using spinlock_mutual_exclusion [OF r, of 1 0] by (intro exI [of _ ?w4]) simp
qed

text \<open>C5: acquiring a free lock l turns interrupts off, raises the depth by one and records this
  hart as the holder, whatever the interrupt state was; releasing it gives back exactly the
  old state, except that at depth 0 the recorded enable bit intena now is the actual one. The
  same holds of any number of nested locks, released in the reverse order.\<close>

theorem critical_section_restores:
  assumes "hart_ok s"
  shows "(lk_free l s \<longrightarrow> (\<exists>s1. acquire l s = Inr ((), s1) \<and> \<not> sie s1 (tp s1) \<and>
      noff (cur_cpu s1) = noff (cur_cpu s) + 1 \<and> holding l s1 = Inr (True, s1) \<and>
      release l s1 = Inr ((), resync s))) \<and>
    (ls \<noteq> [] \<and> distinct ls \<and> (\<forall>l\<in>set ls. lk_free l s) \<longrightarrow>
      (\<exists>s1. acquire_all ls s = Inr ((), s1) \<and> \<not> sie s1 (tp s1) \<and>
        noff (cur_cpu s1) = noff (cur_cpu s) + int (length ls) \<and>
        (\<forall>l\<in>set ls. holding l s1 = Inr (True, s1)) \<and>
        release_all ls s1 = Inr ((), resync s)))"
proof (intro conjI impI)
  note st = settled_resync [OF assms]
  have many: "\<exists>s1. acquire_all ls s = Inr ((), s1) \<and> \<not> sie s1 (tp s1) \<and>
        noff (cur_cpu s1) = noff (cur_cpu s) + int (length ls) \<and>
        (\<forall>l\<in>set ls. holding l s1 = Inr (True, s1)) \<and> release_all ls s1 = Inr ((), resync s)"
    if ls: "ls \<noteq> []" "distinct ls" "\<forall>l\<in>set ls. lk_free l s" for ls
  proof -
    have "acquire_all ls s = acquire_all ls (resync s)"
      using ls(1) by (cases ls) (simp_all add: kseq_def kbind_def acquire_resync)
    then show ?thesis
      using acquire_all_ok [OF st ls(2)] release_all_ok [OF st ls(2)] ls
        lockits_state(1,3,4) [of ls "resync s"] lockits_held [OF ls(2), of _ "resync s"]
      by (simp add: holding_def cpuid_def kmon)
  qed
  then show "\<exists>s1. acquire_all ls s = Inr ((), s1) \<and> \<not> sie s1 (tp s1) \<and>
        noff (cur_cpu s1) = noff (cur_cpu s) + int (length ls) \<and>
        (\<forall>l\<in>set ls. holding l s1 = Inr (True, s1)) \<and> release_all ls s1 = Inr ((), resync s)"
    if "ls \<noteq> [] \<and> distinct ls \<and> (\<forall>l\<in>set ls. lk_free l s)" using that by blast
  show "\<exists>s1. acquire l s = Inr ((), s1) \<and> \<not> sie s1 (tp s1) \<and>
      noff (cur_cpu s1) = noff (cur_cpu s) + 1 \<and> holding l s1 = Inr (True, s1) \<and>
      release l s1 = Inr ((), resync s)" if "lk_free l s"
    using many [of "[l]"] that by (simp add: acquire_all_one del: acquire_all.simps release_all.simps)
qed

theorem critical_section_restores_witness:
  "let s = \<lparr>tp = 0, sie = (\<lambda>_. True), cpus = (\<lambda>_. \<lparr>cpu_proc = None, noff = 0, intena = False\<rparr>),
      locks = (\<lambda>_. \<lparr>locked = False, lname = [], lcpu = None\<rparr>)\<rparr>
   in (\<exists>s1. acquire KmemLock s = Inr ((), s1) \<and> release KmemLock s1 = Inr ((), resync s)) \<and>
      (\<exists>s1. acquire_all [KmemLock, LogLock] s = Inr ((), s1) \<and> noff (cur_cpu s1) = 2 \<and>
        release_all [KmemLock, LogLock] s1 = Inr ((), resync s))"
  using critical_section_restores
    [of "\<lparr>tp = 0, sie = (\<lambda>_. True), cpus = (\<lambda>_. \<lparr>cpu_proc = None, noff = 0, intena = False\<rparr>),
      locks = (\<lambda>_. \<lparr>locked = False, lname = [], lcpu = None\<rparr>)\<rparr>" KmemLock "[KmemLock, LogLock]"]
  by (auto simp: hart_ok_def lk_free_def Let_def simp del: acquire_all.simps release_all.simps)

text \<open>The error branches of the lock operations: acquiring a lock that this hart holds panics,
  acquiring one that is taken elsewhere spins, releasing one that this hart does not hold
  panics.\<close>

theorem lock_misuse:
  assumes "settled s"
  shows "(locked (locks s l) \<longrightarrow>
      acquire l s = Inl (if lcpu (locks s l) = Some (tp s) then Panic ''acquire'' else Spin l)) \<and>
    (\<not> (locked (locks s l) \<and> lcpu (locks s l) = Some (tp s)) \<longrightarrow> release l s = Inl (Panic ''release''))"
  using assms by (simp add: acquire_held release_not_held)

theorem lock_misuse_witness:
  "let s = lockit KmemLock \<lparr>tp = 0, sie = (\<lambda>_. True), cpus = (\<lambda>_. \<lparr>cpu_proc = None, noff = 0, intena = True\<rparr>),
      locks = (\<lambda>_. \<lparr>locked = False, lname = [], lcpu = None\<rparr>)\<rparr>
   in acquire KmemLock s = Inl (Panic ''acquire'') \<and> release LogLock s = Inl (Panic ''release'')"
proof -
  let ?s = "lockit KmemLock \<lparr>tp = 0, sie = (\<lambda>_. True), cpus = (\<lambda>_. \<lparr>cpu_proc = None, noff = 0, intena = True\<rparr>),
      locks = (\<lambda>_. \<lparr>locked = False, lname = [], lcpu = None\<rparr>)\<rparr>"
  have s: "settled ?s" by (simp add: settled_def lockit_def)
  show ?thesis using lock_misuse [OF s, of KmemLock] lock_misuse [OF s, of LogLock]
    by (simp add: Let_def) (simp add: lockit_def)
qed

end
