(* ===== verification/Kalloc.thy ===== *)
theory Kalloc
  imports Memory Spinlock
begin

text \<open>
  The physical page allocator of lab 2, kernel/kalloc.c. The free list lives in the free
  pages themselves: the first eight bytes of a free page hold the address of the next
  one, so the model keeps it in the byte memory and the list of free pages is an
  abstraction of that memory. The interface of a page allocator is a locale; it is
  interpreted here on kalloc and kfree, and in theory Kalloc_Percpu on the per-CPU
  allocator of lab 3.
\<close>

section \<open>State\<close>

text \<open>Memory and the addresses that the linker script supplies (end, etext, trampoline).\<close>

record kmach = kcore +
  mem :: memory
  k_end :: u64
  k_etext :: u64
  k_trampoline :: u64

record kheap = kmach +
  freelist :: u64

record sysinfo =
  freemem :: u64
  nproc :: u64
  freefd :: u64

section \<open>Operations\<close>

definition kfree :: "u64 \<Rightarrow> ('a kheap_scheme, unit) km" where
  "kfree pa =
     kbind (kget k_end) (\<lambda>kend.
     if pa mod PGSIZE \<noteq> 0 \<or> pa < kend \<or> pa \<ge> PHYSTOP then kpanic ''kfree''
     else
       kseq (kmod (\<lambda>s. s\<lparr>mem := memset (mem s) pa 1 (ucast PGSIZE)\<rparr>)) (
       kseq (acquire KmemLock) (
       kseq (kmod (\<lambda>s. s\<lparr>mem := store64 (mem s) pa (freelist s)\<rparr>)) (
       kseq (kmod (\<lambda>s. s\<lparr>freelist := pa\<rparr>)) (
       release KmemLock)))))"

definition kalloc :: "('a kheap_scheme, u64) km" where
  "kalloc =
     kseq (acquire KmemLock) (
     kbind (kget freelist) (\<lambda>r.
     kseq (if r \<noteq> 0 then kmod (\<lambda>s. s\<lparr>freelist := load64 (mem s) r\<rparr>) else kret ()) (
     kseq (release KmemLock) (
     kseq (if r \<noteq> 0 then kmod (\<lambda>s. s\<lparr>mem := memset (mem s) r 5 (ucast PGSIZE)\<rparr>) else kret ()) (
     kret r)))))"

lemma kfree_guard: "kfree pa s = Inr (u, s') \<Longrightarrow> pa < PHYSTOP \<and> pa mod PGSIZE = 0"
  by (auto simp: kfree_def kmon split: if_splits)

lemma PHYSTOP_step: "p < PHYSTOP \<Longrightarrow> unat PHYSTOP - unat (p + PGSIZE) < unat PHYSTOP - unat p"
proof -
  assume p: "p < PHYSTOP"
  then have "unat p < 0x88000000" by (simp add: word_less_nat_alt PHYSTOP_def KERNBASE_def)
  then have "unat (p + PGSIZE) = unat p + 4096" by (simp add: unat_word_ariths)
  with p show ?thesis by (simp add: word_less_nat_alt)
qed

lemma kfree_step:
  "kfree p s = Inr (u, s') \<Longrightarrow> unat PHYSTOP - unat (p + PGSIZE) < unat PHYSTOP - unat p"
  using kfree_guard by (blast intro: PHYSTOP_step)

function freerange_loop :: "u64 \<Rightarrow> u64 \<Rightarrow> ('a kheap_scheme, unit) km" where
  "freerange_loop p pa_end s =
     (if p + PGSIZE \<le> pa_end
      then (case kfree p s of Inl e \<Rightarrow> Inl e | Inr (_, s') \<Rightarrow> freerange_loop (p + PGSIZE) pa_end s')
      else Inr ((), s))"
  by pat_completeness auto
termination
  by (relation "measure (\<lambda>(p, _, _). unat PHYSTOP - unat p)") (auto dest: kfree_step)

declare freerange_loop.simps [simp del]

definition freerange :: "u64 \<Rightarrow> u64 \<Rightarrow> ('a kheap_scheme, unit) km" where
  "freerange pa_start pa_end = freerange_loop (PGROUNDUP pa_start) pa_end"

definition kinit :: "('a kheap_scheme, unit) km" where
  "kinit = kseq (initlock KmemLock ''kmem'') (kbind (kget k_end) (\<lambda>kend. freerange kend PHYSTOP))"

definition calsize :: "sysinfo \<Rightarrow> ('a kheap_scheme, int \<times> sysinfo) km" where
  "calsize info = (\<lambda>s.
     case kwhile (\<lambda>(r, count). r \<noteq> 0) (\<lambda>(r, count). (load64 (mem s) r, count + 1)) (freelist s, 0 :: u64) of
       Inl e \<Rightarrow> Inl e
     | Inr (_, count) \<Rightarrow> Inr ((0, info\<lparr>freemem := count * PGSIZE\<rparr>), s))"

section \<open>The free list\<close>

fun flist :: "memory \<Rightarrow> u64 \<Rightarrow> u64 list \<Rightarrow> bool" where
  "flist m r [] \<longleftrightarrow> r = 0"
| "flist m r (x # xs) \<longleftrightarrow> r = x \<and> x \<noteq> 0 \<and> flist m (load64 m x) xs"

definition kpage :: "'a kmach_scheme \<Rightarrow> u64 \<Rightarrow> bool" where
  "kpage s p \<longleftrightarrow> pg_aligned p \<and> k_end s \<le> p \<and> p < PHYSTOP"

lemma flist_unique: "flist m r xs \<Longrightarrow> flist m r ys \<Longrightarrow> xs = ys"
proof (induction xs arbitrary: r ys)
  case Nil
  then show ?case by (cases ys) auto
next
  case (Cons x xs)
  then show ?case by (cases ys) auto
qed

lemma load64_page_cong0:
  assumes "pg_aligned p" and "\<And>x. PGROUNDDOWN x = p \<Longrightarrow> m x = m' x"
  shows "load64 m p = load64 m' p"
proof -
  have "load64 m (p + of_nat 0) = load64 m' (p + of_nat 0)"
    using assms by (intro load64_page_cong) auto
  then show ?thesis by simp
qed

lemma flist_cong:
  assumes "\<And>x a. x \<in> set xs \<Longrightarrow> PGROUNDDOWN a = x \<Longrightarrow> m a = m' a"
    and "\<And>x. x \<in> set xs \<Longrightarrow> pg_aligned x"
  shows "flist m r xs = flist m' r xs"
  using assms
proof (induction xs arbitrary: r)
  case (Cons x xs)
  have "load64 m x = load64 m' x" using Cons.prems by (intro load64_page_cong0) auto
  moreover have "flist m r' xs = flist m' r' xs" for r'
    by (rule Cons.IH) (use Cons.prems in auto)
  ultimately show ?case by simp
qed simp

text \<open>The allocator's invariant, with the list of free pages.\<close>

definition kmem_inv :: "'a kheap_scheme \<Rightarrow> u64 list \<Rightarrow> bool" where
  "kmem_inv s xs \<longleftrightarrow>
     settled s \<and> lk_free KmemLock s \<and> 0 < k_end s \<and>
     flist (mem s) (freelist s) xs \<and> distinct xs \<and> (\<forall>x \<in> set xs. kpage s x)"

lemma kmach_lockit [simp]:
  "mem (lockit l s) = mem s" "k_end (lockit l s) = k_end s"
  "k_etext (lockit l s) = k_etext s" "k_trampoline (lockit l s) = k_trampoline s"
  "(lockit l s)\<lparr>mem := m\<rparr> = lockit l (s\<lparr>mem := m\<rparr>)"
  "settled (s\<lparr>mem := m\<rparr>) = settled s" "lk_free l (s\<lparr>mem := m\<rparr>) = lk_free l s"
  by (simp_all add: lockit_def settled_def lk_free_def)

lemma kheap_lockit [simp]:
  "freelist (lockit l s) = freelist s"
  "(lockit l s)\<lparr>freelist := f\<rparr> = lockit l (s\<lparr>freelist := f\<rparr>)"
  "settled (s\<lparr>freelist := f\<rparr>) = settled s" "lk_free l (s\<lparr>freelist := f\<rparr>) = lk_free l s"
  by (simp_all add: lockit_def settled_def lk_free_def)

lemma kpage_upd [simp]:
  "kpage (s\<lparr>mem := m\<rparr>) p = kpage s p" "kpage (s'\<lparr>freelist := f\<rparr>) p = kpage s' p"
  by (simp_all add: kpage_def)

lemma kpage_aligned: "kpage s p \<Longrightarrow> pg_aligned p"
  by (simp add: kpage_def)

lemma kpage_nonzero: "kpage s p \<Longrightarrow> 0 < k_end s \<Longrightarrow> p \<noteq> 0"
  by (auto simp: kpage_def)

lemma ucast_PGSIZE [simp]: "(ucast PGSIZE :: u32) = 4096"
  by (simp add: PGSIZE_def)

lemma kalloc_Nil: "kmem_inv s [] \<Longrightarrow> kalloc s = Inr (0, s)"
  by (simp add: kmem_inv_def kalloc_def kmon)

lemma kalloc_eq:
  assumes "kmem_inv s (x # xs)"
  shows "kalloc s = Inr (x, s\<lparr>freelist := load64 (mem s) x, mem := memset (mem s) x 5 4096\<rparr>)"
  using assms by (simp add: kmem_inv_def kalloc_def kmon)

lemma kmem_inv_mem:
  assumes "kmem_inv s xs" and "\<And>x a. x \<in> set xs \<Longrightarrow> PGROUNDDOWN a = x \<Longrightarrow> m a = mem s a"
  shows "kmem_inv (s\<lparr>mem := m\<rparr>) xs"
proof -
  have "flist m (freelist s) xs = flist (mem s) (freelist s) xs"
    using assms by (intro flist_cong) (auto simp: kmem_inv_def kpage_def)
  then show ?thesis using assms(1) by (simp add: kmem_inv_def)
qed

lemma kalloc_inv:
  assumes "kmem_inv s (x # xs)"
  shows "kmem_inv (s\<lparr>freelist := load64 (mem s) x, mem := memset (mem s) x 5 4096\<rparr>) xs"
proof (rule kmem_inv_mem)
  show "kmem_inv (s\<lparr>freelist := load64 (mem s) x\<rparr>) xs" using assms by (simp add: kmem_inv_def)
  fix y a assume "y \<in> set xs" "PGROUNDDOWN a = y"
  then show "memset (mem s) x 5 4096 a = mem (s\<lparr>freelist := load64 (mem s) x\<rparr>) a"
    using assms by (auto simp: kmem_inv_def kpage_def memset_page)
qed

lemma kfree_eq:
  assumes "kmem_inv s xs" and "kpage s p"
  shows "kfree p s = Inr ((), s\<lparr>mem := store64 (memset (mem s) p 1 4096) p (freelist s), freelist := p\<rparr>)"
  using assms by (simp add: kfree_def kmon kmem_inv_def kpage_def pg_aligned_mod not_less not_le)

lemma kfree_inv:
  assumes "kmem_inv s xs" and "kpage s p" and "p \<notin> set xs"
  shows "kmem_inv (s\<lparr>mem := store64 (memset (mem s) p 1 4096) p (freelist s), freelist := p\<rparr>) (p # xs)"
proof -
  let ?m = "store64 (memset (mem s) p 1 4096) p (freelist s)"
  have p: "pg_aligned p" and p0: "p \<noteq> 0"
    using assms by (auto simp: kpage_def kmem_inv_def)
  have "?m a = mem s a" if "PGROUNDDOWN a \<in> set xs" for a
  proof -
    have "PGROUNDDOWN a \<noteq> p" using that assms(3) by auto
    then show ?thesis using store64_page_other [OF p, of 0] by (simp add: memset_page [OF p])
  qed
  then have "flist ?m (freelist s) xs = flist (mem s) (freelist s) xs"
    using assms by (intro flist_cong) (auto simp: kmem_inv_def kpage_def)
  then show ?thesis using assms p0 by (simp add: kmem_inv_def)
qed

text \<open>Freeing a page outside the managed range, or an unaligned one, panics.\<close>

lemma kfree_bad: "\<not> kpage s pa \<Longrightarrow> kfree pa s = Inl (Panic ''kfree'')"
  by (auto simp: kfree_def kmon kpage_def pg_aligned_mod not_le not_less)

section \<open>The interface of a page allocator\<close>

text \<open>
  What the rest of the kernel relies on: a set of free pages; alloc takes one out of it,
  or returns 0 exactly when it is empty; free puts a page that is not free back.
\<close>

locale page_allocator =
  fixes inv :: "'s \<Rightarrow> bool"
    and frees :: "'s \<Rightarrow> u64 set"
    and managed :: "'s \<Rightarrow> u64 \<Rightarrow> bool"
    and alloc :: "('s, u64) km"
    and free :: "u64 \<Rightarrow> ('s, unit) km"
  assumes frees_finite: "inv s \<Longrightarrow> finite (frees s)"
    and frees_managed: "inv s \<Longrightarrow> p \<in> frees s \<Longrightarrow> managed s p \<and> p \<noteq> 0"
    and alloc_empty: "inv s \<Longrightarrow> frees s = {} \<Longrightarrow> alloc s = Inr (0, s)"
    and alloc_some: "inv s \<Longrightarrow> frees s \<noteq> {} \<Longrightarrow>
      \<exists>p s'. alloc s = Inr (p, s') \<and> p \<in> frees s \<and> inv s' \<and> frees s' = frees s - {p} \<and>
        managed s' = managed s"
    and free_ok: "inv s \<Longrightarrow> managed s p \<Longrightarrow> p \<notin> frees s \<Longrightarrow>
      \<exists>s'. free p s = Inr ((), s') \<and> inv s' \<and> frees s' = insert p (frees s) \<and> managed s' = managed s"
begin

text \<open>Allocating n pages in a row, stopping at the first failure.\<close>

fun alloc_n :: "nat \<Rightarrow> ('s, u64 list) km" where
  "alloc_n 0 s = Inr ([], s)"
| "alloc_n (Suc n) s =
     (case alloc s of Inl e \<Rightarrow> Inl e
      | Inr (p, s') \<Rightarrow> if p = 0 then Inr ([], s')
          else (case alloc_n n s' of Inl e \<Rightarrow> Inl e | Inr (ps, s'') \<Rightarrow> Inr (p # ps, s'')))"

lemma alloc_n_distinct:
  "inv s \<Longrightarrow> \<exists>ps s'. alloc_n n s = Inr (ps, s') \<and> inv s' \<and> distinct ps \<and> set ps \<subseteq> frees s \<and>
     frees s' = frees s - set ps \<and> length ps = min n (card (frees s)) \<and> managed s' = managed s"
proof (induction n arbitrary: s)
  case 0
  then show ?case by simp
next
  case (Suc n)
  show ?case
  proof (cases "frees s = {}")
    case True
    then show ?thesis using Suc.prems alloc_empty by simp
  next
    case False
    then obtain p s1 where 1: "alloc s = Inr (p, s1)" "p \<in> frees s" "inv s1" "frees s1 = frees s - {p}"
      "managed s1 = managed s" using alloc_some [OF Suc.prems] by blast
    obtain ps s2 where 2: "alloc_n n s1 = Inr (ps, s2)" "inv s2" "distinct ps" "set ps \<subseteq> frees s1"
      "frees s2 = frees s1 - set ps" "length ps = min n (card (frees s1))" "managed s2 = managed s1"
      using Suc.IH [OF 1(3)] by blast
    have "p \<noteq> 0" using frees_managed [OF Suc.prems 1(2)] by simp
    moreover have "card (frees s) = Suc (card (frees s1))"
      using 1 frees_finite [OF Suc.prems] by (metis card_Suc_Diff1)
    ultimately show ?thesis using 1 2 by (auto simp: subset_iff)
  qed
qed

lemma alloc_free_restores:
  assumes "inv s" and "frees s \<noteq> {}"
  shows "\<exists>p s1 s2. alloc s = Inr (p, s1) \<and> p \<in> frees s \<and> free p s1 = Inr ((), s2) \<and> inv s2 \<and> frees s2 = frees s"
proof -
  obtain p s1 where 1: "alloc s = Inr (p, s1)" "p \<in> frees s" "inv s1" "frees s1 = frees s - {p}"
    "managed s1 = managed s" using alloc_some [OF assms] by blast
  obtain s2 where 2: "free p s1 = Inr ((), s2)" "inv s2" "frees s2 = insert p (frees s1)"
    using free_ok [OF 1(3), of p] 1 frees_managed [OF assms(1) 1(2)] by auto
  then have "frees s2 = frees s" using 1(2,4) by auto
  then show ?thesis using 1 2 by blast
qed

end

definition kheap_ok :: "'a kheap_scheme \<Rightarrow> bool" where
  "kheap_ok s \<longleftrightarrow> (\<exists>xs. kmem_inv s xs)"

definition kheap_free :: "'a kheap_scheme \<Rightarrow> u64 set" where
  "kheap_free s = {x. \<exists>xs. flist (mem s) (freelist s) xs \<and> x \<in> set xs}"

lemma kheap_free_eq: "kmem_inv s xs \<Longrightarrow> kheap_free s = set xs"
  by (auto simp: kheap_free_def kmem_inv_def dest: flist_unique)

lemma kpage_same_end: "k_end s' = k_end s \<Longrightarrow> kpage s' = kpage s"
  by (rule ext) (simp add: kpage_def)

interpretation kalloc2: page_allocator kheap_ok kheap_free kpage kalloc kfree
proof unfold_locales
  fix s :: "'a kheap_scheme" assume "kheap_ok s"
  then obtain xs where xs: "kmem_inv s xs" by (auto simp: kheap_ok_def)
  note fr = kheap_free_eq [OF xs]
  show "finite (kheap_free s)" by (simp add: fr)
  show "kpage s p \<and> p \<noteq> 0" if "p \<in> kheap_free s" for p
    using that xs by (auto simp: fr kmem_inv_def dest: kpage_nonzero)
  show "kalloc s = Inr (0, s)" if "kheap_free s = {}"
    using that xs fr kalloc_Nil by (cases xs) auto
  show "\<exists>p s'. kalloc s = Inr (p, s') \<and> p \<in> kheap_free s \<and> kheap_ok s' \<and>
      kheap_free s' = kheap_free s - {p} \<and> kpage s' = kpage s" if ne: "kheap_free s \<noteq> {}"
  proof -
    obtain x ys where c: "xs = x # ys" using ne fr by (cases xs) auto
    note inv = kalloc_inv [OF xs [unfolded c]]
    show ?thesis
      using kalloc_eq [OF xs [unfolded c]] inv kheap_free_eq [OF inv] fr c xs
      by (auto simp: kheap_ok_def kmem_inv_def intro: kpage_same_end)
  qed
  show "\<exists>s'. kfree p s = Inr ((), s') \<and> kheap_ok s' \<and> kheap_free s' = insert p (kheap_free s) \<and>
      kpage s' = kpage s" if "kpage s p" "p \<notin> kheap_free s" for p
  proof -
    have inv: "kmem_inv (s\<lparr>mem := store64 (memset (mem s) p 1 4096) p (freelist s), freelist := p\<rparr>) (p # xs)"
      using that xs fr by (intro kfree_inv) auto
    show ?thesis using kfree_eq [OF xs that(1)] inv kheap_free_eq [OF inv] fr
      by (auto simp: kheap_ok_def intro: kpage_same_end)
  qed
qed

section \<open>Initialisation and accounting\<close>

lemma freerange_loop_inv:
  assumes "kmem_inv s xs" and "kpage s p \<or> p = PHYSTOP" and "\<forall>x \<in> set xs. x < p"
    and "pg_aligned p"
  shows "\<exists>s'. freerange_loop p PHYSTOP s = Inr ((), s') \<and>
    kmem_inv s' (rev (map (\<lambda>i. p + of_nat i * PGSIZE) [0..<(unat PHYSTOP - unat p) div 4096]) @ xs) \<and>
    k_end s' = k_end s"
  using assms
proof (induction "unat PHYSTOP - unat p" arbitrary: p s xs rule: less_induct)
  case less
  have st: "unat PHYSTOP = 0x88000000" by (simp add: PHYSTOP_def KERNBASE_def)
  show ?case
  proof (cases "p = PHYSTOP")
    case True
    have "\<not> PHYSTOP + PGSIZE \<le> PHYSTOP" by (simp add: PHYSTOP_def KERNBASE_def PGSIZE_def)
    then show ?thesis using less.prems True by (subst freerange_loop.simps) simp
  next
    case False
    then have kp: "kpage s p" using less.prems by simp
    then have lt: "unat p < 0x88000000" and al: "unat p mod 4096 = 0"
      by (simp_all add: kpage_def word_less_nat_alt st pg_aligned_def)
    have room: "unat p + 4096 \<le> 0x88000000"
      using aligned_below [OF al, where k = "0x88000"] lt by simp
    have up: "unat (p + PGSIZE) = unat p + 4096" using lt by (simp add: unat_word_ariths)
    have le: "p + PGSIZE \<le> PHYSTOP" using room up st by (simp add: word_le_nat_alt)
    let ?s = "s\<lparr>mem := store64 (memset (mem s) p 1 4096) p (freelist s), freelist := p\<rparr>"
    have nin: "p \<notin> set xs" using less.prems(3) by auto
    note inv = kfree_inv [OF less.prems(1) kp nin]
    have kp': "kpage ?s (p + PGSIZE) \<or> p + PGSIZE = PHYSTOP"
    proof (cases "unat p + 4096 = 0x88000000")
      case True
      then show ?thesis using up st by (simp add: word_unat_eq_iff)
    next
      case False
      then have "p + PGSIZE < PHYSTOP" "k_end s \<le> p + PGSIZE"
        using up st room kp by (auto simp: word_less_nat_alt word_le_nat_alt kpage_def)
      then show ?thesis using pg_aligned_add_PGSIZE [OF kpage_aligned [OF kp]] by (simp add: kpage_def)
    qed
    have lts: "\<forall>x \<in> set (p # xs). x < p + PGSIZE"
      using less.prems(3) up by (fastforce simp: word_less_nat_alt)
    have dec: "unat PHYSTOP - unat (p + PGSIZE) < unat PHYSTOP - unat p" using up room st by simp
    obtain s' where s': "freerange_loop (p + PGSIZE) PHYSTOP ?s = Inr ((), s')"
      "kmem_inv s' (rev (map (\<lambda>i. p + PGSIZE + of_nat i * PGSIZE)
         [0..<(unat PHYSTOP - unat (p + PGSIZE)) div 4096]) @ p # xs)" "k_end s' = k_end s"
      using less.hyps [OF dec inv kp' lts] pg_aligned_add_PGSIZE [OF kpage_aligned [OF kp]] by auto
    have "unat PHYSTOP - unat p = 4096 + (unat PHYSTOP - unat (p + PGSIZE))" using room up st by simp
    then have cnt: "(unat PHYSTOP - unat p) div 4096 = Suc ((unat PHYSTOP - unat (p + PGSIZE)) div 4096)"
      by simp
    have "map (\<lambda>i. p + of_nat i * PGSIZE) [0..<Suc n] = p # map (\<lambda>i. p + PGSIZE + of_nat i * PGSIZE) [0..<n]" for n
      by (simp add: upt_conv_Cons map_Suc_upt [symmetric] comp_def algebra_simps del: upt_Suc)
    then show ?thesis
      using s' le kfree_eq [OF less.prems(1) kp] by (subst freerange_loop.simps) (simp add: cnt del: upt_Suc)
  qed
qed

lemma calsize_walk:
  "flist m r xs \<Longrightarrow>
   while_option (\<lambda>(r, count). r \<noteq> 0) (\<lambda>(r, count). (load64 m r, count + 1)) (r, c :: u64)
     = Some (0, c + of_nat (length xs))"
proof (induction xs arbitrary: r c)
  case Nil
  then show ?case by (subst while_option_unfold) simp
next
  case (Cons x xs)
  then show ?case by (subst while_option_unfold) (simp add: algebra_simps)
qed

lemma unat_PGROUNDUP:
  assumes "e \<le> PHYSTOP"
  shows "unat (PGROUNDUP e) = (unat e + 4095) div 4096 * 4096"
proof -
  have "unat e \<le> 0x88000000" using assms by (simp add: word_le_nat_alt PHYSTOP_def KERNBASE_def)
  then have "unat (e + 4095) = unat e + 4095" by (simp add: unat_word_ariths)
  then show ?thesis by (simp add: PGROUNDUP_DOWN unat_PGROUNDDOWN_div)
qed

lemma PGROUNDUP_least:
  assumes "e \<le> PHYSTOP"
  shows "e \<le> PGROUNDUP e" and "pg_aligned q \<Longrightarrow> e \<le> q \<Longrightarrow> PGROUNDUP e \<le> q"
    and "PGROUNDUP e \<le> PHYSTOP"
proof -
  have up: "unat (PGROUNDUP e) = (unat e + 4095) div 4096 * 4096" by (rule unat_PGROUNDUP [OF assms])
  have st: "unat PHYSTOP = 0x88000 * 4096" by (simp add: PHYSTOP_def KERNBASE_def)
  show "e \<le> PGROUNDUP e"
    using up div_mult_mod_eq [of "unat e + 4095" 4096] mod_less_divisor [of 4096 "unat e + 4095"]
    unfolding word_le_nat_alt by linarith
  have least: "PGROUNDUP e \<le> q" if q: "unat q mod 4096 = 0" "e \<le> q" for q
  proof -
    have "unat e + 4095 < unat q + 4096" using q by (simp add: word_le_nat_alt)
    moreover have "unat q = unat q div 4096 * 4096" using q(1) by (metis add_0_right div_mult_mod_eq)
    ultimately have "(unat e + 4095) div 4096 \<le> unat q div 4096"
      by (metis (no_types, lifting) div_add_self2 div_le_mono less_Suc_eq_le less_mult_imp_div_less
          mult.commute add.commute mult_Suc zero_neq_numeral)
    then have "(unat e + 4095) div 4096 * 4096 \<le> unat q div 4096 * 4096" by (rule mult_le_mono1)
    also have "\<dots> \<le> unat q" by simp
    finally show ?thesis by (simp add: word_le_nat_alt up)
  qed
  show "PGROUNDUP e \<le> q" if "pg_aligned q" "e \<le> q" using that least by (simp add: pg_aligned_def)
  show "PGROUNDUP e \<le> PHYSTOP" using least [of PHYSTOP] assms st by simp
qed

lemma freerange_pages:
  assumes "e \<le> PHYSTOP"
  shows "set (map (\<lambda>i. PGROUNDUP e + of_nat i * PGSIZE) [0..<(unat PHYSTOP - unat (PGROUNDUP e)) div 4096])
    = {p. pg_aligned p \<and> e \<le> p \<and> p < PHYSTOP}" (is "?L = ?R")
proof -
  let ?p = "PGROUNDUP e"
  have st: "unat PHYSTOP = 0x88000000" by (simp add: PHYSTOP_def KERNBASE_def)
  have pl: "unat ?p \<le> 0x88000000" and al: "unat ?p mod 4096 = 0"
    using PGROUNDUP_least(3) [OF assms] pg_aligned_PGROUNDUP [of e]
    by (simp_all add: word_le_nat_alt st pg_aligned_def)
  have ui: "unat (?p + of_nat i * PGSIZE) = unat ?p + i * 4096"
    if "i < (unat PHYSTOP - unat ?p) div 4096" for i
  proof -
    have "Suc i * 4096 \<le> (unat PHYSTOP - unat ?p) div 4096 * 4096" using that by simp
    also have "\<dots> \<le> unat PHYSTOP - unat ?p" by simp
    finally have "i * 4096 < 0x88000000 - unat ?p" using st by simp
    then have "unat (of_nat i * PGSIZE) = i * 4096" by (simp add: unat_word_ariths unat_of_nat)
    then show ?thesis using \<open>i * 4096 < 0x88000000 - unat ?p\<close> by (simp add: unat_word_ariths)
  qed
  show ?thesis
  proof (intro set_eqI iffI)
    fix q assume "q \<in> ?L"
    then obtain i where i: "i < (unat PHYSTOP - unat ?p) div 4096" "q = ?p + of_nat i * PGSIZE" by auto
    have "Suc i * 4096 \<le> (unat PHYSTOP - unat ?p) div 4096 * 4096" using i(1) by simp
    also have "\<dots> \<le> unat PHYSTOP - unat ?p" by simp
    finally have "unat ?p + i * 4096 < unat PHYSTOP" using pl st by simp
    moreover have "unat e \<le> unat ?p" using PGROUNDUP_least(1) [OF assms] by (simp add: word_le_nat_alt)
    ultimately show "q \<in> ?R"
      using ui [OF i(1)] i(2) al by (simp add: pg_aligned_def word_less_nat_alt word_le_nat_alt)
  next
    fix q assume "q \<in> ?R"
    then have q: "pg_aligned q" "e \<le> q" "unat q < unat PHYSTOP" by (simp_all add: word_less_nat_alt)
    have ge: "unat ?p \<le> unat q" using PGROUNDUP_least(2) [OF assms q(1,2)] by (simp add: word_le_nat_alt)
    define i where "i = (unat q - unat ?p) div 4096"
    have "(unat q - unat ?p) mod 4096 = 0" using q(1) al ge
      by (metis dvd_diff_nat mod_eq_0_iff_dvd pg_aligned_def)
    then have i: "i * 4096 = unat q - unat ?p" unfolding i_def by (metis add_0_right div_mult_mod_eq)
    have "unat q + 4096 \<le> 0x88000000"
      using aligned_below [of "unat q" "0x88000"] q(1,3) st by (simp add: pg_aligned_def)
    then have "Suc i * 4096 \<le> unat PHYSTOP - unat ?p" using i ge st by simp
    then have lt: "i < (unat PHYSTOP - unat ?p) div 4096" by (simp add: less_eq_div_iff_mult_less_eq Suc_le_eq [symmetric])
    have "q = ?p + of_nat i * PGSIZE" using ui [OF lt] i ge by (intro u_eqI) simp
    then show "q \<in> ?L" using lt by auto
  qed
qed

section \<open>Properties\<close>

text \<open>C6: booting the page allocator puts exactly the page-aligned addresses from the end of the
  kernel up to PHYSTOP on the free list, each once.\<close>

theorem kinit_frees_all_pages:
  fixes s :: "'a kheap_scheme"
  assumes "settled s" and "freelist s = 0" and "0 < k_end s" and "k_end s \<le> PHYSTOP"
  shows "\<exists>s' xs. kinit s = Inr ((), s') \<and> kmem_inv s' xs \<and>
    set xs = {p. pg_aligned p \<and> k_end s \<le> p \<and> p < PHYSTOP}"
proof -
  let ?s = "s\<lparr>locks := (locks s)(KmemLock := \<lparr>locked = False, lname = ''kmem'', lcpu = None\<rparr>)\<rparr>"
  have inv: "kmem_inv ?s []" using assms by (simp add: kmem_inv_def settled_def lk_free_def)
  have kp: "kpage ?s (PGROUNDUP (k_end s)) \<or> PGROUNDUP (k_end s) = PHYSTOP"
    using PGROUNDUP_least(1,3) [OF assms(4)] by (auto simp: kpage_def)
  obtain s' where "freerange_loop (PGROUNDUP (k_end s)) PHYSTOP ?s = Inr ((), s')"
    "kmem_inv s' (rev (map (\<lambda>i. PGROUNDUP (k_end s) + of_nat i * PGSIZE)
       [0..<(unat PHYSTOP - unat (PGROUNDUP (k_end s))) div 4096]))"
    using freerange_loop_inv [OF inv kp] by auto
  then show ?thesis using freerange_pages [OF assms(4)]
    by (intro exI conjI) (auto simp: kinit_def initlock_def freerange_def kmon)
qed

text \<open>A heap with two free pages, for the witnesses.\<close>

definition demo_heap :: kheap where
  "demo_heap = \<lparr>tp = 0, sie = (\<lambda>_. True), cpus = (\<lambda>_. \<lparr>cpu_proc = None, noff = 0, intena = True\<rparr>),
     locks = (\<lambda>_. \<lparr>locked = False, lname = [], lcpu = None\<rparr>),
     mem = store64 (\<lambda>_. 0) 0x87FFF000 0x87FFE000, k_end = 0x87FFE000, k_etext = 0x80001000,
     k_trampoline = 0x80000000, freelist = 0x87FFF000\<rparr>"

lemma demo_heap_inv: "kmem_inv demo_heap [0x87FFF000, 0x87FFE000]"
proof -
  have "load64 (store64 (\<lambda>_. 0) 0x87FFF000 v) (0x87FFE000 + of_nat 0) = load64 (\<lambda>_. 0) (0x87FFE000 + of_nat 0)" for v
  proof (intro load64_page_cong)
    show "pg_aligned 0x87FFE000" by (simp add: pg_aligned_def)
    show "store64 (\<lambda>_. 0) 0x87FFF000 v x = 0" if "PGROUNDDOWN x = 0x87FFE000" for x
      using store64_page_other [of "0x87FFF000" 0 x "\<lambda>_. 0" v] that by (simp add: pg_aligned_def)
  qed simp
  also have "\<dots> = 0" by (simp add: load64_def rd_def upt_rec)
  finally show ?thesis
    by (simp add: kmem_inv_def demo_heap_def settled_def lk_free_def kpage_def pg_aligned_def
        PHYSTOP_def KERNBASE_def)
qed

theorem kinit_frees_all_pages_witness:
  "\<exists>s' xs. kinit (demo_heap\<lparr>freelist := 0\<rparr>) = Inr ((), s') \<and> kmem_inv s' xs \<and>
    set xs = {p. pg_aligned p \<and> 0x87FFE000 \<le> p \<and> p < PHYSTOP}"
  using kinit_frees_all_pages [of "demo_heap\<lparr>freelist := 0\<rparr>"]
  by (simp add: demo_heap_def settled_def PHYSTOP_def KERNBASE_def)

text \<open>C7: kalloc takes the head of the free list and fills it with junk, touching no byte of any
  other page, and returns 0 exactly when the list is empty; kfree of a page that is not free
  puts it back in front: its first eight bytes become the old head of the list, every other
  byte of the page becomes 1, and no byte of any other page changes. kfree panics on every
  address that is not a page of the heap. Both keep the invariant of the allocator.\<close>

theorem kalloc_kfree_correct:
  assumes "kmem_inv s xs"
  shows "(xs = [] \<longrightarrow> kalloc s = Inr (0, s)) \<and>
    (\<forall>x ys. xs = x # ys \<longrightarrow> (\<exists>s'. kalloc s = Inr (x, s') \<and> kmem_inv s' ys \<and>
       (\<forall>a. mem s' a = (if PGROUNDDOWN a = x then 5 else mem s a)))) \<and>
    (\<forall>p. kpage s p \<and> p \<notin> set xs \<longrightarrow> (\<exists>s'. kfree p s = Inr ((), s') \<and> kmem_inv s' (p # xs) \<and>
       load64 (mem s') p = freelist s \<and>
       (\<forall>a. \<not> a - p < 8 \<longrightarrow> mem s' a = (if PGROUNDDOWN a = p then 1 else mem s a)))) \<and>
    (\<forall>p. \<not> kpage s p \<longrightarrow> kfree p s = Inl (Panic ''kfree''))"
proof (intro conjI allI impI)
  show "kalloc s = Inr (0, s)" if "xs = []" using assms that kalloc_Nil by simp
  show "\<exists>s'. kalloc s = Inr (x, s') \<and> kmem_inv s' ys \<and>
       (\<forall>a. mem s' a = (if PGROUNDDOWN a = x then 5 else mem s a))" if xs: "xs = x # ys" for x ys
  proof -
    have "pg_aligned x" using assms xs by (simp add: kmem_inv_def kpage_def)
    then show ?thesis using kalloc_eq [OF assms [unfolded xs]] kalloc_inv [OF assms [unfolded xs]]
      by (simp add: memset_page)
  qed
  show "\<exists>s'. kfree p s = Inr ((), s') \<and> kmem_inv s' (p # xs) \<and>
       load64 (mem s') p = freelist s \<and>
       (\<forall>a. \<not> a - p < 8 \<longrightarrow> mem s' a = (if PGROUNDDOWN a = p then 1 else mem s a))" if p: "kpage s p \<and> p \<notin> set xs" for p
    using kfree_eq [OF assms, of p] kfree_inv [OF assms, of p] p kpage_aligned [of s p]
    by (simp add: memset_page store64_outside)
  show "kfree p s = Inl (Panic ''kfree'')" if "\<not> kpage s p" for p using that by (rule kfree_bad)
qed

theorem kalloc_kfree_correct_witness:
  "(\<exists>s'. kalloc demo_heap = Inr (0x87FFF000, s') \<and> kmem_inv s' [0x87FFE000]) \<and>
   kfree 0 demo_heap = Inl (Panic ''kfree'') \<and>
   (\<exists>s'. kfree 0x87FFE000 (demo_heap\<lparr>freelist := 0\<rparr>) = Inr ((), s') \<and> kmem_inv s' [0x87FFE000] \<and>
      load64 (mem s') 0x87FFE000 = 0 \<and> mem s' 0x87FFE008 = 1)"
proof -
  have inv: "kmem_inv (demo_heap\<lparr>freelist := 0\<rparr>) []"
    by (simp add: kmem_inv_def demo_heap_def settled_def lk_free_def PHYSTOP_def KERNBASE_def)
  have pg: "kpage (demo_heap\<lparr>freelist := 0\<rparr>) 0x87FFE000"
    by (simp add: kpage_def demo_heap_def pg_aligned_def PHYSTOP_def KERNBASE_def)
  have at: "(0x87FFE008::u64) - 0x87FFE000 = 8" "PGROUNDDOWN 0x87FFE008 = 0x87FFE000"
    by (simp_all add: PGROUNDDOWN_def PGSIZE_def)
  obtain s' where fr: "kfree 0x87FFE000 (demo_heap\<lparr>freelist := 0\<rparr>) = Inr ((), s')"
    "kmem_inv s' [0x87FFE000]" "load64 (mem s') 0x87FFE000 = 0"
    "\<forall>a. \<not> a - 0x87FFE000 < 8 \<longrightarrow> mem s' a = (if PGROUNDDOWN a = 0x87FFE000 then 1 else mem (demo_heap\<lparr>freelist := 0\<rparr>) a)"
    using kalloc_kfree_correct [OF inv] pg by (auto simp: demo_heap_def)
  have "mem s' 0x87FFE008 = 1" using fr(4) at by simp
  then show ?thesis using fr kalloc_kfree_correct [OF demo_heap_inv] by (auto simp: kpage_def demo_heap_def)
qed

text \<open>C8: any number of consecutive allocations returns pairwise distinct free pages and stops short
  only when the free list is exhausted; allocating a page and freeing it restores the set of
  free pages. Both hold through the allocator interface.\<close>

theorem kalloc_no_double_allocation:
  fixes s :: "'a kheap_scheme"
  assumes "kheap_ok s"
  shows "(\<exists>ps s'. kalloc2.alloc_n n s = Inr (ps, s') \<and> kheap_ok s' \<and> distinct ps \<and>
      set ps \<subseteq> kheap_free s \<and> kheap_free s' = kheap_free s - set ps \<and>
      length ps = min n (card (kheap_free s))) \<and>
    (kheap_free s \<noteq> {} \<longrightarrow> (\<exists>p s1 s2. kalloc s = Inr (p, s1) \<and> kfree p s1 = Inr ((), s2) \<and>
      kheap_ok s2 \<and> kheap_free s2 = kheap_free s))"
proof
  show "\<exists>ps s'. kalloc2.alloc_n n s = Inr (ps, s') \<and> kheap_ok s' \<and> distinct ps \<and>
      set ps \<subseteq> kheap_free s \<and> kheap_free s' = kheap_free s - set ps \<and>
      length ps = min n (card (kheap_free s))"
    using kalloc2.alloc_n_distinct [OF assms] by blast
  show "kheap_free s \<noteq> {} \<longrightarrow> (\<exists>p s1 s2. kalloc s = Inr (p, s1) \<and> kfree p s1 = Inr ((), s2) \<and>
      kheap_ok s2 \<and> kheap_free s2 = kheap_free s)"
    using kalloc2.alloc_free_restores [OF assms] by blast
qed

theorem kalloc_no_double_allocation_witness:
  "\<exists>ps s'. kalloc2.alloc_n 3 demo_heap = Inr (ps, s') \<and> distinct ps \<and> length ps = 2"
proof -
  have ok: "kheap_ok demo_heap" using demo_heap_inv by (auto simp: kheap_ok_def)
  have "card (kheap_free demo_heap) = 2" using kheap_free_eq [OF demo_heap_inv] by simp
  then show ?thesis using kalloc_no_double_allocation [OF ok, of 3] by auto
qed

text \<open>Calsize terminates on every well-formed free list and reports 4096 bytes for each free
  page.\<close>

theorem calsize_counts:
  assumes "kmem_inv s xs"
  shows "calsize info s = Inr ((0, info\<lparr>freemem := of_nat (length xs) * 4096\<rparr>), s)"
  using calsize_walk [of "mem s" "freelist s" xs 0] assms
  by (simp add: calsize_def kwhile_def kmem_inv_def PGSIZE_def)

theorem calsize_counts_witness:
  "calsize \<lparr>freemem = 0, nproc = 0, freefd = 0\<rparr> demo_heap
     = Inr ((0, \<lparr>freemem = 8192, nproc = 0, freefd = 0\<rparr>), demo_heap)"
  using calsize_counts [OF demo_heap_inv, of "\<lparr>freemem = 0, nproc = 0, freefd = 0\<rparr>"] by simp

end
