(* ===== verification/Kalloc_Percpu.thy ===== *)
theory Kalloc_Percpu
  imports Kalloc
begin

text \<open>
  The page allocator of lab 3: one free list and one lock for each CPU. A CPU frees to its
  own list, allocates from it, and when it is empty steals from the first CPU whose list
  is not. The allocator offers the same interface as the single list of lab 2: it
  interprets the same locale, for the union of the lists.
\<close>

record kheaps = kmach +
  freelists :: "nat \<Rightarrow> u64"

section \<open>Operations\<close>

definition this_cpu :: "('a kcore_scheme, nat) km" where
  "this_cpu = kseq push_off (kbind cpuid (\<lambda>id. kseq pop_off (kret id)))"

definition percpu_kfree :: "u64 \<Rightarrow> ('a kheaps_scheme, unit) km" where
  "percpu_kfree pa =
     kbind this_cpu (\<lambda>cpu.
     kbind (kget k_end) (\<lambda>kend.
     if pa mod PGSIZE \<noteq> 0 \<or> pa < kend \<or> pa \<ge> PHYSTOP then kpanic ''kfree''
     else
       kseq (kmod (\<lambda>s. s\<lparr>mem := memset (mem s) pa 1 (ucast PGSIZE)\<rparr>)) (
       kseq (acquire (KmemsLock cpu)) (
       kseq (kmod (\<lambda>s. s\<lparr>mem := store64 (mem s) pa (freelists s cpu)\<rparr>)) (
       kseq (kmod (\<lambda>s. s\<lparr>freelists := (freelists s)(cpu := pa)\<rparr>)) (
       release (KmemsLock cpu)))))))"

text \<open>The loop over the CPUs in kalloc, from the CPUs still to visit.\<close>

fun steal :: "nat list \<Rightarrow> ('a kheaps_scheme, u64) km" where
  "steal [] = kret 0"
| "steal (i # is) =
     kseq (acquire (KmemsLock i)) (
     kbind (kget (\<lambda>s. freelists s i)) (\<lambda>r.
     if r \<noteq> 0 then
       kseq (kmod (\<lambda>s. s\<lparr>freelists := (freelists s)(i := load64 (mem s) r)\<rparr>)) (
       kseq (release (KmemsLock i)) (
       kret r))
     else kseq (release (KmemsLock i)) (steal is)))"

definition percpu_kalloc :: "('a kheaps_scheme, u64) km" where
  "percpu_kalloc =
     kbind this_cpu (\<lambda>cpu.
     kseq (acquire (KmemsLock cpu)) (
     kbind (kget (\<lambda>s. freelists s cpu)) (\<lambda>r.
     kbind (if r \<noteq> 0 then
         kseq (kmod (\<lambda>s. s\<lparr>freelists := (freelists s)(cpu := load64 (mem s) r)\<rparr>)) (
         kseq (release (KmemsLock cpu)) (
         kret r))
       else kseq (release (KmemsLock cpu)) (steal [0..<NCPU])) (\<lambda>r.
     kseq (if r \<noteq> 0 then kmod (\<lambda>s. s\<lparr>mem := memset (mem s) r 5 (ucast PGSIZE)\<rparr>) else kret ()) (
     kret r)))))"

fun init_kmem_locks :: "nat list \<Rightarrow> ('a kcore_scheme, unit) km" where
  "init_kmem_locks [] = kret ()"
| "init_kmem_locks (i # is) = kseq (initlock (KmemsLock i) ''kmem'') (init_kmem_locks is)"

lemma percpu_kfree_guard: "percpu_kfree pa s = Inr (u, s') \<Longrightarrow> pa < PHYSTOP"
  by (auto simp: percpu_kfree_def kmon split: if_splits sum.splits prod.splits)

lemma percpu_kfree_step:
  "percpu_kfree p s = Inr (u, s') \<Longrightarrow> unat PHYSTOP - unat (p + PGSIZE) < unat PHYSTOP - unat p"
  using percpu_kfree_guard by (blast intro: PHYSTOP_step)

function percpu_freerange_loop :: "u64 \<Rightarrow> u64 \<Rightarrow> ('a kheaps_scheme, unit) km" where
  "percpu_freerange_loop p pa_end s =
     (if p + PGSIZE \<le> pa_end
      then (case percpu_kfree p s of Inl e \<Rightarrow> Inl e
            | Inr (_, s') \<Rightarrow> percpu_freerange_loop (p + PGSIZE) pa_end s')
      else Inr ((), s))"
  by pat_completeness auto
termination
  by (relation "measure (\<lambda>(p, _, _). unat PHYSTOP - unat p)") (auto dest: percpu_kfree_step)

declare percpu_freerange_loop.simps [simp del]

definition percpu_freerange :: "u64 \<Rightarrow> u64 \<Rightarrow> ('a kheaps_scheme, unit) km" where
  "percpu_freerange pa_start pa_end = percpu_freerange_loop (PGROUNDUP pa_start) pa_end"

definition percpu_kinit :: "('a kheaps_scheme, unit) km" where
  "percpu_kinit =
     kseq (init_kmem_locks [0..<NCPU]) (kbind (kget k_end) (\<lambda>kend. percpu_freerange kend PHYSTOP))"

section \<open>Invariant\<close>

definition all_free :: "(nat \<Rightarrow> u64 list) \<Rightarrow> u64 list" where
  "all_free xss = concat (map xss [0..<NCPU])"

definition kmems_inv :: "'a kheaps_scheme \<Rightarrow> (nat \<Rightarrow> u64 list) \<Rightarrow> bool" where
  "kmems_inv s xss \<longleftrightarrow>
     settled s \<and> tp s < NCPU \<and> 0 < k_end s \<and>
     (\<forall>i < NCPU. lk_free (KmemsLock i) s \<and> flist (mem s) (freelists s i) (xss i) \<and>
        distinct (xss i) \<and> (\<forall>x \<in> set (xss i). kpage s x)) \<and>
     (\<forall>i < NCPU. \<forall>j < NCPU. \<forall>x. x \<in> set (xss i) \<longrightarrow> x \<in> set (xss j) \<longrightarrow> i = j)"

lemma set_all_free: "set (all_free xss) = (\<Union>i < NCPU. set (xss i))"
  by (auto simp: all_free_def)

lemma kheaps_lockit [simp]:
  "freelists (lockit l s) = freelists s"
  "(lockit l s)\<lparr>freelists := f\<rparr> = lockit l (s\<lparr>freelists := f\<rparr>)"
  "settled (s\<lparr>freelists := f\<rparr>) = settled s" "lk_free l (s\<lparr>freelists := f\<rparr>) = lk_free l s"
  "kpage (s\<lparr>freelists := f\<rparr>) p = kpage s p"
  by (simp_all add: lockit_def settled_def lk_free_def kpage_def)

lemma this_cpu_ok [simp]: "settled s \<Longrightarrow> this_cpu s = Inr (tp s, s)"
  by (simp add: this_cpu_def kmon push_off_settled) (simp add: core_defs kmon pop_off_settled)

text \<open>The state after taking the head x of CPU i's list.\<close>

definition take_from :: "nat \<Rightarrow> u64 \<Rightarrow> 'a kheaps_scheme \<Rightarrow> 'a kheaps_scheme" where
  "take_from i x s = s\<lparr>freelists := (freelists s)(i := load64 (mem s) x)\<rparr>"

lemma steal_eq:
  assumes "kmems_inv s xss" and "set is \<subseteq> {..<NCPU}"
  shows "steal is s = (case filter (\<lambda>i. xss i \<noteq> []) is of
      [] \<Rightarrow> Inr (0, s) | i # _ \<Rightarrow> Inr (hd (xss i), take_from i (hd (xss i)) s))"
  using assms
proof (induction "is")
  case Nil
  then show ?case by (simp add: kmon)
next
  case (Cons i "is")
  then have i: "settled s" "lk_free (KmemsLock i) s" "flist (mem s) (freelists s i) (xss i)"
    by (auto simp: kmems_inv_def)
  then show ?case using Cons by (cases "xss i") (simp_all add: kmon take_from_def)
qed

text \<open>Which list serves an allocation: the CPU's own, else the first that is not empty.\<close>

definition serving :: "nat \<Rightarrow> (nat \<Rightarrow> u64 list) \<Rightarrow> nat option" where
  "serving c xss = (if xss c \<noteq> [] then Some c
     else (case filter (\<lambda>i. xss i \<noteq> []) [0..<NCPU] of [] \<Rightarrow> None | i # _ \<Rightarrow> Some i))"

lemma serving_None: "c < NCPU \<Longrightarrow> serving c xss = None \<longleftrightarrow> all_free xss = []"
  by (auto simp: serving_def all_free_def filter_empty_conv split: list.splits)
    (metis (mono_tags, lifting) Cons_eq_filterD atLeastLessThan_iff in_set_conv_decomp set_upt)

lemma serving_Some: "c < NCPU \<Longrightarrow> serving c xss = Some i \<Longrightarrow> i < NCPU \<and> xss i \<noteq> []"
proof -
  assume "c < NCPU" "serving c xss = Some i"
  then have "i = c \<and> xss c \<noteq> [] \<or> i \<in> set (filter (\<lambda>i. xss i \<noteq> []) [0..<NCPU])"
    by (simp add: serving_def split: if_splits list.splits del: set_filter)
  then show ?thesis using \<open>c < NCPU\<close> by auto
qed

lemma percpu_kalloc_eq:
  assumes "kmems_inv s xss"
  shows "percpu_kalloc s = (case serving (tp s) xss of
      None \<Rightarrow> Inr (0, s)
    | Some i \<Rightarrow> Inr (hd (xss i), (take_from i (hd (xss i)) s)\<lparr>mem := memset (mem s) (hd (xss i)) 5 4096\<rparr>))"
proof -
  have i: "settled s" "lk_free (KmemsLock (tp s)) s" "flist (mem s) (freelists s (tp s)) (xss (tp s))"
    using assms by (auto simp: kmems_inv_def)
  have nz: "hd (xss j) \<noteq> 0" if "j < NCPU" "xss j \<noteq> []" for j
    using that assms by (cases "xss j") (auto simp: kmems_inv_def)
  show ?thesis
  proof (cases "xss (tp s)")
    case (Cons x xs)
    then show ?thesis using i by (simp add: percpu_kalloc_def kmon serving_def take_from_def)
  next
    case Nil
    then have z: "freelists s (tp s) = 0" using i by simp
    have st: "steal [0..<NCPU] s = (case filter (\<lambda>i. xss i \<noteq> []) [0..<NCPU] of
      [] \<Rightarrow> Inr (0, s) | i # _ \<Rightarrow> Inr (hd (xss i), take_from i (hd (xss i)) s))"
      using assms by (rule steal_eq) auto
    show ?thesis
    proof (cases "filter (\<lambda>i. xss i \<noteq> []) [0..<NCPU]")
      case (Cons j js)
      then have "j \<in> set (filter (\<lambda>i. xss i \<noteq> []) [0..<NCPU])" by simp
      then have "hd (xss j) \<noteq> 0" using nz by simp
      then show ?thesis using i z st Cons Nil
        by (simp add: percpu_kalloc_def kmon serving_def take_from_def)
    qed (use i z st Nil in \<open>simp add: percpu_kalloc_def kmon serving_def\<close>)
  qed
qed

lemma kmems_inv_mem:
  assumes "kmems_inv s xss"
    and "\<And>a. PGROUNDDOWN a \<in> set (all_free xss) \<Longrightarrow> m a = mem s a"
  shows "kmems_inv (s\<lparr>mem := m\<rparr>) xss"
proof -
  have "flist m r (xss i) = flist (mem s) r (xss i)" if "i < NCPU" for i r
    using that assms by (intro flist_cong) (auto simp: kmems_inv_def kpage_def set_all_free)
  then show ?thesis using assms(1) by (simp add: kmems_inv_def)
qed

lemma all_free_take:
  assumes "kmems_inv s xss" and "i < NCPU" and "xss i = x # ys"
  shows "set (all_free (xss(i := ys))) = set (all_free xss) - {x}"
proof -
  have "x \<notin> set ys" using assms by (force simp: kmems_inv_def)
  moreover have "x \<notin> set (xss j)" if "j < NCPU" "j \<noteq> i" for j
    using assms that unfolding kmems_inv_def by (metis list.set_intros(1))
  ultimately show ?thesis using assms(2,3)
    by (auto simp: set_all_free split: if_splits) (metis lessThan_iff set_ConsD)
qed

lemma take_from_inv:
  assumes "kmems_inv s xss" and "i < NCPU" and "xss i = x # ys"
  shows "kmems_inv ((take_from i x s)\<lparr>mem := memset (mem s) x 5 4096\<rparr>) (xss(i := ys))"
proof (rule kmems_inv_mem)
  show "kmems_inv (take_from i x s) (xss(i := ys))"
    using assms unfolding kmems_inv_def take_from_def by auto
  fix a assume "PGROUNDDOWN a \<in> set (all_free (xss(i := ys)))"
  then have "PGROUNDDOWN a \<noteq> x" using all_free_take [OF assms] by auto
  moreover have "pg_aligned x" using assms by (auto simp: kmems_inv_def kpage_def)
  ultimately show "memset (mem s) x 5 4096 a = mem (take_from i x s) a"
    by (simp add: memset_page take_from_def)
qed

lemma percpu_kfree_eq:
  assumes "kmems_inv s xss" and "kpage s p"
  shows "percpu_kfree p s = Inr ((), s\<lparr>mem := store64 (memset (mem s) p 1 4096) p (freelists s (tp s)),
     freelists := (freelists s)(tp s := p)\<rparr>)"
  using assms by (simp add: percpu_kfree_def kmon kmems_inv_def kpage_def pg_aligned_mod not_less not_le)

lemma percpu_kfree_inv:
  assumes "kmems_inv s xss" and "kpage s p" and "p \<notin> set (all_free xss)"
  shows "kmems_inv (s\<lparr>mem := store64 (memset (mem s) p 1 4096) p (freelists s (tp s)),
     freelists := (freelists s)(tp s := p)\<rparr>) (xss(tp s := p # xss (tp s)))"
proof -
  let ?m = "store64 (memset (mem s) p 1 4096) p (freelists s (tp s))"
  have p: "pg_aligned p" "p \<noteq> 0" using assms by (auto simp: kpage_def kmems_inv_def)
  have "?m a = mem s a" if "PGROUNDDOWN a \<in> set (all_free xss)" for a
  proof -
    have "PGROUNDDOWN a \<noteq> p" using that assms(3) by auto
    then show ?thesis using store64_page_other [OF p(1), of 0] by (simp add: memset_page [OF p(1)])
  qed
  then have "kmems_inv (s\<lparr>mem := ?m\<rparr>) xss" using assms(1) by (rule kmems_inv_mem [rotated])
  then show ?thesis using assms p unfolding kmems_inv_def set_all_free by auto
qed

section \<open>The interface\<close>

definition kheaps_ok :: "'a kheaps_scheme \<Rightarrow> bool" where
  "kheaps_ok s \<longleftrightarrow> (\<exists>xss. kmems_inv s xss)"

definition kheaps_free :: "'a kheaps_scheme \<Rightarrow> u64 set" where
  "kheaps_free s = {x. \<exists>i < NCPU. \<exists>xs. flist (mem s) (freelists s i) xs \<and> x \<in> set xs}"

lemma kheaps_free_eq: "kmems_inv s xss \<Longrightarrow> kheaps_free s = set (all_free xss)"
  unfolding kheaps_free_def kmems_inv_def set_all_free by (blast dest: flist_unique)

interpretation kalloc3: page_allocator kheaps_ok kheaps_free kpage percpu_kalloc percpu_kfree
proof unfold_locales
  fix s :: "'a kheaps_scheme" assume "kheaps_ok s"
  then obtain xss where xs: "kmems_inv s xss" by (auto simp: kheaps_ok_def)
  note fr = kheaps_free_eq [OF xs]
  have tp: "tp s < NCPU" using xs by (simp add: kmems_inv_def)
  show "finite (kheaps_free s)" by (simp add: fr)
  show "kpage s p \<and> p \<noteq> 0" if "p \<in> kheaps_free s" for p
    using that xs unfolding fr kmems_inv_def set_all_free by (auto dest: kpage_nonzero)
  show "percpu_kalloc s = Inr (0, s)" if "kheaps_free s = {}"
    using that fr serving_None [OF tp, of xss] percpu_kalloc_eq [OF xs] by simp
  show "\<exists>p s'. percpu_kalloc s = Inr (p, s') \<and> p \<in> kheaps_free s \<and> kheaps_ok s' \<and>
      kheaps_free s' = kheaps_free s - {p} \<and> kpage s' = kpage s" if ne: "kheaps_free s \<noteq> {}"
  proof -
    obtain i where i: "serving (tp s) xss = Some i"
      using ne fr serving_None [OF tp, of xss] by fastforce
    then obtain x ys where c: "i < NCPU" "xss i = x # ys"
      using serving_Some [OF tp i] by (auto simp: neq_Nil_conv)
    note inv = take_from_inv [OF xs c]
    have "set (all_free (xss(i := ys))) = set (all_free xss) - {x}" by (rule all_free_take [OF xs c])
    moreover have "x \<in> set (all_free xss)" using c by (force simp: set_all_free)
    ultimately show ?thesis
      using percpu_kalloc_eq [OF xs] i inv kheaps_free_eq [OF inv] fr c
      by (auto simp: kheaps_ok_def take_from_def intro!: kpage_same_end)
  qed
  show "\<exists>s'. percpu_kfree p s = Inr ((), s') \<and> kheaps_ok s' \<and> kheaps_free s' = insert p (kheaps_free s) \<and>
      kpage s' = kpage s" if "kpage s p" "p \<notin> kheaps_free s" for p
  proof -
    have inv: "kmems_inv (s\<lparr>mem := store64 (memset (mem s) p 1 4096) p (freelists s (tp s)),
        freelists := (freelists s)(tp s := p)\<rparr>) (xss(tp s := p # xss (tp s)))"
      using that xs fr by (intro percpu_kfree_inv) auto
    have "set (all_free (xss(tp s := p # xss (tp s)))) = insert p (set (all_free xss))"
      using tp unfolding set_all_free by (auto split: if_splits)
    then show ?thesis using percpu_kfree_eq [OF xs that(1)] inv kheaps_free_eq [OF inv] fr
      by (auto simp: kheaps_ok_def intro!: kpage_same_end)
  qed
qed

section \<open>Properties\<close>

lemma serving_own: "xss c \<noteq> [] \<Longrightarrow> serving c xss = Some c"
  by (simp add: serving_def)

lemma serving_first:
  assumes "xss c = []" and "i < NCPU" and "xss i \<noteq> []" and "\<forall>j < i. xss j = []"
  shows "serving c xss = Some i"
proof -
  have "[0..<NCPU] = [0..<i] @ i # [Suc i..<NCPU]" using assms(2)
    by (metis less_imp_add_positive upt_add_eq_append upt_conv_Cons less_imp_le zero_le)
  then show ?thesis using assms by (simp add: serving_def)
qed

text \<open>C9: the per-CPU allocator serves an allocation from the calling CPU's own list when it has a
  page, else from the lowest-numbered CPU that has one, and returns 0 exactly when every list is
  empty. The page leaves its list, is filled with junk, and no other list and no other page
  changes; every path gives all locks back.\<close>

theorem percpu_kalloc_correct:
  fixes s :: "'a kheaps_scheme"
  assumes "kmems_inv s xss"
  shows "(\<forall>x ys. xss (tp s) = x # ys \<longrightarrow> (\<exists>s'. percpu_kalloc s = Inr (x, s') \<and>
        kmems_inv s' (xss(tp s := ys)) \<and> (\<forall>a. mem s' a = (if PGROUNDDOWN a = x then 5 else mem s a)))) \<and>
    (\<forall>i x ys. xss (tp s) = [] \<and> i < NCPU \<and> xss i = x # ys \<and> (\<forall>j < i. xss j = []) \<longrightarrow>
       (\<exists>s'. percpu_kalloc s = Inr (x, s') \<and> kmems_inv s' (xss(i := ys)) \<and>
         (\<forall>a. mem s' a = (if PGROUNDDOWN a = x then 5 else mem s a)))) \<and>
    ((\<forall>i < NCPU. xss i = []) \<longrightarrow> percpu_kalloc s = Inr (0, s))"
proof -
  have tp: "tp s < NCPU" using assms by (simp add: kmems_inv_def)
  have served: "\<exists>s'. percpu_kalloc s = Inr (x, s') \<and> kmems_inv s' (xss(i := ys)) \<and>
         (\<forall>a. mem s' a = (if PGROUNDDOWN a = x then 5 else mem s a))"
    if "serving (tp s) xss = Some i" "i < NCPU" "xss i = x # ys" for i x ys
  proof -
    have "pg_aligned x" using assms that by (auto simp: kmems_inv_def kpage_def)
    then show ?thesis
      using percpu_kalloc_eq [OF assms] that take_from_inv [OF assms that(2,3)]
      by (simp add: memset_page)
  qed
  moreover have "percpu_kalloc s = Inr (0, s)" if "\<forall>i < NCPU. xss i = []"
  proof -
    have "all_free xss = []" using that by (simp add: all_free_def)
    then show ?thesis using percpu_kalloc_eq [OF assms] serving_None [OF tp, of xss] by simp
  qed
  ultimately show ?thesis using tp serving_own [of xss "tp s"] serving_first [of xss "tp s"] by auto
qed

definition demo_heaps :: kheaps where
  "demo_heaps = \<lparr>tp = 1, sie = (\<lambda>_. True), cpus = (\<lambda>_. \<lparr>cpu_proc = None, noff = 0, intena = True\<rparr>),
     locks = (\<lambda>_. \<lparr>locked = False, lname = [], lcpu = None\<rparr>),
     mem = (\<lambda>_. 0), k_end = 0x87FFE000, k_etext = 0x80001000,
     k_trampoline = 0x80000000,
     freelists = (\<lambda>i. if i = 2 then 0x87FFF000 else if i = 5 then 0x87FFE000 else 0)\<rparr>"

lemma demo_heaps_inv:
  "kmems_inv demo_heaps (\<lambda>i. if i = 2 then [0x87FFF000] else if i = 5 then [0x87FFE000] else [])"
  by (auto simp: kmems_inv_def demo_heaps_def settled_def lk_free_def kpage_def pg_aligned_def
        PHYSTOP_def KERNBASE_def NCPU_def load64_def rd_def upt_rec)

text \<open>CPU 1 has no page of its own and steals from CPU 2.\<close>

theorem percpu_kalloc_correct_witness:
  "\<exists>s'. percpu_kalloc demo_heaps = Inr (0x87FFF000, s') \<and> mem s' 0x87FFF008 = 5"
proof -
  let ?xss = "\<lambda>i::nat. if i = 2 then [0x87FFF000] else if i = 5 then [0x87FFE000] else [] :: u64 list"
  have h: "?xss (tp demo_heaps) = [] \<and> 2 < NCPU \<and> ?xss 2 = 0x87FFF000 # [] \<and> (\<forall>j < 2. ?xss j = [])"
    by (simp add: demo_heaps_def NCPU_def)
  obtain s' where s': "percpu_kalloc demo_heaps = Inr (0x87FFF000, s')"
      "\<forall>a. mem s' a = (if PGROUNDDOWN a = 0x87FFF000 then 5 else mem demo_heaps a)"
    using conjunct1 [OF conjunct2 [OF percpu_kalloc_correct [OF demo_heaps_inv]], THEN spec, THEN spec, THEN spec, THEN mp, OF h]
    by (elim exE conjE)
  have "PGROUNDDOWN 0x87FFF008 = 0x87FFF000" by (simp add: PGROUNDDOWN_def PGSIZE_def)
  then show ?thesis using s' by simp
qed

text \<open>The per-CPU allocator never hands out a page twice: n allocations in a row, stealing
  included, return distinct free pages and fall short of n only when no CPU has a page left; a
  page that is freed is free again.\<close>

theorem percpu_no_double_allocation:
  fixes s :: "'a kheaps_scheme"
  assumes "kheaps_ok s"
  shows "(\<exists>ps s'. kalloc3.alloc_n n s = Inr (ps, s') \<and> kheaps_ok s' \<and> distinct ps \<and>
      set ps \<subseteq> kheaps_free s \<and> kheaps_free s' = kheaps_free s - set ps \<and>
      length ps = min n (card (kheaps_free s))) \<and>
    (kheaps_free s \<noteq> {} \<longrightarrow> (\<exists>p s1 s2. percpu_kalloc s = Inr (p, s1) \<and> percpu_kfree p s1 = Inr ((), s2) \<and>
      kheaps_ok s2 \<and> kheaps_free s2 = kheaps_free s))"
  using kalloc3.alloc_n_distinct [OF assms, of n] kalloc3.alloc_free_restores [OF assms] by blast

theorem percpu_no_double_allocation_witness:
  "\<exists>ps s'. kalloc3.alloc_n 5 demo_heaps = Inr (ps, s') \<and> distinct ps \<and> length ps = 2"
proof -
  have ok: "kheaps_ok demo_heaps" using demo_heaps_inv by (auto simp: kheaps_ok_def)
  have "kheaps_free demo_heaps = {0x87FFF000, 0x87FFE000}"
    unfolding kheaps_free_eq [OF demo_heaps_inv] set_all_free
    by (simp add: NCPU_def eval_nat_numeral lessThan_Suc insert_commute)
  then have "card (kheaps_free demo_heaps) = 2" by simp
  then show ?thesis using percpu_no_double_allocation [OF ok, of 5] by auto
qed

end
