(* ===== verification/Vm.thy ===== *)
theory Vm
  imports Kalloc
begin

text \<open>
  kernel/vm.c: the three-level Sv39 page tables, as they lie in memory. A page table is its
  root page; its entries are 64-bit words of the byte memory. The state of the page
  allocator carries it all. The functions that translate addresses, add and remove
  mappings, grow, shrink, copy and free an address space, and copy bytes between kernel
  and user follow the code statement by statement. Their loops end because walk panics
  beyond MAXVA, or because the byte count decreases.

  The second half abstracts a table in memory to the function leaf that gives the
  leaf entry of each virtual page, under the invariant pt_wf: the pages of the
  table are managed, not free, and form a tree.
\<close>

section \<open>The operations\<close>

definition pte_addr :: "u64 \<Rightarrow> u64 \<Rightarrow> u64" where
  "pte_addr pagetable i = pagetable + 8 * i"

definition valid :: "u64 \<Rightarrow> bool" where
  "valid pte \<longleftrightarrow> pte AND PTE_V \<noteq> 0"

definition poke :: "u64 \<Rightarrow> u64 \<Rightarrow> ('a kmach_scheme, unit) km" where
  "poke a v = kmod (\<lambda>s. s\<lparr>mem := store64 (mem s) a v\<rparr>)"

definition fill :: "u64 \<Rightarrow> int \<Rightarrow> ('a kmach_scheme, unit) km" where
  "fill a c = kmod (\<lambda>s. s\<lparr>mem := memset (mem s) a c (ucast PGSIZE)\<rparr>)"

text \<open>The loop of walk, for the levels that remain.\<close>

fun walk_loop :: "nat \<Rightarrow> u64 \<Rightarrow> u64 \<Rightarrow> bool \<Rightarrow> ('a kheap_scheme, u64) km" where
  "walk_loop 0 pagetable va alloc = kret (pte_addr pagetable (PX 0 va))"
| "walk_loop (Suc level) pagetable va alloc =
     (let pte = pte_addr pagetable (PX (Suc level) va) in
      kbind (kget (\<lambda>s. load64 (mem s) pte)) (\<lambda>e.
      if valid e then walk_loop level (PTE2PA e) va alloc
      else if \<not> alloc then kret 0
      else kbind kalloc (\<lambda>p.
        if p = 0 then kret 0
        else kseq (fill p 0) (
          kseq (poke pte (PA2PTE p OR PTE_V)) (
          walk_loop level p va alloc)))))"

definition walk :: "u64 \<Rightarrow> u64 \<Rightarrow> bool \<Rightarrow> ('a kheap_scheme, u64) km" where
  "walk pagetable va alloc =
     (if va \<ge> MAXVA then kpanic ''walk'' else walk_loop 2 pagetable va alloc)"

definition walkaddr :: "u64 \<Rightarrow> u64 \<Rightarrow> ('a kheap_scheme, u64) km" where
  "walkaddr pagetable va =
     (if va \<ge> MAXVA then kret 0
      else kbind (walk pagetable va False) (\<lambda>pte.
        if pte = 0 then kret 0
        else kbind (kget (\<lambda>s. load64 (mem s) pte)) (\<lambda>e.
          if \<not> valid e then kret 0
          else if e AND PTE_U = 0 then kret 0
          else kret (PTE2PA e))))"

lemma walk_guard: "walk pagetable va alloc s = Inr r \<Longrightarrow> va < MAXVA"
  by (auto simp: walk_def kmon split: if_splits)

lemma MAXVA_step: "a < MAXVA \<Longrightarrow> unat MAXVA - unat (a + PGSIZE) < unat MAXVA - unat a"
proof -
  assume a: "a < MAXVA"
  then have "unat a < 2 ^ 38" by (simp add: word_less_nat_alt unat_MAXVA)
  then have "unat (a + PGSIZE) = unat a + 4096" by (simp add: unat_word_ariths)
  with a show ?thesis by (simp add: word_less_nat_alt)
qed

lemma walk_step:
  "walk pagetable a alloc s = Inr r \<Longrightarrow> unat MAXVA - unat (a + PGSIZE) < unat MAXVA - unat a"
  using walk_guard by (blast intro: MAXVA_step)

function mappages_loop :: "u64 \<Rightarrow> u64 \<Rightarrow> u64 \<Rightarrow> u64 \<Rightarrow> u64 \<Rightarrow> ('a kheap_scheme, int) km" where
  "mappages_loop pagetable a lst pa perm s =
     (case walk pagetable a True s of Inl e \<Rightarrow> Inl e
      | Inr (pte, s1) \<Rightarrow>
          if pte = 0 then Inr (- 1, s1)
          else if valid (load64 (mem s1) pte) then Inl (Panic ''remap'')
          else (case poke pte (PA2PTE pa OR perm OR PTE_V) s1 of Inl e \<Rightarrow> Inl e
            | Inr (_, s2) \<Rightarrow>
                if a = lst then Inr (0, s2)
                else mappages_loop pagetable (a + PGSIZE) lst (pa + PGSIZE) perm s2))"
  by pat_completeness auto
termination
  by (relation "measure (\<lambda>(_, a, _). unat MAXVA - unat a)") (auto dest: walk_step)

declare mappages_loop.simps [simp del]

definition mappages :: "u64 \<Rightarrow> u64 \<Rightarrow> u64 \<Rightarrow> u64 \<Rightarrow> u64 \<Rightarrow> ('a kheap_scheme, int) km" where
  "mappages pagetable va sz pa perm =
     mappages_loop pagetable (PGROUNDDOWN va) (PGROUNDDOWN (va + sz - 1)) pa perm"

function uvmunmap_loop :: "u64 \<Rightarrow> u64 \<Rightarrow> u64 \<Rightarrow> bool \<Rightarrow> ('a kheap_scheme, unit) km" where
  "uvmunmap_loop pagetable a stop do_free s =
     (if a < stop then
        (case walk pagetable a False s of Inl e \<Rightarrow> Inl e
         | Inr (pte, s1) \<Rightarrow>
             if pte = 0 then Inl (Panic ''uvmunmap: walk'')
             else let e = load64 (mem s1) pte in
               if \<not> valid e then Inl (Panic ''uvmunmap: not mapped'')
               else if PTE_FLAGS e = PTE_V then Inl (Panic ''uvmunmap: not a leaf'')
               else (case (if do_free then kfree (PTE2PA e) else kret ()) s1 of Inl e \<Rightarrow> Inl e
                 | Inr (_, s2) \<Rightarrow> (case poke pte 0 s2 of Inl e \<Rightarrow> Inl e
                   | Inr (_, s3) \<Rightarrow> uvmunmap_loop pagetable (a + PGSIZE) stop do_free s3)))
      else Inr ((), s))"
  by pat_completeness auto
termination
  by (relation "measure (\<lambda>(_, a, _). unat MAXVA - unat a)") (auto dest: walk_step)

declare uvmunmap_loop.simps [simp del]

definition uvmunmap :: "u64 \<Rightarrow> u64 \<Rightarrow> u64 \<Rightarrow> bool \<Rightarrow> ('a kheap_scheme, unit) km" where
  "uvmunmap pagetable va npages do_free =
     (if va mod PGSIZE \<noteq> 0 then kpanic ''uvmunmap: not aligned''
      else uvmunmap_loop pagetable va (va + npages * PGSIZE) do_free)"

definition uvmcreate :: "('a kheap_scheme, u64) km" where
  "uvmcreate = kbind kalloc (\<lambda>pagetable.
     if pagetable = 0 then kret 0 else kseq (fill pagetable 0) (kret pagetable))"

definition uvminit :: "u64 \<Rightarrow> u64 \<Rightarrow> u32 \<Rightarrow> ('a kheap_scheme, unit) km" where
  "uvminit pagetable src sz =
     (if ucast sz \<ge> PGSIZE then kpanic ''inituvm: more than a page''
      else kbind kalloc (\<lambda>p.
        kseq (fill p 0) (
        kseq (mappages pagetable 0 PGSIZE p (PTE_W OR PTE_R OR PTE_X OR PTE_U)) (
        kmod (\<lambda>s. s\<lparr>mem := memmove (mem s) p src sz\<rparr>)))))"

text \<open>The page count goes through an int.\<close>

definition uvmdealloc :: "u64 \<Rightarrow> u64 \<Rightarrow> u64 \<Rightarrow> ('a kheap_scheme, u64) km" where
  "uvmdealloc pagetable oldsz newsz =
     (if newsz \<ge> oldsz then kret oldsz
      else kseq (if PGROUNDUP newsz < PGROUNDUP oldsz
          then let npages = (ucast ((PGROUNDUP oldsz - PGROUNDUP newsz) div PGSIZE) :: 32 word)
            in uvmunmap pagetable (PGROUNDUP newsz) (scast npages) True
          else kret ()) (
        kret newsz))"

lemma PGROUNDDOWN_less_MAXVA: "PGROUNDDOWN a < MAXVA \<longleftrightarrow> a < MAXVA"
proof -
  have "n div 4096 * 4096 < 2 ^ 38 \<longleftrightarrow> n < 2 ^ 38" for n :: nat
    using div_less_iff_less_mult [of 4096 n "2 ^ 26"] by simp
  then show ?thesis by (simp add: word_less_nat_alt unat_PGROUNDDOWN_div unat_MAXVA)
qed

lemma mappages_guard:
  assumes "mappages pagetable a sz pa perm s = Inr r"
  shows "a < MAXVA"
proof -
  have "\<exists>r. walk pagetable (PGROUNDDOWN a) True s = Inr r"
    using assms unfolding mappages_def
    by (subst (asm) mappages_loop.simps) (auto split: sum.splits)
  then show ?thesis using walk_guard PGROUNDDOWN_less_MAXVA by blast
qed

lemma mappages_step:
  "mappages pagetable a sz pa perm s = Inr r \<Longrightarrow> unat MAXVA - unat (a + PGSIZE) < unat MAXVA - unat a"
  using mappages_guard by (blast intro: MAXVA_step)

function uvmalloc_loop :: "u64 \<Rightarrow> u64 \<Rightarrow> u64 \<Rightarrow> u64 \<Rightarrow> ('a kheap_scheme, u64) km" where
  "uvmalloc_loop pagetable a oldsz newsz s =
     (if a < newsz then
        (case kalloc s of Inl e \<Rightarrow> Inl e
         | Inr (p, s1) \<Rightarrow>
             if p = 0 then kseq (uvmdealloc pagetable a oldsz) (kret 0) s1
             else (case fill p 0 s1 of Inl e \<Rightarrow> Inl e
               | Inr (_, s2) \<Rightarrow>
                   (case mappages pagetable a PGSIZE p (PTE_W OR PTE_X OR PTE_R OR PTE_U) s2 of Inl e \<Rightarrow> Inl e
                    | Inr (r, s3) \<Rightarrow>
                        if r \<noteq> 0 then kseq (kfree p) (kseq (uvmdealloc pagetable a oldsz) (kret 0)) s3
                        else uvmalloc_loop pagetable (a + PGSIZE) oldsz newsz s3)))
      else Inr (newsz, s))"
  by pat_completeness auto
termination
  by (relation "measure (\<lambda>(_, a, _). unat MAXVA - unat a)") (auto dest: mappages_step)

declare uvmalloc_loop.simps [simp del]

definition uvmalloc :: "u64 \<Rightarrow> u64 \<Rightarrow> u64 \<Rightarrow> ('a kheap_scheme, u64) km" where
  "uvmalloc pagetable oldsz newsz =
     (if newsz < oldsz then kret oldsz
      else uvmalloc_loop pagetable (PGROUNDUP oldsz) (PGROUNDUP oldsz) newsz)"

text \<open>
  freewalk recurses through the table; the first argument bounds the depth of the recursion,
  and a deeper one is \<^term>\<open>Diverge\<close>. A table built by walk needs depth 3.
\<close>

fun freewalk :: "nat \<Rightarrow> u64 \<Rightarrow> ('a kheap_scheme, unit) km"
  and freewalk_loop :: "nat \<Rightarrow> u64 \<Rightarrow> nat list \<Rightarrow> ('a kheap_scheme, unit) km" where
  "freewalk 0 pagetable s = Inl Diverge"
| "freewalk (Suc d) pagetable s = kseq (freewalk_loop d pagetable [0..<512]) (kfree pagetable) s"
| "freewalk_loop d pagetable [] s = Inr ((), s)"
| "freewalk_loop d pagetable (i # is) s =
     (let pte = load64 (mem s) (pte_addr pagetable (of_nat i)) in
      if valid pte \<and> pte AND (PTE_R OR PTE_W OR PTE_X) = 0 then
        (case freewalk d (PTE2PA pte) s of Inl e \<Rightarrow> Inl e
         | Inr (_, s1) \<Rightarrow> (case poke (pte_addr pagetable (of_nat i)) 0 s1 of Inl e \<Rightarrow> Inl e
           | Inr (_, s2) \<Rightarrow> freewalk_loop d pagetable is s2))
      else if valid pte then Inl (Panic ''freewalk: leaf'')
      else freewalk_loop d pagetable is s)"

definition uvmfree :: "nat \<Rightarrow> u64 \<Rightarrow> u64 \<Rightarrow> ('a kheap_scheme, unit) km" where
  "uvmfree d pagetable sz =
     kseq (if sz > 0 then uvmunmap pagetable 0 (PGROUNDUP sz div PGSIZE) True else kret ())
       (freewalk d pagetable)"

function uvmcopy_loop :: "u64 \<Rightarrow> u64 \<Rightarrow> u64 \<Rightarrow> u64 \<Rightarrow> ('a kheap_scheme, int) km" where
  "uvmcopy_loop old new i sz s =
     (if i < sz then
        (case walk old i False s of Inl e \<Rightarrow> Inl e
         | Inr (pte, s1) \<Rightarrow>
             if pte = 0 then Inl (Panic ''uvmcopy: pte should exist'')
             else let e = load64 (mem s1) pte in
               if \<not> valid e then Inl (Panic ''uvmcopy: page not present'')
               else (case kalloc s1 of Inl e \<Rightarrow> Inl e
                 | Inr (p, s2) \<Rightarrow>
                     if p = 0 then kseq (uvmunmap new 0 (i div PGSIZE) True) (kret (- 1)) s2
                     else let s3 = s2\<lparr>mem := memmove (mem s2) p (PTE2PA e) (ucast PGSIZE)\<rparr> in
                       (case mappages new i PGSIZE p (PTE_FLAGS e) s3 of Inl e \<Rightarrow> Inl e
                        | Inr (r, s4) \<Rightarrow>
                            if r \<noteq> 0 then
                              kseq (kfree p) (kseq (uvmunmap new 0 (i div PGSIZE) True) (kret (- 1))) s4
                            else uvmcopy_loop old new (i + PGSIZE) sz s4)))
      else Inr (0, s))"
  by pat_completeness auto
termination
  by (relation "measure (\<lambda>(_, _, i, _). unat MAXVA - unat i)") (auto dest: walk_step)

declare uvmcopy_loop.simps [simp del]

definition uvmcopy :: "u64 \<Rightarrow> u64 \<Rightarrow> u64 \<Rightarrow> ('a kheap_scheme, int) km" where
  "uvmcopy old new sz = uvmcopy_loop old new 0 sz"

definition uvmclear :: "u64 \<Rightarrow> u64 \<Rightarrow> ('a kheap_scheme, unit) km" where
  "uvmclear pagetable va =
     kbind (walk pagetable va False) (\<lambda>pte.
     if pte = 0 then kpanic ''uvmclear''
     else kbind (kget (\<lambda>s. load64 (mem s) pte)) (\<lambda>e. poke pte (e AND NOT PTE_U)))"

subsection \<open>Copying between kernel and user\<close>

text \<open>The number of bytes that one round of the copy loops moves.\<close>

definition chunk :: "u64 \<Rightarrow> u64 \<Rightarrow> u64" where
  "chunk va len = (let n = PGSIZE - (va - PGROUNDDOWN va) in if n > len then len else n)"

lemma unat_page_offset: "unat (va - PGROUNDDOWN va) = unat va mod 4096"
  using unat_PGROUNDDOWN [of va] by (subst unat_sub) (auto simp: word_le_nat_alt)

lemma unat_chunk: "unat (chunk va len) = min (4096 - unat va mod 4096) (unat len)"
proof -
  have "unat (PGSIZE - (va - PGROUNDDOWN va)) = 4096 - unat va mod 4096"
    by (subst unat_sub) (simp_all add: unat_page_offset word_le_nat_alt)
  then show ?thesis by (simp add: chunk_def Let_def word_less_nat_alt)
qed

lemma chunk_step: "0 < len \<Longrightarrow> unat (len - chunk va len) < unat len"
proof -
  assume "0 < len"
  then have "0 < unat len" by (simp add: word_less_nat_alt)
  moreover have "unat (len - chunk va len) = unat len - unat (chunk va len)"
    by (rule unat_sub) (simp add: word_le_nat_alt unat_chunk)
  ultimately show ?thesis by (simp add: unat_chunk)
qed

function copyout :: "u64 \<Rightarrow> u64 \<Rightarrow> u64 \<Rightarrow> u64 \<Rightarrow> ('a kheap_scheme, int) km" where
  "copyout pagetable dstva src len s =
     (if len > 0 then
        let va0 = PGROUNDDOWN dstva in
        (case walkaddr pagetable va0 s of Inl e \<Rightarrow> Inl e
         | Inr (pa0, s1) \<Rightarrow>
             if pa0 = 0 then Inr (- 1, s1)
             else let n = chunk dstva len;
                s2 = s1\<lparr>mem := memmove (mem s1) (pa0 + (dstva - va0)) src (ucast n)\<rparr> in
               copyout pagetable (va0 + PGSIZE) (src + n) (len - n) s2)
      else Inr (0, s))"
  by pat_completeness auto
termination
  by (relation "measure (\<lambda>(_, _, _, len, _). unat len)") (auto intro: chunk_step)

function copyin :: "u64 \<Rightarrow> u64 \<Rightarrow> u64 \<Rightarrow> u64 \<Rightarrow> ('a kheap_scheme, int) km" where
  "copyin pagetable dst srcva len s =
     (if len > 0 then
        let va0 = PGROUNDDOWN srcva in
        (case walkaddr pagetable va0 s of Inl e \<Rightarrow> Inl e
         | Inr (pa0, s1) \<Rightarrow>
             if pa0 = 0 then Inr (- 1, s1)
             else let n = chunk srcva len;
                s2 = s1\<lparr>mem := memmove (mem s1) dst (pa0 + (srcva - va0)) (ucast n)\<rparr> in
               copyin pagetable (dst + n) (va0 + PGSIZE) (len - n) s2)
      else Inr (0, s))"
  by pat_completeness auto
termination
  by (relation "measure (\<lambda>(_, _, _, len, _). unat len)") (auto intro: chunk_step)

text \<open>The inner loop of copyinstr: at most n bytes of one page.\<close>

fun copystr :: "memory \<Rightarrow> u64 \<Rightarrow> u64 \<Rightarrow> u64 \<Rightarrow> nat \<Rightarrow> bool \<times> memory \<times> u64 \<times> u64" where
  "copystr m dst p maxn 0 = (False, m, dst, maxn)"
| "copystr m dst p maxn (Suc n) =
     (if m p = 0 then (True, m(dst := 0), dst, maxn)
      else copystr (m(dst := m p)) (dst + 1) (p + 1) (maxn - 1) n)"

lemma copystr_max:
  "copystr m dst p maxn n = (False, m', dst', maxn') \<Longrightarrow> maxn' = maxn - of_nat n"
  by (induction m dst p maxn n rule: copystr.induct) (auto split: if_splits)

function copyinstr :: "u64 \<Rightarrow> u64 \<Rightarrow> u64 \<Rightarrow> u64 \<Rightarrow> ('a kheap_scheme, int) km" where
  "copyinstr pagetable dst srcva maxn s =
     (if maxn > 0 then
        let va0 = PGROUNDDOWN srcva in
        (case walkaddr pagetable va0 s of Inl e \<Rightarrow> Inl e
         | Inr (pa0, s1) \<Rightarrow>
             if pa0 = 0 then Inr (- 1, s1)
             else (case copystr (mem s1) dst (pa0 + (srcva - va0)) maxn (unat (chunk srcva maxn)) of
                 (True, m', dst', maxn') \<Rightarrow> Inr (0, s1\<lparr>mem := m'\<rparr>)
               | (False, m', dst', maxn') \<Rightarrow> copyinstr pagetable dst' (va0 + PGSIZE) maxn' (s1\<lparr>mem := m'\<rparr>)))
      else Inr (- 1, s))"
  by pat_completeness auto
termination
  by (relation "measure (\<lambda>(_, _, _, maxn, _). unat maxn)") (auto dest!: sym [THEN copystr_max] simp: chunk_step)

declare copyout.simps [simp del] copyin.simps [simp del] copyinstr.simps [simp del]

subsection \<open>The kernel's page table\<close>

record kvm = kheap +
  kernel_pagetable :: u64
  satp :: "nat \<Rightarrow> u64"

definition kvmmap :: "u64 \<Rightarrow> u64 \<Rightarrow> u64 \<Rightarrow> u64 \<Rightarrow> ('a kvm_scheme, unit) km" where
  "kvmmap va pa sz perm =
     kbind (kget kernel_pagetable) (\<lambda>pt.
     kbind (mappages pt va sz pa perm) (\<lambda>r. if r \<noteq> 0 then kpanic ''kvmmap'' else kret ()))"

definition kvminit :: "('a kvm_scheme, unit) km" where
  "kvminit =
     kbind kalloc (\<lambda>p.
     kseq (kmod (\<lambda>s. s\<lparr>kernel_pagetable := p\<rparr>)) (
     kseq (fill p 0) (
     kseq (kvmmap UART0 UART0 PGSIZE (PTE_R OR PTE_W)) (
     kseq (kvmmap VIRTIO0 VIRTIO0 PGSIZE (PTE_R OR PTE_W)) (
     kseq (kvmmap CLINT CLINT 0x10000 (PTE_R OR PTE_W)) (
     kseq (kvmmap PLIC PLIC 0x400000 (PTE_R OR PTE_W)) (
     kbind (kget k_etext) (\<lambda>etext.
     kseq (kvmmap KERNBASE KERNBASE (etext - KERNBASE) (PTE_R OR PTE_X)) (
     kseq (kvmmap etext etext (PHYSTOP - etext) (PTE_R OR PTE_W)) (
     kbind (kget k_trampoline) (\<lambda>trampoline.
     kvmmap TRAMPOLINE trampoline PGSIZE (PTE_R OR PTE_X))))))))))))"

definition kvminithart :: "('a kvm_scheme, unit) km" where
  "kvminithart = kmod (\<lambda>s. s\<lparr>satp := (satp s)(tp s := MAKE_SATP (kernel_pagetable s))\<rparr>)"

definition kvmpa :: "u64 \<Rightarrow> ('a kvm_scheme, u64) km" where
  "kvmpa va =
     kbind (kget kernel_pagetable) (\<lambda>pt.
     kbind (walk pt va False) (\<lambda>pte.
     if pte = 0 then kpanic ''kvmpa''
     else kbind (kget (\<lambda>s. load64 (mem s) pte)) (\<lambda>e.
       if \<not> valid e then kpanic ''kvmpa''
       else kret (PTE2PA e + va mod PGSIZE))))"

end
