(* ===== verification/Vm_Table.thy ===== *)
theory Vm_Table
  imports Vm
begin

text \<open>
  The page tables of theory Vm as trees. tnode follows a path of indices from the root,
  leaf is the leaf entry of a virtual address, nodes the pages of the table. pt_wf is the
  invariant: the pages are managed, none is free, and different paths end in different
  pages. walk and mappages keep it and change leaf exactly as a page map would.
\<close>

section \<open>Entries\<close>

lemma freelist_mem_commute [simp]:
  "(s\<lparr>mem := m\<rparr>)\<lparr>freelist := f\<rparr> = (s::'a kheap_scheme)\<lparr>freelist := f, mem := m\<rparr>"
  by (rule kheap.equality) simp_all

definition pte_at :: "memory \<Rightarrow> u64 \<Rightarrow> nat \<Rightarrow> u64" where
  "pte_at m p i = load64 m (pte_addr p (of_nat i))"

lemma pte_addr_off: "pte_addr p (of_nat i) = p + of_nat (8 * i)"
  by (simp add: pte_addr_def)

lemma pte_addr_nonzero: "pg_aligned p \<Longrightarrow> p \<noteq> 0 \<Longrightarrow> i < 512 \<Longrightarrow> pte_addr p (of_nat i) \<noteq> 0"
proof
  assume a: "pg_aligned p" "p \<noteq> 0" "i < 512" "pte_addr p (of_nat i) = 0"
  have "unat (p + of_nat (8 * i)) = unat p + 8 * i" using a by (intro unat_page_off) auto
  moreover have "p + of_nat (8 * i) = 0" using a(4) by (simp only: pte_addr_off)
  ultimately have "unat p = 0" by (simp only: unat_0)
  then show False using a(2) by (simp add: unat_eq_zero)
qed

lemma pte_at_store:
  assumes "pg_aligned p" and "pg_aligned q" and "i < 512" and "j < 512"
  shows "pte_at (store64 m (pte_addr p (of_nat i)) v) q j = (if q = p \<and> j = i then v else pte_at m q j)"
proof (cases "q = p")
  case True
  then show ?thesis using assms load64_store64_slot [of p i j m v]
    by (cases "j = i") (simp_all add: pte_at_def pte_addr_off del: of_nat_mult of_nat_add)
next
  case False
  have "load64 (store64 m (p + of_nat (8 * i)) v) (q + of_nat (8 * j)) = load64 m (q + of_nat (8 * j))"
    using assms False by (intro load64_page_cong store64_page_other) auto
  then show ?thesis using False by (simp add: pte_at_def pte_addr_off del: of_nat_mult)
qed

lemma pte_at_cong:
  "pg_aligned q \<Longrightarrow> j < 512 \<Longrightarrow> (\<And>x. PGROUNDDOWN x = q \<Longrightarrow> m x = m' x) \<Longrightarrow> pte_at m q j = pte_at m' q j"
  unfolding pte_at_def pte_addr_off by (rule load64_page_cong) auto

lemma pte_at_zero:
  "pg_aligned q \<Longrightarrow> j < 512 \<Longrightarrow> (\<And>x. PGROUNDDOWN x = q \<Longrightarrow> m x = 0) \<Longrightarrow> pte_at m q j = 0"
  unfolding pte_at_def pte_addr_off by (rule load64_zero_page) auto

lemma valid_0 [simp]: "\<not> valid 0"
  by (simp add: valid_def)

lemma valid_or_V [simp]: "valid (x OR PTE_V)"
proof -
  have "bit ((x OR PTE_V) AND PTE_V) 0" by (simp add: bit_simps PTE_V_def)
  then show ?thesis unfolding valid_def by (metis bit_0_eq bot_apply bot_bool_def)
qed

section \<open>Tables as trees\<close>

text \<open>Two memories agree on a set of pages.\<close>

definition same_on :: "u64 set \<Rightarrow> memory \<Rightarrow> memory \<Rightarrow> bool" where
  "same_on A m m' \<longleftrightarrow> (\<forall>a. PGROUNDDOWN a \<in> A \<longrightarrow> m a = m' a)"

lemma same_onD: "same_on A m m' \<Longrightarrow> PGROUNDDOWN a \<in> A \<Longrightarrow> m a = m' a"
  by (simp add: same_on_def)

lemma same_on_mono: "same_on A m m' \<Longrightarrow> B \<subseteq> A \<Longrightarrow> same_on B m m'"
  by (auto simp: same_on_def)

lemma same_on_trans: "same_on A m m' \<Longrightarrow> same_on A m' m'' \<Longrightarrow> same_on A m m''"
  by (simp add: same_on_def)

lemma same_on_refl [simp]: "same_on A m m"
  by (simp add: same_on_def)

lemma same_on_sym: "same_on A m m' \<Longrightarrow> same_on A m' m"
  by (simp add: same_on_def)

lemma same_on_memset:
  "pg_aligned p \<Longrightarrow> p \<notin> A \<Longrightarrow> same_on A (memset m p c 4096) m"
  by (auto simp: same_on_def memset_page)

lemma same_on_store:
  assumes "pg_aligned p" and "p \<notin> A" and "i < 512"
  shows "same_on A (store64 m (pte_addr p (of_nat i)) v) m"
  unfolding same_on_def pte_addr_off
  by (intro allI impI store64_page_other) (use assms in auto)

lemma kmem_inv_same: "kmem_inv s xs \<Longrightarrow> same_on (set xs) m (mem s) \<Longrightarrow> kmem_inv (s\<lparr>mem := m\<rparr>) xs"
  by (rule kmem_inv_mem) (auto simp: same_on_def)

fun tnode :: "memory \<Rightarrow> u64 \<Rightarrow> nat list \<Rightarrow> u64 option" where
  "tnode m p [] = Some p"
| "tnode m p (i # is) = (if valid (pte_at m p i) then tnode m (PTE2PA (pte_at m p i)) is else None)"

lemma tnode_snoc:
  "tnode m root (js @ [j]) = (case tnode m root js of None \<Rightarrow> None
     | Some q \<Rightarrow> if valid (pte_at m q j) then Some (PTE2PA (pte_at m q j)) else None)"
  by (induction js arbitrary: root) auto

definition tpath :: "nat list \<Rightarrow> bool" where
  "tpath js \<longleftrightarrow> length js \<le> 2 \<and> (\<forall>j \<in> set js. j < 512)"

lemma tpath_snoc: "tpath (js @ [j]) \<longleftrightarrow> tpath js \<and> length js < 2 \<and> j < 512"
  by (auto simp: tpath_def)

definition nodes :: "memory \<Rightarrow> u64 \<Rightarrow> u64 set" where
  "nodes m root = {p. \<exists>js. tpath js \<and> tnode m root js = Some p}"

definition pt_wf :: "'a kmach_scheme \<Rightarrow> u64 \<Rightarrow> u64 list \<Rightarrow> bool" where
  "pt_wf s root xs \<longleftrightarrow>
     (\<forall>p \<in> nodes (mem s) root. kpage s p \<and> p \<noteq> 0 \<and> p \<notin> set xs) \<and>
     (\<forall>js ks p. tpath js \<longrightarrow> tpath ks \<longrightarrow> tnode (mem s) root js = Some p \<longrightarrow>
        tnode (mem s) root ks = Some p \<longrightarrow> js = ks)"

definition idx :: "u64 \<Rightarrow> nat list" where
  "idx va = [unat (PX 2 va), unat (PX 1 va)]"

definition leaf :: "memory \<Rightarrow> u64 \<Rightarrow> u64 \<Rightarrow> u64" where
  "leaf m root va = (case tnode m root (idx va) of None \<Rightarrow> 0
     | Some p \<Rightarrow> pte_at m p (unat (PX 0 va)))"

lemma tpath_idx [simp]: "tpath (idx va)" "tpath []" "tpath [unat (PX 2 va)]"
  using PX_bound [of 2 va] PX_bound [of 1 va] by (simp_all add: tpath_def idx_def)

lemma nodesI: "tpath js \<Longrightarrow> tnode m root js = Some p \<Longrightarrow> p \<in> nodes m root"
  by (auto simp: nodes_def)

lemma pt_wf_node:
  "pt_wf s root xs \<Longrightarrow> tpath js \<Longrightarrow> tnode (mem s) root js = Some p \<Longrightarrow>
   kpage s p \<and> pg_aligned p \<and> p \<noteq> 0 \<and> p \<notin> set xs"
  unfolding pt_wf_def using kpage_aligned by (blast intro: nodesI)

lemma pt_wf_inj:
  "pt_wf s root xs \<Longrightarrow> tpath js \<Longrightarrow> tpath ks \<Longrightarrow> tnode (mem s) root js = Some p \<Longrightarrow>
   tnode (mem s) root ks = Some p \<Longrightarrow> js = ks"
  unfolding pt_wf_def by blast

lemma pt_wf_subset: "pt_wf s root xs \<Longrightarrow> set ys \<subseteq> set xs \<Longrightarrow> pt_wf s root ys"
  unfolding pt_wf_def by blast

text \<open>A change of memory that leaves the entries along the way alone leaves the tree alone.\<close>

lemma tnode_eqI:
  assumes "\<And>ks j rest q. js = ks @ j # rest \<Longrightarrow> tnode m root ks = Some q \<Longrightarrow> pte_at m' q j = pte_at m q j"
  shows "tnode m' root js = tnode m root js"
  using assms
proof (induction js rule: rev_induct)
  case (snoc j js)
  have "tnode m' root js = tnode m root js" by (rule snoc.IH) (use snoc.prems in force)
  moreover have "pte_at m' q j = pte_at m q j" if "tnode m root js = Some q" for q
    using snoc.prems [of js j "[]"] that by simp
  ultimately show ?case by (simp add: tnode_snoc split: option.splits)
qed simp

lemma table_frame:
  assumes "pt_wf s root xs" and "same_on (nodes (mem s) root) m (mem s)"
  shows "tpath js \<Longrightarrow> tnode m root js = tnode (mem s) root js" "leaf m root va = leaf (mem s) root va"
    "nodes m root = nodes (mem s) root"
proof -
  have pt: "pte_at m q j = pte_at (mem s) q j" if "tpath ks" "tnode (mem s) root ks = Some q" "j < 512" for ks q j
  proof (rule pte_at_cong)
    show "pg_aligned q" using pt_wf_node [OF assms(1) that(1,2)] by simp
    show "m x = mem s x" if "PGROUNDDOWN x = q" for x
      using same_onD [OF assms(2)] nodesI [OF \<open>tpath ks\<close> \<open>tnode (mem s) root ks = Some q\<close>] that by blast
  qed fact
  show *: "tnode m root js = tnode (mem s) root js" if "tpath js" for js
    by (rule tnode_eqI, rule pt) (use that in \<open>auto simp: tpath_def\<close>)
  show "leaf m root va = leaf (mem s) root va"
    using pt [OF tpath_idx(1)] PX_bound by (auto simp: leaf_def * split: option.splits)
  show "nodes m root = nodes (mem s) root" using * by (auto simp: nodes_def)
qed

lemma pt_wf_frame:
  assumes "pt_wf s root xs" and "same_on (nodes (mem s) root) m (mem s)"
  shows "pt_wf (s\<lparr>mem := m\<rparr>) root xs"
proof -
  note tf = table_frame [OF assms]
  have "js = ks" if "tpath js" "tpath ks" "tnode m root js = Some p" "tnode m root ks = Some p" for js ks p
    using that pt_wf_inj [OF assms(1) that(1,2)] tf(1) [OF that(1)] tf(1) [OF that(2)] by simp
  then show ?thesis using assms(1) tf(3) unfolding pt_wf_def by simp
qed

section \<open>Adding a table page\<close>

lemma pte_at_fill [simp]:
  assumes "pg_aligned x" and "pg_aligned q" and "j < 512"
  shows "pte_at (memset m x 0 4096) q j = (if q = x then 0 else pte_at m q j)"
  using assms by (auto simp: memset_page intro!: pte_at_zero pte_at_cong)

lemma pte_at_junk:
  assumes "pg_aligned x" and "pg_aligned q" and "j < 512" and "q \<noteq> x"
  shows "pte_at (memset m x c 4096) q j = pte_at m q j"
  using assms by (auto simp: memset_page intro!: pte_at_cong)

lemma PA2PTE_V_PA: "pg_aligned x \<Longrightarrow> PTE2PA (PA2PTE x OR PTE_V) = x"
  by (rule PTE2PA_PA2PTE) (simp_all add: PTE_V_def)

text \<open>
  m' is m with the page x zeroed and linked in at slot j of the node p: the tree gains one
  node, and no leaf entry changes.
\<close>

definition linked :: "memory \<Rightarrow> u64 \<Rightarrow> u64 \<Rightarrow> nat \<Rightarrow> memory" where
  "linked m x p j =
     store64 (memset (memset m x 5 4096) x 0 4096) (pte_addr p (of_nat j)) (PA2PTE x OR PTE_V)"

lemma pte_at_linked:
  assumes "pg_aligned x" "pg_aligned p" "pg_aligned q" "x \<noteq> p" "j < 512" "k < 512"
  shows "pte_at (linked m x p j) q k =
    (if q = x then 0 else if q = p \<and> k = j then PA2PTE x OR PTE_V else pte_at m q k)"
  using assms by (auto simp: linked_def pte_at_store pte_at_junk)

lemma tnode_linked:
  assumes wf: "pt_wf s root xs" and x: "x \<in> set xs" "pg_aligned x"
    and js: "tpath js" "length js < 2" "tnode (mem s) root js = Some p"
    and j: "j < 512" "\<not> valid (pte_at (mem s) p j)"
    and ks: "tpath ks"
  shows "tnode (linked (mem s) x p j) root ks =
    (if ks = js @ [j] then Some x else tnode (mem s) root ks)"
  using ks
proof (induction ks rule: rev_induct)
  case Nil
  then show ?case by simp
next
  case (snoc k ks)
  let ?m = "linked (mem s) x p j"
  have ks: "tpath ks" "k < 512" using snoc.prems by (simp_all add: tpath_snoc)
  have p: "pg_aligned p" "p \<noteq> x" using pt_wf_node [OF wf js(1,3)] x by auto
  have IH: "tnode ?m root ks = (if ks = js @ [j] then Some x else tnode (mem s) root ks)"
    by (rule snoc.IH [OF ks(1)])
  show ?case
  proof (cases "ks = js @ [j]")
    case True
    then have "tnode (mem s) root ks = None" using js(3) j(2) by (simp add: tnode_snoc)
    moreover have "pte_at ?m x k = 0" using pte_at_linked [OF x(2) p(1) x(2), of j k] p j(1) ks(2) by simp
    moreover have "ks @ [k] \<noteq> js @ [j]" using True by simp
    ultimately show ?thesis unfolding tnode_snoc [of _ _ ks] IH using True by (simp only: simp_thms if_True option.case valid_0 if_False)
  next
    case False
    show ?thesis
    proof (cases "tnode (mem s) root ks")
      case None
      then show ?thesis using False IH js(3) by (auto simp: tnode_snoc)
    next
      case (Some q)
      then have q: "pg_aligned q" "q \<noteq> x" using pt_wf_node [OF wf ks(1)] x by auto
      have "pte_at ?m q k = (if q = p \<and> k = j then PA2PTE x OR PTE_V else pte_at (mem s) q k)"
        using pte_at_linked [OF x(2) p(1) q(1)] p q j ks by auto
      moreover have "q = p \<longleftrightarrow> ks = js"
        using pt_wf_inj [OF wf ks(1) js(1) Some] js(3) Some by auto
      ultimately show ?thesis using False IH Some x(2) by (auto simp: tnode_snoc PA2PTE_V_PA)
    qed
  qed
qed

lemma leaf_linked:
  assumes wf: "pt_wf s root xs" and x: "x \<in> set xs" "pg_aligned x"
    and js: "tpath js" "length js < 2" "tnode (mem s) root js = Some p"
    and j: "j < 512" "\<not> valid (pte_at (mem s) p j)"
  shows "leaf (linked (mem s) x p j) root va = leaf (mem s) root va"
proof -
  let ?m = "linked (mem s) x p j" and ?k = "unat (PX 0 va)"
  have p: "pg_aligned p" "p \<noteq> x" using pt_wf_node [OF wf js(1,3)] x by auto
  have tn: "tnode ?m root (idx va) = (if idx va = js @ [j] then Some x else tnode (mem s) root (idx va))"
    by (rule tnode_linked [OF assms]) simp
  show ?thesis
  proof (cases "idx va = js @ [j]")
    case True
    then have "tnode (mem s) root (idx va) = None" using js(3) j(2) by (simp add: tnode_snoc)
    moreover have "pte_at ?m x ?k = 0"
      using pte_at_linked [OF x(2) p(1) x(2), of j ?k] p(2) j(1) PX_bound [of 0 va] by simp
    ultimately show ?thesis using tn True by (simp add: leaf_def)
  next
    case False
    have "pte_at ?m q ?k = pte_at (mem s) q ?k" if "tnode (mem s) root (idx va) = Some q" for q
    proof -
      have "q \<noteq> p"
      proof
        assume "q = p"
        then have "idx va = js" using pt_wf_inj [OF wf tpath_idx(1) js(1) that] js(3) by simp
        then show False using js(2) by (auto simp: idx_def)
      qed
      moreover have "pg_aligned q" "q \<noteq> x" using pt_wf_node [OF wf tpath_idx(1) that] x by auto
      ultimately show ?thesis using pte_at_linked [OF x(2) p(1), of q j ?k] p(2) j(1) PX_bound [of 0 va] by simp
    qed
    then show ?thesis using tn False by (auto simp: leaf_def split: option.splits)
  qed
qed

lemma linked_same_on:
  assumes "pg_aligned x" and "pg_aligned p" and "j < 512" and "x \<notin> A" and "p \<notin> A"
  shows "same_on A (linked m x p j) m"
proof -
  have "same_on A (linked m x p j) (memset (memset m x 5 4096) x 0 4096)"
    unfolding linked_def using assms by (intro same_on_store)
  moreover have "same_on A (memset (memset m x 5 4096) x 0 4096) (memset m x 5 4096)"
    using assms by (intro same_on_memset)
  moreover have "same_on A (memset m x 5 4096) m" using assms by (intro same_on_memset)
  ultimately show ?thesis by (blast intro: same_on_trans)
qed

lemma pt_wf_linked:
  assumes wf: "pt_wf s root (x # ys)" and x: "kpage s x" "x \<noteq> 0" "x \<notin> set ys"
    and js: "tpath js" "length js < 2" "tnode (mem s) root js = Some p"
    and j: "j < 512" "\<not> valid (pte_at (mem s) p j)"
  shows "pt_wf (s\<lparr>mem := linked (mem s) x p j\<rparr>) root ys"
    and "nodes (linked (mem s) x p j) root = insert x (nodes (mem s) root)"
proof -
  let ?m = "linked (mem s) x p j"
  have al: "pg_aligned x" using x by (simp add: kpage_def)
  have tn: "tnode ?m root ks = (if ks = js @ [j] then Some x else tnode (mem s) root ks)" if "tpath ks" for ks
    using wf al js j that by (intro tnode_linked) auto
  have tp: "tpath (js @ [j])" using js j by (simp add: tpath_snoc)
  have old: "tnode (mem s) root (js @ [j]) = None" using js(3) j(2) by (simp add: tnode_snoc)
  have nx: "tnode (mem s) root ks \<noteq> Some x" if "tpath ks" for ks
    using pt_wf_node [OF wf that] by auto
  show nd: "nodes ?m root = insert x (nodes (mem s) root)"
  proof (intro equalityI subsetI)
    fix q assume "q \<in> nodes ?m root"
    then obtain ks where "tpath ks" "tnode ?m root ks = Some q" by (auto simp: nodes_def)
    then show "q \<in> insert x (nodes (mem s) root)" using tn [of ks] by (auto simp: nodes_def split: if_splits)
  next
    fix q assume "q \<in> insert x (nodes (mem s) root)"
    moreover have "x \<in> nodes ?m root" using tn [OF tp] tp by (auto intro: nodesI)
    moreover have "q \<in> nodes ?m root" if "tpath ks" "tnode (mem s) root ks = Some q" for ks
    proof -
      have "ks \<noteq> js @ [j]" using that(2) old by auto
      then have "tnode ?m root ks = Some q" using tn [OF that(1)] that(2) by simp
      then show ?thesis by (rule nodesI [OF that(1)])
    qed
    ultimately show "q \<in> nodes ?m root" by (auto simp: nodes_def [of "mem s"])
  qed
  have inj: "ks = ls" if "tpath ks" "tpath ls" "tnode ?m root ks = Some q" "tnode ?m root ls = Some q" for ks ls q
    using tn [OF that(1)] tn [OF that(2)] that nx [OF that(1)] nx [OF that(2)] pt_wf_inj [OF wf that(1,2)]
    by (metis option.inject)
  have "kpage s q \<and> q \<noteq> 0 \<and> q \<notin> set ys" if "q \<in> nodes ?m root" for q
    using that wf x unfolding nd pt_wf_def by auto
  then show "pt_wf (s\<lparr>mem := ?m\<rparr>) root ys" unfolding pt_wf_def using inj by simp
qed

section \<open>walk\<close>

text \<open>
  What an operation on a table may do to the state: take some pages us off the free list
  and make them table pages. No page outside the table and the free list is written. walk
  moreover changes no leaf entry.
\<close>

definition pt_step :: "u64 \<Rightarrow> 'a kheap_scheme \<Rightarrow> u64 list \<Rightarrow> 'a kheap_scheme \<Rightarrow> u64 list \<Rightarrow> bool" where
  "pt_step root s xs s' xs' \<longleftrightarrow>
     kmem_inv s' xs' \<and> pt_wf s' root xs' \<and>
     (\<exists>us. xs = us @ xs' \<and> nodes (mem s') root = nodes (mem s) root \<union> set us) \<and>
     same_on (- (nodes (mem s) root \<union> set xs)) (mem s') (mem s) \<and>
     s' = s\<lparr>freelist := freelist s', mem := mem s'\<rparr>"

definition pt_ext :: "u64 \<Rightarrow> 'a kheap_scheme \<Rightarrow> u64 list \<Rightarrow> 'a kheap_scheme \<Rightarrow> u64 list \<Rightarrow> bool" where
  "pt_ext root s xs s' xs' \<longleftrightarrow> pt_step root s xs s' xs' \<and> leaf (mem s') root = leaf (mem s) root"

lemma pt_step_refl: "kmem_inv s xs \<Longrightarrow> pt_wf s root xs \<Longrightarrow> pt_step root s xs s xs"
  by (simp add: pt_step_def)

lemma heap_frame_trans:
  fixes s :: "'a kheap_scheme"
  assumes "s1 = s\<lparr>freelist := freelist s1, mem := mem s1\<rparr>" and "s2 = s1\<lparr>freelist := freelist s2, mem := mem s2\<rparr>"
  shows "s2 = s\<lparr>freelist := freelist s2, mem := mem s2\<rparr>"
  using assms by (cases s, cases s1, cases s2) simp

lemma pt_step_trans:
  assumes "pt_step root s xs s1 xs1" and "pt_step root s1 xs1 s2 xs2"
  shows "pt_step root s xs s2 xs2"
proof -
  obtain us where us: "xs = us @ xs1" "nodes (mem s1) root = nodes (mem s) root \<union> set us"
    using assms(1) by (auto simp: pt_step_def)
  obtain vs where vs: "xs1 = vs @ xs2" "nodes (mem s2) root = nodes (mem s1) root \<union> set vs"
    using assms(2) by (auto simp: pt_step_def)
  have "same_on (- (nodes (mem s) root \<union> set xs)) (mem s2) (mem s1)"
    using assms(2) us by (auto simp: pt_step_def elim!: same_on_mono)
  moreover have "same_on (- (nodes (mem s) root \<union> set xs)) (mem s1) (mem s)"
    using assms(1) by (simp add: pt_step_def)
  ultimately have "same_on (- (nodes (mem s) root \<union> set xs)) (mem s2) (mem s)" by (rule same_on_trans)
  moreover have "\<exists>ws. xs = ws @ xs2 \<and> nodes (mem s2) root = nodes (mem s) root \<union> set ws"
    using us vs by (intro exI [of _ "us @ vs"]) auto
  moreover have "s2 = s\<lparr>freelist := freelist s2, mem := mem s2\<rparr>"
    using assms unfolding pt_step_def by (blast intro: heap_frame_trans)
  ultimately show ?thesis using assms(2) unfolding pt_step_def by blast
qed

lemma pt_ext_refl: "kmem_inv s xs \<Longrightarrow> pt_wf s root xs \<Longrightarrow> pt_ext root s xs s xs"
  by (simp add: pt_ext_def pt_step_refl)

lemma pt_ext_trans:
  "pt_ext root s xs s1 xs1 \<Longrightarrow> pt_ext root s1 xs1 s2 xs2 \<Longrightarrow> pt_ext root s xs s2 xs2"
  unfolding pt_ext_def using pt_step_trans by fastforce

text \<open>One step of the loop that adds a table page.\<close>

lemma walk_grow:
  assumes inv: "kmem_inv s (x # ys)" and wf: "pt_wf s root (x # ys)"
    and js: "tpath js" "length js < 2" "tnode (mem s) root js = Some p"
    and j: "j < 512" "\<not> valid (pte_at (mem s) p j)"
  shows "pt_ext root s (x # ys) (s\<lparr>mem := linked (mem s) x p j, freelist := load64 (mem s) x\<rparr>) ys"
    and "tnode (linked (mem s) x p j) root (js @ [j]) = Some x"
proof -
  let ?m = "linked (mem s) x p j"
  let ?s = "s\<lparr>mem := ?m, freelist := load64 (mem s) x\<rparr>"
  have x: "kpage s x" "x \<noteq> 0" "x \<notin> set ys" "pg_aligned x"
    using inv kpage_nonzero by (auto simp: kmem_inv_def kpage_def)
  have p: "pg_aligned p" "p \<notin> set (x # ys)" "p \<in> nodes (mem s) root"
    using pt_wf_node [OF wf js(1,3)] nodesI [OF js(1,3)] by auto
  note lk = pt_wf_linked [OF wf x(1-3) js j]
  have "kmem_inv (s\<lparr>freelist := load64 (mem s) x\<rparr>) ys" using inv by (simp add: kmem_inv_def)
  moreover have sy: "same_on (set ys) ?m (mem s)" using x p j by (intro linked_same_on) auto
  ultimately have "kmem_inv ((s\<lparr>freelist := load64 (mem s) x\<rparr>)\<lparr>mem := ?m\<rparr>) ys"
    by (intro kmem_inv_mem) (auto simp: same_on_def)
  then have kinv: "kmem_inv ?s ys" by simp
  have "pt_wf ?s root ys" using lk(1) by (simp add: pt_wf_def kpage_def)
  moreover have "leaf ?m root = leaf (mem s) root"
    using leaf_linked [OF wf _ x(4) js j] by (intro ext) simp
  moreover have "same_on (- (nodes (mem s) root \<union> set (x # ys))) ?m (mem s)"
    using x p j by (intro linked_same_on) auto
  moreover have "\<exists>us. x # ys = us @ ys \<and> nodes ?m root = nodes (mem s) root \<union> set us"
    using lk(2) by (intro exI [of _ "[x]"]) simp
  ultimately show "pt_ext root s (x # ys) ?s ys" using kinv unfolding pt_ext_def pt_step_def by simp
  show "tnode ?m root (js @ [j]) = Some x"
    using tnode_linked [OF wf _ x(4) js j, of "js @ [j]"] js j by (simp add: tpath_snoc)
qed

lemma walk_loop_alloc:
  assumes "kmem_inv s xs" and "pt_wf s root xs"
    and "level \<le> 2" and "js = take (2 - level) (idx va)" and "tnode (mem s) root js = Some p"
  shows "\<exists>pte s' xs'. walk_loop level p va True s = Inr (pte, s') \<and> pt_ext root s xs s' xs' \<and>
    (if pte = 0 then xs' = []
     else \<exists>q. tnode (mem s') root (idx va) = Some q \<and> pte = pte_addr q (PX 0 va))"
  using assms
proof (induction level arbitrary: s xs js p)
  case 0
  then have "tnode (mem s) root (idx va) = Some p" by (simp add: idx_def)
  moreover from this have "pte_addr p (PX 0 va) \<noteq> 0"
    using pt_wf_node [OF 0(2) tpath_idx(1)] PX_bound [of 0 va] pte_addr_nonzero [of p "unat (PX 0 va)"] by simp
  ultimately show ?case using 0 by (auto simp: kmon intro: pt_ext_refl)
next
  case (Suc level)
  define j where "j = unat (PX (Suc level) va)"
  have jb: "j < 512" by (simp add: j_def PX_bound)
  have lv: "level = 0 \<or> level = 1" using Suc.prems(3) by auto
  then have js: "tpath js" "length js < 2" "take (2 - level) (idx va) = js @ [j]"
    using PX_bound [of 2 va] PX_bound [of 1 va] by (auto simp: Suc.prems(4) j_def idx_def tpath_def numeral_2_eq_2)
  have e: "load64 (mem s) (pte_addr p (PX (Suc level) va)) = pte_at (mem s) p j"
    by (simp add: pte_at_def j_def)
  show ?case
  proof (cases "valid (pte_at (mem s) p j)")
    case True
    have "tnode (mem s) root (js @ [j]) = Some (PTE2PA (pte_at (mem s) p j))"
      using Suc.prems(5) True by (simp add: tnode_snoc)
    then have "\<exists>pte s' xs'. walk_loop level (PTE2PA (pte_at (mem s) p j)) va True s = Inr (pte, s') \<and>
        pt_ext root s xs s' xs' \<and> (if pte = 0 then xs' = []
         else \<exists>q. tnode (mem s') root (idx va) = Some q \<and> pte = pte_addr q (PX 0 va))"
      using Suc.IH [OF Suc.prems(1,2) _ js(3) [symmetric]] Suc.prems(3) by simp
    then show ?thesis using True e by (simp add: kmon Let_def)
  next
    case False
    show ?thesis
    proof (cases xs)
      case Nil
      then have "kalloc s = Inr (0, s)" using Suc.prems(1) kalloc_Nil by simp
      then show ?thesis using False e Nil Suc.prems by (auto simp: kmon Let_def intro!: pt_ext_refl)
    next
      case (Cons x ys)
      note g = walk_grow [OF Suc.prems(1,2) [unfolded Cons] js(1,2) Suc.prems(5) jb False]
      let ?s = "s\<lparr>mem := linked (mem s) x p j, freelist := load64 (mem s) x\<rparr>"
      have x0: "x \<noteq> 0" using Suc.prems(1) Cons kpage_nonzero by (auto simp: kmem_inv_def)
      have inv: "kmem_inv ?s ys" "pt_wf ?s root ys" using g(1) by (simp_all add: pt_ext_def pt_step_def)
      obtain pte s' xs' where r: "walk_loop level x va True ?s = Inr (pte, s')" "pt_ext root ?s ys s' xs'"
        "if pte = 0 then xs' = [] else \<exists>q. tnode (mem s') root (idx va) = Some q \<and> pte = pte_addr q (PX 0 va)"
        using Suc.IH [OF inv _ js(3) [symmetric]] g(2) Suc.prems(3) by auto
      have "walk_loop (Suc level) p va True s = walk_loop level x va True ?s"
        using kalloc_eq [OF Suc.prems(1) [unfolded Cons]] False e x0
        by (simp add: kmon Let_def fill_def poke_def linked_def j_def)
      then show ?thesis using r pt_ext_trans [OF g(1) r(2)] Cons by auto
    qed
  qed
qed

lemma walk_alloc:
  assumes "kmem_inv s xs" and "pt_wf s root xs" and "va < MAXVA"
  shows "\<exists>pte s' xs'. walk root va True s = Inr (pte, s') \<and> pt_ext root s xs s' xs' \<and>
    (if pte = 0 then xs' = []
     else \<exists>q. tnode (mem s') root (idx va) = Some q \<and> pte = pte_addr q (PX 0 va))"
  using walk_loop_alloc [OF assms(1,2), of 2 "[]" va root] assms(3) by (simp add: walk_def flip: not_less)

lemma walk_loop_noalloc:
  "level \<le> 2 \<Longrightarrow> walk_loop level p va False s = Inr (case tnode (mem s) p (drop (2 - level) (idx va)) of
     None \<Rightarrow> 0 | Some q \<Rightarrow> pte_addr q (PX 0 va), s)"
proof (induction level arbitrary: p)
  case 0
  then show ?case by (simp add: kmon idx_def)
next
  case (Suc level)
  then consider "level = 0" | "level = 1" by linarith
  then show ?case
    by cases (use Suc in \<open>simp_all add: kmon Let_def idx_def pte_at_def numeral_2_eq_2 split: option.splits\<close>)
qed

text \<open>Without alloc, walk only reads.\<close>

lemma walk_noalloc:
  "va < MAXVA \<Longrightarrow> walk root va False s = Inr (case tnode (mem s) root (idx va) of
     None \<Rightarrow> 0 | Some q \<Rightarrow> pte_addr q (PX 0 va), s)"
  using walk_loop_noalloc [of 2 root va s] by (simp add: walk_def flip: not_less)

lemma pte_slot_nonzero:
  assumes "pt_wf s root xs" and "tnode (mem s) root (idx va) = Some q"
  shows "pte_addr q (PX 0 va) \<noteq> 0"
  using pt_wf_node [OF assms(1) tpath_idx(1) assms(2)] PX_bound [of 0 va]
    pte_addr_nonzero [of q "unat (PX 0 va)"] by simp

lemma leaf_tnode:
  "tnode (mem s) root (idx va) = Some q \<Longrightarrow> load64 (mem s) (pte_addr q (PX 0 va)) = leaf (mem s) root va"
  by (simp add: leaf_def pte_at_def)

text \<open>A mapped address: walk finds its leaf entry.\<close>

lemma walk_leaf:
  assumes "pt_wf s root xs" and "va < MAXVA" and "valid (leaf (mem s) root va)"
  obtains q where "tnode (mem s) root (idx va) = Some q" "pte_addr q (PX 0 va) \<noteq> 0"
    "walk root va False s = Inr (pte_addr q (PX 0 va), s)"
    "load64 (mem s) (pte_addr q (PX 0 va)) = leaf (mem s) root va"
proof -
  obtain q where q: "tnode (mem s) root (idx va) = Some q"
    using assms(3) by (auto simp: leaf_def split: option.splits)
  then show thesis
    using that [OF q pte_slot_nonzero [OF assms(1) q]] walk_noalloc [OF assms(2), of root s] leaf_tnode [OF q] by simp
qed

section \<open>Writing a leaf entry\<close>

lemma idx_inj:
  assumes "va < MAXVA" and "vb < MAXVA"
  shows "idx va = idx vb \<and> PX 0 va = PX 0 vb \<longleftrightarrow> PGROUNDDOWN va = PGROUNDDOWN vb"
proof
  assume "idx va = idx vb \<and> PX 0 va = PX 0 vb"
  then have "PX 2 va = PX 2 vb" "PX 1 va = PX 1 vb" "PX 0 va = PX 0 vb"
    by (auto simp: idx_def intro: u_eqI)
  then show "PGROUNDDOWN va = PGROUNDDOWN vb" by (rule PX_inj [OF assms])
next
  assume "PGROUNDDOWN va = PGROUNDDOWN vb"
  then have "PX l va = PX l vb" for l by (metis PX_PGROUNDDOWN)
  then show "idx va = idx vb \<and> PX 0 va = PX 0 vb" by (simp add: idx_def)
qed

lemma leaf_store:
  fixes v :: u64
  assumes wf: "pt_wf s root xs" and q: "tnode (mem s) root (idx va) = Some q"
  defines "m \<equiv> store64 (mem s) (pte_addr q (PX 0 va)) v"
  shows "pt_wf (s\<lparr>mem := m\<rparr>) root xs" "nodes m root = nodes (mem s) root"
    and "va < MAXVA \<Longrightarrow> vb < MAXVA \<Longrightarrow>
      leaf m root vb = (if PGROUNDDOWN vb = PGROUNDDOWN va then v else leaf (mem s) root vb)"
proof -
  let ?k = "unat (PX 0 va)"
  have al: "pg_aligned q" using pt_wf_node [OF wf tpath_idx(1) q] by simp
  have m: "m = store64 (mem s) (pte_addr q (of_nat ?k)) v" by (simp add: m_def)
  have pt: "pte_at m p j = (if p = q \<and> j = ?k then v else pte_at (mem s) p j)" if "pg_aligned p" "j < 512" for p j
    unfolding m by (rule pte_at_store [OF al that(1) PX_bound that(2)])
  have tn: "tnode m root js = tnode (mem s) root js" if "tpath js" for js
  proof (rule tnode_eqI)
    fix ks j rest p assume js: "js = ks @ j # rest" and p: "tnode (mem s) root ks = Some p"
    have ks: "tpath ks" "j < 512" "length ks < 2" using that js by (auto simp: tpath_def)
    have "p \<noteq> q"
    proof
      assume "p = q"
      then have "ks = idx va" using pt_wf_inj [OF wf ks(1) tpath_idx(1) p] q by simp
      then show False using ks(3) by (simp add: idx_def)
    qed
    then show "pte_at m p j = pte_at (mem s) p j" using pt pt_wf_node [OF wf ks(1) p] ks(2) by simp
  qed
  show nd: "nodes m root = nodes (mem s) root" using tn by (auto simp: nodes_def)
  have "js = ks" if "tpath js" "tpath ks" "tnode m root js = Some p" "tnode m root ks = Some p" for js ks p
    using that pt_wf_inj [OF wf that(1,2)] tn [OF that(1)] tn [OF that(2)] by simp
  then show "pt_wf (s\<lparr>mem := m\<rparr>) root xs" using wf nd unfolding pt_wf_def by simp
  show "leaf m root vb = (if PGROUNDDOWN vb = PGROUNDDOWN va then v else leaf (mem s) root vb)"
    if b: "va < MAXVA" "vb < MAXVA"
  proof (cases "tnode (mem s) root (idx vb)")
    case None
    then have "idx vb \<noteq> idx va" using q by auto
    then show ?thesis using None tn [OF tpath_idx(1)] idx_inj [OF b(2,1)] by (simp add: leaf_def)
  next
    case (Some p)
    then have "p = q \<longleftrightarrow> idx vb = idx va"
      using pt_wf_inj [OF wf tpath_idx(1) tpath_idx(1), of vb p va] q by auto
    moreover have "unat (PX 0 vb) = ?k \<longleftrightarrow> PX 0 vb = PX 0 va" by (auto intro: u_eqI)
    ultimately show ?thesis
      using Some tn [OF tpath_idx(1)] pt [of p "unat (PX 0 vb)"] pt_wf_node [OF wf tpath_idx(1) Some]
        idx_inj [OF b(2,1)] PX_bound [of 0 vb] by (auto simp: leaf_def)
  qed
qed

end
