(* ===== verification/Vm_Space.thy ===== *)
theory Vm_Space
  imports Vm_Table
begin

text \<open>
  Address spaces: what mappages, uvmunmap, uvmalloc and uvmdealloc do to the leaf entries
  of a table, to the free list and to the pages of a process.
\<close>

section \<open>Ranges of virtual addresses\<close>

definition in_range :: "u64 \<Rightarrow> nat \<Rightarrow> u64 \<Rightarrow> bool" where
  "in_range a n vb \<longleftrightarrow> unat a \<le> unat vb \<and> unat vb < unat a + n * 4096"

lemma page_of_iff:
  assumes "pg_aligned a"
  shows "PGROUNDDOWN vb = a \<longleftrightarrow> in_range a 1 vb"
proof
  assume "PGROUNDDOWN vb = a"
  then have "unat a = unat vb - unat vb mod 4096" using unat_PGROUNDDOWN by metis
  moreover have "unat vb mod 4096 < 4096" "unat vb mod 4096 \<le> unat vb" by simp_all
  ultimately show "in_range a 1 vb" unfolding in_range_def by linarith
next
  assume r: "in_range a 1 vb"
  define off where "off = unat vb - unat a"
  have off: "off < 4096" "unat vb = unat a + off" using r by (auto simp: off_def in_range_def)
  have "unat (a + of_nat off) = unat a + off" using assms off(1) by (rule unat_page_off)
  then have "vb = a + of_nat off" using off(2) by (intro u_eqI) simp
  then show "PGROUNDDOWN vb = a" using PGROUNDDOWN_page_off [OF assms off(1)] by simp
qed

lemma in_range_0 [simp]: "\<not> in_range a 0 vb"
  by (simp add: in_range_def)

lemma unat_add_PGSIZE: "unat a + 4096 < 2 ^ 64 \<Longrightarrow> unat (a + PGSIZE) = unat a + 4096"
  by (simp add: unat_word_ariths)

lemma in_range_Suc:
  assumes "unat a + 4096 < 2 ^ 64"
  shows "in_range a (Suc n) vb \<longleftrightarrow> in_range a 1 vb \<or> in_range (a + PGSIZE) n vb"
  unfolding in_range_def unat_add_PGSIZE [OF assms] by auto

text \<open>The leaf entries after mapping n pages from a to the frames from pa.\<close>

definition mapped :: "u64 \<Rightarrow> nat \<Rightarrow> u64 \<Rightarrow> u64 \<Rightarrow> (u64 \<Rightarrow> u64) \<Rightarrow> u64 \<Rightarrow> u64" where
  "mapped a n pa perm f vb =
     (if in_range a n vb then PA2PTE (pa + (PGROUNDDOWN vb - a)) OR perm OR PTE_V else f vb)"

definition agree :: "(u64 \<Rightarrow> u64) \<Rightarrow> (u64 \<Rightarrow> u64) \<Rightarrow> bool" where
  "agree f g \<longleftrightarrow> (\<forall>vb < MAXVA. f vb = g vb)"

lemma agreeD: "agree f g \<Longrightarrow> vb < MAXVA \<Longrightarrow> f vb = g vb"
  by (simp add: agree_def)

lemma agree_trans: "agree f g \<Longrightarrow> agree g h \<Longrightarrow> agree f h"
  by (simp add: agree_def)

lemma agree_refl [simp]: "agree f f"
  by (simp add: agree_def)

lemma mapped_0 [simp]: "mapped a 0 pa perm f = f"
  by (rule ext) (simp add: mapped_def)

lemma mapped_1:
  "pg_aligned a \<Longrightarrow> mapped a 1 pa perm f vb = (if PGROUNDDOWN vb = a then PA2PTE pa OR perm OR PTE_V else f vb)"
  unfolding mapped_def by (simp only: page_of_iff [symmetric]) simp

lemma mapped_Suc:
  assumes "pg_aligned a" and "unat a + 4096 < 2 ^ 64"
  shows "mapped a (Suc n) pa perm f =
    mapped (a + PGSIZE) n (pa + PGSIZE) perm (mapped a 1 pa perm f)"
proof
  fix vb
  have "pa + PGSIZE + (PGROUNDDOWN vb - (a + PGSIZE)) = pa + (PGROUNDDOWN vb - a)" by simp
  then show "mapped a (Suc n) pa perm f vb = mapped (a + PGSIZE) n (pa + PGSIZE) perm (mapped a 1 pa perm f) vb"
    unfolding mapped_def in_range_Suc [OF assms(2)] by (auto simp: algebra_simps)
qed

section \<open>mappages\<close>

lemma pt_step_leaf_store:
  fixes v :: u64
  assumes "kmem_inv s xs" and wf: "pt_wf s root xs" and q: "tnode (mem s) root (idx va) = Some q"
  shows "pt_step root s xs (s\<lparr>mem := store64 (mem s) (pte_addr q (PX 0 va)) v\<rparr>) xs"
proof -
  let ?m = "store64 (mem s) (pte_addr q (PX 0 va)) v"
  have nq: "pg_aligned q" "q \<notin> set xs" "q \<in> nodes (mem s) root"
    using pt_wf_node [OF wf tpath_idx(1) q] nodesI [OF tpath_idx(1) q] by auto
  have so: "same_on (- {q}) ?m (mem s)"
    using same_on_store [OF nq(1) _ PX_bound [of 0 va], of "- {q}" "mem s" v] by simp
  have "kmem_inv (s\<lparr>mem := ?m\<rparr>) xs"
    using assms(1) same_on_mono [OF so, of "set xs"] nq(2) by (intro kmem_inv_same) auto
  moreover have "same_on (- (nodes (mem s) root \<union> set xs)) ?m (mem s)"
    using so by (rule same_on_mono) (use nq(3) in auto)
  ultimately show ?thesis
    using leaf_store [OF wf q, of v] by (simp add: pt_step_def)
qed

text \<open>One round of mappages: walk, the check against remapping, and the store.\<close>

lemma map_page:
  fixes v :: u64
  assumes "kmem_inv s xs" and "pt_wf s root xs" and a: "a < MAXVA"
    and nv: "\<not> valid (leaf (mem s) root a)"
  obtains (fail) s' where "walk root a True s = Inr (0, s')" "pt_ext root s xs s' []"
  | (ok) pte s1 s2 xs' where "walk root a True s = Inr (pte, s1)" "pte \<noteq> 0"
      "\<not> valid (load64 (mem s1) pte)" "s2 = s1\<lparr>mem := store64 (mem s1) pte v\<rparr>"
      "pt_step root s xs s2 xs'"
      "\<forall>vb < MAXVA. leaf (mem s2) root vb = (if PGROUNDDOWN vb = PGROUNDDOWN a then v else leaf (mem s) root vb)"
proof -
  obtain pte s1 xs1 where w: "walk root a True s = Inr (pte, s1)" "pt_ext root s xs s1 xs1"
    "if pte = 0 then xs1 = [] else \<exists>q. tnode (mem s1) root (idx a) = Some q \<and> pte = pte_addr q (PX 0 a)"
    using walk_alloc [OF assms(1-3)] by blast
  show thesis
  proof (cases "pte = 0")
    case True
    then show thesis using w fail by simp
  next
    case False
    then obtain q where q: "tnode (mem s1) root (idx a) = Some q" "pte = pte_addr q (PX 0 a)"
      using w(3) by auto
    have inv: "kmem_inv s1 xs1" "pt_wf s1 root xs1" "leaf (mem s1) root = leaf (mem s) root"
      and st: "pt_step root s xs s1 xs1"
      using w(2) by (simp_all add: pt_ext_def pt_step_def)
    note ls = pt_step_leaf_store [OF inv(1,2) q(1), of v]
    show thesis
    proof (rule ok [OF w(1) False _ refl])
      show "\<not> valid (load64 (mem s1) pte)" using leaf_tnode [OF q(1)] nv inv(3) q(2) by simp
      show "pt_step root s xs (s1\<lparr>mem := store64 (mem s1) pte v\<rparr>) xs1"
        using pt_step_trans [OF st ls] q(2) by simp
    qed (use leaf_store(3) [OF inv(2) q(1), of _ v] a inv(3) q(2) in simp)
  qed
qed

text \<open>Mapping a page that is mapped already panics, and allocates nothing.\<close>

lemma walk_loop_mapped:
  assumes "tnode (mem s) p (drop (2 - level) (idx va)) \<noteq> None" and "level \<le> 2"
  shows "walk_loop level p va alloc s = walk_loop level p va False s"
  using assms
proof (induction level arbitrary: p)
  case (Suc level)
  then consider "level = 0" | "level = 1" by linarith
  then show ?case
    by cases (use Suc in \<open>auto simp: kmon Let_def idx_def pte_at_def numeral_2_eq_2 split: if_splits\<close>)
qed simp

lemma mappages_loop_remap:
  assumes "pt_wf s root xs" and a: "a < MAXVA" and v: "valid (leaf (mem s) root a)"
  shows "mappages_loop root a lst pa perm s = Inl (Panic ''remap'')"
proof -
  obtain q where q: "tnode (mem s) root (idx a) = Some q" "pte_addr q (PX 0 a) \<noteq> 0"
    "walk root a False s = Inr (pte_addr q (PX 0 a), s)"
    "load64 (mem s) (pte_addr q (PX 0 a)) = leaf (mem s) root a"
    using walk_leaf [OF assms(1) a] v by metis
  have "walk root a True s = walk root a False s"
    using walk_loop_mapped [of s root 2 a True] q(1) by (simp add: walk_def)
  then show ?thesis using q v by (subst mappages_loop.simps) simp
qed

lemma mappages_remap:
  assumes "pt_wf s root xs" and "va < MAXVA" and "valid (leaf (mem s) root va)"
  shows "mappages root va sz pa perm s = Inl (Panic ''remap'')"
proof -
  have "PGROUNDDOWN va < MAXVA" using assms(2) by (simp add: PGROUNDDOWN_less_MAXVA)
  moreover have "leaf (mem s) root (PGROUNDDOWN va) = leaf (mem s) root va" by (simp add: leaf_def idx_def)
  then have "valid (leaf (mem s) root (PGROUNDDOWN va))" using assms(3) by (simp only:)
  ultimately show ?thesis using mappages_loop_remap [OF assms(1)] by (simp add: mappages_def)
qed

text \<open>
  The outcome of the loop over the pages a to a + n * PGSIZE: k pages, all unmapped before,
  are entered in the table, and then either the range is complete, or no table page could be
  allocated for the next one, or the next page turns out to be mapped already.
\<close>

definition map_outcome :: "u64 \<Rightarrow> u64 \<Rightarrow> nat \<Rightarrow> u64 \<Rightarrow> u64 \<Rightarrow> 'a kheap_scheme \<Rightarrow> u64 list \<Rightarrow>
    (stop + int \<times> 'a kheap_scheme) \<Rightarrow> nat \<Rightarrow> bool" where
  "map_outcome root a n pa perm s xs res k \<longleftrightarrow>
     (\<forall>j < k. \<not> valid (leaf (mem s) root (a + of_nat j * PGSIZE))) \<and>
     (k \<le> n \<and> valid (leaf (mem s) root (a + of_nat k * PGSIZE)) \<and> res = Inl (Panic ''remap'') \<or>
      (\<exists>r s' xs'. res = Inr (r, s') \<and> pt_step root s xs s' xs' \<and>
        agree (leaf (mem s') root) (mapped a k pa perm (leaf (mem s) root)) \<and>
        (r = 0 \<and> k = Suc n \<or> r = - 1 \<and> k \<le> n \<and> xs' = [])))"

lemma map_outcome_first:
  assumes "kmem_inv s xs" and "pt_wf s root xs" and al: "pg_aligned a" and a: "a < MAXVA"
  obtains (stop) res where "mappages_loop root a lst pa perm s = res" "map_outcome root a n pa perm s xs res 0"
  | (go) s2 xs2 where "\<not> valid (leaf (mem s) root a)" "pt_step root s xs s2 xs2"
      "agree (leaf (mem s2) root) (mapped a 1 pa perm (leaf (mem s) root))"
      "mappages_loop root a lst pa perm s =
         (if a = lst then Inr (0, s2) else mappages_loop root (a + PGSIZE) lst (pa + PGSIZE) perm s2)"
proof (cases "valid (leaf (mem s) root a)")
  case True
  then show ?thesis using mappages_loop_remap [OF assms(2) a] stop by (simp add: map_outcome_def)
next
  case nv: False
  show ?thesis
  proof (cases rule: map_page [OF assms(1,2) a nv, where v = "PA2PTE pa OR perm OR PTE_V"])
    case (1 s')
    then have "mappages_loop root a lst pa perm s = Inr (- 1, s')" by (simp add: mappages_loop.simps)
    moreover have "map_outcome root a n pa perm s xs (Inr (- 1, s')) 0"
      unfolding map_outcome_def using 1 by (intro conjI disjI2 exI [of _ "-1"] exI [of _ s'] exI [of _ "[]"]) (simp_all add: pt_ext_def)
    ultimately show ?thesis by (rule stop)
  next
    case (2 pte s1 s2 xs2)
    have "agree (leaf (mem s2) root) (mapped a 1 pa perm (leaf (mem s) root))"
      unfolding agree_def mapped_1 [OF al] using 2(6) al by simp
    then show ?thesis using 2 by (intro go [OF nv 2(5)]) (simp_all add: mappages_loop.simps [of root a] poke_def kmon)
  qed
qed

lemma map_outcome_Suc:
  assumes room: "unat a + 4096 < 2 ^ 64" and al: "pg_aligned a"
    and nv: "\<not> valid (leaf (mem s) root a)" and st: "pt_step root s xs s2 xs2"
    and ag: "agree (leaf (mem s2) root) (mapped a 1 pa perm (leaf (mem s) root))"
    and old: "\<And>k. k \<le> n \<Longrightarrow> leaf (mem s2) root (a + of_nat (Suc k) * PGSIZE) = leaf (mem s) root (a + of_nat (Suc k) * PGSIZE)"
    and rest: "map_outcome root (a + PGSIZE) n (pa + PGSIZE) perm s2 xs2 res k"
  shows "map_outcome root a (Suc n) pa perm s xs res (Suc k)"
proof -
  have addr: "a + PGSIZE + of_nat j * PGSIZE = a + of_nat (Suc j) * PGSIZE" for j by (simp add: algebra_simps)
  have kn: "k \<le> Suc n" using rest by (auto simp: map_outcome_def)
  have nvs: "\<not> valid (leaf (mem s) root (a + of_nat j * PGSIZE))" if "j < Suc k" for j
  proof (cases j)
    case (Suc i)
    then have "i < k" "i \<le> n" using that kn by auto
    moreover have "\<not> valid (leaf (mem s2) root (a + of_nat (Suc i) * PGSIZE))"
      using rest \<open>i < k\<close> unfolding map_outcome_def addr by blast
    ultimately show ?thesis using old [of i] Suc by (simp only: simp_thms)
  qed (use nv in simp)
  consider "k \<le> n" "valid (leaf (mem s2) root (a + of_nat (Suc k) * PGSIZE))" "res = Inl (Panic ''remap'')"
    | r s' xs' where "res = Inr (r, s')" "pt_step root s2 xs2 s' xs'"
        "agree (leaf (mem s') root) (mapped (a + PGSIZE) k (pa + PGSIZE) perm (leaf (mem s2) root))"
        "r = 0 \<and> k = Suc n \<or> r = - 1 \<and> k \<le> n \<and> xs' = []"
    using rest unfolding map_outcome_def addr by blast
  then show ?thesis
  proof cases
    case 1
    then show ?thesis using nvs old [of k] by (simp add: map_outcome_def)
  next
    case (2 r s' xs')
    have "agree (leaf (mem s') root) (mapped a (Suc k) pa perm (leaf (mem s) root))"
      using 2(3) ag unfolding mapped_Suc [OF al room] by (auto simp: agree_def mapped_def)
    moreover have "r = 0 \<and> Suc k = Suc (Suc n) \<or> r = - 1 \<and> Suc k \<le> Suc n \<and> xs' = []" using 2(4) by simp
    ultimately show ?thesis unfolding map_outcome_def using nvs 2(1) pt_step_trans [OF st 2(2)] by blast
  qed
qed

lemma mappages_loop_outcome:
  assumes "kmem_inv s xs" and "pt_wf s root xs" and "pg_aligned a" and "unat a + n * 4096 < 2 ^ 38"
  shows "\<exists>k. map_outcome root a n pa perm s xs (mappages_loop root a (a + of_nat n * PGSIZE) pa perm s) k"
  using assms
proof (induction n arbitrary: a pa s xs)
  case 0
  then have a: "a < MAXVA" by (simp add: word_less_nat_alt unat_MAXVA)
  show ?case
  proof (cases rule: map_outcome_first [OF 0(1-3) a, where lst = a and n = 0 and pa = pa and perm = perm])
    case (2 s2 xs2)
    then have "map_outcome root a 0 pa perm s xs (Inr (0, s2)) 1" by (auto simp: map_outcome_def)
    then show ?thesis using 2(4) by auto
  qed auto
next
  case (Suc n)
  let ?lst = "a + of_nat (Suc n) * PGSIZE"
  have a: "a < MAXVA" and room: "unat a + 4096 < 2 ^ 64" using Suc.prems(4) by (simp_all add: word_less_nat_alt unat_MAXVA)
  have ua: "unat (a + PGSIZE) = unat a + 4096" by (rule unat_add_PGSIZE [OF room])
  have addr: "a + PGSIZE + of_nat n * PGSIZE = ?lst" by (simp add: algebra_simps)
  have uk: "unat (a + of_nat (Suc k) * PGSIZE) = unat a + Suc k * 4096 \<and> unat a + Suc k * 4096 < 2 ^ 38" if "k \<le> n" for k
  proof -
    have "k * 4096 \<le> n * 4096" using that by simp
    then have "Suc k * 4096 + unat a < 2 ^ 38" using Suc.prems(4) by simp
    then show ?thesis by (simp add: unat_word_ariths unat_of_nat del: of_nat_Suc)
  qed
  have ne: "a \<noteq> ?lst" using uk [of n] by auto
  show ?case
  proof (cases rule: map_outcome_first [OF Suc.prems(1-3) a, where lst = ?lst and n = "Suc n" and pa = pa and perm = perm])
    case (2 s2 xs2)
    have inv: "kmem_inv s2 xs2" "pt_wf s2 root xs2" using 2(2) by (simp_all add: pt_step_def)
    have old: "leaf (mem s2) root (a + of_nat (Suc k) * PGSIZE) = leaf (mem s) root (a + of_nat (Suc k) * PGSIZE)"
      if "k \<le> n" for k
    proof -
      let ?b = "a + of_nat (Suc k) * PGSIZE"
      have "?b < MAXVA" using uk [OF that] by (simp only: word_less_nat_alt unat_MAXVA)
      moreover have "\<not> in_range a 1 ?b" using uk [OF that] by (simp only: in_range_def) simp
      ultimately show ?thesis using agreeD [OF 2(3)] by (simp only: mapped_def if_False simp_thms)
    qed
    obtain k where "map_outcome root (a + PGSIZE) n (pa + PGSIZE) perm s2 xs2
        (mappages_loop root (a + PGSIZE) (a + PGSIZE + of_nat n * PGSIZE) (pa + PGSIZE) perm s2) k"
      using Suc.IH [OF inv pg_aligned_add_PGSIZE [OF Suc.prems(3)], of "pa + PGSIZE"] ua Suc.prems(4) by auto
    from map_outcome_Suc [OF room Suc.prems(3) 2(1-3) old this] show ?thesis
      using 2(4) ne unfolding addr by auto
  qed auto
qed

lemma mappages_loop_correct:
  assumes "kmem_inv s xs" and "pt_wf s root xs" and "pg_aligned a" and "unat a + n * 4096 < 2 ^ 38"
    and "\<And>k. k \<le> n \<Longrightarrow> \<not> valid (leaf (mem s) root (a + of_nat k * PGSIZE))"
  shows "\<exists>r s' xs' k. mappages_loop root a (a + of_nat n * PGSIZE) pa perm s = Inr (r, s') \<and>
    pt_step root s xs s' xs' \<and> agree (leaf (mem s') root) (mapped a k pa perm (leaf (mem s) root)) \<and>
    (r = 0 \<and> k = Suc n \<or> r = - 1 \<and> k \<le> n \<and> xs' = [])"
  using mappages_loop_outcome [OF assms(1-4), of pa perm] assms(5) unfolding map_outcome_def by blast

text \<open>The number of pages that the bytes va to va + sz - 1 touch.\<close>

definition pages_of :: "u64 \<Rightarrow> u64 \<Rightarrow> nat" where
  "pages_of va sz = Suc ((unat va + unat sz - 1) div 4096 - unat va div 4096)"

lemma last_page:
  assumes "0 < sz" and "unat va + unat sz \<le> 2 ^ 38"
  shows "PGROUNDDOWN (va + sz - 1) = PGROUNDDOWN va + of_nat (pages_of va sz - 1) * PGSIZE"
    and "unat (PGROUNDDOWN va) + (pages_of va sz - 1) * 4096 < 2 ^ 38"
proof -
  define n where "n = (unat va + unat sz - 1) div 4096 - unat va div 4096"
  have z: "0 < unat sz" using assms(1) by (simp add: word_less_nat_alt)
  have "unat (va + sz) = unat va + unat sz" using assms(2) by (simp add: unat_word_ariths)
  moreover have "unat (va + sz - 1) = unat (va + sz) - 1"
    by (subst unat_sub) (use z calculation in \<open>simp_all add: word_le_nat_alt\<close>)
  ultimately have ul: "unat (va + sz - 1) = unat va + unat sz - 1" by simp
  have n: "(unat va + unat sz - 1) div 4096 = unat va div 4096 + n"
    unfolding n_def using z by (simp add: div_le_mono)
  have le: "(unat va + unat sz - 1) div 4096 * 4096 \<le> unat va + unat sz - 1" by simp
  have sum: "unat (PGROUNDDOWN va) + n * 4096 = (unat va + unat sz - 1) div 4096 * 4096"
    unfolding unat_PGROUNDDOWN_div n by (simp add: algebra_simps)
  then have lt: "unat (PGROUNDDOWN va) + n * 4096 < 2 ^ 38" using le assms(2) z by linarith
  then show "unat (PGROUNDDOWN va) + (pages_of va sz - 1) * 4096 < 2 ^ 38" by (simp add: pages_of_def n_def)
  have "unat (of_nat n * PGSIZE) = n * 4096" using lt by (simp add: unat_word_ariths unat_of_nat)
  then have "unat (PGROUNDDOWN va + of_nat n * PGSIZE) = unat (PGROUNDDOWN va) + n * 4096"
    using lt by (simp add: unat_word_ariths)
  then have "unat (PGROUNDDOWN (va + sz - 1)) = unat (PGROUNDDOWN va + of_nat n * PGSIZE)"
    using sum by (simp only: unat_PGROUNDDOWN_div [of "va + sz - 1"] ul)
  then show "PGROUNDDOWN (va + sz - 1) = PGROUNDDOWN va + of_nat (pages_of va sz - 1) * PGSIZE"
    by (simp add: pages_of_def n_def u_eqI)
qed

lemma pages_end:
  assumes "0 < sz" and "unat va + unat sz \<le> 2 ^ 38"
  shows "unat (PGROUNDDOWN va) + pages_of va sz * 4096 \<le> 2 ^ 38"
proof -
  have "unat (PGROUNDDOWN va) + (pages_of va sz - 1) * 4096 = (unat va div 4096 + (pages_of va sz - 1)) * 4096"
    by (simp add: unat_PGROUNDDOWN_div algebra_simps)
  then have "unat va div 4096 + (pages_of va sz - 1) < 2 ^ 26" using last_page(2) [OF assms] by simp
  then show ?thesis by (simp add: unat_PGROUNDDOWN_div pages_of_def)
qed

lemma mappages_outcome:
  assumes "kmem_inv s xs" and "pt_wf s root xs" and "0 < sz" and "unat va + unat sz \<le> 2 ^ 38"
  shows "\<exists>k. map_outcome root (PGROUNDDOWN va) (pages_of va sz - 1) pa perm s xs (mappages root va sz pa perm s) k"
  using mappages_loop_outcome [OF assms(1,2) _ last_page(2) [OF assms(3,4)], of pa perm]
  unfolding mappages_def last_page(1) [OF assms(3,4)] by simp

lemma range_unmapped:
  assumes nv: "\<forall>j < k. \<not> valid (leaf m root (a + of_nat j * PGSIZE))" and al: "pg_aligned a"
    and a: "unat a + k * 4096 \<le> 2 ^ 38" and r: "in_range a k vb"
  shows "\<not> valid (leaf m root vb)"
proof -
  define j where "j = unat vb div 4096 - unat a div 4096"
  have ua: "unat a = unat a div 4096 * 4096" using al unat_PGROUNDDOWN_div [of a] by (simp add: pg_aligned_def)
  have b: "unat a \<le> unat vb" "unat vb < unat a + k * 4096" using r by (simp_all add: in_range_def)
  have dj: "unat vb div 4096 = unat a div 4096 + j" using b(1) by (simp add: j_def div_le_mono)
  have jk: "j < k"
  proof (rule ccontr)
    assume "\<not> j < k"
    then have "(unat a div 4096 + k) * 4096 \<le> unat vb div 4096 * 4096" using dj by simp
    then show False using b(2) ua by (simp add: algebra_simps)
  qed
  have "unat (a + of_nat j * PGSIZE) = unat a + j * 4096"
  proof -
    have "j * 4096 \<le> k * 4096" using jk by simp
    then show ?thesis using a by (simp add: unat_word_ariths unat_of_nat)
  qed
  then have "PGROUNDDOWN vb = a + of_nat j * PGSIZE"
    using dj ua by (intro u_eqI) (simp add: unat_PGROUNDDOWN_div algebra_simps)
  moreover have "leaf m root (PGROUNDDOWN vb) = leaf m root vb" by (simp add: leaf_def idx_def)
  ultimately show ?thesis using nv jk by metis
qed

lemma mappages_correct_aux:
  assumes "kmem_inv s xs" and "pt_wf s root xs" and "0 < sz" and "unat va + unat sz \<le> 2 ^ 38"
    and nv: "\<And>vb. in_range (PGROUNDDOWN va) (pages_of va sz) vb \<Longrightarrow> \<not> valid (leaf (mem s) root vb)"
  shows "\<exists>r s' xs' k. mappages root va sz pa perm s = Inr (r, s') \<and> pt_step root s xs s' xs' \<and>
    agree (leaf (mem s') root) (mapped (PGROUNDDOWN va) k pa perm (leaf (mem s) root)) \<and>
    (r = 0 \<and> k = pages_of va sz \<or> r = - 1 \<and> k < pages_of va sz \<and> xs' = [])"
proof -
  let ?a = "PGROUNDDOWN va" and ?n = "pages_of va sz - 1"
  note lp = last_page [OF assms(3,4)]
  have "\<not> valid (leaf (mem s) root (?a + of_nat k * PGSIZE))" if "k \<le> ?n" for k
  proof (rule nv)
    have "k * 4096 \<le> ?n * 4096" using that by simp
    then have "unat (?a + of_nat k * PGSIZE) = unat ?a + k * 4096"
      using lp(2) by (simp add: unat_word_ariths unat_of_nat)
    then show "in_range ?a (pages_of va sz) (?a + of_nat k * PGSIZE)"
      using that by (simp add: in_range_def pages_of_def)
  qed
  then have "\<exists>r s' xs' k. mappages_loop root ?a (?a + of_nat ?n * PGSIZE) pa perm s = Inr (r, s') \<and>
    pt_step root s xs s' xs' \<and> agree (leaf (mem s') root) (mapped ?a k pa perm (leaf (mem s) root)) \<and>
    (r = 0 \<and> k = Suc ?n \<or> r = - 1 \<and> k \<le> ?n \<and> xs' = [])"
    using assms(1,2) lp(2) by (intro mappages_loop_correct) auto
  then show ?thesis unfolding mappages_def lp(1) by (simp add: pages_of_def less_Suc_eq_le)
qed

lemma mappages_one:
  assumes "kmem_inv s xs" and "pt_wf s root xs" and "pg_aligned a" and "a < MAXVA"
    and "\<not> valid (leaf (mem s) root a)"
  shows "\<exists>r s' xs'. mappages root a PGSIZE pa perm s = Inr (r, s') \<and> pt_step root s xs s' xs' \<and>
    (r = 0 \<and> agree (leaf (mem s') root) (mapped a 1 pa perm (leaf (mem s) root)) \<or>
     r = - 1 \<and> xs' = [] \<and> agree (leaf (mem s') root) (leaf (mem s) root))"
proof -
  have ua: "unat a < 2 ^ 38" using assms(4) by (simp add: word_less_nat_alt unat_MAXVA)
  then have "PGROUNDDOWN (a + PGSIZE - 1) = a"
  proof -
    have eq: "a + PGSIZE - 1 = a + of_nat 4095" by (simp add: PGSIZE_def)
    show ?thesis unfolding eq by (rule PGROUNDDOWN_page_off [OF assms(3)]) simp
  qed
  moreover have "\<exists>r s' xs' k. mappages_loop root a (a + of_nat 0 * PGSIZE) pa perm s = Inr (r, s') \<and>
    pt_step root s xs s' xs' \<and> agree (leaf (mem s') root) (mapped a k pa perm (leaf (mem s) root)) \<and>
    (r = 0 \<and> k = Suc 0 \<or> r = - 1 \<and> k \<le> 0 \<and> xs' = [])"
    using assms ua by (intro mappages_loop_correct) auto
  ultimately show ?thesis using assms(3) by (auto simp: mappages_def)
qed

section \<open>uvmunmap\<close>

text \<open>The frames of n consecutive pages.\<close>

fun frames :: "(u64 \<Rightarrow> u64) \<Rightarrow> u64 \<Rightarrow> nat \<Rightarrow> u64 list" where
  "frames f a 0 = []"
| "frames f a (Suc n) = PTE2PA (f a) # frames f (a + PGSIZE) n"

definition cleared :: "u64 \<Rightarrow> nat \<Rightarrow> (u64 \<Rightarrow> u64) \<Rightarrow> u64 \<Rightarrow> u64" where
  "cleared a n f vb = (if in_range a n vb then 0 else f vb)"

text \<open>n pages from a are mapped, to frames that are managed, pairwise different, neither free nor part of the table.\<close>

definition owns :: "'a kmach_scheme \<Rightarrow> u64 \<Rightarrow> u64 list \<Rightarrow> u64 \<Rightarrow> nat \<Rightarrow> bool" where
  "owns s root xs a n \<longleftrightarrow>
     (\<forall>vb. in_range a n vb \<longrightarrow> valid (leaf (mem s) root vb) \<and> PTE_FLAGS (leaf (mem s) root vb) \<noteq> PTE_V) \<and>
     distinct (frames (leaf (mem s) root) a n) \<and>
     (\<forall>p \<in> set (frames (leaf (mem s) root) a n). kpage s p \<and> p \<notin> set xs \<and> p \<notin> nodes (mem s) root)"

lemma frames_cong:
  assumes "unat a + n * 4096 < 2 ^ 64" and "\<And>vb. in_range a n vb \<Longrightarrow> f vb = g vb"
  shows "frames f a n = frames g a n"
  using assms
proof (induction n arbitrary: a)
  case (Suc n)
  have room: "unat a + 4096 < 2 ^ 64" using Suc.prems(1) by simp
  have "f vb = g vb" if "in_range (a + PGSIZE) n vb" for vb
    using Suc.prems(2) [of vb] in_range_Suc [OF room, of n vb] that by blast
  moreover have "unat (a + PGSIZE) + n * 4096 < 2 ^ 64" using Suc.prems(1) unat_add_PGSIZE [OF room] by simp
  ultimately have "frames f (a + PGSIZE) n = frames g (a + PGSIZE) n" by (rule Suc.IH [rotated])
  moreover have "f a = g a" using Suc.prems(2) [of a] by (simp add: in_range_def)
  ultimately show ?case by simp
qed simp

lemma heap_frame_kpage: "s' = s\<lparr>freelist := f, mem := m\<rparr> \<Longrightarrow> kpage s' = kpage s"
  by (rule kpage_same_end) simp

text \<open>One round of uvmunmap; d says whether the frame is freed.\<close>

lemma unmap_page:
  assumes inv: "kmem_inv s xs" and wf: "pt_wf s root xs" and a: "a < MAXVA" "pg_aligned a"
    and e: "valid (leaf (mem s) root a)" "PTE_FLAGS (leaf (mem s) root a) \<noteq> PTE_V"
    and p: "d \<Longrightarrow> kpage s p \<and> p \<notin> set xs \<and> p \<notin> nodes (mem s) root" "p = PTE2PA (leaf (mem s) root a)"
  shows "\<exists>s'. uvmunmap_loop root a b d s = (if a < b then uvmunmap_loop root (a + PGSIZE) b d s' else Inr ((), s)) \<and>
    kmem_inv s' ((if d then [p] else []) @ xs) \<and> pt_wf s' root ((if d then [p] else []) @ xs) \<and>
    nodes (mem s') root = nodes (mem s) root \<and>
    agree (leaf (mem s') root) (cleared a 1 (leaf (mem s) root)) \<and>
    same_on (- (nodes (mem s) root \<union> (if d then {p} else {}))) (mem s') (mem s) \<and>
    s' = s\<lparr>freelist := freelist s', mem := mem s'\<rparr>"
proof -
  let ?ys = "(if d then [p] else []) @ xs" and ?N = "nodes (mem s) root"
  obtain s1 where s1: "(if d then kfree p else kret ()) s = Inr ((), s1)" "kmem_inv s1 ?ys" "pt_wf s1 root ?ys"
    "same_on (- (if d then {p} else {})) (mem s1) (mem s)" "s1 = s\<lparr>freelist := freelist s1, mem := mem s1\<rparr>"
  proof (cases d)
    case True
    let ?m = "store64 (memset (mem s) p 1 4096) p (freelist s)"
    have pp: "kpage s p" "p \<notin> set xs" "p \<notin> ?N" "pg_aligned p" using p(1) True kpage_aligned by auto
    have so: "same_on (- {p}) ?m (mem s)"
      using store64_page_other [OF pp(4), of 0] by (auto simp: same_on_def memset_page [OF pp(4)])
    have "pt_wf (s\<lparr>mem := ?m\<rparr>) root xs" using wf same_on_mono [OF so] pp(3) by (intro pt_wf_frame) auto
    moreover have "nodes ?m root = ?N" using wf same_on_mono [OF so] pp(3) by (intro table_frame(3)) auto
    ultimately have "pt_wf (s\<lparr>mem := ?m, freelist := p\<rparr>) root (p # xs)"
      using pp(3) by (auto simp: pt_wf_def kpage_def)
    then show thesis
      using that [of "s\<lparr>mem := ?m, freelist := p\<rparr>"] True kfree_eq [OF inv pp(1)] kfree_inv [OF inv pp(1,2)] so
      by simp
  qed (use that [of s] inv wf in \<open>simp add: kmon\<close>)
  have so1: "same_on ?N (mem s1) (mem s)" using s1(4) by (rule same_on_mono) (use p(1) in auto)
  note tf = table_frame [OF wf so1]
  obtain q where q: "tnode (mem s) root (idx a) = Some q" "pte_addr q (PX 0 a) \<noteq> 0"
    "walk root a False s = Inr (pte_addr q (PX 0 a), s)"
    "load64 (mem s) (pte_addr q (PX 0 a)) = leaf (mem s) root a"
    using walk_leaf [OF wf a(1) e(1)] .
  have q1: "tnode (mem s1) root (idx a) = Some q" using q(1) tf(1) by simp
  let ?s' = "s1\<lparr>mem := store64 (mem s1) (pte_addr q (PX 0 a)) 0\<rparr>"
  note st = pt_step_leaf_store [OF s1(2,3) q1, of 0]
  have qn: "pg_aligned q" "q \<in> ?N"
    using pt_wf_node [OF wf tpath_idx(1) q(1)] nodesI [OF tpath_idx(1) q(1)] by auto
  have "same_on (- {q}) (mem ?s') (mem s1)"
    using same_on_store [OF qn(1) _ PX_bound [of 0 a], of "- {q}" "mem s1" 0] by simp
  then have "same_on (- (?N \<union> (if d then {p} else {}))) (mem ?s') (mem s1)"
    by (rule same_on_mono) (use qn(2) in auto)
  moreover have "same_on (- (?N \<union> (if d then {p} else {}))) (mem s1) (mem s)"
    using s1(4) by (rule same_on_mono) auto
  ultimately have so: "same_on (- (?N \<union> (if d then {p} else {}))) (mem ?s') (mem s)" by (rule same_on_trans)
  have "agree (leaf (mem ?s') root) (cleared a 1 (leaf (mem s) root))"
    using leaf_store(3) [OF s1(3) q1 a(1), of _ 0] tf(2) a(2)
    unfolding agree_def cleared_def page_of_iff [OF a(2), symmetric] by simp
  moreover have "uvmunmap_loop root a b d s =
      (if a < b then uvmunmap_loop root (a + PGSIZE) b d ?s' else Inr ((), s))"
    using q s1(1) [unfolded p(2)] e
    by (subst uvmunmap_loop.simps) (cases d, simp_all add: poke_def kmon Let_def)
  moreover have "?s' = s\<lparr>freelist := freelist ?s', mem := mem ?s'\<rparr>"
    using s1(5) st unfolding pt_step_def by (blast intro: heap_frame_trans)
  moreover have "nodes (mem ?s') root = ?N" using leaf_store(2) [OF s1(3) q1, of 0] tf(3) by simp
  ultimately show ?thesis using st so unfolding pt_step_def by (intro exI [of _ ?s']) simp
qed

lemma frames_memI:
  assumes "unat a + n * 4096 < 2 ^ 64" and "k < n"
  shows "PTE2PA (f (a + of_nat k * PGSIZE)) \<in> set (frames f a n)"
  using assms
proof (induction n arbitrary: a k)
  case (Suc n)
  have ua: "unat (a + PGSIZE) = unat a + 4096" using Suc.prems(1) by (intro unat_add_PGSIZE) simp
  show ?case
  proof (cases k)
    case (Suc j)
    have "PTE2PA (f (a + PGSIZE + of_nat j * PGSIZE)) \<in> set (frames f (a + PGSIZE) n)"
      using Suc Suc.prems ua by (intro Suc.IH) auto
    then show ?thesis using Suc by (simp add: algebra_simps)
  qed simp
qed simp

text \<open>The result of unmapping n pages from a, with the frames put on the free list when d.\<close>

definition unmapped :: "u64 \<Rightarrow> 'a kheap_scheme \<Rightarrow> u64 list \<Rightarrow> u64 \<Rightarrow> nat \<Rightarrow> bool \<Rightarrow> 'a kheap_scheme \<Rightarrow> bool" where
  "unmapped root s xs a n d s' \<longleftrightarrow>
     (let ps = (if d then rev (frames (leaf (mem s) root) a n) else []) in
      kmem_inv s' (ps @ xs) \<and> pt_wf s' root (ps @ xs) \<and>
      nodes (mem s') root = nodes (mem s) root \<and>
      agree (leaf (mem s') root) (cleared a n (leaf (mem s) root)) \<and>
      same_on (- (nodes (mem s) root \<union> set ps)) (mem s') (mem s) \<and>
      s' = s\<lparr>freelist := freelist s', mem := mem s'\<rparr>)"

lemma unmappedD:
  assumes "unmapped root s xs a n d s'"
  shows "kmem_inv s' ((if d then rev (frames (leaf (mem s) root) a n) else []) @ xs)"
    "pt_wf s' root ((if d then rev (frames (leaf (mem s) root) a n) else []) @ xs)"
    "nodes (mem s') root = nodes (mem s) root"
    "agree (leaf (mem s') root) (cleared a n (leaf (mem s) root))"
    "same_on (- (nodes (mem s) root \<union> set (if d then rev (frames (leaf (mem s) root) a n) else []))) (mem s') (mem s)"
    "s' = s\<lparr>freelist := freelist s', mem := mem s'\<rparr>"
  using assms unfolding unmapped_def Let_def by blast+

lemma uvmunmap_loop_correct:
  assumes "kmem_inv s xs" and "pt_wf s root xs" and "pg_aligned a" and "unat a + n * 4096 \<le> 2 ^ 38"
    and own: "owns s root xs a n"
  shows "\<exists>s'. uvmunmap_loop root a (a + of_nat n * PGSIZE) d s = Inr ((), s') \<and> unmapped root s xs a n d s'"
  using assms
proof (induction n arbitrary: a s xs)
  case 0
  then show ?case by (simp add: uvmunmap_loop.simps unmapped_def cleared_def agree_def)
next
  case (Suc n)
  let ?L = "leaf (mem s) root" and ?b = "a + of_nat (Suc n) * PGSIZE"
  have room: "unat a + 4096 < 2 ^ 64" and am: "a < MAXVA"
    using Suc.prems(4) by (simp_all add: word_less_nat_alt unat_MAXVA)
  have ua: "unat (a + PGSIZE) = unat a + 4096" by (rule unat_add_PGSIZE [OF room])
  have "unat (of_nat (Suc n) * PGSIZE) = Suc n * 4096" using Suc.prems(4) by (simp add: unat_word_ariths unat_of_nat del: of_nat_Suc)
  then have "unat ?b = unat a + Suc n * 4096" using Suc.prems(4) by (simp add: unat_word_ariths del: of_nat_Suc)
  then have lt: "a < ?b" by (simp add: word_less_nat_alt)
  have beq: "?b = a + PGSIZE + of_nat n * PGSIZE" by (simp add: algebra_simps)
  define p where "p = PTE2PA (?L a)"
  let ?ys = "(if d then [p] else []) @ xs"
  have e: "valid (?L a)" "PTE_FLAGS (?L a) \<noteq> PTE_V"
    and pk: "kpage s p \<and> p \<notin> set xs \<and> p \<notin> nodes (mem s) root"
    using Suc.prems(5) by (auto simp: owns_def p_def in_range_def)
  obtain s1 where s1: "uvmunmap_loop root a ?b d s = uvmunmap_loop root (a + PGSIZE) ?b d s1"
    "kmem_inv s1 ?ys" "pt_wf s1 root ?ys" "nodes (mem s1) root = nodes (mem s) root"
    "agree (leaf (mem s1) root) (cleared a 1 ?L)"
    "same_on (- (nodes (mem s) root \<union> (if d then {p} else {}))) (mem s1) (mem s)"
    "s1 = s\<lparr>freelist := freelist s1, mem := mem s1\<rparr>"
    using unmap_page [OF Suc.prems(1,2) am Suc.prems(3) e, of d p ?b] pk lt by (auto simp: p_def)
  have lf: "leaf (mem s1) root vb = ?L vb" if "in_range (a + PGSIZE) n vb" for vb
  proof -
    have "vb < MAXVA" using that Suc.prems(4) ua by (simp add: in_range_def word_less_nat_alt unat_MAXVA)
    moreover have "\<not> in_range a 1 vb" using that ua by (simp add: in_range_def)
    ultimately show ?thesis using agreeD [OF s1(5)] by (simp add: cleared_def)
  qed
  have fr: "frames (leaf (mem s1) root) (a + PGSIZE) n = frames ?L (a + PGSIZE) n"
    using Suc.prems(4) ua lf by (intro frames_cong) auto
  have "kpage s1 = kpage s" by (rule heap_frame_kpage [OF s1(7)])
  moreover have "p \<notin> set (frames ?L (a + PGSIZE) n)" using Suc.prems(5) by (simp add: owns_def p_def)
  moreover have "in_range a (Suc n) vb" if "in_range (a + PGSIZE) n vb" for vb
    using that in_range_Suc [OF room] by blast
  ultimately have own1: "owns s1 root ?ys (a + PGSIZE) n"
    using Suc.prems(5) lf unfolding owns_def fr s1(4) by auto
  obtain s' where s': "uvmunmap_loop root (a + PGSIZE) (a + PGSIZE + of_nat n * PGSIZE) d s1 = Inr ((), s')"
    "unmapped root s1 ?ys (a + PGSIZE) n d s'"
    using Suc.IH [OF s1(2,3) pg_aligned_add_PGSIZE [OF Suc.prems(3)] _ own1] ua Suc.prems(4) by auto
  let ?fs = "if d then rev (frames ?L (a + PGSIZE) n) else []"
  have u: "kmem_inv s' (?fs @ ?ys)" "pt_wf s' root (?fs @ ?ys)" "nodes (mem s') root = nodes (mem s) root"
      "agree (leaf (mem s') root) (cleared (a + PGSIZE) n (leaf (mem s1) root))"
      "same_on (- (nodes (mem s) root \<union> set ?fs)) (mem s') (mem s1)"
      "s' = s1\<lparr>freelist := freelist s', mem := mem s'\<rparr>"
    using s'(2) unfolding unmapped_def Let_def fr s1(4) by blast+
  have ps: "(if d then rev (frames ?L a (Suc n)) else []) = ?fs @ (if d then [p] else [])" by (simp add: p_def)
  have "same_on (- (nodes (mem s) root \<union> set (?fs @ (if d then [p] else [])))) (mem s') (mem s)"
    by (rule same_on_trans [OF same_on_mono [OF u(5)] same_on_mono [OF s1(6)]]) auto
  moreover have "agree (leaf (mem s') root) (cleared a (Suc n) ?L)"
    using u(4) s1(5) unfolding agree_def cleared_def in_range_Suc [OF room] by auto
  ultimately have "unmapped root s xs a (Suc n) d s'"
    using u(1-3) heap_frame_trans [OF s1(7) u(6)] unfolding unmapped_def Let_def ps append_assoc by blast
  moreover have "uvmunmap_loop root a ?b d s = Inr ((), s')" using s1(1) s'(1) by (simp only: beq)
  ultimately show ?case by blast
qed

section \<open>A fresh page\<close>

text \<open>
  The step that uvmalloc, uvmcopy and uvminit share: take the page x off the free list, give it
  its contents m2, and map it at a. Whatever happens, x is neither free nor part of the
  table afterwards, and keeps its contents.
\<close>

definition fresh_mapped ::
  "u64 \<Rightarrow> 'a kheap_scheme \<Rightarrow> u64 \<Rightarrow> u64 list \<Rightarrow> memory \<Rightarrow> 'a kheap_scheme \<Rightarrow> u64 list \<Rightarrow> bool" where
  "fresh_mapped root s x ys m2 s' zs \<longleftrightarrow>
     kmem_inv s' zs \<and> pt_wf s' root zs \<and>
     (\<exists>us. ys = us @ zs \<and> nodes (mem s') root = nodes (mem s) root \<union> set us) \<and>
     x \<notin> nodes (mem s') root \<and> x \<notin> set zs \<and>
     same_on (- (nodes (mem s) root \<union> set (x # ys))) (mem s') (mem s) \<and> same_on {x} (mem s') m2 \<and>
     s' = s\<lparr>freelist := freelist s', mem := mem s'\<rparr>"

lemma take_page:
  assumes inv: "kmem_inv s (x # ys)" and wf: "pt_wf s root (x # ys)" and m2: "same_on (- {x}) m2 (mem s)"
  defines "s2 \<equiv> s\<lparr>freelist := load64 (mem s) x, mem := m2\<rparr>"
  shows "kmem_inv s2 ys" "pt_wf s2 root ys" "nodes m2 root = nodes (mem s) root"
    "leaf m2 root = leaf (mem s) root" "x \<notin> nodes (mem s) root" "x \<notin> set ys"
proof -
  show nx: "x \<notin> nodes (mem s) root" and ny: "x \<notin> set ys"
    using inv wf by (auto simp: kmem_inv_def pt_wf_def)
  have so: "same_on (nodes (mem s) root) m2 (mem s)" "same_on (set ys) m2 (mem s)"
    using same_on_mono [OF m2] nx ny by auto
  have "kmem_inv (s\<lparr>freelist := load64 (mem s) x\<rparr>) ys" using inv by (simp add: kmem_inv_def)
  then show "kmem_inv s2 ys" using so(2) kmem_inv_same [of "s\<lparr>freelist := load64 (mem s) x\<rparr>" ys m2]
    by (simp add: s2_def)
  have "pt_wf (s\<lparr>mem := m2\<rparr>) root (x # ys)" by (rule pt_wf_frame [OF wf so(1)])
  then show "pt_wf s2 root ys" by (auto simp: pt_wf_def kpage_def s2_def)
  show "nodes m2 root = nodes (mem s) root" by (rule table_frame(3) [OF wf so(1)])
  show "leaf m2 root = leaf (mem s) root" using table_frame(2) [OF wf so(1)] by (rule ext)
qed

lemma map_fresh:
  assumes inv: "kmem_inv s (x # ys)" and wf: "pt_wf s root (x # ys)" and m2: "same_on (- {x}) m2 (mem s)"
    and a: "pg_aligned a" "a < MAXVA" "\<not> valid (leaf (mem s) root a)"
  shows "\<exists>r s' zs. mappages root a PGSIZE x perm (s\<lparr>freelist := load64 (mem s) x, mem := m2\<rparr>) = Inr (r, s') \<and>
    fresh_mapped root s x ys m2 s' zs \<and>
    (r = 0 \<and> agree (leaf (mem s') root) (mapped a 1 x perm (leaf (mem s) root)) \<or>
     r = - 1 \<and> zs = [] \<and> agree (leaf (mem s') root) (leaf (mem s) root))"
proof -
  let ?s2 = "s\<lparr>freelist := load64 (mem s) x, mem := m2\<rparr>"
  note tk = take_page [OF inv wf m2]
  obtain r s' zs where r: "mappages root a PGSIZE x perm ?s2 = Inr (r, s')" "pt_step root ?s2 ys s' zs"
    "r = 0 \<and> agree (leaf (mem s') root) (mapped a 1 x perm (leaf (mem s) root)) \<or>
     r = - 1 \<and> zs = [] \<and> agree (leaf (mem s') root) (leaf (mem s) root)"
    using mappages_one [OF tk(1,2) a(1,2), of x perm] a(3) tk(4) by auto
  obtain us where us: "ys = us @ zs" "nodes (mem s') root = nodes (mem s) root \<union> set us"
    and so: "same_on (- (nodes (mem s) root \<union> set ys)) (mem s') m2" and inv': "kmem_inv s' zs" "pt_wf s' root zs"
    and fr: "s' = ?s2\<lparr>freelist := freelist s', mem := mem s'\<rparr>"
    using r(2) tk(3) unfolding pt_step_def by auto
  have "same_on (- (nodes (mem s) root \<union> set (x # ys))) (mem s') (mem s)"
    by (rule same_on_trans [OF same_on_mono [OF so] same_on_mono [OF m2]]) auto
  moreover have "same_on {x} (mem s') m2" using so by (rule same_on_mono) (use tk(5,6) in auto)
  moreover have "s' = s\<lparr>freelist := freelist s', mem := mem s'\<rparr>" by (subst fr) simp
  ultimately have "fresh_mapped root s x ys m2 s' zs"
    using us inv' tk(5,6) unfolding fresh_mapped_def by auto
  then show ?thesis using r by blast
qed

lemma free_fresh:
  assumes fm: "fresh_mapped root s x ys m2 s' zs" and x: "kpage s x"
  shows "\<exists>s''. kfree x s' = Inr ((), s'') \<and> kmem_inv s'' (x # zs) \<and> pt_wf s'' root (x # zs) \<and>
    leaf (mem s'') root = leaf (mem s') root \<and> nodes (mem s'') root = nodes (mem s') root \<and>
    same_on (- {x}) (mem s'') (mem s') \<and> s'' = s\<lparr>freelist := freelist s'', mem := mem s''\<rparr>"
proof -
  let ?m = "store64 (memset (mem s') x 1 4096) x (freelist s')"
  have nx: "x \<notin> set zs" "x \<notin> nodes (mem s') root" and inv: "kmem_inv s' zs" "pt_wf s' root zs"
    and fr: "s' = s\<lparr>freelist := freelist s', mem := mem s'\<rparr>" using fm by (simp_all add: fresh_mapped_def)
  have x': "kpage s' x" "pg_aligned x" using x heap_frame_kpage [OF fr] kpage_aligned by auto
  have so: "same_on (- {x}) ?m (mem s')"
    using store64_page_other [OF x'(2), of 0] by (auto simp: same_on_def memset_page [OF x'(2)])
  then have son: "same_on (nodes (mem s') root) ?m (mem s')" by (rule same_on_mono) (use nx in auto)
  have "pt_wf (s'\<lparr>mem := ?m\<rparr>) root zs" by (rule pt_wf_frame [OF inv(2) son])
  then have "pt_wf (s'\<lparr>mem := ?m, freelist := x\<rparr>) root (x # zs)"
    using nx table_frame(3) [OF inv(2) son] by (auto simp: pt_wf_def kpage_def)
  moreover have "leaf ?m root = leaf (mem s') root" using table_frame(2) [OF inv(2) son] by (rule ext)
  moreover have "s'\<lparr>mem := ?m, freelist := x\<rparr> = s\<lparr>freelist := x, mem := ?m\<rparr>" by (subst fr) simp
  ultimately show ?thesis
    using kfree_eq [OF inv(1) x'(1)] kfree_inv [OF inv(1) x'(1) nx(1)] so table_frame(3) [OF inv(2) son]
    by (intro exI [of _ "s'\<lparr>mem := ?m, freelist := x\<rparr>"]) simp
qed

section \<open>Growing and shrinking\<close>

lemma unat_PGROUNDUP_38:
  "unat sz \<le> 2 ^ 38 \<Longrightarrow> unat (PGROUNDUP sz) = (unat sz + 4095) div 4096 * 4096"
  unfolding PGROUNDUP_DOWN unat_PGROUNDDOWN_div by (simp add: unat_word_ariths)

definition npages :: "u64 \<Rightarrow> nat" where
  "npages sz = (unat sz + 4095) div 4096"

lemma unat_PGROUNDUP_npages: "unat sz \<le> 2 ^ 38 \<Longrightarrow> unat (PGROUNDUP sz) = npages sz * 4096"
  by (simp add: npages_def unat_PGROUNDUP_38)

lemma npages_mono: "unat a \<le> unat b \<Longrightarrow> npages a \<le> npages b"
  by (simp add: npages_def div_le_mono)

lemma npages_bound: "unat sz \<le> 2 ^ 38 \<Longrightarrow> npages sz \<le> 2 ^ 26"
  using div_le_mono [of "unat sz + 4095" "2 ^ 38 + 4095" 4096] by (simp add: npages_def)

lemma PGROUNDUP_of_npages: "unat sz \<le> 2 ^ 38 \<Longrightarrow> PGROUNDUP sz = of_nat (npages sz) * PGSIZE"
proof (rule u_eqI)
  assume sz: "unat sz \<le> 2 ^ 38"
  have "unat (of_nat (npages sz) * PGSIZE) = npages sz * 4096"
    using npages_bound [OF sz] by (simp add: unat_word_ariths unat_of_nat)
  then show "unat (PGROUNDUP sz) = unat (of_nat (npages sz) * PGSIZE)" by (simp add: unat_PGROUNDUP_npages [OF sz])
qed

lemma PGROUNDUP_aligned: "pg_aligned a \<Longrightarrow> unat a \<le> 2 ^ 38 \<Longrightarrow> PGROUNDUP a = a"
proof (rule u_eqI)
  assume "pg_aligned a" and a: "unat a \<le> 2 ^ 38"
  then obtain k where k: "unat a = 4096 * k" by (auto simp: pg_aligned_def mod_eq_0_iff_dvd elim: dvdE)
  then have "(unat a + 4095) div 4096 = k" by simp
  then show "unat (PGROUNDUP a) = unat a" using k unat_PGROUNDUP_38 [OF a] by simp
qed

text \<open>The page count survives the conversion to int and back.\<close>

lemma scast_count: "unat (x::u64) < 2 ^ 31 \<Longrightarrow> scast (ucast x :: 32 word) = x"
proof (rule bit_word_eqI)
  fix n assume x: "unat x < 2 ^ 31"
  have "take_bit 31 x = x" using x by (simp add: take_bit_eq_mod word_unat_eq_iff unat_mod_distrib)
  then have b: "bit x k \<Longrightarrow> k < 31" for k by (metis bit_take_bit_iff)
  show "bit (scast (ucast x :: 32 word) :: u64) n = bit x n"
    using b [of n] b [of 31] by (auto simp: bit_simps min_def)
qed

lemma uvmdealloc_correct:
  assumes "kmem_inv s xs" and "pt_wf s root xs" and "newsz \<le> oldsz" and "unat oldsz \<le> 2 ^ 38"
    and "owns s root xs (PGROUNDUP newsz) (npages oldsz - npages newsz)"
  shows "\<exists>s'. uvmdealloc root oldsz newsz s = Inr (newsz, s') \<and>
    unmapped root s xs (PGROUNDUP newsz) (npages oldsz - npages newsz) True s'"
proof -
  have le: "unat newsz \<le> unat oldsz" and nb: "unat newsz \<le> 2 ^ 38"
    using assms(3,4) by (simp_all add: word_le_nat_alt)
  note up = unat_PGROUNDUP_npages [OF assms(4)] unat_PGROUNDUP_npages [OF nb]
  let ?n = "npages oldsz - npages newsz"
  have triv: "unmapped root s xs (PGROUNDUP newsz) 0 True s"
    using assms(1,2) by (simp add: unmapped_def cleared_def agree_def)
  consider "newsz = oldsz" | "newsz < oldsz" "?n = 0" | "newsz < oldsz" "0 < ?n"
    using assms(3) by fastforce
  then show ?thesis
  proof cases
    case 1
    then show ?thesis using triv by (simp add: uvmdealloc_def kmon)
  next
    case 2
    then have "\<not> PGROUNDUP newsz < PGROUNDUP oldsz" by (simp add: word_less_nat_alt up)
    then show ?thesis using 2 triv by (simp add: uvmdealloc_def kmon not_le [symmetric] leD)
  next
    case 3
    then have lt: "PGROUNDUP newsz < PGROUNDUP oldsz" by (simp add: word_less_nat_alt up)
    have "unat ((PGROUNDUP oldsz - PGROUNDUP newsz) div PGSIZE) = ?n"
      using lt by (simp add: unat_div_distrib unat_sub up less_imp_le flip: diff_mult_distrib)
    moreover have "?n \<le> 2 ^ 26" using npages_bound [OF assms(4)] by simp
    ultimately have cnt: "scast (ucast ((PGROUNDUP oldsz - PGROUNDUP newsz) div PGSIZE) :: 32 word) = (of_nat ?n :: u64)"
      by (subst scast_count) (auto intro!: u_eqI simp: unat_of_nat)
    have "PGROUNDUP newsz mod PGSIZE = 0" using pg_aligned_mod pg_aligned_PGROUNDUP by blast
    moreover have "unat (PGROUNDUP newsz) + ?n * 4096 \<le> 2 ^ 38"
      using npages_bound [OF assms(4)] 3(2) up by (simp add: diff_mult_distrib)
    then obtain s' where "uvmunmap_loop root (PGROUNDUP newsz) (PGROUNDUP newsz + of_nat ?n * PGSIZE) True s = Inr ((), s')"
      "unmapped root s xs (PGROUNDUP newsz) ?n True s'"
      using uvmunmap_loop_correct [OF assms(1,2) pg_aligned_PGROUNDUP _ assms(5)] by blast
    ultimately show ?thesis using 3(1) lt cnt
      by (simp add: uvmdealloc_def kmon Let_def uvmunmap_def flip: not_less)
  qed
qed

definition ubyte :: "memory \<Rightarrow> u64 \<Rightarrow> u64 \<Rightarrow> u8" where
  "ubyte m root va = m (PTE2PA (leaf m root va) + va mod PGSIZE)"

lemma ubyte_page: "PGROUNDDOWN (PTE2PA e + va mod PGSIZE) = PTE2PA e"
proof -
  have "va mod PGSIZE = of_nat (unat va mod 4096)"
    by (rule u_eqI) (simp add: unat_mod_distrib unat_of_nat)
  then show ?thesis using PGROUNDDOWN_page_off [OF pg_aligned_PTE2PA, of "unat va mod 4096" e] by simp
qed

definition UPERM :: u64 where
  "UPERM = PTE_W OR PTE_X OR PTE_R OR PTE_U"

text \<open>Success of uvmalloc and uvmcopy from a: n pages are mapped, with the flags fl and the contents
  ct; pages are only moved from the free list to the table or to the mapping.\<close>

definition grown ::
  "u64 \<Rightarrow> 'a kheap_scheme \<Rightarrow> u64 list \<Rightarrow> u64 \<Rightarrow> nat \<Rightarrow> (u64 \<Rightarrow> u64) \<Rightarrow> (u64 \<Rightarrow> u8) \<Rightarrow> 'a kheap_scheme \<Rightarrow> u64 list \<Rightarrow> bool" where
  "grown root s xs a n fl ct s' xs' \<longleftrightarrow>
     kmem_inv s' xs' \<and> pt_wf s' root xs' \<and> owns s' root xs' a n \<and>
     (\<forall>vb < MAXVA. \<not> in_range a n vb \<longrightarrow> leaf (mem s') root vb = leaf (mem s) root vb) \<and>
     (\<forall>vb. in_range a n vb \<longrightarrow> PTE_FLAGS (leaf (mem s') root vb) = fl vb) \<and>
     (\<forall>vb. in_range a n vb \<longrightarrow> ubyte (mem s') root vb = ct vb) \<and>
     set xs \<union> nodes (mem s) root = set xs' \<union> nodes (mem s') root \<union> set (frames (leaf (mem s') root) a n) \<and>
     same_on (- (nodes (mem s) root \<union> set xs)) (mem s') (mem s) \<and>
     s' = s\<lparr>freelist := freelist s', mem := mem s'\<rparr>"

definition ualloc_flags :: "u64 \<Rightarrow> u64" where
  "ualloc_flags vb = UPERM OR PTE_V"

definition zero_bytes :: "u64 \<Rightarrow> u8" where
  "zero_bytes vb = 0"

text \<open>Failure: the k pages from b that were mapped so far are unmapped and freed again.\<close>

definition backed_out :: "u64 \<Rightarrow> 'a kheap_scheme \<Rightarrow> u64 list \<Rightarrow> u64 \<Rightarrow> nat \<Rightarrow> 'a kheap_scheme \<Rightarrow> u64 list \<Rightarrow> bool" where
  "backed_out root s xs b k s' xs' \<longleftrightarrow>
     kmem_inv s' xs' \<and> pt_wf s' root xs' \<and>
     agree (leaf (mem s') root) (cleared b k (leaf (mem s) root)) \<and>
     set xs' \<union> nodes (mem s') root = set xs \<union> nodes (mem s) root \<union> set (frames (leaf (mem s) root) b k) \<and>
     same_on (- (nodes (mem s) root \<union> set xs \<union> set (frames (leaf (mem s) root) b k))) (mem s') (mem s) \<and>
     s' = s\<lparr>freelist := freelist s', mem := mem s'\<rparr>"

lemma owns_subset: "owns s root xs a n \<Longrightarrow> set ys \<subseteq> set xs \<Longrightarrow> owns s root ys a n"
  by (auto simp: owns_def)

lemma frames_snoc: "frames f a (Suc n) = frames f a n @ [PTE2PA (f (a + of_nat n * PGSIZE))]"
proof (induction n arbitrary: a)
  case (Suc n)
  have eq: "a + PGSIZE + of_nat n * PGSIZE = a + of_nat (Suc n) * PGSIZE" by (simp add: algebra_simps)
  show ?case unfolding frames.simps(2) [of f a "Suc n"] Suc [of "a + PGSIZE"] eq by simp
qed simp

text \<open>The flags and the frame of an entry as mappages writes it.\<close>

lemma entry_fields:
  assumes "pg_aligned pa" and "perm < 1024"
  shows "PTE2PA (PA2PTE pa OR perm OR PTE_V) = pa" "PTE_FLAGS (PA2PTE pa OR perm OR PTE_V) = perm OR PTE_V"
    "valid (PA2PTE pa OR perm OR PTE_V)"
proof -
  have "perm OR PTE_V < 1024"
  proof -
    have t: "take_bit 10 perm = perm" using assms(2) by (simp add: take_bit_eq_mod mod_word_less)
    have "take_bit 10 (perm OR PTE_V) = perm OR PTE_V"
      by (simp only: take_bit_or t) (simp add: PTE_V_def)
    then have "(perm OR PTE_V) mod 1024 = perm OR PTE_V" by (simp add: take_bit_eq_mod)
    moreover have "(perm OR PTE_V) mod 1024 < 1024" by (simp add: word_less_nat_alt unat_mod_distrib)
    ultimately show ?thesis by simp
  qed
  then show "PTE2PA (PA2PTE pa OR perm OR PTE_V) = pa" "PTE_FLAGS (PA2PTE pa OR perm OR PTE_V) = perm OR PTE_V"
    using PTE2PA_PA2PTE [OF assms(1)] PTE_FLAGS_PA2PTE by (simp_all add: or.assoc)
  show "valid (PA2PTE pa OR perm OR PTE_V)" using valid_or_V [of "PA2PTE pa OR perm"] by (simp add: or.assoc)
qed

lemma UPERM_entry:
  "UPERM < 1024" "UPERM OR PTE_V \<noteq> PTE_V"
  by (simp_all add: UPERM_def pte_bits_defs)

lemma unmapped_backed_out:
  "unmapped root s xs b k True s' \<Longrightarrow> backed_out root s xs b k s' (rev (frames (leaf (mem s) root) b k) @ xs)"
  unfolding unmapped_def backed_out_def Let_def
  by (auto elim: same_on_mono)

text \<open>The pages mapped before keep their entries when a fresh page is mapped elsewhere.\<close>

lemma owns_frame:
  assumes own: "owns s root xs b k" and lf: "\<And>vb. in_range b k vb \<Longrightarrow> leaf (mem s') root vb = leaf (mem s) root vb"
    and kp: "kpage s' = kpage s" and bd: "unat b + k * 4096 < 2 ^ 64"
    and sub: "nodes (mem s') root \<union> set zs \<subseteq> nodes (mem s) root \<union> set xs"
  shows "owns s' root zs b k" "frames (leaf (mem s') root) b k = frames (leaf (mem s) root) b k"
proof -
  show fr: "frames (leaf (mem s') root) b k = frames (leaf (mem s) root) b k"
    using bd lf by (rule frames_cong)
  show "owns s' root zs b k"
    using own lf sub unfolding owns_def fr kp by auto
qed

lemma owns_snoc:
  assumes own: "owns s root xs b k" and a: "a = b + of_nat k * PGSIZE" "unat a = unat b + k * 4096" "pg_aligned a"
    and e: "\<And>vb. in_range a 1 vb \<Longrightarrow> leaf (mem s) root vb = e" "valid e" "PTE_FLAGS e \<noteq> PTE_V" "PTE2PA e = x"
    and x: "kpage s x" "x \<notin> set xs" "x \<notin> nodes (mem s) root" "x \<notin> set (frames (leaf (mem s) root) b k)"
  shows "owns s root xs b (Suc k)" "frames (leaf (mem s) root) b (Suc k) = frames (leaf (mem s) root) b k @ [x]"
proof -
  have "in_range a 1 a" by (simp add: in_range_def)
  then show fr: "frames (leaf (mem s) root) b (Suc k) = frames (leaf (mem s) root) b k @ [x]"
    unfolding frames_snoc a(1) [symmetric] by (simp only: e(1,4))
  have "in_range b (Suc k) vb \<longleftrightarrow> in_range b k vb \<or> in_range a 1 vb" for vb
    using a(2) by (auto simp: in_range_def)
  then show "owns s root xs b (Suc k)" using own e x unfolding owns_def fr by auto
qed

text \<open>Success after a first page.\<close>

lemma grown_step:
  assumes fm: "fresh_mapped root s x ys m2 s3 zs" and x: "kpage s x" "pg_aligned x"
    and pm: "perm < 1024" "perm OR PTE_V \<noteq> PTE_V"
    and z: "\<And>vb. in_range a 1 vb \<Longrightarrow> m2 (x + vb mod PGSIZE) = ct vb"
    and f: "\<And>vb. in_range a 1 vb \<Longrightarrow> fl vb = perm OR PTE_V"
    and ag: "agree (leaf (mem s3) root) (mapped a 1 x perm (leaf (mem s) root))"
    and a: "pg_aligned a" "unat a + Suc n * 4096 \<le> 2 ^ 38"
    and g: "grown root s3 zs (a + PGSIZE) n fl ct s' xs'"
  shows "grown root s (x # ys) a (Suc n) fl ct s' xs'"
proof -
  let ?b = "a + PGSIZE" and ?L = "leaf (mem s') root" and ?e = "PA2PTE x OR perm OR PTE_V"
  have room: "unat a + 4096 < 2 ^ 64" and ub: "unat ?b = unat a + 4096"
    using a(2) by (simp_all add: unat_word_ariths)
  obtain us where us: "ys = us @ zs" "nodes (mem s3) root = nodes (mem s) root \<union> set us"
    using fm by (auto simp: fresh_mapped_def)
  have xn: "x \<notin> set zs" "x \<notin> nodes (mem s3) root"
    and so3: "same_on (- (nodes (mem s) root \<union> set (x # ys))) (mem s3) (mem s)" "same_on {x} (mem s3) m2"
    and f3: "s3 = s\<lparr>freelist := freelist s3, mem := mem s3\<rparr>"
    using fm by (simp_all add: fresh_mapped_def)
  have g1: "kmem_inv s' xs'" "pt_wf s' root xs'" "owns s' root xs' ?b n"
    and g2: "\<forall>vb < MAXVA. \<not> in_range ?b n vb \<longrightarrow> ?L vb = leaf (mem s3) root vb"
    and g3: "\<forall>vb. in_range ?b n vb \<longrightarrow> PTE_FLAGS (?L vb) = fl vb"
    and g4: "\<forall>vb. in_range ?b n vb \<longrightarrow> ubyte (mem s') root vb = ct vb"
    and g5: "set zs \<union> nodes (mem s3) root = set xs' \<union> nodes (mem s') root \<union> set (frames ?L ?b n)"
    and g6: "same_on (- (nodes (mem s3) root \<union> set zs)) (mem s') (mem s3)"
    and f': "s' = s3\<lparr>freelist := freelist s', mem := mem s'\<rparr>"
    using g by (auto simp: grown_def)
  have e: "?L vb = ?e" if "in_range a 1 vb" for vb
  proof -
    have "vb < MAXVA" "\<not> in_range ?b n vb"
      using that a(2) ub by (auto simp: in_range_def word_less_nat_alt unat_MAXVA)
    then have "?L vb = mapped a 1 x perm (leaf (mem s) root) vb" using g2 agreeD [OF ag] by simp
    then show ?thesis using that unfolding mapped_1 [OF a(1)] page_of_iff [OF a(1)] by simp
  qed
  note ef = entry_fields [OF x(2) pm(1)]
  have ea: "?L a = ?e" by (rule e) (simp add: in_range_def)
  have fr: "frames ?L a (Suc n) = x # frames ?L ?b n" using ea ef(1) by simp
  have kp: "kpage s' = kpage s" using heap_frame_kpage [OF f3] heap_frame_kpage [OF f'] by simp
  have xo: "x \<notin> set xs'" "x \<notin> nodes (mem s') root" "x \<notin> set (frames ?L ?b n)" using g5 xn by auto
  have "owns s' root xs' a (Suc n)"
    using g1(3) e ef pm(2) xo x kp unfolding owns_def fr in_range_Suc [OF room] by auto
  moreover have "\<forall>vb < MAXVA. \<not> in_range a (Suc n) vb \<longrightarrow> ?L vb = leaf (mem s) root vb"
    using g2 agreeD [OF ag] unfolding in_range_Suc [OF room] by (auto simp: mapped_def)
  moreover have "\<forall>vb. in_range a (Suc n) vb \<longrightarrow> PTE_FLAGS (?L vb) = fl vb"
    using g3 e ef(2) f unfolding in_range_Suc [OF room] by auto
  moreover have "ubyte (mem s') root vb = ct vb" if "in_range a 1 vb" for vb
  proof -
    have "PGROUNDDOWN (x + vb mod PGSIZE) = x" using ubyte_page [of ?e vb] ef(1) by simp
    then have "mem s' (x + vb mod PGSIZE) = m2 (x + vb mod PGSIZE)"
      using same_onD [OF g6] same_onD [OF so3(2)] xn by simp
    then show ?thesis using e [OF that] ef(1) z [OF that] by (simp add: ubyte_def)
  qed
  then have "\<forall>vb. in_range a (Suc n) vb \<longrightarrow> ubyte (mem s') root vb = ct vb"
    using g4 unfolding in_range_Suc [OF room] by auto
  moreover have "set (x # ys) \<union> nodes (mem s) root
      = set xs' \<union> nodes (mem s') root \<union> set (frames ?L a (Suc n))"
    using g5 us unfolding fr by auto
  moreover have "same_on (- (nodes (mem s) root \<union> set (x # ys))) (mem s') (mem s)"
    by (rule same_on_trans [OF same_on_mono [OF g6] so3(1)]) (use us in auto)
  ultimately show ?thesis using g1(1,2) heap_frame_trans [OF f3 f'] unfolding grown_def by blast
qed

text \<open>Failure after a page: backing out k + 1 pages of the new state is backing out k pages of the old.\<close>

lemma backed_out_step:
  assumes fm: "fresh_mapped root s x ys m2 s3 zs"
    and ag: "agree (leaf (mem s3) root) (mapped a 1 x perm (leaf (mem s) root))"
    and a: "pg_aligned a" "unat a = unat b + k * 4096" and z: "\<And>vb. in_range a 1 vb \<Longrightarrow> leaf (mem s) root vb = 0"
    and fr: "frames (leaf (mem s3) root) b (Suc k) = frames (leaf (mem s) root) b k @ [x]"
    and bo: "backed_out root s3 zs b (Suc k) s' xs'"
  shows "backed_out root s (x # ys) b k s' xs'"
proof -
  let ?L = "leaf (mem s) root"
  obtain us where us: "ys = us @ zs" "nodes (mem s3) root = nodes (mem s) root \<union> set us"
    using fm by (auto simp: fresh_mapped_def)
  have so3: "same_on (- (nodes (mem s) root \<union> set (x # ys))) (mem s3) (mem s)"
    and f3: "s3 = s\<lparr>freelist := freelist s3, mem := mem s3\<rparr>"
    using fm by (simp_all add: fresh_mapped_def)
  have b: "kmem_inv s' xs'" "pt_wf s' root xs'"
    "agree (leaf (mem s') root) (cleared b (Suc k) (leaf (mem s3) root))"
    "set xs' \<union> nodes (mem s') root = set zs \<union> nodes (mem s3) root \<union> set (frames ?L b k @ [x])"
    "same_on (- (nodes (mem s3) root \<union> set zs \<union> set (frames ?L b k @ [x]))) (mem s') (mem s3)"
    "s' = s3\<lparr>freelist := freelist s', mem := mem s'\<rparr>"
    using bo unfolding backed_out_def fr by blast+
  have rng: "in_range b (Suc k) vb \<longleftrightarrow> in_range b k vb \<or> in_range a 1 vb" for vb
    using a(2) by (auto simp: in_range_def)
  have "leaf (mem s') root vb = cleared b k ?L vb" if vb: "vb < MAXVA" for vb
  proof (cases "in_range a 1 vb")
    case True
    then show ?thesis using agreeD [OF b(3) vb] z [OF True] unfolding cleared_def rng by simp
  next
    case False
    then show ?thesis using agreeD [OF b(3) vb] agreeD [OF ag vb] unfolding cleared_def rng
      by (simp add: mapped_def)
  qed
  then have "agree (leaf (mem s') root) (cleared b k ?L)" by (simp add: agree_def)
  moreover have "set xs' \<union> nodes (mem s') root = set (x # ys) \<union> nodes (mem s) root \<union> set (frames ?L b k)"
    using b(4) us by auto
  moreover have "same_on (- (nodes (mem s) root \<union> set (x # ys) \<union> set (frames ?L b k))) (mem s') (mem s)"
    by (rule same_on_trans [OF same_on_mono [OF b(5)] same_on_mono [OF so3]]) (use us in auto)
  ultimately show ?thesis using b(1,2) heap_frame_trans [OF f3 b(6)] unfolding backed_out_def by blast
qed

text \<open>Failure on the spot: the page x could be allocated but not mapped.\<close>

lemma backed_out_free:
  assumes fm: "fresh_mapped root s x ys m2 s3 []" and kx: "kpage s x"
    and ag: "agree (leaf (mem s3) root) (leaf (mem s) root)"
    and own: "owns s root (x # ys) b k" and bd: "unat b + k * 4096 \<le> 2 ^ 38"
  shows "\<exists>s4. kfree x s3 = Inr ((), s4) \<and> kmem_inv s4 [x] \<and> pt_wf s4 root [x] \<and> owns s4 root [x] b k \<and>
    (\<forall>s'. unmapped root s4 [x] b k True s' \<longrightarrow>
      backed_out root s (x # ys) b k s' (rev (frames (leaf (mem s) root) b k) @ [x]))"
proof -
  let ?L = "leaf (mem s) root"
  obtain s4 where s4: "kfree x s3 = Inr ((), s4)" "kmem_inv s4 [x]" "pt_wf s4 root [x]"
    "leaf (mem s4) root = leaf (mem s3) root" "nodes (mem s4) root = nodes (mem s3) root"
    "same_on (- {x}) (mem s4) (mem s3)" "s4 = s\<lparr>freelist := freelist s4, mem := mem s4\<rparr>"
    using free_fresh [OF fm kx] by blast
  have nd: "nodes (mem s3) root = nodes (mem s) root \<union> set ys"
    and so3: "same_on (- (nodes (mem s) root \<union> set (x # ys))) (mem s3) (mem s)"
    using fm by (auto simp: fresh_mapped_def)
  have so: "same_on (- (nodes (mem s) root \<union> set (x # ys))) (mem s4) (mem s)"
    by (rule same_on_trans [OF same_on_mono [OF s4(6)] so3]) auto
  have lf: "leaf (mem s4) root vb = ?L vb" if "in_range b k vb" for vb
    using that agreeD [OF ag, of vb] bd s4(4) by (simp add: in_range_def word_less_nat_alt unat_MAXVA)
  have "owns s4 root [x] b k" and fr: "frames (leaf (mem s4) root) b k = frames ?L b k"
    using owns_frame [OF own lf heap_frame_kpage [OF s4(7)], of "[x]"] bd nd s4(5) by auto
  moreover have "backed_out root s (x # ys) b k s' (rev (frames ?L b k) @ [x])"
    if u: "unmapped root s4 [x] b k True s'" for s'
  proof -
    have bo: "backed_out root s4 [x] b k s' (rev (frames ?L b k) @ [x])" using unmapped_backed_out [OF u] fr by simp
    have "agree (leaf (mem s') root) (cleared b k ?L)"
      using bo ag s4(4) by (auto simp: backed_out_def agree_def cleared_def)
    moreover have "same_on (- (nodes (mem s) root \<union> set (x # ys) \<union> set (frames ?L b k))) (mem s') (mem s4)"
      using bo unfolding backed_out_def fr by (auto simp: s4(5) nd elim!: same_on_mono)
    then have "same_on (- (nodes (mem s) root \<union> set (x # ys) \<union> set (frames ?L b k))) (mem s') (mem s)"
      by (rule same_on_trans) (use so in \<open>auto elim: same_on_mono\<close>)
    moreover have "set (rev (frames ?L b k) @ [x]) \<union> nodes (mem s') root = set (x # ys) \<union> nodes (mem s) root \<union> set (frames ?L b k)"
      using bo nd s4(5) unfolding backed_out_def fr by auto
    moreover have "s' = s\<lparr>freelist := freelist s', mem := mem s'\<rparr>"
      using bo s4(7) unfolding backed_out_def by (blast intro: heap_frame_trans)
    ultimately show ?thesis using bo unfolding backed_out_def by blast
  qed
  ultimately show ?thesis using s4(1-3) by blast
qed

lemma fresh_owns:
  assumes fm: "fresh_mapped root s x ys m2 s3 zs"
    and ag: "agree (leaf (mem s3) root) (mapped a 1 x perm (leaf (mem s) root))" and kx: "kpage s x"
    and own: "owns s root (x # ys) b k" and a: "a = b + of_nat k * PGSIZE" "unat a = unat b + k * 4096" "pg_aligned a"
    and bd: "unat a + 4096 \<le> 2 ^ 38" and pm: "perm < 1024" "perm OR PTE_V \<noteq> PTE_V"
  shows "owns s3 root zs b (Suc k)"
    "frames (leaf (mem s3) root) b (Suc k) = frames (leaf (mem s) root) b k @ [x]"
proof -
  let ?L = "leaf (mem s) root"
  obtain us where us: "ys = us @ zs" "nodes (mem s3) root = nodes (mem s) root \<union> set us"
    using fm by (auto simp: fresh_mapped_def)
  have inv3: "x \<notin> set zs" "x \<notin> nodes (mem s3) root" "s3 = s\<lparr>freelist := freelist s3, mem := mem s3\<rparr>"
    using fm by (simp_all add: fresh_mapped_def)
  note kp = heap_frame_kpage [OF inv3(3)]
  have lf: "leaf (mem s3) root vb = ?L vb" if "in_range b k vb" for vb
    using that agreeD [OF ag, of vb] a(2) bd by (simp add: mapped_def in_range_def word_less_nat_alt unat_MAXVA)
  have o3: "owns s3 root zs b k" "frames (leaf (mem s3) root) b k = frames ?L b k"
    using owns_frame [OF own lf kp, of zs] a(2) bd us by auto
  have e: "leaf (mem s3) root vb = PA2PTE x OR perm OR PTE_V" if "in_range a 1 vb" for vb
    using that agreeD [OF ag, of vb] bd unfolding mapped_1 [OF a(3)] page_of_iff [OF a(3)]
    by (simp add: in_range_def word_less_nat_alt unat_MAXVA)
  have xf: "x \<notin> set (frames ?L b k)" using own by (auto simp: owns_def)
  note ef = entry_fields [OF kpage_aligned [OF kx] pm(1)]
  show "owns s3 root zs b (Suc k)" "frames (leaf (mem s3) root) b (Suc k) = frames ?L b k @ [x]"
    using owns_snoc [OF o3(1) a e ef(3) _ ef(1)] ef(2) pm(2) kx kp inv3(1,2) xf o3(2) by simp_all
qed

lemma uvmdealloc_aligned:
  assumes "kmem_inv s xs" and "pt_wf s root xs" and b: "pg_aligned b" and a: "a = b + of_nat k * PGSIZE" "unat a = unat b + k * 4096"
    and "unat a \<le> 2 ^ 38" and "owns s root xs b k"
  shows "\<exists>s'. uvmdealloc root a b s = Inr (b, s') \<and> unmapped root s xs b k True s'"
proof -
  have ub: "unat b \<le> 2 ^ 38" using a(2) assms(6) by simp
  have pb: "PGROUNDUP b = b" by (rule PGROUNDUP_aligned [OF b ub])
  have "npages b * 4096 = unat b" using unat_PGROUNDUP_npages [OF ub] pb by simp
  moreover have "npages a = npages b + k"
    using a(2) by (simp add: npages_def algebra_simps)
  moreover have "b \<le> a" using a(2) by (simp add: word_le_nat_alt)
  ultimately show ?thesis using uvmdealloc_correct [OF assms(1,2), of b a] assms(6,7) pb by simp
qed

lemma uvmalloc_loop_correct:
  assumes "kmem_inv s xs" and "pt_wf s root xs" and "pg_aligned b" and "owns s root xs b k"
    and "a = b + of_nat k * PGSIZE" and "unat a = unat b + k * 4096" and "unat a + n * 4096 \<le> 2 ^ 38"
    and "unat newsz \<le> unat a + n * 4096" and "n = 0 \<or> unat a + (n - 1) * 4096 < unat newsz"
    and "\<And>vb. in_range a n vb \<Longrightarrow> leaf (mem s) root vb = 0"
  shows "\<exists>r s' xs'. uvmalloc_loop root a b newsz s = Inr (r, s') \<and>
    (r = newsz \<and> grown root s xs a n ualloc_flags zero_bytes s' xs' \<or> r = 0 \<and> backed_out root s xs b k s' xs')"
  using assms
proof (induction n arbitrary: k a s xs)
  case 0
  then have "\<not> a < newsz" by (simp add: word_less_nat_alt)
  then show ?case using 0 by (subst uvmalloc_loop.simps) (auto simp: grown_def owns_def agree_def)
next
  case (Suc n)
  let ?L = "leaf (mem s) root"
  have lt: "a < newsz" using Suc.prems(9) by (simp add: word_less_nat_alt)
  have room: "unat a + 4096 < 2 ^ 64" and am: "a < MAXVA" and ak: "unat a \<le> 2 ^ 38"
    and a38: "unat a + 4096 \<le> 2 ^ 38"
    using Suc.prems(7) by (simp_all add: word_less_nat_alt unat_MAXVA)
  have al: "pg_aligned a" using Suc.prems(3,6) by (simp add: pg_aligned_def)
  have z: "?L vb = 0" if "in_range a 1 vb" for vb
    using Suc.prems(10) that in_range_Suc [OF room] by blast
  have la: "\<not> valid (?L a)" using z [of a] by (simp add: in_range_def)
  note dealloc = uvmdealloc_aligned [where b = b and a = a and k = k, OF _ _ Suc.prems(3,5,6) ak]
  show ?case
  proof (cases xs)
    case Nil
    then obtain s' where "uvmdealloc root a b s = Inr (b, s')" "unmapped root s xs b k True s'"
      using dealloc Suc.prems(1,2,4) by blast
    moreover from this have "uvmalloc_loop root a b newsz s = Inr (0, s')"
      using kalloc_Nil [OF Suc.prems(1) [unfolded Nil]] lt by (subst uvmalloc_loop.simps) (simp add: kmon)
    ultimately show ?thesis using unmapped_backed_out by blast
  next
    case (Cons x ys)
    let ?m2 = "memset (memset (mem s) x 5 4096) x 0 4096"
    have kx: "kpage s x" "x \<noteq> 0" "pg_aligned x" using Suc.prems(1) Cons kpage_nonzero kpage_aligned by (auto simp: kmem_inv_def)
    have m2: "same_on (- {x}) ?m2 (mem s)" using kx(3) by (auto simp: same_on_def memset_page)
    obtain r s3 zs where r: "mappages root a PGSIZE x UPERM (s\<lparr>freelist := load64 (mem s) x, mem := ?m2\<rparr>) = Inr (r, s3)"
      "fresh_mapped root s x ys ?m2 s3 zs"
      "r = 0 \<and> agree (leaf (mem s3) root) (mapped a 1 x UPERM ?L) \<or> r = - 1 \<and> zs = [] \<and> agree (leaf (mem s3) root) ?L"
      using map_fresh [OF Suc.prems(1,2) [unfolded Cons] m2 al am la, of UPERM] by blast
    have step: "uvmalloc_loop root a b newsz s = (if r \<noteq> 0 then kseq (kfree x) (kseq (uvmdealloc root a b) (kret 0)) s3
        else uvmalloc_loop root (a + PGSIZE) b newsz s3)"
      using kalloc_eq [OF Suc.prems(1) [unfolded Cons]] lt kx(2) r(1)
      by (subst uvmalloc_loop.simps) (simp add: fill_def kmon UPERM_def)
    show ?thesis
    proof (cases "r = 0")
      case False
      then have f: "zs = []" "agree (leaf (mem s3) root) ?L" using r(3) by auto
      obtain s4 where s4: "kfree x s3 = Inr ((), s4)" "kmem_inv s4 [x]" "pt_wf s4 root [x]" "owns s4 root [x] b k"
        "\<forall>s'. unmapped root s4 [x] b k True s' \<longrightarrow> backed_out root s (x # ys) b k s' (rev (frames ?L b k) @ [x])"
        using backed_out_free [OF r(2) [unfolded f(1)] kx(1) f(2) Suc.prems(4) [unfolded Cons]] Suc.prems(6) ak by auto
      obtain s' where "uvmdealloc root a b s4 = Inr (b, s')" "unmapped root s4 [x] b k True s'"
        using dealloc [OF s4(2-4)] by blast
      then show ?thesis using step False s4 Cons by (auto simp: kmon)
    next
      case True
      then have ag: "agree (leaf (mem s3) root) (mapped a 1 x UPERM ?L)" using r(3) by simp
      have inv3: "kmem_inv s3 zs" "pt_wf s3 root zs" using r(2) by (simp_all add: fresh_mapped_def)
      note o4 = fresh_owns [OF r(2) ag kx(1) Suc.prems(4) [unfolded Cons] Suc.prems(5,6) al a38 UPERM_entry]
      have ua: "unat (a + PGSIZE) = unat a + 4096" by (rule unat_add_PGSIZE [OF room])
      have z3: "leaf (mem s3) root vb = 0" if "in_range (a + PGSIZE) n vb" for vb
      proof -
        have "vb < MAXVA" "\<not> in_range a 1 vb"
          using that ua Suc.prems(7) by (auto simp: in_range_def word_less_nat_alt unat_MAXVA)
        moreover have "in_range a (Suc n) vb" using that in_range_Suc [OF room, of n vb] by blast
        ultimately show ?thesis using agreeD [OF ag, of vb] Suc.prems(10) [of vb] by (simp add: mapped_def)
      qed
      have "\<exists>r' s' xs'. uvmalloc_loop root (a + PGSIZE) b newsz s3 = Inr (r', s') \<and>
        (r' = newsz \<and> grown root s3 zs (a + PGSIZE) n ualloc_flags zero_bytes s' xs' \<or> r' = 0 \<and> backed_out root s3 zs b (Suc k) s' xs')"
      proof (rule Suc.IH [OF inv3 Suc.prems(3) o4(1)])
        show "a + PGSIZE = b + of_nat (Suc k) * PGSIZE" using Suc.prems(5) by (simp add: algebra_simps)
        show "n = 0 \<or> unat (a + PGSIZE) + (n - 1) * 4096 < unat newsz"
          using Suc.prems(9) ua by (cases n) simp_all
      qed (use z3 Suc.prems(6-8) ua in auto)
      then obtain r' s' xs' where r': "uvmalloc_loop root (a + PGSIZE) b newsz s3 = Inr (r', s')"
        "r' = newsz \<and> grown root s3 zs (a + PGSIZE) n ualloc_flags zero_bytes s' xs' \<or> r' = 0 \<and> backed_out root s3 zs b (Suc k) s' xs'"
        by blast
      have zb: "?m2 (x + vb mod PGSIZE) = zero_bytes vb" for vb
        using ubyte_page [of "PA2PTE x OR UPERM OR PTE_V" vb] entry_fields(1) [OF kx(3) UPERM_entry(1)]
        by (simp add: memset_page [OF kx(3)] zero_bytes_def)
      have "grown root s (x # ys) a (Suc n) ualloc_flags zero_bytes s' xs'"
        if "grown root s3 zs (a + PGSIZE) n ualloc_flags zero_bytes s' xs'"
        using grown_step [OF r(2) kx(1,3) UPERM_entry zb _ ag al _ that] Suc.prems(7) by (simp add: ualloc_flags_def)
      moreover have "backed_out root s (x # ys) b k s' xs'" if "backed_out root s3 zs b (Suc k) s' xs'"
        by (rule backed_out_step [OF r(2) ag al Suc.prems(6) z o4(2) that])
      ultimately show ?thesis using step True r' Cons by auto
    qed
  qed
qed

end
