(* ===== verification/Vm_User.thy ===== *)
theory Vm_User
  imports Vm_Space
begin

text \<open>
  User address spaces. uvm_inv is the invariant of a process of size sz: the pages below sz are
  mapped to frames of their own, nothing is mapped between them and the trap frame.
  uvmalloc, uvmdealloc and uvmcopy keep it; ubyte is the byte that a process sees at a
  virtual address.
\<close>

section \<open>The invariant\<close>

definition uvm_inv :: "'a kheap_scheme \<Rightarrow> u64 \<Rightarrow> u64 \<Rightarrow> u64 list \<Rightarrow> bool" where
  "uvm_inv s root sz xs \<longleftrightarrow>
     kmem_inv s xs \<and> pt_wf s root xs \<and> sz \<le> TRAPFRAME \<and> owns s root xs 0 (npages sz) \<and>
     (\<forall>vb < TRAPFRAME. PGROUNDUP sz \<le> vb \<longrightarrow> leaf (mem s) root vb = 0)"

lemma unat_TRAPFRAME: "unat TRAPFRAME = 2 ^ 38 - 8192"
  by (simp add: TRAPFRAME_def TRAMPOLINE_def MAXVA_def PGSIZE_def)

lemma TRAPFRAME_38: "sz \<le> TRAPFRAME \<Longrightarrow> unat sz \<le> 2 ^ 38"
  by (simp add: word_le_nat_alt unat_TRAPFRAME)

lemma npages_TRAPFRAME: "sz \<le> TRAPFRAME \<Longrightarrow> npages sz * 4096 \<le> 2 ^ 38 - 8192"
proof -
  assume "sz \<le> TRAPFRAME"
  then have "unat sz + 4095 \<le> 2 ^ 38 - 8192 + 4095" by (simp add: word_le_nat_alt unat_TRAPFRAME)
  then have "npages sz \<le> (2 ^ 38 - 8192 + 4095) div 4096" unfolding npages_def by (rule div_le_mono)
  then show ?thesis by simp
qed

lemma leaf_page: "leaf m root (PGROUNDDOWN va) = leaf m root va"
  by (simp add: leaf_def idx_def)

lemma frame_of:
  assumes "in_range a n va" and "pg_aligned a" and "unat a + n * 4096 < 2 ^ 64"
  shows "PTE2PA (leaf m root va) \<in> set (frames (leaf m root) a n)"
proof -
  define k where "k = (unat va - unat a) div 4096"
  have "unat va - unat a < n * 4096" using assms(1) by (auto simp: in_range_def)
  then have kn: "k < n" unfolding k_def by (rule less_mult_imp_div_less)
  obtain q where q: "unat a = 4096 * q" using assms(2) by (auto simp: pg_aligned_def mod_eq_0_iff_dvd elim: dvdE)
  have "unat va div 4096 = q + k"
    using assms(1) q unfolding k_def in_range_def
    by (metis add.commute diff_add div_mult_self4 zero_neq_numeral add_diff_inverse_nat not_less)
  then have "unat (PGROUNDDOWN va) = unat a + k * 4096" by (simp add: unat_PGROUNDDOWN_div q algebra_simps)
  moreover have "k * 4096 \<le> n * 4096" using kn by simp
  then have "unat (a + of_nat k * PGSIZE) = unat a + k * 4096"
    using assms(3) by (simp add: unat_word_ariths unat_of_nat)
  ultimately have "PGROUNDDOWN va = a + of_nat k * PGSIZE" by (intro u_eqI) simp
  then show ?thesis using frames_memI [OF assms(3) kn, of "leaf m root"] leaf_page [of m root va] by simp
qed

lemma frames_append: "frames f a (n + k) = frames f a n @ frames f (a + of_nat n * PGSIZE) k"
proof (induction n arbitrary: a)
  case (Suc n)
  have eq: "a + PGSIZE + of_nat n * PGSIZE = a + of_nat (Suc n) * PGSIZE" by (simp add: algebra_simps)
  show ?case unfolding add_Suc frames.simps(2) Suc [of "a + PGSIZE"] eq by simp
qed simp

lemma in_range_append:
  "unat b = unat a + n * 4096 \<Longrightarrow> in_range a (n + k) vb \<longleftrightarrow> in_range a n vb \<or> in_range b k vb"
  by (auto simp: in_range_def algebra_simps)

lemma owns_append:
  assumes "b = a + of_nat n * PGSIZE" and "unat b = unat a + n * 4096"
  shows "owns s root xs a (n + k) \<longleftrightarrow> owns s root xs a n \<and> owns s root xs b k \<and>
    set (frames (leaf (mem s) root) a n) \<inter> set (frames (leaf (mem s) root) b k) = {}"
  unfolding owns_def frames_append assms(1) [symmetric] in_range_append [OF assms(2)] by auto

text \<open>Bytes in frames that an operation does not touch.\<close>

lemma ubyte_frame:
  assumes "same_on A m' m" and "leaf m' root va = leaf m root va" and "PTE2PA (leaf m root va) \<in> A"
  shows "ubyte m' root va = ubyte m root va"
  using same_onD [OF assms(1), of "PTE2PA (leaf m root va) + va mod PGSIZE"] assms(2,3) ubyte_page
  by (simp add: ubyte_def)

lemma in_range_user: "va < sz \<Longrightarrow> sz \<le> TRAPFRAME \<Longrightarrow> in_range 0 (npages sz) va"
  using unat_PGROUNDUP_npages [of sz] TRAPFRAME_38 [of sz]
  by (auto simp: in_range_def word_less_nat_alt npages_def)

section \<open>uvmalloc and uvmdealloc\<close>

lemma uvm_inv_owned:
  assumes "uvm_inv s root sz xs" and "in_range 0 (npages sz) va"
  shows "PTE2PA (leaf (mem s) root va) \<in> - (nodes (mem s) root \<union> set xs)" "va < MAXVA"
proof -
  have sz: "sz \<le> TRAPFRAME" and own: "owns s root xs 0 (npages sz)" using assms(1) by (simp_all add: uvm_inv_def)
  have "PTE2PA (leaf (mem s) root va) \<in> set (frames (leaf (mem s) root) 0 (npages sz))"
    using assms(2) npages_TRAPFRAME [OF sz] by (intro frame_of) auto
  then show "PTE2PA (leaf (mem s) root va) \<in> - (nodes (mem s) root \<union> set xs)" using own by (auto simp: owns_def)
  show "va < MAXVA" using assms(2) npages_TRAPFRAME [OF sz] by (simp add: in_range_def word_less_nat_alt unat_MAXVA)
qed

lemma uvmalloc_outcome:
  assumes inv: "uvm_inv s root oldsz xs" and le: "oldsz \<le> newsz" and top: "newsz \<le> TRAPFRAME"
  defines "b \<equiv> PGROUNDUP oldsz" and "n \<equiv> npages newsz - npages oldsz"
  shows "\<exists>r s' xs'. uvmalloc root oldsz newsz s = Inr (r, s') \<and>
    (r = newsz \<and> grown root s xs b n ualloc_flags zero_bytes s' xs' \<or> r = 0 \<and> backed_out root s xs b 0 s' xs')"
proof -
  have nb: "unat newsz \<le> 2 ^ 38" and ob: "unat oldsz \<le> 2 ^ 38" and leu: "unat oldsz \<le> unat newsz"
    using TRAPFRAME_38 [OF top] le by (simp_all add: word_le_nat_alt)
  have mono: "npages oldsz \<le> npages newsz" by (rule npages_mono [OF leu])
  have ub: "unat b = npages oldsz * 4096" by (simp add: b_def unat_PGROUNDUP_npages [OF ob])
  have sum: "unat b + n * 4096 = npages newsz * 4096"
    using mono ub by (simp add: n_def diff_mult_distrib)
  have "\<exists>r s' xs'. uvmalloc_loop root b b newsz s = Inr (r, s') \<and>
    (r = newsz \<and> grown root s xs b n ualloc_flags zero_bytes s' xs' \<or> r = 0 \<and> backed_out root s xs b 0 s' xs')"
  proof (rule uvmalloc_loop_correct)
    show "kmem_inv s xs" "pt_wf s root xs" using inv by (simp_all add: uvm_inv_def)
    show "pg_aligned b" by (simp add: b_def)
    show "unat b + n * 4096 \<le> 2 ^ 38" using sum npages_TRAPFRAME [OF top] by simp
    have "unat newsz \<le> npages newsz * 4096" "n = 0 \<or> npages newsz * 4096 < unat newsz + 4096"
      by (simp_all add: npages_def) linarith+
    then show "unat newsz \<le> unat b + n * 4096" "n = 0 \<or> unat b + (n - 1) * 4096 < unat newsz"
      using sum by (auto simp: diff_mult_distrib)
    show "leaf (mem s) root vb = 0" if "in_range b n vb" for vb
    proof -
      have "b \<le> vb" "vb < TRAPFRAME"
        using that sum npages_TRAPFRAME [OF top] by (auto simp: in_range_def word_le_nat_alt word_less_nat_alt unat_TRAPFRAME)
      then show ?thesis using inv by (simp add: uvm_inv_def b_def)
    qed
  qed (simp_all add: owns_def)
  then show ?thesis using le by (simp add: uvmalloc_def b_def flip: not_less)
qed

lemma uvm_inv_grown:
  assumes inv: "uvm_inv s root oldsz xs" and le: "oldsz \<le> newsz" and top: "newsz \<le> TRAPFRAME"
    and g: "grown root s xs (PGROUNDUP oldsz) (npages newsz - npages oldsz) fl ct s' xs'"
  shows "uvm_inv s' root newsz xs'"
proof -
  let ?b = "PGROUNDUP oldsz" and ?o = "npages oldsz" and ?n = "npages newsz - npages oldsz"
  have ob: "unat oldsz \<le> 2 ^ 38" "unat oldsz \<le> unat newsz" and ot: "oldsz \<le> TRAPFRAME"
    using TRAPFRAME_38 [OF top] le top by (auto simp: word_le_nat_alt)
  have on: "?o + ?n = npages newsz" using npages_mono [OF ob(2)] by simp
  have ub: "unat ?b = ?o * 4096" by (rule unat_PGROUNDUP_npages [OF ob(1)])
  have bd: "?o * 4096 < 2 ^ 38" using npages_TRAPFRAME [OF ot] by simp
  have lf: "leaf (mem s') root vb = leaf (mem s) root vb" if "\<not> in_range ?b ?n vb" "vb < MAXVA" for vb
    using g that by (simp add: grown_def)
  have lo: "leaf (mem s') root vb = leaf (mem s) root vb" if "in_range 0 ?o vb" for vb
    using lf [of vb] that uvm_inv_owned(2) [OF inv that] ub by (simp add: in_range_def)
  have own: "owns s root xs 0 ?o" using inv by (simp add: uvm_inv_def)
  have eqs: "set xs \<union> nodes (mem s) root = set xs' \<union> nodes (mem s') root \<union> set (frames (leaf (mem s') root) ?b ?n)"
    and fr: "s' = s\<lparr>freelist := freelist s', mem := mem s'\<rparr>" and own': "owns s' root xs' ?b ?n"
    using g by (auto simp: grown_def)
  note of = owns_frame [OF own lo heap_frame_kpage [OF fr], of xs']
  have o1: "owns s' root xs' 0 ?o" "frames (leaf (mem s') root) 0 ?o = frames (leaf (mem s) root) 0 ?o"
    using of eqs bd by auto
  moreover have "set (frames (leaf (mem s') root) 0 ?o) \<inter> set (frames (leaf (mem s') root) ?b ?n) = {}"
    unfolding o1(2) using own eqs by (auto simp: owns_def)
  ultimately have "owns s' root xs' 0 (npages newsz)"
    using owns_append [of ?b 0 ?o s' root xs' ?n] own' ub PGROUNDUP_of_npages [OF ob(1)] on by simp
  moreover have "leaf (mem s') root vb = 0" if "vb < TRAPFRAME" "PGROUNDUP newsz \<le> vb" for vb
  proof -
    have "npages newsz * 4096 \<le> unat vb" using that(2) unat_PGROUNDUP_npages [OF TRAPFRAME_38 [OF top]] by (simp add: word_le_nat_alt)
    then have "\<not> in_range ?b ?n vb" "?b \<le> vb"
      using ub on npages_mono [OF ob(2)] by (auto simp: in_range_def word_le_nat_alt diff_mult_distrib)
    moreover have "vb < MAXVA" using that(1) by (simp add: word_less_nat_alt unat_MAXVA unat_TRAPFRAME)
    ultimately show ?thesis using lf inv that(1) by (simp add: uvm_inv_def)
  qed
  ultimately show ?thesis using g top by (auto simp: uvm_inv_def grown_def)
qed

lemma uvm_inv_backed_out:
  assumes inv: "uvm_inv s root sz xs" and bo: "backed_out root s xs b 0 s' xs'"
  shows "uvm_inv s' root sz xs'"
proof -
  have sz: "sz \<le> TRAPFRAME" and own: "owns s root xs 0 (npages sz)" using inv by (simp_all add: uvm_inv_def)
  have ag: "agree (leaf (mem s') root) (leaf (mem s) root)" using bo by (simp add: backed_out_def cleared_def agree_def)
  have fr: "s' = s\<lparr>freelist := freelist s', mem := mem s'\<rparr>" using bo by (simp add: backed_out_def)
  have lf: "leaf (mem s') root vb = leaf (mem s) root vb" if "in_range 0 (npages sz) vb" for vb
    using agreeD [OF ag] uvm_inv_owned(2) [OF inv that] .
  have "owns s' root xs' 0 (npages sz)"
    using owns_frame(1) [OF own lf heap_frame_kpage [OF fr], of xs'] npages_TRAPFRAME [OF sz] bo
    by (auto simp: backed_out_def)
  moreover have "vb < MAXVA" if "vb < TRAPFRAME" for vb
    using that by (simp add: word_less_nat_alt unat_MAXVA unat_TRAPFRAME)
  ultimately show ?thesis using inv bo agreeD [OF ag] by (auto simp: uvm_inv_def backed_out_def)
qed

lemma grown_ubyte:
  assumes inv: "uvm_inv s root oldsz xs" and g: "grown root s xs (PGROUNDUP oldsz) n fl ct s' xs'"
    and ot: "oldsz \<le> TRAPFRAME"
  shows "in_range 0 (npages oldsz) va \<Longrightarrow> ubyte (mem s') root va = ubyte (mem s) root va"
    and "in_range (PGROUNDUP oldsz) n va \<Longrightarrow> ubyte (mem s') root va = ct va"
proof -
  let ?b = "PGROUNDUP oldsz"
  show "ubyte (mem s') root va = ubyte (mem s) root va" if "in_range 0 (npages oldsz) va"
  proof (rule ubyte_frame)
    show "same_on (- (nodes (mem s) root \<union> set xs)) (mem s') (mem s)" using g by (simp add: grown_def)
    have "\<not> in_range ?b n va" using that unat_PGROUNDUP_npages [OF TRAPFRAME_38 [OF ot]] by (simp add: in_range_def)
    then show "leaf (mem s') root va = leaf (mem s) root va" using g uvm_inv_owned(2) [OF inv that] by (simp add: grown_def)
  qed (rule uvm_inv_owned(1) [OF inv that])
  show "ubyte (mem s') root va = ct va" if "in_range ?b n va"
    using g that by (simp add: grown_def)
qed

text \<open>C11: growing a process from oldsz to newsz either succeeds, returning newsz: the invariant holds
  for the new size, the old bytes are unchanged and every new byte is zero; or it runs out of
  memory and returns 0, with the invariant of the old size, every translation and every byte
  unchanged, and every page it took given back to the allocator or kept as a page of the table.\<close>

theorem uvmalloc_correct:
  assumes "uvm_inv s root oldsz xs" and "oldsz \<le> newsz" and "newsz \<le> TRAPFRAME"
  shows "\<exists>r s' xs'. uvmalloc root oldsz newsz s = Inr (r, s') \<and>
    (\<forall>va. in_range 0 (npages oldsz) va \<longrightarrow> ubyte (mem s') root va = ubyte (mem s) root va) \<and>
    (r = newsz \<and> uvm_inv s' root newsz xs' \<and>
       (\<forall>va. in_range (PGROUNDUP oldsz) (npages newsz - npages oldsz) va \<longrightarrow> ubyte (mem s') root va = 0) \<or>
     r = 0 \<and> uvm_inv s' root oldsz xs' \<and> agree (leaf (mem s') root) (leaf (mem s) root) \<and>
       set xs' \<union> nodes (mem s') root = set xs \<union> nodes (mem s) root)"
proof -
  let ?n = "npages newsz - npages oldsz"
  have ot: "oldsz \<le> TRAPFRAME" using assms(2,3) by (rule order_trans)
  obtain r s' xs' where r: "uvmalloc root oldsz newsz s = Inr (r, s')"
    "r = newsz \<and> grown root s xs (PGROUNDUP oldsz) ?n ualloc_flags zero_bytes s' xs' \<or> r = 0 \<and> backed_out root s xs (PGROUNDUP oldsz) 0 s' xs'"
    using uvmalloc_outcome [OF assms] by blast
  from r(2) show ?thesis
  proof (elim disjE conjE)
    assume "r = newsz" and g: "grown root s xs (PGROUNDUP oldsz) ?n ualloc_flags zero_bytes s' xs'"
    then show ?thesis
      using r(1) uvm_inv_grown [OF assms g] grown_ubyte [OF assms(1) g ot] by (intro exI conjI) (auto simp: zero_bytes_def)
  next
    assume "r = 0" and bo: "backed_out root s xs (PGROUNDUP oldsz) 0 s' xs'"
    have ag: "agree (leaf (mem s') root) (leaf (mem s) root)" using bo by (simp add: backed_out_def cleared_def agree_def)
    have "ubyte (mem s') root va = ubyte (mem s) root va" if "in_range 0 (npages oldsz) va" for va
      using bo uvm_inv_owned [OF assms(1) that] agreeD [OF ag]
      by (intro ubyte_frame [where A = "- (nodes (mem s) root \<union> set xs)"]) (simp_all add: backed_out_def)
    then show ?thesis
      using r(1) \<open>r = 0\<close> uvm_inv_backed_out [OF assms(1) bo] ag bo
      by (intro exI [of _ 0] exI [of _ s'] exI [of _ xs'] conjI) (auto simp: backed_out_def)
  qed
qed

lemma uvm_inv_unmapped:
  assumes inv: "uvm_inv s root oldsz xs" and le: "newsz \<le> oldsz"
    and u: "unmapped root s xs (PGROUNDUP newsz) (npages oldsz - npages newsz) True s'"
  defines "fs \<equiv> rev (frames (leaf (mem s) root) (PGROUNDUP newsz) (npages oldsz - npages newsz))"
  shows "uvm_inv s' root newsz (fs @ xs)"
proof -
  let ?b = "PGROUNDUP newsz" and ?k = "npages newsz" and ?n = "npages oldsz - npages newsz"
  have ot: "oldsz \<le> TRAPFRAME" and nt: "newsz \<le> TRAPFRAME" using inv le by (auto simp: uvm_inv_def)
  have ub: "unat ?b = ?k * 4096" by (rule unat_PGROUNDUP_npages [OF TRAPFRAME_38 [OF nt]])
  have on: "?k + ?n = npages oldsz" using le by (simp add: npages_mono word_le_nat_alt)
  have "owns s root xs 0 (npages oldsz)" using inv by (simp add: uvm_inv_def)
  then have own: "owns s root xs 0 ?k"
    and dj: "set (frames (leaf (mem s) root) 0 ?k) \<inter> set (frames (leaf (mem s) root) ?b ?n) = {}"
    using owns_append [of ?b 0 ?k s root xs ?n] ub PGROUNDUP_of_npages [OF TRAPFRAME_38 [OF nt]] on by auto
  have u1: "kmem_inv s' (fs @ xs)" "pt_wf s' root (fs @ xs)" "nodes (mem s') root = nodes (mem s) root"
    "agree (leaf (mem s') root) (cleared ?b ?n (leaf (mem s) root))" "s' = s\<lparr>freelist := freelist s', mem := mem s'\<rparr>"
    using unmappedD [OF u] by (simp_all add: fs_def)
  have lf: "leaf (mem s') root vb = leaf (mem s) root vb" if "in_range 0 ?k vb" for vb
    using that agreeD [OF u1(4), of vb] ub npages_TRAPFRAME [OF nt]
    by (simp add: in_range_def cleared_def word_less_nat_alt unat_MAXVA)
  have "kpage s' = kpage s" by (rule heap_frame_kpage [OF u1(5)])
  moreover have "frames (leaf (mem s') root) 0 ?k = frames (leaf (mem s) root) 0 ?k"
    using lf npages_TRAPFRAME [OF nt] by (intro frames_cong) auto
  ultimately have "owns s' root (fs @ xs) 0 ?k"
    using own dj lf u1(3) unfolding owns_def fs_def by auto
  moreover have "leaf (mem s') root vb = 0" if vb: "vb < TRAPFRAME" "?b \<le> vb" for vb
  proof -
    have m: "vb < MAXVA" using vb(1) by (simp add: word_less_nat_alt unat_MAXVA unat_TRAPFRAME)
    have "in_range ?b ?n vb \<or> PGROUNDUP oldsz \<le> vb"
      using vb(2) ub on unat_PGROUNDUP_npages [OF TRAPFRAME_38 [OF ot]]
      by (auto simp: in_range_def word_le_nat_alt simp flip: add_mult_distrib)
    then show ?thesis using agreeD [OF u1(4) m] inv vb(1) by (auto simp: cleared_def uvm_inv_def)
  qed
  ultimately show ?thesis using u1(1,2) nt by (simp add: uvm_inv_def)
qed

text \<open>C12: shrinking a process to newsz returns newsz, keeps the invariant at the new size, unmaps the
  pages above it and puts exactly their frames on the free list, and changes no byte below; a
  request that is not smaller changes nothing.\<close>

theorem uvmdealloc_shrinks:
  assumes "uvm_inv s root oldsz xs"
  shows "(newsz < oldsz \<longrightarrow> (\<exists>s'. uvmdealloc root oldsz newsz s = Inr (newsz, s') \<and>
      uvm_inv s' root newsz
        (rev (frames (leaf (mem s) root) (PGROUNDUP newsz) (npages oldsz - npages newsz)) @ xs) \<and>
      (\<forall>va. in_range 0 (npages newsz) va \<longrightarrow> ubyte (mem s') root va = ubyte (mem s) root va))) \<and>
    (oldsz \<le> newsz \<longrightarrow> uvmdealloc root oldsz newsz s = Inr (oldsz, s))"
proof (intro conjI impI)
  let ?b = "PGROUNDUP newsz" and ?n = "npages oldsz - npages newsz"
  assume lt: "newsz < oldsz"
  have ot: "oldsz \<le> TRAPFRAME" and nt: "newsz \<le> TRAPFRAME" using assms lt by (auto simp: uvm_inv_def)
  have nb: "unat newsz \<le> 2 ^ 38" by (rule TRAPFRAME_38 [OF nt])
  have ub: "unat ?b = npages newsz * 4096" by (rule unat_PGROUNDUP_npages [OF nb])
  have on: "npages newsz + ?n = npages oldsz" using lt by (simp add: npages_mono word_less_nat_alt)
  have own: "owns s root xs ?b ?n"
    and dj: "set (frames (leaf (mem s) root) 0 (npages newsz)) \<inter> set (frames (leaf (mem s) root) ?b ?n) = {}"
    using assms owns_append [of ?b 0 "npages newsz" s root xs ?n] ub PGROUNDUP_of_npages [OF nb] on
    by (auto simp: uvm_inv_def)
  obtain s' where s': "uvmdealloc root oldsz newsz s = Inr (newsz, s')" "unmapped root s xs ?b ?n True s'"
    using uvmdealloc_correct [OF _ _ less_imp_le [OF lt] _ own] assms TRAPFRAME_38 [OF ot] by (auto simp: uvm_inv_def)
  have "ubyte (mem s') root va = ubyte (mem s) root va" if va: "in_range 0 (npages newsz) va" for va
  proof (rule ubyte_frame)
    show "same_on (- (nodes (mem s) root \<union> set (frames (leaf (mem s) root) ?b ?n))) (mem s') (mem s)"
      using unmappedD(5) [OF s'(2)] by simp
    have v: "in_range 0 (npages oldsz) va" using va on by (auto simp: in_range_def)
    show "leaf (mem s') root va = leaf (mem s) root va"
      using agreeD [OF unmappedD(4) [OF s'(2)] uvm_inv_owned(2) [OF assms v]] va ub by (simp add: cleared_def in_range_def)
    have "PTE2PA (leaf (mem s) root va) \<in> set (frames (leaf (mem s) root) 0 (npages newsz))"
      using va npages_TRAPFRAME [OF nt] by (intro frame_of) auto
    then show "PTE2PA (leaf (mem s) root va) \<in> - (nodes (mem s) root \<union> set (frames (leaf (mem s) root) ?b ?n))"
      using dj uvm_inv_owned(1) [OF assms v] by auto
  qed
  then show "\<exists>s'. uvmdealloc root oldsz newsz s = Inr (newsz, s') \<and>
      uvm_inv s' root newsz (rev (frames (leaf (mem s) root) ?b ?n) @ xs) \<and>
      (\<forall>va. in_range 0 (npages newsz) va \<longrightarrow> ubyte (mem s') root va = ubyte (mem s) root va)"
    using s'(1) uvm_inv_unmapped [OF assms less_imp_le [OF lt] s'(2)] by blast
next
  show "oldsz \<le> newsz \<Longrightarrow> uvmdealloc root oldsz newsz s = Inr (oldsz, s)" by (simp add: uvmdealloc_def kmon)
qed

section \<open>uvmcopy\<close>

lemma copy_page:
  assumes "kpage s x" and "kpage s p"
  shows "memmove m x p 4096 a = (if PGROUNDDOWN a = x then m (p + (a - x)) else m a)"
proof -
  have al: "pg_aligned x" using assms(1) by (rule kpage_aligned)
  have "unat x < 0x88000000" "unat p < 0x88000000"
    using assms by (auto simp: kpage_def word_less_nat_alt PHYSTOP_def KERNBASE_def)
  then have "memmove m x p 4096 = wr m x (rd m p 4096)" using memmove_wr [of p 4096 x m] by simp
  then show ?thesis using in_page [OF al, of a] by (simp add: wr_apply)
qed

lemma uvmunmap_from0:
  assumes "kmem_inv s xs" and "pt_wf s root xs" and i: "i = of_nat k * PGSIZE" "unat i = k * 4096" "k * 4096 \<le> 2 ^ 38"
    and own: "owns s root xs 0 k"
  shows "\<exists>s'. uvmunmap root 0 (i div PGSIZE) True s = Inr ((), s') \<and> unmapped root s xs 0 k True s'"
proof -
  have "i div PGSIZE = of_nat k"
    using i(2,3) by (intro u_eqI) (simp add: unat_div_distrib unat_of_nat)
  then show ?thesis using uvmunmap_loop_correct [OF assms(1,2) _ _ own, of True] i(3)
    by (simp add: uvmunmap_def)
qed

lemma grown_cong:
  assumes "grown root s xs a n fl ct s' xs'" and "\<And>vb. in_range a n vb \<Longrightarrow> fl vb = fl' vb"
    and "\<And>vb. in_range a n vb \<Longrightarrow> ct vb = ct' vb"
  shows "grown root s xs a n fl' ct' s' xs'"
  using assms unfolding grown_def by simp

text \<open>
  Two tables in one memory: neither uses the other's pages, and the frames of the first are
  not touched by work on the second.
\<close>

definition apart :: "'a kheap_scheme \<Rightarrow> u64 \<Rightarrow> nat \<Rightarrow> u64 \<Rightarrow> u64 list \<Rightarrow> bool" where
  "apart s old N new xs \<longleftrightarrow>
     (nodes (mem s) old \<union> set (frames (leaf (mem s) old) 0 N)) \<inter> (nodes (mem s) new \<union> set xs) = {}"

lemma apart_frame:
  assumes wf: "pt_wf s old xs" and ap: "apart s old N new xs" and N: "N * 4096 < 2 ^ 38"
    and so: "same_on (- (nodes (mem s) new \<union> set xs)) m (mem s)"
  shows "leaf m old = leaf (mem s) old" "nodes m old = nodes (mem s) old"
    "in_range 0 N vb \<Longrightarrow> ubyte m old vb = ubyte (mem s) old vb" "pt_wf (s\<lparr>mem := m\<rparr>) old xs"
proof -
  have son: "same_on (nodes (mem s) old) m (mem s)"
    using so by (rule same_on_mono) (use ap in \<open>auto simp: apart_def\<close>)
  show lf: "leaf m old = leaf (mem s) old" using table_frame(2) [OF wf son] by (rule ext)
  show "nodes m old = nodes (mem s) old" by (rule table_frame(3) [OF wf son])
  show "pt_wf (s\<lparr>mem := m\<rparr>) old xs" by (rule pt_wf_frame [OF wf son])
  assume r: "in_range 0 N vb"
  have "PTE2PA (leaf (mem s) old vb) \<in> set (frames (leaf (mem s) old) 0 N)" using r N by (intro frame_of) auto
  then show "ubyte m old vb = ubyte (mem s) old vb"
    using ap lf by (intro ubyte_frame [OF so]) (auto simp: apart_def)
qed

text \<open>The copy of the page at i, between the allocation and the mapping.\<close>

definition page_copy :: "'a kheap_scheme \<Rightarrow> u64 \<Rightarrow> u64 \<Rightarrow> u64 \<Rightarrow> memory" where
  "page_copy s old i x = memmove (memset (mem s) x 5 4096) x (PTE2PA (leaf (mem s) old i)) 4096"

lemma page_copy_contents:
  assumes kx: "kpage s x" and kp: "kpage s (PTE2PA (leaf (mem s) old i))"
    and ne: "PTE2PA (leaf (mem s) old i) \<noteq> x" and al: "pg_aligned i"
  shows "same_on (- {x}) (page_copy s old i x) (mem s)"
    and "in_range i 1 vb \<Longrightarrow> page_copy s old i x (x + vb mod PGSIZE) = ubyte (mem s) old vb"
proof -
  let ?p = "PTE2PA (leaf (mem s) old i)"
  have ax: "pg_aligned x" using kx by (rule kpage_aligned)
  have cp: "page_copy s old i x a = (if PGROUNDDOWN a = x then memset (mem s) x 5 4096 (?p + (a - x)) else memset (mem s) x 5 4096 a)" for a
    unfolding page_copy_def by (rule copy_page [OF kx kp])
  then show "same_on (- {x}) (page_copy s old i x) (mem s)" by (simp add: same_on_def memset_page [OF ax])
  assume r: "in_range i 1 vb"
  have "PTE2PA (PA2PTE x OR 0) = x" using ax by (rule PTE2PA_PA2PTE) simp
  then have pg: "PGROUNDDOWN (x + vb mod PGSIZE) = x" using ubyte_page [of "PA2PTE x" vb] by simp
  have "PGROUNDDOWN (?p + vb mod PGSIZE) = ?p" by (rule ubyte_page)
  moreover have "leaf (mem s) old vb = leaf (mem s) old i"
    using r page_of_iff [OF al] leaf_page [of "mem s" old vb] by metis
  ultimately show "page_copy s old i x (x + vb mod PGSIZE) = ubyte (mem s) old vb"
    using cp pg ne by (simp add: memset_page [OF ax] ubyte_def)
qed

lemma PTE_FLAGS_lt: "PTE_FLAGS e < 1024"
  using word_and_le1 [of e "0x3FF"] by (simp add: PTE_FLAGS_def word_le_nat_alt word_less_nat_alt)

lemma flags_valid: "valid e \<Longrightarrow> PTE_FLAGS e OR PTE_V = PTE_FLAGS e"
proof (rule bit_word_eqI)
  fix n assume "valid e"
  then have "bit e 0" unfolding valid_def PTE_V_def by (simp add: and_one_eq odd_iff_mod_2_eq_one bit_0)
  then show "bit (PTE_FLAGS e OR PTE_V) n = bit (PTE_FLAGS e) n"
    by (auto simp: PTE_FLAGS_def PTE_V_def bit_simps)
qed

text \<open>One round of uvmcopy up to the mapping of the copy.\<close>

lemma uvmcopy_round:
  assumes inv: "kmem_inv s xs" and wfo: "pt_wf s old xs" and wfn: "pt_wf s new xs"
    and own: "owns s old xs 0 N" and i: "pg_aligned i" "in_range 0 N i" "N * 4096 < 2 ^ 38" "i < sz"
    and lf: "\<not> valid (leaf (mem s) new i)"
  defines "e \<equiv> leaf (mem s) old i"
  shows "xs = [] \<Longrightarrow> uvmcopy_loop old new i sz s = kseq (uvmunmap new 0 (i div PGSIZE) True) (kret (- 1)) s"
    and "xs = x # ys \<Longrightarrow> \<exists>(r::int) s3 zs. uvmcopy_loop old new i sz s =
        (if r \<noteq> 0 then kseq (kfree x) (kseq (uvmunmap new 0 (i div PGSIZE) True) (kret (- 1))) s3
         else uvmcopy_loop old new (i + PGSIZE) sz s3) \<and>
      fresh_mapped new s x ys (page_copy s old i x) s3 zs \<and>
      (r = 0 \<and> agree (leaf (mem s3) new) (mapped i 1 x (PTE_FLAGS e) (leaf (mem s) new)) \<or>
       r = - 1 \<and> zs = [] \<and> agree (leaf (mem s3) new) (leaf (mem s) new))"
proof -
  have im: "i < MAXVA" using i(2,3) by (simp add: in_range_def word_less_nat_alt unat_MAXVA)
  have ve: "valid e" using own i(2) by (simp add: owns_def e_def)
  have "PTE2PA e \<in> set (frames (leaf (mem s) old) 0 N)" unfolding e_def using i by (intro frame_of) auto
  then have kp: "kpage s (PTE2PA e)" "PTE2PA e \<notin> set xs" using own by (auto simp: owns_def)
  obtain q where q: "pte_addr q (PX 0 i) \<noteq> 0" "walk old i False s = Inr (pte_addr q (PX 0 i), s)"
    "load64 (mem s) (pte_addr q (PX 0 i)) = e"
    using walk_leaf [OF wfo im] ve unfolding e_def by metis
  show "uvmcopy_loop old new i sz s = kseq (uvmunmap new 0 (i div PGSIZE) True) (kret (- 1)) s" if "xs = []"
    using q ve i(4) kalloc_Nil [OF inv [unfolded that]] by (subst uvmcopy_loop.simps) (simp add: Let_def)
  assume xs: "xs = x # ys"
  have kx: "kpage s x" "x \<noteq> 0" using inv xs kpage_nonzero by (auto simp: kmem_inv_def)
  have ne: "PTE2PA e \<noteq> x" using kp xs by auto
  have so: "same_on (- {x}) (page_copy s old i x) (mem s)"
    using page_copy_contents(1) [OF kx(1) kp(1) [unfolded e_def] ne [unfolded e_def] i(1)] .
  obtain r s3 zs where r: "mappages new i PGSIZE x (PTE_FLAGS e) (s\<lparr>freelist := load64 (mem s) x, mem := page_copy s old i x\<rparr>) = Inr (r, s3)"
    "fresh_mapped new s x ys (page_copy s old i x) s3 zs"
    "r = 0 \<and> agree (leaf (mem s3) new) (mapped i 1 x (PTE_FLAGS e) (leaf (mem s) new)) \<or>
     r = - 1 \<and> zs = [] \<and> agree (leaf (mem s3) new) (leaf (mem s) new)"
    using map_fresh [OF inv [unfolded xs] wfn [unfolded xs] so i(1) im lf, of "PTE_FLAGS e"] by blast
  have "uvmcopy_loop old new i sz s =
        (if r \<noteq> 0 then kseq (kfree x) (kseq (uvmunmap new 0 (i div PGSIZE) True) (kret (- 1))) s3
         else uvmcopy_loop old new (i + PGSIZE) sz s3)"
    using q ve i(4) kx(2) kalloc_eq [OF inv [unfolded xs]] r(1)
    by (subst uvmcopy_loop.simps) (simp add: Let_def page_copy_def e_def)
  then show "\<exists>(r::int) s3 zs. uvmcopy_loop old new i sz s =
        (if r \<noteq> 0 then kseq (kfree x) (kseq (uvmunmap new 0 (i div PGSIZE) True) (kret (- 1))) s3
         else uvmcopy_loop old new (i + PGSIZE) sz s3) \<and>
      fresh_mapped new s x ys (page_copy s old i x) s3 zs \<and>
      (r = 0 \<and> agree (leaf (mem s3) new) (mapped i 1 x (PTE_FLAGS e) (leaf (mem s) new)) \<or>
       r = - 1 \<and> zs = [] \<and> agree (leaf (mem s3) new) (leaf (mem s) new))"
    using r(2,3) by blast
qed

text \<open>What the rounds of uvmcopy keep: both tables, the source's pages, and the k pages copied so far.\<close>

definition copying :: "'a kheap_scheme \<Rightarrow> u64 list \<Rightarrow> u64 \<Rightarrow> u64 \<Rightarrow> nat \<Rightarrow> nat \<Rightarrow> bool" where
  "copying s xs old new N k \<longleftrightarrow>
     kmem_inv s xs \<and> pt_wf s old xs \<and> pt_wf s new xs \<and> owns s old xs 0 N \<and> owns s new xs 0 k \<and>
     apart s old N new xs \<and>
     (\<forall>vb. in_range (of_nat k * PGSIZE) (N - k) vb \<longrightarrow> leaf (mem s) new vb = 0)"

lemma copying_step:
  assumes c: "copying s (x # ys) old new N k" and kN: "k < N" "N * 4096 < 2 ^ 38"
    and i: "i = of_nat k * PGSIZE" "unat i = k * 4096" "pg_aligned i"
    and fm: "fresh_mapped new s x ys m2 s3 zs"
    and ag: "agree (leaf (mem s3) new) (mapped i 1 x perm (leaf (mem s) new))"
    and pm: "perm < 1024" "perm OR PTE_V \<noteq> PTE_V"
  shows "copying s3 zs old new N (Suc k)" "leaf (mem s3) old = leaf (mem s) old"
    "in_range 0 N vb \<Longrightarrow> ubyte (mem s3) old vb = ubyte (mem s) old vb"
    "frames (leaf (mem s3) new) 0 (Suc k) = frames (leaf (mem s) new) 0 k @ [x]"
proof -
  have kx: "kpage s x" and wfo: "pt_wf s old (x # ys)" and own: "owns s old (x # ys) 0 N" "owns s new (x # ys) 0 k"
    and ap: "apart s old N new (x # ys)" and z: "\<And>vb. in_range i (N - k) vb \<Longrightarrow> leaf (mem s) new vb = 0"
    using c i(1) by (auto simp: copying_def kmem_inv_def)
  obtain us where us: "ys = us @ zs" "nodes (mem s3) new = nodes (mem s) new \<union> set us"
    and so: "same_on (- (nodes (mem s) new \<union> set (x # ys))) (mem s3) (mem s)"
    and inv3: "kmem_inv s3 zs" "pt_wf s3 new zs" and fr: "s3 = s\<lparr>freelist := freelist s3, mem := mem s3\<rparr>"
    using fm by (auto simp: fresh_mapped_def)
  note af = apart_frame [OF wfo ap kN(2) so] and kp = heap_frame_kpage [OF fr]
  show lfo: "leaf (mem s3) old = leaf (mem s) old" by (rule af(1))
  show "in_range 0 N vb \<Longrightarrow> ubyte (mem s3) old vb = ubyte (mem s) old vb" by (rule af(3))
  have "k * 4096 + 4096 \<le> N * 4096" using kN(1) by simp
  then have "unat i + 4096 \<le> 2 ^ 38" using i(2) kN(2) by simp
  then have o4: "owns s3 new zs 0 (Suc k)" "frames (leaf (mem s3) new) 0 (Suc k) = frames (leaf (mem s) new) 0 k @ [x]"
    using fresh_owns [OF fm ag kx own(2) _ _ i(3) _ pm] i(1,2) by simp_all
  show "frames (leaf (mem s3) new) 0 (Suc k) = frames (leaf (mem s) new) 0 k @ [x]" by (rule o4(2))
  have wf3: "pt_wf s3 old zs"
    using af(4) us(1) kp unfolding pt_wf_def by auto
  have o3: "owns s3 old zs 0 N"
    using own(1) us kp lfo af(2) unfolding owns_def by auto
  have ap3: "apart s3 old N new zs" using ap us af(2) lfo unfolding apart_def by auto
  have "leaf (mem s3) new vb = 0" if "in_range (of_nat (Suc k) * PGSIZE) (N - Suc k) vb" for vb
  proof -
    have "unat (of_nat (Suc k) * PGSIZE :: u64) = Suc k * 4096"
      using kN by (simp add: unat_word_ariths unat_of_nat del: of_nat_Suc)
    then have "in_range i (N - k) vb" "\<not> in_range i 1 vb" "vb < MAXVA"
      using that i(2) kN by (auto simp: in_range_def word_less_nat_alt unat_MAXVA diff_mult_distrib)
    then show ?thesis using agreeD [OF ag, of vb] z by (simp add: mapped_def)
  qed
  then show "copying s3 zs old new N (Suc k)"
    using inv3 wf3 o3 o4(1) ap3 unfolding copying_def by blast
qed

lemma uvmcopy_grown:
  assumes c: "copying s (x # ys) old new N k" and i: "pg_aligned i" "in_range 0 N i" "N * 4096 < 2 ^ 38"
      "unat i + Suc n * 4096 = N * 4096"
    and fm: "fresh_mapped new s x ys (page_copy s old i x) s3 zs"
    and ag: "agree (leaf (mem s3) new) (mapped i 1 x (PTE_FLAGS (leaf (mem s) old i)) (leaf (mem s) new))"
    and lo: "leaf (mem s3) old = leaf (mem s) old"
    and ub: "\<And>vb. in_range 0 N vb \<Longrightarrow> ubyte (mem s3) old vb = ubyte (mem s) old vb"
    and g: "grown new s3 zs (i + PGSIZE) n (\<lambda>vb. PTE_FLAGS (leaf (mem s3) old vb)) (ubyte (mem s3) old) s' xs'"
  shows "grown new s (x # ys) i (Suc n) (\<lambda>vb. PTE_FLAGS (leaf (mem s) old vb)) (ubyte (mem s) old) s' xs'"
proof -
  let ?e = "leaf (mem s) old i"
  have own: "owns s old (x # ys) 0 N" and kx: "kpage s x" "pg_aligned x"
    using c kpage_aligned by (auto simp: copying_def kmem_inv_def)
  have ve: "valid ?e" "PTE_FLAGS ?e \<noteq> PTE_V" using own i(2) by (simp_all add: owns_def)
  have pm: "PTE_FLAGS ?e < 1024" "PTE_FLAGS ?e OR PTE_V \<noteq> PTE_V"
    using PTE_FLAGS_lt flags_valid [OF ve(1)] ve(2) by simp_all
  have "PTE2PA ?e \<in> set (frames (leaf (mem s) old) 0 N)" using i(2,3) by (intro frame_of) auto
  then have kp: "kpage s (PTE2PA ?e)" "PTE2PA ?e \<noteq> x" using own by (auto simp: owns_def)
  note pc = page_copy_contents(2) [OF kx(1) kp i(1)]
  have fl: "PTE_FLAGS (leaf (mem s) old vb) = PTE_FLAGS ?e OR PTE_V" if "in_range i 1 vb" for vb
  proof -
    have "leaf (mem s) old vb = ?e" using that page_of_iff [OF i(1)] leaf_page [of "mem s" old vb] by metis
    then show ?thesis using flags_valid [OF ve(1)] by simp
  qed
  have u: "unat (i + PGSIZE) = unat i + 4096" using i(3,4) by (intro unat_add_PGSIZE) simp
  have "grown new s3 zs (i + PGSIZE) n (\<lambda>vb. PTE_FLAGS (leaf (mem s) old vb)) (ubyte (mem s) old) s' xs'"
    using g by (rule grown_cong) (use lo ub i u in \<open>auto simp: in_range_def\<close>)
  then show ?thesis using grown_step [OF fm kx pm pc fl ag i(1)] i(3,4) by simp
qed

lemma uvmcopy_loop_correct:
  assumes "copying s xs old new N k" and "k + n = N" and "N * 4096 < 2 ^ 38"
    and "i = of_nat k * PGSIZE" and "unat i = k * 4096" and "unat sz \<le> N * 4096" and "N = 0 \<or> (N - 1) * 4096 < unat sz"
  shows "\<exists>r s' xs'. uvmcopy_loop old new i sz s = Inr (r, s') \<and>
    (r = 0 \<and> grown new s xs i n (\<lambda>vb. PTE_FLAGS (leaf (mem s) old vb)) (ubyte (mem s) old) s' xs' \<or>
     r = - 1 \<and> backed_out new s xs 0 k s' xs')"
  using assms
proof (induction n arbitrary: k i s xs)
  case 0
  then have "\<not> i < sz" by (simp add: word_less_nat_alt)
  then show ?case using 0 by (subst uvmcopy_loop.simps) (auto simp: grown_def owns_def copying_def)
next
  case (Suc n)
  have k: "k < N" "N - k = Suc n" using Suc.prems(2) by auto
  have "k * 4096 \<le> (N - 1) * 4096" using k by simp
  then have lt: "i < sz" using Suc.prems(5,7) k by (auto simp: word_less_nat_alt)
  have al: "pg_aligned i" and ir: "in_range 0 N i" and i38: "unat i + Suc n * 4096 = N * 4096"
    using Suc.prems(2,5) k by (auto simp: pg_aligned_def in_range_def)
  have c: "kmem_inv s xs" "pt_wf s old xs" "pt_wf s new xs" "owns s old xs 0 N" "owns s new xs 0 k"
    and z: "\<And>vb. in_range i (Suc n) vb \<Longrightarrow> leaf (mem s) new vb = 0"
    using Suc.prems(1,4) k by (auto simp: copying_def)
  have nv: "\<not> valid (leaf (mem s) new i)" using z [of i] by (simp add: in_range_def)
  note rnd = uvmcopy_round [OF c(1-4) al ir Suc.prems(3) lt nv]
  have k38: "k * 4096 \<le> 2 ^ 38" using k Suc.prems(3) by simp
  note unmap = uvmunmap_from0 [OF _ _ Suc.prems(4,5) k38, where root = new]
  show ?case
  proof (cases xs)
    case Nil
    obtain s' where "uvmunmap new 0 (i div PGSIZE) True s = Inr ((), s')" "unmapped new s xs 0 k True s'"
      using unmap [OF c(1,3,5)] by blast
    then show ?thesis using rnd(1) [OF Nil] unmapped_backed_out by (fastforce simp: kmon)
  next
    case (Cons x ys)
    have kx: "kpage s x" "pg_aligned x" using c(1) Cons kpage_aligned by (auto simp: kmem_inv_def)
    let ?e = "leaf (mem s) old i"
    obtain r s3 zs where r: "uvmcopy_loop old new i sz s =
        (if r \<noteq> 0 then kseq (kfree x) (kseq (uvmunmap new 0 (i div PGSIZE) True) (kret (- 1))) s3
         else uvmcopy_loop old new (i + PGSIZE) sz s3)" "fresh_mapped new s x ys (page_copy s old i x) s3 zs"
      "(r::int) = 0 \<and> agree (leaf (mem s3) new) (mapped i 1 x (PTE_FLAGS ?e) (leaf (mem s) new)) \<or>
       r = - 1 \<and> zs = [] \<and> agree (leaf (mem s3) new) (leaf (mem s) new)"
      using rnd(2) [OF Cons] by blast
    show ?thesis
    proof (cases "r = 0")
      case False
      then have f: "zs = []" "agree (leaf (mem s3) new) (leaf (mem s) new)" using r(3) by auto
      obtain s4 where s4: "kfree x s3 = Inr ((), s4)" "kmem_inv s4 [x]" "pt_wf s4 new [x]" "owns s4 new [x] 0 k"
        "\<forall>s'. unmapped new s4 [x] 0 k True s' \<longrightarrow>
           backed_out new s (x # ys) 0 k s' (rev (frames (leaf (mem s) new) 0 k) @ [x])"
        using backed_out_free [OF r(2) [unfolded f(1)] kx(1) f(2) c(5) [unfolded Cons]] k38 by auto
      obtain s' where "uvmunmap new 0 (i div PGSIZE) True s4 = Inr ((), s')" "unmapped new s4 [x] 0 k True s'"
        using unmap [OF s4(2-4)] by blast
      then show ?thesis using r(1) False s4 Cons by (auto simp: kmon)
    next
      case True
      then have ag: "agree (leaf (mem s3) new) (mapped i 1 x (PTE_FLAGS ?e) (leaf (mem s) new))" using r(3) by simp
      have ve: "valid ?e" "PTE_FLAGS ?e \<noteq> PTE_V" using c(4) ir by (simp_all add: owns_def)
      have pm: "PTE_FLAGS ?e < 1024" "PTE_FLAGS ?e OR PTE_V \<noteq> PTE_V"
        using PTE_FLAGS_lt flags_valid [OF ve(1)] ve(2) by simp_all
      note st = copying_step [OF Suc.prems(1) [unfolded Cons] k(1) Suc.prems(3,4,5) al r(2) ag pm]
      have "\<exists>r' s' xs'. uvmcopy_loop old new (i + PGSIZE) sz s3 = Inr (r', s') \<and>
        (r' = 0 \<and> grown new s3 zs (i + PGSIZE) n (\<lambda>vb. PTE_FLAGS (leaf (mem s3) old vb)) (ubyte (mem s3) old) s' xs' \<or>
         r' = - 1 \<and> backed_out new s3 zs 0 (Suc k) s' xs')"
      proof (rule Suc.IH [OF st(1)])
        show "i + PGSIZE = of_nat (Suc k) * PGSIZE" using Suc.prems(4) by (simp add: algebra_simps)
        show "unat (i + PGSIZE) = Suc k * 4096"
          using Suc.prems(3,5) i38 by (subst unat_add_PGSIZE) auto
      qed (use Suc.prems in auto)
      then obtain r' s' xs' where r': "uvmcopy_loop old new (i + PGSIZE) sz s3 = Inr (r', s')"
        "r' = 0 \<and> grown new s3 zs (i + PGSIZE) n (\<lambda>vb. PTE_FLAGS (leaf (mem s3) old vb)) (ubyte (mem s3) old) s' xs' \<or>
         r' = - 1 \<and> backed_out new s3 zs 0 (Suc k) s' xs'" by blast
      have "grown new s (x # ys) i (Suc n) (\<lambda>vb. PTE_FLAGS (leaf (mem s) old vb)) (ubyte (mem s) old) s' xs'"
        if g: "grown new s3 zs (i + PGSIZE) n (\<lambda>vb. PTE_FLAGS (leaf (mem s3) old vb)) (ubyte (mem s3) old) s' xs'"
        using uvmcopy_grown [OF Suc.prems(1) [unfolded Cons] al ir Suc.prems(3) i38 r(2) ag st(2,3) g] .
      moreover have "backed_out new s (x # ys) 0 k s' xs'" if "backed_out new s3 zs 0 (Suc k) s' xs'"
        using backed_out_step [OF r(2) ag al _ _ st(4) that] Suc.prems(5) z by (simp add: in_range_def)
      ultimately show ?thesis using r(1) True r' Cons by auto
    qed
  qed
qed

text \<open>The source's address space survives any work on the other table.\<close>

lemma uvm_inv_apart:
  assumes inv: "uvm_inv s old sz xs" and ap: "apart s old (npages sz) new xs"
    and so: "same_on (- (nodes (mem s) new \<union> set xs)) (mem s') (mem s)"
    and fr: "s' = s\<lparr>freelist := freelist s', mem := mem s'\<rparr>" and k: "kmem_inv s' xs'"
    and sub: "set xs' \<subseteq> set xs \<union> nodes (mem s) new"
  shows "uvm_inv s' old sz xs'"
    and "\<forall>va. in_range 0 (npages sz) va \<longrightarrow> ubyte (mem s') old va = ubyte (mem s) old va"
    and "frames (leaf (mem s') old) 0 (npages sz) = frames (leaf (mem s) old) 0 (npages sz)"
proof -
  have wf: "pt_wf s old xs" and own: "owns s old xs 0 (npages sz)" and sz: "sz \<le> TRAPFRAME"
    using inv by (simp_all add: uvm_inv_def)
  have N: "npages sz * 4096 < 2 ^ 38" using npages_TRAPFRAME [OF sz] by simp
  note af = apart_frame [OF wf ap N so]
  show "\<forall>va. in_range 0 (npages sz) va \<longrightarrow> ubyte (mem s') old va = ubyte (mem s) old va" using af(3) by blast
  show "frames (leaf (mem s') old) 0 (npages sz) = frames (leaf (mem s) old) 0 (npages sz)" using af(1) by simp
  have dj: "nodes (mem s) old \<inter> set xs' = {}" "set (frames (leaf (mem s) old) 0 (npages sz)) \<inter> set xs' = {}"
    using ap sub by (auto simp: apart_def)
  have kp: "kpage s' = kpage s" by (rule heap_frame_kpage [OF fr])
  have "pt_wf s' old xs'" using af(2,4) dj(1) kp unfolding pt_wf_def by auto
  moreover have "owns s' old xs' 0 (npages sz)" using own af(1,2) dj(2) kp unfolding owns_def by auto
  ultimately show "uvm_inv s' old sz xs'" using inv k af(1) by (simp add: uvm_inv_def)
qed

text \<open>C10: fork's copy of an address space: on success the child's table satisfies the invariant at the
  same size, every byte and every permission of the parent is there, in frames that are not the
  parent's; on failure the child is empty again and all its pages are back. Either way the
  parent's address space is untouched.\<close>

theorem uvmcopy_correct:
  assumes "uvm_inv s old sz xs" and "uvm_inv s new 0 xs" and "apart s old (npages sz) new xs"
  shows "\<exists>r s' xs'. uvmcopy old new sz s = Inr (r, s') \<and> uvm_inv s' old sz xs' \<and>
    (\<forall>va. in_range 0 (npages sz) va \<longrightarrow> ubyte (mem s') old va = ubyte (mem s) old va) \<and>
    (r = 0 \<and> uvm_inv s' new sz xs' \<and>
       (\<forall>va. in_range 0 (npages sz) va \<longrightarrow> ubyte (mem s') new va = ubyte (mem s) old va \<and>
          PTE_FLAGS (leaf (mem s') new va) = PTE_FLAGS (leaf (mem s) old va)) \<and>
       set (frames (leaf (mem s') new) 0 (npages sz)) \<inter> set (frames (leaf (mem s') old) 0 (npages sz)) = {} \<or>
     r = - 1 \<and> uvm_inv s' new 0 xs' \<and> set xs' \<union> nodes (mem s') new = set xs \<union> nodes (mem s) new)"
proof -
  let ?N = "npages sz"
  have sz: "sz \<le> TRAPFRAME" using assms(1) by (simp add: uvm_inv_def)
  have N: "?N * 4096 < 2 ^ 38" using npages_TRAPFRAME [OF sz] by simp
  have n0: "npages 0 = 0" and r0: "PGROUNDUP 0 = 0" by (simp_all add: npages_def PGROUNDUP_def PGSIZE_def)
  have "leaf (mem s) new vb = 0" if "in_range 0 ?N vb" for vb
  proof -
    have "vb < TRAPFRAME" using that npages_TRAPFRAME [OF sz] by (simp add: in_range_def word_less_nat_alt unat_TRAPFRAME)
    then show ?thesis using assms(2) r0 by (simp add: uvm_inv_def)
  qed
  then have c: "copying s xs old new ?N 0"
    using assms n0 by (simp add: copying_def uvm_inv_def)
  have "unat sz \<le> ?N * 4096" "?N = 0 \<or> (?N - 1) * 4096 < unat sz"
    by (simp_all add: npages_def diff_mult_distrib) linarith+
  then obtain r s' xs' where r: "uvmcopy old new sz s = Inr (r, s')"
    "r = 0 \<and> grown new s xs 0 ?N (\<lambda>vb. PTE_FLAGS (leaf (mem s) old vb)) (ubyte (mem s) old) s' xs' \<or>
     r = - 1 \<and> backed_out new s xs 0 0 s' xs'"
    using uvmcopy_loop_correct [OF c _ N, of ?N 0 sz] by (auto simp: uvmcopy_def)
  from r(2) show ?thesis
  proof (elim disjE conjE)
    assume "r = 0" and g: "grown new s xs 0 ?N (\<lambda>vb. PTE_FLAGS (leaf (mem s) old vb)) (ubyte (mem s) old) s' xs'"
    have g1: "same_on (- (nodes (mem s) new \<union> set xs)) (mem s') (mem s)" "s' = s\<lparr>freelist := freelist s', mem := mem s'\<rparr>"
      "kmem_inv s' xs'" "set xs \<union> nodes (mem s) new = set xs' \<union> nodes (mem s') new \<union> set (frames (leaf (mem s') new) 0 ?N)"
      using g unfolding grown_def by blast+
    have sub: "set xs' \<subseteq> set xs \<union> nodes (mem s) new" using g1(4) by blast
    note ua = uvm_inv_apart [OF assms(1,3) g1(1-3) sub]
    have "uvm_inv s' new sz xs'"
      using uvm_inv_grown [OF assms(2) _ sz] g n0 r0 by simp
    moreover have "set (frames (leaf (mem s') new) 0 ?N) \<inter> set (frames (leaf (mem s') old) 0 ?N) = {}"
      unfolding ua(3) using g1(4) assms(3) unfolding apart_def by blast
    moreover have "\<forall>va. in_range 0 ?N va \<longrightarrow> ubyte (mem s') new va = ubyte (mem s) old va \<and>
        PTE_FLAGS (leaf (mem s') new va) = PTE_FLAGS (leaf (mem s) old va)"
      using g by (simp add: grown_def)
    ultimately show ?thesis using r(1) \<open>r = 0\<close> ua g1(4) by (intro exI [of _ 0] exI [of _ s'] exI [of _ xs']) blast
  next
    assume "r = - 1" and bo: "backed_out new s xs 0 0 s' xs'"
    have b1: "same_on (- (nodes (mem s) new \<union> set xs)) (mem s') (mem s)" "s' = s\<lparr>freelist := freelist s', mem := mem s'\<rparr>"
      "kmem_inv s' xs'" "set xs' \<union> nodes (mem s') new = set xs \<union> nodes (mem s) new"
      using bo by (simp_all add: backed_out_def)
    have sub: "set xs' \<subseteq> set xs \<union> nodes (mem s) new" using b1(4) by blast
    note ua = uvm_inv_apart [OF assms(1,3) b1(1-3) sub]
    show ?thesis using r(1) \<open>r = - 1\<close> ua b1(4) uvm_inv_backed_out [OF assms(2) bo]
      by (intro exI [of _ "- 1"] exI [of _ s'] exI [of _ xs']) blast
  qed
qed

end
