(* ===== verification/Vm_Copy.thy ===== *)
theory Vm_Copy
  imports Vm_User
begin

text \<open>
  copyin, copyout and copyinstr: the kernel reaches user memory only through the page table and
  only where the table grants user access. Each of them copies a prefix of the range and
  stops at the first byte that is not accessible.
\<close>

section \<open>Accessible addresses\<close>

definition accessible :: "memory \<Rightarrow> u64 \<Rightarrow> u64 \<Rightarrow> bool" where
  "accessible m root va \<longleftrightarrow> va < MAXVA \<and> valid (leaf m root va) \<and> leaf m root va AND PTE_U \<noteq> 0"

text \<open>User access is granted only to the pages of the process, the n pages from 0.\<close>

definition user_low :: "memory \<Rightarrow> u64 \<Rightarrow> nat \<Rightarrow> bool" where
  "user_low m root n \<longleftrightarrow> (\<forall>va. accessible m root va \<longrightarrow> in_range 0 n va)"

lemma accessible_page: "accessible m root (PGROUNDDOWN va) \<longleftrightarrow> accessible m root va"
  by (simp add: accessible_def leaf_page PGROUNDDOWN_less_MAXVA)

lemma accessible_cong: "leaf m' root = leaf m root \<Longrightarrow> accessible m' root = accessible m root"
  by (rule ext) (simp add: accessible_def)

lemma walkaddr_eq:
  assumes "pt_wf s root xs"
  shows "walkaddr root va s = Inr (if accessible (mem s) root va then PTE2PA (leaf (mem s) root va) else 0, s)"
proof (cases "va < MAXVA")
  case False
  then show ?thesis by (simp add: walkaddr_def accessible_def kmon flip: not_less)
next
  case va: True
  show ?thesis
  proof (cases "tnode (mem s) root (idx va)")
    case None
    then have "walk root va False s = Inr (0, s)" "leaf (mem s) root va = 0"
      using walk_noalloc [OF va, of root s] by (simp_all add: leaf_def)
    then show ?thesis using va by (simp add: walkaddr_def accessible_def kmon)
  next
    case (Some q)
    then have "walk root va False s = Inr (pte_addr q (PX 0 va), s)"
      using walk_noalloc [OF va, of root s] by simp
    then show ?thesis using va pte_slot_nonzero [OF assms Some] leaf_tnode [OF Some]
      by (simp add: walkaddr_def accessible_def kmon flip: not_less)
  qed
qed

section \<open>Frames and offsets\<close>

lemma frames_nth: "k < n \<Longrightarrow> frames f a n ! k = PTE2PA (f (a + of_nat k * PGSIZE))"
proof (induction n arbitrary: a k)
  case (Suc n)
  have eq: "a + PGSIZE + of_nat j * PGSIZE = a + of_nat (Suc j) * PGSIZE" for j by (simp add: algebra_simps)
  show ?case
  proof (cases k)
    case (Suc j)
    then show ?thesis using Suc.IH [of j "a + PGSIZE"] Suc.prems unfolding eq by simp
  qed simp
qed simp

lemma length_frames [simp]: "length (frames f a n) = n"
  by (induction n arbitrary: a) auto

lemma page_index:
  "unat va < 2 ^ 38 \<Longrightarrow> PGROUNDDOWN va = of_nat (unat va div 4096) * PGSIZE"
  by (rule u_eqI) (simp add: unat_PGROUNDDOWN_div unat_word_ariths unat_of_nat less_mult_imp_div_less)

lemma frame_inj:
  assumes d: "distinct (frames (leaf m root) 0 n)" and n: "n * 4096 < 2 ^ 38"
    and va: "in_range 0 n va" and vb: "in_range 0 n vb" and eq: "PTE2PA (leaf m root va) = PTE2PA (leaf m root vb)"
  shows "PGROUNDDOWN va = PGROUNDDOWN vb"
proof -
  have ia: "unat va div 4096 < n" "unat va < 2 ^ 38" and ib: "unat vb div 4096 < n" "unat vb < 2 ^ 38"
    using va vb n by (auto simp: in_range_def less_mult_imp_div_less)
  have "leaf m root (of_nat (unat va div 4096) * PGSIZE) = leaf m root va"
    "leaf m root (of_nat (unat vb div 4096) * PGSIZE) = leaf m root vb"
    using leaf_page [of m root va] leaf_page [of m root vb] by (simp_all only: page_index [OF ia(2)] page_index [OF ib(2)])
  then have "frames (leaf m root) 0 n ! (unat va div 4096) = frames (leaf m root) 0 n ! (unat vb div 4096)"
    using eq by (simp add: frames_nth ia ib)
  then have "unat va div 4096 = unat vb div 4096"
    using d ia ib by (simp add: nth_eq_iff_index_eq)
  then show ?thesis using ia ib by (simp add: page_index)
qed

lemma off_of: "va mod PGSIZE = va - PGROUNDDOWN va"
  by (rule u_eqI) (simp add: unat_mod_distrib unat_page_offset)

text \<open>The physical address of a user byte.\<close>

definition phys :: "memory \<Rightarrow> u64 \<Rightarrow> u64 \<Rightarrow> u64" where
  "phys m root va = PTE2PA (leaf m root va) + (va - PGROUNDDOWN va)"

lemma ubyte_phys: "ubyte m root va = m (phys m root va)"
  by (simp add: ubyte_def phys_def off_of)

lemma phys_page: "PGROUNDDOWN (phys m root va) = PTE2PA (leaf m root va)"
  unfolding phys_def off_of [symmetric] by (rule ubyte_page)

lemma phys_block:
  assumes own: "owns s root xs 0 N" and N: "N * 4096 < 2 ^ 38"
    and va: "in_range 0 N va" and vb: "in_range 0 N vb" and n: "unat va mod 4096 + n \<le> 4096"
  shows "unat (phys (mem s) root vb - phys (mem s) root va) < n \<longleftrightarrow> unat va \<le> unat vb \<and> unat vb < unat va + n"
    and "unat va \<le> unat vb \<and> unat vb < unat va + n \<Longrightarrow> phys (mem s) root vb - phys (mem s) root va = vb - va"
proof -
  let ?m = "mem s" and ?o = "unat va mod 4096"
  have d: "distinct (frames (leaf ?m root) 0 N)" using own by (simp add: owns_def)
  have ph: "phys ?m root va = PTE2PA (leaf ?m root va) + of_nat ?o"
  proof -
    have "va - PGROUNDDOWN va = of_nat ?o" by (rule u_eqI) (simp add: unat_page_offset unat_of_nat)
    then show ?thesis by (simp add: phys_def)
  qed
  have same: "phys ?m root vb - phys ?m root va = vb - va" if "PGROUNDDOWN vb = PGROUNDDOWN va"
    using that leaf_page [of ?m root va] leaf_page [of ?m root vb] by (simp add: phys_def)
  have pg: "PGROUNDDOWN vb = PGROUNDDOWN va" if "unat va \<le> unat vb \<and> unat vb < unat va + n"
  proof -
    define q where "q = unat va div 4096"
    have "unat va = q * 4096 + ?o" by (simp add: q_def)
    then have "unat vb div 4096 = q" using that n by (intro div_nat_eqI) auto
    then have "unat vb div 4096 = unat va div 4096" by (simp add: q_def)
    then have "unat (PGROUNDDOWN vb) = unat (PGROUNDDOWN va)" by (simp add: unat_PGROUNDDOWN_div)
    then show ?thesis by (rule u_eqI)
  qed
  show "phys ?m root vb - phys ?m root va = vb - va" if "unat va \<le> unat vb \<and> unat vb < unat va + n"
    by (rule same [OF pg [OF that]])
  show "unat (phys ?m root vb - phys ?m root va) < n \<longleftrightarrow> unat va \<le> unat vb \<and> unat vb < unat va + n"
  proof
    assume l: "unat (phys ?m root vb - phys ?m root va) < n"
    then have "PGROUNDDOWN (phys ?m root vb) = PTE2PA (leaf ?m root va)"
      unfolding ph by (intro in_page_block [OF pg_aligned_PTE2PA n])
    then have "PGROUNDDOWN vb = PGROUNDDOWN va" using frame_inj [OF d N vb va] by (simp add: phys_page)
    from same [OF this] have l': "unat (vb - va) < n" using l by simp
    show "unat va \<le> unat vb \<and> unat vb < unat va + n"
    proof (cases "va \<le> vb")
      case True
      then show ?thesis using l' by (simp add: unat_sub word_le_nat_alt)
    next
      case False
      then have "unat (va - vb) = unat va - unat vb" by (intro unat_sub) simp
      then have "(unat (vb - va) + (unat va - unat vb)) mod 2 ^ 64 = 0"
        using unat_word_ariths(1) [of "vb - va" "va - vb"] by simp
      moreover have "unat va < 2 ^ 38" using va N by (simp add: in_range_def)
      then have "unat (vb - va) + (unat va - unat vb) < 2 ^ 64" using l' n by simp
      ultimately have "unat va - unat vb = 0" by simp
      then show ?thesis using False by (simp add: word_le_nat_alt)
    qed
  next
    assume r: "unat va \<le> unat vb \<and> unat vb < unat va + n"
    then have "unat (vb - va) = unat vb - unat va" by (intro unat_sub) (simp add: word_le_nat_alt)
    then show "unat (phys ?m root vb - phys ?m root va) < n" using same [OF pg [OF r]] r by auto
  qed
qed

section \<open>copyout\<close>

text \<open>A kernel buffer: it does not wrap around and shares no page with the process or its table.\<close>

definition kbuf :: "'a kheap_scheme \<Rightarrow> u64 \<Rightarrow> nat \<Rightarrow> u64 \<Rightarrow> nat \<Rightarrow> bool" where
  "kbuf s root N a n \<longleftrightarrow> unat a + n < 2 ^ 64 \<and>
     (\<forall>i < n. PGROUNDDOWN (a + of_nat i) \<notin> nodes (mem s) root \<union> set (frames (leaf (mem s) root) 0 N))"

text \<open>The part of uvm_inv that the copy routines rely on.\<close>

definition uspace :: "'a kheap_scheme \<Rightarrow> u64 \<Rightarrow> nat \<Rightarrow> bool" where
  "uspace s root N \<longleftrightarrow> 0 < k_end s \<and> pt_wf s root [] \<and> owns s root [] 0 N \<and> N * 4096 < 2 ^ 38 \<and> user_low (mem s) root N"

lemma uspace_frame:
  assumes us: "uspace s root N" and so: "same_on (nodes (mem s) root) m (mem s)"
  shows "uspace (s\<lparr>mem := m\<rparr>) root N" "leaf m root = leaf (mem s) root" "nodes m root = nodes (mem s) root"
proof -
  have wf: "pt_wf s root []" using us by (simp add: uspace_def)
  show lf: "leaf m root = leaf (mem s) root" using table_frame(2) [OF wf so] by (rule ext)
  show nd: "nodes m root = nodes (mem s) root" by (rule table_frame(3) [OF wf so])
  show "uspace (s\<lparr>mem := m\<rparr>) root N"
    using us pt_wf_frame [OF wf so] lf nd by (simp add: uspace_def owns_def user_low_def accessible_def)
qed

lemma uspace_user_page:
  assumes us: "uspace s root N" and acc: "accessible (mem s) root va"
  shows "in_range 0 N va" "PTE2PA (leaf (mem s) root va) \<in> set (frames (leaf (mem s) root) 0 N)"
    "PTE2PA (leaf (mem s) root va) \<notin> nodes (mem s) root" "kpage s (PTE2PA (leaf (mem s) root va))"
proof -
  show r: "in_range 0 N va" using us acc by (simp add: uspace_def user_low_def)
  show f: "PTE2PA (leaf (mem s) root va) \<in> set (frames (leaf (mem s) root) 0 N)"
    using us r by (intro frame_of) (auto simp: uspace_def)
  show "PTE2PA (leaf (mem s) root va) \<notin> nodes (mem s) root" "kpage s (PTE2PA (leaf (mem s) root va))"
    using us f by (auto simp: uspace_def owns_def)
qed

text \<open>Memory after the bytes that f gives were written to the first k user addresses from dstva.\<close>

definition user_written :: "memory \<Rightarrow> memory \<Rightarrow> u64 \<Rightarrow> nat \<Rightarrow> u64 \<Rightarrow> nat \<Rightarrow> (u64 \<Rightarrow> u8) \<Rightarrow> bool" where
  "user_written m m' root N dstva k f \<longleftrightarrow>
     (\<forall>va. in_range 0 N va \<longrightarrow> ubyte m' root va =
        (if unat dstva \<le> unat va \<and> unat va < unat dstva + k then f (va - dstva) else ubyte m root va)) \<and>
     same_on (- set (frames (leaf m root) 0 N)) m' m"

lemma copyout_round:
  fixes n :: u32
  assumes us: "uspace s root N" and acc: "accessible (mem s) root dstva"
    and n: "unat dstva mod 4096 + unat n \<le> 4096" and src: "unat src + unat n < 2 ^ 64"
  defines "m \<equiv> memmove (mem s) (PTE2PA (leaf (mem s) root dstva) + (dstva - PGROUNDDOWN dstva)) src n"
  shows "user_written (mem s) m root N dstva (unat n) (\<lambda>d. mem s (src + d))" "uspace (s\<lparr>mem := m\<rparr>) root N"
    "leaf m root = leaf (mem s) root" "nodes m root = nodes (mem s) root"
proof -
  let ?L = "leaf (mem s) root" and ?d = "phys (mem s) root dstva"
  note up = uspace_user_page [OF us acc]
  have own: "owns s root [] 0 N" and N: "N * 4096 < 2 ^ 38" using us by (simp_all add: uspace_def)
  have off: "dstva - PGROUNDDOWN dstva = of_nat (unat dstva mod 4096)"
    by (rule u_eqI) (simp add: unat_page_offset unat_of_nat)
  have "unat ?d = unat (PTE2PA (?L dstva)) + unat dstva mod 4096"
    unfolding phys_def off by (rule unat_page_off) simp_all
  moreover have "unat (PTE2PA (?L dstva)) + 4096 \<le> 2 ^ 64" by (rule pg_aligned_room) simp
  ultimately have mw: "m = wr (mem s) ?d (rd (mem s) src (unat n))"
    unfolding m_def phys_def [symmetric] using src n by (intro memmove_wr) auto
  have ap: "m a = (if unat (a - ?d) < unat n then mem s (src + (a - ?d)) else mem s a)" for a
    using u32_le_64 [of n] by (simp add: mw wr_apply)
  have so: "same_on (- {PTE2PA (?L dstva)}) m (mem s)"
    unfolding same_on_def
  proof (intro allI impI)
    fix a assume "PGROUNDDOWN a \<in> - {PTE2PA (?L dstva)}"
    then have "\<not> unat (a - ?d) < unat n"
      using in_page_block [OF pg_aligned_PTE2PA n, of a "?L dstva"] off by (auto simp: phys_def)
    then show "m a = mem s a" by (simp add: ap)
  qed
  have son: "same_on (nodes (mem s) root) m (mem s)" using so by (rule same_on_mono) (use up(3) in auto)
  note uf = uspace_frame [OF us son]
  show "uspace (s\<lparr>mem := m\<rparr>) root N" "leaf m root = ?L" "nodes m root = nodes (mem s) root" by (fact uf)+
  have "ubyte m root va = (if unat dstva \<le> unat va \<and> unat va < unat dstva + unat n then mem s (src + (va - dstva))
      else ubyte (mem s) root va)" if "in_range 0 N va" for va
  proof -
    have "phys m root va = phys (mem s) root va" using uf(2) by (simp add: phys_def)
    then show ?thesis using ap phys_block [OF own N up(1) that n] by (simp add: ubyte_phys)
  qed
  moreover have "same_on (- set (frames ?L 0 N)) m (mem s)" using so by (rule same_on_mono) (use up(2) in auto)
  ultimately show "user_written (mem s) m root N dstva (unat n) (\<lambda>d. mem s (src + d))"
    by (simp add: user_written_def)
qed

lemma user_written_trans:
  assumes one: "user_written m m1 root N va1 n f" and two: "user_written m1 m2 root N va2 k g"
    and lf: "leaf m1 root = leaf m root" and va2: "k = 0 \<or> unat va2 = unat va1 + n \<and> va2 = va1 + of_nat n"
    and fg: "\<And>d. unat d < k \<Longrightarrow> g d = f (of_nat n + d)"
  shows "user_written m m2 root N va1 (n + k) f"
proof -
  have "ubyte m2 root va = (if unat va1 \<le> unat va \<and> unat va < unat va1 + (n + k) then f (va - va1) else ubyte m root va)"
    if r: "in_range 0 N va" for va
  proof (cases "k > 0 \<and> unat va2 \<le> unat va \<and> unat va < unat va2 + k")
    case True
    then have v: "unat va2 = unat va1 + n" "va2 = va1 + of_nat n" using va2 by auto
    have "unat (va - va2) = unat va - unat va2" using True by (intro unat_sub) (simp add: word_le_nat_alt)
    then have "g (va - va2) = f (of_nat n + (va - va2))" using True by (intro fg) auto
    then show ?thesis using True two r v by (auto simp: user_written_def algebra_simps)
  next
    case False
    then have "ubyte m2 root va = ubyte m1 root va" using two r by (auto simp: user_written_def)
    then show ?thesis using one r False va2 by (auto simp: user_written_def)
  qed
  moreover have "same_on (- set (frames (leaf m root) 0 N)) m2 m"
    by (rule same_on_trans [of _ _ m1]) (use one two lf in \<open>simp_all add: user_written_def\<close>)
  ultimately show ?thesis by (simp add: user_written_def)
qed

lemma chunk_next:
  assumes "0 < len"
  shows "unat (len - chunk va len) = unat len - unat (chunk va len)" "unat va mod 4096 + unat (chunk va len) \<le> 4096"
    "0 < unat (chunk va len)" "unat (ucast (chunk va len) :: u32) = unat (chunk va len)"
    "len - chunk va len \<noteq> 0 \<Longrightarrow> unat va + 4096 < 2 ^ 64 \<Longrightarrow> unat (PGROUNDDOWN va + PGSIZE) = unat va + unat (chunk va len)"
proof -
  have o: "unat va mod 4096 < 4096" by simp
  have len: "0 < unat len" using assms by (simp add: word_less_nat_alt)
  show a: "unat (len - chunk va len) = unat len - unat (chunk va len)"
    by (rule unat_sub) (simp add: word_le_nat_alt unat_chunk)
  show "unat va mod 4096 + unat (chunk va len) \<le> 4096" "0 < unat (chunk va len)" using o len by (simp_all add: unat_chunk)
  have "unat (chunk va len) \<le> 4096" by (simp add: unat_chunk min.coboundedI1)
  then have "unat (chunk va len) < 2 ^ 32" by simp
  then show "unat (ucast (chunk va len) :: u32) = unat (chunk va len)"
    by (simp add: unsigned_ucast_eq take_bit_nat_eq_self)
  show "unat (PGROUNDDOWN va + PGSIZE) = unat va + unat (chunk va len)" if "len - chunk va len \<noteq> 0" "unat va + 4096 < 2 ^ 64"
  proof -
    have "unat (len - chunk va len) \<noteq> 0" using that(1) by (simp add: unat_eq_zero)
    then have c: "unat (chunk va len) = 4096 - unat va mod 4096" using a by (simp add: unat_chunk min_def split: if_splits)
    have "unat (PGROUNDDOWN va) + 4096 < 2 ^ 64" using that(2) by (simp add: unat_PGROUNDDOWN)
    then have "unat (PGROUNDDOWN va + PGSIZE) = unat (PGROUNDDOWN va) + 4096" by (rule unat_add_PGSIZE)
    then show ?thesis using c o by (simp add: unat_PGROUNDDOWN)
  qed
qed

lemma kbuf_unchanged:
  assumes "kbuf s root N src (n + k)" and uw: "user_written (mem s) m root N va i f" and "unat d < k"
  shows "m (src + of_nat n + d) = mem s (src + of_nat n + d)"
proof -
  have eq: "src + of_nat n + d = src + of_nat (n + unat d)" by simp
  have "n + unat d < n + k" using assms(3) by simp
  then have "PGROUNDDOWN (src + of_nat n + d) \<in> - set (frames (leaf (mem s) root) 0 N)"
    using assms(1) unfolding kbuf_def eq by blast
  then show ?thesis using uw unfolding user_written_def by (blast dest: same_onD)
qed

lemma kbuf_suffix:
  assumes "kbuf s root N src (n + k)" and "leaf m root = leaf (mem s) root" and "nodes m root = nodes (mem s) root"
  shows "kbuf (s\<lparr>mem := m\<rparr>) root N (src + of_nat n) k"
proof -
  have "unat (src + of_nat n) = unat src + n"
    using assms(1) by (simp add: kbuf_def unat_word_ariths unat_of_nat)
  moreover have "PGROUNDDOWN (src + of_nat n + of_nat i) \<notin> nodes m root \<union> set (frames (leaf m root) 0 N)" if "i < k" for i
  proof -
    have eq: "src + of_nat n + of_nat i = src + of_nat (n + i)" by simp
    have "n + i < n + k" using that by simp
    then show ?thesis using assms unfolding kbuf_def eq by metis
  qed
  ultimately show ?thesis using assms(1) by (simp add: kbuf_def)
qed

lemma accessible_block:
  assumes "accessible m root va" and "unat va mod 4096 + i < 4096"
  shows "accessible m root (va + of_nat i)"
proof -
  have "PGROUNDDOWN va + of_nat (unat va mod 4096 + i) = (PGROUNDDOWN va + of_nat (unat va mod 4096)) + of_nat i"
    by (simp only: of_nat_add add.assoc)
  also have "\<dots> = va + of_nat i" by (simp only: addr_split [symmetric])
  finally have "PGROUNDDOWN (va + of_nat i) = PGROUNDDOWN va"
    using PGROUNDDOWN_page_off [OF pg_aligned_PGROUNDDOWN [of va] assms(2)] by (simp only:)
  then show ?thesis using assms(1) accessible_page by metis
qed

lemma copyout_prefix:
  assumes "uspace s root N" and "kbuf s root N src (unat len)"
  shows "\<exists>r s' k. copyout root dstva src len s = Inr (r, s') \<and> s' = s\<lparr>mem := mem s'\<rparr> \<and> uspace s' root N \<and>
    leaf (mem s') root = leaf (mem s) root \<and> user_written (mem s) (mem s') root N dstva k (\<lambda>d. mem s (src + d)) \<and>
    (\<forall>i < k. accessible (mem s) root (dstva + of_nat i)) \<and>
    (r = 0 \<and> k = unat len \<or> r = - 1 \<and> k < unat len \<and> \<not> accessible (mem s) root (dstva + of_nat k))"
  using assms
proof (induction "unat len" arbitrary: dstva src len s rule: less_induct)
  case less
  let ?m = "mem s"
  have wf: "pt_wf s root []" using less.prems(1) by (simp add: uspace_def)
  note wa = walkaddr_eq [OF wf, of "PGROUNDDOWN dstva", unfolded accessible_page leaf_page]
  show ?case
  proof (cases "len = 0")
    case True
    then show ?thesis using less.prems
      by (subst copyout.simps) (auto simp: user_written_def)
  next
    case False
    then have l0: "0 < len" "0 < unat len" by (simp_all add: word_gt_0 unat_gt_0)
    show ?thesis
    proof (cases "accessible ?m root dstva")
      case no: False
      then show ?thesis using wa l0 less.prems
        by (subst copyout.simps) (auto simp: user_written_def Let_def intro!: exI [of _ 0])
    next
      case acc: True
      let ?n = "chunk dstva len" and ?p = "PTE2PA (leaf ?m root dstva)"
      define m1 where "m1 = memmove ?m (?p + (dstva - PGROUNDDOWN dstva)) src (ucast ?n)"
      note cn = chunk_next [OF l0(1), of dstva]
      have p0: "?p \<noteq> 0" and r: "in_range 0 N dstva"
        using uspace_user_page [OF less.prems(1) acc] less.prems(1) kpage_nonzero by (auto simp: uspace_def)
      have nl: "unat ?n + unat (len - ?n) = unat len" using cn(1) by (simp add: unat_chunk)
      have kb: "kbuf s root N src (unat ?n + unat (len - ?n))" using less.prems(2) nl by simp
      have "unat src + unat ?n < 2 ^ 64" using kb by (simp add: kbuf_def)
      then have rd: "user_written ?m m1 root N dstva (unat ?n) (\<lambda>d. ?m (src + d))" "uspace (s\<lparr>mem := m1\<rparr>) root N"
        "leaf m1 root = leaf ?m root" "nodes m1 root = nodes ?m root"
        using copyout_round [OF less.prems(1) acc, of "ucast ?n" src] cn(2,4) unfolding m1_def by simp_all
      have step: "copyout root dstva src len s = copyout root (PGROUNDDOWN dstva + PGSIZE) (src + ?n) (len - ?n) (s\<lparr>mem := m1\<rparr>)"
        using wa acc p0 l0 by (subst copyout.simps) (simp add: Let_def m1_def)
      have kb1: "kbuf (s\<lparr>mem := m1\<rparr>) root N (src + ?n) (unat (len - ?n))" using kbuf_suffix [OF kb rd(3,4)] by simp
      obtain r' s' k where ih: "copyout root (PGROUNDDOWN dstva + PGSIZE) (src + ?n) (len - ?n) (s\<lparr>mem := m1\<rparr>) = Inr (r', s')"
        "s' = s\<lparr>mem := m1, mem := mem s'\<rparr>" "uspace s' root N" "leaf (mem s') root = leaf m1 root"
        "user_written m1 (mem s') root N (PGROUNDDOWN dstva + PGSIZE) k (\<lambda>d. m1 (src + ?n + d))"
        "r' = 0 \<and> k = unat (len - ?n) \<or> r' = - 1 \<and> k < unat (len - ?n) \<and> \<not> accessible m1 root (PGROUNDDOWN dstva + PGSIZE + of_nat k)"
        "\<forall>i < k. accessible m1 root (PGROUNDDOWN dstva + PGSIZE + of_nat i)"
        using less.hyps [OF _ rd(2) kb1, of "PGROUNDDOWN dstva + PGSIZE"] cn(1,3) l0(2) by auto
      have nxt: "PGROUNDDOWN dstva + PGSIZE = dstva + ?n \<and> unat (dstva + ?n) = unat dstva + unat ?n" if "len - ?n \<noteq> 0"
      proof -
        have "unat dstva < 2 ^ 38" using r less.prems(1) by (simp add: uspace_def in_range_def)
        then have "unat (PGROUNDDOWN dstva + PGSIZE) = unat dstva + unat ?n" "unat (dstva + ?n) = unat dstva + unat ?n"
          using cn(2) cn(5) [OF that] by (simp_all add: unat_word_ariths)
        then show ?thesis by (auto intro: u_eqI)
      qed
      have k: "k \<le> unat (len - ?n)" "k = 0 \<or> len - ?n \<noteq> 0" using ih(6) by auto
      have "user_written ?m (mem s') root N dstva (unat ?n + k) (\<lambda>d. ?m (src + d))"
      proof (rule user_written_trans [OF rd(1) ih(5) rd(3)])
        show "k = 0 \<or> unat (PGROUNDDOWN dstva + PGSIZE) = unat dstva + unat ?n \<and>
            PGROUNDDOWN dstva + PGSIZE = dstva + of_nat (unat ?n)" using k(2) nxt by auto
        show "m1 (src + ?n + d) = ?m (src + (of_nat (unat ?n) + d))" if "unat d < k" for d
          using kbuf_unchanged [OF kb rd(1), of d] that k(1) by (simp add: algebra_simps)
      qed
      moreover have "r' = 0 \<and> unat ?n + k = unat len \<or>
          r' = - 1 \<and> unat ?n + k < unat len \<and> \<not> accessible ?m root (dstva + of_nat (unat ?n + k))"
      proof -
        have "PGROUNDDOWN dstva + PGSIZE + of_nat k = dstva + of_nat (unat ?n + k)" if "k < unat (len - ?n)"
        proof -
          have "len - ?n \<noteq> 0" using that by (metis less_nat_zero_code unat_0)
          then show ?thesis using nxt by simp
        qed
        then have "\<not> accessible ?m root (dstva + of_nat (unat ?n + k))"
          if "k < unat (len - ?n)" "\<not> accessible m1 root (PGROUNDDOWN dstva + PGSIZE + of_nat k)"
          using that accessible_cong [OF rd(3)] by metis
        then show ?thesis using ih(6) nl by auto
      qed
      moreover have "accessible ?m root (dstva + of_nat i)" if i: "i < unat ?n + k" for i
      proof (cases "i < unat ?n")
        case True
        then show ?thesis using acc cn(2) by (intro accessible_block) auto
      next
        case False
        then have j: "i - unat ?n < k" "k \<noteq> 0" using i by auto
        then have "accessible m1 root (PGROUNDDOWN dstva + PGSIZE + of_nat (i - unat ?n))" using ih(7) by blast
        then have "accessible ?m root (dstva + ?n + of_nat (i - unat ?n))"
          using nxt k(2) j(2) accessible_cong [OF rd(3)] by metis
        moreover have "dstva + ?n + of_nat (i - unat ?n) = dstva + of_nat i"
          using False by (simp add: of_nat_diff)
        ultimately show ?thesis by (simp only:)
      qed
      ultimately show ?thesis using step ih(1-4) rd(3)
        by (intro exI [of _ r'] exI [of _ s'] exI [of _ "unat ?n + k"]) simp
    qed
  qed
qed

section \<open>copyin\<close>

text \<open>Memory after the first k user bytes from srcva were written to the kernel buffer dst.\<close>

definition kernel_written :: "memory \<Rightarrow> u64 \<Rightarrow> nat \<Rightarrow> (u64 \<Rightarrow> u8) \<Rightarrow> memory" where
  "kernel_written m dst k f = (\<lambda>a. if unat (a - dst) < k then f (a - dst) else m a)"

lemma kbuf_same_on:
  assumes kb: "kbuf s root N dst k" and n: "k \<le> k'" "kbuf s root N dst k'"
  shows "same_on (nodes (mem s) root \<union> set (frames (leaf (mem s) root) 0 N)) (kernel_written m dst k f) m"
  unfolding same_on_def
proof (intro allI impI)
  fix a assume p: "PGROUNDDOWN a \<in> nodes (mem s) root \<union> set (frames (leaf (mem s) root) 0 N)"
  have "\<not> unat (a - dst) < k"
  proof
    assume "unat (a - dst) < k"
    then have "PGROUNDDOWN (dst + of_nat (unat (a - dst))) \<notin> nodes (mem s) root \<union> set (frames (leaf (mem s) root) 0 N)"
      using kb unfolding kbuf_def by blast
    then show False using p by simp
  qed
  then show "kernel_written m dst k f a = m a" by (simp add: kernel_written_def)
qed

lemma kbuf_less: "kbuf s root N dst k' \<Longrightarrow> k \<le> k' \<Longrightarrow> kbuf s root N dst k"
  by (auto simp: kbuf_def)

lemma copyin_round:
  fixes n :: u32
  assumes us: "uspace s root N" and acc: "accessible (mem s) root srcva"
    and n: "unat srcva mod 4096 + unat n \<le> 4096" and kb: "kbuf s root N dst (unat n)"
  shows "memmove (mem s) dst (PTE2PA (leaf (mem s) root srcva) + (srcva - PGROUNDDOWN srcva)) n
    = kernel_written (mem s) dst (unat n) (\<lambda>d. ubyte (mem s) root (srcva + d))" (is "?m = _")
proof
  fix a
  let ?p = "phys (mem s) root srcva"
  note up = uspace_user_page [OF us acc]
  have own: "owns s root [] 0 N" and N: "N * 4096 < 2 ^ 38" using us by (simp_all add: uspace_def)
  have off: "srcva - PGROUNDDOWN srcva = of_nat (unat srcva mod 4096)"
    by (rule u_eqI) (simp add: unat_page_offset unat_of_nat)
  have "unat ?p = unat (PTE2PA (leaf (mem s) root srcva)) + unat srcva mod 4096"
    unfolding phys_def off by (rule unat_page_off) simp_all
  moreover have "unat (PTE2PA (leaf (mem s) root srcva)) < 0x88000000"
    using up(4) by (simp add: kpage_def word_less_nat_alt PHYSTOP_def KERNBASE_def)
  ultimately have "memmove (mem s) dst ?p n = wr (mem s) dst (rd (mem s) ?p (unat n))"
    using kb n by (intro memmove_wr) (auto simp: kbuf_def)
  then have ap: "?m a = (if unat (a - dst) < unat n then mem s (?p + (a - dst)) else mem s a)"
    using u32_le_64 [of n] by (simp add: wr_apply flip: phys_def)
  have "mem s (?p + d) = ubyte (mem s) root (srcva + d)" if d: "unat d < unat n" for d
  proof -
    have b: "unat srcva < 2 ^ 38" "unat srcva < N * 4096" using up(1) N by (simp_all add: in_range_def)
    then have u: "unat (srcva + d) = unat srcva + unat d" using d n by (simp add: unat_word_ariths)
    define q where "q = unat srcva div 4096"
    have q: "unat srcva = q * 4096 + unat srcva mod 4096" by (simp add: q_def)
    have "q * 4096 < N * 4096" using q b(2) by linarith
    then have "q < N" by simp
    then have "Suc q * 4096 \<le> N * 4096" by simp
    then have "in_range 0 N (srcva + d)" using u d n q by (simp add: in_range_def)
    then have "phys (mem s) root (srcva + d) - ?p = srcva + d - srcva"
      using phys_block(2) [OF own N up(1) _ n] u d by simp
    then have "phys (mem s) root (srcva + d) = ?p + d" by (simp add: algebra_simps)
    then show ?thesis by (simp add: ubyte_phys)
  qed
  then show "?m a = kernel_written (mem s) dst (unat n) (\<lambda>d. ubyte (mem s) root (srcva + d)) a"
    unfolding ap kernel_written_def by simp
qed

lemma kernel_written_trans:
  assumes m1: "m1 = kernel_written m dst n f" and "unat dst + (n + k) < 2 ^ 64" and fg: "\<And>d. unat d < k \<Longrightarrow> g d = f (of_nat n + d)"
  shows "kernel_written m1 (dst + of_nat n) k g = kernel_written m dst (n + k) f"
  unfolding m1
proof
  fix a
  let ?d = "a - dst"
  have n: "unat (of_nat n :: u64) = n" using assms(2) by (simp add: unat_of_nat)
  have eq: "a - (dst + of_nat n) = ?d - of_nat n" by simp
  have dd: "of_nat n + (?d - of_nat n) = ?d" by simp
  show "kernel_written (kernel_written m dst n f) (dst + of_nat n) k g a = kernel_written m dst (n + k) f a"
  proof (cases "n \<le> unat ?d")
    case True
    then have "unat (?d - of_nat n) = unat ?d - n" using n by (subst unat_sub) (simp_all add: word_le_nat_alt)
    then show ?thesis using True fg [of "?d - of_nat n"] unfolding kernel_written_def eq dd by auto
  next
    case False
    have "\<not> unat (?d - of_nat n) < k"
    proof
      assume "unat (?d - of_nat n) < k"
      then have "unat (of_nat n + (?d - of_nat n)) = n + unat (?d - of_nat n)"
        using n assms(2) by (simp only: unat_word_ariths) simp
      then show False using False unfolding dd by simp
    qed
    then show ?thesis using False unfolding kernel_written_def eq by simp
  qed
qed

lemma kernel_written_uspace:
  fixes f :: "u64 \<Rightarrow> u8"
  assumes us: "uspace s root N" and kb: "kbuf s root N dst k"
  defines "m \<equiv> kernel_written (mem s) dst k f"
  shows "uspace (s\<lparr>mem := m\<rparr>) root N" "leaf m root = leaf (mem s) root" "nodes m root = nodes (mem s) root"
    "accessible (mem s) root va \<Longrightarrow> ubyte m root va = ubyte (mem s) root va"
proof -
  have so: "same_on (nodes (mem s) root \<union> set (frames (leaf (mem s) root) 0 N)) m (mem s)"
    unfolding m_def by (rule kbuf_same_on [OF kb order_refl kb])
  then have "same_on (nodes (mem s) root) m (mem s)" by (rule same_on_mono) simp
  note uf = uspace_frame [OF us this]
  show "uspace (s\<lparr>mem := m\<rparr>) root N" "leaf m root = leaf (mem s) root" "nodes m root = nodes (mem s) root" by (fact uf)+
  assume "accessible (mem s) root va"
  then show "ubyte m root va = ubyte (mem s) root va"
    using uspace_user_page(2) [OF us] uf(2) by (intro ubyte_frame [OF so]) auto
qed

text \<open>All bytes of the page up to the next boundary are accessible when the first one is.\<close>

lemma copyin_prefix:
  assumes "uspace s root N" and "kbuf s root N dst (unat len)"
  shows "\<exists>r k. copyin root dst srcva len s =
      Inr (r, s\<lparr>mem := kernel_written (mem s) dst k (\<lambda>d. ubyte (mem s) root (srcva + d))\<rparr>) \<and>
    (\<forall>i < k. accessible (mem s) root (srcva + of_nat i)) \<and>
    (r = 0 \<and> k = unat len \<or> r = - 1 \<and> k < unat len \<and> \<not> accessible (mem s) root (srcva + of_nat k))"
  using assms
proof (induction "unat len" arbitrary: srcva dst len s rule: less_induct)
  case less
  let ?m = "mem s"
  have wf: "pt_wf s root []" using less.prems(1) by (simp add: uspace_def)
  note wa = walkaddr_eq [OF wf, of "PGROUNDDOWN srcva", unfolded accessible_page leaf_page]
  have triv: "kernel_written ?m dst 0 f = ?m" for f by (rule ext) (simp add: kernel_written_def)
  show ?case
  proof (cases "len = 0 \<or> \<not> accessible ?m root srcva")
    case True
    then show ?thesis using wa triv
      by (subst copyin.simps) (auto simp: Let_def word_gt_0 unat_gt_0 intro!: exI [of _ "0::nat"])
  next
    case False
    then have l0: "0 < len" "0 < unat len" and acc: "accessible ?m root srcva" by (simp_all add: word_gt_0 unat_gt_0)
    let ?n = "chunk srcva len" and ?p = "PTE2PA (leaf ?m root srcva)" and ?f = "\<lambda>d. ubyte ?m root (srcva + d)"
    define m1 where "m1 = kernel_written ?m dst (unat ?n) ?f"
    note cn = chunk_next [OF l0(1), of srcva]
    note up = uspace_user_page [OF less.prems(1) acc]
    have p0: "?p \<noteq> 0" using up(4) less.prems(1) kpage_nonzero by (auto simp: uspace_def)
    have nl: "unat ?n + unat (len - ?n) = unat len" using cn(1) by (simp add: unat_chunk)
    have kb: "kbuf s root N dst (unat ?n + unat (len - ?n))" using less.prems(2) nl by simp
    have kn: "kbuf s root N dst (unat ?n)" using kb by (rule kbuf_less) simp
    have step: "copyin root dst srcva len s = copyin root (dst + ?n) (PGROUNDDOWN srcva + PGSIZE) (len - ?n) (s\<lparr>mem := m1\<rparr>)"
      using wa acc p0 l0 copyin_round [OF less.prems(1) acc, of "ucast ?n" dst] kn cn(2,4)
      by (subst copyin.simps) (simp add: Let_def m1_def)
    note ku = kernel_written_uspace [OF less.prems(1) kn, where f = ?f, folded m1_def]
    have kb1: "kbuf (s\<lparr>mem := m1\<rparr>) root N (dst + ?n) (unat (len - ?n))" using kbuf_suffix [OF kb ku(2,3)] by simp
    let ?va = "PGROUNDDOWN srcva + PGSIZE"
    obtain r k where ih: "copyin root (dst + ?n) ?va (len - ?n) (s\<lparr>mem := m1\<rparr>) =
        Inr (r, s\<lparr>mem := kernel_written m1 (dst + ?n) k (\<lambda>d. ubyte m1 root (?va + d))\<rparr>)"
      "\<forall>i < k. accessible m1 root (?va + of_nat i)"
      "r = 0 \<and> k = unat (len - ?n) \<or> r = - 1 \<and> k < unat (len - ?n) \<and> \<not> accessible m1 root (?va + of_nat k)"
      using less.hyps [OF _ ku(1) kb1, of ?va] cn(1,3) l0(2) by auto
    note ac = accessible_cong [OF ku(2)]
    have k: "k \<le> unat (len - ?n)" using ih(3) by auto
    have va: "?va = srcva + ?n" if "len - ?n \<noteq> 0"
    proof -
      have "unat srcva < 2 ^ 38" using up(1) less.prems(1) by (simp add: uspace_def in_range_def)
      then have "unat ?va = unat (srcva + ?n)" using cn(2) cn(5) [OF that] by (simp add: unat_word_ariths)
      then show ?thesis by (rule u_eqI)
    qed
    have vk: "?va + of_nat i = srcva + of_nat (unat ?n + i)" if "i < unat (len - ?n)" for i
    proof -
      have "len - ?n \<noteq> 0" using that by (metis less_nat_zero_code unat_0)
      then show ?thesis using va by simp
    qed
    have "kernel_written m1 (dst + of_nat (unat ?n)) k (\<lambda>d. ubyte m1 root (?va + d)) = kernel_written ?m dst (unat ?n + k) ?f"
    proof (rule kernel_written_trans [OF m1_def])
      show "unat dst + (unat ?n + k) < 2 ^ 64" using kb k by (simp add: kbuf_def)
      show "ubyte m1 root (?va + d) = ?f (of_nat (unat ?n) + d)" if d: "unat d < k" for d
      proof -
        have "accessible m1 root (?va + of_nat (unat d))" using ih(2) d by blast
        then have "accessible ?m root (?va + d)" using ac by simp
        then have "ubyte m1 root (?va + d) = ubyte ?m root (?va + d)" by (rule ku(4))
        moreover have "?va + d = srcva + (of_nat (unat ?n) + d)" using vk [of "unat d"] d k by simp
        ultimately show ?thesis by (simp only:)
      qed
    qed
    moreover have "accessible ?m root (srcva + of_nat i)" if "i < unat ?n + k" for i
    proof (cases "i < unat ?n")
      case True
      then show ?thesis using acc cn(2) by (intro accessible_block) auto
    next
      case False
      then have j: "i - unat ?n < k" "i = unat ?n + (i - unat ?n)" using that by auto
      then have "accessible m1 root (?va + of_nat (i - unat ?n))" using ih(2) by blast
      moreover have "?va + of_nat (i - unat ?n) = srcva + of_nat i" using vk [of "i - unat ?n"] j k by (simp only:) 
      ultimately show ?thesis using ac by (simp only:)
    qed
    moreover have "r = 0 \<and> unat ?n + k = unat len \<or>
        r = - 1 \<and> unat ?n + k < unat len \<and> \<not> accessible ?m root (srcva + of_nat (unat ?n + k))"
    proof -
      have "\<not> accessible ?m root (srcva + of_nat (unat ?n + k))"
        if "k < unat (len - ?n)" "\<not> accessible m1 root (?va + of_nat k)"
        using that vk [of k] ac by metis
      then show ?thesis using ih(3) nl by auto
    qed
    ultimately show ?thesis using step ih(1) by (intro exI [of _ r] exI [of _ "unat ?n + k"]) simp
  qed
qed

section \<open>Properties\<close>

text \<open>C14: copyout writes the bytes of the kernel buffer to the user addresses from dstva, one page at a
  time through the page table, and only to addresses that the process may access. It copies
  everything and returns 0, or stops at the first address without user access and returns -1;
  no other user byte, no page-table entry and no byte outside the process's frames changes.\<close>

theorem copyout_correct:
  assumes "uspace s root N" and "kbuf s root N src (unat len)"
  shows "\<exists>r s' k. copyout root dstva src len s = Inr (r, s') \<and> s' = s\<lparr>mem := mem s'\<rparr> \<and> uspace s' root N \<and>
    leaf (mem s') root = leaf (mem s) root \<and> user_written (mem s) (mem s') root N dstva k (\<lambda>d. mem s (src + d)) \<and>
    (\<forall>i < k. accessible (mem s) root (dstva + of_nat i)) \<and>
    (r = 0 \<and> k = unat len \<or> r = - 1 \<and> k < unat len \<and> \<not> accessible (mem s) root (dstva + of_nat k))"
  by (rule copyout_prefix [OF assms])

text \<open>C15: copyin reads user memory only through accessible addresses: it writes the user bytes from
  srcva to the kernel buffer and nothing else, all of them and returns 0, or those before the
  first address without user access and returns -1.\<close>

theorem copyin_correct:
  assumes "uspace s root N" and "kbuf s root N dst (unat len)"
  shows "\<exists>r k. copyin root dst srcva len s =
      Inr (r, s\<lparr>mem := kernel_written (mem s) dst k (\<lambda>d. ubyte (mem s) root (srcva + d))\<rparr>) \<and>
    (\<forall>i < k. accessible (mem s) root (srcva + of_nat i)) \<and>
    (r = 0 \<and> k = unat len \<or> r = - 1 \<and> k < unat len \<and> \<not> accessible (mem s) root (srcva + of_nat k))"
  by (rule copyin_prefix [OF assms])

end
