(* ===== verification/Proc.thy ===== *)
theory Proc
  imports Vm_Copy
begin

text \<open>
  kernel/proc.c, the part below the file system: the process table, allocation and freeing
  of processes, sleep and wakeup, the scheduler, wait and kill.

  The context switch swtch is assembly. A function that may block takes it as its first
  argument: sw is what happens to the state between the moment a kernel thread
  switches to the scheduler of its hart and the moment the scheduler switches back.
  A kernel pointer that is null and dereferenced faults, and the trap handler panics with
  ''kerneltrap''.
\<close>

section \<open>State\<close>

datatype procstate = UNUSED | SLEEPING | RUNNABLE | RUNNING | ZOMBIE

record context_regs =
  ctx_ra :: u64
  ctx_sp :: u64
  ctx_s :: "u64 list"

record proc =
  p_state :: procstate
  p_parent :: "nat option"
  p_chan :: "chan option"
  p_killed :: int
  p_xstate :: int
  p_pid :: int
  p_mask :: int
  p_kstack :: u64
  p_sz :: u64
  p_pagetable :: u64
  p_trapframe :: u64
  p_context :: context_regs
  p_ofile :: "nat option list"
  p_cwd :: "nat option"
  p_name :: "u8 list"

record kproc = kvm +
  procs :: "nat \<Rightarrow> proc"
  initproc :: "nat option"
  nextpid :: int
  ticks :: u32
  k_forkret :: u64
  k_initcode :: u64

text \<open>Offsets of the fields of struct trapframe that the kernel uses.\<close>

definition tf_kernel_satp :: u64 where "tf_kernel_satp = 0"
definition tf_kernel_sp :: u64 where "tf_kernel_sp = 8"
definition tf_kernel_trap :: u64 where "tf_kernel_trap = 16"
definition tf_epc :: u64 where "tf_epc = 24"
definition tf_kernel_hartid :: u64 where "tf_kernel_hartid = 32"
definition tf_sp :: u64 where "tf_sp = 48"
definition tf_a :: "nat \<Rightarrow> u64" where "tf_a n = 112 + 8 * of_nat n"
definition sizeof_trapframe :: nat where "sizeof_trapframe = 288"

definition get_proc :: "nat \<Rightarrow> (proc \<Rightarrow> 'x) \<Rightarrow> ('a kproc_scheme, 'x) km" where
  "get_proc p f = kget (\<lambda>s. f (procs s p))"

definition upd_proc :: "nat \<Rightarrow> (proc \<Rightarrow> proc) \<Rightarrow> ('a kproc_scheme, unit) km" where
  "upd_proc p f = kmod (\<lambda>s. s\<lparr>procs := (procs s)(p := f (procs s p))\<rparr>)"

definition nonnull :: "'x option \<Rightarrow> ('s, 'x) km" where
  "nonnull q = (case q of None \<Rightarrow> kpanic ''kerneltrap'' | Some x \<Rightarrow> kret x)"

definition curproc :: "('a kproc_scheme, nat) km" where
  "curproc = kbind myproc nonnull"

definition tf_get :: "nat \<Rightarrow> u64 \<Rightarrow> ('a kproc_scheme, u64) km" where
  "tf_get p off = kget (\<lambda>s. load64 (mem s) (p_trapframe (procs s p) + off))"

definition tf_set :: "nat \<Rightarrow> u64 \<Rightarrow> u64 \<Rightarrow> ('a kproc_scheme, unit) km" where
  "tf_set p off v = kbind (get_proc p p_trapframe) (\<lambda>tf. poke (tf + off) v)"

text \<open>The bytes of an int in memory, and the int of four bytes.\<close>

definition int_bytes :: "int \<Rightarrow> u8 list" where
  "int_bytes v = nat_le 4 (nat (v mod 2 ^ 32))"

section \<open>Copies between user memory and kernel objects\<close>

text \<open>
  copyout and copyin for a kernel object that is not part of the byte memory (a local
  variable, a field of a table): the bytes of the object stand in place of its address.
\<close>

definition page_room :: "u64 \<Rightarrow> nat" where
  "page_room va = 4096 - unat (va - PGROUNDDOWN va)"

lemma page_room_pos: "0 < page_room va"
  by (simp add: page_room_def unat_page_offset)

function copyout_obj :: "u64 \<Rightarrow> u64 \<Rightarrow> u8 list \<Rightarrow> ('a kheap_scheme, int) km" where
  "copyout_obj pagetable dstva bs s =
     (if bs = [] then Inr (0, s)
      else let va0 = PGROUNDDOWN dstva in
        (case walkaddr pagetable va0 s of Inl e \<Rightarrow> Inl e
         | Inr (pa0, s1) \<Rightarrow>
             if pa0 = 0 then Inr (- 1, s1)
             else let n = min (page_room dstva) (length bs);
                s2 = s1\<lparr>mem := wr (mem s1) (pa0 + (dstva - va0)) (take n bs)\<rparr> in
               copyout_obj pagetable (va0 + PGSIZE) (drop n bs) s2))"
  by pat_completeness auto
termination
  by (relation "measure (\<lambda>(_, _, bs, _). length bs)") (auto simp: page_room_pos)

function copyin_obj :: "u64 \<Rightarrow> u64 \<Rightarrow> nat \<Rightarrow> ('a kheap_scheme, int \<times> u8 list) km" where
  "copyin_obj pagetable srcva len s =
     (if len = 0 then Inr ((0, []), s)
      else let va0 = PGROUNDDOWN srcva in
        (case walkaddr pagetable va0 s of Inl e \<Rightarrow> Inl e
         | Inr (pa0, s1) \<Rightarrow>
             if pa0 = 0 then Inr ((- 1, []), s1)
             else let n = min (page_room srcva) len in
               (case copyin_obj pagetable (va0 + PGSIZE) (len - n) s1 of Inl e \<Rightarrow> Inl e
                | Inr ((r, bs), s2) \<Rightarrow> Inr ((r, rd (mem s1) (pa0 + (srcva - va0)) n @ bs), s2))))"
  by pat_completeness auto
termination
  by (relation "measure (\<lambda>(_, _, len, _). len)") (auto simp: page_room_pos)

text \<open>The bytes of one page up to and including a zero, at most n of them, and whether the zero was found.\<close>

fun upto_nul :: "memory \<Rightarrow> u64 \<Rightarrow> nat \<Rightarrow> bool \<times> u8 list" where
  "upto_nul m p 0 = (False, [])"
| "upto_nul m p (Suc n) =
     (if m p = 0 then (True, [0])
      else case upto_nul m (p + 1) n of (got, bs) \<Rightarrow> (got, m p # bs))"

function copyinstr_obj :: "u64 \<Rightarrow> u64 \<Rightarrow> nat \<Rightarrow> ('a kheap_scheme, int \<times> u8 list) km" where
  "copyinstr_obj pagetable srcva maxn s =
     (if maxn = 0 then Inr ((- 1, []), s)
      else let va0 = PGROUNDDOWN srcva in
        (case walkaddr pagetable va0 s of Inl e \<Rightarrow> Inl e
         | Inr (pa0, s1) \<Rightarrow>
             if pa0 = 0 then Inr ((- 1, []), s1)
             else let n = min (page_room srcva) maxn in
               (case upto_nul (mem s1) (pa0 + (srcva - va0)) n of
                  (True, bs) \<Rightarrow> Inr ((0, bs), s1)
                | (False, bs) \<Rightarrow>
                    (case copyinstr_obj pagetable (va0 + PGSIZE) (maxn - n) s1 of Inl e \<Rightarrow> Inl e
                     | Inr ((r, bs'), s2) \<Rightarrow> Inr ((r, bs @ bs'), s2)))))"
  by pat_completeness auto
termination
  by (relation "measure (\<lambda>(_, _, maxn, _). maxn)") (auto simp: page_room_pos)

declare copyout_obj.simps [simp del] copyin_obj.simps [simp del] copyinstr_obj.simps [simp del]

text \<open>
  Where a copy goes to or comes from: a user address, a kernel address in the byte memory, or
  a kernel object outside it, whose bytes are then handed over.
\<close>

datatype copy_dst = UserDst u64 | KernDst u64 | ObjDst
datatype copy_src = UserSrc u64 | KernSrc u64 | ObjSrc "u8 list"

definition either_copyout :: "copy_dst \<Rightarrow> u8 list \<Rightarrow> ('a kproc_scheme, int) km" where
  "either_copyout dst bs =
     kbind myproc (\<lambda>q.
     (case dst of
        UserDst va \<Rightarrow> kbind (nonnull q) (\<lambda>p. kbind (get_proc p p_pagetable) (\<lambda>pt. copyout_obj pt va bs))
      | KernDst pa \<Rightarrow> kseq (kmod (\<lambda>s. s\<lparr>mem := wr (mem s) pa bs\<rparr>)) (kret 0)
      | ObjDst \<Rightarrow> kret 0))"

definition either_copyin :: "copy_src \<Rightarrow> nat \<Rightarrow> ('a kproc_scheme, int \<times> u8 list) km" where
  "either_copyin src len =
     kbind myproc (\<lambda>q.
     (case src of
        UserSrc va \<Rightarrow> kbind (nonnull q) (\<lambda>p. kbind (get_proc p p_pagetable) (\<lambda>pt. copyin_obj pt va len))
      | KernSrc pa \<Rightarrow> kget (\<lambda>s. (0, rd (mem s) pa len))
      | ObjSrc bs \<Rightarrow> kret (0, take len bs)))"

text \<open>Moving on by n bytes in a destination or source.\<close>

fun dst_add :: "copy_dst \<Rightarrow> nat \<Rightarrow> copy_dst" where
  "dst_add (UserDst a) n = UserDst (a + of_nat n)"
| "dst_add (KernDst a) n = KernDst (a + of_nat n)"
| "dst_add ObjDst n = ObjDst"

fun src_add :: "copy_src \<Rightarrow> nat \<Rightarrow> copy_src" where
  "src_add (UserSrc a) n = UserSrc (a + of_nat n)"
| "src_add (KernSrc a) n = KernSrc (a + of_nat n)"
| "src_add (ObjSrc bs) n = ObjSrc (drop n bs)"

section \<open>The process table\<close>

definition procinit :: "('a kproc_scheme, unit) km" where
  "procinit =
     kseq (initlock PidLock ''nextpid'') (
     kseq (kfor [0..<NPROC] (\<lambda>p.
       kseq (initlock (ProcLock p) ''proc'') (
       kbind kalloc (\<lambda>pa.
       if pa = 0 then kpanic ''kalloc''
       else let va = KSTACK p in
         kseq (kvmmap va pa PGSIZE (PTE_R OR PTE_W)) (
         upd_proc p (\<lambda>q. q\<lparr>p_kstack := va\<rparr>)))))) (
     kvminithart))"

definition allocpid :: "('a kproc_scheme, int) km" where
  "allocpid =
     kseq (acquire PidLock) (
     kbind (kget nextpid) (\<lambda>pid.
     kseq (kmod (\<lambda>s. s\<lparr>nextpid := int32 (nextpid s + 1)\<rparr>)) (
     kseq (release PidLock) (
     kret pid))))"

text \<open>A page table has three levels, so that uvmfree recurses to depth 3.\<close>

definition PT_DEPTH :: nat where "PT_DEPTH = 3"

definition proc_pagetable :: "nat \<Rightarrow> ('a kproc_scheme, u64) km" where
  "proc_pagetable p =
     kbind uvmcreate (\<lambda>pt.
     if pt = 0 then kret 0
     else kbind (kget k_trampoline) (\<lambda>trampoline.
       kbind (mappages pt TRAMPOLINE PGSIZE trampoline (PTE_R OR PTE_X)) (\<lambda>r.
       if r < 0 then kseq (uvmfree PT_DEPTH pt 0) (kret 0)
       else kbind (get_proc p p_trapframe) (\<lambda>tf.
         kbind (mappages pt TRAPFRAME PGSIZE tf (PTE_R OR PTE_W)) (\<lambda>r.
         if r < 0 then
           kseq (uvmunmap pt TRAMPOLINE 1 False) (
           kseq (uvmfree PT_DEPTH pt 0) (kret 0))
         else kret pt)))))"

definition proc_freepagetable :: "u64 \<Rightarrow> u64 \<Rightarrow> ('a kproc_scheme, unit) km" where
  "proc_freepagetable pt sz =
     kseq (uvmunmap pt TRAMPOLINE 1 False) (
     kseq (uvmunmap pt TRAPFRAME 1 False) (
     uvmfree PT_DEPTH pt sz))"

definition freeproc :: "nat \<Rightarrow> ('a kproc_scheme, unit) km" where
  "freeproc p =
     kbind (get_proc p p_trapframe) (\<lambda>tf.
     kseq (if tf \<noteq> 0 then kfree tf else kret ()) (
     kseq (upd_proc p (\<lambda>q. q\<lparr>p_trapframe := 0\<rparr>)) (
     kbind (get_proc p p_pagetable) (\<lambda>pt.
     kbind (get_proc p p_sz) (\<lambda>sz.
     kseq (if pt \<noteq> 0 then proc_freepagetable pt sz else kret ()) (
     upd_proc p (\<lambda>q. q\<lparr>p_pagetable := 0, p_sz := 0, p_pid := 0, p_parent := None,
       p_name := (p_name q)[0 := 0], p_chan := None, p_killed := 0, p_xstate := 0,
       p_state := UNUSED\<rparr>)))))))"

definition allocproc :: "('a kproc_scheme, nat option) km" where
  "allocproc =
     kbind (kfind [0..<NPROC] (\<lambda>p.
       kseq (acquire (ProcLock p)) (
       kbind (get_proc p p_state) (\<lambda>st.
       if st = UNUSED then kret (Some p)
       else kseq (release (ProcLock p)) (kret None))))) (\<lambda>found.
     case found of None \<Rightarrow> kret None
     | Some p \<Rightarrow>
         kbind allocpid (\<lambda>pid.
         kseq (upd_proc p (\<lambda>q. q\<lparr>p_pid := pid\<rparr>)) (
         kbind kalloc (\<lambda>tf.
         kseq (upd_proc p (\<lambda>q. q\<lparr>p_trapframe := tf\<rparr>)) (
         if tf = 0 then kseq (release (ProcLock p)) (kret None)
         else kbind (proc_pagetable p) (\<lambda>pt.
           kseq (upd_proc p (\<lambda>q. q\<lparr>p_pagetable := pt\<rparr>)) (
           if pt = 0 then
             kseq (freeproc p) (
             kseq (release (ProcLock p)) (kret None))
           else kbind (kget k_forkret) (\<lambda>forkret.
             kseq (upd_proc p (\<lambda>q. q\<lparr>p_context :=
               \<lparr>ctx_ra = forkret, ctx_sp = p_kstack q + PGSIZE, ctx_s = replicate 12 0\<rparr>\<rparr>)) (
             kret (Some p))))))))))"

text \<open>The size of the process passes through a 32-bit unsigned variable.\<close>

definition growproc :: "int \<Rightarrow> ('a kproc_scheme, int) km" where
  "growproc n =
     kbind curproc (\<lambda>p.
     kbind (get_proc p p_pagetable) (\<lambda>pt.
     kbind (get_proc p p_sz) (\<lambda>psz.
     let sz = (ucast psz :: u32) in
     if n > 0 then
       kbind (uvmalloc pt (ucast sz) (ucast (sz + of_int n))) (\<lambda>r.
       let sz' = (ucast r :: u32) in
       if sz' = 0 then kret (- 1)
       else kseq (upd_proc p (\<lambda>q. q\<lparr>p_sz := ucast sz'\<rparr>)) (kret 0))
     else if n < 0 then
       kbind (uvmdealloc pt (ucast sz) (ucast (sz + of_int n))) (\<lambda>r.
       kseq (upd_proc p (\<lambda>q. q\<lparr>p_sz := ucast (ucast r :: u32)\<rparr>)) (kret 0))
     else kseq (upd_proc p (\<lambda>q. q\<lparr>p_sz := ucast sz\<rparr>)) (kret 0))))"

section \<open>Sleeping, waking and scheduling\<close>

definition sched :: "('a kproc_scheme, unit) km \<Rightarrow> ('a kproc_scheme, unit) km" where
  "sched sw =
     kbind curproc (\<lambda>p.
     kbind (holding (ProcLock p)) (\<lambda>h.
     if \<not> h then kpanic ''sched p->lock''
     else kbind mycpu (\<lambda>c.
       if noff c \<noteq> 1 then kpanic ''sched locks''
       else kbind (get_proc p p_state) (\<lambda>st.
         if st = RUNNING then kpanic ''sched running''
         else kbind intr_get (\<lambda>on.
           if on then kpanic ''sched interruptible''
           else kbind mycpu (\<lambda>c.
             kseq sw (
             upd_mycpu (\<lambda>c'. c'\<lparr>intena := intena c\<rparr>))))))))"

definition yield :: "('a kproc_scheme, unit) km \<Rightarrow> ('a kproc_scheme, unit) km" where
  "yield sw =
     kbind curproc (\<lambda>p.
     kseq (acquire (ProcLock p)) (
     kseq (upd_proc p (\<lambda>q. q\<lparr>p_state := RUNNABLE\<rparr>)) (
     kseq (sched sw) (
     release (ProcLock p)))))"

definition sleep :: "('a kproc_scheme, unit) km \<Rightarrow> chan \<Rightarrow> lock_id \<Rightarrow> ('a kproc_scheme, unit) km" where
  "sleep sw ch lk =
     kbind curproc (\<lambda>p.
     kseq (if lk \<noteq> ProcLock p then kseq (acquire (ProcLock p)) (release lk) else kret ()) (
     kseq (upd_proc p (\<lambda>q. q\<lparr>p_chan := Some ch, p_state := SLEEPING\<rparr>)) (
     kseq (sched sw) (
     kseq (upd_proc p (\<lambda>q. q\<lparr>p_chan := None\<rparr>)) (
     if lk \<noteq> ProcLock p then kseq (release (ProcLock p)) (acquire lk) else kret ())))))"

definition wakeup :: "chan \<Rightarrow> ('a kproc_scheme, unit) km" where
  "wakeup ch =
     kfor [0..<NPROC] (\<lambda>p.
       kseq (acquire (ProcLock p)) (
       kseq (upd_proc p (\<lambda>q.
         if p_state q = SLEEPING \<and> p_chan q = Some ch then q\<lparr>p_state := RUNNABLE\<rparr> else q)) (
       release (ProcLock p))))"

definition wakeup1 :: "nat \<Rightarrow> ('a kproc_scheme, unit) km" where
  "wakeup1 p =
     kbind (holding (ProcLock p)) (\<lambda>h.
     if \<not> h then kpanic ''wakeup1''
     else upd_proc p (\<lambda>q.
       if p_chan q = Some (ChProc p) \<and> p_state q = SLEEPING then q\<lparr>p_state := RUNNABLE\<rparr> else q))"

definition kill :: "int \<Rightarrow> ('a kproc_scheme, int) km" where
  "kill pid =
     kbind (kfind [0..<NPROC] (\<lambda>p.
       kseq (acquire (ProcLock p)) (
       kbind (get_proc p p_pid) (\<lambda>ppid.
       if ppid = pid then
         kseq (upd_proc p (\<lambda>q. (if p_state q = SLEEPING then q\<lparr>p_state := RUNNABLE\<rparr> else q)\<lparr>p_killed := 1\<rparr>)) (
         kseq (release (ProcLock p)) (kret (Some (0::int))))
       else kseq (release (ProcLock p)) (kret None))))) (\<lambda>r.
     kret (case r of None \<Rightarrow> - 1 | Some x \<Rightarrow> x))"

text \<open>
  One pass of the scheduler over the process table, with the flag found; run p switches
  into process p and back.
\<close>

fun sched_pass :: "(nat \<Rightarrow> ('a kproc_scheme, unit) km) \<Rightarrow> nat list \<Rightarrow> bool \<Rightarrow> ('a kproc_scheme, bool) km" where
  "sched_pass run [] found = kret found"
| "sched_pass run (p # ps) found =
     kseq (acquire (ProcLock p)) (
     kbind (get_proc p p_state) (\<lambda>st.
     if st = RUNNABLE then
       kseq (upd_proc p (\<lambda>q. q\<lparr>p_state := RUNNING\<rparr>)) (
       kseq (upd_mycpu (\<lambda>c. c\<lparr>cpu_proc := Some p\<rparr>)) (
       kseq (run p) (
       kseq (upd_mycpu (\<lambda>c. c\<lparr>cpu_proc := None\<rparr>)) (
       kseq (release (ProcLock p)) (
       sched_pass run ps True)))))
     else kseq (release (ProcLock p)) (sched_pass run ps found)))"

text \<open>The wait for an interrupt (wfi) is the argument wfi.\<close>

definition scheduler ::
  "(nat \<Rightarrow> ('a kproc_scheme, unit) km) \<Rightarrow> ('a kproc_scheme, unit) km \<Rightarrow> ('a kproc_scheme, 'r) km" where
  "scheduler run wfi =
     kseq (upd_mycpu (\<lambda>c. c\<lparr>cpu_proc := None\<rparr>)) (
     kloop (
       kseq intr_on (
       kbind (sched_pass run [0..<NPROC] False) (\<lambda>found.
       kseq (if \<not> found then kseq intr_on wfi else kret ()) (kret None)))))"

text \<open>
  The scan of the process table in wait: Some result when a zombie child was found, else
  whether there are children.
\<close>

fun wait_scan :: "nat \<Rightarrow> u64 \<Rightarrow> nat list \<Rightarrow> bool \<Rightarrow> ('a kproc_scheme, bool + int) km" where
  "wait_scan p addr [] havekids = kret (Inl havekids)"
| "wait_scan p addr (np # nps) havekids =
     kbind (get_proc np p_parent) (\<lambda>par.
     if par \<noteq> Some p then wait_scan p addr nps havekids
     else kseq (acquire (ProcLock np)) (
       kbind (get_proc np p_state) (\<lambda>st.
       if st = ZOMBIE then
         kbind (get_proc np p_pid) (\<lambda>pid.
         kbind (get_proc np p_xstate) (\<lambda>xstate.
         kbind (get_proc p p_pagetable) (\<lambda>pt.
         kbind (if addr \<noteq> 0 then copyout_obj pt addr (int_bytes xstate) else kret 0) (\<lambda>r.
         if r < 0 then
           kseq (release (ProcLock np)) (kseq (release (ProcLock p)) (kret (Inr (- 1))))
         else
           kseq (freeproc np) (
           kseq (release (ProcLock np)) (
           kseq (release (ProcLock p)) (kret (Inr pid))))))))
       else kseq (release (ProcLock np)) (wait_scan p addr nps True))))"

definition wait :: "('a kproc_scheme, unit) km \<Rightarrow> u64 \<Rightarrow> ('a kproc_scheme, int) km" where
  "wait sw addr =
     kbind curproc (\<lambda>p.
     kseq (acquire (ProcLock p)) (
     kloop (
       kbind (wait_scan p addr [0..<NPROC] False) (\<lambda>r.
       case r of Inr x \<Rightarrow> kret (Some x)
       | Inl havekids \<Rightarrow>
           kbind (get_proc p p_killed) (\<lambda>killed.
           if \<not> havekids \<or> killed \<noteq> 0 then kseq (release (ProcLock p)) (kret (Some (- 1)))
           else kseq (sleep sw (ChProc p) (ProcLock p)) (kret None))))))"

definition reparent :: "nat \<Rightarrow> ('a kproc_scheme, unit) km" where
  "reparent p =
     kfor [0..<NPROC] (\<lambda>pp.
       kbind (get_proc pp p_parent) (\<lambda>par.
       if par = Some p then
         kseq (acquire (ProcLock pp)) (
         kbind (kget initproc) (\<lambda>ip.
         kseq (upd_proc pp (\<lambda>q. q\<lparr>p_parent := ip\<rparr>)) (
         release (ProcLock pp))))
       else kret ()))"

section \<open>Counters for sysinfo\<close>

definition unused_pro :: "sysinfo \<Rightarrow> ('a kproc_scheme, int \<times> sysinfo) km" where
  "unused_pro info =
     kget (\<lambda>s. (0, info\<lparr>nproc := of_nat (length (filter (\<lambda>p. p_state (procs s p) = UNUSED) [0..<NPROC]))\<rparr>))"

definition usable_file :: "sysinfo \<Rightarrow> ('a kproc_scheme, int \<times> sysinfo) km" where
  "usable_file info =
     kbind curproc (\<lambda>p.
     kbind (get_proc p p_ofile) (\<lambda>ofile.
     kret (0, info\<lparr>freefd := of_nat (length (filter (\<lambda>i. ofile ! i = None) [0..<NOFILE]))\<rparr>)))"

end
