(* ===== verification/Sleeplock.thy ===== *)
theory Sleeplock
  imports Proc
begin

text \<open>
  kernel/sleeplock.c. A sleep lock is a word protected by a spin lock, and a process that
  finds it taken sleeps on it. A sleep lock is named by its sleep_id, its spin lock by
  InnerLock and its channel by ChSleep.
\<close>

record sleeplock =
  sl_locked :: bool
  sl_name :: string
  sl_pid :: int

record ksleep = kproc +
  slocks :: "sleep_id \<Rightarrow> sleeplock"

definition upd_slock :: "sleep_id \<Rightarrow> (sleeplock \<Rightarrow> sleeplock) \<Rightarrow> ('a ksleep_scheme, unit) km" where
  "upd_slock lk f = kmod (\<lambda>s. s\<lparr>slocks := (slocks s)(lk := f (slocks s lk))\<rparr>)"

definition initsleeplock :: "sleep_id \<Rightarrow> string \<Rightarrow> ('a ksleep_scheme, unit) km" where
  "initsleeplock lk name =
     kseq (initlock (InnerLock lk) ''sleep lock'') (
     upd_slock lk (\<lambda>k. \<lparr>sl_locked = False, sl_name = name, sl_pid = 0\<rparr>))"

definition acquiresleep :: "('a ksleep_scheme, unit) km \<Rightarrow> sleep_id \<Rightarrow> ('a ksleep_scheme, unit) km" where
  "acquiresleep sw lk =
     kseq (acquire (InnerLock lk)) (
     kseq (kloop (
       kbind (kget (\<lambda>s. sl_locked (slocks s lk))) (\<lambda>l.
       if l then kseq (sleep sw (ChSleep lk) (InnerLock lk)) (kret None)
       else kret (Some ())))) (
     kseq (upd_slock lk (\<lambda>k. k\<lparr>sl_locked := True\<rparr>)) (
     kbind curproc (\<lambda>p.
     kbind (get_proc p p_pid) (\<lambda>pid.
     kseq (upd_slock lk (\<lambda>k. k\<lparr>sl_pid := pid\<rparr>)) (
     release (InnerLock lk)))))))"

definition releasesleep :: "sleep_id \<Rightarrow> ('a ksleep_scheme, unit) km" where
  "releasesleep lk =
     kseq (acquire (InnerLock lk)) (
     kseq (upd_slock lk (\<lambda>k. k\<lparr>sl_locked := False\<rparr>)) (
     kseq (upd_slock lk (\<lambda>k. k\<lparr>sl_pid := 0\<rparr>)) (
     kseq (wakeup (ChSleep lk)) (
     release (InnerLock lk)))))"

definition holdingsleep :: "sleep_id \<Rightarrow> ('a ksleep_scheme, bool) km" where
  "holdingsleep lk =
     kseq (acquire (InnerLock lk)) (
     kbind (kget (\<lambda>s. slocks s lk)) (\<lambda>k.
     kbind (if sl_locked k then kbind curproc (\<lambda>p. kbind (get_proc p p_pid) (\<lambda>pid. kret (sl_pid k = pid)))
            else kret False) (\<lambda>r.
     kseq (release (InnerLock lk)) (
     kret r))))"

end
