(* ===== verification/Ring.thy ===== *)
theory Ring
  imports Xv6_Prelude
begin

text \<open>
  Ring buffers. The kernel has three: the bytes of a pipe, the transmit buffer of the serial
  port and the input line of the console. The contents of a ring that starts at index r
  and holds k elements are read off modulo its size. The interface of a bounded queue
  is a locale; its clients' facts (moving many elements at once) are proved in it, and the
  theories of the pipe and of the console interpret it.
\<close>

definition ring :: "'x list \<Rightarrow> nat \<Rightarrow> nat \<Rightarrow> 'x list" where
  "ring data r k = map (\<lambda>i. data ! ((r + i) mod length data)) [0..<k]"

lemma length_ring [simp]: "length (ring data r k) = k"
  by (simp add: ring_def)

lemma ring_0 [simp]: "ring data r 0 = []"
  by (simp add: ring_def)

lemma ring_slot_neq:
  assumes "i < k" and "k < (n::nat)"
  shows "(r + i) mod n \<noteq> (r + k) mod n"
proof
  assume "(r + i) mod n = (r + k) mod n"
  then have "(r + k - (r + i)) mod n = 0" by (metis mod_eq_dvd_iff_nat assms(1) add_le_cancel_left dvd_imp_mod_0 less_imp_le)
  then show False using assms by (simp add: mod_if split: if_splits)
qed

lemma ring_put:
  assumes "k < length data"
  shows "ring (data[(r + k) mod length data := x]) r (Suc k) = ring data r k @ [x]"
proof -
  have "(data[(r + k) mod length data := x]) ! ((r + i) mod length data) = data ! ((r + i) mod length data)"
    if "i < k" for i
    using ring_slot_neq [OF that assms, of r] by (metis nth_list_update_neq)
  then have "ring (data[(r + k) mod length data := x]) r k = ring data r k"
    by (simp add: ring_def)
  moreover have "(data[(r + k) mod length data := x]) ! ((r + k) mod length data) = x"
    using assms by (intro nth_list_update_eq mod_less_divisor) auto
  ultimately show ?thesis by (simp add: ring_def)
qed

lemma ring_take:
  "0 < k \<Longrightarrow> ring data r k = data ! (r mod length data) # ring data (Suc r) (k - 1)"
proof -
  assume "0 < k"
  then obtain j where k: "k = Suc j" by (cases k) auto
  show ?thesis unfolding k by (simp add: ring_def upt_conv_Cons map_Suc_upt [symmetric] comp_def del: upt_Suc)
qed

lemma ring_mod: "ring data (r mod length data) k = ring data r k"
  by (simp add: ring_def mod_add_left_eq)

section \<open>The interface\<close>

locale fifo =
  fixes inv :: "'q \<Rightarrow> bool"
    and contents :: "'q \<Rightarrow> 'x list"
    and cap :: nat
    and full :: "'q \<Rightarrow> bool"
    and emp :: "'q \<Rightarrow> bool"
    and put :: "'x \<Rightarrow> 'q \<Rightarrow> 'q"
    and front :: "'q \<Rightarrow> 'x"
    and rest :: "'q \<Rightarrow> 'q"
  assumes bounded: "inv q \<Longrightarrow> length (contents q) \<le> cap"
    and full_iff: "inv q \<Longrightarrow> full q \<longleftrightarrow> length (contents q) = cap"
    and emp_iff: "inv q \<Longrightarrow> emp q \<longleftrightarrow> contents q = []"
    and put_inv: "inv q \<Longrightarrow> \<not> full q \<Longrightarrow> inv (put x q)"
    and put_contents: "inv q \<Longrightarrow> \<not> full q \<Longrightarrow> contents (put x q) = contents q @ [x]"
    and rest_inv: "inv q \<Longrightarrow> \<not> emp q \<Longrightarrow> inv (rest q)"
    and front_rest: "inv q \<Longrightarrow> \<not> emp q \<Longrightarrow> contents q = front q # contents (rest q)"
begin

text \<open>Putting as many elements as there is room for, and taking as many as there are.\<close>

fun takes :: "nat \<Rightarrow> 'q \<Rightarrow> 'x list \<times> 'q" where
  "takes 0 q = ([], q)"
| "takes (Suc n) q =
     (if emp q then ([], q) else case takes n (rest q) of (xs, q') \<Rightarrow> (front q # xs, q'))"

lemma puts_fold:
  "inv q \<Longrightarrow> length (contents q) + length xs \<le> cap \<Longrightarrow>
   inv (fold put xs q) \<and> contents (fold put xs q) = contents q @ xs"
proof (induction xs arbitrary: q)
  case (Cons x xs)
  then have "\<not> full q" by (simp add: full_iff)
  then have "inv (put x q)" and "contents (put x q) = contents q @ [x]"
    using Cons.prems(1) by (auto simp: put_inv put_contents)
  with Cons.IH [of "put x q"] Cons.prems show ?case by simp
qed simp

lemma takes_prefix:
  "inv q \<Longrightarrow> inv (snd (takes n q)) \<and> fst (takes n q) = take n (contents q) \<and>
   contents (snd (takes n q)) = drop n (contents q)"
proof (induction n arbitrary: q)
  case (Suc n)
  show ?case
  proof (cases "emp q")
    case True
    then show ?thesis using Suc.prems emp_iff by simp
  next
    case False
    then have "inv (rest q)" and q: "contents q = front q # contents (rest q)"
      using Suc.prems rest_inv front_rest by auto
    then show ?thesis using Suc.IH [of "rest q"] False by (auto simp: q split: prod.splits)
  qed
qed simp

lemma rest_funpow:
  "inv q \<Longrightarrow> n \<le> length (contents q) \<Longrightarrow>
   inv ((rest ^^ n) q) \<and> contents ((rest ^^ n) q) = drop n (contents q)"
proof (induction n)
  case (Suc n)
  then have ih: "inv ((rest ^^ n) q)" "contents ((rest ^^ n) q) = drop n (contents q)" by auto
  then have "\<not> emp ((rest ^^ n) q)" using emp_iff Suc.prems(2) by auto
  then have "inv (rest ((rest ^^ n) q))" "drop n (contents q) = front ((rest ^^ n) q) # contents (rest ((rest ^^ n) q))"
    using rest_inv [OF ih(1)] front_rest [OF ih(1)] ih(2) by auto
  then show ?case by (simp add: drop_Suc flip: tl_drop)
qed simp

text \<open>What goes in comes out, in the same order, behind what was there before.\<close>

lemma puts_takes:
  assumes "inv q" and "length (contents q) + length xs \<le> cap"
  shows "fst (takes (length (contents q) + length xs) (fold put xs q)) = contents q @ xs"
  using puts_fold [OF assms] takes_prefix [of "fold put xs q"] by simp

end

end
