(* ===== verification/Pipe.thy ===== *)
theory Pipe
  imports Sleeplock Ring
begin

text \<open>
  kernel/pipe.c: a pipe is a ring of PIPESIZE bytes with two free-running 32-bit counters. The
  pipe lies in a page of its own, whose address names it. pipealloc also builds the two
  files and is in theory File.
\<close>

definition PIPESIZE :: nat where "PIPESIZE = 512"

record pipe =
  pi_data :: "u8 list"
  nread :: u32
  nwrite :: u32
  readopen :: bool
  writeopen :: bool

record kpipe = ksleep +
  pipes :: "u64 \<Rightarrow> pipe"

definition get_pipe :: "u64 \<Rightarrow> ('a kpipe_scheme, pipe) km" where
  "get_pipe pi = kget (\<lambda>s. pipes s pi)"

definition upd_pipe :: "u64 \<Rightarrow> (pipe \<Rightarrow> pipe) \<Rightarrow> ('a kpipe_scheme, unit) km" where
  "upd_pipe pi f = kmod (\<lambda>s. s\<lparr>pipes := (pipes s)(pi := f (pipes s pi))\<rparr>)"

definition pipe_full :: "pipe \<Rightarrow> bool" where
  "pipe_full q \<longleftrightarrow> nwrite q = nread q + of_nat PIPESIZE"

definition pipe_empty :: "pipe \<Rightarrow> bool" where
  "pipe_empty q \<longleftrightarrow> nread q = nwrite q"

definition pipe_put :: "u8 \<Rightarrow> pipe \<Rightarrow> pipe" where
  "pipe_put ch q = q\<lparr>pi_data := (pi_data q)[unat (nwrite q) mod PIPESIZE := ch], nwrite := nwrite q + 1\<rparr>"

definition pipe_head :: "pipe \<Rightarrow> u8" where
  "pipe_head q = pi_data q ! (unat (nread q) mod PIPESIZE)"

definition pipe_drop :: "pipe \<Rightarrow> pipe" where
  "pipe_drop q = q\<lparr>nread := nread q + 1\<rparr>"

definition pipeclose :: "u64 \<Rightarrow> bool \<Rightarrow> ('a kpipe_scheme, unit) km" where
  "pipeclose pi writable =
     kseq (acquire (PipeLock pi)) (
     kseq (if writable then
         kseq (upd_pipe pi (\<lambda>q. q\<lparr>writeopen := False\<rparr>)) (wakeup (ChPipeRead pi))
       else kseq (upd_pipe pi (\<lambda>q. q\<lparr>readopen := False\<rparr>)) (wakeup (ChPipeWrite pi))) (
     kbind (get_pipe pi) (\<lambda>q.
     if \<not> readopen q \<and> \<not> writeopen q then kseq (release (PipeLock pi)) (kfree pi)
     else release (PipeLock pi))))"

text \<open>The inner loop of pipewrite: False when the writer has to give up.\<close>

definition pipe_room :: "('a kpipe_scheme, unit) km \<Rightarrow> u64 \<Rightarrow> nat \<Rightarrow> ('a kpipe_scheme, bool) km" where
  "pipe_room sw pi pr =
     kloop (
       kbind (get_pipe pi) (\<lambda>q.
       if pipe_full q then
         kbind (get_proc pr p_killed) (\<lambda>killed.
         if \<not> readopen q \<or> killed \<noteq> 0 then kseq (release (PipeLock pi)) (kret (Some False))
         else kseq (wakeup (ChPipeRead pi)) (
           kseq (sleep sw (ChPipeWrite pi) (PipeLock pi)) (kret None)))
       else kret (Some True)))"

definition pipewrite :: "('a kpipe_scheme, unit) km \<Rightarrow> u64 \<Rightarrow> u64 \<Rightarrow> int \<Rightarrow> ('a kpipe_scheme, int) km" where
  "pipewrite sw pi addr n =
     kbind curproc (\<lambda>pr.
     kseq (acquire (PipeLock pi)) (
     let fin = (\<lambda>i. kseq (wakeup (ChPipeRead pi)) (kseq (release (PipeLock pi)) (kret (Inr i)))) in
     kiter (\<lambda>i.
       if i < n then
         kbind (pipe_room sw pi pr) (\<lambda>ok.
         if \<not> ok then kret (Inr (- 1))
         else kbind (get_proc pr p_pagetable) (\<lambda>pt.
           kbind (copyin_obj pt (addr + of_int i) 1) (\<lambda>(r, bs).
           if r = - 1 then fin i
           else kseq (upd_pipe pi (pipe_put (hd bs))) (kret (Inl (i + 1))))))
       else fin i) 0))"

text \<open>The first loop of piperead: False when the reader has been killed.\<close>

definition pipe_wait :: "('a kpipe_scheme, unit) km \<Rightarrow> u64 \<Rightarrow> nat \<Rightarrow> ('a kpipe_scheme, bool) km" where
  "pipe_wait sw pi pr =
     kloop (
       kbind (get_pipe pi) (\<lambda>q.
       if pipe_empty q \<and> writeopen q then
         kbind (get_proc pr p_killed) (\<lambda>killed.
         if killed \<noteq> 0 then kseq (release (PipeLock pi)) (kret (Some False))
         else kseq (sleep sw (ChPipeRead pi) (PipeLock pi)) (kret None))
       else kret (Some True)))"

definition piperead :: "('a kpipe_scheme, unit) km \<Rightarrow> u64 \<Rightarrow> u64 \<Rightarrow> int \<Rightarrow> ('a kpipe_scheme, int) km" where
  "piperead sw pi addr n =
     kbind curproc (\<lambda>pr.
     kseq (acquire (PipeLock pi)) (
     kbind (pipe_wait sw pi pr) (\<lambda>ok.
     if \<not> ok then kret (- 1)
     else
       let fin = (\<lambda>i. kseq (wakeup (ChPipeWrite pi)) (kseq (release (PipeLock pi)) (kret (Inr i)))) in
       kiter (\<lambda>i.
         if i < n then
           kbind (get_pipe pi) (\<lambda>q.
           if pipe_empty q then fin i
           else kseq (upd_pipe pi pipe_drop) (
             kbind (get_proc pr p_pagetable) (\<lambda>pt.
             kbind (copyout_obj pt (addr + of_int i) [pipe_head q]) (\<lambda>r.
             if r = - 1 then fin i else kret (Inl (i + 1))))))
         else fin i) 0)))"

section \<open>The ring of a pipe is a queue\<close>

definition pipe_count :: "pipe \<Rightarrow> nat" where
  "pipe_count q = unat (nwrite q - nread q)"

definition pipe_wf :: "pipe \<Rightarrow> bool" where
  "pipe_wf q \<longleftrightarrow> length (pi_data q) = PIPESIZE \<and> pipe_count q \<le> PIPESIZE"

definition pipe_contents :: "pipe \<Rightarrow> u8 list" where
  "pipe_contents q = ring (pi_data q) (unat (nread q)) (pipe_count q)"

text \<open>The counters run freely: their difference is the number of bytes even when one has wrapped around.\<close>

lemma pipe_count_put: "pipe_wf q \<Longrightarrow> pipe_count (pipe_put x q) = Suc (pipe_count q)"
proof -
  assume "pipe_wf q"
  then have "unat (nwrite q - nread q) \<le> 512" by (simp add: pipe_wf_def pipe_count_def PIPESIZE_def)
  then have "unat (nwrite q - nread q + 1) = Suc (unat (nwrite q - nread q))"
    by (simp add: unat_word_ariths)
  then show ?thesis by (simp add: pipe_count_def pipe_put_def algebra_simps)
qed

lemma pipe_count_drop: "\<not> pipe_empty q \<Longrightarrow> pipe_count (pipe_drop q) = pipe_count q - 1"
proof -
  assume "\<not> pipe_empty q"
  then have "nwrite q - nread q \<noteq> 0" by (simp add: pipe_empty_def)
  then have "unat (nwrite q - nread q - 1) = unat (nwrite q - nread q) - 1"
    by (simp add: unat_minus_one)
  then show ?thesis by (simp add: pipe_count_def pipe_drop_def algebra_simps)
qed

lemma u32_mod_PIPESIZE: "unat (x + y) mod PIPESIZE = (unat x + unat y) mod PIPESIZE" for x y :: u32
proof -
  have "(n mod 4294967296) mod 512 = n mod 512" for n :: nat by (rule mod_mod_cancel) simp
  then show ?thesis by (simp add: unat_word_ariths PIPESIZE_def)
qed

lemma pipe_slot: "unat (nwrite q) mod PIPESIZE = (unat (nread q) + pipe_count q) mod PIPESIZE"
  using u32_mod_PIPESIZE [of "nread q" "nwrite q - nread q"] by (simp add: pipe_count_def)

lemma pipe_contents_put:
  assumes "pipe_wf q" and "\<not> pipe_full q"
  shows "pipe_contents (pipe_put x q) = pipe_contents q @ [x]"
proof -
  have "pipe_count q \<noteq> PIPESIZE"
  proof
    assume "pipe_count q = PIPESIZE"
    then have "nwrite q - nread q = of_nat PIPESIZE" by (simp add: pipe_count_def word_unat_eq_iff PIPESIZE_def)
    with assms(2) show False by (simp add: pipe_full_def algebra_simps)
  qed
  then have "pipe_count q < length (pi_data q)" using assms(1) by (simp add: pipe_wf_def)
  from ring_put [OF this, of "unat (nread q)" x] show ?thesis
    using assms(1) pipe_count_put [OF assms(1)] pipe_slot [of q]
    by (simp add: pipe_contents_def pipe_wf_def) (simp add: pipe_put_def)
qed

lemma pipe_contents_drop:
  assumes "pipe_wf q" and "\<not> pipe_empty q"
  shows "pipe_contents q = pipe_head q # pipe_contents (pipe_drop q)"
proof -
  have "0 < pipe_count q" using assms(2) by (simp add: pipe_count_def pipe_empty_def unat_gt_0)
  have "length (pi_data q) = PIPESIZE" using assms(1) by (simp add: pipe_wf_def)
  then have "ring (pi_data q) (unat (nread q + 1)) k = ring (pi_data q) (Suc (unat (nread q))) k" for k
    using u32_mod_PIPESIZE [of "nread q" 1] ring_mod [of "pi_data q"] by (metis Suc_eq_plus1 unat_1)
  with ring_take [OF \<open>0 < pipe_count q\<close>, of "pi_data q" "unat (nread q)"] show ?thesis
    using \<open>length (pi_data q) = PIPESIZE\<close> pipe_count_drop [OF assms(2)]
    by (simp add: pipe_contents_def pipe_head_def) (simp add: pipe_drop_def)
qed

interpretation pq: fifo pipe_wf pipe_contents PIPESIZE pipe_full pipe_empty pipe_put pipe_head pipe_drop
proof unfold_locales
  fix q x
  assume q: "pipe_wf q"
  show "length (pipe_contents q) \<le> PIPESIZE" using q by (simp add: pipe_contents_def pipe_wf_def)
  show full: "pipe_full q \<longleftrightarrow> length (pipe_contents q) = PIPESIZE"
  proof
    assume "pipe_full q"
    then have "nwrite q - nread q = of_nat PIPESIZE" by (simp add: pipe_full_def)
    then show "length (pipe_contents q) = PIPESIZE"
      by (simp add: pipe_contents_def pipe_count_def PIPESIZE_def)
  next
    assume "length (pipe_contents q) = PIPESIZE"
    then have "nwrite q - nread q = of_nat PIPESIZE"
      by (simp add: pipe_contents_def pipe_count_def word_unat_eq_iff PIPESIZE_def)
    then show "pipe_full q" by (simp add: pipe_full_def algebra_simps)
  qed
  show "pipe_empty q \<longleftrightarrow> pipe_contents q = []"
    by (auto simp: pipe_contents_def pipe_count_def pipe_empty_def ring_def unat_eq_zero)
  show "pipe_contents (pipe_put x q) = pipe_contents q @ [x]" if "\<not> pipe_full q"
    by (rule pipe_contents_put [OF q that])
  show "pipe_wf (pipe_put x q)" if "\<not> pipe_full q"
    using q that full pipe_count_put [OF q, of x] by (simp add: pipe_wf_def pipe_contents_def) (simp add: pipe_put_def)
  show "pipe_contents q = pipe_head q # pipe_contents (pipe_drop q)" if "\<not> pipe_empty q"
    by (rule pipe_contents_drop [OF q that])
  show "pipe_wf (pipe_drop q)" if "\<not> pipe_empty q"
    using q pipe_count_drop [OF that] by (simp add: pipe_wf_def) (simp add: pipe_drop_def le_diff_conv)
qed

section \<open>Properties\<close>

text \<open>C29: the ring buffer of a pipe implements a queue of at most PIPESIZE bytes, also when its 32-bit
  counters wrap around: bytes that are put in come out behind what was there, in the order they
  went in, the ring is well formed after every step, and it is full or empty exactly when the
  queue is.\<close>

theorem pipe_implements_queue:
  assumes "pipe_wf q" and "length (pipe_contents q) + length xs \<le> PIPESIZE"
  shows "pipe_wf (fold pipe_put xs q) \<and> pipe_contents (fold pipe_put xs q) = pipe_contents q @ xs \<and>
    (pipe_full (fold pipe_put xs q) \<longleftrightarrow> length (pipe_contents q) + length xs = PIPESIZE) \<and>
    (pipe_empty (fold pipe_put xs q) \<longleftrightarrow> pipe_contents q @ xs = []) \<and>
    (pipe_contents q @ xs \<noteq> [] \<longrightarrow> pipe_head (fold pipe_put xs q) = hd (pipe_contents q @ xs) \<and>
       pipe_wf (pipe_drop (fold pipe_put xs q)) \<and>
       pipe_contents (pipe_drop (fold pipe_put xs q)) = tl (pipe_contents q @ xs))"
proof -
  let ?q = "fold pipe_put xs q"
  have w: "pipe_wf ?q" and c: "pipe_contents ?q = pipe_contents q @ xs" using pq.puts_fold [OF assms] by auto
  have e: "pipe_empty ?q \<longleftrightarrow> pipe_contents q @ xs = []" using pq.emp_iff [OF w] c by simp
  have f: "pipe_full ?q \<longleftrightarrow> length (pipe_contents q) + length xs = PIPESIZE" using pq.full_iff [OF w] c by simp
  have "pipe_head ?q = hd (pipe_contents q @ xs) \<and> pipe_wf (pipe_drop ?q) \<and>
      pipe_contents (pipe_drop ?q) = tl (pipe_contents q @ xs)" if "pipe_contents q @ xs \<noteq> []"
    using pq.front_rest [OF w] pq.rest_inv [OF w] e c that by simp
  then show ?thesis using w c e f by blast
qed

theorem pipe_implements_queue_witness:
  "let q = \<lparr>pi_data = replicate 512 0, nread = 0xFFFFFFFF, nwrite = 0xFFFFFFFF, readopen = True, writeopen = True\<rparr> in
   pipe_contents (fold pipe_put [65, 66] q) = [65, 66] \<and> nwrite (fold pipe_put [65, 66] q) = 1"
proof -
  let ?q = "\<lparr>pi_data = replicate 512 0, nread = 0xFFFFFFFF, nwrite = 0xFFFFFFFF, readopen = True, writeopen = True\<rparr>"
  have "pipe_wf ?q" "pipe_contents ?q = []"
    by (simp_all add: pipe_wf_def pipe_count_def PIPESIZE_def pipe_contents_def)
  then show ?thesis using pipe_implements_queue [of ?q "[65, 66]"] by (simp add: PIPESIZE_def Let_def pipe_put_def)
qed

end
