(* ===== verification/Virtio.thy ===== *)
theory Virtio
  imports Pipe
begin

text \<open>
  kernel/virtio_disk.c, the driver of the virtio disk, and struct buf of kernel/buf.h, whose
  data it moves. The descriptors, the available ring and the used ring are those of
  kernel/virtio.h. The device itself is hardware: what it does happens in the context
  switch of the caller that sleeps for it. The device registers are read from
  vio_in and the writes to them are logged in vio_out.
\<close>

section \<open>State\<close>

definition BSIZE :: nat where "BSIZE = 1024"
definition NUM :: nat where "NUM = 8"

definition VRING_DESC_F_NEXT :: u16 where "VRING_DESC_F_NEXT = 1"
definition VRING_DESC_F_WRITE :: u16 where "VRING_DESC_F_WRITE = 2"
definition VIRTIO_BLK_T_IN :: u32 where "VIRTIO_BLK_T_IN = 0"
definition VIRTIO_BLK_T_OUT :: u32 where "VIRTIO_BLK_T_OUT = 1"

record buf =
  b_valid :: bool
  b_disk :: bool
  b_dev :: u32
  b_blockno :: u32
  b_refcnt :: u32
  b_data :: "u8 list"

record virtio_blk_outhdr =
  hdr_type :: u32
  hdr_reserved :: u32
  hdr_sector :: u64

text \<open>
  The address in a descriptor: null, the physical address of a request header, the data of a
  buffer, or the status byte of an entry of the info array. Buffers and the info array are
  kernel data, whose physical addresses are their virtual ones; they are named by their
  indices. A request header is on a kernel stack and has a physical address of its own.
\<close>

datatype vaddr = VNull | VHdr u64 | VData nat | VStatus nat

record VRingDesc =
  vd_addr :: vaddr
  vd_len :: u32
  vd_flags :: u16
  vd_next :: u16

record disk_info =
  info_b :: "nat option"
  info_status :: u8

record vdisk =
  v_desc :: "nat \<Rightarrow> VRingDesc"
  v_avail_idx :: u16
  v_avail :: "nat \<Rightarrow> u16"
  v_used_id :: u16
  v_used_elems :: "nat \<Rightarrow> u32"
  v_free :: "nat \<Rightarrow> bool"
  v_used_idx :: u16
  v_info :: "nat \<Rightarrow> disk_info"

record kdisk = kpipe +
  bufs :: "nat \<Rightarrow> buf"
  vdk :: vdisk
  vio_in :: "nat \<Rightarrow> u32"
  vio_out :: "(nat \<times> u32) list"
  buf0_va :: "nat \<Rightarrow> u64"
  hdrs :: "u64 \<Rightarrow> virtio_blk_outhdr"

text \<open>
  buf0_va p is the address of the local variable buf0 in the frame of virtio_disk_rw on the
  kernel stack of process p, which the compiler chooses; hdrs holds the request headers by
  physical address. The kernel writes buf0 through its page table: mmu is the translation
  of the hardware for a store, which faults on a page that is not mapped or not writable.
\<close>

definition mmu :: "memory \<Rightarrow> u64 \<Rightarrow> u64 \<Rightarrow> u64 option" where
  "mmu m root va = (let e = leaf m root va in
     if va < MAXVA \<and> valid e \<and> e AND PTE_W \<noteq> 0 then Some (PTE2PA e + va mod PGSIZE) else None)"

definition upd_hdr :: "u64 \<Rightarrow> (virtio_blk_outhdr \<Rightarrow> virtio_blk_outhdr) \<Rightarrow> ('a kdisk_scheme, unit) km" where
  "upd_hdr va f =
     kbind (kget (\<lambda>s. mmu (mem s) (kernel_pagetable s) va)) (\<lambda>r.
     case r of None \<Rightarrow> kstop (Undef ''store page fault'')
     | Some pa \<Rightarrow> kmod (\<lambda>s. s\<lparr>hdrs := (hdrs s)(pa := f (hdrs s pa))\<rparr>))"

definition get_buf :: "nat \<Rightarrow> (buf \<Rightarrow> 'x) \<Rightarrow> ('a kdisk_scheme, 'x) km" where
  "get_buf b f = kget (\<lambda>s. f (bufs s b))"

definition upd_buf :: "nat \<Rightarrow> (buf \<Rightarrow> buf) \<Rightarrow> ('a kdisk_scheme, unit) km" where
  "upd_buf b f = kmod (\<lambda>s. s\<lparr>bufs := (bufs s)(b := f (bufs s b))\<rparr>)"

definition upd_vdk :: "(vdisk \<Rightarrow> vdisk) \<Rightarrow> ('a kdisk_scheme, unit) km" where
  "upd_vdk f = kmod (\<lambda>s. s\<lparr>vdk := f (vdk s)\<rparr>)"

section \<open>Initialisation\<close>

definition vreg_read :: "nat \<Rightarrow> ('a kdisk_scheme, u32) km" where
  "vreg_read r = kget (\<lambda>s. vio_in s r)"

definition vreg_write :: "nat \<Rightarrow> u32 \<Rightarrow> ('a kdisk_scheme, unit) km" where
  "vreg_write r v = kmod (\<lambda>s. s\<lparr>vio_out := vio_out s @ [(r, v)]\<rparr>)"

definition VIRTIO_MMIO_MAGIC_VALUE :: nat where "VIRTIO_MMIO_MAGIC_VALUE = 0x000"
definition VIRTIO_MMIO_VERSION :: nat where "VIRTIO_MMIO_VERSION = 0x004"
definition VIRTIO_MMIO_DEVICE_ID :: nat where "VIRTIO_MMIO_DEVICE_ID = 0x008"
definition VIRTIO_MMIO_VENDOR_ID :: nat where "VIRTIO_MMIO_VENDOR_ID = 0x00c"
definition VIRTIO_MMIO_DEVICE_FEATURES :: nat where "VIRTIO_MMIO_DEVICE_FEATURES = 0x010"
definition VIRTIO_MMIO_DRIVER_FEATURES :: nat where "VIRTIO_MMIO_DRIVER_FEATURES = 0x020"
definition VIRTIO_MMIO_GUEST_PAGE_SIZE :: nat where "VIRTIO_MMIO_GUEST_PAGE_SIZE = 0x028"
definition VIRTIO_MMIO_QUEUE_SEL :: nat where "VIRTIO_MMIO_QUEUE_SEL = 0x030"
definition VIRTIO_MMIO_QUEUE_NUM_MAX :: nat where "VIRTIO_MMIO_QUEUE_NUM_MAX = 0x034"
definition VIRTIO_MMIO_QUEUE_NUM :: nat where "VIRTIO_MMIO_QUEUE_NUM = 0x038"
definition VIRTIO_MMIO_QUEUE_PFN :: nat where "VIRTIO_MMIO_QUEUE_PFN = 0x040"
definition VIRTIO_MMIO_QUEUE_NOTIFY :: nat where "VIRTIO_MMIO_QUEUE_NOTIFY = 0x050"
definition VIRTIO_MMIO_INTERRUPT_STATUS :: nat where "VIRTIO_MMIO_INTERRUPT_STATUS = 0x060"
definition VIRTIO_MMIO_INTERRUPT_ACK :: nat where "VIRTIO_MMIO_INTERRUPT_ACK = 0x064"
definition VIRTIO_MMIO_STATUS :: nat where "VIRTIO_MMIO_STATUS = 0x070"

definition vd_zero :: VRingDesc where
  "vd_zero = \<lparr>vd_addr = VNull, vd_len = 0, vd_flags = 0, vd_next = 0\<rparr>"

text \<open>
  The driver's queue pages are a link-time object; their address is the argument pages. The
  status register is written with 1, 3, 11 and 15, and the feature bits 5, 7, 11, 12, 27,
  28 and 29 are masked out.
\<close>

definition virtio_disk_init :: "u64 \<Rightarrow> ('a kdisk_scheme, unit) km" where
  "virtio_disk_init pages =
     kseq (initlock VdiskLock ''virtio_disk'') (
     kbind (vreg_read VIRTIO_MMIO_MAGIC_VALUE) (\<lambda>magic.
     kbind (vreg_read VIRTIO_MMIO_VERSION) (\<lambda>version.
     kbind (vreg_read VIRTIO_MMIO_DEVICE_ID) (\<lambda>device.
     kbind (vreg_read VIRTIO_MMIO_VENDOR_ID) (\<lambda>vendor.
     if magic \<noteq> 0x74726976 \<or> version \<noteq> 1 \<or> device \<noteq> 2 \<or> vendor \<noteq> 0x554d4551
     then kpanic ''could not find virtio disk''
     else
       kseq (vreg_write VIRTIO_MMIO_STATUS 1) (
       kseq (vreg_write VIRTIO_MMIO_STATUS (1 OR 2)) (
       kbind (vreg_read VIRTIO_MMIO_DEVICE_FEATURES) (\<lambda>features.
       kseq (vreg_write VIRTIO_MMIO_DRIVER_FEATURES
         (features AND NOT (push_bit 5 1) AND NOT (push_bit 7 1) AND NOT (push_bit 11 1)
            AND NOT (push_bit 12 1) AND NOT (push_bit 27 1) AND NOT (push_bit 29 1)
            AND NOT (push_bit 28 1))) (
       kseq (vreg_write VIRTIO_MMIO_STATUS (1 OR 2 OR 8)) (
       kseq (vreg_write VIRTIO_MMIO_STATUS (1 OR 2 OR 8 OR 4)) (
       kseq (vreg_write VIRTIO_MMIO_GUEST_PAGE_SIZE 4096) (
       kseq (vreg_write VIRTIO_MMIO_QUEUE_SEL 0) (
       kbind (vreg_read VIRTIO_MMIO_QUEUE_NUM_MAX) (\<lambda>qmax.
       if qmax = 0 then kpanic ''virtio disk has no queue 0''
       else if qmax < of_nat NUM then kpanic ''virtio disk max queue too short''
       else
         kseq (vreg_write VIRTIO_MMIO_QUEUE_NUM (of_nat NUM)) (
         kseq (upd_vdk (\<lambda>d. d\<lparr>v_desc := (\<lambda>_. vd_zero), v_avail_idx := 0, v_avail := (\<lambda>_. 0),
           v_used_id := 0, v_used_elems := (\<lambda>_. 0)\<rparr>)) (
         kseq (vreg_write VIRTIO_MMIO_QUEUE_PFN (ucast (drop_bit 12 pages))) (
         upd_vdk (\<lambda>d. d\<lparr>v_free := (\<lambda>i. if i < NUM then True else v_free d i)\<rparr>))))))))))))))))))"

section \<open>Descriptors\<close>

definition alloc_desc :: "('a kdisk_scheme, int) km" where
  "alloc_desc =
     kbind (kfind [0..<NUM] (\<lambda>i.
       kbind (kget (\<lambda>s. v_free (vdk s) i)) (\<lambda>fr.
       if fr then kseq (upd_vdk (\<lambda>d. d\<lparr>v_free := (v_free d)(i := False)\<rparr>)) (kret (Some (int i)))
       else kret None))) (\<lambda>r.
     kret (case r of None \<Rightarrow> - 1 | Some i \<Rightarrow> i))"

definition free_desc :: "nat \<Rightarrow> ('a kdisk_scheme, unit) km" where
  "free_desc i =
     (if i \<ge> NUM then kpanic ''virtio_disk_intr 1''
      else kbind (kget (\<lambda>s. v_free (vdk s) i)) (\<lambda>fr.
        if fr then kpanic ''virtio_disk_intr 2''
        else
          kseq (upd_vdk (\<lambda>d. d\<lparr>v_desc := (v_desc d)(i := (v_desc d i)\<lparr>vd_addr := VNull\<rparr>)\<rparr>)) (
          kseq (upd_vdk (\<lambda>d. d\<lparr>v_free := (v_free d)(i := True)\<rparr>)) (
          wakeup ChDiskFree))))"

definition free_chain :: "nat \<Rightarrow> ('a kdisk_scheme, unit) km" where
  "free_chain i =
     kiter (\<lambda>i.
       kseq (free_desc i) (
       kbind (kget (\<lambda>s. v_desc (vdk s) i)) (\<lambda>d.
       if vd_flags d AND VRING_DESC_F_NEXT \<noteq> 0 then kret (Inl (unat (vd_next d)))
       else kret (Inr ())))) i"

text \<open>The three indices of alloc3_desc, or None when it returns -1.\<close>

definition alloc3_desc :: "('a kdisk_scheme, (nat \<times> nat \<times> nat) option) km" where
  "alloc3_desc =
     kbind alloc_desc (\<lambda>i0.
     if i0 < 0 then kret None
     else kbind alloc_desc (\<lambda>i1.
       if i1 < 0 then kseq (free_desc (nat i0)) (kret None)
       else kbind alloc_desc (\<lambda>i2.
         if i2 < 0 then
           kseq (free_desc (nat i0)) (kseq (free_desc (nat i1)) (kret None))
         else kret (Some (nat i0, nat i1, nat i2)))))"

definition set_desc :: "nat \<Rightarrow> VRingDesc \<Rightarrow> ('a kdisk_scheme, unit) km" where
  "set_desc i d = upd_vdk (\<lambda>v. v\<lparr>v_desc := (v_desc v)(i := d)\<rparr>)"

section \<open>Transfers\<close>

text \<open>
  Filling in the three descriptors of a request, recording it and adding it to the available
  ring. The request header buf0 is on the kernel stack of the process, which is not direct
  mapped, so the device is given the physical address that kvmpa finds.
\<close>

definition virtio_submit :: "nat \<Rightarrow> bool \<Rightarrow> nat \<times> nat \<times> nat \<Rightarrow> ('a kdisk_scheme, unit) km" where
  "virtio_submit b write ix =
     (case ix of (i0, i1, i2) \<Rightarrow>
     kbind (get_buf b b_blockno) (\<lambda>blockno.
     let sector = (ucast (blockno * of_nat (BSIZE div 512)) :: u64) in
     kbind curproc (\<lambda>p.
     kbind (kget (\<lambda>s. buf0_va s p)) (\<lambda>buf0.
     kseq (upd_hdr buf0 (\<lambda>h. h\<lparr>hdr_type := (if write then VIRTIO_BLK_T_OUT else VIRTIO_BLK_T_IN)\<rparr>)) (
     kseq (upd_hdr buf0 (\<lambda>h. h\<lparr>hdr_reserved := 0\<rparr>)) (
     kseq (upd_hdr buf0 (\<lambda>h. h\<lparr>hdr_sector := sector\<rparr>)) (
     kbind (kvmpa buf0) (\<lambda>pa.
     kseq (set_desc i0 \<lparr>vd_addr = VHdr pa, vd_len = 16, vd_flags = VRING_DESC_F_NEXT,
       vd_next = of_nat i1\<rparr>) (
     kseq (set_desc i1 \<lparr>vd_addr = VData b, vd_len = of_nat BSIZE,
       vd_flags = (if write then 0 else VRING_DESC_F_WRITE) OR VRING_DESC_F_NEXT,
       vd_next = of_nat i2\<rparr>) (
     kseq (upd_vdk (\<lambda>d. d\<lparr>v_info := (v_info d)(i0 := (v_info d i0)\<lparr>info_status := 0\<rparr>)\<rparr>)) (
     kseq (set_desc i2 \<lparr>vd_addr = VStatus i0, vd_len = 1, vd_flags = VRING_DESC_F_WRITE,
       vd_next = 0\<rparr>) (
     kseq (upd_buf b (\<lambda>q. q\<lparr>b_disk := True\<rparr>)) (
     kseq (upd_vdk (\<lambda>d. d\<lparr>v_info := (v_info d)(i0 := (v_info d i0)\<lparr>info_b := Some b\<rparr>)\<rparr>)) (
     kseq (upd_vdk (\<lambda>d. d\<lparr>v_avail := (v_avail d)(unat (v_avail_idx d) mod NUM := of_nat i0)\<rparr>)) (
     kseq (upd_vdk (\<lambda>d. d\<lparr>v_avail_idx := v_avail_idx d + 1\<rparr>)) (
     vreg_write VIRTIO_MMIO_QUEUE_NOTIFY 0))))))))))))))))"

definition virtio_disk_rw ::
  "('a kdisk_scheme, unit) km \<Rightarrow> nat \<Rightarrow> bool \<Rightarrow> ('a kdisk_scheme, unit) km" where
  "virtio_disk_rw sw b write =
     kseq (acquire VdiskLock) (
     kbind (kloop (
       kbind alloc3_desc (\<lambda>r.
       case r of Some ix \<Rightarrow> kret (Some ix)
       | None \<Rightarrow> kseq (sleep sw ChDiskFree VdiskLock) (kret None)))) (\<lambda>ix.
     kseq (virtio_submit b write ix) (
     kseq (kloop (
       kbind (get_buf b b_disk) (\<lambda>d.
       if d then kseq (sleep sw (ChBuf b) VdiskLock) (kret None) else kret (Some ())))) (
     kseq (upd_vdk (\<lambda>d. d\<lparr>v_info := (v_info d)(fst ix := (v_info d (fst ix))\<lparr>info_b := None\<rparr>)\<rparr>)) (
     kseq (free_chain (fst ix)) (
     release VdiskLock))))))"

definition virtio_disk_intr :: "('a kdisk_scheme, unit) km" where
  "virtio_disk_intr =
     kseq (acquire VdiskLock) (
     kseq (kloop (
       kbind (kget vdk) (\<lambda>d.
       if unat (v_used_idx d) mod NUM \<noteq> unat (v_used_id d) mod NUM then
         let id = unat (v_used_elems d (unat (v_used_idx d))) in
         if info_status (v_info d id) \<noteq> 0 then kpanic ''virtio_disk_intr status''
         else kbind (nonnull (info_b (v_info d id))) (\<lambda>b.
           kseq (upd_buf b (\<lambda>q. q\<lparr>b_disk := False\<rparr>)) (
           kseq (wakeup (ChBuf b)) (
           kseq (upd_vdk (\<lambda>d. d\<lparr>v_used_idx := (v_used_idx d + 1) mod of_nat NUM\<rparr>)) (
           kret None))))
       else kret (Some ())))) (
     kbind (vreg_read VIRTIO_MMIO_INTERRUPT_STATUS) (\<lambda>st.
     kseq (vreg_write VIRTIO_MMIO_INTERRUPT_ACK (st AND 3)) (
     release VdiskLock))))"

end
