(* ===== verification/Bio.thy ===== *)
theory Bio
  imports Virtio
begin

text \<open>
  kernel/bio.c: the buffer cache of lab 2. The NBUF buffers are linked in a circular doubly
  linked list through a head, most recently used first. A node of the list is the head or
  a buffer; the prev and next pointers are kept as maps on nodes.
\<close>

datatype bnode = Head | Buf nat

record kbio = kdisk +
  bprev :: "bnode \<Rightarrow> bnode"
  bnext :: "bnode \<Rightarrow> bnode"

definition set_next :: "bnode \<Rightarrow> bnode \<Rightarrow> 'a kbio_scheme \<Rightarrow> 'a kbio_scheme" where
  "set_next b c s = s\<lparr>bnext := (bnext s)(b := c)\<rparr>"

definition set_prev :: "bnode \<Rightarrow> bnode \<Rightarrow> 'a kbio_scheme \<Rightarrow> 'a kbio_scheme" where
  "set_prev b c s = s\<lparr>bprev := (bprev s)(b := c)\<rparr>"

text \<open>The four assignments that link b in just after the head.\<close>

definition link_front :: "bnode \<Rightarrow> 'a kbio_scheme \<Rightarrow> 'a kbio_scheme" where
  "link_front b s =
     (let s1 = set_next b (bnext s Head) s;
          s2 = set_prev b Head s1;
          s3 = set_prev (bnext s2 Head) b s2
      in set_next Head b s3)"

definition unlink :: "bnode \<Rightarrow> 'a kbio_scheme \<Rightarrow> 'a kbio_scheme" where
  "unlink b s =
     (let s1 = set_prev (bnext s b) (bprev s b) s
      in set_next (bprev s1 b) (bnext s1 b) s1)"

definition binit :: "('a kbio_scheme, unit) km" where
  "binit =
     kseq (initlock BcacheLock ''bcache'') (
     kseq (kmod (set_prev Head Head)) (
     kseq (kmod (set_next Head Head)) (
     kfor [0..<NBUF] (\<lambda>i.
       kseq (initsleeplock (BufLock i) ''buffer'') (
       kmod (link_front (Buf i)))))))"

text \<open>
  A scan of the list from a node on, along next or prev, for a buffer that satisfies a test.
\<close>

definition bscan ::
  "(('a kbio_scheme) \<Rightarrow> bnode \<Rightarrow> bnode) \<Rightarrow> (buf \<Rightarrow> bool) \<Rightarrow> bnode \<Rightarrow> ('a kbio_scheme, nat option) km" where
  "bscan link test b =
     kiter (\<lambda>b.
       case b of Head \<Rightarrow> kret (Inr None)
       | Buf i \<Rightarrow> kbind (kget (\<lambda>s. (test (bufs s i), link s b))) (\<lambda>(found, nxt).
           kret (if found then Inr (Some i) else Inl nxt))) b"

definition bget :: "('a kbio_scheme, unit) km \<Rightarrow> u32 \<Rightarrow> u32 \<Rightarrow> ('a kbio_scheme, nat) km" where
  "bget sw dev blockno =
     kseq (acquire BcacheLock) (
     kbind (kget (\<lambda>s. bnext s Head)) (\<lambda>first.
     kbind (bscan bnext (\<lambda>q. b_dev q = dev \<and> b_blockno q = blockno) first) (\<lambda>r.
     case r of
       Some b \<Rightarrow>
         kseq (upd_buf b (\<lambda>q. q\<lparr>b_refcnt := b_refcnt q + 1\<rparr>)) (
         kseq (release BcacheLock) (
         kseq (acquiresleep sw (BufLock b)) (kret b)))
     | None \<Rightarrow>
         kbind (kget (\<lambda>s. bprev s Head)) (\<lambda>lst.
         kbind (bscan bprev (\<lambda>q. b_refcnt q = 0) lst) (\<lambda>r.
         case r of
           Some b \<Rightarrow>
             kseq (upd_buf b (\<lambda>q. q\<lparr>b_dev := dev, b_blockno := blockno, b_valid := False, b_refcnt := 1\<rparr>)) (
             kseq (release BcacheLock) (
             kseq (acquiresleep sw (BufLock b)) (kret b)))
         | None \<Rightarrow> kpanic ''bget: no buffers'')))))"

definition bread :: "('a kbio_scheme, unit) km \<Rightarrow> u32 \<Rightarrow> u32 \<Rightarrow> ('a kbio_scheme, nat) km" where
  "bread sw dev blockno =
     kbind (bget sw dev blockno) (\<lambda>b.
     kbind (get_buf b b_valid) (\<lambda>v.
     kseq (if \<not> v then
         kseq (virtio_disk_rw sw b False) (upd_buf b (\<lambda>q. q\<lparr>b_valid := True\<rparr>))
       else kret ()) (
     kret b)))"

definition bwrite :: "('a kbio_scheme, unit) km \<Rightarrow> nat \<Rightarrow> ('a kbio_scheme, unit) km" where
  "bwrite sw b =
     kbind (holdingsleep (BufLock b)) (\<lambda>h.
     if \<not> h then kpanic ''bwrite'' else virtio_disk_rw sw b True)"

definition brelse :: "nat \<Rightarrow> ('a kbio_scheme, unit) km" where
  "brelse b =
     kbind (holdingsleep (BufLock b)) (\<lambda>h.
     if \<not> h then kpanic ''brelse''
     else
       kseq (releasesleep (BufLock b)) (
       kseq (acquire BcacheLock) (
       kseq (upd_buf b (\<lambda>q. q\<lparr>b_refcnt := b_refcnt q - 1\<rparr>)) (
       kbind (get_buf b b_refcnt) (\<lambda>n.
       kseq (if n = 0 then
           kseq (kmod (unlink (Buf b))) (kmod (link_front (Buf b)))
         else kret ()) (
       release BcacheLock))))))"

definition bpin :: "nat \<Rightarrow> ('a kbio_scheme, unit) km" where
  "bpin b =
     kseq (acquire BcacheLock) (
     kseq (upd_buf b (\<lambda>q. q\<lparr>b_refcnt := b_refcnt q + 1\<rparr>)) (
     release BcacheLock))"

definition bunpin :: "nat \<Rightarrow> ('a kbio_scheme, unit) km" where
  "bunpin b =
     kseq (acquire BcacheLock) (
     kseq (upd_buf b (\<lambda>q. q\<lparr>b_refcnt := b_refcnt q - 1\<rparr>)) (
     release BcacheLock))"

end
