(* ===== verification/Log.thy ===== *)
theory Log
  imports Bio
begin

text \<open>
  kernel/log.c: the write-ahead log. A transaction collects block numbers in the in-memory
  header; commit copies the cached blocks to the log area, writes the header (the commit
  point), installs the blocks and clears the header.
\<close>

section \<open>State\<close>

record superblock =
  sb_magic :: u32
  sb_size :: u32
  sb_nblocks :: u32
  sb_ninodes :: u32
  sb_nlog :: u32
  sb_logstart :: u32
  sb_inodestart :: u32
  sb_bmapstart :: u32

record logheader =
  lh_n :: int
  lh_block :: "u32 list"

record klog = kbio +
  l_start :: u32
  l_size :: int
  l_outstanding :: int
  l_committing :: bool
  l_dev :: u32
  l_lh :: logheader

definition upd_lh :: "(logheader \<Rightarrow> logheader) \<Rightarrow> ('a klog_scheme, unit) km" where
  "upd_lh f = kmod (\<lambda>s. s\<lparr>l_lh := f (l_lh s)\<rparr>)"

definition get_lh_n :: "('a klog_scheme, int) km" where
  "get_lh_n = kget (\<lambda>s. lh_n (l_lh s))"

text \<open>An entry of the in-memory header; beyond the array the access is undefined.\<close>

definition get_lh_block :: "nat \<Rightarrow> ('a klog_scheme, u32) km" where
  "get_lh_block i =
     (if i < LOGSIZE then kget (\<lambda>s. lh_block (l_lh s) ! i) else kstop (Undef ''log.lh.block''))"

definition set_lh_block :: "nat \<Rightarrow> u32 \<Rightarrow> ('a klog_scheme, unit) km" where
  "set_lh_block i v =
     (if i < LOGSIZE then upd_lh (\<lambda>h. h\<lparr>lh_block := (lh_block h)[i := v]\<rparr>)
      else kstop (Undef ''log.lh.block''))"

section \<open>Moving blocks between the log and their homes\<close>

definition log_blockno :: "nat \<Rightarrow> ('a klog_scheme, u32) km" where
  "log_blockno tail = kget (\<lambda>s. l_start s + of_nat tail + 1)"

definition install_trans :: "('a klog_scheme, unit) km \<Rightarrow> ('a klog_scheme, unit) km" where
  "install_trans sw =
     kbind get_lh_n (\<lambda>n.
     kfor [0..<nat n] (\<lambda>tail.
       kbind (kget l_dev) (\<lambda>dev.
       kbind (log_blockno tail) (\<lambda>lno.
       kbind (bread sw dev lno) (\<lambda>lbuf.
       kbind (get_lh_block tail) (\<lambda>home.
       kbind (bread sw dev home) (\<lambda>dbuf.
       kbind (get_buf lbuf b_data) (\<lambda>data.
       kseq (upd_buf dbuf (\<lambda>q. q\<lparr>b_data := data\<rparr>)) (
       kseq (bwrite sw dbuf) (
       kseq (bunpin dbuf) (
       kseq (brelse lbuf) (
       brelse dbuf))))))))))))"

text \<open>The header on disk: the count, then the block numbers, as 32-bit words.\<close>

definition read_head :: "('a klog_scheme, unit) km \<Rightarrow> ('a klog_scheme, unit) km" where
  "read_head sw =
     kbind (kget l_dev) (\<lambda>dev.
     kbind (kget l_start) (\<lambda>start.
     kbind (bread sw dev start) (\<lambda>b.
     kbind (get_buf b b_data) (\<lambda>data.
     kseq (upd_lh (\<lambda>h. h\<lparr>lh_n := sint (get32 data 0)\<rparr>)) (
     kbind get_lh_n (\<lambda>n.
     kseq (kfor [0..<nat n] (\<lambda>i. set_lh_block i (get32 data (4 + 4 * i)))) (
     brelse b)))))))"

definition write_head :: "('a klog_scheme, unit) km \<Rightarrow> ('a klog_scheme, unit) km" where
  "write_head sw =
     kbind (kget l_dev) (\<lambda>dev.
     kbind (kget l_start) (\<lambda>start.
     kbind (bread sw dev start) (\<lambda>b.
     kbind get_lh_n (\<lambda>n.
     kseq (upd_buf b (\<lambda>q. q\<lparr>b_data := put32 (b_data q) 0 (of_int n)\<rparr>)) (
     kseq (kfor [0..<nat n] (\<lambda>i.
       kbind (get_lh_block i) (\<lambda>v.
       upd_buf b (\<lambda>q. q\<lparr>b_data := put32 (b_data q) (4 + 4 * i) v\<rparr>)))) (
     kseq (bwrite sw b) (
     brelse b)))))))"

definition recover_from_log :: "('a klog_scheme, unit) km \<Rightarrow> ('a klog_scheme, unit) km" where
  "recover_from_log sw =
     kseq (read_head sw) (
     kseq (install_trans sw) (
     kseq (upd_lh (\<lambda>h. h\<lparr>lh_n := 0\<rparr>)) (
     write_head sw)))"

text \<open>A header takes 124 bytes, so that the check of initlog against BSIZE passes.\<close>

definition initlog :: "('a klog_scheme, unit) km \<Rightarrow> u32 \<Rightarrow> superblock \<Rightarrow> ('a klog_scheme, unit) km" where
  "initlog sw dev sb =
     (if 4 + 4 * LOGSIZE \<ge> BSIZE then kpanic ''initlog: too big logheader''
      else
        kseq (initlock LogLock ''log'') (
        kseq (kmod (\<lambda>s. s\<lparr>l_start := sb_logstart sb\<rparr>)) (
        kseq (kmod (\<lambda>s. s\<lparr>l_size := sint (sb_nlog sb)\<rparr>)) (
        kseq (kmod (\<lambda>s. s\<lparr>l_dev := dev\<rparr>)) (
        recover_from_log sw)))))"

definition write_log :: "('a klog_scheme, unit) km \<Rightarrow> ('a klog_scheme, unit) km" where
  "write_log sw =
     kbind get_lh_n (\<lambda>n.
     kfor [0..<nat n] (\<lambda>tail.
       kbind (kget l_dev) (\<lambda>dev.
       kbind (log_blockno tail) (\<lambda>lno.
       kbind (bread sw dev lno) (\<lambda>to.
       kbind (get_lh_block tail) (\<lambda>home.
       kbind (bread sw dev home) (\<lambda>from.
       kbind (get_buf from b_data) (\<lambda>data.
       kseq (upd_buf to (\<lambda>q. q\<lparr>b_data := data\<rparr>)) (
       kseq (bwrite sw to) (
       kseq (brelse from) (
       brelse to)))))))))))"

definition commit :: "('a klog_scheme, unit) km \<Rightarrow> ('a klog_scheme, unit) km" where
  "commit sw =
     kbind get_lh_n (\<lambda>n.
     if n > 0 then
       kseq (write_log sw) (
       kseq (write_head sw) (
       kseq (install_trans sw) (
       kseq (upd_lh (\<lambda>h. h\<lparr>lh_n := 0\<rparr>)) (
       write_head sw))))
     else kret ())"

section \<open>Transactions\<close>

definition begin_op :: "('a klog_scheme, unit) km \<Rightarrow> ('a klog_scheme, unit) km" where
  "begin_op sw =
     kseq (acquire LogLock) (
     kloop (
       kbind (kget l_committing) (\<lambda>committing.
       if committing then kseq (sleep sw ChLog LogLock) (kret None)
       else kbind get_lh_n (\<lambda>n.
         kbind (kget l_outstanding) (\<lambda>outstanding.
         if n + (outstanding + 1) * int MAXOPBLOCKS > int LOGSIZE then
           kseq (sleep sw ChLog LogLock) (kret None)
         else
           kseq (kmod (\<lambda>s. s\<lparr>l_outstanding := l_outstanding s + 1\<rparr>)) (
           kseq (release LogLock) (
           kret (Some ()))))))))"

definition end_op :: "('a klog_scheme, unit) km \<Rightarrow> ('a klog_scheme, unit) km" where
  "end_op sw =
     kseq (acquire LogLock) (
     kseq (kmod (\<lambda>s. s\<lparr>l_outstanding := l_outstanding s - 1\<rparr>)) (
     kbind (kget l_committing) (\<lambda>committing.
     if committing then kpanic ''log.committing''
     else kbind (kget l_outstanding) (\<lambda>outstanding.
       if outstanding = 0 then
         kseq (kmod (\<lambda>s. s\<lparr>l_committing := True\<rparr>)) (
         kseq (release LogLock) (
         kseq (commit sw) (
         kseq (acquire LogLock) (
         kseq (kmod (\<lambda>s. s\<lparr>l_committing := False\<rparr>)) (
         kseq (wakeup ChLog) (
         release LogLock))))))
       else
         kseq (wakeup ChLog) (
         release LogLock)))))"

definition log_write :: "nat \<Rightarrow> ('a klog_scheme, unit) km" where
  "log_write b =
     kbind get_lh_n (\<lambda>n.
     kbind (kget l_size) (\<lambda>lsz.
     if n \<ge> int LOGSIZE \<or> n \<ge> lsz - 1 then kpanic ''too big a transaction''
     else kbind (kget l_outstanding) (\<lambda>outstanding.
       if outstanding < 1 then kpanic ''log_write outside of trans''
       else
         kseq (acquire LogLock) (
         kbind get_lh_n (\<lambda>n.
         kbind (get_buf b b_blockno) (\<lambda>blockno.
         kbind (kfind [0..<nat n] (\<lambda>i.
           kbind (get_lh_block i) (\<lambda>v.
           kret (if v = blockno then Some i else None)))) (\<lambda>r.
         let i = (case r of Some i \<Rightarrow> i | None \<Rightarrow> nat n) in
         kseq (set_lh_block i blockno) (
         kseq (if int i = n then
             kseq (bpin b) (upd_lh (\<lambda>h. h\<lparr>lh_n := lh_n h + 1\<rparr>))
           else kret ()) (
         release LogLock)))))))))"

end
