(* ===== verification/Fs.thy ===== *)
theory Fs
  imports Log
begin

text \<open>
  kernel/fs.c: blocks, inodes, directories and path names on top of the log. On-disk
  structures are read from and written to the bytes of the cached blocks at the offsets
  that kernel/fs.h gives them. An in-memory inode is an index into the inode cache; a
  path is the list of its bytes without the terminating zero, a name the DIRSIZ bytes of
  the buffer that holds it.
\<close>

section \<open>State\<close>

definition NINODE :: nat where "NINODE = 50"
definition ROOTDEV :: u32 where "ROOTDEV = 1"
definition ROOTINO :: u32 where "ROOTINO = 1"
definition FSMAGIC :: u32 where "FSMAGIC = 0x10203040"
definition NDIRECT :: nat where "NDIRECT = 12"
definition NINDIRECT :: nat where "NINDIRECT = BSIZE div 4"
definition MAXFILE :: nat where "MAXFILE = NDIRECT + NINDIRECT"
definition IPB :: nat where "IPB = BSIZE div 64"
definition BPB :: nat where "BPB = BSIZE * 8"
definition DIRSIZ :: nat where "DIRSIZ = 14"
definition T_DIR :: u16 where "T_DIR = 1"
definition T_FILE :: u16 where "T_FILE = 2"
definition T_DEVICE :: u16 where "T_DEVICE = 3"

record inode =
  i_dev :: u32
  i_inum :: u32
  i_ref :: int
  i_valid :: bool
  i_type :: u16
  i_major :: u16
  i_minor :: u16
  i_nlink :: u16
  i_size :: u32
  i_addrs :: "u32 list"

record stat =
  st_dev :: u32
  st_ino :: u32
  st_type :: u16
  st_nlink :: u16
  st_size :: u64

record kfs = klog +
  inodes :: "nat \<Rightarrow> inode"
  sblk :: superblock

definition get_inode :: "nat \<Rightarrow> (inode \<Rightarrow> 'x) \<Rightarrow> ('a kfs_scheme, 'x) km" where
  "get_inode ip f = kget (\<lambda>s. f (inodes s ip))"

definition upd_inode :: "nat \<Rightarrow> (inode \<Rightarrow> inode) \<Rightarrow> ('a kfs_scheme, unit) km" where
  "upd_inode ip f = kmod (\<lambda>s. s\<lparr>inodes := (inodes s)(ip := f (inodes s ip))\<rparr>)"

definition IBLOCK :: "u32 \<Rightarrow> superblock \<Rightarrow> u32" where
  "IBLOCK i sb = i div of_nat IPB + sb_inodestart sb"

definition BBLOCK :: "u32 \<Rightarrow> superblock \<Rightarrow> u32" where
  "BBLOCK b sb = b div of_nat BPB + sb_bmapstart sb"

section \<open>Blocks\<close>

definition sb_of_bytes :: "u8 list \<Rightarrow> superblock" where
  "sb_of_bytes bs = \<lparr>sb_magic = get32 bs 0, sb_size = get32 bs 4, sb_nblocks = get32 bs 8,
     sb_ninodes = get32 bs 12, sb_nlog = get32 bs 16, sb_logstart = get32 bs 20,
     sb_inodestart = get32 bs 24, sb_bmapstart = get32 bs 28\<rparr>"

definition readsb :: "('a kfs_scheme, unit) km \<Rightarrow> u32 \<Rightarrow> ('a kfs_scheme, superblock) km" where
  "readsb sw dev =
     kbind (bread sw dev 1) (\<lambda>bp.
     kbind (get_buf bp b_data) (\<lambda>data.
     kseq (brelse bp) (
     kret (sb_of_bytes data))))"

definition fsinit :: "('a kfs_scheme, unit) km \<Rightarrow> u32 \<Rightarrow> ('a kfs_scheme, unit) km" where
  "fsinit sw dev =
     kbind (readsb sw dev) (\<lambda>sb.
     kseq (kmod (\<lambda>s. s\<lparr>sblk := sb\<rparr>)) (
     if sb_magic sb \<noteq> FSMAGIC then kpanic ''invalid file system''
     else initlog sw dev sb))"

definition bzero :: "('a kfs_scheme, unit) km \<Rightarrow> u32 \<Rightarrow> u32 \<Rightarrow> ('a kfs_scheme, unit) km" where
  "bzero sw dev bno =
     kbind (bread sw dev bno) (\<lambda>bp.
     kseq (upd_buf bp (\<lambda>q. q\<lparr>b_data := replicate BSIZE 0\<rparr>)) (
     kseq (log_write bp) (
     brelse bp)))"

definition bit_of :: "nat \<Rightarrow> u8" where
  "bit_of bi = push_bit (bi mod 8) 1"

definition balloc :: "('a kfs_scheme, unit) km \<Rightarrow> u32 \<Rightarrow> ('a kfs_scheme, u32) km" where
  "balloc sw dev =
     kbind (kget sblk) (\<lambda>sb.
     kbind (kfind [0..<(unat (sb_size sb) + BPB - 1) div BPB] (\<lambda>k.
       let b = k * BPB in
       kbind (bread sw dev (BBLOCK (of_nat b) sb)) (\<lambda>bp.
       kbind (kfind [0..<BPB] (\<lambda>bi.
         if b + bi < unat (sb_size sb) then
           kbind (get_buf bp b_data) (\<lambda>data.
           if data ! (bi div 8) AND bit_of bi = 0 then
             kseq (upd_buf bp (\<lambda>q. q\<lparr>b_data := data[bi div 8 := data ! (bi div 8) OR bit_of bi]\<rparr>)) (
             kseq (log_write bp) (
             kseq (brelse bp) (
             kseq (bzero sw dev (of_nat (b + bi))) (
             kret (Some (of_nat (b + bi)))))))
           else kret None)
         else kret None)) (\<lambda>r.
       case r of Some x \<Rightarrow> kret (Some x)
       | None \<Rightarrow> kseq (brelse bp) (kret None))))) (\<lambda>r.
     case r of Some x \<Rightarrow> kret x
     | None \<Rightarrow> kpanic ''balloc: out of blocks''))"

definition bfree :: "('a kfs_scheme, unit) km \<Rightarrow> u32 \<Rightarrow> u32 \<Rightarrow> ('a kfs_scheme, unit) km" where
  "bfree sw dev b =
     kbind (kget sblk) (\<lambda>sb.
     kbind (bread sw dev (BBLOCK b sb)) (\<lambda>bp.
     let bi = unat b mod BPB in
     kbind (get_buf bp b_data) (\<lambda>data.
     if data ! (bi div 8) AND bit_of bi = 0 then kpanic ''freeing free block''
     else
       kseq (upd_buf bp (\<lambda>q. q\<lparr>b_data := data[bi div 8 := data ! (bi div 8) AND NOT (bit_of bi)]\<rparr>)) (
       kseq (log_write bp) (
       brelse bp)))))"

section \<open>Inodes\<close>

definition iinit :: "('a kfs_scheme, unit) km" where
  "iinit =
     kseq (initlock IcacheLock ''icache'') (
     kfor [0..<NINODE] (\<lambda>i. initsleeplock (InodeLock i) ''inode''))"

text \<open>The inode cache scan of iget: the entry that holds the inode, or the first empty slot.\<close>

fun iget_scan :: "(nat \<Rightarrow> inode) \<Rightarrow> u32 \<Rightarrow> u32 \<Rightarrow> nat list \<Rightarrow> nat option \<Rightarrow> nat option \<times> nat option" where
  "iget_scan t dev inum [] emp = (None, emp)"
| "iget_scan t dev inum (ip # ips) emp =
     (if i_ref (t ip) > 0 \<and> i_dev (t ip) = dev \<and> i_inum (t ip) = inum then (Some ip, emp)
      else iget_scan t dev inum ips (if emp = None \<and> i_ref (t ip) = 0 then Some ip else emp))"

definition iget :: "u32 \<Rightarrow> u32 \<Rightarrow> ('a kfs_scheme, nat) km" where
  "iget dev inum =
     kseq (acquire IcacheLock) (
     kbind (kget inodes) (\<lambda>t.
     case iget_scan t dev inum [0..<NINODE] None of
       (Some ip, _) \<Rightarrow>
         kseq (upd_inode ip (\<lambda>i. i\<lparr>i_ref := int32 (i_ref i + 1)\<rparr>)) (
         kseq (release IcacheLock) (kret ip))
     | (None, None) \<Rightarrow> kpanic ''iget: no inodes''
     | (None, Some ip) \<Rightarrow>
         kseq (upd_inode ip (\<lambda>i. i\<lparr>i_dev := dev, i_inum := inum, i_ref := 1, i_valid := False\<rparr>)) (
         kseq (release IcacheLock) (kret ip))))"

text \<open>A dinode takes 64 bytes; its fields are at offsets 0, 2, 4, 6, 8 and 12.\<close>

definition dinode_off :: "u32 \<Rightarrow> nat" where
  "dinode_off inum = 64 * (unat inum mod IPB)"

definition ialloc :: "('a kfs_scheme, unit) km \<Rightarrow> u32 \<Rightarrow> u16 \<Rightarrow> ('a kfs_scheme, nat) km" where
  "ialloc sw dev type =
     kbind (kget sblk) (\<lambda>sb.
     kbind (kfind [1..<unat (sb_ninodes sb)] (\<lambda>inum.
       kbind (bread sw dev (IBLOCK (of_nat inum) sb)) (\<lambda>bp.
       kbind (get_buf bp b_data) (\<lambda>data.
       let off = dinode_off (of_nat inum) in
       if get16 data off = 0 then
         kseq (upd_buf bp (\<lambda>q. q\<lparr>b_data := put16 (put_bytes data off (replicate 64 0)) off type\<rparr>)) (
         kseq (log_write bp) (
         kseq (brelse bp) (
         kbind (iget dev (of_nat inum)) (\<lambda>ip. kret (Some ip)))))
       else kseq (brelse bp) (kret None))))) (\<lambda>r.
     case r of Some ip \<Rightarrow> kret ip
     | None \<Rightarrow> kpanic ''ialloc: no inodes''))"

definition put_addrs :: "u8 list \<Rightarrow> nat \<Rightarrow> u32 list \<Rightarrow> u8 list" where
  "put_addrs bs off as = put_bytes bs off (concat (map (\<lambda>a. nat_le 4 (unat a)) as))"

definition get_addrs :: "u8 list \<Rightarrow> nat \<Rightarrow> u32 list" where
  "get_addrs bs off = map (\<lambda>k. get32 bs (off + 4 * k)) [0..<NDIRECT + 1]"

definition put_dinode :: "u8 list \<Rightarrow> nat \<Rightarrow> inode \<Rightarrow> u8 list" where
  "put_dinode data off i =
     put_addrs (put32 (put16 (put16 (put16 (put16 data off (i_type i)) (off + 2) (i_major i))
       (off + 4) (i_minor i)) (off + 6) (i_nlink i)) (off + 8) (i_size i)) (off + 12) (i_addrs i)"

definition get_dinode :: "u8 list \<Rightarrow> nat \<Rightarrow> inode \<Rightarrow> inode" where
  "get_dinode data off i = i\<lparr>i_type := get16 data off, i_major := get16 data (off + 2),
     i_minor := get16 data (off + 4), i_nlink := get16 data (off + 6),
     i_size := get32 data (off + 8), i_addrs := get_addrs data (off + 12)\<rparr>"

definition iupdate :: "('a kfs_scheme, unit) km \<Rightarrow> nat \<Rightarrow> ('a kfs_scheme, unit) km" where
  "iupdate sw ip =
     kbind (kget sblk) (\<lambda>sb.
     kbind (get_inode ip id) (\<lambda>i.
     kbind (bread sw (i_dev i) (IBLOCK (i_inum i) sb)) (\<lambda>bp.
     kbind (get_inode ip id) (\<lambda>i.
     kseq (upd_buf bp (\<lambda>q. q\<lparr>b_data := put_dinode (b_data q) (dinode_off (i_inum i)) i\<rparr>)) (
     kseq (log_write bp) (
     brelse bp))))))"

definition idup :: "nat \<Rightarrow> ('a kfs_scheme, nat) km" where
  "idup ip =
     kseq (acquire IcacheLock) (
     kseq (upd_inode ip (\<lambda>i. i\<lparr>i_ref := int32 (i_ref i + 1)\<rparr>)) (
     kseq (release IcacheLock) (
     kret ip)))"

definition ilock :: "('a kfs_scheme, unit) km \<Rightarrow> nat \<Rightarrow> ('a kfs_scheme, unit) km" where
  "ilock sw ip =
     kbind (get_inode ip i_ref) (\<lambda>ref.
     if ref < 1 then kpanic ''ilock''
     else
       kseq (acquiresleep sw (InodeLock ip)) (
       kbind (get_inode ip i_valid) (\<lambda>v.
       if \<not> v then
         kbind (kget sblk) (\<lambda>sb.
         kbind (get_inode ip id) (\<lambda>i.
         kbind (bread sw (i_dev i) (IBLOCK (i_inum i) sb)) (\<lambda>bp.
         kbind (get_buf bp b_data) (\<lambda>data.
         kseq (upd_inode ip (\<lambda>i. get_dinode data (dinode_off (i_inum i)) i)) (
         kseq (brelse bp) (
         kseq (upd_inode ip (\<lambda>i. i\<lparr>i_valid := True\<rparr>)) (
         kbind (get_inode ip i_type) (\<lambda>ty.
         if ty = 0 then kpanic ''ilock: no type'' else kret ()))))))))
       else kret ())))"

definition iunlock :: "nat \<Rightarrow> ('a kfs_scheme, unit) km" where
  "iunlock ip =
     kbind (holdingsleep (InodeLock ip)) (\<lambda>h.
     kbind (get_inode ip i_ref) (\<lambda>ref.
     if \<not> h \<or> ref < 1 then kpanic ''iunlock'' else releasesleep (InodeLock ip)))"

subsection \<open>The content of an inode\<close>

definition set_addr :: "nat \<Rightarrow> nat \<Rightarrow> u32 \<Rightarrow> ('a kfs_scheme, unit) km" where
  "set_addr ip k a = upd_inode ip (\<lambda>i. i\<lparr>i_addrs := (i_addrs i)[k := a]\<rparr>)"

text \<open>The address in slot k of the inode, allocating a block when there is none.\<close>

definition slot_block :: "('a kfs_scheme, unit) km \<Rightarrow> nat \<Rightarrow> nat \<Rightarrow> ('a kfs_scheme, u32) km" where
  "slot_block sw ip k =
     kbind (get_inode ip (\<lambda>i. i_addrs i ! k)) (\<lambda>addr.
     if addr = 0 then
       kbind (get_inode ip i_dev) (\<lambda>dev.
       kbind (balloc sw dev) (\<lambda>addr.
       kseq (set_addr ip k addr) (kret addr)))
     else kret addr)"

definition bmap :: "('a kfs_scheme, unit) km \<Rightarrow> nat \<Rightarrow> u32 \<Rightarrow> ('a kfs_scheme, u32) km" where
  "bmap sw ip bn =
     (if bn < of_nat NDIRECT then slot_block sw ip (unat bn)
      else let bn = bn - of_nat NDIRECT in
        if bn < of_nat NINDIRECT then
          kbind (slot_block sw ip NDIRECT) (\<lambda>addr.
          kbind (get_inode ip i_dev) (\<lambda>dev.
          kbind (bread sw dev addr) (\<lambda>bp.
          kbind (get_buf bp b_data) (\<lambda>data.
          let addr = get32 data (4 * unat bn) in
          if addr = 0 then
            kbind (balloc sw dev) (\<lambda>addr.
            kseq (upd_buf bp (\<lambda>q. q\<lparr>b_data := put32 (b_data q) (4 * unat bn) addr\<rparr>)) (
            kseq (log_write bp) (
            kseq (brelse bp) (
            kret addr))))
          else kseq (brelse bp) (kret addr)))))
        else kpanic ''bmap: out of range'')"

definition itrunc :: "('a kfs_scheme, unit) km \<Rightarrow> nat \<Rightarrow> ('a kfs_scheme, unit) km" where
  "itrunc sw ip =
     kbind (get_inode ip i_dev) (\<lambda>dev.
     kseq (kfor [0..<NDIRECT] (\<lambda>i.
       kbind (get_inode ip (\<lambda>q. i_addrs q ! i)) (\<lambda>a.
       if a \<noteq> 0 then kseq (bfree sw dev a) (set_addr ip i 0) else kret ()))) (
     kbind (get_inode ip (\<lambda>q. i_addrs q ! NDIRECT)) (\<lambda>ind.
     kseq (if ind \<noteq> 0 then
         kbind (bread sw dev ind) (\<lambda>bp.
         kseq (kfor [0..<NINDIRECT] (\<lambda>j.
           kbind (get_buf bp b_data) (\<lambda>data.
           let a = get32 data (4 * j) in
           if a \<noteq> 0 then bfree sw dev a else kret ()))) (
         kseq (brelse bp) (
         kseq (bfree sw dev ind) (
         set_addr ip NDIRECT 0))))
       else kret ()) (
     kseq (upd_inode ip (\<lambda>i. i\<lparr>i_size := 0\<rparr>)) (
     iupdate sw ip)))))"

definition iput :: "('a kfs_scheme, unit) km \<Rightarrow> nat \<Rightarrow> ('a kfs_scheme, unit) km" where
  "iput sw ip =
     kseq (acquire IcacheLock) (
     kbind (get_inode ip id) (\<lambda>i.
     kseq (if i_ref i = 1 \<and> i_valid i \<and> i_nlink i = 0 then
         kseq (acquiresleep sw (InodeLock ip)) (
         kseq (release IcacheLock) (
         kseq (itrunc sw ip) (
         kseq (upd_inode ip (\<lambda>i. i\<lparr>i_type := 0\<rparr>)) (
         kseq (iupdate sw ip) (
         kseq (upd_inode ip (\<lambda>i. i\<lparr>i_valid := False\<rparr>)) (
         kseq (releasesleep (InodeLock ip)) (
         acquire IcacheLock)))))))
       else kret ()) (
     kseq (upd_inode ip (\<lambda>i. i\<lparr>i_ref := i_ref i - 1\<rparr>)) (
     release IcacheLock))))"

definition iunlockput :: "('a kfs_scheme, unit) km \<Rightarrow> nat \<Rightarrow> ('a kfs_scheme, unit) km" where
  "iunlockput sw ip = kseq (iunlock ip) (iput sw ip)"

definition stati :: "nat \<Rightarrow> ('a kfs_scheme, stat) km" where
  "stati ip = get_inode ip (\<lambda>i. \<lparr>st_dev = i_dev i, st_ino = i_inum i, st_type = i_type i,
     st_nlink = i_nlink i, st_size = ucast (i_size i)\<rparr>)"

text \<open>The number of bytes that one round of readi or writei moves.\<close>

definition block_part :: "u32 \<Rightarrow> u32 \<Rightarrow> u32" where
  "block_part left off =
     (let r = of_nat BSIZE - off mod of_nat BSIZE in if left < r then left else r)"

text \<open>
  readi gives the count and the bytes it copied out, so that a caller that reads into an
  object of its own gets its contents.
\<close>

definition readi ::
  "('a kfs_scheme, unit) km \<Rightarrow> nat \<Rightarrow> copy_dst \<Rightarrow> u32 \<Rightarrow> u32 \<Rightarrow> ('a kfs_scheme, int \<times> u8 list) km" where
  "readi sw ip dst off n =
     kbind (get_inode ip i_size) (\<lambda>isize.
     if off > isize \<or> off + n < off then kret (0, [])
     else let n = (if off + n > isize then isize - off else n) in
       kiter (\<lambda>(tot, off, dst, out).
         if tot < n then
           kbind (get_inode ip i_dev) (\<lambda>dev.
           kbind (bmap sw ip (off div of_nat BSIZE)) (\<lambda>bno.
           kbind (bread sw dev bno) (\<lambda>bp.
           let m = block_part (n - tot) off in
           kbind (get_buf bp b_data) (\<lambda>data.
           let part = take (unat m) (drop (unat off mod BSIZE) data) in
           kbind (either_copyout dst part) (\<lambda>r.
           if r = - 1 then kseq (brelse bp) (kret (Inr (sint tot, out)))
           else kseq (brelse bp) (
             kret (Inl (tot + m, off + m, dst_add dst (unat m), out @ part))))))))
         else kret (Inr (sint tot, out))) (0, off, dst, []))"

text \<open>The loop of writei gives the offset where it ended.\<close>

definition writei_loop ::
  "('a kfs_scheme, unit) km \<Rightarrow> nat \<Rightarrow> copy_src \<Rightarrow> u32 \<Rightarrow> u32 \<Rightarrow> ('a kfs_scheme, u32) km" where
  "writei_loop sw ip src off n =
     kiter (\<lambda>(tot, off, src).
       if tot < n then
         kbind (get_inode ip i_dev) (\<lambda>dev.
         kbind (bmap sw ip (off div of_nat BSIZE)) (\<lambda>bno.
         kbind (bread sw dev bno) (\<lambda>bp.
         let m = block_part (n - tot) off in
         kbind (either_copyin src (unat m)) (\<lambda>(r, bs).
         kseq (upd_buf bp (\<lambda>q. q\<lparr>b_data := put_bytes (b_data q) (unat off mod BSIZE) bs\<rparr>)) (
         if r = - 1 then kseq (brelse bp) (kret (Inr off))
         else
           kseq (log_write bp) (
           kseq (brelse bp) (
           kret (Inl (tot + m, off + m, src_add src (unat m))))))))))
       else kret (Inr off)) (0, off, src)"

definition writei ::
  "('a kfs_scheme, unit) km \<Rightarrow> nat \<Rightarrow> copy_src \<Rightarrow> u32 \<Rightarrow> u32 \<Rightarrow> ('a kfs_scheme, int) km" where
  "writei sw ip src off n =
     kbind (get_inode ip i_size) (\<lambda>isize.
     if off > isize \<or> off + n < off then kret (- 1)
     else if off + n > of_nat (MAXFILE * BSIZE) then kret (- 1)
     else kbind (writei_loop sw ip src off n) (\<lambda>off.
       kseq (if n > 0 then
           kseq (upd_inode ip (\<lambda>i. if off > i_size i then i\<lparr>i_size := off\<rparr> else i)) (iupdate sw ip)
         else kret ()) (
       kret (sint n))))"

section \<open>Directories\<close>

definition lview :: "u8 list \<Rightarrow> view" where
  "lview bs = (\<lambda>i. if i < length bs then bs ! i else 0)"

definition namecmp :: "u8 list \<Rightarrow> u8 list \<Rightarrow> int" where
  "namecmp s t = strncmp (lview s) (lview t) DIRSIZ"

text \<open>A directory entry takes 16 bytes: the inode number, then the name.\<close>

definition dirlookup ::
  "('a kfs_scheme, unit) km \<Rightarrow> nat \<Rightarrow> u8 list \<Rightarrow> ('a kfs_scheme, (nat \<times> u32) option) km" where
  "dirlookup sw dp name =
     kbind (get_inode dp i_type) (\<lambda>ty.
     if ty \<noteq> T_DIR then kpanic ''dirlookup not DIR''
     else kiter (\<lambda>off.
       kbind (get_inode dp i_size) (\<lambda>dsize.
       if off < dsize then
         kbind (readi sw dp ObjDst off 16) (\<lambda>(r, de).
         if r \<noteq> 16 then kpanic ''dirlookup read''
         else if get16 de 0 = 0 then kret (Inl (off + 16))
         else if namecmp name (take DIRSIZ (drop 2 de)) = 0 then
           kbind (get_inode dp i_dev) (\<lambda>dev.
           kbind (iget dev (ucast (get16 de 0))) (\<lambda>ip.
           kret (Inr (Some (ip, off)))))
         else kret (Inl (off + 16)))
       else kret (Inr None))) 0)"

definition dirlink ::
  "('a kfs_scheme, unit) km \<Rightarrow> nat \<Rightarrow> u8 list \<Rightarrow> u32 \<Rightarrow> ('a kfs_scheme, int) km" where
  "dirlink sw dp name inum =
     kbind (dirlookup sw dp name) (\<lambda>r.
     case r of Some (ip, _) \<Rightarrow> kseq (iput sw ip) (kret (- 1))
     | None \<Rightarrow>
         kbind (kiter (\<lambda>off.
           kbind (get_inode dp i_size) (\<lambda>dsize.
           if off < dsize then
             kbind (readi sw dp ObjDst off 16) (\<lambda>(r, de).
             if r \<noteq> 16 then kpanic ''dirlink read''
             else if get16 de 0 = 0 then kret (Inr off)
             else kret (Inl (off + 16)))
           else kret (Inr off))) 0) (\<lambda>off.
         kbind (writei sw dp (ObjSrc (nat_le 2 (unat inum) @ strncpy (lview name) DIRSIZ)) off 16) (\<lambda>r.
         if r \<noteq> 16 then kpanic ''dirlink'' else kret 0)))"

section \<open>Paths\<close>

definition slash :: u8 where "slash = 47"

definition skip_slashes :: "u8 list \<Rightarrow> u8 list" where
  "skip_slashes path = dropWhile (\<lambda>c. c = slash) path"

definition skipelem :: "u8 list \<Rightarrow> u8 list \<Rightarrow> (u8 list \<times> u8 list) option" where
  "skipelem path name =
     (let path = skip_slashes path in
      if path = [] then None
      else let s = takeWhile (\<lambda>c. c \<noteq> slash) path;
           rest = dropWhile (\<lambda>c. c \<noteq> slash) path;
           len = length s;
           name' = (if len \<ge> DIRSIZ then put_bytes name 0 (take DIRSIZ s)
             else put_bytes (put_bytes name 0 s) len [0])
         in Some (skip_slashes rest, name'))"

text \<open>Where the walk starts, the body of its loop, and the walk itself.\<close>

definition namex_start :: "u8 list \<Rightarrow> ('a kfs_scheme, nat) km" where
  "namex_start path =
     (if path \<noteq> [] \<and> hd path = slash then iget ROOTDEV ROOTINO
      else kbind curproc (\<lambda>p. kbind (get_proc p p_cwd) (\<lambda>cwd. kbind (nonnull cwd) idup)))"

definition namex_step ::
  "('a kfs_scheme, unit) km \<Rightarrow> bool \<Rightarrow> u8 list \<times> nat \<times> u8 list \<Rightarrow>
   ('a kfs_scheme, (u8 list \<times> nat \<times> u8 list) + (nat option \<times> u8 list)) km" where
  "namex_step sw nameiparent = (\<lambda>(path, ip, name).
     case skipelem path name of
       None \<Rightarrow>
         if nameiparent then kseq (iput sw ip) (kret (Inr (None, name)))
         else kret (Inr (Some ip, name))
     | Some (path', name') \<Rightarrow>
         kseq (ilock sw ip) (
         kbind (get_inode ip i_type) (\<lambda>ty.
         if ty \<noteq> T_DIR then kseq (iunlockput sw ip) (kret (Inr (None, name')))
         else if nameiparent \<and> path' = [] then kseq (iunlock ip) (kret (Inr (Some ip, name')))
         else kbind (dirlookup sw ip name') (\<lambda>r.
           case r of None \<Rightarrow> kseq (iunlockput sw ip) (kret (Inr (None, name')))
           | Some (nxt, _) \<Rightarrow> kseq (iunlockput sw ip) (kret (Inl (path', nxt, name')))))))"

definition namex ::
  "('a kfs_scheme, unit) km \<Rightarrow> u8 list \<Rightarrow> bool \<Rightarrow> u8 list \<Rightarrow> ('a kfs_scheme, nat option \<times> u8 list) km" where
  "namex sw path nameiparent name =
     kbind (namex_start path) (\<lambda>ip. kiter (namex_step sw nameiparent) (path, ip, name))"

definition namei :: "('a kfs_scheme, unit) km \<Rightarrow> u8 list \<Rightarrow> ('a kfs_scheme, nat option) km" where
  "namei sw path = kbind (namex sw path False (replicate DIRSIZ 0)) (\<lambda>(ip, _). kret ip)"

definition nameiparent ::
  "('a kfs_scheme, unit) km \<Rightarrow> u8 list \<Rightarrow> u8 list \<Rightarrow> ('a kfs_scheme, nat option \<times> u8 list) km" where
  "nameiparent sw path name = namex sw path True name"

end
