(* ===== verification/Console.thy ===== *)
theory Console
  imports Fs
begin

text \<open>
  kernel/uart.c, kernel/console.c and kernel/printf.c: the serial port, the console with its
  line editing, and formatted output; also procdump of kernel/proc.c.

  The serial port is hardware: the values that successive reads of its line status register
  and of its receive register give are arbitrary sequences, and the bytes written to its
  registers are logged.
\<close>

section \<open>State\<close>

definition UART_TX_BUF_SIZE :: nat where "UART_TX_BUF_SIZE = 32"
definition INPUT_BUF :: nat where "INPUT_BUF = 128"
definition BACKSPACE :: int where "BACKSPACE = 0x100"

definition RHR :: nat where "RHR = 0"
definition THR :: nat where "THR = 0"
definition IER :: nat where "IER = 1"
definition FCR :: nat where "FCR = 2"
definition LCR :: nat where "LCR = 3"
definition LSR :: nat where "LSR = 5"
definition LSR_RX_READY :: u8 where "LSR_RX_READY = 1"
definition LSR_TX_IDLE :: u8 where "LSR_TX_IDLE = push_bit 5 1"

record cons =
  cons_buf :: "u8 list"
  cons_r :: u32
  cons_w :: u32
  cons_e :: u32

datatype device = ConsoleDev

record kcons = kfs +
  lsr_in :: "nat \<Rightarrow> u8"
  lsr_t :: nat
  rhr_in :: "nat \<Rightarrow> u8"
  rhr_t :: nat
  uart_out :: "(nat \<times> u8) list"
  uart_tx_buf :: "u8 list"
  uart_tx_w :: nat
  uart_tx_r :: nat
  panicked :: bool
  pr_locking :: bool
  cns :: cons
  devsw :: "nat \<Rightarrow> device option"

definition ReadLSR :: "('a kcons_scheme, u8) km" where
  "ReadLSR = kbind (kget (\<lambda>s. lsr_in s (lsr_t s))) (\<lambda>v.
     kseq (kmod (\<lambda>s. s\<lparr>lsr_t := Suc (lsr_t s)\<rparr>)) (kret v))"

definition ReadRHR :: "('a kcons_scheme, u8) km" where
  "ReadRHR = kbind (kget (\<lambda>s. rhr_in s (rhr_t s))) (\<lambda>v.
     kseq (kmod (\<lambda>s. s\<lparr>rhr_t := Suc (rhr_t s)\<rparr>)) (kret v))"

definition WriteReg :: "nat \<Rightarrow> u8 \<Rightarrow> ('a kcons_scheme, unit) km" where
  "WriteReg r v = kmod (\<lambda>s. s\<lparr>uart_out := uart_out s @ [(r, v)]\<rparr>)"

definition upd_cons :: "(cons \<Rightarrow> cons) \<Rightarrow> ('a kcons_scheme, unit) km" where
  "upd_cons f = kmod (\<lambda>s. s\<lparr>cns := f (cns s)\<rparr>)"

section \<open>Sending\<close>

definition uartinit :: "('a kcons_scheme, unit) km" where
  "uartinit =
     kseq (WriteReg IER 0) (
     kseq (WriteReg LCR (push_bit 7 1)) (
     kseq (WriteReg 0 3) (
     kseq (WriteReg 1 0) (
     kseq (WriteReg LCR 3) (
     kseq (WriteReg FCR (1 OR push_bit 1 3)) (
     kseq (WriteReg IER (1 OR 2)) (
     initlock UartTxLock ''uart'')))))))"

definition uartputc_sync :: "u8 \<Rightarrow> ('a kcons_scheme, unit) km" where
  "uartputc_sync c =
     kseq push_off (
     kbind (kget panicked) (\<lambda>pk.
     if pk then kstop Diverge
     else
       kseq (kloop (kbind ReadLSR (\<lambda>l. kret (if l AND LSR_TX_IDLE = 0 then None else Some ())))) (
       kseq (WriteReg THR c) pop_off)))"

definition tx_empty :: "'a kcons_scheme \<Rightarrow> bool" where
  "tx_empty s \<longleftrightarrow> uart_tx_w s = uart_tx_r s"

definition tx_full :: "'a kcons_scheme \<Rightarrow> bool" where
  "tx_full s \<longleftrightarrow> (uart_tx_w s + 1) mod UART_TX_BUF_SIZE = uart_tx_r s"

definition tx_put :: "u8 \<Rightarrow> 'a kcons_scheme \<Rightarrow> 'a kcons_scheme" where
  "tx_put c s = s\<lparr>uart_tx_buf := (uart_tx_buf s)[uart_tx_w s := c],
     uart_tx_w := (uart_tx_w s + 1) mod UART_TX_BUF_SIZE\<rparr>"

definition tx_head :: "'a kcons_scheme \<Rightarrow> u8" where
  "tx_head s = uart_tx_buf s ! uart_tx_r s"

definition tx_drop :: "'a kcons_scheme \<Rightarrow> 'a kcons_scheme" where
  "tx_drop s = s\<lparr>uart_tx_r := (uart_tx_r s + 1) mod UART_TX_BUF_SIZE\<rparr>"

definition uartstart :: "('a kcons_scheme, unit) km" where
  "uartstart =
     kloop (
       kbind (kget tx_empty) (\<lambda>emp.
       if emp then kret (Some ())
       else kbind ReadLSR (\<lambda>l.
         if l AND LSR_TX_IDLE = 0 then kret (Some ())
         else kbind (kget tx_head) (\<lambda>c.
           kseq (kmod tx_drop) (
           kseq (wakeup ChUartTx) (
           kseq (WriteReg THR c) (
           kret None)))))))"

definition uartputc :: "('a kcons_scheme, unit) km \<Rightarrow> u8 \<Rightarrow> ('a kcons_scheme, unit) km" where
  "uartputc sw c =
     kseq (acquire UartTxLock) (
     kbind (kget panicked) (\<lambda>pk.
     if pk then kstop Diverge
     else kloop (
       kbind (kget tx_full) (\<lambda>full.
       if full then kseq (sleep sw ChUartTx UartTxLock) (kret None)
       else
         kseq (kmod (tx_put c)) (
         kseq uartstart (
         kseq (release UartTxLock) (
         kret (Some ()))))))))"

definition uartgetc :: "('a kcons_scheme, int) km" where
  "uartgetc =
     kbind ReadLSR (\<lambda>l.
     if l AND LSR_RX_READY \<noteq> 0 then kbind ReadRHR (\<lambda>c. kret (uint c)) else kret (- 1))"

definition consputc :: "int \<Rightarrow> ('a kcons_scheme, unit) km" where
  "consputc c =
     (if c = BACKSPACE then kseq (uartputc_sync 8) (kseq (uartputc_sync 32) (uartputc_sync 8))
      else uartputc_sync (of_int c))"

section \<open>Formatted output\<close>

definition ascii :: "string \<Rightarrow> u8 list" where
  "ascii s = map (\<lambda>c. of_nat (of_char c)) s"

definition digits :: "nat \<Rightarrow> u8" where
  "digits d = (if d < 10 then of_nat (48 + d) else of_nat (87 + d))"

text \<open>The digits of x in a base of at least 2, least significant first.\<close>

function digits_rev :: "nat \<Rightarrow> nat \<Rightarrow> u8 list" where
  "digits_rev b x =
     (if b < 2 then []
      else digits (x mod b) # (if x div b \<noteq> 0 then digits_rev b (x div b) else []))"
  by pat_completeness auto
termination
  by (relation "measure snd") (auto simp: div_eq_0_iff intro!: div_less_dividend)

declare digits_rev.simps [simp del]

definition printint_bytes :: "u32 \<Rightarrow> nat \<Rightarrow> bool \<Rightarrow> u8 list" where
  "printint_bytes xx b sign =
     (let neg = (sign \<and> sint xx < 0);
          x = (if neg then - xx else xx)
      in rev (digits_rev b (unat x) @ (if neg then [45] else [])))"

definition consputs :: "u8 list \<Rightarrow> ('a kcons_scheme, unit) km" where
  "consputs bs = kfor bs (\<lambda>c. consputc (uint c))"

definition printint :: "u32 \<Rightarrow> nat \<Rightarrow> bool \<Rightarrow> ('a kcons_scheme, unit) km" where
  "printint xx b sign = consputs (printint_bytes xx b sign)"

definition printptr_bytes :: "u64 \<Rightarrow> u8 list" where
  "printptr_bytes x =
     48 # 120 # map (\<lambda>i. digits (unat (drop_bit 60 (push_bit (4 * i) x)))) [0..<16]"

definition printptr :: "u64 \<Rightarrow> ('a kcons_scheme, unit) km" where
  "printptr x = consputs (printptr_bytes x)"

datatype vararg = VInt u32 | VPtr u64 | VStr "u8 list option"

text \<open>
  What printf prints, or None when the arguments do not fit the format. The characters of
  the format are those of a C string, so none is 0.
\<close>

fun format :: "u8 list \<Rightarrow> vararg list \<Rightarrow> u8 list option" where
  "format [] args = Some []"
| "format (c # fmt) args =
     (if c \<noteq> 37 then map_option (Cons c) (format fmt args)
      else case fmt of [] \<Rightarrow> Some []
      | d # fmt' \<Rightarrow>
          if d = 100 then
            (case args of VInt x # args' \<Rightarrow> map_option (append (printint_bytes x 10 True)) (format fmt' args')
             | _ \<Rightarrow> None)
          else if d = 120 then
            (case args of VInt x # args' \<Rightarrow> map_option (append (printint_bytes x 16 True)) (format fmt' args')
             | _ \<Rightarrow> None)
          else if d = 112 then
            (case args of VPtr x # args' \<Rightarrow> map_option (append (printptr_bytes x)) (format fmt' args')
             | _ \<Rightarrow> None)
          else if d = 115 then
            (case args of VStr x # args' \<Rightarrow>
               map_option (append (case x of None \<Rightarrow> ascii ''(null)'' | Some str \<Rightarrow> str)) (format fmt' args')
             | _ \<Rightarrow> None)
          else if d = 37 then map_option (Cons 37) (format fmt' args)
          else map_option (\<lambda>r. 37 # d # r) (format fmt' args))"

definition printf :: "u8 list \<Rightarrow> vararg list \<Rightarrow> ('a kcons_scheme, unit) km" where
  "printf fmt args =
     kbind (kget pr_locking) (\<lambda>locking.
     kseq (if locking then acquire PrLock else kret ()) (
     kseq (case format fmt args of None \<Rightarrow> kstop (Undef ''printf'') | Some out \<Rightarrow> consputs out) (
     if locking then release PrLock else kret ())))"

text \<open>The message goes out as a format; the endless loop at the end is the outcome Panic.\<close>

definition panic :: "string \<Rightarrow> ('a kcons_scheme, unit) km" where
  "panic msg =
     kseq (kmod (\<lambda>s. s\<lparr>pr_locking := False\<rparr>)) (
     kseq (printf (ascii ''panic: '') []) (
     kseq (printf (ascii msg) []) (
     kseq (printf [10] []) (
     kseq (kmod (\<lambda>s. s\<lparr>panicked := True\<rparr>)) (
     kpanic msg)))))"

definition printfinit :: "('a kcons_scheme, unit) km" where
  "printfinit = kseq (initlock PrLock ''pr'') (kmod (\<lambda>s. s\<lparr>pr_locking := True\<rparr>))"

definition state_name :: "procstate \<Rightarrow> string" where
  "state_name st = (case st of UNUSED \<Rightarrow> ''unused'' | SLEEPING \<Rightarrow> ''sleep '' | RUNNABLE \<Rightarrow> ''runble''
     | RUNNING \<Rightarrow> ''run   '' | ZOMBIE \<Rightarrow> ''zombie'')"

definition procdump :: "('a kcons_scheme, unit) km" where
  "procdump =
     kseq (printf [10] []) (
     kfor [0..<NPROC] (\<lambda>p.
       kbind (get_proc p id) (\<lambda>q.
       if p_state q = UNUSED then kret ()
       else
         kseq (printf (ascii ''%d %s %s'')
           [VInt (of_int (p_pid q)), VStr (Some (ascii (state_name (p_state q)))),
            VStr (Some (takeWhile (\<lambda>c. c \<noteq> 0) (p_name q)))]) (
         printf [10] []))))"

section \<open>The console\<close>

definition consolewrite :: "('a kcons_scheme, unit) km \<Rightarrow> copy_src \<Rightarrow> int \<Rightarrow> ('a kcons_scheme, int) km" where
  "consolewrite sw src n =
     kseq (acquire ConsLock) (
     kiter (\<lambda>i.
       if i < n then
         kbind (either_copyin (src_add src (nat i)) 1) (\<lambda>(r, bs).
         if r = - 1 then kseq (release ConsLock) (kret (Inr i))
         else kseq (uartputc sw (hd bs)) (kret (Inl (i + 1))))
       else kseq (release ConsLock) (kret (Inr i))) 0)"

text \<open>The inner wait of consoleread: False when the reader was killed.\<close>

definition cons_wait :: "('a kcons_scheme, unit) km \<Rightarrow> ('a kcons_scheme, bool) km" where
  "cons_wait sw =
     kloop (
       kbind (kget cns) (\<lambda>c.
       if cons_r c = cons_w c then
         kbind curproc (\<lambda>p.
         kbind (get_proc p p_killed) (\<lambda>killed.
         if killed \<noteq> 0 then kseq (release ConsLock) (kret (Some False))
         else kseq (sleep sw ChCons ConsLock) (kret None)))
       else kret (Some True)))"

definition cons_take :: "('a kcons_scheme, u8) km" where
  "cons_take =
     kbind (kget cns) (\<lambda>c.
     kseq (upd_cons (\<lambda>c. c\<lparr>cons_r := cons_r c + 1\<rparr>)) (
     kret (cons_buf c ! (unat (cons_r c) mod INPUT_BUF))))"

definition consoleread :: "('a kcons_scheme, unit) km \<Rightarrow> copy_dst \<Rightarrow> int \<Rightarrow> ('a kcons_scheme, int) km" where
  "consoleread sw dst n =
     (let target = n; fin = (\<lambda>n. kseq (release ConsLock) (kret (Inr (target - n)))) in
     kseq (acquire ConsLock) (
     kiter (\<lambda>(dst, n).
       if n > 0 then
         kbind (cons_wait sw) (\<lambda>ok.
         if \<not> ok then kret (Inr (- 1))
         else kbind cons_take (\<lambda>c.
           if c = 4 then
             kseq (if n < target then upd_cons (\<lambda>c. c\<lparr>cons_r := cons_r c - 1\<rparr>) else kret ()) (fin n)
           else kbind (either_copyout dst [c]) (\<lambda>r.
             if r = - 1 then fin n
             else if c = 10 then fin (n - 1)
             else kret (Inl (dst_add dst 1, n - 1)))))
       else fin n) (dst, n)))"

definition consoleintr :: "int \<Rightarrow> ('a kcons_scheme, unit) km" where
  "consoleintr c =
     kseq (acquire ConsLock) (
     kseq (
       if c = 16 then procdump
       else if c = 21 then
         kloop (
           kbind (kget cns) (\<lambda>k.
           if cons_e k \<noteq> cons_w k \<and> cons_buf k ! (unat (cons_e k - 1) mod INPUT_BUF) \<noteq> 10 then
             kseq (upd_cons (\<lambda>k. k\<lparr>cons_e := cons_e k - 1\<rparr>)) (
             kseq (consputc BACKSPACE) (kret None))
           else kret (Some ())))
       else if c = 8 \<or> c = 127 then
         kbind (kget cns) (\<lambda>k.
         if cons_e k \<noteq> cons_w k then
           kseq (upd_cons (\<lambda>k. k\<lparr>cons_e := cons_e k - 1\<rparr>)) (consputc BACKSPACE)
         else kret ())
       else
         kbind (kget cns) (\<lambda>k.
         if c \<noteq> 0 \<and> unat (cons_e k - cons_r k) < INPUT_BUF then
           let c = (if c = 13 then 10 else c) in
           kseq (consputc c) (
           kseq (upd_cons (\<lambda>k. k\<lparr>cons_buf := (cons_buf k)[unat (cons_e k) mod INPUT_BUF := of_int c],
             cons_e := cons_e k + 1\<rparr>)) (
           kbind (kget cns) (\<lambda>k.
           if c = 10 \<or> c = 4 \<or> cons_e k = cons_r k + of_nat INPUT_BUF then
             kseq (upd_cons (\<lambda>k. k\<lparr>cons_w := cons_e k\<rparr>)) (wakeup ChCons)
           else kret ())))
         else kret ())) (
     release ConsLock))"

definition uartintr :: "('a kcons_scheme, unit) km" where
  "uartintr =
     kseq (kloop (
       kbind uartgetc (\<lambda>c.
       if c = - 1 then kret (Some ()) else kseq (consoleintr c) (kret None)))) (
     kseq (acquire UartTxLock) (
     kseq uartstart (
     release UartTxLock)))"

definition CONSOLE :: nat where "CONSOLE = 1"

definition consoleinit :: "('a kcons_scheme, unit) km" where
  "consoleinit =
     kseq (initlock ConsLock ''cons'') (
     kseq uartinit (
     kmod (\<lambda>s. s\<lparr>devsw := (devsw s)(CONSOLE := Some ConsoleDev)\<rparr>)))"

end
