(* ===== verification/File.thy ===== *)
theory File
  imports Console
begin

text \<open>
  kernel/file.c: open files, shared by reference count, over pipes, devices and inodes; and
  pipealloc of kernel/pipe.c. The padding bytes of struct stat are 0 here.
\<close>

datatype ftype = FD_NONE | FD_PIPE | FD_INODE | FD_DEVICE

record ofile =
  f_type :: ftype
  f_ref :: int
  f_readable :: bool
  f_writable :: bool
  f_pipe :: u64
  f_ip :: nat
  f_off :: u32
  f_major :: u16

record kfile = kcons +
  ftable :: "nat \<Rightarrow> ofile"

definition NDEV :: nat where "NDEV = 10"

definition get_file :: "nat \<Rightarrow> (ofile \<Rightarrow> 'x) \<Rightarrow> ('a kfile_scheme, 'x) km" where
  "get_file f g = kget (\<lambda>s. g (ftable s f))"

definition upd_file :: "nat \<Rightarrow> (ofile \<Rightarrow> ofile) \<Rightarrow> ('a kfile_scheme, unit) km" where
  "upd_file f g = kmod (\<lambda>s. s\<lparr>ftable := (ftable s)(f := g (ftable s f))\<rparr>)"

definition fileinit :: "('a kfile_scheme, unit) km" where
  "fileinit = initlock FtableLock ''ftable''"

definition filealloc :: "('a kfile_scheme, nat option) km" where
  "filealloc =
     kseq (acquire FtableLock) (
     kbind (kfind [0..<NFILE] (\<lambda>f.
       kbind (get_file f f_ref) (\<lambda>ref.
       if ref = 0 then kseq (upd_file f (\<lambda>q. q\<lparr>f_ref := 1\<rparr>)) (kret (Some f)) else kret None))) (\<lambda>r.
     kseq (release FtableLock) (
     kret r)))"

definition filedup :: "nat \<Rightarrow> ('a kfile_scheme, nat) km" where
  "filedup f =
     kseq (acquire FtableLock) (
     kbind (get_file f f_ref) (\<lambda>ref.
     if ref < 1 then kpanic ''filedup''
     else
       kseq (upd_file f (\<lambda>q. q\<lparr>f_ref := int32 (f_ref q + 1)\<rparr>)) (
       kseq (release FtableLock) (
       kret f))))"

definition fileclose :: "('a kfile_scheme, unit) km \<Rightarrow> nat \<Rightarrow> ('a kfile_scheme, unit) km" where
  "fileclose sw f =
     kseq (acquire FtableLock) (
     kbind (get_file f f_ref) (\<lambda>ref.
     if ref < 1 then kpanic ''fileclose''
     else
       kseq (upd_file f (\<lambda>q. q\<lparr>f_ref := f_ref q - 1\<rparr>)) (
       kbind (get_file f id) (\<lambda>ff.
       if f_ref ff > 0 then release FtableLock
       else
         kseq (upd_file f (\<lambda>q. q\<lparr>f_ref := 0, f_type := FD_NONE\<rparr>)) (
         kseq (release FtableLock) (
         if f_type ff = FD_PIPE then pipeclose (f_pipe ff) (f_writable ff)
         else if f_type ff = FD_INODE \<or> f_type ff = FD_DEVICE then
           kseq (begin_op sw) (
           kseq (iput sw (f_ip ff)) (
           end_op sw))
         else kret ()))))))"

definition stat_bytes :: "stat \<Rightarrow> u8 list" where
  "stat_bytes st = nat_le 4 (unat (st_dev st)) @ nat_le 4 (unat (st_ino st)) @
     nat_le 2 (unat (st_type st)) @ nat_le 2 (unat (st_nlink st)) @ replicate 4 0 @
     nat_le 8 (unat (st_size st))"

definition filestat :: "('a kfile_scheme, unit) km \<Rightarrow> nat \<Rightarrow> u64 \<Rightarrow> ('a kfile_scheme, int) km" where
  "filestat sw f addr =
     kbind curproc (\<lambda>p.
     kbind (get_file f id) (\<lambda>ff.
     if f_type ff = FD_INODE \<or> f_type ff = FD_DEVICE then
       kseq (ilock sw (f_ip ff)) (
       kbind (stati (f_ip ff)) (\<lambda>st.
       kseq (iunlock (f_ip ff)) (
       kbind (get_proc p p_pagetable) (\<lambda>pt.
       kbind (copyout_obj pt addr (stat_bytes st)) (\<lambda>r.
       kret (if r < 0 then - 1 else 0))))))
     else kret (- 1)))"

text \<open>The device functions: only the console has them.\<close>

definition dev_of :: "u16 \<Rightarrow> ('a kfile_scheme, device option) km" where
  "dev_of mj =
     (if sint mj < 0 \<or> sint mj \<ge> int NDEV then kret None else kget (\<lambda>s. devsw s (unat mj)))"

definition fileread :: "('a kfile_scheme, unit) km \<Rightarrow> nat \<Rightarrow> u64 \<Rightarrow> int \<Rightarrow> ('a kfile_scheme, int) km" where
  "fileread sw f addr n =
     kbind (get_file f id) (\<lambda>ff.
     if \<not> f_readable ff then kret (- 1)
     else case f_type ff of
       FD_PIPE \<Rightarrow> piperead sw (f_pipe ff) addr n
     | FD_DEVICE \<Rightarrow>
         kbind (dev_of (f_major ff)) (\<lambda>d.
         case d of None \<Rightarrow> kret (- 1) | Some ConsoleDev \<Rightarrow> consoleread sw (UserDst addr) n)
     | FD_INODE \<Rightarrow>
         kseq (ilock sw (f_ip ff)) (
         kbind (get_file f f_off) (\<lambda>off.
         kbind (readi sw (f_ip ff) (UserDst addr) off (of_int n)) (\<lambda>(r, _).
         kseq (if r > 0 then upd_file f (\<lambda>q. q\<lparr>f_off := f_off q + of_int r\<rparr>) else kret ()) (
         kseq (iunlock (f_ip ff)) (
         kret r)))))
     | FD_NONE \<Rightarrow> kpanic ''fileread'')"

text \<open>A write goes in pieces of at most three blocks, one transaction each.\<close>

definition WRITE_MAX :: int where
  "WRITE_MAX = int ((MAXOPBLOCKS - 1 - 1 - 2) div 2 * BSIZE)"

definition filewrite :: "('a kfile_scheme, unit) km \<Rightarrow> nat \<Rightarrow> u64 \<Rightarrow> int \<Rightarrow> ('a kfile_scheme, int) km" where
  "filewrite sw f addr n =
     kbind (get_file f id) (\<lambda>ff.
     if \<not> f_writable ff then kret (- 1)
     else case f_type ff of
       FD_PIPE \<Rightarrow> pipewrite sw (f_pipe ff) addr n
     | FD_DEVICE \<Rightarrow>
         kbind (dev_of (f_major ff)) (\<lambda>d.
         case d of None \<Rightarrow> kret (- 1) | Some ConsoleDev \<Rightarrow> consolewrite sw (UserSrc addr) n)
     | FD_INODE \<Rightarrow>
         kbind (kiter (\<lambda>i.
           if i < n then
             let n1 = (if n - i > WRITE_MAX then WRITE_MAX else n - i) in
             kseq (begin_op sw) (
             kseq (ilock sw (f_ip ff)) (
             kbind (get_file f f_off) (\<lambda>off.
             kbind (writei sw (f_ip ff) (UserSrc (addr + of_int i)) off (of_int n1)) (\<lambda>r.
             kseq (if r > 0 then upd_file f (\<lambda>q. q\<lparr>f_off := f_off q + of_int r\<rparr>) else kret ()) (
             kseq (iunlock (f_ip ff)) (
             kseq (end_op sw) (
             if r < 0 then kret (Inr i)
             else if r \<noteq> n1 then kpanic ''short filewrite''
             else kret (Inl (i + r)))))))))
           else kret (Inr i)) 0) (\<lambda>i.
         kret (if i = n then n else - 1))
     | FD_NONE \<Rightarrow> kpanic ''filewrite'')"

section \<open>pipealloc\<close>

definition close_opt :: "('a kfile_scheme, unit) km \<Rightarrow> nat option \<Rightarrow> ('a kfile_scheme, unit) km" where
  "close_opt sw f = (case f of None \<Rightarrow> kret () | Some f \<Rightarrow> fileclose sw f)"

text \<open>The two files of the new pipe, read end first, or None when it returns -1.\<close>

definition pipealloc :: "('a kfile_scheme, unit) km \<Rightarrow> ('a kfile_scheme, (nat \<times> nat) option) km" where
  "pipealloc sw =
     kbind filealloc (\<lambda>f0.
     case f0 of None \<Rightarrow> kret None
     | Some rfd \<Rightarrow>
         kbind filealloc (\<lambda>f1.
         case f1 of None \<Rightarrow> kseq (close_opt sw f0) (kret None)
         | Some wfd \<Rightarrow>
             kbind kalloc (\<lambda>pi.
             if pi = 0 then kseq (close_opt sw f0) (kseq (close_opt sw f1) (kret None))
             else
               kseq (upd_pipe pi (\<lambda>q. q\<lparr>readopen := True, writeopen := True, nwrite := 0, nread := 0\<rparr>)) (
               kseq (initlock (PipeLock pi) ''pipe'') (
               kseq (upd_file rfd (\<lambda>q. q\<lparr>f_type := FD_PIPE, f_readable := True, f_writable := False, f_pipe := pi\<rparr>)) (
               kseq (upd_file wfd (\<lambda>q. q\<lparr>f_type := FD_PIPE, f_readable := False, f_writable := True, f_pipe := pi\<rparr>)) (
               kret (Some (rfd, wfd)))))))))"

end
