(* ===== verification/Process.thy ===== *)
theory Process
  imports File
begin

text \<open>
  The part of kernel/proc.c above the file system (fork, exit, userinit), and kernel/exec.c.
\<close>

section \<open>Creating and ending processes\<close>

definition initcode :: "u8 list" where
  "initcode = [
     0x17, 0x05, 0x00, 0x00, 0x13, 0x05, 0x45, 0x02,
     0x97, 0x05, 0x00, 0x00, 0x93, 0x85, 0x35, 0x02,
     0x93, 0x08, 0x70, 0x00, 0x73, 0x00, 0x00, 0x00,
     0x93, 0x08, 0x20, 0x00, 0x73, 0x00, 0x00, 0x00,
     0xef, 0xf0, 0x9f, 0xff, 0x2f, 0x69, 0x6e, 0x69,
     0x74, 0x00, 0x00, 0x24, 0x00, 0x00, 0x00, 0x00,
     0x00, 0x00, 0x00, 0x00]"

text \<open>safestrcpy into the 16 bytes of a process name.\<close>

definition set_name :: "nat \<Rightarrow> view \<Rightarrow> ('a kproc_scheme, unit) km" where
  "set_name p t = upd_proc p (\<lambda>q. q\<lparr>p_name := put_bytes (p_name q) 0 (safestrcpy t 16)\<rparr>)"

text \<open>The bytes of initcode are in the kernel's data at the link-time address k_initcode.\<close>

definition userinit :: "('a kfs_scheme, unit) km \<Rightarrow> ('a kfs_scheme, unit) km" where
  "userinit sw =
     kbind allocproc (\<lambda>np.
     kseq (kmod (\<lambda>s. s\<lparr>initproc := np\<rparr>)) (
     kbind (nonnull np) (\<lambda>p.
     kbind (get_proc p p_pagetable) (\<lambda>pt.
     kbind (kget k_initcode) (\<lambda>src.
     kseq (uvminit pt src (of_nat (length initcode))) (
     kseq (upd_proc p (\<lambda>q. q\<lparr>p_sz := PGSIZE\<rparr>)) (
     kseq (tf_set p tf_epc 0) (
     kseq (tf_set p tf_sp PGSIZE) (
     kseq (set_name p (lview (ascii ''initcode''))) (
     kbind (namei sw (ascii ''/'')) (\<lambda>cwd.
     kseq (upd_proc p (\<lambda>q. q\<lparr>p_cwd := cwd\<rparr>)) (
     kseq (upd_proc p (\<lambda>q. q\<lparr>p_state := RUNNABLE\<rparr>)) (
     release (ProcLock p))))))))))))))"

definition fork :: "('a kfile_scheme, int) km" where
  "fork =
     kbind curproc (\<lambda>p.
     kbind allocproc (\<lambda>a.
     case a of None \<Rightarrow> kret (- 1)
     | Some np \<Rightarrow>
         kbind (get_proc p id) (\<lambda>pp.
         kbind (get_proc np p_pagetable) (\<lambda>npt.
         kbind (uvmcopy (p_pagetable pp) npt (p_sz pp)) (\<lambda>r.
         if r < 0 then
           kseq (freeproc np) (
           kseq (release (ProcLock np)) (
           kret (- 1)))
         else
           kseq (upd_proc np (\<lambda>q. q\<lparr>p_sz := p_sz pp\<rparr>)) (
           kseq (upd_proc np (\<lambda>q. q\<lparr>p_parent := Some p\<rparr>)) (
           kbind (get_proc np p_trapframe) (\<lambda>ntf.
           kseq (kmod (\<lambda>s. s\<lparr>mem := wr (mem s) ntf (rd (mem s) (p_trapframe pp) sizeof_trapframe)\<rparr>)) (
           kseq (tf_set np (tf_a 0) 0) (
           kseq (kfor [0..<NOFILE] (\<lambda>i.
             kbind (get_proc p (\<lambda>q. p_ofile q ! i)) (\<lambda>f.
             case f of None \<Rightarrow> kret ()
             | Some f \<Rightarrow>
                 kbind (filedup f) (\<lambda>g.
                 upd_proc np (\<lambda>q. q\<lparr>p_ofile := (p_ofile q)[i := Some g]\<rparr>))))) (
           kbind (get_proc p p_cwd) (\<lambda>cwd.
           kbind (nonnull cwd) (\<lambda>ip.
           kbind (idup ip) (\<lambda>ip'.
           kseq (upd_proc np (\<lambda>q. q\<lparr>p_cwd := Some ip'\<rparr>)) (
           kseq (set_name np (lview (p_name pp))) (
           kbind (get_proc np p_pid) (\<lambda>pid.
           kseq (upd_proc np (\<lambda>q. q\<lparr>p_state := RUNNABLE\<rparr>)) (
           kseq (upd_proc np (\<lambda>q. q\<lparr>p_mask := p_mask pp\<rparr>)) (
           kseq (release (ProcLock np)) (
           kret pid))))))))))))))))))))"

definition exit :: "('a kfile_scheme, unit) km \<Rightarrow> int \<Rightarrow> ('a kfile_scheme, 'r) km" where
  "exit sw status =
     kbind curproc (\<lambda>p.
     kbind (kget initproc) (\<lambda>ip.
     if ip = Some p then kpanic ''init exiting''
     else
       kseq (kfor [0..<NOFILE] (\<lambda>fd.
         kbind (get_proc p (\<lambda>q. p_ofile q ! fd)) (\<lambda>f.
         case f of None \<Rightarrow> kret ()
         | Some f \<Rightarrow>
             kseq (fileclose sw f) (
             upd_proc p (\<lambda>q. q\<lparr>p_ofile := (p_ofile q)[fd := None]\<rparr>))))) (
       kseq (begin_op sw) (
       kbind (get_proc p p_cwd) (\<lambda>cwd.
       kbind (nonnull cwd) (\<lambda>cwd.
       kseq (iput sw cwd) (
       kseq (end_op sw) (
       kseq (upd_proc p (\<lambda>q. q\<lparr>p_cwd := None\<rparr>)) (
       kbind (nonnull ip) (\<lambda>ip.
       kseq (acquire (ProcLock ip)) (
       kseq (wakeup1 ip) (
       kseq (release (ProcLock ip)) (
       kseq (acquire (ProcLock p)) (
       kbind (get_proc p p_parent) (\<lambda>par.
       kseq (release (ProcLock p)) (
       kbind (nonnull par) (\<lambda>original_parent.
       kseq (acquire (ProcLock original_parent)) (
       kseq (acquire (ProcLock p)) (
       kseq (reparent p) (
       kseq (wakeup1 original_parent) (
       kseq (upd_proc p (\<lambda>q. q\<lparr>p_xstate := status\<rparr>)) (
       kseq (upd_proc p (\<lambda>q. q\<lparr>p_state := ZOMBIE\<rparr>)) (
       kseq (release (ProcLock original_parent)) (
       kseq (sched sw) (
       kpanic ''zombie exit'')))))))))))))))))))))))))"

section \<open>Executing a program\<close>

definition MAXARG :: nat where "MAXARG = 32"
definition ELF_MAGIC :: u32 where "ELF_MAGIC = 0x464C457F"
definition ELF_PROG_LOAD :: u32 where "ELF_PROG_LOAD = 1"

definition get64 :: "u8 list \<Rightarrow> nat \<Rightarrow> u64" where
  "get64 bs off = of_nat (get_le 8 bs off)"

record elfhdr =
  e_magic :: u32
  e_entry :: u64
  e_phoff :: u64
  e_phnum :: u16

definition elf_of_bytes :: "u8 list \<Rightarrow> elfhdr" where
  "elf_of_bytes bs = \<lparr>e_magic = get32 bs 0, e_entry = get64 bs 24, e_phoff = get64 bs 32,
     e_phnum = get16 bs 56\<rparr>"

record proghdr =
  ph_type :: u32
  ph_off :: u64
  ph_vaddr :: u64
  ph_filesz :: u64
  ph_memsz :: u64

definition ph_of_bytes :: "u8 list \<Rightarrow> proghdr" where
  "ph_of_bytes bs = \<lparr>ph_type = get32 bs 0, ph_off = get64 bs 8, ph_vaddr = get64 bs 16,
     ph_filesz = get64 bs 32, ph_memsz = get64 bs 40\<rparr>"

definition loadseg ::
  "('a kfs_scheme, unit) km \<Rightarrow> u64 \<Rightarrow> u64 \<Rightarrow> nat \<Rightarrow> u32 \<Rightarrow> u32 \<Rightarrow> ('a kfs_scheme, int) km" where
  "loadseg sw pt va ip offset sz =
     (if va mod PGSIZE \<noteq> 0 then kpanic ''loadseg: va must be page aligned''
      else kiter (\<lambda>i.
        if i < sz then
          kbind (walkaddr pt (va + ucast i)) (\<lambda>pa.
          if pa = 0 then kpanic ''loadseg: address should exist''
          else let n = (if sz - i < 4096 then sz - i else 4096) in
            kbind (readi sw ip (KernDst pa) (offset + i) n) (\<lambda>(r, _).
            if r \<noteq> sint n then kret (Inr (- 1)) else kret (Inl (i + 4096))))
        else kret (Inr 0)) (0 :: u32))"

text \<open>
  The loop of exec over the program headers, from header i on at file offset off, with the
  size so far. The result says whether the segments were all loaded, with the size reached.
\<close>

fun load_segments ::
  "('a kfs_scheme, unit) km \<Rightarrow> u64 \<Rightarrow> nat \<Rightarrow> nat \<Rightarrow> u32 \<Rightarrow> u64 \<Rightarrow> ('a kfs_scheme, bool \<times> u64) km" where
  "load_segments sw pt ip 0 off sz = kret (True, sz)"
| "load_segments sw pt ip (Suc k) off sz =
     kbind (readi sw ip ObjDst off 56) (\<lambda>(r, bs).
     let ph = ph_of_bytes bs in
     if r \<noteq> 56 then kret (False, sz)
     else if ph_type ph \<noteq> ELF_PROG_LOAD then load_segments sw pt ip k (off + 56) sz
     else if ph_memsz ph < ph_filesz ph then kret (False, sz)
     else if ph_vaddr ph + ph_memsz ph < ph_vaddr ph then kret (False, sz)
     else kbind (uvmalloc pt sz (ph_vaddr ph + ph_memsz ph)) (\<lambda>sz1.
       if sz1 = 0 then kret (False, sz)
       else if ph_vaddr ph mod PGSIZE \<noteq> 0 then kret (False, sz1)
       else kbind (loadseg sw pt (ph_vaddr ph) ip (ucast (ph_off ph)) (ucast (ph_filesz ph))) (\<lambda>r.
         if r < 0 then kret (False, sz1)
         else load_segments sw pt ip k (off + 56) sz1)))"

text \<open>A string in the byte memory: its length as strlen computes it.\<close>

definition mem_strlen :: "u64 \<Rightarrow> ('a kmach_scheme, nat) km" where
  "mem_strlen a s = (case strlen (at (mem s) a) of Inl e \<Rightarrow> Inl e | Inr n \<Rightarrow> Inr (n, s))"

text \<open>
  Pushing the argument strings: the addresses of the strings on the new stack and the stack
  pointer, or None when the code goes to bad.
\<close>

fun push_args ::
  "u64 \<Rightarrow> u64 \<Rightarrow> u64 list \<Rightarrow> u64 \<Rightarrow> u64 list \<Rightarrow> ('a kheap_scheme, (u64 list \<times> u64) option) km" where
  "push_args pt stackbase [] sp ustack = kret (Some (ustack, sp))"
| "push_args pt stackbase (arg # args) sp ustack =
     (if length ustack \<ge> MAXARG then kret None
      else kbind (mem_strlen arg) (\<lambda>len.
        let sp1 = sp - (of_nat len + 1); sp2 = sp1 - sp1 mod 16 in
        if sp2 < stackbase then kret None
        else kbind (copyout pt sp2 arg (of_nat len + 1)) (\<lambda>r.
          if r < 0 then kret None
          else push_args pt stackbase args sp2 (ustack @ [sp2]))))"

definition last_elem :: "u8 list \<Rightarrow> u8 list" where
  "last_elem path = rev (takeWhile (\<lambda>c. c \<noteq> slash) (rev path))"

text \<open>
  exec after the segments are loaded: the stack, the arguments, and the switch to the new
  image. The code at bad frees the new page table.
\<close>

definition exec_finish ::
  "u8 list \<Rightarrow> u64 list \<Rightarrow> u64 \<Rightarrow> u64 \<Rightarrow> u64 \<Rightarrow> ('a kfs_scheme, int) km" where
  "exec_finish path argv pt entry sz0 =
     kbind curproc (\<lambda>p.
     kbind (get_proc p p_sz) (\<lambda>oldsz.
     let sz = PGROUNDUP sz0;
         bad = (\<lambda>z. kseq (proc_freepagetable pt z) (kret (- 1))) in
     kbind (uvmalloc pt sz (sz + 2 * PGSIZE)) (\<lambda>sz1.
     if sz1 = 0 then bad sz
     else
       kseq (uvmclear pt (sz1 - 2 * PGSIZE)) (
       let stackbase = sz1 - PGSIZE in
       kbind (push_args pt stackbase argv sz1 []) (\<lambda>r.
       case r of None \<Rightarrow> bad sz1
       | Some (ustack, sp) \<Rightarrow>
           let argc = length ustack;
               sp1 = sp - of_nat (8 * (argc + 1));
               sp2 = sp1 - sp1 mod 16 in
           if sp2 < stackbase then bad sz1
           else kbind (copyout_obj pt sp2 (concat (map (\<lambda>a. nat_le 8 (unat a)) (ustack @ [0])))) (\<lambda>r.
             if r < 0 then bad sz1
             else
               kseq (tf_set p (tf_a 1) sp2) (
               kseq (set_name p (lview (last_elem path))) (
               kbind (get_proc p p_pagetable) (\<lambda>oldpt.
               kseq (upd_proc p (\<lambda>q. q\<lparr>p_pagetable := pt\<rparr>)) (
               kseq (upd_proc p (\<lambda>q. q\<lparr>p_sz := sz1\<rparr>)) (
               kseq (tf_set p tf_epc entry) (
               kseq (tf_set p tf_sp sp2) (
               kseq (proc_freepagetable oldpt oldsz) (
               kret (int argc)))))))))))))))"

definition exec ::
  "('a kfs_scheme, unit) km \<Rightarrow> u8 list \<Rightarrow> u64 list \<Rightarrow> ('a kfs_scheme, int) km" where
  "exec sw path argv =
     kbind curproc (\<lambda>p.
     kseq (begin_op sw) (
     kbind (namei sw path) (\<lambda>r.
     case r of None \<Rightarrow> kseq (end_op sw) (kret (- 1))
     | Some ip \<Rightarrow>
         let bad = kseq (iunlockput sw ip) (kseq (end_op sw) (kret (- 1))) in
         kseq (ilock sw ip) (
         kbind (readi sw ip ObjDst 0 64) (\<lambda>(r, bs).
         let elf = elf_of_bytes bs in
         if r \<noteq> 64 then bad
         else if e_magic elf \<noteq> ELF_MAGIC then bad
         else kbind (proc_pagetable p) (\<lambda>pt.
           if pt = 0 then bad
           else kbind (load_segments sw pt ip (unat (e_phnum elf)) (ucast (e_phoff elf)) 0) (\<lambda>(ok, sz).
             if \<not> ok then kseq (proc_freepagetable pt sz) bad
             else
               kseq (iunlockput sw ip) (
               kseq (end_op sw) (
               exec_finish path argv pt (e_entry elf) sz)))))))))"

end
