(* ===== verification/Syscall.thy ===== *)
theory Syscall
  imports Process
begin

text \<open>
  kernel/syscall.c, kernel/sysproc.c and kernel/sysfile.c: fetching system call arguments, the
  system calls, and the dispatcher with the tracing of lab 2. A system call gives the value
  that goes into register a0. A kernel buffer that receives a user string is its bytes.
\<close>

section \<open>Arguments\<close>

definition MAXPATH :: nat where "MAXPATH = 128"

definition fetchaddr :: "u64 \<Rightarrow> ('a kproc_scheme, u64 option) km" where
  "fetchaddr addr =
     kbind curproc (\<lambda>p.
     kbind (get_proc p p_sz) (\<lambda>sz.
     if addr \<ge> sz \<or> addr + 8 > sz then kret None
     else kbind (get_proc p p_pagetable) (\<lambda>pt.
       kbind (copyin_obj pt addr 8) (\<lambda>(r, bs).
       if r \<noteq> 0 then kret None else kret (Some (get64 bs 0))))))"

text \<open>fetchstr into a buffer outside the byte memory: the result and the string.\<close>

definition fetchstr :: "u64 \<Rightarrow> nat \<Rightarrow> ('a kproc_scheme, int \<times> u8 list) km" where
  "fetchstr addr maxn =
     kbind curproc (\<lambda>p.
     kbind (get_proc p p_pagetable) (\<lambda>pt.
     kbind (copyinstr_obj pt addr maxn) (\<lambda>(err, bs).
     if err < 0 then kret (err, [])
     else let str = takeWhile (\<lambda>c. c \<noteq> 0) bs in kret (int (length str), str))))"

text \<open>fetchstr into a page.\<close>

definition fetchstr_page :: "u64 \<Rightarrow> u64 \<Rightarrow> u64 \<Rightarrow> ('a kproc_scheme, int) km" where
  "fetchstr_page addr buf maxn =
     kbind curproc (\<lambda>p.
     kbind (get_proc p p_pagetable) (\<lambda>pt.
     kbind (copyinstr pt buf addr maxn) (\<lambda>err.
     if err < 0 then kret err
     else kbind (mem_strlen buf) (\<lambda>n. kret (int n)))))"

definition argraw :: "nat \<Rightarrow> ('a kproc_scheme, u64) km" where
  "argraw n = kbind curproc (\<lambda>p. if n \<le> 5 then tf_get p (tf_a n) else kpanic ''argraw'')"

definition argint :: "nat \<Rightarrow> ('a kproc_scheme, int) km" where
  "argint n = kbind (argraw n) (\<lambda>v. kret (sint (ucast v :: u32)))"

definition argaddr :: "nat \<Rightarrow> ('a kproc_scheme, u64) km" where
  "argaddr n = argraw n"

definition argstr :: "nat \<Rightarrow> nat \<Rightarrow> ('a kproc_scheme, int \<times> u8 list) km" where
  "argstr n maxn = kbind (argaddr n) (\<lambda>addr. fetchstr addr maxn)"

text \<open>The value of -1 as uint64.\<close>

definition ERR :: u64 where "ERR = - 1"

section \<open>Process system calls\<close>

definition sys_exit :: "('a kfile_scheme, unit) km \<Rightarrow> ('a kfile_scheme, u64) km" where
  "sys_exit sw = kbind (argint 0) (\<lambda>n. kseq (exit sw n :: ('a kfile_scheme, unit) km) (kret 0))"

definition sys_getpid :: "('a kproc_scheme, u64) km" where
  "sys_getpid = kbind curproc (\<lambda>p. kbind (get_proc p p_pid) (\<lambda>pid. kret (of_int pid)))"

definition sys_fork :: "('a kfile_scheme, u64) km" where
  "sys_fork = kbind fork (\<lambda>r. kret (of_int r))"

definition sys_wait :: "('a kproc_scheme, unit) km \<Rightarrow> ('a kproc_scheme, u64) km" where
  "sys_wait sw = kbind (argaddr 0) (\<lambda>p. kbind (wait sw p) (\<lambda>r. kret (of_int r)))"

definition sys_sbrk :: "('a kproc_scheme, u64) km" where
  "sys_sbrk =
     kbind (argint 0) (\<lambda>n.
     kbind curproc (\<lambda>p.
     kbind (get_proc p p_sz) (\<lambda>sz.
     let addr = sint (ucast sz :: u32) in
     kbind (growproc n) (\<lambda>r.
     if r < 0 then kret ERR else kret (of_int addr)))))"

definition sys_sleep :: "('a kproc_scheme, unit) km \<Rightarrow> ('a kproc_scheme, u64) km" where
  "sys_sleep sw =
     kbind (argint 0) (\<lambda>n.
     kseq (acquire TicksLock) (
     kbind (kget ticks) (\<lambda>ticks0.
     kloop (
       kbind (kget ticks) (\<lambda>t.
       if t - ticks0 < of_int n then
         kbind curproc (\<lambda>p.
         kbind (get_proc p p_killed) (\<lambda>killed.
         if killed \<noteq> 0 then kseq (release TicksLock) (kret (Some ERR))
         else kseq (sleep sw ChTicks TicksLock) (kret None)))
       else kseq (release TicksLock) (kret (Some 0)))))))"

definition sys_kill :: "('a kproc_scheme, u64) km" where
  "sys_kill = kbind (argint 0) (\<lambda>pid. kbind (kill pid) (\<lambda>r. kret (of_int r)))"

definition sys_uptime :: "('a kproc_scheme, u64) km" where
  "sys_uptime =
     kseq (acquire TicksLock) (
     kbind (kget ticks) (\<lambda>xticks.
     kseq (release TicksLock) (
     kret (ucast xticks))))"

definition sys_trace :: "('a kproc_scheme, u64) km" where
  "sys_trace =
     kbind (argint 0) (\<lambda>mask.
     kbind curproc (\<lambda>p.
     kseq (upd_proc p (\<lambda>q. q\<lparr>p_mask := mask\<rparr>)) (kret 0)))"

definition sysinfo_bytes :: "sysinfo \<Rightarrow> u8 list" where
  "sysinfo_bytes i = nat_le 8 (unat (freemem i)) @ nat_le 8 (unat (nproc i)) @ nat_le 8 (unat (freefd i))"

text \<open>The three counters are set by the three calls, so that the initial contents do not matter.\<close>

definition sys_sysinfo :: "('a kproc_scheme, u64) km" where
  "sys_sysinfo =
     kbind curproc (\<lambda>p.
     kbind (argaddr 0) (\<lambda>pout.
     kbind (calsize \<lparr>freemem = 0, nproc = 0, freefd = 0\<rparr>) (\<lambda>(_, pin).
     kbind (unused_pro pin) (\<lambda>(_, pin).
     kbind (usable_file pin) (\<lambda>(_, pin).
     kbind (get_proc p p_pagetable) (\<lambda>pt.
     kbind (copyout_obj pt pout (sysinfo_bytes pin)) (\<lambda>r.
     kret (if r < 0 then ERR else 0))))))))"

section \<open>File system calls\<close>

definition argfd :: "nat \<Rightarrow> ('a kproc_scheme, (nat \<times> nat) option) km" where
  "argfd n =
     kbind (argint n) (\<lambda>fd.
     if fd < 0 \<or> fd \<ge> int NOFILE then kret None
     else kbind curproc (\<lambda>p.
       kbind (get_proc p (\<lambda>q. p_ofile q ! nat fd)) (\<lambda>f.
       kret (map_option (\<lambda>f. (nat fd, f)) f))))"

definition fdalloc :: "nat \<Rightarrow> ('a kproc_scheme, int) km" where
  "fdalloc f =
     kbind curproc (\<lambda>p.
     kbind (kfind [0..<NOFILE] (\<lambda>fd.
       kbind (get_proc p (\<lambda>q. p_ofile q ! fd)) (\<lambda>x.
       if x = None then
         kseq (upd_proc p (\<lambda>q. q\<lparr>p_ofile := (p_ofile q)[fd := Some f]\<rparr>)) (kret (Some (int fd)))
       else kret None))) (\<lambda>r.
     kret (case r of None \<Rightarrow> - 1 | Some fd \<Rightarrow> fd)))"

definition clear_fd :: "nat \<Rightarrow> nat \<Rightarrow> ('a kproc_scheme, unit) km" where
  "clear_fd p fd = upd_proc p (\<lambda>q. q\<lparr>p_ofile := (p_ofile q)[fd := None]\<rparr>)"

definition sys_dup :: "('a kfile_scheme, u64) km" where
  "sys_dup =
     kbind (argfd 0) (\<lambda>a.
     case a of None \<Rightarrow> kret ERR
     | Some (_, f) \<Rightarrow>
         kbind (fdalloc f) (\<lambda>fd.
         if fd < 0 then kret ERR else kseq (filedup f) (kret (of_int fd))))"

definition sys_read :: "('a kfile_scheme, unit) km \<Rightarrow> ('a kfile_scheme, u64) km" where
  "sys_read sw =
     kbind (argfd 0) (\<lambda>a.
     case a of None \<Rightarrow> kret ERR
     | Some (_, f) \<Rightarrow>
         kbind (argint 2) (\<lambda>n.
         kbind (argaddr 1) (\<lambda>p.
         kbind (fileread sw f p n) (\<lambda>r. kret (of_int r)))))"

definition sys_write :: "('a kfile_scheme, unit) km \<Rightarrow> ('a kfile_scheme, u64) km" where
  "sys_write sw =
     kbind (argfd 0) (\<lambda>a.
     case a of None \<Rightarrow> kret ERR
     | Some (_, f) \<Rightarrow>
         kbind (argint 2) (\<lambda>n.
         kbind (argaddr 1) (\<lambda>p.
         kbind (filewrite sw f p n) (\<lambda>r. kret (of_int r)))))"

definition sys_close :: "('a kfile_scheme, unit) km \<Rightarrow> ('a kfile_scheme, u64) km" where
  "sys_close sw =
     kbind (argfd 0) (\<lambda>a.
     case a of None \<Rightarrow> kret ERR
     | Some (fd, f) \<Rightarrow>
         kbind curproc (\<lambda>p.
         kseq (clear_fd p fd) (
         kseq (fileclose sw f) (
         kret 0))))"

definition sys_fstat :: "('a kfile_scheme, unit) km \<Rightarrow> ('a kfile_scheme, u64) km" where
  "sys_fstat sw =
     kbind (argfd 0) (\<lambda>a.
     case a of None \<Rightarrow> kret ERR
     | Some (_, f) \<Rightarrow>
         kbind (argaddr 1) (\<lambda>st.
         kbind (filestat sw f st) (\<lambda>r. kret (of_int r))))"

definition sys_link :: "('a kfs_scheme, unit) km \<Rightarrow> ('a kfs_scheme, u64) km" where
  "sys_link sw =
     kbind (argstr 0 MAXPATH) (\<lambda>(r0, old).
     if r0 < 0 then kret ERR
     else kbind (argstr 1 MAXPATH) (\<lambda>(r1, new).
       if r1 < 0 then kret ERR
       else
         kseq (begin_op sw) (
         kbind (namei sw old) (\<lambda>i.
         case i of None \<Rightarrow> kseq (end_op sw) (kret ERR)
         | Some ip \<Rightarrow>
             let bad =
               kseq (ilock sw ip) (
               kseq (upd_inode ip (\<lambda>i. i\<lparr>i_nlink := i_nlink i - 1\<rparr>)) (
               kseq (iupdate sw ip) (
               kseq (iunlockput sw ip) (
               kseq (end_op sw) (
               kret ERR))))) in
             kseq (ilock sw ip) (
             kbind (get_inode ip i_type) (\<lambda>ty.
             if ty = T_DIR then
               kseq (iunlockput sw ip) (kseq (end_op sw) (kret ERR))
             else
               kseq (upd_inode ip (\<lambda>i. i\<lparr>i_nlink := i_nlink i + 1\<rparr>)) (
               kseq (iupdate sw ip) (
               kseq (iunlock ip) (
               kbind (nameiparent sw new (replicate DIRSIZ 0)) (\<lambda>(d, name).
               case d of None \<Rightarrow> bad
               | Some dp \<Rightarrow>
                   kseq (ilock sw dp) (
                   kbind (get_inode dp i_dev) (\<lambda>ddev.
                   kbind (get_inode ip i_dev) (\<lambda>idev.
                   if ddev \<noteq> idev then kseq (iunlockput sw dp) bad
                   else kbind (get_inode ip i_inum) (\<lambda>inum.
                     kbind (dirlink sw dp name inum) (\<lambda>r.
                     if r < 0 then kseq (iunlockput sw dp) bad
                     else
                       kseq (iunlockput sw dp) (
                       kseq (iput sw ip) (
                       kseq (end_op sw) (
                       kret 0))))))))))))))))))"

definition isdirempty :: "('a kfs_scheme, unit) km \<Rightarrow> nat \<Rightarrow> ('a kfs_scheme, bool) km" where
  "isdirempty sw dp =
     kiter (\<lambda>off.
       kbind (get_inode dp i_size) (\<lambda>dsize.
       if off < dsize then
         kbind (readi sw dp ObjDst off 16) (\<lambda>(r, de).
         if r \<noteq> 16 then kpanic ''isdirempty: readi''
         else if get16 de 0 \<noteq> 0 then kret (Inr False)
         else kret (Inl (off + 16)))
       else kret (Inr True))) (2 * 16)"

definition sys_unlink :: "('a kfs_scheme, unit) km \<Rightarrow> ('a kfs_scheme, u64) km" where
  "sys_unlink sw =
     kbind (argstr 0 MAXPATH) (\<lambda>(r0, path).
     if r0 < 0 then kret ERR
     else
       kseq (begin_op sw) (
       kbind (nameiparent sw path (replicate DIRSIZ 0)) (\<lambda>(d, name).
       case d of None \<Rightarrow> kseq (end_op sw) (kret ERR)
       | Some dp \<Rightarrow>
           let bad = kseq (iunlockput sw dp) (kseq (end_op sw) (kret ERR)) in
           kseq (ilock sw dp) (
           if namecmp name (ascii ''.'') = 0 \<or> namecmp name (ascii ''..'') = 0 then bad
           else kbind (dirlookup sw dp name) (\<lambda>e.
             case e of None \<Rightarrow> bad
             | Some (ip, off) \<Rightarrow>
                 kseq (ilock sw ip) (
                 kbind (get_inode ip i_nlink) (\<lambda>nlink.
                 if sint nlink < 1 then kpanic ''unlink: nlink < 1''
                 else kbind (get_inode ip i_type) (\<lambda>ty.
                   kbind (if ty = T_DIR then kbind (isdirempty sw ip) (\<lambda>e. kret (\<not> e)) else kret False) (\<lambda>full.
                   if full then kseq (iunlockput sw ip) bad
                   else
                     kbind (writei sw dp (ObjSrc (replicate 16 0)) off 16) (\<lambda>r.
                     if r \<noteq> 16 then kpanic ''unlink: writei''
                     else
                       kseq (if ty = T_DIR then
                           kseq (upd_inode dp (\<lambda>i. i\<lparr>i_nlink := i_nlink i - 1\<rparr>)) (iupdate sw dp)
                         else kret ()) (
                       kseq (iunlockput sw dp) (
                       kseq (upd_inode ip (\<lambda>i. i\<lparr>i_nlink := i_nlink i - 1\<rparr>)) (
                       kseq (iupdate sw ip) (
                       kseq (iunlockput sw ip) (
                       kseq (end_op sw) (
                       kret 0))))))))))))))))"

definition create ::
  "('a kfs_scheme, unit) km \<Rightarrow> u8 list \<Rightarrow> u16 \<Rightarrow> u16 \<Rightarrow> u16 \<Rightarrow> ('a kfs_scheme, nat option) km" where
  "create sw path type major minor =
     kbind (nameiparent sw path (replicate DIRSIZ 0)) (\<lambda>(d, name).
     case d of None \<Rightarrow> kret None
     | Some dp \<Rightarrow>
         kseq (ilock sw dp) (
         kbind (dirlookup sw dp name) (\<lambda>e.
         case e of
           Some (ip, _) \<Rightarrow>
             kseq (iunlockput sw dp) (
             kseq (ilock sw ip) (
             kbind (get_inode ip i_type) (\<lambda>ty.
             if type = T_FILE \<and> (ty = T_FILE \<or> ty = T_DEVICE) then kret (Some ip)
             else kseq (iunlockput sw ip) (kret None))))
         | None \<Rightarrow>
             kbind (get_inode dp i_dev) (\<lambda>dev.
             kbind (ialloc sw dev type) (\<lambda>ip.
             kseq (ilock sw ip) (
             kseq (upd_inode ip (\<lambda>i. i\<lparr>i_major := major, i_minor := minor, i_nlink := 1\<rparr>)) (
             kseq (iupdate sw ip) (
             kbind (get_inode ip i_inum) (\<lambda>inum.
             kseq (if type = T_DIR then
                 kseq (upd_inode dp (\<lambda>i. i\<lparr>i_nlink := i_nlink i + 1\<rparr>)) (
                 kseq (iupdate sw dp) (
                 kbind (dirlink sw ip (ascii ''.'') inum) (\<lambda>r.
                 if r < 0 then kpanic ''create dots''
                 else kbind (get_inode dp i_inum) (\<lambda>dinum.
                   kbind (dirlink sw ip (ascii ''..'') dinum) (\<lambda>r.
                   if r < 0 then kpanic ''create dots'' else kret ())))))
               else kret ()) (
             kbind (dirlink sw dp name inum) (\<lambda>r.
             if r < 0 then kpanic ''create: dirlink''
             else kseq (iunlockput sw dp) (kret (Some ip)))))))))))))"

text \<open>The first half of sys_open: the locked inode, or None after the transaction was ended.\<close>

definition open_inode :: "('a kfs_scheme, unit) km \<Rightarrow> u8 list \<Rightarrow> u32 \<Rightarrow> ('a kfs_scheme, nat option) km" where
  "open_inode sw path omode =
     (if omode AND O_CREATE \<noteq> 0 then
        kbind (create sw path T_FILE 0 0) (\<lambda>i.
        case i of None \<Rightarrow> kseq (end_op sw) (kret None) | Some ip \<Rightarrow> kret (Some ip))
      else kbind (namei sw path) (\<lambda>i.
        case i of None \<Rightarrow> kseq (end_op sw) (kret None)
        | Some ip \<Rightarrow>
            kseq (ilock sw ip) (
            kbind (get_inode ip i_type) (\<lambda>ty.
            if ty = T_DIR \<and> omode \<noteq> O_RDONLY then
              kseq (iunlockput sw ip) (kseq (end_op sw) (kret None))
            else kret (Some ip)))))"

definition sys_open :: "('a kfile_scheme, unit) km \<Rightarrow> ('a kfile_scheme, u64) km" where
  "sys_open sw =
     kbind (argstr 0 MAXPATH) (\<lambda>(n, path).
     if n < 0 then kret ERR
     else kbind (argint 1) (\<lambda>om.
       let omode = (of_int om :: u32) in
       kseq (begin_op sw) (
       kbind (open_inode sw path omode) (\<lambda>i.
       case i of None \<Rightarrow> kret ERR
       | Some ip \<Rightarrow>
           let fail = kseq (iunlockput sw ip) (kseq (end_op sw) (kret ERR)) in
           kbind (get_inode ip id) (\<lambda>ino.
           if i_type ino = T_DEVICE \<and> (sint (i_major ino) < 0 \<or> sint (i_major ino) \<ge> int NDEV) then fail
           else kbind filealloc (\<lambda>f.
             case f of None \<Rightarrow> fail
             | Some f \<Rightarrow>
                 kbind (fdalloc f) (\<lambda>fd.
                 if fd < 0 then kseq (fileclose sw f) fail
                 else
                   kseq (if i_type ino = T_DEVICE then
                       upd_file f (\<lambda>q. q\<lparr>f_type := FD_DEVICE, f_major := i_major ino\<rparr>)
                     else upd_file f (\<lambda>q. q\<lparr>f_type := FD_INODE, f_off := 0\<rparr>)) (
                   kseq (upd_file f (\<lambda>q. q\<lparr>f_ip := ip, f_readable := (omode AND O_WRONLY = 0),
                     f_writable := (omode AND O_WRONLY \<noteq> 0 \<or> omode AND O_RDWR \<noteq> 0)\<rparr>)) (
                   kseq (if omode AND O_TRUNC \<noteq> 0 \<and> i_type ino = T_FILE then itrunc sw ip else kret ()) (
                   kseq (iunlock ip) (
                   kseq (end_op sw) (
                   kret (of_int fd)))))))))))))"

definition sys_mkdir :: "('a kfs_scheme, unit) km \<Rightarrow> ('a kfs_scheme, u64) km" where
  "sys_mkdir sw =
     kseq (begin_op sw) (
     kbind (argstr 0 MAXPATH) (\<lambda>(n, path).
     kbind (if n < 0 then kret None else create sw path T_DIR 0 0) (\<lambda>i.
     case i of None \<Rightarrow> kseq (end_op sw) (kret ERR)
     | Some ip \<Rightarrow> kseq (iunlockput sw ip) (kseq (end_op sw) (kret 0)))))"

definition sys_mknod :: "('a kfs_scheme, unit) km \<Rightarrow> ('a kfs_scheme, u64) km" where
  "sys_mknod sw =
     kseq (begin_op sw) (
     kbind (argstr 0 MAXPATH) (\<lambda>(n, path).
     kbind (if n < 0 then kret None
            else kbind (argint 1) (\<lambda>major. kbind (argint 2) (\<lambda>minor.
              create sw path T_DEVICE (of_int major) (of_int minor)))) (\<lambda>i.
     case i of None \<Rightarrow> kseq (end_op sw) (kret ERR)
     | Some ip \<Rightarrow> kseq (iunlockput sw ip) (kseq (end_op sw) (kret 0)))))"

definition sys_chdir :: "('a kfs_scheme, unit) km \<Rightarrow> ('a kfs_scheme, u64) km" where
  "sys_chdir sw =
     kbind curproc (\<lambda>p.
     kseq (begin_op sw) (
     kbind (argstr 0 MAXPATH) (\<lambda>(n, path).
     kbind (if n < 0 then kret None else namei sw path) (\<lambda>i.
     case i of None \<Rightarrow> kseq (end_op sw) (kret ERR)
     | Some ip \<Rightarrow>
         kseq (ilock sw ip) (
         kbind (get_inode ip i_type) (\<lambda>ty.
         if ty \<noteq> T_DIR then kseq (iunlockput sw ip) (kseq (end_op sw) (kret ERR))
         else
           kseq (iunlock ip) (
           kbind (get_proc p p_cwd) (\<lambda>cwd.
           kbind (nonnull cwd) (\<lambda>old.
           kseq (iput sw old) (
           kseq (end_op sw) (
           kseq (upd_proc p (\<lambda>q. q\<lparr>p_cwd := Some ip\<rparr>)) (
           kret 0))))))))))))"

text \<open>The argument strings of exec go to pages of their own, freed afterwards in all cases.\<close>

definition sys_exec :: "('a kfs_scheme, unit) km \<Rightarrow> ('a kfs_scheme, u64) km" where
  "sys_exec sw =
     kbind (argstr 0 MAXPATH) (\<lambda>(n, path).
     if n < 0 then kret ERR
     else kbind (argaddr 1) (\<lambda>uargv.
       kbind (kiter (\<lambda>argv.
         let i = length argv in
         if i \<ge> MAXARG then kret (Inr (False, argv))
         else kbind (fetchaddr (uargv + 8 * of_nat i)) (\<lambda>a.
           case a of None \<Rightarrow> kret (Inr (False, argv))
           | Some uarg \<Rightarrow>
               if uarg = 0 then kret (Inr (True, argv))
               else kbind kalloc (\<lambda>pa.
                 if pa = 0 then kret (Inr (False, argv))
                 else kbind (fetchstr_page uarg pa PGSIZE) (\<lambda>r.
                   if r < 0 then kret (Inr (False, argv @ [pa]))
                   else kret (Inl (argv @ [pa])))))) []) (\<lambda>(ok, argv).
       kbind (if ok then exec sw path argv else kret (- 1)) (\<lambda>ret.
       kseq (kfor argv kfree) (
       kret (of_int ret))))))"

definition sys_pipe :: "('a kfile_scheme, unit) km \<Rightarrow> ('a kfile_scheme, u64) km" where
  "sys_pipe sw =
     kbind curproc (\<lambda>p.
     kbind (argaddr 0) (\<lambda>fdarray.
     kbind (pipealloc sw) (\<lambda>a.
     case a of None \<Rightarrow> kret ERR
     | Some (rfd, wfd) \<Rightarrow>
         let close = kseq (fileclose sw rfd) (kseq (fileclose sw wfd) (kret ERR)) in
         kbind (fdalloc rfd) (\<lambda>fd0.
         if fd0 < 0 then close
         else kbind (fdalloc wfd) (\<lambda>fd1.
           if fd1 < 0 then kseq (clear_fd p (nat fd0)) close
           else kbind (get_proc p p_pagetable) (\<lambda>pt.
             kbind (copyout_obj pt fdarray (int_bytes fd0)) (\<lambda>r0.
             kbind (if r0 < 0 then kret r0 else copyout_obj pt (fdarray + 4) (int_bytes fd1)) (\<lambda>r1.
             if r1 < 0 then
               kseq (clear_fd p (nat fd0)) (kseq (clear_fd p (nat fd1)) close)
             else kret 0))))))))"

section \<open>Dispatch\<close>

definition syscalls :: "('a kfile_scheme, unit) km \<Rightarrow> ('a kfile_scheme, u64) km list" where
  "syscalls sw =
     [sys_fork, sys_exit sw, sys_wait sw, sys_pipe sw, sys_read sw, sys_kill, sys_exec sw,
      sys_fstat sw, sys_chdir sw, sys_dup, sys_getpid, sys_sbrk, sys_sleep sw, sys_uptime,
      sys_open sw, sys_write sw, sys_mknod sw, sys_unlink sw, sys_link sw, sys_mkdir sw,
      sys_close sw, sys_trace, sys_sysinfo]"

definition sys_call_num :: "string list" where
  "sys_call_num =
     [''sys_fork'', ''sys_exit'', ''sys_wait'', ''sys_pipe'', ''sys_read'', ''sys_kill'', ''sys_exec'',
      ''sys_fstat'', ''sys_chdir'', ''sys_dup'', ''sys_getpid'', ''sys_sbrk'', ''sys_sleep'', ''sys_uptime'',
      ''sys_open'', ''sys_write'', ''sys_mknod'', ''sys_unlink'', ''sys_link'', ''sys_mkdir'',
      ''sys_close'', ''sys_trace'', ''sys_sysinfo'']"

definition syscall :: "('a kfile_scheme, unit) km \<Rightarrow> ('a kfile_scheme, unit) km" where
  "syscall sw =
     kbind curproc (\<lambda>p.
     kbind (tf_get p (tf_a 7)) (\<lambda>a7.
     let num = sint (ucast a7 :: u32) in
     kbind (argint 0) (\<lambda>a.
     if num > 0 \<and> num < 24 then
       kbind (syscalls sw ! nat (num - 1)) (\<lambda>ret.
       kseq (tf_set p (tf_a 0) ret) (
       kbind (get_proc p p_mask) (\<lambda>mask.
       if push_bit (nat num) 1 AND (of_int mask :: u32) \<noteq> 0 then
         kbind (get_proc p p_pid) (\<lambda>pid.
         kbind (tf_get p (tf_a 0)) (\<lambda>a0.
         printf (ascii ''%d: %s(%d) -> %d'' @ [10])
           [VInt (of_int pid), VStr (Some (ascii (sys_call_num ! nat (num - 1)))),
            VInt (of_int a), VInt (ucast a0)]))
       else kret ())))
     else
       kbind (get_proc p id) (\<lambda>q.
       kseq (printf (ascii ''%d %s: unknown sys call %d'' @ [10])
         [VInt (of_int (p_pid q)), VStr (Some (takeWhile (\<lambda>c. c \<noteq> 0) (p_name q))), VInt (of_int num)]) (
       tf_set p (tf_a 0) ERR)))))"

end
