(* ===== verification/Trap.thy ===== *)
theory Trap
  imports Syscall
begin

text \<open>
  kernel/trap.c, kernel/plic.c, forkret of kernel/proc.c, kernel/main.c and kernel/start.c:
  traps from user space and from the kernel, the interrupt controller, and booting.

  Of the status register the model has the bits that the code uses: SIE is the sie of
  theory Spinlock, SPP and SPIE are here. The trap registers are per hart. The interrupt
  controller is hardware: what a claim returns is a field of the state, and what is
  written to it is logged. Handing over to user space is the value that
  usertrapret gives: the address it jumps to and its two arguments.
\<close>

section \<open>State\<close>

definition UART0_IRQ :: u32 where "UART0_IRQ = 10"
definition VIRTIO0_IRQ :: u32 where "VIRTIO0_IRQ = 1"

record ktrap = kfile +
  stvec :: "nat \<Rightarrow> u64"
  sepc :: "nat \<Rightarrow> u64"
  scause :: "nat \<Rightarrow> u64"
  stval :: "nat \<Rightarrow> u64"
  sip :: "nat \<Rightarrow> u64"
  spp :: "nat \<Rightarrow> bool"
  spie :: "nat \<Rightarrow> bool"
  plic_in :: "nat \<Rightarrow> u32"
  plic_out :: "(u64 \<times> u32) list"
  forkret_first :: bool
  started :: bool
  k_kernelvec :: u64
  k_uservec :: u64
  k_userret :: u64
  k_usertrap :: u64
  k_disk_pages :: u64

definition csr :: "('a ktrap_scheme \<Rightarrow> nat \<Rightarrow> 'x) \<Rightarrow> ('a ktrap_scheme, 'x) km" where
  "csr r = kget (\<lambda>s. r s (tp s))"

definition w_stvec :: "u64 \<Rightarrow> ('a ktrap_scheme, unit) km" where
  "w_stvec v = kmod (\<lambda>s. s\<lparr>stvec := (stvec s)(tp s := v)\<rparr>)"

definition w_sepc :: "u64 \<Rightarrow> ('a ktrap_scheme, unit) km" where
  "w_sepc v = kmod (\<lambda>s. s\<lparr>sepc := (sepc s)(tp s := v)\<rparr>)"

definition w_sip :: "u64 \<Rightarrow> ('a ktrap_scheme, unit) km" where
  "w_sip v = kmod (\<lambda>s. s\<lparr>sip := (sip s)(tp s := v)\<rparr>)"

text \<open>The status register as the triple of SIE, SPP and SPIE.\<close>

definition r_sstatus :: "('a ktrap_scheme, bool \<times> bool \<times> bool) km" where
  "r_sstatus = kget (\<lambda>s. (sie s (tp s), spp s (tp s), spie s (tp s)))"

definition w_sstatus :: "bool \<times> bool \<times> bool \<Rightarrow> ('a ktrap_scheme, unit) km" where
  "w_sstatus x = kmod (\<lambda>s. s\<lparr>sie := (sie s)(tp s := fst x), spp := (spp s)(tp s := fst (snd x)),
     spie := (spie s)(tp s := snd (snd x))\<rparr>)"

section \<open>The interrupt controller\<close>

definition PLIC_SENABLE :: "nat \<Rightarrow> u64" where "PLIC_SENABLE hart = PLIC + 0x2080 + of_nat hart * 0x100"
definition PLIC_SPRIORITY :: "nat \<Rightarrow> u64" where "PLIC_SPRIORITY hart = PLIC + 0x201000 + of_nat hart * 0x2000"
definition PLIC_SCLAIM :: "nat \<Rightarrow> u64" where "PLIC_SCLAIM hart = PLIC + 0x201004 + of_nat hart * 0x2000"

definition plic_write :: "u64 \<Rightarrow> u32 \<Rightarrow> ('a ktrap_scheme, unit) km" where
  "plic_write a v = kmod (\<lambda>s. s\<lparr>plic_out := plic_out s @ [(a, v)]\<rparr>)"

definition plicinit :: "('a ktrap_scheme, unit) km" where
  "plicinit =
     kseq (plic_write (PLIC + ucast UART0_IRQ * 4) 1) (
     plic_write (PLIC + ucast VIRTIO0_IRQ * 4) 1)"

definition plicinithart :: "('a ktrap_scheme, unit) km" where
  "plicinithart =
     kbind cpuid (\<lambda>hart.
     kseq (plic_write (PLIC_SENABLE hart) (push_bit (unat UART0_IRQ) 1 OR push_bit (unat VIRTIO0_IRQ) 1)) (
     plic_write (PLIC_SPRIORITY hart) 0))"

definition plic_claim :: "('a ktrap_scheme, u32) km" where
  "plic_claim = kbind cpuid (\<lambda>hart. kget (\<lambda>s. plic_in s hart))"

definition plic_complete :: "u32 \<Rightarrow> ('a ktrap_scheme, unit) km" where
  "plic_complete irq = kbind cpuid (\<lambda>hart. plic_write (PLIC_SCLAIM hart) irq)"

section \<open>Interrupts\<close>

definition trapinit :: "('a ktrap_scheme, unit) km" where
  "trapinit = initlock TicksLock ''time''"

definition trapinithart :: "('a ktrap_scheme, unit) km" where
  "trapinithart = kbind (kget k_kernelvec) w_stvec"

definition clockintr :: "('a kproc_scheme, unit) km" where
  "clockintr =
     kseq (acquire TicksLock) (
     kseq (kmod (\<lambda>s. s\<lparr>ticks := ticks s + 1\<rparr>)) (
     kseq (wakeup ChTicks) (
     release TicksLock)))"

definition devintr :: "('a ktrap_scheme, int) km" where
  "devintr =
     kbind (csr scause) (\<lambda>cause.
     if cause AND 0x8000000000000000 \<noteq> 0 \<and> cause AND 0xff = 9 then
       kbind plic_claim (\<lambda>irq.
       kseq (if irq = UART0_IRQ then uartintr
         else if irq = VIRTIO0_IRQ then virtio_disk_intr
         else if irq \<noteq> 0 then printf (ascii ''unexpected interrupt irq=%d'' @ [10]) [VInt irq]
         else kret ()) (
       kseq (if irq \<noteq> 0 then plic_complete irq else kret ()) (
       kret 1)))
     else if cause = 0x8000000000000001 then
       kbind cpuid (\<lambda>id.
       kseq (if id = 0 then clockintr else kret ()) (
       kbind (csr sip) (\<lambda>v.
       kseq (w_sip (v AND NOT 2)) (
       kret 2))))
     else kret 0)"

definition kerneltrap :: "('a ktrap_scheme, unit) km \<Rightarrow> ('a ktrap_scheme, unit) km" where
  "kerneltrap sw =
     kbind (csr sepc) (\<lambda>epc.
     kbind r_sstatus (\<lambda>status.
     kbind (csr scause) (\<lambda>cause.
     if \<not> fst (snd status) then kpanic ''kerneltrap: not from supervisor mode''
     else kbind intr_get (\<lambda>on.
       if on then kpanic ''kerneltrap: interrupts enabled''
       else kbind devintr (\<lambda>which_dev.
         if which_dev = 0 then
           kseq (printf (ascii ''scause %p'' @ [10]) [VPtr cause]) (
           kbind (csr sepc) (\<lambda>pc.
           kbind (csr stval) (\<lambda>tv.
           kseq (printf (ascii ''sepc=%p stval=%p'' @ [10]) [VPtr pc, VPtr tv]) (
           kpanic ''kerneltrap''))))
         else
           kseq (if which_dev = 2 then
               kbind myproc (\<lambda>q.
               case q of None \<Rightarrow> kret ()
               | Some p \<Rightarrow> kbind (get_proc p p_state) (\<lambda>st. if st = RUNNING then yield sw else kret ()))
             else kret ()) (
           kseq (w_sepc epc) (
           w_sstatus status)))))))"

definition usertrapret :: "('a ktrap_scheme, u64 \<times> u64 \<times> u64) km" where
  "usertrapret =
     kbind curproc (\<lambda>p.
     kseq intr_off (
     kbind (kget (\<lambda>s. (k_uservec s, k_userret s, k_trampoline s))) (\<lambda>(uservec, userret, trampoline).
     kseq (w_stvec (TRAMPOLINE + (uservec - trampoline))) (
     kbind (csr satp) (\<lambda>st.
     kseq (tf_set p tf_kernel_satp st) (
     kbind (get_proc p p_kstack) (\<lambda>kstack.
     kseq (tf_set p tf_kernel_sp (kstack + PGSIZE)) (
     kbind (kget k_usertrap) (\<lambda>ut.
     kseq (tf_set p tf_kernel_trap ut) (
     kbind cpuid (\<lambda>id.
     kseq (tf_set p tf_kernel_hartid (of_nat id)) (
     kbind r_sstatus (\<lambda>x.
     kseq (w_sstatus (fst x, False, True)) (
     kbind (tf_get p tf_epc) (\<lambda>epc.
     kseq (w_sepc epc) (
     kbind (get_proc p p_pagetable) (\<lambda>pt.
     kret (TRAMPOLINE + (userret - trampoline), TRAPFRAME, MAKE_SATP pt))))))))))))))))))"

text \<open>
  The three parts of usertrap: entering the kernel, acting on the cause of the trap, which
  gives the device that interrupted (0 for none), and leaving.
\<close>

definition usertrap_cause :: "('a ktrap_scheme, unit) km \<Rightarrow> nat \<Rightarrow> ('a ktrap_scheme, int) km" where
  "usertrap_cause sw p =
     kbind (csr scause) (\<lambda>cause.
     if cause = 8 then
       kbind (get_proc p p_killed) (\<lambda>killed.
       kseq (if killed \<noteq> 0 then exit sw (- 1) else kret ()) (
       kbind (tf_get p tf_epc) (\<lambda>epc.
       kseq (tf_set p tf_epc (epc + 4)) (
       kseq intr_on (
       kseq (syscall sw) (
       kret 0))))))
     else kbind devintr (\<lambda>which_dev.
       if which_dev \<noteq> 0 then kret which_dev
       else
         kbind (csr scause) (\<lambda>cause.
         kbind (get_proc p p_pid) (\<lambda>pid.
         kseq (printf (ascii ''usertrap(): unexpected scause %p pid=%d'' @ [10]) [VPtr cause, VInt (of_int pid)]) (
         kbind (csr sepc) (\<lambda>pc.
         kbind (csr stval) (\<lambda>tv.
         kseq (printf (ascii ''            sepc=%p stval=%p'' @ [10]) [VPtr pc, VPtr tv]) (
         kseq (upd_proc p (\<lambda>q. q\<lparr>p_killed := 1\<rparr>)) (
         kret 0)))))))))"

definition usertrap_leave ::
  "('a ktrap_scheme, unit) km \<Rightarrow> nat \<Rightarrow> int \<Rightarrow> ('a ktrap_scheme, u64 \<times> u64 \<times> u64) km" where
  "usertrap_leave sw p which_dev =
     kbind (get_proc p p_killed) (\<lambda>killed.
     kseq (if killed \<noteq> 0 then exit sw (- 1) else kret ()) (
     kseq (if which_dev = 2 then yield sw else kret ()) (
     usertrapret)))"

definition usertrap :: "('a ktrap_scheme, unit) km \<Rightarrow> ('a ktrap_scheme, u64 \<times> u64 \<times> u64) km" where
  "usertrap sw =
     kbind r_sstatus (\<lambda>status.
     if fst (snd status) then kpanic ''usertrap: not from user mode''
     else
       kbind (kget k_kernelvec) (\<lambda>kv.
       kseq (w_stvec kv) (
       kbind curproc (\<lambda>p.
       kbind (csr sepc) (\<lambda>pc.
       kseq (tf_set p tf_epc pc) (
       kbind (usertrap_cause sw p) (
       usertrap_leave sw p)))))))"

text \<open>A new process starts here, with its lock held by the scheduler that switched to it.\<close>

definition forkret :: "('a ktrap_scheme, unit) km \<Rightarrow> ('a ktrap_scheme, u64 \<times> u64 \<times> u64) km" where
  "forkret sw =
     kbind curproc (\<lambda>p.
     kseq (release (ProcLock p)) (
     kbind (kget forkret_first) (\<lambda>first.
     kseq (if first then
         kseq (kmod (\<lambda>s. s\<lparr>forkret_first := False\<rparr>)) (fsinit sw ROOTDEV)
       else kret ()) (
     usertrapret))))"

section \<open>Booting\<close>

definition kmain ::
  "('a ktrap_scheme, unit) km \<Rightarrow> (nat \<Rightarrow> ('a ktrap_scheme, unit) km) \<Rightarrow> ('a ktrap_scheme, unit) km
   \<Rightarrow> ('a ktrap_scheme, 'r) km" where
  "kmain sw run wfi =
     kbind cpuid (\<lambda>id.
     kseq (if id = 0 then
         kseq consoleinit (
         kseq printfinit (
         kseq (printf [10] []) (
         kseq (printf (ascii ''xv6 kernel is booting'' @ [10]) []) (
         kseq (printf [10] []) (
         kseq kinit (
         kseq kvminit (
         kseq kvminithart (
         kseq procinit (
         kseq trapinit (
         kseq trapinithart (
         kseq plicinit (
         kseq plicinithart (
         kseq binit (
         kseq iinit (
         kseq fileinit (
         kbind (kget k_disk_pages) (\<lambda>pages.
         kseq (virtio_disk_init pages) (
         kseq (userinit sw) (
         kmod (\<lambda>s. s\<lparr>started := True\<rparr>))))))))))))))))))))
       else
         kseq (kloop (kbind (kget started) (\<lambda>st. kret (if st then Some () else None)))) (
         kseq (printf (ascii ''hart %d starting'' @ [10]) [VInt (of_nat id)]) (
         kseq kvminithart (
         kseq trapinithart plicinithart)))) (
     scheduler run wfi))"

text \<open>
  Machine mode: start prepares the registers and jumps to main in supervisor mode with mret.
  The registers of the hart are a record; the addresses of main and of timervec are
  arguments.
\<close>

record mregs =
  mstatus :: u64
  mepc :: u64
  m_satp :: u64
  medeleg :: u64
  mideleg :: u64
  m_sie :: u64
  mhartid :: u64
  m_tp :: u64
  mtvec :: u64
  mie :: u64
  mscratch :: u64
  mtime :: u64
  mtimecmp :: "nat \<Rightarrow> u64"
  mscratch0 :: "nat \<Rightarrow> u64"

definition CLINT_MTIMECMP :: "u64 \<Rightarrow> u64" where
  "CLINT_MTIMECMP hartid = CLINT + 0x4000 + 8 * hartid"

text \<open>The accessors of riscv.h for these registers.\<close>

definition MSTATUS_MPP_MASK :: u64 where "MSTATUS_MPP_MASK = push_bit 11 3"
definition MSTATUS_MPP_S :: u64 where "MSTATUS_MPP_S = push_bit 11 1"
definition MSTATUS_MIE :: u64 where "MSTATUS_MIE = push_bit 3 1"
definition SIE_SEIE :: u64 where "SIE_SEIE = push_bit 9 1"
definition SIE_STIE :: u64 where "SIE_STIE = push_bit 5 1"
definition SIE_SSIE :: u64 where "SIE_SSIE = push_bit 1 1"
definition MIE_MTIE :: u64 where "MIE_MTIE = push_bit 7 1"

definition r_mhartid :: "mregs \<Rightarrow> u64" where "r_mhartid r = mhartid r"
definition r_mstatus :: "mregs \<Rightarrow> u64" where "r_mstatus r = mstatus r"
definition w_mstatus :: "u64 \<Rightarrow> mregs \<Rightarrow> mregs" where "w_mstatus x r = r\<lparr>mstatus := x\<rparr>"
definition w_mepc :: "u64 \<Rightarrow> mregs \<Rightarrow> mregs" where "w_mepc x r = r\<lparr>mepc := x\<rparr>"
definition w_satp :: "u64 \<Rightarrow> mregs \<Rightarrow> mregs" where "w_satp x r = r\<lparr>m_satp := x\<rparr>"
definition w_medeleg :: "u64 \<Rightarrow> mregs \<Rightarrow> mregs" where "w_medeleg x r = r\<lparr>medeleg := x\<rparr>"
definition w_mideleg :: "u64 \<Rightarrow> mregs \<Rightarrow> mregs" where "w_mideleg x r = r\<lparr>mideleg := x\<rparr>"
definition r_sie :: "mregs \<Rightarrow> u64" where "r_sie r = m_sie r"
definition w_sie :: "u64 \<Rightarrow> mregs \<Rightarrow> mregs" where "w_sie x r = r\<lparr>m_sie := x\<rparr>"
definition r_mie :: "mregs \<Rightarrow> u64" where "r_mie r = mie r"
definition w_mie :: "u64 \<Rightarrow> mregs \<Rightarrow> mregs" where "w_mie x r = r\<lparr>mie := x\<rparr>"
definition w_mscratch :: "u64 \<Rightarrow> mregs \<Rightarrow> mregs" where "w_mscratch x r = r\<lparr>mscratch := x\<rparr>"
definition w_mtvec :: "u64 \<Rightarrow> mregs \<Rightarrow> mregs" where "w_mtvec x r = r\<lparr>mtvec := x\<rparr>"
definition w_tp :: "u64 \<Rightarrow> mregs \<Rightarrow> mregs" where "w_tp x r = r\<lparr>m_tp := x\<rparr>"

lemmas mreg_access = r_mhartid_def r_mstatus_def w_mstatus_def w_mepc_def w_satp_def w_medeleg_def w_mideleg_def
  r_sie_def w_sie_def r_mie_def w_mie_def w_mscratch_def w_mtvec_def w_tp_def

text \<open>The hart number is an int in the code: id is the sign-extended low half of the register.\<close>

definition hart_int :: "u64 \<Rightarrow> u64" where "hart_int v = scast (ucast v :: u32)"

definition timerinit :: "u64 \<Rightarrow> u64 \<Rightarrow> mregs \<Rightarrow> mregs" where
  "timerinit scratch_base timervec r =
     (let id = hart_int (r_mhartid r);
          interval = 1000000;
          r = r\<lparr>mtimecmp := (mtimecmp r)(unat id := mtime r + interval)\<rparr>;
          r = r\<lparr>mscratch0 := (mscratch0 r)(32 * unat id + 4 := CLINT_MTIMECMP id, 32 * unat id + 5 := interval)\<rparr>;
          r = w_mscratch (scratch_base + 8 * (32 * id)) r;
          r = w_mtvec timervec r;
          r = w_mstatus (r_mstatus r OR MSTATUS_MIE) r
      in w_mie (r_mie r OR MIE_MTIE) r)"

definition start :: "u64 \<Rightarrow> u64 \<Rightarrow> u64 \<Rightarrow> mregs \<Rightarrow> mregs" where
  "start main scratch_base timervec r =
     (let x = r_mstatus r AND NOT MSTATUS_MPP_MASK OR MSTATUS_MPP_S;
          r = w_mstatus x r;
          r = w_mepc main r;
          r = w_satp 0 r;
          r = w_medeleg 0xffff r;
          r = w_mideleg 0xffff r;
          r = w_sie (r_sie r OR SIE_SEIE OR SIE_STIE OR SIE_SSIE) r;
          r = timerinit scratch_base timervec r
      in w_tp (hart_int (r_mhartid r)) r)"

text \<open>
  After start a hart is ready for mret to main: the previous mode is supervisor, paging is off, all traps are
  delegated, the timer is armed, and tp has the number of the hart.
\<close>

lemma hart_int_small:
  assumes "unat v < 8"
  shows "hart_int v = v"
proof -
  have "unat v \<in> set [0..<8]" using assms by simp
  then have "v \<in> of_nat ` set [0..<8]" by (metis imageI of_nat_unat ucast_id)
  then show ?thesis by (auto simp: hart_int_def upt_rec)
qed

lemma start_ready:
  fixes main scratch_base timervec :: u64
  assumes "unat (mhartid r) < NCPU"
  defines "r' \<equiv> start main scratch_base timervec r"
  shows "mstatus r' AND MSTATUS_MPP_MASK = MSTATUS_MPP_S" "bit (mstatus r') 3" "mepc r' = main" "m_satp r' = 0"
    "medeleg r' = 0xffff" "mideleg r' = 0xffff" "bit (m_sie r') 9 \<and> bit (m_sie r') 5 \<and> bit (m_sie r') 1"
    "bit (mie r') 7" "m_tp r' = mhartid r" "mtimecmp r' (unat (mhartid r)) = mtime r + 1000000"
    "mtvec r' = timervec"
proof -
  have lt: "unat (mhartid r) < 8" using assms(1) by (simp add: NCPU_def)
  have id: "hart_int (mhartid r) = mhartid r" using lt by (rule hart_int_small)
  show "mstatus r' AND MSTATUS_MPP_MASK = MSTATUS_MPP_S"
    by (simp add: r'_def start_def timerinit_def mreg_access Let_def MSTATUS_MPP_MASK_def MSTATUS_MPP_S_def MSTATUS_MIE_def
        bit.conj_disj_distrib2 and.assoc)
  show "bit (mstatus r') 3" "bit (m_sie r') 9 \<and> bit (m_sie r') 5 \<and> bit (m_sie r') 1" "bit (mie r') 7"
    by (simp_all add: r'_def start_def timerinit_def mreg_access Let_def MSTATUS_MIE_def SIE_SEIE_def SIE_STIE_def SIE_SSIE_def
        MIE_MTIE_def bit_simps)
  show "mepc r' = main" "m_satp r' = 0" "medeleg r' = 0xffff" "mideleg r' = 0xffff" "m_tp r' = mhartid r"
    "mtimecmp r' (unat (mhartid r)) = mtime r + 1000000" "mtvec r' = timervec"
    by (simp_all add: r'_def start_def timerinit_def mreg_access Let_def id)
qed

end
