(* ===== verification/Vm_Demo.thy ===== *)
theory Vm_Demo
  imports Vm_Copy
begin

text \<open>
  A small machine state on which the properties of the address-space theories are
  instantiated: a process of one page with its three table pages, an empty table for a
  child, and one free page.
\<close>

definition demo_mem :: memory where
  "demo_mem =
     store64 (store64 (store64 (\<lambda>_. 0)
       (pte_addr 0x87FF8000 (of_nat 0)) (PA2PTE 0x87FF9000 OR PTE_V))
       (pte_addr 0x87FF9000 (of_nat 0)) (PA2PTE 0x87FFA000 OR PTE_V))
       (pte_addr 0x87FFA000 (of_nat 0)) (PA2PTE 0x87FFB000 OR UPERM OR PTE_V)"

definition demo_user :: kheap where
  "demo_user = \<lparr>tp = 0, sie = (\<lambda>_. True), cpus = (\<lambda>_. \<lparr>cpu_proc = None, noff = 0, intena = True\<rparr>),
     locks = (\<lambda>_. \<lparr>locked = False, lname = [], lcpu = None\<rparr>),
     mem = demo_mem, k_end = 0x87FF8000, k_etext = 0x80001000,
     k_trampoline = 0x80000000, freelist = 0x87FFE000\<rparr>"

lemma demo_user_simps [simp]:
  "mem demo_user = demo_mem" "k_end demo_user = 0x87FF8000" "freelist demo_user = 0x87FFE000"
  by (simp_all add: demo_user_def)

lemma demo_aligned [simp]:
  "pg_aligned 0x87FF8000" "pg_aligned 0x87FF9000" "pg_aligned 0x87FFA000" "pg_aligned 0x87FFB000"
  "pg_aligned 0x87FFC000" "pg_aligned 0x87FFE000"
  by (simp_all add: pg_aligned_def)

lemma pte_at_zero_mem: "pg_aligned q \<Longrightarrow> j < 512 \<Longrightarrow> pte_at (\<lambda>_. 0) q j = 0"
  by (rule pte_at_zero) simp_all

lemma demo_pte:
  assumes "pg_aligned q" and "j < 512"
  shows "pte_at demo_mem q j =
    (if q = 0x87FFA000 \<and> j = 0 then PA2PTE 0x87FFB000 OR UPERM OR PTE_V
     else if q = 0x87FF9000 \<and> j = 0 then PA2PTE 0x87FFA000 OR PTE_V
     else if q = 0x87FF8000 \<and> j = 0 then PA2PTE 0x87FF9000 OR PTE_V else 0)"
proof -
  note st = pte_at_store [OF _ assms(1) _ assms(2), where i = 0]
  show ?thesis unfolding demo_mem_def
    by (subst st, simp, simp, subst st, simp, simp, subst st, simp, simp) (simp add: pte_at_zero_mem [OF assms])
qed

lemma demo_tnode:
  assumes "tpath js"
  shows "tnode demo_mem 0x87FF8000 js = (if js = [] then Some 0x87FF8000 else if js = [0] then Some 0x87FF9000
    else if js = [0, 0] then Some 0x87FFA000 else None)"
    and "tnode demo_mem 0x87FFC000 js = (if js = [] then Some 0x87FFC000 else None)"
proof -
  have c: "js = [] \<or> (\<exists>i < 512. js = [i]) \<or> (\<exists>i < 512. \<exists>j < 512. js = [i, j])"
    using assms by (cases js; cases "tl js") (auto simp: tpath_def)
  note pt = demo_pte [OF demo_aligned(1)] demo_pte [OF demo_aligned(2)] demo_pte [OF demo_aligned(5)]
  have v: "valid (pte_at demo_mem 0x87FF8000 i) \<longleftrightarrow> i = 0" "valid (pte_at demo_mem 0x87FF9000 i) \<longleftrightarrow> i = 0"
    "\<not> valid (pte_at demo_mem 0x87FFC000 i)" if "i < 512" for i
    using that by (simp_all add: pt)
  have e: "PTE2PA (pte_at demo_mem 0x87FF8000 0) = 0x87FF9000" "PTE2PA (pte_at demo_mem 0x87FF9000 0) = 0x87FFA000"
    by (simp_all add: pt PA2PTE_V_PA)
  show "tnode demo_mem 0x87FF8000 js = (if js = [] then Some 0x87FF8000 else if js = [0] then Some 0x87FF9000
    else if js = [0, 0] then Some 0x87FFA000 else None)"
    using c by (elim disjE exE conjE) (simp_all add: v e)
  show "tnode demo_mem 0x87FFC000 js = (if js = [] then Some 0x87FFC000 else None)"
    using c by (elim disjE exE conjE) (simp_all add: v)
qed

lemma demo_nodes:
  "nodes demo_mem 0x87FF8000 = {0x87FF8000, 0x87FF9000, 0x87FFA000}" "nodes demo_mem 0x87FFC000 = {0x87FFC000}"
proof -
  have t: "tpath []" "tpath [0]" "tpath [0, 0]" by (simp_all add: tpath_def)
  have i: "0x87FF8000 \<in> nodes demo_mem 0x87FF8000" "0x87FFC000 \<in> nodes demo_mem 0x87FFC000"
    by (rule nodesI [OF t(1)], simp)+
  have i1: "0x87FF9000 \<in> nodes demo_mem 0x87FF8000"
    by (rule nodesI [OF t(2)], subst demo_tnode(1) [OF t(2)], simp)
  have i2: "0x87FFA000 \<in> nodes demo_mem 0x87FF8000"
    by (rule nodesI [OF t(3)], subst demo_tnode(1) [OF t(3)], simp)
  have "p \<in> {0x87FF8000, 0x87FF9000, 0x87FFA000}" if "p \<in> nodes demo_mem 0x87FF8000" for p
  proof -
    obtain js where js: "tpath js" "tnode demo_mem 0x87FF8000 js = Some p" using \<open>p \<in> _\<close> unfolding nodes_def by blast
    then show ?thesis using demo_tnode(1) [OF js(1)] by (simp split: if_splits)
  qed
  then show "nodes demo_mem 0x87FF8000 = {0x87FF8000, 0x87FF9000, 0x87FFA000}" using i(1) i1 i2 by blast
  have "p \<in> {0x87FFC000}" if "p \<in> nodes demo_mem 0x87FFC000" for p
  proof -
    obtain js where js: "tpath js" "tnode demo_mem 0x87FFC000 js = Some p" using \<open>p \<in> _\<close> unfolding nodes_def by blast
    then show ?thesis using demo_tnode(2) [OF js(1)] by (simp split: if_splits)
  qed
  then show "nodes demo_mem 0x87FFC000 = {0x87FFC000}" using i(2) by blast
qed

lemma demo_leaf:
  assumes "va < MAXVA"
  shows "leaf demo_mem 0x87FF8000 va = (if unat va < 4096 then PA2PTE 0x87FFB000 OR UPERM OR PTE_V else 0)"
    and "leaf demo_mem 0x87FFC000 va = 0"
proof -
  have "idx va \<noteq> []" "idx va \<noteq> [0]" by (simp_all add: idx_def)
  then have t: "tnode demo_mem 0x87FFC000 (idx va) = None"
    "tnode demo_mem 0x87FF8000 (idx va) = (if idx va = [0, 0] then Some 0x87FFA000 else None)"
    using demo_tnode [OF tpath_idx(1)] by simp_all
  then show "leaf demo_mem 0x87FFC000 va = 0" by (simp add: leaf_def)
  have p: "pte_at demo_mem 0x87FFA000 (unat (PX 0 va)) = (if unat (PX 0 va) = 0 then PA2PTE 0x87FFB000 OR UPERM OR PTE_V else 0)"
    using demo_pte [OF demo_aligned(3) PX_bound, of 0 va] by simp
  have z: "idx 0 = [0, 0]" "PX 0 (0::u64) = 0" by (simp_all add: idx_def PX_def)
  have "PGROUNDDOWN va = PGROUNDDOWN 0 \<longleftrightarrow> unat va < 4096"
    using page_of_iff [of 0 va] by (simp add: in_range_def)
  then have "idx va = [0, 0] \<and> PX 0 va = 0 \<longleftrightarrow> unat va < 4096"
    using idx_inj [OF assms, of 0] z by (simp add: MAXVA_def)
  then show "leaf demo_mem 0x87FF8000 va = (if unat va < 4096 then PA2PTE 0x87FFB000 OR UPERM OR PTE_V else 0)"
    using t(2) p by (auto simp: leaf_def unat_eq_zero)
qed

lemma demo_kpage [simp]: "kpage demo_user p \<longleftrightarrow> pg_aligned p \<and> 0x87FF8000 \<le> p \<and> p < PHYSTOP"
  by (simp add: kpage_def)

lemma demo_frames: "frames (leaf demo_mem 0x87FF8000) 0 1 = [0x87FFB000]"
proof -
  have "leaf demo_mem 0x87FF8000 0 = PA2PTE 0x87FFB000 OR UPERM OR PTE_V" by (subst demo_leaf) (simp_all add: MAXVA_def)
  then show ?thesis using entry_fields(1) [OF demo_aligned(4) UPERM_entry(1)] by simp
qed

lemma demo_kmem: "kmem_inv demo_user [0x87FFE000]"
proof -
  have "load64 demo_mem (0x87FFE000 + of_nat 0) = 0"
    using demo_pte [OF demo_aligned(6), of 0] by (simp add: pte_at_def pte_addr_def)
  then show ?thesis
    by (simp add: kmem_inv_def settled_def lk_free_def PHYSTOP_def KERNBASE_def) (simp add: demo_user_def)
qed

lemma demo_pt_wf: "pt_wf demo_user 0x87FF8000 [0x87FFE000]" "pt_wf demo_user 0x87FFC000 [0x87FFE000]"
  by (auto simp: pt_wf_def demo_nodes demo_tnode PHYSTOP_def KERNBASE_def split: if_splits)

lemma demo_owns: "owns demo_user 0x87FF8000 [0x87FFE000] 0 1"
proof -
  note ef = entry_fields [OF demo_aligned(4) UPERM_entry(1)]
  have "leaf demo_mem 0x87FF8000 vb = PA2PTE 0x87FFB000 OR UPERM OR PTE_V" if "in_range 0 1 vb" for vb
    using that demo_leaf(1) [of vb] by (simp add: in_range_def word_less_nat_alt unat_MAXVA)
  then show ?thesis
    using ef UPERM_entry(2) unfolding owns_def demo_user_simps demo_frames demo_nodes
    by (simp add: PHYSTOP_def KERNBASE_def)
qed

lemma demo_uvm: "uvm_inv demo_user 0x87FF8000 4096 [0x87FFE000]" "uvm_inv demo_user 0x87FFC000 0 [0x87FFE000]"
  "apart demo_user 0x87FF8000 (npages 4096) 0x87FFC000 [0x87FFE000]"
proof -
  have n: "npages 4096 = 1" "npages 0 = 0" by (simp_all add: npages_def)
  have m: "vb < MAXVA" if "vb < TRAPFRAME" for vb
    using that by (simp add: word_less_nat_alt unat_MAXVA unat_TRAPFRAME)
  have "PGROUNDUP 4096 = 4096" by (simp add: PGROUNDUP_def PGSIZE_def)
  then have "leaf demo_mem 0x87FF8000 vb = 0" if "vb < TRAPFRAME" "PGROUNDUP 4096 \<le> vb" for vb
    using demo_leaf(1) [OF m [OF that(1)]] that(2) by (simp add: word_le_nat_alt)
  then show "uvm_inv demo_user 0x87FF8000 4096 [0x87FFE000]"
    using demo_kmem demo_pt_wf(1) demo_owns n by (simp add: uvm_inv_def word_le_nat_alt unat_TRAPFRAME)
  show "uvm_inv demo_user 0x87FFC000 0 [0x87FFE000]"
    using demo_kmem demo_pt_wf(2) n m demo_leaf(2) by (simp add: uvm_inv_def owns_def)
  show "apart demo_user 0x87FF8000 (npages 4096) 0x87FFC000 [0x87FFE000]"
    unfolding n apart_def demo_user_simps demo_nodes demo_frames by simp
qed

lemma demo_uspace: "uspace demo_user 0x87FF8000 1"
proof -
  have "in_range 0 1 va" if "accessible demo_mem 0x87FF8000 va" for va
    using that demo_leaf(1) [of va] by (auto simp: accessible_def in_range_def split: if_splits)
  moreover have "pt_wf demo_user 0x87FF8000 []" using demo_pt_wf(1) by (rule pt_wf_subset) simp
  moreover have "owns demo_user 0x87FF8000 [] 0 1" using demo_owns by (rule owns_subset) simp
  ultimately show ?thesis by (simp add: uspace_def user_low_def)
qed

lemma demo_kbuf: "n \<le> 8 \<Longrightarrow> kbuf demo_user 0x87FF8000 1 0x87FFE000 n"
proof -
  assume n: "n \<le> 8"
  have "PGROUNDDOWN (0x87FFE000 + of_nat i) = 0x87FFE000" if "i < n" for i
    by (rule PGROUNDDOWN_page_off) (use that n in simp_all)
  then show ?thesis using n unfolding kbuf_def demo_user_simps demo_nodes demo_frames by simp
qed

section \<open>Witnesses\<close>

theorem uvmalloc_correct_witness:
  "\<exists>r s' xs'. uvmalloc 0x87FF8000 4096 8192 demo_user = Inr (r, s') \<and>
    (\<forall>va. in_range 0 (npages 4096) va \<longrightarrow> ubyte (mem s') 0x87FF8000 va = ubyte demo_mem 0x87FF8000 va) \<and>
    (r = 8192 \<and> uvm_inv s' 0x87FF8000 8192 xs' \<or> r = 0 \<and> uvm_inv s' 0x87FF8000 4096 xs')"
proof -
  have "(8192::u64) \<le> TRAPFRAME" by (simp add: word_le_nat_alt unat_TRAPFRAME)
  then show ?thesis using uvmalloc_correct [OF demo_uvm(1), of 8192] by fastforce
qed

theorem uvmdealloc_shrinks_witness:
  "\<exists>s'. uvmdealloc 0x87FF8000 4096 0 demo_user = Inr (0, s') \<and>
    uvm_inv s' 0x87FF8000 0 [0x87FFB000, 0x87FFE000]"
proof -
  have "npages 4096 - npages 0 = 1" "PGROUNDUP 0 = 0" by (simp_all add: npages_def PGROUNDUP_def PGSIZE_def)
  then show ?thesis using uvmdealloc_shrinks [OF demo_uvm(1), of 0] demo_frames by auto
qed

theorem uvmcopy_correct_witness:
  "\<exists>r s' xs'. uvmcopy 0x87FF8000 0x87FFC000 4096 demo_user = Inr (r, s') \<and> uvm_inv s' 0x87FF8000 4096 xs' \<and>
    (r = 0 \<and> uvm_inv s' 0x87FFC000 4096 xs' \<or> r = - 1 \<and> uvm_inv s' 0x87FFC000 0 xs')"
  using uvmcopy_correct [OF demo_uvm] by blast

theorem copyout_correct_witness:
  "\<exists>r s' k. copyout 0x87FF8000 4092 0x87FFE000 8 demo_user = Inr (r, s') \<and> uspace s' 0x87FF8000 1 \<and>
    user_written demo_mem (mem s') 0x87FF8000 1 4092 k (\<lambda>d. demo_mem (0x87FFE000 + d))"
  using copyout_correct [OF demo_uspace, of "0x87FFE000" 8 4092] demo_kbuf [of 8] by fastforce

theorem copyin_correct_witness:
  "\<exists>r k. copyin 0x87FF8000 0x87FFE000 4092 8 demo_user =
      Inr (r, demo_user\<lparr>mem := kernel_written demo_mem 0x87FFE000 k (\<lambda>d. ubyte demo_mem 0x87FF8000 (4092 + d))\<rparr>)"
  using copyin_correct [OF demo_uspace, of "0x87FFE000" 8 4092] demo_kbuf [of 8] by fastforce

text \<open>C13: mappages enters the pages that the range touches in the table one by one, mapped to
  consecutive frames with the given permissions, and changes no other translation and no page
  outside the table. When none of them is mapped yet, it maps them all and returns 0, or runs
  out of pages for the table and returns -1. When any of them is mapped already it panics,
  unless it runs out of pages before it reaches that one; when the first one is, it always
  panics.\<close>

theorem mappages_correct:
  assumes "kmem_inv s xs" and "pt_wf s root xs" and "0 < sz" and "unat va + unat sz \<le> 2 ^ 38"
  shows "((\<forall>vb. in_range (PGROUNDDOWN va) (pages_of va sz) vb \<longrightarrow> \<not> valid (leaf (mem s) root vb)) \<longrightarrow>
      (\<exists>r s' xs' k. mappages root va sz pa perm s = Inr (r, s') \<and> kmem_inv s' xs' \<and> pt_wf s' root xs' \<and>
        agree (leaf (mem s') root) (mapped (PGROUNDDOWN va) k pa perm (leaf (mem s) root)) \<and>
        same_on (- (nodes (mem s) root \<union> set xs)) (mem s') (mem s) \<and>
        (r = 0 \<and> k = pages_of va sz \<or> r = - 1 \<and> k < pages_of va sz \<and> xs' = []))) \<and>
    ((\<exists>vb. in_range (PGROUNDDOWN va) (pages_of va sz) vb \<and> valid (leaf (mem s) root vb)) \<longrightarrow>
      mappages root va sz pa perm s = Inl (Panic ''remap'') \<or>
      (\<exists>s' k. mappages root va sz pa perm s = Inr (- 1, s') \<and> kmem_inv s' [] \<and> pt_wf s' root [] \<and>
        agree (leaf (mem s') root) (mapped (PGROUNDDOWN va) k pa perm (leaf (mem s) root)) \<and>
        same_on (- (nodes (mem s) root \<union> set xs)) (mem s') (mem s) \<and> k < pages_of va sz \<and>
        (\<forall>vb. in_range (PGROUNDDOWN va) k vb \<longrightarrow> \<not> valid (leaf (mem s) root vb)))) \<and>
    (valid (leaf (mem s) root va) \<longrightarrow> mappages root va sz pa perm s = Inl (Panic ''remap''))"
proof (intro conjI impI)
  assume "\<forall>vb. in_range (PGROUNDDOWN va) (pages_of va sz) vb \<longrightarrow> \<not> valid (leaf (mem s) root vb)"
  then obtain r s' xs' k where "mappages root va sz pa perm s = Inr (r, s')" "pt_step root s xs s' xs'"
    "agree (leaf (mem s') root) (mapped (PGROUNDDOWN va) k pa perm (leaf (mem s) root))"
    "r = 0 \<and> k = pages_of va sz \<or> r = - 1 \<and> k < pages_of va sz \<and> xs' = []"
    using mappages_correct_aux [OF assms] by blast
  then show "\<exists>r s' xs' k. mappages root va sz pa perm s = Inr (r, s') \<and> kmem_inv s' xs' \<and> pt_wf s' root xs' \<and>
        agree (leaf (mem s') root) (mapped (PGROUNDDOWN va) k pa perm (leaf (mem s) root)) \<and>
        same_on (- (nodes (mem s) root \<union> set xs)) (mem s') (mem s) \<and>
        (r = 0 \<and> k = pages_of va sz \<or> r = - 1 \<and> k < pages_of va sz \<and> xs' = [])"
    unfolding pt_step_def by blast
next
  let ?a = "PGROUNDDOWN va" and ?n = "pages_of va sz - 1" and ?r = "mappages root va sz pa perm s"
  assume m: "\<exists>vb. in_range ?a (pages_of va sz) vb \<and> valid (leaf (mem s) root vb)"
  obtain k where k: "map_outcome root ?a ?n pa perm s xs ?r k" using mappages_outcome [OF assms] by blast
  have n: "Suc ?n = pages_of va sz" by (simp add: pages_of_def)
  have kn: "k \<le> Suc ?n" using k by (auto simp: map_outcome_def)
  have un: "\<not> valid (leaf (mem s) root vb)" if r: "in_range ?a k vb" for vb
  proof (rule range_unmapped [OF _ _ _ r])
    show "\<forall>j < k. \<not> valid (leaf (mem s) root (?a + of_nat j * PGSIZE))" using k by (simp add: map_outcome_def)
    show "unat ?a + k * 4096 \<le> 2 ^ 38" using kn pages_end [OF assms(3,4)] n mult_le_mono1 [of k "pages_of va sz" 4096] by linarith
  qed simp
  then have "k \<noteq> Suc ?n" using m n by auto
  then show "?r = Inl (Panic ''remap'') \<or> (\<exists>s' k. ?r = Inr (- 1, s') \<and> kmem_inv s' [] \<and> pt_wf s' root [] \<and>
        agree (leaf (mem s') root) (mapped ?a k pa perm (leaf (mem s) root)) \<and>
        same_on (- (nodes (mem s) root \<union> set xs)) (mem s') (mem s) \<and> k < pages_of va sz \<and>
        (\<forall>vb. in_range ?a k vb \<longrightarrow> \<not> valid (leaf (mem s) root vb)))"
    using k un n unfolding map_outcome_def pt_step_def by (metis less_Suc_eq_le)
next
  have "unat va < 2 ^ 38" using assms(3,4) by (simp add: word_less_nat_alt)
  then have "va < MAXVA" by (simp add: word_less_nat_alt unat_MAXVA)
  then show "mappages root va sz pa perm s = Inl (Panic ''remap'')" if "valid (leaf (mem s) root va)"
    using mappages_remap [OF assms(2)] that by blast
qed

theorem mappages_correct_witness:
  "mappages 0x87FF8000 100 10 0x87FFE000 UPERM demo_user = Inl (Panic ''remap'') \<and>
   (\<exists>r s'. mappages 0x87FFC000 0 4096 0x87FFE000 UPERM demo_user = Inr (r, s'))"
proof
  have "valid (leaf demo_mem 0x87FF8000 100)"
    using demo_leaf(1) [of 100] entry_fields(3) [OF demo_aligned(4) UPERM_entry(1)] by (simp add: MAXVA_def)
  then show "mappages 0x87FF8000 100 10 0x87FFE000 UPERM demo_user = Inl (Panic ''remap'')"
    using mappages_correct [OF demo_kmem demo_pt_wf(1), of 10 100] by simp
  have "\<not> valid (leaf demo_mem 0x87FFC000 vb)" if "in_range (PGROUNDDOWN 0) (pages_of 0 4096) vb" for vb
  proof -
    have "vb < MAXVA" using that by (simp add: in_range_def pages_of_def word_less_nat_alt unat_MAXVA)
    then show ?thesis by (simp add: demo_leaf)
  qed
  then show "\<exists>r s'. mappages 0x87FFC000 0 4096 0x87FFE000 UPERM demo_user = Inr (r, s')"
    using mappages_correct [OF demo_kmem demo_pt_wf(2), of 4096 0 "0x87FFE000" UPERM] by simp blast
qed

end
