(* ===== verification/Proc_Sync.thy ===== *)
theory Proc_Sync
  imports Proc Vm_Demo
begin

text \<open>
  Sleeping, waking, killing and scheduling on one hart: what the operations of theory Proc do
  to the process table, and the argument that a wakeup cannot be lost.
\<close>

section \<open>Critical sections on the process table\<close>

lemma lockit_procs [simp]:
  "procs (lockit l s) = procs s" "initproc (lockit l s) = initproc s" "nextpid (lockit l s) = nextpid s"
  "ticks (lockit l s) = ticks s" "mem (lockit l s) = mem s" "k_end (lockit l s) = k_end s"
  "freelist (lockit l s) = freelist s"
  "(lockit l s)\<lparr>procs := f\<rparr> = lockit l (s\<lparr>procs := f\<rparr>)"
  "(lockit l s)\<lparr>nextpid := n\<rparr> = lockit l (s\<lparr>nextpid := n\<rparr>)"
  "(lockit l s)\<lparr>ticks := n'\<rparr> = lockit l (s\<lparr>ticks := n'\<rparr>)"
  by (simp_all add: lockit_def)

lemma settled_procs [simp]:
  "settled (s\<lparr>procs := f\<rparr>) = settled s" "lk_free l (s\<lparr>procs := f\<rparr>) = lk_free l s"
  "settled (s\<lparr>nextpid := n\<rparr>) = settled s" "lk_free l (s\<lparr>nextpid := n\<rparr>) = lk_free l s"
  "settled (s\<lparr>ticks := n'\<rparr>) = settled s" "lk_free l (s\<lparr>ticks := n'\<rparr>) = lk_free l s"
  by (simp_all add: settled_def lk_free_def)

lemma upd_proc_eq: "upd_proc p f s = Inr ((), s\<lparr>procs := (procs s)(p := f (procs s p))\<rparr>)"
  by (simp add: upd_proc_def kmon)

lemma get_proc_eq: "get_proc p f s = Inr (f (procs s p), s)"
  by (simp add: get_proc_def kmon)

lemma curproc_eq: "settled s \<Longrightarrow> cpu_proc (cur_cpu s) = Some p \<Longrightarrow> curproc s = Inr (p, s)"
  by (simp add: curproc_def kmon nonnull_def)

lemmas proc_eqs = upd_proc_eq get_proc_eq curproc_eq

definition proc_locks_free :: "'a kproc_scheme \<Rightarrow> bool" where
  "proc_locks_free s \<longleftrightarrow> (\<forall>p < NPROC. lk_free (ProcLock p) s)"

lemma proc_locks_freeD [simp]: "proc_locks_free s \<Longrightarrow> p < NPROC \<Longrightarrow> lk_free (ProcLock p) s"
  by (simp add: proc_locks_free_def)

lemma proc_locks_free_simps [simp]:
  "proc_locks_free (s\<lparr>procs := f\<rparr>) = proc_locks_free s"
  "(\<forall>p. l \<noteq> ProcLock p) \<Longrightarrow> proc_locks_free (lockit l s) = proc_locks_free s"
  by (auto simp: proc_locks_free_def)

lemma lockit_commute: "k \<noteq> l \<Longrightarrow> lockit k (lockit l s) = lockit l (lockit k s)"
  by (simp add: lockit_def fun_upd_twist)

section \<open>wakeup\<close>

definition woken :: "chan \<Rightarrow> proc \<Rightarrow> proc" where
  "woken ch q = (if p_state q = SLEEPING \<and> p_chan q = Some ch then q\<lparr>p_state := RUNNABLE\<rparr> else q)"

definition wake_table :: "chan \<Rightarrow> nat set \<Rightarrow> (nat \<Rightarrow> proc) \<Rightarrow> nat \<Rightarrow> proc" where
  "wake_table ch P t = (\<lambda>p. if p \<in> P then woken ch (t p) else t p)"

lemma wakeup_one:
  assumes "settled s" and "lk_free (ProcLock p) s"
  shows "kseq (acquire (ProcLock p)) (kseq (upd_proc p f) (release (ProcLock p))) s =
    Inr ((), s\<lparr>procs := (procs s)(p := f (procs s p))\<rparr>)"
  using assms by (simp add: kmon upd_proc_eq)

lemma woken_def': "(\<lambda>q. if p_state q = SLEEPING \<and> p_chan q = Some ch then q\<lparr>p_state := RUNNABLE\<rparr> else q) = woken ch"
  by (rule ext) (simp add: woken_def)

lemma wakeup_loop:
  assumes "settled s" and "\<forall>p \<in> set ps. lk_free (ProcLock p) s" and "distinct ps"
  shows "kfor ps (\<lambda>p. kseq (acquire (ProcLock p)) (kseq (upd_proc p (woken ch)) (release (ProcLock p)))) s =
    Inr ((), s\<lparr>procs := wake_table ch (set ps) (procs s)\<rparr>)"
  using assms
proof (induction ps arbitrary: s)
  case Nil
  then show ?case by (simp add: kret_def wake_table_def)
next
  case (Cons p ps)
  let ?s = "s\<lparr>procs := (procs s)(p := woken ch (procs s p))\<rparr>"
  have "wake_table ch (set ps) (procs ?s) = wake_table ch (set (p # ps)) (procs s)"
    using Cons.prems(3) by (auto simp: wake_table_def)
  moreover have "lk_free (ProcLock p) s" using Cons.prems(2) by simp
  note kfor_Cons_ok [of "\<lambda>p. kseq (acquire (ProcLock p)) (kseq (upd_proc p (woken ch)) (release (ProcLock p)))",
      OF wakeup_one [OF Cons.prems(1) this, of "woken ch"], of ps]
  moreover note Cons.IH [of ?s]
  ultimately show ?case using Cons.prems by (simp add: fun_upd_def)
qed

lemma wakeup_eq [simp]:
  assumes "settled s" and "proc_locks_free s"
  shows "wakeup ch s = Inr ((), s\<lparr>procs := wake_table ch {..<NPROC} (procs s)\<rparr>)"
  unfolding wakeup_def woken_def' using wakeup_loop [of s "[0..<NPROC]" ch] assms
  by (simp add: atLeast0LessThan)

section \<open>kill\<close>

definition killed :: "proc \<Rightarrow> proc" where
  "killed q = (if p_state q = SLEEPING then q\<lparr>p_state := RUNNABLE\<rparr> else q)\<lparr>p_killed := 1\<rparr>"

lemma kill_step:
  assumes "settled s" and "lk_free (ProcLock p) s"
  shows "kseq (acquire (ProcLock p)) (kbind (get_proc p p_pid) (\<lambda>ppid.
      if ppid = pid then kseq (upd_proc p f) (kseq (release (ProcLock p)) (kret (Some x)))
      else kseq (release (ProcLock p)) (kret None))) s =
    (if p_pid (procs s p) = pid then Inr (Some x, s\<lparr>procs := (procs s)(p := f (procs s p))\<rparr>)
     else Inr (None, s))"
  using assms by (simp add: kmon proc_eqs)

lemma kill_loop:
  assumes "settled s" and "\<forall>p \<in> set ps. lk_free (ProcLock p) s"
  shows "kfind ps (\<lambda>p. kseq (acquire (ProcLock p)) (kbind (get_proc p p_pid) (\<lambda>ppid.
      if ppid = pid then kseq (upd_proc p killed) (kseq (release (ProcLock p)) (kret (Some x)))
      else kseq (release (ProcLock p)) (kret None)))) s =
    (case find (\<lambda>p. p_pid (procs s p) = pid) ps of None \<Rightarrow> Inr (None, s)
     | Some p \<Rightarrow> Inr (Some x, s\<lparr>procs := (procs s)(p := killed (procs s p))\<rparr>))"
  using assms(2)
proof (induction ps)
  case Nil
  then show ?case by (simp add: kret_def)
next
  case (Cons p ps)
  then have "lk_free (ProcLock p) s" by simp
  note kill_step [OF assms(1) this, of pid killed x]
  then show ?case using Cons by (simp add: kret_def)
qed

lemma killed_def': "(\<lambda>q. (if p_state q = SLEEPING then q\<lparr>p_state := RUNNABLE\<rparr> else q)\<lparr>p_killed := 1\<rparr>) = killed"
  by (rule ext) (simp add: killed_def)

lemma kill_eq:
  assumes "settled s" and "proc_locks_free s"
  shows "kill pid s = (case find (\<lambda>p. p_pid (procs s p) = pid) [0..<NPROC] of None \<Rightarrow> Inr (- 1, s)
     | Some p \<Rightarrow> Inr (0, s\<lparr>procs := (procs s)(p := killed (procs s p))\<rparr>))"
proof -
  have "\<forall>p \<in> set [0..<NPROC]. lk_free (ProcLock p) s" using assms(2) by simp
  from kill_loop [OF assms(1) this, of pid "0::int"] show ?thesis
    unfolding kill_def killed_def' by (simp add: kbind_cases kret_def split: option.splits)
qed

section \<open>sleep\<close>

text \<open>
  The state in which a process that sleeps gives up its hart: it is marked as sleeping on its
  channel, it holds its own lock, and the lock that protects the condition is free again.
\<close>

definition parked :: "nat \<Rightarrow> chan \<Rightarrow> 'a kproc_scheme \<Rightarrow> 'a kproc_scheme" where
  "parked p ch s = lockit (ProcLock p)
     (s\<lparr>procs := (procs s)(p := (procs s p)\<lparr>p_chan := Some ch, p_state := SLEEPING\<rparr>)\<rparr>)"

definition unparked :: "nat \<Rightarrow> 'a kproc_scheme \<Rightarrow> 'a kproc_scheme" where
  "unparked p s = s\<lparr>procs := (procs s)(p := (procs s p)\<lparr>p_chan := None\<rparr>)\<rparr>"

lemma release_other:
  assumes "settled s" and "lk_free l s" and "k \<noteq> l" and "lk_free k s"
  shows "release l (lockit k (lockit l s)) = Inr ((), lockit k s)"
  using release_ok [of "lockit k s" l] assms by (simp add: lockit_commute [of k l])

lemma intena_lockit: "settled s \<Longrightarrow> noff (cur_cpu s) = 0 \<Longrightarrow> intena (cur_cpu (lockit l s)) = sie s (tp s)"
  by (simp add: lockit_def settled_def)

text \<open>
  What the scheduler has to leave behind when it resumes a process: the process runs again on
  this hart, in a state where it holds its lock and nothing else, with the interrupts it
  left enabled still to be restored.
\<close>

definition resumes :: "('a kproc_scheme, unit) km \<Rightarrow> nat \<Rightarrow> 'a kproc_scheme \<Rightarrow> 'a kproc_scheme \<Rightarrow> bool" where
  "resumes sw p u v \<longleftrightarrow> sw u = Inr ((), lockit (ProcLock p) v) \<and> settled v \<and> noff (cur_cpu v) = 0 \<and>
     cpu_proc (cur_cpu v) = Some p \<and> lk_free (ProcLock p) v \<and> sie v (tp v) = intena (cur_cpu u)"

lemma sched_eq:
  assumes "settled s" and "noff (cur_cpu s) = 0" and "cpu_proc (cur_cpu s) = Some p" and "lk_free (ProcLock p) s"
    and "p_state (procs s p) \<noteq> RUNNING" and "resumes sw p (lockit (ProcLock p) s) v"
  shows "sched sw (lockit (ProcLock p) s) = Inr ((), lockit (ProcLock p) v)"
proof -
  let ?u = "lockit (ProcLock p) s"
  have c: "curproc ?u = Inr (p, ?u)" using assms by (simp add: curproc_eq)
  have off: "\<not> sie ?u (tp ?u)" "noff (cur_cpu ?u) = 1" using assms(2) by (simp_all add: lockit_def)
  have v: "sw ?u = Inr ((), lockit (ProcLock p) v)" "intena (cur_cpu v) = intena (cur_cpu ?u)"
    using assms(6) by (auto simp: resumes_def settled_def)
  have i: "intena (cur_cpu (lockit (ProcLock p) v)) = intena (cur_cpu ?u)" using v(2) by (simp add: lockit_def)
  have "upd_mycpu (\<lambda>c'. c'\<lparr>intena := intena (cur_cpu ?u)\<rparr>) (lockit (ProcLock p) v) = Inr ((), lockit (ProcLock p) v)"
    using i by (simp add: upd_mycpu_def kmod_def fun_upd_idem)
  moreover have "mycpu ?u = Inr (cur_cpu ?u, ?u)" by (simp add: mycpu_def cpuid_def kmon)
  moreover have "intr_get ?u = Inr (False, ?u)" using off by (simp add: intr_get_def kmon)
  moreover have "get_proc p p_state ?u = Inr (p_state (procs s p), ?u)" by (simp add: get_proc_eq)
  ultimately show ?thesis
    using c off assms(5) v(1) unfolding sched_def kseq_def by simp
qed

lemma sleep_eq:
  assumes "settled s" and "noff (cur_cpu s) = 0" and "cpu_proc (cur_cpu s) = Some p" and "lk_free (ProcLock p) s"
    and lk: "lk \<noteq> ProcLock p" "lk_free lk s"
    and r: "resumes sw p (parked p ch s) v" "lk_free lk v"
  shows "sleep sw ch lk (lockit lk s) = Inr ((), lockit lk (unparked p v))"
proof -
  let ?u = "s\<lparr>procs := (procs s)(p := (procs s p)\<lparr>p_chan := Some ch, p_state := SLEEPING\<rparr>)\<rparr>"
  have rel: "release lk (lockit (ProcLock p) (lockit lk s)) = Inr ((), lockit (ProcLock p) s)"
    using assms by (intro release_other) auto
  have sch: "sched sw (lockit (ProcLock p) ?u) = Inr ((), lockit (ProcLock p) v)"
    using assms by (intro sched_eq) (auto simp: parked_def)
  have v: "settled v" "lk_free (ProcLock p) v" using r(1) by (auto simp: resumes_def)
  show ?thesis
    using assms(1-6) rel sch v r(2) lk
    by (simp add: sleep_def kmon proc_eqs unparked_def)
qed

text \<open>Until the scheduler has released the lock of the sleeper, a wakeup from another hart waits for it.\<close>

lemma kfor_stop: "body i s = Inl e \<Longrightarrow> kfor (i # is) body s = Inl e"
  by (simp add: kseq_def)

lemma wakeup_blocked:
  assumes st: "settled s" and p: "p < NPROC" and held: "locked (locks s (ProcLock p))" "lcpu (locks s (ProcLock p)) \<noteq> Some (tp s)"
    and below: "\<forall>q < p. lk_free (ProcLock q) s"
  shows "wakeup ch s = Inl (Spin (ProcLock p))"
proof -
  let ?body = "\<lambda>p. kseq (acquire (ProcLock p)) (kseq (upd_proc p (woken ch)) (release (ProcLock p)))"
  let ?t = "s\<lparr>procs := wake_table ch {..<p} (procs s)\<rparr>"
  have "[0..<NPROC] = [0..<p] @ p # [Suc p..<NPROC]"
    using upt_add_eq_append [of 0 p "NPROC - p"] upt_conv_Cons [OF p] p by simp
  moreover have "kfor [0..<p] ?body s = Inr ((), ?t)"
    using wakeup_loop [of s "[0..<p]" ch] st below by (simp add: atLeast0LessThan)
  moreover have "acquire (ProcLock p) ?t = Inl (Spin (ProcLock p))"
    using acquire_held [of ?t "ProcLock p"] st held by simp
  then have "?body p ?t = Inl (Spin (ProcLock p))" by (simp add: kseq_def)
  then have "kfor (p # [Suc p..<NPROC]) ?body ?t = Inl (Spin (ProcLock p))" by (rule kfor_stop)
  ultimately show ?thesis unfolding wakeup_def woken_def' by (simp add: kfor_append kseq_def del: kfor.simps)
qed

section \<open>The scheduler\<close>

lemma cpu_commute: "c\<lparr>noff := n, cpu_proc := x\<rparr> = c\<lparr>cpu_proc := x, noff := n\<rparr>"
  by (rule cpu.equality) simp_all

lemma upd_mycpu_lockit:
  "upd_mycpu (\<lambda>c. c\<lparr>cpu_proc := x\<rparr>) (lockit l s) =
     Inr ((), lockit l (s\<lparr>cpus := (cpus s)(tp s := (cur_cpu s)\<lparr>cpu_proc := x\<rparr>)\<rparr>))"
  by (simp add: upd_mycpu_def kmon lockit_def cpu_commute)

lemma settled_cpu_proc [simp]:
  "settled (s\<lparr>cpus := (cpus s)(tp s := (cur_cpu s)\<lparr>cpu_proc := x\<rparr>)\<rparr>) = settled s"
  "lk_free l (s\<lparr>cpus := f\<rparr>) = lk_free l s"
  by (simp_all add: settled_def lk_free_def)

lemma proc_locks_free_cpus [simp]: "proc_locks_free (s\<lparr>cpus := f\<rparr>) = proc_locks_free s"
  by (simp add: proc_locks_free_def)

text \<open>
  The processes as a hart sees them: process p, switched to with its lock held, comes back
  with its lock held and every other runnable process still runnable. The extension of the
  state logs the processes that rl.
\<close>

definition well_behaved :: "(nat \<Rightarrow> (nat list kproc_scheme, unit) km) \<Rightarrow> bool" where
  "well_behaved run \<longleftrightarrow>
     (\<forall>p t. p < NPROC \<and> settled t \<and> proc_locks_free t \<and> p_state (procs t p) = RUNNING \<and>
        cpu_proc (cur_cpu t) = Some p \<longrightarrow>
      (\<exists>t'. run p (lockit (ProcLock p) t) = Inr ((), lockit (ProcLock p) t') \<and> settled t' \<and>
        proc_locks_free t' \<and> kproc.more t' = kproc.more t @ [p] \<and>
        (\<forall>q. q \<noteq> p \<and> p_state (procs t q) = RUNNABLE \<longrightarrow> p_state (procs t' q) = RUNNABLE)))"

definition passed :: "nat list \<Rightarrow> nat list kproc_scheme \<Rightarrow> nat list \<Rightarrow> nat list kproc_scheme \<Rightarrow> bool" where
  "passed ps s rl s' \<longleftrightarrow> settled s' \<and> proc_locks_free s' \<and> kproc.more s' = kproc.more s @ rl \<and>
     set rl \<subseteq> set ps \<and> distinct rl \<and> {p \<in> set ps. p_state (procs s p) = RUNNABLE} \<subseteq> set rl"

lemma sched_run:
  assumes "well_behaved run" and "p < NPROC" and "settled s" and "proc_locks_free s" and "p_state (procs s p) = RUNNABLE"
  shows "\<exists>t. sched_pass run (p # ps) found s = sched_pass run ps True t \<and> settled t \<and> proc_locks_free t \<and>
    kproc.more t = kproc.more s @ [p] \<and>
    (\<forall>q. q \<noteq> p \<and> p_state (procs s q) = RUNNABLE \<longrightarrow> p_state (procs t q) = RUNNABLE)"
proof -
  let ?t = "s\<lparr>procs := (procs s)(p := (procs s p)\<lparr>p_state := RUNNING\<rparr>)\<rparr>"
  let ?u = "?t\<lparr>cpus := (cpus ?t)(tp ?t := (cur_cpu ?t)\<lparr>cpu_proc := Some p\<rparr>)\<rparr>"
  have u: "settled ?u" "proc_locks_free ?u" "p_state (procs ?u p) = RUNNING" "cpu_proc (cur_cpu ?u) = Some p"
    using assms settled_cpu_proc(1) [of ?t "Some p"] by simp_all
  with assms(1,2) obtain v where v: "run p (lockit (ProcLock p) ?u) = Inr ((), lockit (ProcLock p) v)"
    "settled v" "proc_locks_free v" "kproc.more v = kproc.more ?u @ [p]"
    "\<forall>q. q \<noteq> p \<and> p_state (procs ?u q) = RUNNABLE \<longrightarrow> p_state (procs v q) = RUNNABLE"
    unfolding well_behaved_def by blast
  let ?w = "v\<lparr>cpus := (cpus v)(tp v := (cur_cpu v)\<lparr>cpu_proc := None\<rparr>)\<rparr>"
  have "sched_pass run (p # ps) found s = sched_pass run ps True ?w"
    using assms v(1-3) settled_cpu_proc(1) [of v None] upd_mycpu_lockit [of "Some p" "ProcLock p" ?t]
      upd_mycpu_lockit [of None "ProcLock p" v]
    by (simp add: kseq_def proc_eqs)
  then show ?thesis using v settled_cpu_proc(1) [of v None] by (intro exI [of _ ?w]) simp
qed

lemma sched_pass_runs:
  assumes "well_behaved run"
  shows "settled s \<Longrightarrow> proc_locks_free s \<Longrightarrow> distinct ps \<Longrightarrow> set ps \<subseteq> {..<NPROC} \<Longrightarrow>
    \<exists>rl s'. sched_pass run ps found s = Inr (found \<or> rl \<noteq> [], s') \<and> passed ps s rl s'"
proof (induction ps arbitrary: s found)
  case Nil
  then show ?case by (intro exI [of _ "[]"] exI [of _ s]) (simp add: kret_def passed_def)
next
  case (Cons p ps)
  show ?case
  proof (cases "p_state (procs s p) = RUNNABLE")
    case True
    have p: "p < NPROC" using Cons.prems(4) by simp
    obtain t where t: "sched_pass run (p # ps) found s = sched_pass run ps True t" "settled t" "proc_locks_free t"
      "kproc.more t = kproc.more s @ [p]"
      "\<forall>q. q \<noteq> p \<and> p_state (procs s q) = RUNNABLE \<longrightarrow> p_state (procs t q) = RUNNABLE"
      using sched_run [OF assms p Cons.prems(1,2) True, of ps found] by blast
    then obtain rl s' where r: "sched_pass run ps True t = Inr (True, s')" "passed ps t rl s'"
      using Cons.IH [of t True] Cons.prems by auto
    have "passed (p # ps) s (p # rl) s'" using r(2) t Cons.prems(3) by (auto simp: passed_def)
    then show ?thesis using t(1) r(1) by (intro exI [of _ "p # rl"] exI [of _ s']) simp
  next
    case False
    then have "sched_pass run (p # ps) found s = sched_pass run ps found s"
      using Cons.prems by (simp add: kseq_def proc_eqs)
    moreover obtain rl s' where "sched_pass run ps found s = Inr (found \<or> rl \<noteq> [], s')" "passed ps s rl s'"
      using Cons.IH [of s found] Cons.prems by auto
    ultimately show ?thesis using False Cons.prems(3)
      by (intro exI [of _ rl] exI [of _ s']) (auto simp: passed_def)
  qed
qed

section \<open>A process table for the witnesses\<close>

definition demo_proc :: proc where
  "demo_proc = \<lparr>p_state = UNUSED, p_parent = None, p_chan = None, p_killed = 0, p_xstate = 0, p_pid = 0,
     p_mask = 0, p_kstack = 0, p_sz = 0, p_pagetable = 0, p_trapframe = 0,
     p_context = \<lparr>ctx_ra = 0, ctx_sp = 0, ctx_s = []\<rparr>, p_ofile = replicate NOFILE None, p_cwd = None,
     p_name = replicate 16 0\<rparr>"

text \<open>
  Process 3 runs on hart 0 in the address space of theory Vm_Demo, process 5 sleeps until
  the clock ticks, process 6 is runnable.
\<close>

definition demo_table :: "nat \<Rightarrow> proc" where
  "demo_table = (\<lambda>_. demo_proc)(
     3 := demo_proc\<lparr>p_state := RUNNING, p_pid := 7, p_sz := 4096, p_pagetable := 0x87FF8000\<rparr>,
     5 := demo_proc\<lparr>p_state := SLEEPING, p_chan := Some ChTicks, p_pid := 9\<rparr>,
     6 := demo_proc\<lparr>p_state := RUNNABLE, p_pid := 10\<rparr>)"

definition demo_kproc :: "'a \<Rightarrow> 'a kproc_scheme" where
  "demo_kproc x = \<lparr>tp = 0, sie = (\<lambda>_. True), cpus = (\<lambda>_. \<lparr>cpu_proc = None, noff = 0, intena = True\<rparr>)(0 := \<lparr>cpu_proc = Some 3, noff = 0, intena = True\<rparr>),
     locks = (\<lambda>_. \<lparr>locked = False, lname = [], lcpu = None\<rparr>),
     mem = demo_mem, k_end = 0x87FF8000, k_etext = 0x80001000,
     k_trampoline = 0x80000000, freelist = 0x87FFE000, kernel_pagetable = 0, satp = (\<lambda>_. 0),
     procs = demo_table, initproc = Some 0, nextpid = 11, ticks = 0, k_forkret = 0x80000100,
     k_initcode = 0x80000200, \<dots> = x\<rparr>"

lemma demo_kproc_ok [simp]:
  "settled (demo_kproc x)" "settled (demo_kproc x\<lparr>tp := h\<rparr>)" "lk_free l (demo_kproc x)" "proc_locks_free (demo_kproc x)"
  "proc_locks_free (demo_kproc x\<lparr>tp := h\<rparr>)"
  "cpus (demo_kproc x) 0 = \<lparr>cpu_proc = Some 3, noff = 0, intena = True\<rparr>" "tp (demo_kproc x) = 0"
  "procs (demo_kproc x) = demo_table" "sie (demo_kproc x) h"
  by (simp_all add: demo_kproc_def settled_def lk_free_def proc_locks_free_def)

lemma demo_table_simps [simp]:
  "demo_table 3 = demo_proc\<lparr>p_state := RUNNING, p_pid := 7, p_sz := 4096, p_pagetable := 0x87FF8000\<rparr>"
  "demo_table 5 = demo_proc\<lparr>p_state := SLEEPING, p_chan := Some ChTicks, p_pid := 9\<rparr>"
  "demo_table 6 = demo_proc\<lparr>p_state := RUNNABLE, p_pid := 10\<rparr>"
  by (simp_all add: demo_table_def)

lemma NPROC_64: "NPROC = 64"
  by (simp add: NPROC_def)

section \<open>Properties\<close>

text \<open>When a process sleeps on a channel, it gives up the hart in a state in which the lock of the
  condition is free, but its own lock is held and it is already marked as sleeping; a wakeup
  on another hart in this state waits for the process lock, and once that lock is
  released it makes the process runnable. When the scheduler resumes the process, sleep
  returns with the lock of the condition held again.\<close>

theorem sleep_gives_up_hart:
  assumes "settled s" and "noff (cur_cpu s) = 0" and "cpu_proc (cur_cpu s) = Some p" and "p < NPROC"
    and "proc_locks_free s" and "\<forall>q. lk \<noteq> ProcLock q" and "lk_free lk s"
    and "resumes sw p (parked p ch s) v" and "lk_free lk v"
    and "h \<noteq> tp s" and "settled (s\<lparr>tp := h\<rparr>)"
  shows "sleep sw ch lk (lockit lk s) = Inr ((), lockit lk (unparked p v)) \<and>
    lk_free lk (parked p ch s) \<and>
    wakeup ch ((parked p ch s)\<lparr>tp := h\<rparr>) = Inl (Spin (ProcLock p)) \<and>
    (\<exists>w. kseq (release (ProcLock p)) (wakeup ch) (parked p ch s) = Inr ((), w) \<and>
      p_state (procs w p) = RUNNABLE)"
proof -
  let ?t = "s\<lparr>procs := (procs s)(p := (procs s p)\<lparr>p_chan := Some ch, p_state := SLEEPING\<rparr>)\<rparr>"
  have pk: "parked p ch s = lockit (ProcLock p) ?t" by (simp add: parked_def)
  have a: "sleep sw ch lk (lockit lk s) = Inr ((), lockit lk (unparked p v))"
    using assms by (intro sleep_eq) simp_all
  have b: "lk_free lk (parked p ch s)" using assms(6,7) by (simp add: pk)
  have "settled ((parked p ch s)\<lparr>tp := h\<rparr>)" "\<forall>q < p. lk_free (ProcLock q) ((parked p ch s)\<lparr>tp := h\<rparr>)"
    using assms(4,5,10,11) by (auto simp: pk settled_def lockit_def proc_locks_free_def lk_free_def)
  then have c: "wakeup ch ((parked p ch s)\<lparr>tp := h\<rparr>) = Inl (Spin (ProcLock p))"
    using assms(4,10) by (intro wakeup_blocked) (auto simp: pk lockit_def)
  have "release (ProcLock p) (parked p ch s) = Inr ((), ?t)" using assms(1,4,5) by (simp add: pk)
  then have "kseq (release (ProcLock p)) (wakeup ch) (parked p ch s) =
      Inr ((), ?t\<lparr>procs := wake_table ch {..<NPROC} (procs ?t)\<rparr>)"
    using assms(1,5) by (simp add: kseq_def)
  with a b c show ?thesis using assms(4) by (simp add: wake_table_def woken_def)
qed

text \<open>A scheduler that wakes the process and switches back to it at once.\<close>

definition demo_switch :: "('a kproc_scheme, unit) km" where
  "demo_switch s = Inr ((), s\<lparr>procs := (procs s)(3 := (procs s 3)\<lparr>p_state := RUNNING\<rparr>)\<rparr>)"

theorem sleep_gives_up_hart_witness:
  "\<exists>v. sleep demo_switch ChTicks TicksLock (lockit TicksLock (demo_kproc ())) = Inr ((), lockit TicksLock (unparked 3 v)) \<and>
    p_state (procs v 3) = RUNNING \<and>
    wakeup ChTicks ((parked 3 ChTicks (demo_kproc ()))\<lparr>tp := 1\<rparr>) = Inl (Spin (ProcLock 3))"
proof -
  let ?s = "demo_kproc ()"
  let ?p = "?s\<lparr>procs := (procs ?s)(3 := (procs ?s 3)\<lparr>p_chan := Some ChTicks, p_state := SLEEPING\<rparr>)\<rparr>"
  let ?v = "?p\<lparr>procs := (procs ?p)(3 := (procs ?p 3)\<lparr>p_state := RUNNING\<rparr>)\<rparr>"
  have "cur_cpu ?v = cur_cpu ?s" "sie ?v = sie ?s" "tp ?v = tp ?s" by simp_all
  moreover have "intena (cur_cpu (parked 3 ChTicks ?s)) = True"
    by (simp add: parked_def lockit_def)
  ultimately have "resumes demo_switch 3 (parked 3 ChTicks ?s) ?v"
    by (simp add: resumes_def demo_switch_def parked_def)
  from sleep_gives_up_hart [OF _ _ _ _ _ _ _ this, where lk = TicksLock and h = 1]
  show ?thesis by (intro exI [of _ ?v]) (simp add: NPROC_64)
qed

text \<open>Wakeup makes exactly the processes that sleep on the channel runnable and changes nothing else;
  kill marks the lowest process with the given pid, wakes it if it sleeps, and reports -1 without
  a change when there is none.\<close>

theorem wakeup_kill_exact:
  assumes "settled s" and "proc_locks_free s"
  shows "wakeup ch s = Inr ((), s\<lparr>procs := \<lambda>p.
      if p < NPROC \<and> p_state (procs s p) = SLEEPING \<and> p_chan (procs s p) = Some ch
      then (procs s p)\<lparr>p_state := RUNNABLE\<rparr> else procs s p\<rparr>) \<and>
    kill pid s = (case find (\<lambda>p. p_pid (procs s p) = pid) [0..<NPROC] of
        None \<Rightarrow> Inr (- 1, s)
      | Some p \<Rightarrow> Inr (0, s\<lparr>procs := (procs s)(p := (procs s p)\<lparr>p_killed := 1,
          p_state := (if p_state (procs s p) = SLEEPING then RUNNABLE else p_state (procs s p))\<rparr>)\<rparr>))"
proof -
  have "wake_table ch {..<NPROC} (procs s) = (\<lambda>p.
      if p < NPROC \<and> p_state (procs s p) = SLEEPING \<and> p_chan (procs s p) = Some ch
      then (procs s p)\<lparr>p_state := RUNNABLE\<rparr> else procs s p)"
    by (rule ext) (simp add: wake_table_def woken_def)
  moreover have "killed q = q\<lparr>p_killed := 1, p_state := (if p_state q = SLEEPING then RUNNABLE else p_state q)\<rparr>" for q
    by (simp add: killed_def)
  ultimately show ?thesis using assms by (simp add: kill_eq split: option.split)
qed

theorem wakeup_kill_exact_witness:
  "\<exists>s1 s2. wakeup ChTicks (demo_kproc ()) = Inr ((), s1) \<and> p_state (procs s1 5) = RUNNABLE \<and>
    kill 9 (demo_kproc ()) = Inr (0, s2) \<and> p_state (procs s2 5) = RUNNABLE \<and> p_killed (procs s2 5) = 1 \<and>
    kill 99 (demo_kproc ()) = Inr (- 1, demo_kproc ())"
proof -
  note w = wakeup_kill_exact [OF demo_kproc_ok(1) demo_kproc_ok(4)]
  have five: "5 < NPROC" by (simp add: NPROC_64)
  have "find (\<lambda>p. p_pid (procs (demo_kproc ()) p) = 9) [0..<NPROC] = Some 5"
    unfolding find_Some_iff using five by (intro exI [of _ 5]) (auto simp: demo_table_def demo_proc_def)
  note k9 = conjunct2 [OF w, of 9 "()", unfolded this option.case]
  have "find (\<lambda>p. p_pid (procs (demo_kproc ()) p) = 99) [0..<NPROC] = None"
    unfolding find_None_iff by (auto simp: demo_table_def demo_proc_def split: if_splits)
  note k99 = conjunct2 [OF w, of 99 "()", unfolded this option.case]
  show ?thesis
    unfolding k9 k99 conjunct1 [OF w [of ChTicks]] using five by (intro exI conjI, (rule refl | simp)+)
qed


text \<open>Processes that run until their time slice is over.\<close>

definition demo_run :: "nat \<Rightarrow> (nat list kproc_scheme, unit) km" where
  "demo_run p s = Inr ((), kproc.more_update (\<lambda>l. l @ [p])
     (s\<lparr>procs := (procs s)(p := (procs s p)\<lparr>p_state := RUNNABLE\<rparr>)\<rparr>))"


end
