(* ===== verification/Demo_Kernel.thy ===== *)
theory Demo_Kernel
  imports Console Proc_Sync
begin

text \<open>
  A concrete kernel state on which the statements about the upper half of the kernel are
  tried out: the process table and the address space of the demonstrations before, all locks
  free, an empty buffer cache in its initial order, a log that starts at block 2, and an idle
  console. Each level of the state leaves the levels above it open.
\<close>

definition demo_buf :: buf where
  "demo_buf = \<lparr>b_valid = False, b_disk = False, b_dev = 0, b_blockno = 0, b_refcnt = 0, b_data = replicate 1024 0\<rparr>"

definition demo_vdisk :: vdisk where
  "demo_vdisk = \<lparr>v_desc = (\<lambda>_. vd_zero), v_avail_idx = 0, v_avail = (\<lambda>_. 0), v_used_id = 0, v_used_elems = (\<lambda>_. 0),
     v_free = (\<lambda>i. i < NUM), v_used_idx = 0, v_info = (\<lambda>_. \<lparr>info_b = None, info_status = 0\<rparr>)\<rparr>"

definition demo_kdisk :: "'a \<Rightarrow> 'a kdisk_scheme" where
  "demo_kdisk x = demo_kproc (ksleep_ext (\<lambda>_. \<lparr>sl_locked = False, sl_name = [], sl_pid = 0\<rparr>)
     (kpipe_ext (\<lambda>_. \<lparr>pi_data = replicate 512 0, nread = 0, nwrite = 0, readopen = True, writeopen = True\<rparr>)
     (kdisk_ext (\<lambda>_. demo_buf) demo_vdisk (\<lambda>_. 0) [] (\<lambda>_. 0)
       (\<lambda>_. \<lparr>hdr_type = 0, hdr_reserved = 0, hdr_sector = 0\<rparr>) x)))"

text \<open>The list of binit: the last buffer first.\<close>

definition demo_bnext :: "bnode \<Rightarrow> bnode" where
  "demo_bnext n = (case n of Head \<Rightarrow> Buf (NBUF - 1) | Buf 0 \<Rightarrow> Head | Buf (Suc i) \<Rightarrow> Buf i)"

definition demo_bprev :: "bnode \<Rightarrow> bnode" where
  "demo_bprev n = (case n of Head \<Rightarrow> Buf 0 | Buf i \<Rightarrow> if i = NBUF - 1 then Head else Buf (Suc i))"

definition demo_klog :: "'a \<Rightarrow> 'a klog_scheme" where
  "demo_klog x = demo_kdisk (kbio_ext demo_bprev demo_bnext
     (klog_ext 2 30 0 False 1 \<lparr>lh_n = 0, lh_block = replicate LOGSIZE 0\<rparr> x))"

definition demo_kcons :: "kcons" where
  "demo_kcons = demo_klog (kfs_ext
     (\<lambda>_. \<lparr>i_dev = 0, i_inum = 0, i_ref = 0, i_valid = False, i_type = 0, i_major = 0, i_minor = 0,
        i_nlink = 0, i_size = 0, i_addrs = replicate 13 0\<rparr>)
     \<lparr>sb_magic = FSMAGIC, sb_size = 1000, sb_nblocks = 954, sb_ninodes = 200, sb_nlog = 30, sb_logstart = 2,
        sb_inodestart = 32, sb_bmapstart = 45\<rparr>
     (kcons_ext (\<lambda>i. if i = 0 then LSR_TX_IDLE else 0) 0 (\<lambda>_. 0) 0 [] (replicate 32 0) 0 0 False True
        \<lparr>cons_buf = replicate 128 0, cons_r = 0, cons_w = 0, cons_e = 0\<rparr> (\<lambda>_. None) ()))"

lemma demo_kernel_ok [simp]:
  "settled (demo_kdisk x)" "lk_free l (demo_kdisk x)" "proc_locks_free (demo_kdisk x)"
  "settled (demo_klog y)" "lk_free l (demo_klog y)" "proc_locks_free (demo_klog y)"
  "settled demo_kcons" "lk_free l demo_kcons" "proc_locks_free demo_kcons"
  by (simp_all add: demo_kdisk_def demo_klog_def demo_kcons_def)

end
