(* ===== verification/Trap_Facts.thy ===== *)
theory Trap_Facts
  imports Trap Demo_Kernel
begin

text \<open>
  Facts on the upper half of the kernel: file descriptors, and the machine state in which traps return.
\<close>

section \<open>File descriptors\<close>

lemma kfind_pure:
  assumes "\<And>i. body i s = (if P i then Inr (Some (f i), g i) else Inr (None, s))"
  shows "kfind xs body s = (case find P xs of None \<Rightarrow> Inr (None, s) | Some i \<Rightarrow> Inr (Some (f i), g i))"
proof (induction xs)
  case (Cons x xs)
  then show ?case using assms [of x] by (cases "P x") (simp_all add: kfind_Cons_None kfind_Cons_Some kret_def)
qed (simp add: kret_def)

definition with_fd :: "nat \<Rightarrow> nat \<Rightarrow> nat option \<Rightarrow> 'a kproc_scheme \<Rightarrow> 'a kproc_scheme" where
  "with_fd p fd f s = s\<lparr>procs := (procs s)(p := (procs s p)\<lparr>p_ofile := (p_ofile (procs s p))[fd := f]\<rparr>)\<rparr>"

lemma fdalloc_eq:
  assumes "settled s" and "cpu_proc (cur_cpu s) = Some p"
  shows "fdalloc f s = (case find (\<lambda>fd. p_ofile (procs s p) ! fd = None) [0..<NOFILE] of
     None \<Rightarrow> Inr (- 1, s) | Some fd \<Rightarrow> Inr (int fd, with_fd p fd (Some f) s))"
proof -
  let ?body = "\<lambda>fd. kbind (get_proc p (\<lambda>q. p_ofile q ! fd)) (\<lambda>x.
       if x = None then
         kseq (upd_proc p (\<lambda>q. q\<lparr>p_ofile := (p_ofile q)[fd := Some f]\<rparr>)) (kret (Some (int fd)))
       else kret None)"
  have "kfind [0..<NOFILE] ?body s = (case find (\<lambda>fd. p_ofile (procs s p) ! fd = None) [0..<NOFILE] of
      None \<Rightarrow> Inr (None, s) | Some fd \<Rightarrow> Inr (Some (int fd), with_fd p fd (Some f) s))"
    by (rule kfind_pure) (simp add: get_proc_def upd_proc_def kmon with_fd_def)
  then show ?thesis
    using curproc_eq [OF assms] unfolding fdalloc_def by (simp add: kbind_def kret_def split: option.split)
qed

lemma clear_fd_eq: "clear_fd p fd s = Inr ((), with_fd p fd None s)"
  by (simp add: clear_fd_def upd_proc_def kmon with_fd_def)

lemma with_fd_back: "fd < length (p_ofile (procs s p)) \<Longrightarrow> p_ofile (procs s p) ! fd = x \<Longrightarrow> with_fd p fd x (with_fd p fd y s) = s"
  by (auto simp: with_fd_def list_update_same_conv)

section \<open>Returning from traps\<close>

lemma kbind_InrE:
  assumes "kbind f g s = Inr (x, s')"
  obtains y t where "f s = Inr (y, t)" and "g y t = Inr (x, s')"
  using assms by (auto simp: kbind_def split: sum.splits)

text \<open>A hart that runs process p in the kernel.\<close>

definition running :: "nat \<Rightarrow> 'a ktrap_scheme \<Rightarrow> bool" where
  "running p s \<longleftrightarrow> hart_ok s \<and> cpu_proc (cur_cpu s) = Some p"

abbreviation saved_pc :: "nat \<Rightarrow> 'a ktrap_scheme \<Rightarrow> u64" where
  "saved_pc p s \<equiv> load64 (mem s) (p_trapframe (procs s p) + tf_epc)"

text \<open>
  The kernel is back in user space in process p from the state t: interrupts are off until the
  return, the previous mode is user mode with interrupts to be enabled, traps go to uservec
  in the trampoline, the program counter is the one that the trap frame held in t, the trap
  frame has what uservec needs for the next trap, and userret gets the page table of p.
\<close>

definition user_ready :: "nat \<Rightarrow> 'a ktrap_scheme \<Rightarrow> 'a ktrap_scheme \<Rightarrow> bool" where
  "user_ready p t s \<longleftrightarrow> tp s = tp t \<and> \<not> sie s (tp s) \<and> \<not> spp s (tp s) \<and> spie s (tp s) \<and>
     stvec s (tp s) = TRAMPOLINE + (k_uservec t - k_trampoline t) \<and> cpu_proc (cur_cpu s) = Some p \<and>
     sepc s (tp s) = saved_pc p t \<and>
     load64 (mem s) (p_trapframe (procs t p) + tf_kernel_satp) = satp t (tp t) \<and>
     load64 (mem s) (p_trapframe (procs t p) + tf_kernel_sp) = p_kstack (procs t p) + PGSIZE \<and>
     load64 (mem s) (p_trapframe (procs t p) + tf_kernel_trap) = k_usertrap t \<and>
     load64 (mem s) (p_trapframe (procs t p) + tf_kernel_hartid) = of_nat (tp t) \<and>
     saved_pc p s = saved_pc p t"

definition back_in_user :: "nat \<Rightarrow> 'a ktrap_scheme \<Rightarrow> stop + (u64 \<times> u64 \<times> u64) \<times> 'a ktrap_scheme \<Rightarrow> bool" where
  "back_in_user p t res \<longleftrightarrow> (\<exists>s'. user_ready p t s' \<and>
     res = Inr ((TRAMPOLINE + (k_userret t - k_trampoline t), TRAPFRAME, MAKE_SATP (p_pagetable (procs t p))), s'))"

lemma curproc_running: "running p s \<Longrightarrow> curproc s = Inr (p, resync s)"
proof -
  assume r: "running p s"
  then have "myproc (resync s) = Inr (cpu_proc (cur_cpu (resync s)), resync s)"
    by (simp add: settled_resync running_def)
  moreover have "myproc (resync s) = myproc s" by (simp add: myproc_def kseq_def kbind_def push_off_resync)
  moreover have "cpu_proc (cur_cpu (resync s)) = Some p" using r by (auto simp: running_def resync_def)
  ultimately show ?thesis by (simp add: curproc_def kmon nonnull_def)
qed

lemma resync_trap [simp]:
  "mem (resync s) = mem s" "procs (resync s) = procs s" "k_uservec (resync s) = k_uservec s" "k_userret (resync s) = k_userret s"
  "k_trampoline (resync s) = k_trampoline s" "k_usertrap (resync s) = k_usertrap s" "satp (resync s) = satp s"
  "sepc (resync s) = sepc s" "scause (resync s) = scause s" "stvec (resync s) = stvec s" "k_kernelvec (resync s) = k_kernelvec s"
  "spp (resync s) = spp s" "spie (resync s) = spie s" "cpu_proc (cpus (resync s) i) = cpu_proc (cpus s i)"
  for s :: "'a ktrap_scheme"
  by (simp_all add: resync_def)

lemmas tf_offsets = tf_kernel_satp_def tf_kernel_sp_def tf_kernel_trap_def tf_kernel_hartid_def tf_epc_def

lemma load64_store64_apart:
  assumes "\<not> y - x < 8" and "\<not> x - y < (8 :: u64)"
  shows "load64 (store64 m (a + x) v) (a + y) = load64 m (a + y)"
proof -
  have d: "8 \<le> unat (y - x)" "8 \<le> unat (x - y)" using assms by (simp_all add: word_less_nat_alt)
  have "unat (y - x) + unat (x - y) = 2 ^ 64"
  proof -
    have "(unat (y - x) + unat (x - y)) mod 2 ^ 64 = 0" using unat_word_ariths(1) [of "y - x" "x - y"] by simp
    moreover have "unat (y - x) < 2 ^ 64" "unat (x - y) < 2 ^ 64" using unsigned_less [of "y - x"] unsigned_less [of "x - y"] by simp_all
    ultimately show ?thesis using d(1) by (simp add: mod_if split: if_splits)
  qed
  then have le: "unat (y - x) + 8 \<le> 2 ^ 64" using d(2) by linarith
  have "store64 m (a + x) v (a + y + of_nat i) = m (a + y + of_nat i)" if "i < 8" for i
  proof (rule store64_outside)
    have "a + y + of_nat i - (a + x) = (y - x) + of_nat i" by (simp add: algebra_simps)
    moreover have "unat ((y - x) + of_nat i) = unat (y - x) + i" using le that by (simp add: unat_word_ariths unat_of_nat)
    ultimately have "unat (a + y + of_nat i - (a + x)) = unat (y - x) + i" by (simp only:)
    then show "\<not> a + y + of_nat i - (a + x) < 8" unfolding word_less_nat_alt using d(1) by (simp only:) simp
  qed
  then have "rd (store64 m (a + x) v) (a + y) 8 = rd m (a + y) 8" by (intro rd_cong)
  then show ?thesis by (simp only: load64_def)
qed

lemmas tf_apart = load64_store64_apart load64_store64_apart [where x = 0, simplified] load64_store64_apart [where y = 0, simplified]

lemma usertrapret_back:
  assumes "running p t"
  shows "back_in_user p t (usertrapret t)"
proof -
  have c: "cpu_proc (cur_cpu t) = Some p" using assms by (simp add: running_def)
  show ?thesis
    unfolding back_in_user_def user_ready_def usertrapret_def
    using curproc_running [OF assms] c
    by (simp add: kmon core_defs w_stvec_def csr_def tf_set_def tf_get_def get_proc_def poke_def r_sstatus_def
        w_sstatus_def w_sepc_def tf_offsets tf_apart)
qed

text \<open>Every result of f is a result of h: what f does before does not matter.\<close>

definition ends_in :: "('s, 'a) km \<Rightarrow> ('s, 'a) km \<Rightarrow> bool" where
  "ends_in f h \<longleftrightarrow> (\<forall>s r s'. f s = Inr (r, s') \<longrightarrow> (\<exists>t. h t = Inr (r, s')))"

lemma ends_inD: "ends_in f h \<Longrightarrow> f s = Inr (r, s') \<Longrightarrow> \<exists>t. h t = Inr (r, s')"
  unfolding ends_in_def by blast

lemma ends_in_rules:
  "ends_in h h" "(\<And>y. ends_in (g y) h) \<Longrightarrow> ends_in (kbind f g) h" "ends_in k h \<Longrightarrow> ends_in (kseq f' k) h"
  "ends_in f1 h \<Longrightarrow> ends_in f2 h \<Longrightarrow> ends_in (if b then f1 else f2) h" "ends_in (kpanic m) h"
  unfolding ends_in_def by (auto simp: kseq_def kpanic_def kstop_def elim!: kbind_InrE)

text \<open>exit does not return.\<close>

lemma exit_no_return: "exit sw st s \<noteq> Inr x"
proof
  assume "exit sw st s = Inr x"
  moreover have "ends_in (exit sw st) (kpanic ''zombie exit'')" unfolding exit_def by (intro ends_in_rules)
  ultimately have "\<exists>t. kpanic ''zombie exit'' t = Inr x" using ends_inD [of _ _ s "fst x" "snd x"] by simp
  then show False by (simp add: kpanic_def kstop_def)
qed

text \<open>The state in which usertrap acts on the trap, and the one in which it calls syscall.\<close>

definition trap_entry :: "nat \<Rightarrow> 'a ktrap_scheme \<Rightarrow> 'a ktrap_scheme" where
  "trap_entry p s = (resync s)\<lparr>stvec := (stvec s)(tp s := k_kernelvec s),
     mem := store64 (mem s) (p_trapframe (procs s p) + tf_epc) (sepc s (tp s))\<rparr>"

definition sys_entry :: "nat \<Rightarrow> 'a ktrap_scheme \<Rightarrow> 'a ktrap_scheme" where
  "sys_entry p s = (trap_entry p s)\<lparr>
     mem := store64 (mem (trap_entry p s)) (p_trapframe (procs s p) + tf_epc) (sepc s (tp s) + 4),
     sie := (sie s)(tp s := True)\<rparr>"

lemma trap_entry_simps [simp]:
  "load64 (mem (trap_entry p s)) (p_trapframe (procs s p) + tf_epc) = sepc s (tp s)"
  "load64 (mem (sys_entry p s)) (p_trapframe (procs s p) + tf_epc) = sepc s (tp s) + 4"
  "procs (sys_entry p s) = procs s" "procs (trap_entry p s) = procs s" "scause (trap_entry p s) = scause s" "tp (trap_entry p s) = tp s" "sie (trap_entry p s) = sie s"
  by (simp_all add: trap_entry_def sys_entry_def)

lemma usertrap_enters:
  assumes "running p s" and "\<not> spp s (tp s)"
  shows "usertrap sw s = kbind (usertrap_cause sw p) (usertrap_leave sw p) (trap_entry p s)"
proof -
  let ?t = "s\<lparr>stvec := (stvec s)(tp s := k_kernelvec s)\<rparr>"
  have "running p ?t" using assms(1) by (simp add: running_def hart_ok_def)
  note c = curproc_running [OF this]
  have "resync ?t = (resync s)\<lparr>stvec := (stvec s)(tp s := k_kernelvec s)\<rparr>" by (simp add: resync_def)
  then have e: "kbind (csr sepc) (\<lambda>pc. kseq (tf_set p tf_epc pc) k) (resync ?t) = k (trap_entry p s)" for k :: "('a ktrap_scheme, 'r) km"
    by (simp add: csr_def tf_set_def get_proc_def poke_def kmon trap_entry_def)
  have "usertrap sw s = kbind (csr sepc) (\<lambda>pc. kseq (tf_set p tf_epc pc) (kbind (usertrap_cause sw p) (usertrap_leave sw p))) (resync ?t)"
    using assms(2) c by (simp add: usertrap_def r_sstatus_def w_stvec_def kget_def kmod_def kseq_def)
  then show ?thesis by (simp only: e)
qed

lemma leave_killed: "p_killed (procs t p) \<noteq> 0 \<Longrightarrow> usertrap_leave sw p w t \<noteq> Inr x"
  by (auto simp: usertrap_leave_def get_proc_def kmon exit_no_return split: sum.splits)

lemma leave_back:
  assumes "p_killed (procs t p) = 0" and "if w = 2 then yield sw t = Inr ((), u) else u = t" and "running p u"
  shows "back_in_user p u (usertrap_leave sw p w t)"
  using assms(1,2) usertrapret_back [OF assms(3)] by (simp add: usertrap_leave_def get_proc_def kmon split: if_splits)

lemma cause_syscall:
  assumes "running p s" and "scause s (tp s) = 8"
  shows "p_killed (procs s p) = 0 \<Longrightarrow> usertrap_cause sw p (trap_entry p s) = kseq (syscall sw) (kret 0) (sys_entry p s)"
    and "p_killed (procs s p) \<noteq> 0 \<Longrightarrow> usertrap_cause sw p (trap_entry p s) \<noteq> Inr x"
proof -
  have sc: "csr scause (trap_entry p s) = Inr (8, trap_entry p s)" using assms(2) by (simp add: csr_def kget_def)
  show "usertrap_cause sw p (trap_entry p s) = kseq (syscall sw) (kret 0) (sys_entry p s)" if "p_killed (procs s p) = 0"
  proof -
    have "usertrap_cause sw p (trap_entry p s) = kseq (syscall sw) (kret 0) ((trap_entry p s)\<lparr>
        mem := store64 (mem (trap_entry p s)) (p_trapframe (procs s p) + tf_epc) (sepc s (tp s) + 4), sie := (sie s)(tp s := True)\<rparr>)"
      using that sc by (simp add: usertrap_cause_def get_proc_def tf_get_def tf_set_def poke_def intr_on_def kmon)
    then show ?thesis by (simp add: sys_entry_def)
  qed
  show "usertrap_cause sw p (trap_entry p s) \<noteq> Inr x" if "p_killed (procs s p) \<noteq> 0"
    using that sc by (auto simp: usertrap_cause_def get_proc_def kseq_def kbind_cases kget_def exit_no_return split: sum.splits)
qed

lemma cause_device:
  assumes "scause s (tp s) \<noteq> 8" and "devintr (trap_entry p s) = Inr (d, t)"
  shows "d \<noteq> 0 \<Longrightarrow> usertrap_cause sw p (trap_entry p s) = Inr (d, t)"
    and "d = 0 \<Longrightarrow> usertrap_cause sw p (trap_entry p s) = Inr (w, u) \<Longrightarrow> p_killed (procs u p) \<noteq> 0"
proof -
  have sc: "csr scause (trap_entry p s) = Inr (scause s (tp s), trap_entry p s)" by (simp add: csr_def kget_def)
  show "usertrap_cause sw p (trap_entry p s) = Inr (d, t)" if "d \<noteq> 0"
    using that sc assms by (simp add: usertrap_cause_def kret_def)
  show "p_killed (procs u p) \<noteq> 0" if "d = 0" "usertrap_cause sw p (trap_entry p s) = Inr (w, u)"
    using that sc assms
    by (auto simp: usertrap_cause_def kseq_def kret_def upd_proc_def kmod_def elim!: kbind_InrE)
qed

text \<open>What kerneltrap found in the registers is there again when it returns, whoever ran in between.\<close>

lemma kerneltrap_restores_regs:
  assumes "kerneltrap sw s = Inr ((), s')"
  shows "sepc s' (tp s') = sepc s (tp s) \<and> spp s' (tp s') \<and> spie s' (tp s') = spie s (tp s) \<and> \<not> sie s' (tp s') \<and>
    spp s (tp s) \<and> \<not> sie s (tp s)"
proof -
  have g: "\<not> sie s (tp s)" "spp s (tp s)"
    using assms by (auto simp: kerneltrap_def r_sstatus_def csr_def intr_get_def kmon split: if_splits)
  let ?fin = "kseq (w_sepc (sepc s (tp s))) (w_sstatus (False, True, spie s (tp s)))"
  let ?body = "kbind devintr (\<lambda>which_dev.
         if which_dev = 0 then
           kseq (printf (ascii ''scause %p'' @ [10]) [VPtr (scause s (tp s))]) (
           kbind (csr sepc) (\<lambda>pc.
           kbind (csr stval) (\<lambda>tv.
           kseq (printf (ascii ''sepc=%p stval=%p'' @ [10]) [VPtr pc, VPtr tv]) (
           kpanic ''kerneltrap''))))
         else
           kseq (if which_dev = 2 then
               kbind myproc (\<lambda>q.
               case q of None \<Rightarrow> kret ()
               | Some p \<Rightarrow> kbind (get_proc p p_state) (\<lambda>st. if st = RUNNING then yield sw else kret ()))
             else kret ()) ?fin)"
  have k: "kerneltrap sw s = ?body s"
    using g by (simp add: kerneltrap_def r_sstatus_def csr_def intr_get_def kmon)
  have "ends_in ?body ?fin"
    by (intro ends_in_rules)
  then obtain t where "?fin t = Inr ((), s')" using assms unfolding k ends_in_def by blast
  then show ?thesis using g by (auto simp: w_sepc_def w_sstatus_def kmon)
qed

section \<open>Properties\<close>

text \<open>A new file descriptor is the lowest one that is free: fdalloc puts the file there and changes nothing else, and it gives
  -1 and changes nothing when all 16 are taken; closing the descriptor makes the table what it was before.\<close>

theorem fdalloc_lowest:
  assumes "settled s" and "cpu_proc (cur_cpu s) = Some p" and "length (p_ofile (procs s p)) = NOFILE"
  shows "((\<forall>fd < NOFILE. p_ofile (procs s p) ! fd \<noteq> None) \<longrightarrow> fdalloc f s = Inr (- 1, s)) \<and>
    (\<forall>fd < NOFILE. p_ofile (procs s p) ! fd = None \<and> (\<forall>k < fd. p_ofile (procs s p) ! k \<noteq> None) \<longrightarrow>
      fdalloc f s = Inr (int fd, with_fd p fd (Some f) s) \<and> clear_fd p fd (with_fd p fd (Some f) s) = Inr ((), s))"
proof (intro conjI allI impI)
  note eq = fdalloc_eq [OF assms(1,2), of f]
  assume "\<forall>fd < NOFILE. p_ofile (procs s p) ! fd \<noteq> None"
  then have "find (\<lambda>fd. p_ofile (procs s p) ! fd = None) [0..<NOFILE] = None" by (auto simp: find_None_iff)
  then show "fdalloc f s = Inr (- 1, s)" by (simp add: eq)
next
  note eq = fdalloc_eq [OF assms(1,2), of f]
  fix fd assume fd: "fd < NOFILE" and n: "p_ofile (procs s p) ! fd = None \<and> (\<forall>k < fd. p_ofile (procs s p) ! k \<noteq> None)"
  then have "find (\<lambda>fd. p_ofile (procs s p) ! fd = None) [0..<NOFILE] = Some fd"
    unfolding find_Some_iff by (intro exI [of _ fd]) simp
  then show "fdalloc f s = Inr (int fd, with_fd p fd (Some f) s)" by (simp add: eq)
  show "clear_fd p fd (with_fd p fd (Some f) s) = Inr ((), s)"
    using fd n assms(3) by (simp add: clear_fd_eq with_fd_back)
qed

theorem fdalloc_lowest_witness: "fdalloc 7 (demo_kproc ()) = Inr (0, with_fd 3 0 (Some 7) (demo_kproc ()))"
proof -
  have o: "p_ofile (procs (demo_kproc ()) 3) = replicate NOFILE None" and s: "settled (demo_kproc ())"
    and c: "cpu_proc (cur_cpu (demo_kproc ())) = Some 3"
    by (simp_all add: demo_kproc_def demo_table_def demo_proc_def settled_def)
  then have l: "length (p_ofile (procs (demo_kproc ()) 3)) = NOFILE" by simp
  have "0 < NOFILE" "p_ofile (procs (demo_kproc ()) 3) ! 0 = None" unfolding o by (simp_all add: NOFILE_def)
  then show ?thesis using fdalloc_lowest [OF s c l, of 7] by auto
qed

text \<open>C26: Traps return to where they came from. A trap taken in the kernel returns with the exception program counter and
  the status bits that it found, whatever device handler or other process ran in between. usertrap panics
  when the trap did not come from user mode. Otherwise it points the trap vector at kernelvec and saves the user program
  counter in the trap frame; for a system call it moves the saved counter past the ecall and turns
  interrupts on before it calls syscall. When the system call or the device handler (and, for the
  timer, the yield after it) gives the hart back to the process, the process continues at its
  saved program counter with its own page table. A killed process and one that made an unexpected
  exception never return to user space.\<close>

theorem traps_return_in_order:
  "(kerneltrap sw s = Inr ((), s') \<longrightarrow> sepc s' (tp s') = sepc s (tp s) \<and> spp s' (tp s') = spp s (tp s) \<and>
      spie s' (tp s') = spie s (tp s) \<and> sie s' (tp s') = sie s (tp s)) \<and>
   (spp s (tp s) \<longrightarrow> usertrap sw s = Inl (Panic ''usertrap: not from user mode'')) \<and>
   (running p s \<and> \<not> spp s (tp s) \<longrightarrow>
      saved_pc p (trap_entry p s) = sepc s (tp s) \<and> saved_pc p (sys_entry p s) = sepc s (tp s) + 4 \<and>
      (scause s (tp s) = 8 \<longrightarrow>
         (p_killed (procs s p) \<noteq> 0 \<longrightarrow> (\<forall>x. usertrap sw s \<noteq> Inr x)) \<and>
         (\<forall>t. p_killed (procs s p) = 0 \<and> syscall sw (sys_entry p s) = Inr ((), t) \<longrightarrow>
            (p_killed (procs t p) \<noteq> 0 \<longrightarrow> (\<forall>x. usertrap sw s \<noteq> Inr x)) \<and>
            (p_killed (procs t p) = 0 \<and> running p t \<longrightarrow> back_in_user p t (usertrap sw s)))) \<and>
      (scause s (tp s) \<noteq> 8 \<longrightarrow> (\<forall>d t. devintr (trap_entry p s) = Inr (d, t) \<longrightarrow>
         (d = 0 \<or> p_killed (procs t p) \<noteq> 0 \<longrightarrow> (\<forall>x. usertrap sw s \<noteq> Inr x)) \<and>
         (\<forall>u. d \<noteq> 0 \<and> p_killed (procs t p) = 0 \<and> (if d = 2 then yield sw t = Inr ((), u) else u = t) \<and> running p u \<longrightarrow>
            back_in_user p u (usertrap sw s)))))"
proof (intro conjI impI)
  show "sepc s' (tp s') = sepc s (tp s)" "spp s' (tp s') = spp s (tp s)" "spie s' (tp s') = spie s (tp s)" "sie s' (tp s') = sie s (tp s)"
    if "kerneltrap sw s = Inr ((), s')" using kerneltrap_restores_regs [OF that] by simp_all
  show "usertrap sw s = Inl (Panic ''usertrap: not from user mode'')" if "spp s (tp s)"
    using that by (simp add: usertrap_def r_sstatus_def kmon)
  assume "running p s \<and> \<not> spp s (tp s)"
  then have r: "running p s" and en: "usertrap sw s = kbind (usertrap_cause sw p) (usertrap_leave sw p) (trap_entry p s)"
    using usertrap_enters by blast+
  show "saved_pc p (trap_entry p s) = sepc s (tp s)" "saved_pc p (sys_entry p s) = sepc s (tp s) + 4" by simp_all
  show "\<forall>x. usertrap sw s \<noteq> Inr x" if "scause s (tp s) = 8" "p_killed (procs s p) \<noteq> 0"
    unfolding en using cause_syscall(2) [OF r that] by (auto simp: kbind_def split: sum.splits)
  show "\<forall>t. p_killed (procs s p) = 0 \<and> syscall sw (sys_entry p s) = Inr ((), t) \<longrightarrow>
            (p_killed (procs t p) \<noteq> 0 \<longrightarrow> (\<forall>x. usertrap sw s \<noteq> Inr x)) \<and>
            (p_killed (procs t p) = 0 \<and> running p t \<longrightarrow> back_in_user p t (usertrap sw s))" if "scause s (tp s) = 8"
    unfolding en using cause_syscall(1) [OF r that, of sw] leave_killed [of _ p sw 0] leave_back [of _ p 0 sw]
    by (simp add: kseq_def kret_def kbind_def)
  show "\<forall>d t. devintr (trap_entry p s) = Inr (d, t) \<longrightarrow>
         (d = 0 \<or> p_killed (procs t p) \<noteq> 0 \<longrightarrow> (\<forall>x. usertrap sw s \<noteq> Inr x)) \<and>
         (\<forall>u. d \<noteq> 0 \<and> p_killed (procs t p) = 0 \<and> (if d = 2 then yield sw t = Inr ((), u) else u = t) \<and> running p u \<longrightarrow>
            back_in_user p u (usertrap sw s))" if ne: "scause s (tp s) \<noteq> 8"
  proof (intro allI impI conjI)
    fix d t assume d: "devintr (trap_entry p s) = Inr (d, t)"
    note dev = cause_device [OF ne d]
    show "usertrap sw s \<noteq> Inr x" if "d = 0 \<or> p_killed (procs t p) \<noteq> 0" for x
    proof
      assume "usertrap sw s = Inr x"
      then obtain w u where "usertrap_cause sw p (trap_entry p s) = Inr (w, u)" "usertrap_leave sw p w u = Inr x"
        unfolding en by (cases x) (auto elim: kbind_InrE)
      then show False using that dev leave_killed [of u p sw w x] by (cases "d = 0") auto
    qed
    show "back_in_user p u (usertrap sw s)" if "d \<noteq> 0 \<and> p_killed (procs t p) = 0 \<and>
        (if d = 2 then yield sw t = Inr ((), u) else u = t) \<and> running p u" for u
      using that dev(1) leave_back [of t p d sw u] unfolding en by simp
  qed
qed

text \<open>A hart on which an external interrupt arrives that no device claims.\<close>

definition demo_trapped :: "bool \<Rightarrow> ktrap \<Rightarrow> ktrap" where
  "demo_trapped b s = s\<lparr>tp := 0, sie := (\<lambda>_. False), spp := (\<lambda>_. b), sepc := (\<lambda>_. 0x1000), scause := (\<lambda>_. 0x8000000000000009),
     plic_in := (\<lambda>_. 0), cpus := (\<lambda>_. \<lparr>cpu_proc = Some 3, noff = 0, intena = False\<rparr>), procs := demo_table\<rparr>"

lemma devintr_demo: "devintr (demo_trapped b s) = Inr (1, demo_trapped b s)"
  by (simp add: devintr_def csr_def plic_claim_def cpuid_def kmon demo_trapped_def UART0_IRQ_def VIRTIO0_IRQ_def)

lemma devintr_entry: "devintr (trap_entry 3 (demo_trapped b s)) = Inr (1, trap_entry 3 (demo_trapped b s))"
  by (simp add: devintr_def csr_def plic_claim_def cpuid_def kmon demo_trapped_def trap_entry_def resync_def UART0_IRQ_def VIRTIO0_IRQ_def)

theorem traps_return_in_order_witness:
  "\<forall>s. (\<exists>s'. kerneltrap (kret ()) (demo_trapped True s) = Inr ((), s') \<and> sepc s' (tp s') = 0x1000 \<and> spp s' (tp s')) \<and>
     (\<exists>r s'. usertrap (kret ()) (demo_trapped False s) = Inr (r, s') \<and> sepc s' (tp s') = 0x1000 \<and> \<not> spp s' (tp s'))"
proof (intro allI conjI)
  fix s :: ktrap
  let ?t = "demo_trapped True s"
  have t: "sepc ?t (tp ?t) = 0x1000" "spp ?t (tp ?t)" "\<not> sie ?t (tp ?t)" by (simp_all add: demo_trapped_def)
  then have "\<exists>s'. kerneltrap (kret ()) ?t = Inr ((), s')"
    by (simp add: kerneltrap_def csr_def r_sstatus_def intr_get_def kmon devintr_demo w_sepc_def w_sstatus_def)
  then obtain s' where s': "kerneltrap (kret ()) ?t = Inr ((), s')" by blast
  then show "\<exists>s'. kerneltrap (kret ()) ?t = Inr ((), s') \<and> sepc s' (tp s') = 0x1000 \<and> spp s' (tp s')"
    using traps_return_in_order [of "kret ()" ?t s' 3] t by auto
next
  fix s :: ktrap
  let ?u = "demo_trapped False s"
  have u: "running 3 ?u" "\<not> spp ?u (tp ?u)" "scause ?u (tp ?u) \<noteq> 8" "p_killed (procs ?u 3) = 0" "sepc ?u (tp ?u) = 0x1000"
    by (simp_all add: demo_trapped_def running_def hart_ok_def demo_table_def demo_proc_def)
  have e: "running 3 (trap_entry 3 ?u)"
    by (simp add: demo_trapped_def running_def trap_entry_def resync_def hart_ok_def demo_table_def demo_proc_def)
  have "back_in_user 3 (trap_entry 3 ?u) (usertrap (kret ()) ?u)"
    using traps_return_in_order [of "kret ()" ?u ?u 3] u e devintr_entry [of False s] by simp
  then show "\<exists>r s'. usertrap (kret ()) ?u = Inr (r, s') \<and> sepc s' (tp s') = 0x1000 \<and> \<not> spp s' (tp s')"
    using u(5) by (auto simp: back_in_user_def user_ready_def)
qed

end
