(* ===== verification/Fs_Facts.thy ===== *)
theory Fs_Facts
  imports Fs Demo_Kernel
begin

text \<open>
  Facts on the file system that do not depend on the disk: the layout of inodes in their blocks, the
  inode cache, and the walk over the components of a path.
\<close>

section \<open>The layout of inodes\<close>

lemma get16_put_bytes_other:
  "off + length new \<le> length bs \<Longrightarrow> o' + 2 \<le> off \<or> off + length new \<le> o' \<Longrightarrow> get16 (put_bytes bs off new) o' = get16 bs o'"
  by (simp add: get16_def get_le_def get_put_bytes_other)

lemma get32_put_bytes_other:
  "off + length new \<le> length bs \<Longrightarrow> o' + 4 \<le> off \<or> off + length new \<le> o' \<Longrightarrow> get32 (put_bytes bs off new) o' = get32 bs o'"
  by (simp add: get32_def get_le_def get_put_bytes_other)

lemma get16_put_other:
  "off + 2 \<le> length bs \<Longrightarrow> o' + 2 \<le> off \<or> off + 2 \<le> o' \<Longrightarrow> get16 (put16 bs off v) o' = get16 bs o'"
  "off + 4 \<le> length bs \<Longrightarrow> o' + 2 \<le> off \<or> off + 4 \<le> o' \<Longrightarrow> get16 (put32 bs off w) o' = get16 bs o'"
  by (simp_all add: put16_def put32_def put_le_def get16_put_bytes_other)

lemmas get_put_other = get16_put_bytes_other get32_put_bytes_other get16_put_other

abbreviation addr_bytes :: "u32 list \<Rightarrow> u8 list" where
  "addr_bytes as \<equiv> concat (map (\<lambda>a. nat_le 4 (unat a)) as)"

lemma length_addr_bytes [simp]: "length (addr_bytes as) = 4 * length as"
  by (induction as) simp_all

lemma take_addr_bytes: "k < length as \<Longrightarrow> take 4 (drop (4 * k) (addr_bytes as)) = nat_le 4 (unat (as ! k))"
proof (induction as arbitrary: k)
  case (Cons a as)
  show ?case
  proof (cases k)
    case (Suc j)
    have "drop (4 * k) (addr_bytes (a # as)) = drop (4 * j) (addr_bytes as)" by (simp add: Suc)
    then show ?thesis using Cons Suc by simp
  qed simp
qed simp

lemma get_put_addrs:
  assumes "off + 4 * length as \<le> length bs" and "length as = NDIRECT + 1"
  shows "get_addrs (put_addrs bs off as) off = as"
proof (rule nth_equalityI)
  fix k assume "k < length (get_addrs (put_addrs bs off as) off)"
  then have k: "k < length as" using assms(2) by (simp add: get_addrs_def)
  have "take 4 (drop (off + 4 * k) (put_addrs bs off as)) = take 4 (drop (4 * k) (addr_bytes as))"
    using assms(1) k by (simp add: put_addrs_def put_bytes_def)
  then have "get32 (put_addrs bs off as) (off + 4 * k) = as ! k"
    using take_addr_bytes [OF k] u32_lt [of "as ! k"] by (simp add: get32_def get_le_def le_nat_nat_le)
  then show "get_addrs (put_addrs bs off as) off ! k = as ! k" using k assms(2) by (simp add: get_addrs_def del: upt_Suc)
qed (use assms in \<open>simp add: get_addrs_def\<close>)

text \<open>The fields of an inode that are on the disk.\<close>

definition same_dinode :: "inode \<Rightarrow> inode \<Rightarrow> bool" where
  "same_dinode i j \<longleftrightarrow> i_type i = i_type j \<and> i_major i = i_major j \<and> i_minor i = i_minor j \<and> i_nlink i = i_nlink j \<and>
     i_size i = i_size j \<and> i_addrs i = i_addrs j"

lemma length_put_dinode:
  "off + 64 \<le> length data \<Longrightarrow> length (i_addrs i) = NDIRECT + 1 \<Longrightarrow> length (put_dinode data off i) = length data"
  by (simp add: put_dinode_def put_addrs_def NDIRECT_def)

lemma put_dinode_prefix:
  assumes "off + 64 \<le> length data" and "length (i_addrs i) = NDIRECT + 1"
  shows "take off (put_dinode data off i) = take off data"
    and "drop (off + 64) (put_dinode data off i) = drop (off + 64) data"
proof -
  have s: "take off (put_bytes bs o' new) = take off bs \<and> (off + 64 \<le> length bs \<and> o' + length new \<le> off + 64 \<longrightarrow>
      drop (off + 64) (put_bytes bs o' new) = drop (off + 64) bs)"
    if "off \<le> o'" "off + 64 \<le> length bs" "o' + length new \<le> off + 64" for bs o' new
    using that by (simp add: put_bytes_def)
  have "take off (put_dinode data off i) = take off data \<and> drop (off + 64) (put_dinode data off i) = drop (off + 64) data"
    unfolding put_dinode_def put_addrs_def put32_def put16_def put_le_def using assms s by (simp add: NDIRECT_def)
  then show "take off (put_dinode data off i) = take off data" and "drop (off + 64) (put_dinode data off i) = drop (off + 64) data"
    by simp_all
qed

lemma get_put_dinode:
  assumes "off + 64 \<le> length data" and "length (i_addrs i) = NDIRECT + 1"
  shows "same_dinode (get_dinode (put_dinode data off i) off j) i"
proof -
  have a: "off + 12 + 4 * length (i_addrs i) = off + 64" using assms(2) by (simp add: NDIRECT_def)
  have "get_addrs (put_dinode data off i) (off + 12) = i_addrs i"
    unfolding put_dinode_def using assms a by (intro get_put_addrs) simp_all
  moreover have "get16 (put_dinode data off i) off = i_type i" "get16 (put_dinode data off i) (off + 2) = i_major i"
    "get16 (put_dinode data off i) (off + 4) = i_minor i" "get16 (put_dinode data off i) (off + 6) = i_nlink i"
    "get32 (put_dinode data off i) (off + 8) = i_size i"
    using assms a by (simp_all add: put_dinode_def put_addrs_def get_put_other)
  ultimately show ?thesis by (simp add: same_dinode_def get_dinode_def)
qed

text \<open>Reading a field needs only the 64 bytes of the inode.\<close>

lemma get_dinode_cong:
  assumes "take 64 (drop off data) = take 64 (drop off data')"
  shows "get_dinode data off j = get_dinode data' off j"
proof -
  have t: "take n (drop (off + k) data) = take n (drop (off + k) data')" if "k + n \<le> 64" for n k
  proof -
    have "take n (drop (off + k) xs) = take n (drop k (take 64 (drop off xs)))" for xs :: "u8 list"
      using that by (simp add: drop_take add.commute min_def)
    then show ?thesis using assms by simp
  qed
  then have g: "get16 data (off + k) = get16 data' (off + k)" if "k \<le> 62" for k using that by (simp add: get16_def get_le_def)
  have h: "get32 data (off + k) = get32 data' (off + k)" if "k \<le> 60" for k using t that by (simp add: get32_def get_le_def)
  then have "get_addrs data (off + 12) = get_addrs data' (off + 12)"
    by (simp add: get_addrs_def NDIRECT_def add.assoc)
  then show ?thesis using g [of 0] g [of 2] g [of 4] g [of 6] h [of 8] by (simp add: get_dinode_def)
qed

lemma get_put_dinode_other:
  assumes "off + 64 \<le> length data" and "length (i_addrs i) = NDIRECT + 1" and "o' + 64 \<le> off \<or> off + 64 \<le> o'"
  shows "get_dinode (put_dinode data off i) o' j = get_dinode data o' j"
proof (rule get_dinode_cong)
  note p = put_dinode_prefix [OF assms(1,2)]
  show "take 64 (drop o' (put_dinode data off i)) = take 64 (drop o' data)"
    using assms(3)
  proof
    assume o: "o' + 64 \<le> off"
    have "take 64 (drop o' xs) = take 64 (drop o' (take off xs))" for xs :: "u8 list" using o by (simp add: drop_take)
    then show ?thesis using p(1) by metis
  next
    assume "off + 64 \<le> o'"
    then obtain d where "o' = off + 64 + d" using le_Suc_ex by blast
    then have "drop o' xs = drop d (drop (off + 64) xs)" for xs :: "u8 list" by (simp add: add.commute)
    then show ?thesis using p(2) by metis
  qed
qed

section \<open>Paths\<close>

text \<open>The reference: what stands between the slashes, without the empty pieces, cut to the length of a directory entry.\<close>

fun split_slash :: "u8 list \<Rightarrow> u8 list list" where
  "split_slash [] = [[]]"
| "split_slash (c # p) = (if c = slash then [] # split_slash p else (c # hd (split_slash p)) # tl (split_slash p))"

definition path_names :: "u8 list \<Rightarrow> u8 list list" where
  "path_names path = map (take DIRSIZ) (filter (\<lambda>c. c \<noteq> []) (split_slash path))"

lemma split_slash_ne [simp]: "split_slash p \<noteq> []"
  by (cases p) simp_all

lemma skipelem_shorter: "skipelem path name = Some (path', name') \<Longrightarrow> length path' < length path"
proof -
  assume s: "skipelem path name = Some (path', name')"
  let ?q = "skip_slashes path"
  obtain c r where q: "?q = c # r" "c \<noteq> slash"
    using s hd_dropWhile [of "\<lambda>c. c = slash" path] by (cases ?q) (auto simp: skipelem_def skip_slashes_def Let_def split: if_splits)
  have "path' = skip_slashes (dropWhile (\<lambda>c. c \<noteq> slash) ?q)" using s by (auto simp: skipelem_def Let_def split: if_splits)
  then have "length path' \<le> length (dropWhile (\<lambda>c. c \<noteq> slash) ?q)" by (simp add: skip_slashes_def length_dropWhile_le)
  also have "\<dots> \<le> length r" using q by (simp add: length_dropWhile_le)
  also have "\<dots> < length ?q" using q by simp
  also have "\<dots> \<le> length path" by (simp add: skip_slashes_def length_dropWhile_le)
  finally show ?thesis .
qed

lemma split_slash_skip: "filter (\<lambda>c. c \<noteq> []) (split_slash (skip_slashes p)) = filter (\<lambda>c. c \<noteq> []) (split_slash p)"
  by (induction p) (auto simp: skip_slashes_def)

lemma split_slash_word:
  "split_slash (takeWhile (\<lambda>c. c \<noteq> slash) p @ r) = (takeWhile (\<lambda>c. c \<noteq> slash) p @ hd (split_slash r)) # tl (split_slash r)"
  by (induction p) auto

lemma cstr_list: "cstr (lview bs) n = takeWhile (\<lambda>c. c \<noteq> 0) (take n bs)"
proof -
  have "map (lview bs) [0..<n] = take n bs @ replicate (n - length bs) 0"
    by (rule nth_equalityI) (auto simp: lview_def nth_append)
  moreover have "takeWhile (\<lambda>c. c \<noteq> 0) (xs @ replicate k 0) = takeWhile (\<lambda>c. c \<noteq> (0 :: u8)) xs" for xs k
    by (induction xs) (cases k, auto)
  ultimately show ?thesis by (simp add: cstr_def)
qed

lemma skipelem_name:
  assumes "skipelem path name = Some (path', name')" and "length name = DIRSIZ" and "0 \<notin> set path"
  shows "cstr (lview name') DIRSIZ = take DIRSIZ (takeWhile (\<lambda>c. c \<noteq> slash) (skip_slashes path))" and "length name' = DIRSIZ"
proof -
  let ?w = "takeWhile (\<lambda>c. c \<noteq> slash) (skip_slashes path)"
  have n: "name' = (if length ?w \<ge> DIRSIZ then put_bytes name 0 (take DIRSIZ ?w) else put_bytes (put_bytes name 0 ?w) (length ?w) [0])"
    using assms(1) by (auto simp: skipelem_def Let_def split: if_splits)
  have "set ?w \<subseteq> set path" by (auto simp: skip_slashes_def dest!: set_takeWhileD set_dropWhileD)
  then have z: "\<forall>c \<in> set (take k ?w). c \<noteq> 0" for k using assms(3) by (auto dest: in_set_takeD)
  show "length name' = DIRSIZ" unfolding n using assms(2) by (simp add: put_bytes_def)
  show "cstr (lview name') DIRSIZ = take DIRSIZ ?w"
  proof (cases "length ?w \<ge> DIRSIZ")
    case True
    then have "name' = take DIRSIZ ?w" using n assms(2) by (simp add: put_bytes_def)
    then show ?thesis using z [of DIRSIZ] by (simp add: cstr_list)
  next
    case False
    then have "name' = ?w @ 0 # drop (Suc (length ?w)) name"
      using n assms(2) by (simp add: put_bytes_def)
    moreover obtain d where "DIRSIZ - length ?w = Suc d" using False by (cases "DIRSIZ - length ?w") auto
    ultimately show ?thesis using False z [of "length ?w"] by (simp add: cstr_list takeWhile_append)
  qed
qed

text \<open>One call of skipelem takes one name off the path.\<close>

lemma skipelem_names:
  assumes l: "length name = DIRSIZ" and z: "0 \<notin> set path"
  shows "case skipelem path name of None \<Rightarrow> path_names path = []
     | Some (path', name') \<Rightarrow> path_names path = cstr (lview name') DIRSIZ # path_names path' \<and>
         length name' = DIRSIZ \<and> 0 \<notin> set path' \<and> (path' = [] \<longleftrightarrow> path_names path' = [])"
proof (cases "skip_slashes path = []")
  case True
  then have "skipelem path name = None" by (simp add: skipelem_def Let_def)
  moreover have "path_names path = []" using split_slash_skip [of path] True by (simp add: path_names_def)
  ultimately show ?thesis by simp
next
  case False
  let ?q = "skip_slashes path"
  let ?w = "takeWhile (\<lambda>c. c \<noteq> slash) ?q" and ?r = "dropWhile (\<lambda>c. c \<noteq> slash) ?q"
  have word: "filter (\<lambda>c. c \<noteq> []) (split_slash (skip_slashes p)) \<noteq> []" if "skip_slashes p \<noteq> []" for p
    using that hd_dropWhile [of "\<lambda>c. c = slash" p] by (cases "skip_slashes p") (auto simp: skip_slashes_def)
  obtain name' where s: "skipelem path name = Some (skip_slashes ?r, name')" using False by (auto simp: skipelem_def Let_def)
  note n = skipelem_name [OF s l z]
  have sub: "0 \<notin> set (skip_slashes ?r)" using z by (auto simp: skip_slashes_def dest!: set_dropWhileD)
  have "?w \<noteq> []" using False hd_dropWhile [of "\<lambda>c. c = slash" path] by (cases ?q) (auto simp: skip_slashes_def)
  moreover have "hd (split_slash ?r) = []"
    using hd_dropWhile [of "\<lambda>c. c \<noteq> slash" ?q] by (cases ?r) (simp_all del: dropWhile_eq_Nil_conv)
  ultimately have "filter (\<lambda>c. c \<noteq> []) (split_slash ?q) = ?w # filter (\<lambda>c. c \<noteq> []) (split_slash ?r)"
    using split_slash_word [of ?q ?r] by (cases "split_slash ?r") simp_all
  then have "path_names path = take DIRSIZ ?w # path_names (skip_slashes ?r)"
    using split_slash_skip [of path] split_slash_skip [of ?r] by (simp add: path_names_def)
  moreover have "skip_slashes ?r = [] \<longleftrightarrow> path_names (skip_slashes ?r) = []"
    using word [of ?r] by (auto simp: path_names_def)
  ultimately show ?thesis using s n sub by simp
qed

text \<open>
  The reference for namex: the walk over a list of names. Each name but the last is looked up in
  the directory reached so far; so is the last, unless the parent is asked for. The second
  result is the last name that was taken off the path.
\<close>

fun resolve :: "('a kfs_scheme, unit) km \<Rightarrow> bool \<Rightarrow> u8 list list \<Rightarrow> nat \<Rightarrow> u8 list \<Rightarrow>
    ('a kfs_scheme, nat option \<times> u8 list) km" where
  "resolve sw parent [] ip prev =
     (if parent then kseq (iput sw ip) (kret (None, prev)) else kret (Some ip, prev))"
| "resolve sw parent (n # ns) ip prev =
     kseq (ilock sw ip) (
     kbind (get_inode ip i_type) (\<lambda>ty.
     if ty \<noteq> T_DIR then kseq (iunlockput sw ip) (kret (None, n))
     else if parent \<and> ns = [] then kseq (iunlock ip) (kret (Some ip, n))
     else kbind (dirlookup sw ip n) (\<lambda>r.
       case r of None \<Rightarrow> kseq (iunlockput sw ip) (kret (None, n))
       | Some (nxt, _) \<Rightarrow> kseq (iunlockput sw ip) (resolve sw parent ns nxt n))))"

text \<open>A lookup depends on the name up to its terminator only.\<close>

lemma dirlookup_cong:
  assumes "cstr (lview a) DIRSIZ = cstr (lview b) DIRSIZ"
  shows "dirlookup sw dp a = dirlookup sw dp b"
  unfolding dirlookup_def namecmp_def strncmp_zero assms ..

lemma cstr_idem: "cstr (lview (cstr (lview a) n)) n = cstr (lview a) n"
proof -
  have "takeWhile P (take n (takeWhile P (take n xs))) = takeWhile P (take n xs)" for P :: "u8 \<Rightarrow> bool" and xs
    using length_takeWhile_le [of P "take n xs"] by simp
  then show ?thesis by (simp add: cstr_list)
qed

lemma kbind_laws:
  "kbind (kseq m n) f = kseq m (kbind n f)" "kbind (kret x) f = f x"
  "kbind (if c then m1 else m2) f = (if c then kbind m1 f else kbind m2 f)"
  "kbind (case r of None \<Rightarrow> m1 | Some (y, z) \<Rightarrow> h y z) f = (case r of None \<Rightarrow> kbind m1 f | Some (y, z) \<Rightarrow> kbind (h y z) f)"
  "kbind (kbind m g) f = kbind m (\<lambda>x. kbind (g x) f)"
  by (auto simp: kbind_def kseq_def kret_def fun_eq_iff split: sum.splits option.splits)

lemma kiter_bind:
  "kbind (kiter body x) f = kbind (body x) (\<lambda>r. case r of Inl y \<Rightarrow> kbind (kiter body y) f | Inr z \<Rightarrow> f z)"
  by (rule ext, subst kbind_def, subst kiter_unfold) (simp add: kbind_def split: sum.splits prod.splits)

definition name_view :: "'r \<times> u8 list \<Rightarrow> ('s, 'r \<times> u8 list) km" where
  "name_view = (\<lambda>(r, nm). kret (r, cstr (lview nm) DIRSIZ))"

lemma namex_loop:
  assumes "length name = DIRSIZ" and "0 \<notin> set path"
  shows "kbind (kiter (namex_step sw parent) (path, ip, name)) name_view =
    resolve sw parent (path_names path) ip (cstr (lview name) DIRSIZ)"
  using assms
proof (induction "length path" arbitrary: path name ip rule: less_induct)
  case less
  note sk = skipelem_names [OF less.prems]
  show ?case
  proof (cases "skipelem path name")
    case None
    then show ?thesis using sk
      by (subst kiter_bind) (auto simp: namex_step_def name_view_def kmon fun_eq_iff split: sum.splits)
  next
    case (Some e)
    obtain path' name' where e: "e = (path', name')" by (cases e)
    let ?n = "cstr (lview name') DIRSIZ"
    have p: "path_names path = ?n # path_names path'" "length name' = DIRSIZ" "0 \<notin> set path'"
      "path' = [] \<longleftrightarrow> path_names path' = []" using sk Some e by simp_all
    have ih: "kbind (kiter (namex_step sw parent) (path', nxt, name')) name_view = resolve sw parent (path_names path') nxt ?n" for nxt
      using skipelem_shorter [of path name path' name'] Some e p(2,3) by (intro less.hyps) simp_all
    have d: "dirlookup sw ip ?n = dirlookup sw ip name'" by (rule dirlookup_cong [OF cstr_idem])
    have step: "namex_step sw parent (path, ip, name) =
         kseq (ilock sw ip) (
         kbind (get_inode ip i_type) (\<lambda>ty.
         if ty \<noteq> T_DIR then kseq (iunlockput sw ip) (kret (Inr (None, name')))
         else if parent \<and> path' = [] then kseq (iunlock ip) (kret (Inr (Some ip, name')))
         else kbind (dirlookup sw ip name') (\<lambda>r.
           case r of None \<Rightarrow> kseq (iunlockput sw ip) (kret (Inr (None, name')))
           | Some (nxt, _) \<Rightarrow> kseq (iunlockput sw ip) (kret (Inl (path', nxt, name'))))))"
      using Some e by (simp add: namex_step_def)
    show ?thesis
      unfolding p(1) resolve.simps d p(4) [symmetric]
      by (subst kiter_bind, unfold step) (simp only: kbind_laws sum.case name_view_def prod.case ih [unfolded name_view_def])
  qed
qed

section \<open>The inode cache\<close>

definition cached :: "(nat \<Rightarrow> inode) \<Rightarrow> u32 \<Rightarrow> u32 \<Rightarrow> nat \<Rightarrow> bool" where
  "cached t dev inum ip \<longleftrightarrow> i_ref (t ip) > 0 \<and> i_dev (t ip) = dev \<and> i_inum (t ip) = inum"

text \<open>No count is negative, and an inode in use has one entry.\<close>

definition icache_inv :: "(nat \<Rightarrow> inode) \<Rightarrow> bool" where
  "icache_inv t \<longleftrightarrow> (\<forall>ip < NINODE. i_ref (t ip) \<ge> 0) \<and>
     (\<forall>i < NINODE. \<forall>j < NINODE. cached t (i_dev (t j)) (i_inum (t j)) i \<and> i_ref (t j) > 0 \<longrightarrow> i = j)"

lemma iget_scan_eq:
  "iget_scan t dev inum ips emp = (x, e) \<Longrightarrow>
   x = find (cached t dev inum) ips \<and> (x = None \<longrightarrow> e = (if emp = None then find (\<lambda>ip. i_ref (t ip) = 0) ips else emp))"
proof (induction ips arbitrary: emp)
  case (Cons ip ips)
  show ?case
  proof (cases "cached t dev inum ip")
    case True
    then show ?thesis using Cons.prems by (auto simp: cached_def)
  next
    case False
    let ?emp = "if emp = None \<and> i_ref (t ip) = 0 then Some ip else emp"
    have "iget_scan t dev inum (ip # ips) emp = iget_scan t dev inum ips ?emp"
      using False unfolding cached_def by (simp only: iget_scan.simps if_False)
    then have "iget_scan t dev inum ips ?emp = (x, e)" using Cons.prems by simp
    note IH = Cons.IH [OF this]
    show ?thesis
    proof (intro conjI impI)
      show "x = find (cached t dev inum) (ip # ips)" using IH False by simp
      assume "x = None"
      then have "e = (if ?emp = None then find (\<lambda>ip. i_ref (t ip) = 0) ips else ?emp)" using IH by blast
      then show "e = (if emp = None then find (\<lambda>ip. i_ref (t ip) = 0) (ip # ips) else emp)" by (cases emp) simp_all
    qed
  qed
qed simp

lemma inodes_lockit:
  "(lockit l s)\<lparr>inodes := t\<rparr> = lockit l (s\<lparr>inodes := t\<rparr>)" "inodes (lockit l s) = inodes s"
  "settled (s\<lparr>inodes := t\<rparr>) = settled s" "lk_free k (s\<lparr>inodes := t\<rparr>) = lk_free k s"
  for s :: "'a kfs_scheme"
  by (simp_all add: lockit_def settled_def lk_free_def)

lemma iget_eq:
  assumes "settled s" and "lk_free IcacheLock s"
  shows "iget dev inum s = (case find (cached (inodes s) dev inum) [0..<NINODE] of
       Some ip \<Rightarrow> Inr (ip, s\<lparr>inodes := (inodes s)(ip := (inodes s ip)\<lparr>i_ref := int32 (i_ref (inodes s ip) + 1)\<rparr>)\<rparr>)
     | None \<Rightarrow> (case find (\<lambda>ip. i_ref (inodes s ip) = 0) [0..<NINODE] of
         None \<Rightarrow> Inl (Panic ''iget: no inodes'')
       | Some ip \<Rightarrow> Inr (ip, s\<lparr>inodes := (inodes s)(ip := (inodes s ip)\<lparr>i_dev := dev, i_inum := inum, i_ref := 1, i_valid := False\<rparr>)\<rparr>)))"
proof -
  obtain x e where sc: "iget_scan (inodes s) dev inum [0..<NINODE] None = (x, e)" by fastforce
  have x: "x = find (cached (inodes s) dev inum) [0..<NINODE]" "x = None \<Longrightarrow> e = find (\<lambda>ip. i_ref (inodes s ip) = 0) [0..<NINODE]"
    using iget_scan_eq [OF sc] by simp_all
  show ?thesis
  proof (cases x)
    case (Some ip)
    then show ?thesis using assms sc unfolding x(1) [symmetric] by (simp add: iget_def upd_inode_def kmon inodes_lockit)
  next
    case None
    note e = x(2) [OF this]
    show ?thesis
      using assms sc None unfolding x(1) [symmetric] e [symmetric]
      by (cases e) (simp_all add: iget_def upd_inode_def kmon inodes_lockit)
  qed
qed

lemma icache_inv_unique: "icache_inv t \<Longrightarrow> i < NINODE \<Longrightarrow> j < NINODE \<Longrightarrow> cached t dev inum i \<Longrightarrow> cached t dev inum j \<Longrightarrow> i = j"
  by (auto simp: icache_inv_def cached_def)

lemma find_first:
  assumes "P i" and "i < n" and "\<forall>j < i. \<not> P j"
  shows "find P [0..<n] = Some i"
  using assms by (auto simp: find_Some_iff intro!: exI [of _ i])

lemma find_cached:
  assumes "icache_inv t" and "ip < NINODE" and "cached t dev inum ip"
  shows "find (cached t dev inum) [0..<NINODE] = Some ip"
proof (cases "find (cached t dev inum) [0..<NINODE]")
  case None
  then show ?thesis using assms(2,3) by (auto simp: find_None_iff)
next
  case (Some j)
  then have "cached t dev inum j" "j < NINODE" by (auto simp: find_Some_iff)
  then show ?thesis using icache_inv_unique [OF assms(1) assms(2) _ assms(3)] Some by simp
qed

lemma icache_inv_hit:
  assumes "icache_inv t" and "i_ref (t ip) > 0"
  shows "icache_inv (t(ip := (t ip)\<lparr>i_ref := i_ref (t ip) + 1\<rparr>))"
proof -
  let ?t = "t(ip := (t ip)\<lparr>i_ref := i_ref (t ip) + 1\<rparr>)"
  have "i_dev (?t i) = i_dev (t i)" "i_inum (?t i) = i_inum (t i)" "0 \<le> i_ref (?t i) \<longleftrightarrow> 0 \<le> i_ref (t i)"
    "0 < i_ref (?t i) \<longleftrightarrow> 0 < i_ref (t i)" for i using assms(2) by auto
  then show ?thesis using assms(1) unfolding icache_inv_def cached_def by presburger
qed

lemma icache_inv_fill:
  assumes "icache_inv t" and "\<And>i. i < NINODE \<Longrightarrow> \<not> cached t dev inum i"
  shows "icache_inv (t(ip := (t ip)\<lparr>i_dev := dev, i_inum := inum, i_ref := 1, i_valid := False\<rparr>))"
  using assms by (auto simp: icache_inv_def cached_def)

section \<open>Properties\<close>

text \<open>C24: Inodes keep their places on the disk: an inode that is written to its 64 bytes of an inode block and read back has
  the same type, numbers, link count, size and block addresses; the inodes in the other 64-byte places of the block, and
  its length, do not change.\<close>

theorem dinode_layout:
  assumes "length data = BSIZE" and "off = dinode_off inum" and "length (i_addrs i) = NDIRECT + 1"
  shows "same_dinode (get_dinode (put_dinode data off i) off j) i \<and> length (put_dinode data off i) = BSIZE \<and>
    (\<forall>inum'. dinode_off inum' \<noteq> off \<longrightarrow> get_dinode (put_dinode data off i) (dinode_off inum') j = get_dinode data (dinode_off inum') j)"
proof (intro conjI allI impI)
  have o: "dinode_off n + 64 \<le> BSIZE" for n
  proof -
    have "unat n mod IPB < 16" by (simp add: IPB_def BSIZE_def)
    then show ?thesis by (simp add: dinode_off_def BSIZE_def)
  qed
  have l: "off + 64 \<le> length data" using o [of inum] assms(1,2) by simp
  show "same_dinode (get_dinode (put_dinode data off i) off j) i" by (rule get_put_dinode [OF l assms(3)])
  show "length (put_dinode data off i) = BSIZE" using length_put_dinode [OF l assms(3)] assms(1) by simp
  fix inum' assume "dinode_off inum' \<noteq> off"
  then have "dinode_off inum' + 64 \<le> off \<or> off + 64 \<le> dinode_off inum'" using assms(2) by (auto simp: dinode_off_def)
  then show "get_dinode (put_dinode data off i) (dinode_off inum') j = get_dinode data (dinode_off inum') j"
    by (rule get_put_dinode_other [OF l assms(3)])
qed

definition demo_inode :: inode where
  "demo_inode = \<lparr>i_dev = 1, i_inum = 5, i_ref = 1, i_valid = True, i_type = T_FILE, i_major = 0, i_minor = 0, i_nlink = 1,
     i_size = 700, i_addrs = 46 # replicate 12 0\<rparr>"

theorem dinode_layout_witness:
  "i_size (get_dinode (put_dinode (replicate BSIZE 0) 320 demo_inode) 320 demo_inode) = 700 \<and>
   i_size (get_dinode (put_dinode (replicate BSIZE 0) 320 demo_inode) 256 demo_inode) = 0"
proof -
  let ?d = "replicate BSIZE (0 :: u8)"
  have o: "dinode_off 5 = 320" "dinode_off 4 = 256" by (simp_all add: dinode_off_def IPB_def BSIZE_def)
  have l: "length (i_addrs demo_inode) = NDIRECT + 1" by (simp add: demo_inode_def NDIRECT_def)
  have ne: "dinode_off 4 \<noteq> dinode_off 5" by (simp add: o)
  note d = dinode_layout [OF length_replicate refl l, of 0 5 demo_inode]
  have "same_dinode (get_dinode (put_dinode ?d (dinode_off 5) demo_inode) (dinode_off 5) demo_inode) demo_inode"
    "get_dinode (put_dinode ?d (dinode_off 5) demo_inode) (dinode_off 4) demo_inode = get_dinode ?d (dinode_off 4) demo_inode"
    using d ne by blast+
  moreover have "take 4 (drop 264 ?d) = [0, 0, 0, 0]"
    by (simp add: BSIZE_def numeral_nat)
  then have "get32 ?d 264 = 0" by (simp add: get32_def get_le_def)
  ultimately show ?thesis by (simp add: o same_dinode_def demo_inode_def get_dinode_def)
qed

text \<open>C23: iget keeps the inode cache in order: counts are not negative and an inode in use has exactly one entry. When the
  inode is cached, iget gives that entry and only raises its count; otherwise it takes the first entry that no one
  uses, sets its device and number, gives it one reference and marks it as not yet read, and no other
  entry changes; it panics exactly when there is none. The counts are below the largest int.\<close>

theorem iget_keeps_cache:
  assumes "settled s" and "lk_free IcacheLock s" and "icache_inv (inodes s)"
    and "\<forall>ip < NINODE. i_ref (inodes s ip) < 2 ^ 31 - 1"
  shows "(\<forall>ip < NINODE. cached (inodes s) dev inum ip \<longrightarrow>
       iget dev inum s = Inr (ip, s\<lparr>inodes := (inodes s)(ip := (inodes s ip)\<lparr>i_ref := i_ref (inodes s ip) + 1\<rparr>)\<rparr>)) \<and>
    (\<forall>ip < NINODE. (\<forall>jp < NINODE. \<not> cached (inodes s) dev inum jp) \<and> i_ref (inodes s ip) = 0 \<and>
         (\<forall>jp < ip. i_ref (inodes s jp) \<noteq> 0) \<longrightarrow>
       iget dev inum s = Inr (ip, s\<lparr>inodes := (inodes s)(ip :=
         (inodes s ip)\<lparr>i_dev := dev, i_inum := inum, i_ref := 1, i_valid := False\<rparr>)\<rparr>)) \<and>
    (iget dev inum s = Inl (Panic ''iget: no inodes'') \<longleftrightarrow> (\<forall>ip < NINODE. i_ref (inodes s ip) > 0 \<and> \<not> cached (inodes s) dev inum ip)) \<and>
    (\<forall>ip s'. iget dev inum s = Inr (ip, s') \<longrightarrow> ip < NINODE \<and> icache_inv (inodes s') \<and> cached (inodes s') dev inum ip \<and>
       (\<forall>jp. jp \<noteq> ip \<longrightarrow> inodes s' jp = inodes s jp) \<and> (\<not> cached (inodes s) dev inum ip \<longrightarrow> \<not> i_valid (inodes s' ip)))"
proof (intro conjI)
  have up: "int32 (i_ref (inodes s j) + 1) = i_ref (inodes s j) + 1" if "j < NINODE" for j
    using assms(3,4) that by (intro int32_id) (auto simp: icache_inv_def)
  note eq = iget_eq [OF assms(1,2), of dev inum]
  show "\<forall>ip < NINODE. cached (inodes s) dev inum ip \<longrightarrow>
       iget dev inum s = Inr (ip, s\<lparr>inodes := (inodes s)(ip := (inodes s ip)\<lparr>i_ref := i_ref (inodes s ip) + 1\<rparr>)\<rparr>)"
    using find_cached [OF assms(3)] by (simp add: eq up)
  show "\<forall>ip < NINODE. (\<forall>jp < NINODE. \<not> cached (inodes s) dev inum jp) \<and> i_ref (inodes s ip) = 0 \<and>
         (\<forall>jp < ip. i_ref (inodes s jp) \<noteq> 0) \<longrightarrow>
       iget dev inum s = Inr (ip, s\<lparr>inodes := (inodes s)(ip :=
         (inodes s ip)\<lparr>i_dev := dev, i_inum := inum, i_ref := 1, i_valid := False\<rparr>)\<rparr>)"
  proof (intro allI impI, elim conjE)
    fix ip assume "ip < NINODE" "\<forall>jp < NINODE. \<not> cached (inodes s) dev inum jp" "i_ref (inodes s ip) = 0" "\<forall>jp < ip. i_ref (inodes s jp) \<noteq> 0"
    then have "find (cached (inodes s) dev inum) [0..<NINODE] = None" "find (\<lambda>ip. i_ref (inodes s ip) = 0) [0..<NINODE] = Some ip"
      by (simp_all add: find_None_iff find_first)
    then show "iget dev inum s = Inr (ip, s\<lparr>inodes := (inodes s)(ip :=
         (inodes s ip)\<lparr>i_dev := dev, i_inum := inum, i_ref := 1, i_valid := False\<rparr>)\<rparr>)" by (simp add: eq)
  qed
  have "i_ref (inodes s ip) \<noteq> 0 \<longleftrightarrow> i_ref (inodes s ip) > 0" if "ip < NINODE" for ip
    using assms(3) that by (auto simp: icache_inv_def less_le)
  then show "iget dev inum s = Inl (Panic ''iget: no inodes'') \<longleftrightarrow> (\<forall>ip < NINODE. i_ref (inodes s ip) > 0 \<and> \<not> cached (inodes s) dev inum ip)"
    by (auto simp: eq find_None_iff find_Some_iff split: option.splits)
  show "\<forall>ip s'. iget dev inum s = Inr (ip, s') \<longrightarrow> ip < NINODE \<and> icache_inv (inodes s') \<and> cached (inodes s') dev inum ip \<and>
       (\<forall>jp. jp \<noteq> ip \<longrightarrow> inodes s' jp = inodes s jp) \<and> (\<not> cached (inodes s) dev inum ip \<longrightarrow> \<not> i_valid (inodes s' ip))"
  proof (intro allI impI)
    fix ip s' assume r: "iget dev inum s = Inr (ip, s')"
    show "ip < NINODE \<and> icache_inv (inodes s') \<and> cached (inodes s') dev inum ip \<and>
       (\<forall>jp. jp \<noteq> ip \<longrightarrow> inodes s' jp = inodes s jp) \<and> (\<not> cached (inodes s) dev inum ip \<longrightarrow> \<not> i_valid (inodes s' ip))"
    proof (cases "find (cached (inodes s) dev inum) [0..<NINODE]")
      case (Some j)
      then have "cached (inodes s) dev inum j" "j < NINODE" by (auto simp: find_Some_iff)
      then show ?thesis using r Some icache_inv_hit [OF assms(3), of j] up [of j] by (auto simp: eq cached_def)
    next
      case None
      then have nc: "\<not> cached (inodes s) dev inum i" if "i < NINODE" for i using that by (auto simp: find_None_iff)
      obtain j where j: "find (\<lambda>ip. i_ref (inodes s ip) = 0) [0..<NINODE] = Some j" using r None by (auto simp: eq split: option.splits)
      then have "j < NINODE" by (auto simp: find_Some_iff)
      then show ?thesis using r None j icache_inv_fill [OF assms(3) nc] by (auto simp: eq cached_def)
    qed
  qed
qed

text \<open>C25: namex walks a path component by component. From the root or the current directory it does exactly what the
  walk over the names of the path does, where the names are what stands between the slashes, empty pieces left
  out, each cut to the 14 bytes of a directory entry: every name is looked up in the directory
  reached so far, the last one too unless the parent is asked for, and then the buffer holds it on
  return. The outcome does not depend on what the buffer held before, nor on what an earlier, longer
  name has left in it.\<close>

theorem path_walk_components:
  assumes "length name = DIRSIZ" and "0 \<notin> set path"
  shows "kbind (namex sw path parent name) (\<lambda>(r, nm). kret (r, cstr (lview nm) DIRSIZ)) =
    kbind (namex_start path) (\<lambda>ip. resolve sw parent (path_names path) ip (cstr (lview name) DIRSIZ))"
  by (simp add: namex_def kbind_assoc namex_loop [OF assms, unfolded name_view_def])

theorem path_walk_components_witness:
  "kbind (namex (kret () :: (kcons, unit) km) [47, 117, 115, 114, 47, 47, 97, 47] True (replicate DIRSIZ 120)) (\<lambda>(r, nm). kret (r, cstr (lview nm) DIRSIZ)) =
   kbind (iget ROOTDEV ROOTINO) (\<lambda>ip. resolve (kret ()) True [[117, 115, 114], [97]] ip (replicate DIRSIZ 120))"
proof -
  have "path_names [47, 117, 115, 114, 47, 47, 97, 47] = [[117, 115, 114], [97]]"
    by (simp add: path_names_def slash_def DIRSIZ_def)
  moreover have "cstr (lview (replicate DIRSIZ 120)) DIRSIZ = replicate DIRSIZ 120"
    by (simp add: cstr_list)
  ultimately show ?thesis
    using path_walk_components [of "replicate DIRSIZ 120" "[47, 117, 115, 114, 47, 47, 97, 47]" "kret () :: (kcons, unit) km" True]
    by (simp add: namex_start_def slash_def)
qed

theorem iget_keeps_cache_witness:
  "iget 1 5 demo_kcons = Inr (0, demo_kcons\<lparr>inodes := (inodes demo_kcons)(0 := (inodes demo_kcons 0)\<lparr>i_dev := 1, i_inum := 5, i_ref := 1, i_valid := False\<rparr>)\<rparr>) \<and>
   (\<exists>ip s'. iget 1 5 demo_kcons = Inr (ip, s') \<and> icache_inv (inodes s'))"
proof -
  have r: "i_ref (inodes demo_kcons i) = 0" for i by (simp add: demo_kcons_def demo_klog_def demo_kdisk_def demo_kproc_def)
  then have inv: "icache_inv (inodes demo_kcons)" and n: "\<not> cached (inodes demo_kcons) 1 5 i" for i
    by (simp_all add: icache_inv_def cached_def)
  have "find (cached (inodes demo_kcons) 1 5) [0..<NINODE] = None" "find (\<lambda>ip. i_ref (inodes demo_kcons ip) = 0) [0..<NINODE] = Some 0"
    by (simp_all add: find_None_iff n r NINODE_def upt_rec)
  then have e: "iget 1 5 demo_kcons = Inr (0, demo_kcons\<lparr>inodes := (inodes demo_kcons)(0 := (inodes demo_kcons 0)\<lparr>i_dev := 1, i_inum := 5, i_ref := 1, i_valid := False\<rparr>)\<rparr>)"
    using iget_eq [of demo_kcons 1 5] by simp
  moreover have "icache_inv (inodes s')" if "iget 1 5 demo_kcons = Inr (ip, s')" for ip s'
    using iget_keeps_cache [of demo_kcons 1 5] inv r that by simp
  ultimately show ?thesis by blast
qed

end
