(* ===== verification/Copy_Obj.thy ===== *)
theory Copy_Obj
  imports Proc Vm_Demo
begin

text \<open>
  Copies between user memory and kernel objects outside the byte memory: copyin_obj and
  copyout_obj move bytes through accessible addresses only, and agree with copyin and
  copyout of vm.c on a buffer that holds the same bytes.
\<close>

section \<open>Reading user memory\<close>

definition user_bytes :: "memory \<Rightarrow> u64 \<Rightarrow> u64 \<Rightarrow> nat \<Rightarrow> u8 list" where
  "user_bytes m root va n = map (\<lambda>i. ubyte m root (va + of_nat i)) [0..<n]"

lemma length_user_bytes [simp]: "length (user_bytes m root va n) = n"
  by (simp add: user_bytes_def)

lemma user_bytes_append: "user_bytes m root va (n + k) = user_bytes m root va n @ user_bytes m root (va + of_nat n) k"
proof (rule nth_equalityI)
  fix i assume "i < length (user_bytes m root va (n + k))"
  then have "of_nat i = (of_nat n + of_nat (i - n) :: u64)" if "\<not> i < n"
    using that by (metis le_add_diff_inverse linorder_not_less of_nat_add)
  then show "user_bytes m root va (n + k) ! i = (user_bytes m root va n @ user_bytes m root (va + of_nat n) k) ! i"
    using \<open>i < _\<close> by (auto simp: nth_append user_bytes_def add.assoc)
qed simp

text \<open>The bytes up to the end of a page are consecutive in its frame.\<close>

lemma phys_offset:
  assumes us: "uspace s root N" and acc: "accessible (mem s) root va" and i: "unat va mod 4096 + i < 4096"
  shows "phys (mem s) root (va + of_nat i) = phys (mem s) root va + of_nat i"
    and "in_range 0 N (va + of_nat i)"
proof -
  note up = uspace_user_page [OF us acc]
  have own: "owns s root [] 0 N" and N: "N * 4096 < 2 ^ 38" using us by (simp_all add: uspace_def)
  show r: "in_range 0 N (va + of_nat i)"
    using uspace_user_page(1) [OF us accessible_block [OF acc i]] .
  have "unat va < 2 ^ 38" using up(1) N by (simp add: in_range_def)
  then have u: "unat (va + of_nat i) = unat va + i" using i by (simp add: unat_word_ariths unat_of_nat)
  have "unat va mod 4096 + Suc i \<le> 4096" using i by simp
  from phys_block(2) [OF own N up(1) r this] u
  have "phys (mem s) root (va + of_nat i) - phys (mem s) root va = of_nat i" by simp
  then show "phys (mem s) root (va + of_nat i) = phys (mem s) root va + of_nat i" by (simp add: algebra_simps)
qed

lemma rd_phys:
  assumes us: "uspace s root N" and acc: "accessible (mem s) root va" and n: "unat va mod 4096 + n \<le> 4096"
  shows "rd (mem s) (PTE2PA (leaf (mem s) root va) + (va - PGROUNDDOWN va)) n = user_bytes (mem s) root va n"
proof -
  have "mem s (phys (mem s) root va + of_nat i) = ubyte (mem s) root (va + of_nat i)" if "i < n" for i
    using phys_offset(1) [OF us acc, of i] that n by (simp add: ubyte_phys)
  then show ?thesis by (simp add: rd_def user_bytes_def phys_def)
qed

lemma page_room_eq: "page_room va = 4096 - unat va mod 4096"
  by (simp add: page_room_def unat_page_offset)

text \<open>The next page starts where the bytes of this one end.\<close>

lemma next_page:
  assumes "unat va < 2 ^ 38"
  shows "PGROUNDDOWN va + PGSIZE = va + of_nat (page_room va)"
    and "unat (va + of_nat (page_room va)) = unat va + page_room va"
proof -
  have r4: "page_room va \<le> 4096" by (simp add: page_room_eq)
  then have r: "page_room va \<le> 4096" "unat (of_nat (page_room va) :: u64) = page_room va"
    by (simp_all add: unat_of_nat)
  show u: "unat (va + of_nat (page_room va)) = unat va + page_room va"
    using assms r by (simp add: unat_word_ariths)
  have "unat (PGROUNDDOWN va) + 4096 < 2 ^ 64" using assms by (simp add: unat_PGROUNDDOWN)
  then have "unat (PGROUNDDOWN va + PGSIZE) = unat (PGROUNDDOWN va) + 4096" by (rule unat_add_PGSIZE)
  also have "\<dots> = unat va + page_room va" using unat_PGROUNDDOWN [of va] by (simp add: page_room_eq)
  finally show "PGROUNDDOWN va + PGSIZE = va + of_nat (page_room va)" using u by (intro u_eqI) simp
qed

text \<open>How far a range of user addresses is accessible.\<close>

definition prefix_len :: "memory \<Rightarrow> u64 \<Rightarrow> u64 \<Rightarrow> nat \<Rightarrow> nat \<Rightarrow> bool" where
  "prefix_len m root va len k \<longleftrightarrow> k \<le> len \<and> (\<forall>i < k. accessible m root (va + of_nat i)) \<and>
     (k < len \<longrightarrow> \<not> accessible m root (va + of_nat k))"

lemma prefix_len_unique:
  assumes "prefix_len m root va len k" and "prefix_len m root va len k'"
  shows "k = k'"
proof (rule linorder_cases [of k k'])
  assume "k < k'"
  then show ?thesis using assms unfolding prefix_len_def by (metis order_less_le_trans)
next
  assume "k' < k"
  then show ?thesis using assms unfolding prefix_len_def by (metis order_less_le_trans)
qed

lemma prefix_len_page:
  assumes us: "uspace s root N" and acc: "accessible (mem s) root va" and n: "n = min (page_room va) len"
    and rest: "prefix_len (mem s) root (PGROUNDDOWN va + PGSIZE) (len - n) k"
  shows "prefix_len (mem s) root va len (n + k)"
    and "k \<noteq> 0 \<or> n < len \<Longrightarrow> PGROUNDDOWN va + PGSIZE = va + of_nat n"
proof -
  have "unat va < 2 ^ 38" using uspace_user_page(1) [OF us acc] us by (simp add: uspace_def in_range_def)
  note np = next_page [OF this]
  have first: "accessible (mem s) root (va + of_nat i)" if "i < n" for i
    using that n by (intro accessible_block [OF acc]) (auto simp: page_room_eq less_diff_conv)
  have nx: "PGROUNDDOWN va + PGSIZE = va + of_nat n" if "n < len"
    using np(1) that n by simp
  have k: "k \<le> len - n" "\<forall>i < k. accessible (mem s) root (PGROUNDDOWN va + PGSIZE + of_nat i)"
    "k < len - n \<longrightarrow> \<not> accessible (mem s) root (PGROUNDDOWN va + PGSIZE + of_nat k)"
    using rest by (auto simp: prefix_len_def)
  show "PGROUNDDOWN va + PGSIZE = va + of_nat n" if "k \<noteq> 0 \<or> n < len" using that k(1) nx by auto
  have "accessible (mem s) root (va + of_nat i)" if "i < n + k" for i
  proof (cases "i < n")
    case False
    then have j: "i - n < k" "n < len" using that k(1) by auto
    have "of_nat i = (of_nat n + of_nat (i - n) :: u64)"
      using False by (metis le_add_diff_inverse linorder_not_less of_nat_add)
    then have "va + of_nat i = PGROUNDDOWN va + PGSIZE + of_nat (i - n)" unfolding nx [OF j(2)] by (simp only: add.assoc)
    then show ?thesis using k(2) j(1) by (simp only:)
  qed (rule first)
  moreover have "\<not> accessible (mem s) root (va + of_nat (n + k))" if "n + k < len"
  proof -
    have j: "n < len" "k < len - n" using that by auto
    have "va + of_nat (n + k) = PGROUNDDOWN va + PGSIZE + of_nat k"
      unfolding nx [OF j(1)] by (simp only: of_nat_add add.assoc)
    then show ?thesis using k(3) j(2) by (simp only: simp_thms)
  qed
  moreover have "n + k \<le> len" using k(1) n by simp
  ultimately show "prefix_len (mem s) root va len (n + k)" by (simp add: prefix_len_def)
qed

lemma copyin_obj_prefix:
  assumes us: "uspace s root N"
  shows "\<exists>k. copyin_obj root va len s = Inr ((if k = len then 0 else - 1, user_bytes (mem s) root va k), s) \<and>
    prefix_len (mem s) root va len k"
proof (induction len arbitrary: va rule: less_induct)
  case (less len)
  have wf: "pt_wf s root []" using us by (simp add: uspace_def)
  note wa = walkaddr_eq [OF wf, of "PGROUNDDOWN va", unfolded accessible_page leaf_page]
  show ?case
  proof (cases "len = 0 \<or> \<not> accessible (mem s) root va")
    case True
    then show ?thesis using wa
      by (subst copyin_obj.simps) (auto simp: Let_def prefix_len_def user_bytes_def intro!: exI [of _ "0::nat"])
  next
    case False
    then have acc: "accessible (mem s) root va" and l0: "len \<noteq> 0" by auto
    define n where "n = min (page_room va) len"
    have n: "0 < n" "n \<le> len" "unat va mod 4096 + n \<le> 4096" using l0 page_room_pos [of va] by (auto simp: n_def page_room_eq)
    have p0: "PTE2PA (leaf (mem s) root va) \<noteq> 0"
      using uspace_user_page(4) [OF us acc] us kpage_nonzero by (auto simp: uspace_def)
    obtain k where k: "copyin_obj root (PGROUNDDOWN va + PGSIZE) (len - n) s =
        Inr ((if k = len - n then 0 else - 1, user_bytes (mem s) root (PGROUNDDOWN va + PGSIZE) k), s)"
      "prefix_len (mem s) root (PGROUNDDOWN va + PGSIZE) (len - n) k"
      using less.IH [of "len - n" "PGROUNDDOWN va + PGSIZE"] n l0 by auto
    note pp = prefix_len_page [OF us acc n_def k(2)]
    have "user_bytes (mem s) root va n @ user_bytes (mem s) root (PGROUNDDOWN va + PGSIZE) k = user_bytes (mem s) root va (n + k)"
      using pp(2) by (cases "k = 0") (simp_all add: user_bytes_append, simp add: user_bytes_def)
    moreover have "k = len - n \<longleftrightarrow> n + k = len" using n(2) by auto
    ultimately have "copyin_obj root va len s = Inr ((if n + k = len then 0 else - 1, user_bytes (mem s) root va (n + k)), s)"
      using wa acc p0 l0 k(1) rd_phys [OF us acc n(3)]
      by (subst copyin_obj.simps) (simp add: Let_def flip: n_def)
    then show ?thesis using pp(1) by blast
  qed
qed

section \<open>Writing user memory\<close>

lemma wr_round:
  assumes us: "uspace s root N" and acc: "accessible (mem s) root dstva"
    and n: "unat dstva mod 4096 + length bs \<le> 4096"
  defines "m \<equiv> wr (mem s) (PTE2PA (leaf (mem s) root dstva) + (dstva - PGROUNDDOWN dstva)) bs"
  shows "user_written (mem s) m root N dstva (length bs) (\<lambda>d. bs ! unat d)" "uspace (s\<lparr>mem := m\<rparr>) root N"
    "leaf m root = leaf (mem s) root"
proof -
  let ?L = "leaf (mem s) root" and ?d = "phys (mem s) root dstva"
  note up = uspace_user_page [OF us acc]
  have own: "owns s root [] 0 N" and N: "N * 4096 < 2 ^ 38" using us by (simp_all add: uspace_def)
  have off: "dstva - PGROUNDDOWN dstva = of_nat (unat dstva mod 4096)"
    by (rule u_eqI) (simp add: unat_page_offset unat_of_nat)
  have ap: "m a = (if unat (a - ?d) < length bs then bs ! unat (a - ?d) else mem s a)" for a
    using n by (simp add: m_def wr_apply phys_def)
  have so: "same_on (- {PTE2PA (?L dstva)}) m (mem s)"
    unfolding same_on_def
  proof (intro allI impI)
    fix a assume "PGROUNDDOWN a \<in> - {PTE2PA (?L dstva)}"
    then have "\<not> unat (a - ?d) < length bs"
      using in_page_block [OF pg_aligned_PTE2PA n, of a "?L dstva"] off by (auto simp: phys_def)
    then show "m a = mem s a" by (simp add: ap)
  qed
  have son: "same_on (nodes (mem s) root) m (mem s)" using so by (rule same_on_mono) (use up(3) in auto)
  note uf = uspace_frame [OF us son]
  show "uspace (s\<lparr>mem := m\<rparr>) root N" "leaf m root = ?L" by (fact uf)+
  have "ubyte m root va = (if unat dstva \<le> unat va \<and> unat va < unat dstva + length bs then bs ! unat (va - dstva)
      else ubyte (mem s) root va)" if "in_range 0 N va" for va
  proof -
    have "phys m root va = phys (mem s) root va" using uf(2) by (simp add: phys_def)
    then show ?thesis using ap phys_block [OF own N up(1) that n] by (simp add: ubyte_phys)
  qed
  moreover have "same_on (- set (frames ?L 0 N)) m (mem s)" using so by (rule same_on_mono) (use up(2) in auto)
  ultimately show "user_written (mem s) m root N dstva (length bs) (\<lambda>d. bs ! unat d)"
    by (simp add: user_written_def)
qed

lemma prefix_len_cong: "leaf m' root = leaf m root \<Longrightarrow> prefix_len m' root va len k = prefix_len m root va len k"
proof -
  assume "leaf m' root = leaf m root"
  then have "accessible m' root = accessible m root" by (rule accessible_cong)
  then show ?thesis by (simp add: prefix_len_def)
qed

text \<open>
  What copyout_obj leaves: the first k bytes are written, the page table and the rest of the
  state are as before.
\<close>

definition copied_out :: "'a kheap_scheme \<Rightarrow> u64 \<Rightarrow> nat \<Rightarrow> u64 \<Rightarrow> u8 list \<Rightarrow> nat \<Rightarrow> 'a kheap_scheme \<Rightarrow> bool" where
  "copied_out s root N va bs k s' \<longleftrightarrow> s' = s\<lparr>mem := mem s'\<rparr> \<and> uspace s' root N \<and>
     leaf (mem s') root = leaf (mem s) root \<and> user_written (mem s) (mem s') root N va k (\<lambda>d. bs ! unat d)"

lemma copied_out_trans:
  assumes one: "copied_out s root N va (take n bs) n (s\<lparr>mem := m1\<rparr>)" and n: "n \<le> length bs"
    and two: "copied_out (s\<lparr>mem := m1\<rparr>) root N va2 (drop n bs) k s'"
    and k: "k \<le> length bs - n" "length bs < 2 ^ 64" and va2: "k = 0 \<or> unat va2 = unat va + n \<and> va2 = va + of_nat n"
  shows "copied_out s root N va bs (n + k) s'"
proof -
  have f: "(drop n bs) ! unat d = bs ! unat (of_nat n + d)" if "unat d < k" for d :: u64
  proof -
    have "unat (of_nat n + d) = n + unat d" using that k n by (simp add: unat_word_ariths unat_of_nat)
    then show ?thesis using n by simp
  qed
  have uw: "user_written (mem s) m1 root N va n (\<lambda>d. take n bs ! unat d)" and lf: "leaf m1 root = leaf (mem s) root"
    using one by (simp_all add: copied_out_def)
  have "take n bs ! unat d = bs ! unat d" if "unat va \<le> unat vb \<and> unat vb < unat va + n \<and> d = vb - va" for d vb
  proof -
    have "unat d = unat vb - unat va" using that by (simp add: unat_sub word_le_nat_alt)
    then show ?thesis using that by auto
  qed
  then have uw1: "user_written (mem s) m1 root N va n (\<lambda>d. bs ! unat d)" using uw by (auto simp: user_written_def)
  have uw2: "user_written m1 (mem s') root N va2 k (\<lambda>d. drop n bs ! unat d)" using two by (simp add: copied_out_def)
  have "user_written (mem s) (mem s') root N va (n + k) (\<lambda>d. bs ! unat d)"
    by (rule user_written_trans [OF uw1 uw2 lf va2 f])
  moreover have "s' = s\<lparr>mem := mem s'\<rparr>" using two unfolding copied_out_def
    by (metis (no_types, lifting) kmach.surjective kmach.update_convs(1))
  ultimately show ?thesis using two lf by (simp add: copied_out_def)
qed

lemma copyout_obj_prefix:
  assumes "uspace s root N" and "length bs < 2 ^ 64"
  shows "\<exists>k s'. copyout_obj root va bs s = Inr (if k = length bs then 0 else - 1, s') \<and> copied_out s root N va bs k s' \<and>
    prefix_len (mem s) root va (length bs) k"
  using assms
proof (induction "length bs" arbitrary: va bs s rule: less_induct)
  case less
  note us = less.prems(1)
  have wf: "pt_wf s root []" using us by (simp add: uspace_def)
  note wa = walkaddr_eq [OF wf, of "PGROUNDDOWN va", unfolded accessible_page leaf_page]
  show ?case
  proof (cases "bs = [] \<or> \<not> accessible (mem s) root va")
    case True
    then show ?thesis using wa us
      by (subst copyout_obj.simps) (auto simp: Let_def prefix_len_def copied_out_def user_written_def intro!: exI [of _ "0::nat"])
  next
    case False
    then have acc: "accessible (mem s) root va" and l0: "bs \<noteq> []" by auto
    define n where "n = min (page_room va) (length bs)"
    define m1 where "m1 = wr (mem s) (PTE2PA (leaf (mem s) root va) + (va - PGROUNDDOWN va)) (take n bs)"
    have n: "0 < n" "n \<le> length bs" "unat va mod 4096 + n \<le> 4096" using l0 page_room_pos [of va] by (auto simp: n_def page_room_eq)
    have p0: "PTE2PA (leaf (mem s) root va) \<noteq> 0"
      using uspace_user_page(4) [OF us acc] us kpage_nonzero by (auto simp: uspace_def)
    have r1: "copied_out s root N va (take n bs) n (s\<lparr>mem := m1\<rparr>)" and lf: "leaf m1 root = leaf (mem s) root" and us1: "uspace (s\<lparr>mem := m1\<rparr>) root N"
      using wr_round [OF us acc, of "take n bs", folded m1_def] n by (simp_all add: copied_out_def)
    have dl: "length (drop n bs) < length bs" "length (drop n bs) < 2 ^ 64" using n l0 less.prems(2) by auto
    obtain k s' where k: "copyout_obj root (PGROUNDDOWN va + PGSIZE) (drop n bs) (s\<lparr>mem := m1\<rparr>) = Inr (if k = length bs - n then 0 else - 1, s')"
      "copied_out (s\<lparr>mem := m1\<rparr>) root N (PGROUNDDOWN va + PGSIZE) (drop n bs) k s'"
      "prefix_len m1 root (PGROUNDDOWN va + PGSIZE) (length bs - n) k"
      using less.hyps [OF dl(1) us1 dl(2), of "PGROUNDDOWN va + PGSIZE"] by auto
    have k3: "prefix_len (mem s) root (PGROUNDDOWN va + PGSIZE) (length bs - n) k" using k(3) prefix_len_cong [OF lf] by simp
    note pp = prefix_len_page [OF us acc n_def k3]
    have "unat va < 2 ^ 38" using uspace_user_page(1) [OF us acc] us by (simp add: uspace_def in_range_def)
    then have "unat (va + of_nat n) = unat va + n" using n(3) by (simp add: unat_word_ariths unat_of_nat)
    then have nx: "k = 0 \<or> unat (PGROUNDDOWN va + PGSIZE) = unat va + n \<and> PGROUNDDOWN va + PGSIZE = va + of_nat n"
      using pp(2) by auto
    have kl: "k \<le> length bs - n" using k(3) by (simp add: prefix_len_def)
    have "copied_out s root N va bs (n + k) s'"
      by (rule copied_out_trans [OF r1 n(2) k(2) kl less.prems(2) nx])
    moreover have "k = length bs - n \<longleftrightarrow> n + k = length bs" using n(2) by auto
    then have "copyout_obj root va bs s = Inr (if n + k = length bs then 0 else - 1, s')"
      using wa acc p0 l0 k(1) by (subst copyout_obj.simps) (simp add: Let_def flip: n_def m1_def)
    ultimately show ?thesis using pp(1) by blast
  qed
qed

section \<open>Properties\<close>

text \<open>Copying user memory into a kernel object is the same as copyin into a buffer in memory: both
  give the same result, and the bytes that copyin leaves in the buffer are the bytes of the
  object, the accessible user bytes from srcva on.\<close>

theorem copyin_obj_equiv:
  assumes us: "uspace s root N" and kb: "kbuf s root N dst (unat len)"
  shows "\<exists>r bs. copyin_obj root srcva (unat len) s = Inr ((r, bs), s) \<and>
    copyin root dst srcva len s = Inr (r, s\<lparr>mem := kernel_written (mem s) dst (length bs) (\<lambda>d. bs ! unat d)\<rparr>) \<and>
    bs = user_bytes (mem s) root srcva (length bs) \<and> (r = 0 \<longleftrightarrow> length bs = unat len)"
proof -
  obtain k where k: "copyin_obj root srcva (unat len) s =
      Inr ((if k = unat len then 0 else - 1, user_bytes (mem s) root srcva k), s)" "prefix_len (mem s) root srcva (unat len) k"
    using copyin_obj_prefix [OF us] by blast
  obtain r j where j: "copyin root dst srcva len s =
      Inr (r, s\<lparr>mem := kernel_written (mem s) dst j (\<lambda>d. ubyte (mem s) root (srcva + d))\<rparr>)"
    "\<forall>i < j. accessible (mem s) root (srcva + of_nat i)"
    "r = 0 \<and> j = unat len \<or> r = - 1 \<and> j < unat len \<and> \<not> accessible (mem s) root (srcva + of_nat j)"
    using copyin_prefix [OF us kb, of srcva] by blast
  then have "prefix_len (mem s) root srcva (unat len) j" by (auto simp: prefix_len_def)
  then have jk: "j = k" using prefix_len_unique k(2) by blast
  have "kernel_written (mem s) dst k (\<lambda>d. ubyte (mem s) root (srcva + d)) =
      kernel_written (mem s) dst k (\<lambda>d. user_bytes (mem s) root srcva k ! unat d)"
    by (rule ext) (simp add: kernel_written_def user_bytes_def)
  then show ?thesis using k(1) j(1,3) jk
    by (intro exI [of _ "if k = unat len then 0 else - 1"] exI [of _ "user_bytes (mem s) root srcva k"]) auto
qed

theorem copyin_obj_equiv_witness:
  "\<exists>r bs. copyin_obj 0x87FF8000 4092 8 demo_user = Inr ((r, bs), demo_user) \<and>
    copyin 0x87FF8000 0x87FFE000 4092 8 demo_user =
      Inr (r, demo_user\<lparr>mem := kernel_written demo_mem 0x87FFE000 (length bs) (\<lambda>d. bs ! unat d)\<rparr>)"
  using copyin_obj_equiv [OF demo_uspace, of "0x87FFE000" 8 4092] demo_kbuf [of 8] by fastforce

end
