(* ===== verification/Pipe_Rw.thy ===== *)
theory Pipe_Rw
  imports Pipe Copy_Obj Proc_Sync
begin

text \<open>
  Reading and writing pipes: what pipewrite and piperead do on a pipe that has room, or that
  has data, so that they do not have to sleep.
\<close>

section \<open>Frames\<close>

lemma lockit_pipes [simp]:
  "pipes (lockit l s) = pipes s" "(lockit l s)\<lparr>pipes := f\<rparr> = lockit l (s\<lparr>pipes := f\<rparr>)"
  "(lockit l s)\<lparr>mem := m\<rparr> = lockit l (s\<lparr>mem := m\<rparr>)"
  by (simp_all add: lockit_def)

lemma pipes_mem_commute [simp]: "s\<lparr>pipes := f, mem := m\<rparr> = s\<lparr>mem := m, pipes := f\<rparr>"
  by (rule kpipe.equality) simp_all

lemma settled_pipes [simp]:
  "settled (s\<lparr>pipes := f\<rparr>) = settled s" "lk_free l (s\<lparr>pipes := f\<rparr>) = lk_free l s"
  "settled (s\<lparr>mem := m\<rparr>) = settled s" "lk_free l (s\<lparr>mem := m\<rparr>) = lk_free l s"
  by (simp_all add: settled_def lk_free_def)

lemma proc_locks_free_pipes [simp]:
  "proc_locks_free (s\<lparr>pipes := f\<rparr>) = proc_locks_free s" "proc_locks_free (s\<lparr>mem := m\<rparr>) = proc_locks_free s"
  by (simp_all add: proc_locks_free_def)

lemma pt_wf_only: "mem s' = mem s \<Longrightarrow> k_end s' = k_end s \<Longrightarrow> pt_wf s' root xs = pt_wf s root xs"
  by (simp add: pt_wf_def kpage_def)

lemma uspace_only: "mem s' = mem s \<Longrightarrow> k_end s' = k_end s \<Longrightarrow> uspace s' root N = uspace s root N"
  using pt_wf_only [of s' s root "[]"] by (simp add: uspace_def owns_def kpage_def)

lemma upd_pipe_eq: "upd_pipe pi f s = Inr ((), s\<lparr>pipes := (pipes s)(pi := f (pipes s pi))\<rparr>)"
  by (simp add: upd_pipe_def kmon)

lemma get_pipe_eq: "get_pipe pi s = Inr (pipes s pi, s)"
  by (simp add: get_pipe_def kmon)

lemma copyin_byte:
  assumes "uspace s root N"
  shows "copyin_obj root va 1 s =
    (if accessible (mem s) root va then Inr ((0, [ubyte (mem s) root va]), s) else Inr ((- 1, []), s))"
proof -
  obtain k where k: "copyin_obj root va 1 s = Inr ((if k = 1 then 0 else - 1, user_bytes (mem s) root va k), s)"
    "prefix_len (mem s) root va 1 k"
    using copyin_obj_prefix [OF assms] by blast
  then have "k = (if accessible (mem s) root va then 1 else 0)"
    by (auto simp: prefix_len_def le_Suc_eq)
  then show ?thesis using k(1) by (simp add: user_bytes_def)
qed

section \<open>Writing\<close>

text \<open>The process, its address space and the locks that the operations on a pipe rely on.\<close>

definition pipe_user :: "'a kpipe_scheme \<Rightarrow> u64 \<Rightarrow> nat \<Rightarrow> u64 \<Rightarrow> nat \<Rightarrow> bool" where
  "pipe_user s pi p root N \<longleftrightarrow> settled s \<and> cpu_proc (cur_cpu s) = Some p \<and> proc_locks_free s \<and>
     lk_free (PipeLock pi) s \<and> p_pagetable (procs s p) = root \<and> uspace s root N \<and> pipe_wf (pipes s pi)"

definition put_in :: "u64 \<Rightarrow> u8 list \<Rightarrow> 'a kpipe_scheme \<Rightarrow> 'a kpipe_scheme" where
  "put_in pi xs s = s\<lparr>pipes := (pipes s)(pi := fold pipe_put xs (pipes s pi))\<rparr>"

definition woken_all :: "chan \<Rightarrow> 'a kproc_scheme \<Rightarrow> 'a kproc_scheme" where
  "woken_all ch s = s\<lparr>procs := wake_table ch {..<NPROC} (procs s)\<rparr>"

definition write_body :: "('a kpipe_scheme, unit) km \<Rightarrow> u64 \<Rightarrow> u64 \<Rightarrow> int \<Rightarrow> nat \<Rightarrow> int \<Rightarrow> ('a kpipe_scheme, int + int) km" where
  "write_body sw pi addr n pr i =
     (if i < n then
        kbind (pipe_room sw pi pr) (\<lambda>ok.
        if \<not> ok then kret (Inr (- 1))
        else kbind (get_proc pr p_pagetable) (\<lambda>pt.
          kbind (copyin_obj pt (addr + of_int i) 1) (\<lambda>(r, bs).
          if r = - 1 then kseq (wakeup (ChPipeRead pi)) (kseq (release (PipeLock pi)) (kret (Inr i)))
          else kseq (upd_pipe pi (pipe_put (hd bs))) (kret (Inl (i + 1))))))
      else kseq (wakeup (ChPipeRead pi)) (kseq (release (PipeLock pi)) (kret (Inr i))))"

lemma pipewrite_body:
  "pipewrite sw pi addr n = kbind curproc (\<lambda>pr. kseq (acquire (PipeLock pi)) (kiter (write_body sw pi addr n pr) 0))"
  by (simp add: pipewrite_def write_body_def [abs_def] Let_def)

lemma pipe_user_put_in:
  assumes "pipe_user s pi p root N" and "length (pipe_contents (pipes s pi)) + length xs \<le> PIPESIZE"
  shows "pipe_user (put_in pi xs s) pi p root N" "pipe_contents (pipes (put_in pi xs s) pi) = pipe_contents (pipes s pi) @ xs"
    "mem (put_in pi xs s) = mem s"
  using assms pq.puts_fold [of "pipes s pi" xs] uspace_only [of "put_in pi xs s" s root N]
  by (auto simp: pipe_user_def put_in_def)

lemma write_end:
  assumes "pipe_user s pi p root N"
  shows "kseq (wakeup (ChPipeRead pi)) (kseq (release (PipeLock pi)) (kret x)) (lockit (PipeLock pi) s) =
    Inr (x, woken_all (ChPipeRead pi) s)"
  using assms by (simp add: pipe_user_def kmon woken_all_def)

lemma pipe_room_eq:
  assumes "pipe_user s pi p root N" and "length (pipe_contents (pipes s pi)) < PIPESIZE"
  shows "pipe_room sw pi p (lockit (PipeLock pi) s) = Inr (True, lockit (PipeLock pi) s)"
proof -
  have "\<not> pipe_full (pipes s pi)" using assms pq.full_iff by (auto simp: pipe_user_def)
  then show ?thesis
    unfolding pipe_room_def by (subst kloop_unfold) (simp add: get_pipe_eq kmon)
qed

lemma write_step:
  assumes pu: "pipe_user s pi p root N" and i: "i < n" and room: "length (pipe_contents (pipes s pi)) < PIPESIZE"
  shows "write_body sw pi addr n p i (lockit (PipeLock pi) s) =
    (if accessible (mem s) root (addr + of_int i)
     then Inr (Inl (i + 1), lockit (PipeLock pi) (put_in pi [ubyte (mem s) root (addr + of_int i)] s))
     else Inr (Inr i, woken_all (ChPipeRead pi) s))"
proof -
  let ?t = "lockit (PipeLock pi) s"
  have "uspace ?t root N" using pu uspace_only [of ?t s root N] by (simp add: pipe_user_def)
  note cb = copyin_byte [OF this, of "addr + of_int i"]
  have pt: "get_proc p p_pagetable ?t = Inr (root, ?t)" using pu by (simp add: get_proc_eq pipe_user_def)
  show ?thesis
    using i pipe_room_eq [OF pu room, of sw] pt cb write_end [OF pu, of "Inr i :: int + int"]
    by (simp add: write_body_def kbind_cases) (simp add: upd_pipe_eq kmon put_in_def)
qed

lemma put_in_Cons: "put_in pi xs (put_in pi [x] s) = put_in pi (x # xs) s"
  by (simp add: put_in_def)

lemma write_loop:
  assumes "pipe_user s pi p root N" and "length (pipe_contents (pipes s pi)) + j \<le> PIPESIZE"
    and "prefix_len (mem s) root (addr + of_nat i) j k"
  shows "kiter (write_body sw pi addr (int (i + j)) p) (int i) (lockit (PipeLock pi) s) =
    Inr (int (i + k), woken_all (ChPipeRead pi) (put_in pi (user_bytes (mem s) root (addr + of_nat i) k) s))"
  using assms
proof (induction j arbitrary: i k s)
  case 0
  then have "k = 0" by (simp add: prefix_len_def)
  then show ?case using write_end [OF 0(1), of "Inr (int i) :: int + int"]
    by (subst kiter_unfold) (simp add: write_body_def user_bytes_def put_in_def)
next
  case (Suc j)
  have room: "length (pipe_contents (pipes s pi)) < PIPESIZE" using Suc.prems(2) by simp
  note st = write_step [OF Suc.prems(1) _ room, of "int i" "int (i + Suc j)" sw addr]
  show ?case
  proof (cases "accessible (mem s) root (addr + of_nat i)")
    case False
    have "accessible (mem s) root (addr + of_nat i + of_nat 0)" if "0 < k"
      using Suc.prems(3) that unfolding prefix_len_def by blast
    then have "k = 0" using False by auto
    then show ?thesis using st False by (subst kiter_unfold) (simp add: user_bytes_def put_in_def)
  next
    case True
    define b where "b = ubyte (mem s) root (addr + of_nat i)"
    have "\<not> accessible (mem s) root (addr + of_nat i + of_nat 0)" if "k = 0"
      using Suc.prems(3) that unfolding prefix_len_def by blast
    then have k: "k \<noteq> 0" using True by auto
    then obtain k' where k': "k = Suc k'" by (cases k) auto
    have sh: "addr + of_nat (Suc i) + of_nat l = addr + of_nat i + of_nat (Suc l)" for l by simp
    have pl: "prefix_len (mem s) root (addr + of_nat (Suc i)) j k'"
      using Suc.prems(3) unfolding prefix_len_def sh k' by auto
    have ub: "user_bytes (mem s) root (addr + of_nat i) k = b # user_bytes (mem s) root (addr + of_nat (Suc i)) k'"
      using user_bytes_append [of "mem s" root "addr + of_nat i" 1 k'] by (simp add: k' b_def user_bytes_def algebra_simps)
    have "length (pipe_contents (pipes s pi)) + length [b] \<le> PIPESIZE" using room by simp
    note pi = pipe_user_put_in [OF Suc.prems(1) this]
    have "length (pipe_contents (pipes (put_in pi [b] s) pi)) + j \<le> PIPESIZE" using pi(2) Suc.prems(2) by simp
    note ih = Suc.IH [OF pi(1) this, of "Suc i" k', unfolded pi(3), OF pl]
    have "kiter (write_body sw pi addr (int (i + Suc j)) p) (int i) (lockit (PipeLock pi) s) =
        kiter (write_body sw pi addr (int (Suc i + j)) p) (int (Suc i)) (lockit (PipeLock pi) (put_in pi [b] s))"
      using st True by (subst kiter_unfold) (simp add: b_def add.commute)
    then show ?thesis unfolding ub using ih by (simp add: put_in_Cons k')
  qed
qed

lemma pipewrite_eq:
  assumes pu: "pipe_user s pi p root N" and "length (pipe_contents (pipes s pi)) + n \<le> PIPESIZE"
    and "prefix_len (mem s) root addr n k"
  shows "pipewrite sw pi addr (int n) s =
    Inr (int k, woken_all (ChPipeRead pi) (put_in pi (user_bytes (mem s) root addr k) s))"
  using write_loop [OF pu assms(2), of addr 0 k sw] assms(3) pu
  by (simp add: pipewrite_body kmon pipe_user_def curproc_eq)

section \<open>Reading\<close>

definition read_body :: "u64 \<Rightarrow> u64 \<Rightarrow> int \<Rightarrow> nat \<Rightarrow> int \<Rightarrow> ('a kpipe_scheme, int + int) km" where
  "read_body pi addr n pr i =
     (if i < n then
        kbind (get_pipe pi) (\<lambda>q.
        if pipe_empty q then kseq (wakeup (ChPipeWrite pi)) (kseq (release (PipeLock pi)) (kret (Inr i)))
        else kseq (upd_pipe pi pipe_drop) (
          kbind (get_proc pr p_pagetable) (\<lambda>pt.
          kbind (copyout_obj pt (addr + of_int i) [pipe_head q]) (\<lambda>r.
          if r = - 1 then kseq (wakeup (ChPipeWrite pi)) (kseq (release (PipeLock pi)) (kret (Inr i)))
          else kret (Inl (i + 1))))))
      else kseq (wakeup (ChPipeWrite pi)) (kseq (release (PipeLock pi)) (kret (Inr i))))"

definition take_out :: "u64 \<Rightarrow> nat \<Rightarrow> 'a kpipe_scheme \<Rightarrow> 'a kpipe_scheme" where
  "take_out pi n s = s\<lparr>pipes := (pipes s)(pi := (pipe_drop ^^ n) (pipes s pi))\<rparr>"

lemma read_end:
  assumes "pipe_user s pi p root N"
  shows "kseq (wakeup (ChPipeWrite pi)) (kseq (release (PipeLock pi)) (kret x)) (lockit (PipeLock pi) s) =
    Inr (x, woken_all (ChPipeWrite pi) s)"
  using assms by (simp add: pipe_user_def kmon woken_all_def)

lemma copyout_byte:
  assumes us: "uspace s root N" and acc: "accessible (mem s) root va"
  shows "\<exists>m. copyout_obj root va [b] s = Inr (0, s\<lparr>mem := m\<rparr>) \<and> copied_out s root N va [b] 1 (s\<lparr>mem := m\<rparr>)"
proof -
  obtain k s' where k: "copyout_obj root va [b] s = Inr (if k = 1 then 0 else - 1, s')" "copied_out s root N va [b] k s'"
    "prefix_len (mem s) root va 1 k"
    using copyout_obj_prefix [OF us, of "[b]" va] by auto
  have "\<not> accessible (mem s) root (va + of_nat 0)" if "k = 0"
    using k(3) that unfolding prefix_len_def by blast
  then have "k = 1" using k(3) acc by (cases k) (auto simp: prefix_len_def)
  moreover have "s' = s\<lparr>mem := mem s'\<rparr>" using k(2) by (simp add: copied_out_def)
  ultimately show ?thesis using k(1,2) by (intro exI [of _ "mem s'"]) simp
qed

lemma copied_out_only:
  assumes "copied_out t root N va bs k (t\<lparr>mem := m\<rparr>)" and "mem t = mem s" and "k_end t = k_end s"
  shows "copied_out s root N va bs k (s\<lparr>mem := m\<rparr>)"
  using assms uspace_only [of "t\<lparr>mem := m\<rparr>" "s\<lparr>mem := m\<rparr>" root N] by (simp add: copied_out_def)

lemma pipe_user_take_one:
  assumes "pipe_user s pi p root N" and "\<not> pipe_empty (pipes s pi)" and "copied_out s root N va bs k (s\<lparr>mem := m\<rparr>)"
  shows "pipe_user (take_out pi 1 (s\<lparr>mem := m\<rparr>)) pi p root N"
    "pipe_contents (pipes (take_out pi 1 (s\<lparr>mem := m\<rparr>)) pi) = tl (pipe_contents (pipes s pi))"
proof -
  have "pipe_wf (pipes s pi)" using assms(1) by (simp add: pipe_user_def)
  with assms(2) have "pipe_wf (pipe_drop (pipes s pi))" "pipe_contents (pipe_drop (pipes s pi)) = tl (pipe_contents (pipes s pi))"
    using pq.rest_inv pq.front_rest by (auto dest: arg_cong [where f = tl])
  moreover have "uspace (take_out pi 1 (s\<lparr>mem := m\<rparr>)) root N"
    using assms(3) uspace_only [of "take_out pi 1 (s\<lparr>mem := m\<rparr>)" "s\<lparr>mem := m\<rparr>" root N]
    by (simp add: copied_out_def take_out_def)
  ultimately show "pipe_user (take_out pi 1 (s\<lparr>mem := m\<rparr>)) pi p root N"
    "pipe_contents (pipes (take_out pi 1 (s\<lparr>mem := m\<rparr>)) pi) = tl (pipe_contents (pipes s pi))"
    using assms(1) by (simp_all add: pipe_user_def take_out_def)
qed

lemma read_step:
  assumes pu: "pipe_user s pi p root N" and i: "i < n" and ne: "\<not> pipe_empty (pipes s pi)"
    and acc: "accessible (mem s) root (addr + of_int i)"
  shows "\<exists>m. read_body pi addr n p i (lockit (PipeLock pi) s) =
      Inr (Inl (i + 1), lockit (PipeLock pi) (take_out pi 1 (s\<lparr>mem := m\<rparr>))) \<and>
    copied_out s root N (addr + of_int i) [pipe_head (pipes s pi)] 1 (s\<lparr>mem := m\<rparr>)"
proof -
  let ?u = "s\<lparr>pipes := (pipes s)(pi := pipe_drop (pipes s pi))\<rparr>"
  let ?t = "lockit (PipeLock pi) ?u"
  have "uspace ?t root N" using pu uspace_only [of ?t s root N] by (simp add: pipe_user_def)
  then obtain m where m: "copyout_obj root (addr + of_int i) [pipe_head (pipes s pi)] ?t = Inr (0, ?t\<lparr>mem := m\<rparr>)"
    "copied_out ?t root N (addr + of_int i) [pipe_head (pipes s pi)] 1 (?t\<lparr>mem := m\<rparr>)"
    using copyout_byte [of ?t root N "addr + of_int i"] acc by auto
  have pt: "get_proc p p_pagetable ?t = Inr (root, ?t)" using pu by (simp add: get_proc_eq pipe_user_def)
  have "read_body pi addr n p i (lockit (PipeLock pi) s) =
      Inr (Inl (i + 1), lockit (PipeLock pi) (take_out pi 1 (s\<lparr>mem := m\<rparr>)))"
    using i ne m(1) pt by (simp add: read_body_def kbind_cases get_pipe_eq kseq_def upd_pipe_eq kret_def take_out_def)
  moreover have "copied_out s root N (addr + of_int i) [pipe_head (pipes s pi)] 1 (s\<lparr>mem := m\<rparr>)"
    by (rule copied_out_only [OF m(2)]) simp_all
  ultimately show ?thesis by blast
qed

lemma take_out_Suc: "take_out pi n (take_out pi 1 (s\<lparr>mem := m\<rparr>)\<lparr>mem := m'\<rparr>) = take_out pi (Suc n) (s\<lparr>mem := m'\<rparr>)"
  by (simp add: take_out_def funpow_swap1)

lemma read_loop:
  assumes "pipe_user s pi p root N" and "m = min j (length (pipe_contents (pipes s pi)))"
    and "\<forall>l < m. accessible (mem s) root (addr + of_nat i + of_nat l)" and "unat addr + (i + j) < 2 ^ 64"
  shows "\<exists>mm. kiter (read_body pi addr (int (i + j)) p) (int i) (lockit (PipeLock pi) s) =
      Inr (int (i + m), woken_all (ChPipeWrite pi) (take_out pi m (s\<lparr>mem := mm\<rparr>))) \<and>
    copied_out s root N (addr + of_nat i) (take m (pipe_contents (pipes s pi))) m (s\<lparr>mem := mm\<rparr>)"
  using assms
proof (induction m arbitrary: i j s)
  case 0
  have "copied_out s root N (addr + of_nat i) [] 0 (s\<lparr>mem := mem s\<rparr>)"
    using 0(1) by (auto simp: copied_out_def user_written_def pipe_user_def)
  moreover have "j = 0 \<or> pipe_empty (pipes s pi)"
    using 0(1,2) pq.emp_iff [of "pipes s pi"] by (auto simp: pipe_user_def min_def split: if_splits)
  then have "read_body pi addr (int (i + j)) p (int i) (lockit (PipeLock pi) s) = Inr (Inr (int i), woken_all (ChPipeWrite pi) s)"
    using read_end [OF 0(1), of "Inr (int i) :: int + int"]
    by (auto simp: read_body_def kbind_cases get_pipe_eq)
  ultimately show ?case by (subst kiter_unfold) (auto simp: take_out_def intro!: exI [of _ "mem s"])
next
  case (Suc m)
  let ?c = "pipe_contents (pipes s pi)"
  have j: "0 < j" "?c \<noteq> []" using Suc.prems(2) by auto
  have pw: "pipe_wf (pipes s pi)" using Suc.prems(1) by (simp add: pipe_user_def)
  then have ne: "\<not> pipe_empty (pipes s pi)" using pq.emp_iff j(2) by blast
  have "?c = pipe_head (pipes s pi) # pipe_contents (pipe_drop (pipes s pi))" by (rule pq.front_rest [OF pw ne])
  then have hd: "?c = pipe_head (pipes s pi) # tl ?c" by (metis list.sel(3))
  have "accessible (mem s) root (addr + of_nat i + of_nat 0)" using Suc.prems(3) by blast
  then have acc: "accessible (mem s) root (addr + of_int (int i))" by simp
  have lt: "int i < int (i + j)" using j(1) by simp
  obtain m1 where m1: "read_body pi addr (int (i + j)) p (int i) (lockit (PipeLock pi) s) =
      Inr (Inl (int i + 1), lockit (PipeLock pi) (take_out pi 1 (s\<lparr>mem := m1\<rparr>)))"
    "copied_out s root N (addr + of_int (int i)) [pipe_head (pipes s pi)] 1 (s\<lparr>mem := m1\<rparr>)"
    using read_step [OF Suc.prems(1) lt ne acc] by blast
  let ?s = "take_out pi 1 (s\<lparr>mem := m1\<rparr>)"
  note pu = pipe_user_take_one [OF Suc.prems(1) ne m1(2)]
  have lf: "accessible m1 root = accessible (mem s) root" using m1(2) by (intro accessible_cong) (simp add: copied_out_def)
  have sh: "addr + of_nat (Suc i) + of_nat l = addr + of_nat i + of_nat (Suc l)" for l by simp
  have "mem ?s = m1" by (simp add: take_out_def)
  then have "\<forall>l < m. accessible (mem ?s) root (addr + of_nat (Suc i) + of_nat l)"
    unfolding sh using Suc.prems(3) lf by (metis Suc_less_eq)
  moreover have "m = min (j - 1) (length (pipe_contents (pipes ?s pi)))" using Suc.prems(2) pu(2) j by simp
  moreover have "unat addr + (Suc i + (j - 1)) < 2 ^ 64" using Suc.prems(4) j by simp
  ultimately obtain mm where ih: "kiter (read_body pi addr (int (Suc i + (j - 1))) p) (int (Suc i)) (lockit (PipeLock pi) ?s) =
      Inr (int (Suc i + m), woken_all (ChPipeWrite pi) (take_out pi m (?s\<lparr>mem := mm\<rparr>)))"
    "copied_out ?s root N (addr + of_nat (Suc i)) (take m (tl ?c)) m (?s\<lparr>mem := mm\<rparr>)"
    using Suc.IH [OF pu(1), of "j - 1" "Suc i"] pu(2) by auto
  have "kiter (read_body pi addr (int (i + j)) p) (int i) (lockit (PipeLock pi) s) =
      kiter (read_body pi addr (int (Suc i + (j - 1))) p) (int (Suc i)) (lockit (PipeLock pi) ?s)"
    using m1(1) j(1) by (subst kiter_unfold) (simp add: add.commute)
  then have "kiter (read_body pi addr (int (i + j)) p) (int i) (lockit (PipeLock pi) s) =
      Inr (int (i + Suc m), woken_all (ChPipeWrite pi) (take_out pi (Suc m) (s\<lparr>mem := mm\<rparr>)))"
    using ih(1) by (simp add: take_out_Suc [unfolded One_nat_def])
  moreover have "copied_out s root N (addr + of_nat i) (take (Suc m) ?c) (1 + m) (s\<lparr>mem := mm\<rparr>)"
  proof (rule copied_out_trans)
    have tc: "take (Suc m) ?c = pipe_head (pipes s pi) # take m (tl ?c)" using hd by (metis take_Suc_Cons)
    show "copied_out s root N (addr + of_nat i) (take 1 (take (Suc m) ?c)) 1 (s\<lparr>mem := m1\<rparr>)" using m1(2) tc by simp
    have "copied_out (s\<lparr>mem := m1\<rparr>) root N (addr + of_nat (Suc i)) (take m (tl ?c)) m (s\<lparr>mem := m1, mem := mm\<rparr>)"
      by (rule copied_out_only [OF ih(2)]) (simp_all add: take_out_def)
    then show "copied_out (s\<lparr>mem := m1\<rparr>) root N (addr + of_nat (Suc i)) (drop 1 (take (Suc m) ?c)) m (s\<lparr>mem := mm\<rparr>)"
      using tc by simp
    have l: "length (take (Suc m) ?c) = Suc m" using Suc.prems(2) by simp
    then show "1 \<le> length (take (Suc m) ?c)" "m \<le> length (take (Suc m) ?c) - 1" by simp_all
    show "length (take (Suc m) ?c) < 2 ^ 64" unfolding l using Suc.prems(2,4) by simp
    have "unat (addr + of_nat (Suc i)) = unat addr + Suc i" "unat (addr + of_nat i) = unat addr + i"
      using Suc.prems(4) j by (simp_all add: unat_word_ariths unat_of_nat)
    then show "m = 0 \<or> unat (addr + of_nat (Suc i)) = unat (addr + of_nat i) + 1 \<and> addr + of_nat (Suc i) = addr + of_nat i + of_nat 1"
      by (simp add: algebra_simps)
  qed
  ultimately show ?case by (intro exI [of _ mm]) simp
qed

lemma piperead_eq:
  assumes pu: "pipe_user s pi p root N" and "pipe_contents (pipes s pi) \<noteq> [] \<or> \<not> writeopen (pipes s pi)"
    and m: "m = min n (length (pipe_contents (pipes s pi)))"
    and acc: "\<forall>l < m. accessible (mem s) root (addr + of_nat l)" and "unat addr + n < 2 ^ 64"
  shows "\<exists>mm. piperead sw pi addr (int n) s = Inr (int m, woken_all (ChPipeWrite pi) (take_out pi m (s\<lparr>mem := mm\<rparr>))) \<and>
    copied_out s root N addr (take m (pipe_contents (pipes s pi))) m (s\<lparr>mem := mm\<rparr>)"
proof -
  have ne: "\<not> (pipe_empty (pipes s pi) \<and> writeopen (pipes s pi))"
    using assms(2) pu pq.emp_iff by (auto simp: pipe_user_def)
  let ?t = "lockit (PipeLock pi) s"
  have "pipe_wait sw pi p ?t = Inr (True, ?t)"
    unfolding pipe_wait_def using ne by (subst kloop_unfold) (auto simp: get_pipe_eq kmon)
  then have b: "piperead sw pi addr (int n) s = kiter (read_body pi addr (int n) p) 0 ?t"
    using pu by (simp add: piperead_def pipe_user_def curproc_eq kseq_Inr read_body_def [abs_def] Let_def)
  show ?thesis using read_loop [OF pu m, of addr 0] acc assms(5) unfolding b by simp
qed

section \<open>Properties\<close>

text \<open>C30: writing n bytes to a pipe with room for them appends the accessible user bytes from addr on to
  the contents of the pipe, all n of them or those before the first address without user
  access, returns their number without sleeping, and makes every waiting reader runnable.\<close>

theorem pipewrite_appends:
  assumes "pipe_user s pi p root N" and "length (pipe_contents (pipes s pi)) + n \<le> PIPESIZE"
    and "prefix_len (mem s) root addr n k"
  shows "\<exists>s'. pipewrite sw pi addr (int n) s = Inr (int k, s') \<and> pipe_user s' pi p root N \<and> mem s' = mem s \<and>
    pipe_contents (pipes s' pi) = pipe_contents (pipes s pi) @ user_bytes (mem s) root addr k \<and>
    (\<forall>q < NPROC. p_state (procs s q) = SLEEPING \<and> p_chan (procs s q) = Some (ChPipeRead pi) \<longrightarrow>
       p_state (procs s' q) = RUNNABLE)"
proof -
  let ?t = "put_in pi (user_bytes (mem s) root addr k) s"
  let ?s = "woken_all (ChPipeRead pi) ?t"
  have "k \<le> n" using assms(3) by (simp add: prefix_len_def)
  then have "length (pipe_contents (pipes s pi)) + length (user_bytes (mem s) root addr k) \<le> PIPESIZE" using assms(2) by simp
  note pi = pipe_user_put_in [OF assms(1) this]
  have "p_pagetable (woken ch q) = p_pagetable q" for ch q by (simp add: woken_def)
  then have "pipe_user ?s pi p root N"
    using pi(1) uspace_only [of ?s ?t root N] by (auto simp: pipe_user_def woken_all_def wake_table_def)
  then show ?thesis using pipewrite_eq [OF assms] pi(2,3)
    by (intro exI [of _ ?s]) (simp add: woken_all_def wake_table_def woken_def put_in_def)
qed

text \<open>C31: reading from a pipe that is not empty, or whose write end is closed, takes the first bytes of its
  contents, at most n, puts them at the user addresses from addr on in the order they were
  written, and touches no other user byte; it returns their number, 0 at the end of the data.\<close>

theorem piperead_takes:
  assumes "pipe_user s pi p root N" and "pipe_contents (pipes s pi) \<noteq> [] \<or> \<not> writeopen (pipes s pi)"
    and "m = min n (length (pipe_contents (pipes s pi)))"
    and "\<forall>l < m. accessible (mem s) root (addr + of_nat l)" and "unat addr + n < 2 ^ 64"
  shows "\<exists>s'. piperead sw pi addr (int n) s = Inr (int m, s') \<and> pipe_wf (pipes s' pi) \<and>
    pipe_contents (pipes s' pi) = drop m (pipe_contents (pipes s pi)) \<and>
    user_written (mem s) (mem s') root N addr m (\<lambda>d. pipe_contents (pipes s pi) ! unat d) \<and>
    (\<forall>q < NPROC. p_state (procs s q) = SLEEPING \<and> p_chan (procs s q) = Some (ChPipeWrite pi) \<longrightarrow>
       p_state (procs s' q) = RUNNABLE)"
proof -
  let ?c = "pipe_contents (pipes s pi)"
  obtain mm where mm: "piperead sw pi addr (int n) s = Inr (int m, woken_all (ChPipeWrite pi) (take_out pi m (s\<lparr>mem := mm\<rparr>)))"
    "copied_out s root N addr (take m ?c) m (s\<lparr>mem := mm\<rparr>)"
    using piperead_eq [OF assms] by blast
  have "take m ?c ! unat (vb - addr) = ?c ! unat (vb - addr)" if "unat addr \<le> unat vb" "unat vb < unat addr + m" for vb
    using that by (simp add: unat_sub word_le_nat_alt)
  then have "user_written (mem s) mm root N addr m (\<lambda>d. ?c ! unat d)"
    using mm(2) by (auto simp: copied_out_def user_written_def)
  moreover have "pipe_wf ((pipe_drop ^^ m) (pipes s pi)) \<and> pipe_contents ((pipe_drop ^^ m) (pipes s pi)) = drop m ?c"
    using assms(1,3) by (intro pq.rest_funpow) (simp_all add: pipe_user_def)
  ultimately show ?thesis using mm(1)
    by (intro exI [of _ "woken_all (ChPipeWrite pi) (take_out pi m (s\<lparr>mem := mm\<rparr>))"])
      (simp add: woken_all_def wake_table_def woken_def take_out_def)
qed

definition demo_kpipe :: kpipe where
  "demo_kpipe = demo_kproc (ksleep_ext (\<lambda>_. \<lparr>sl_locked = False, sl_name = [], sl_pid = 0\<rparr>)
     (kpipe_ext (\<lambda>_. \<lparr>pi_data = replicate 512 65, nread = 0, nwrite = 1, readopen = True, writeopen = True\<rparr>) ()))"

lemma demo_accessible: "n \<le> 4096 \<Longrightarrow> i < n \<Longrightarrow> accessible demo_mem 0x87FF8000 (of_nat i)"
proof -
  assume "n \<le> 4096" "i < n"
  then have u: "unat (of_nat i :: u64) = i" by (simp add: unat_of_nat)
  then have "(of_nat i :: u64) < MAXVA" using \<open>n \<le> 4096\<close> \<open>i < n\<close> by (simp add: word_less_nat_alt unat_MAXVA)
  then show ?thesis using demo_leaf(1) [of "of_nat i"] u \<open>n \<le> 4096\<close> \<open>i < n\<close> entry_fields [OF demo_aligned(4) UPERM_entry(1)]
    by (simp add: accessible_def valid_def UPERM_def PTE_V_def PTE_U_def PTE_R_def PTE_W_def PTE_X_def PA2PTE_def)
qed

lemma demo_kpipe_user: "pipe_user demo_kpipe 0x87FFE000 3 0x87FF8000 1" "mem demo_kpipe = demo_mem"
  "pipe_contents (pipes demo_kpipe 0x87FFE000) = [65]"
proof -
  have p: "pipes demo_kpipe a = \<lparr>pi_data = replicate 512 65, nread = 0, nwrite = 1, readopen = True, writeopen = True\<rparr>" for a
    by (simp add: demo_kpipe_def demo_kproc_def )
  show m: "mem demo_kpipe = demo_mem" by (simp add: demo_kpipe_def demo_kproc_def)
  have "k_end demo_kpipe = k_end demo_user" by (simp add: demo_kpipe_def demo_kproc_def)
  then have "uspace demo_kpipe 0x87FF8000 1" using uspace_only [of demo_kpipe demo_user] m demo_uspace by simp
  then show "pipe_user demo_kpipe 0x87FFE000 3 0x87FF8000 1"
    using p by (simp add: pipe_user_def demo_kpipe_def) (simp add: pipe_wf_def pipe_count_def PIPESIZE_def)
  show "pipe_contents (pipes demo_kpipe 0x87FFE000) = [65]" by (simp add: p pipe_contents_def pipe_count_def ring_def)
qed

theorem pipewrite_appends_witness:
  "\<exists>s'. pipewrite (\<lambda>s. Inl Diverge) 0x87FFE000 0 2 demo_kpipe = Inr (2, s') \<and>
    pipe_contents (pipes s' 0x87FFE000) = [65] @ user_bytes demo_mem 0x87FF8000 0 2"
  using pipewrite_appends [OF demo_kpipe_user(1), of 2 0 2 "\<lambda>s. Inl Diverge"] demo_accessible [of 2]
  by (auto simp: demo_kpipe_user(2,3) prefix_len_def PIPESIZE_def)

theorem piperead_takes_witness:
  "\<exists>s'. piperead (\<lambda>s. Inl Diverge) 0x87FFE000 0 2 demo_kpipe = Inr (1, s') \<and> pipe_contents (pipes s' 0x87FFE000) = []"
  using piperead_takes [OF demo_kpipe_user(1), of 1 2 0 "\<lambda>s. Inl Diverge"] demo_accessible [of 1 0]
  by (auto simp: demo_kpipe_user(2,3))

end
