(* ===== verification/Console_Facts.thy ===== *)
theory Console_Facts
  imports Demo_Kernel Ring
begin

text \<open>
  Facts about the console and the serial port: numbers are printed so that reading the digits
  back gives the number; the transmit buffer is a bounded queue, which uartstart moves to
  the device in order; the input line of the console stays within its buffer.
\<close>

section \<open>Printing numbers\<close>

definition digit_val :: "u8 \<Rightarrow> nat" where
  "digit_val c = (if c < 58 then unat c - 48 else unat c - 87)"

definition digits_val :: "nat \<Rightarrow> u8 list \<Rightarrow> nat" where
  "digits_val b ds = foldl (\<lambda>n d. n * b + digit_val d) 0 ds"

definition signed_val :: "nat \<Rightarrow> u8 list \<Rightarrow> int" where
  "signed_val b ds = (if ds \<noteq> [] \<and> hd ds = 45 then - int (digits_val b (tl ds)) else int (digits_val b ds))"

lemma digit_val_digits: "d < 16 \<Longrightarrow> digit_val (digits d) = d"
proof -
  assume d: "d < 16"
  have n: "unat (of_nat m :: u8) = m" if "m < 256" for m
    using that by (simp add: unat_of_nat take_bit_eq_mod)
  show ?thesis using d unfolding digit_val_def digits_def
    by (cases "d < 10") (simp_all only: if_True if_False word_less_nat_alt n, simp_all)
qed

lemma digits_not_minus: "d < 16 \<Longrightarrow> digits d \<noteq> 45"
proof
  assume "d < 16" "digits d = 45"
  then have "digit_val (digits d) = digit_val 45" "d < 16" by simp_all
  then have "d = 0" by (simp add: digit_val_digits) (simp add: digit_val_def)
  with \<open>digits d = 45\<close> show False by (simp add: digits_def)
qed

lemma digits_val_append: "digits_val b (ds @ [d]) = digits_val b ds * b + digit_val d"
  by (simp add: digits_val_def)

lemma digits_rev_val:
  assumes "2 \<le> b" and "b \<le> 16"
  shows "digits_val b (rev (digits_rev b x)) = x"
proof (induction x rule: less_induct)
  case (less x)
  have d: "digit_val (digits (x mod b)) = x mod b"
  proof (rule digit_val_digits)
    have "x mod b < b" using assms(1) by simp
    then show "x mod b < 16" using assms(2) by simp
  qed
  show ?case
  proof (cases "x div b = 0")
    case True
    then have "x mod b = x" using assms(1) by (metis add.left_neutral div_mult_mod_eq mult_zero_left)
    then show ?thesis using assms(1) True d by (subst digits_rev.simps) (simp add: digits_val_def)
  next
    case False
    then have "0 < x" by (cases x) auto
    then have "x div b < x" using assms(1) by (intro div_less_dividend) auto
    from less.IH [OF this] show ?thesis
      using assms(1) False d by (subst digits_rev.simps) (simp add: digits_val_append)
  qed
qed

lemma digits_rev_last:
  assumes "2 \<le> b" and "b \<le> 16"
  shows "digits_rev b x \<noteq> [] \<and> last (digits_rev b x) \<noteq> 45"
proof (induction x rule: less_induct)
  case (less x)
  have "x mod b < b" using assms(1) by simp
  then have "x mod b < 16" using assms(2) by simp
  note m = digits_not_minus [OF this]
  show ?case
  proof (cases "x div b = 0")
    case True
    then show ?thesis using assms(1) m by (subst (1 2) digits_rev.simps) simp
  next
    case False
    then have "0 < x" by (cases x) auto
    then have "x div b < x" using assms(1) by (intro div_less_dividend) auto
    from less.IH [OF this] show ?thesis using assms(1) False by (subst (1 2) digits_rev.simps) simp
  qed
qed

lemma printint_value:
  assumes "2 \<le> b" and "b \<le> 16"
  shows "signed_val b (printint_bytes xx b sign) = (if sign then sint xx else uint xx)"
proof -
  have ud: "hd (rev (digits_rev b x)) \<noteq> 45" "rev (digits_rev b x) \<noteq> []" for x
    using digits_rev_last [OF assms, of x] by (simp_all add: hd_rev)
  have u: "uint xx = sint xx mod 2 ^ 32" by (simp add: uint_sint take_bit_eq_mod)
  have rng: "- (2 ^ 31) \<le> sint xx" "sint xx < 2 ^ 31" using sint_greater_eq [of xx] sint_less [of xx] by simp_all
  have neg: "int (unat (- xx)) = - sint xx" if "sint xx < 0"
  proof -
    have "sint xx mod 2 ^ 32 = (sint xx + 2 ^ 32) mod 2 ^ 32" by simp
    also have "\<dots> = sint xx + 2 ^ 32" using that rng by (intro mod_pos_pos_trivial) simp_all
    finally have "uint xx = sint xx + 2 ^ 32" using u by simp
    then have "uint (- xx) = (- sint xx - 2 ^ 32) mod 2 ^ 32" by (simp add: uint_word_ariths)
    also have "\<dots> = (- sint xx) mod 2 ^ 32" by (metis minus_mod_self2)
    also have "\<dots> = - sint xx" using that rng by (intro mod_pos_pos_trivial) simp_all
    finally show ?thesis by simp
  qed
  have pos: "uint xx = sint xx" if "0 \<le> sint xx"
    using that rng u by (simp add: mod_pos_pos_trivial)
  show ?thesis
  proof (cases "sign \<and> sint xx < 0")
    case True
    then show ?thesis using neg digits_rev_val [OF assms] by (simp add: signed_val_def printint_bytes_def Let_def)
  next
    case False
    then have "printint_bytes xx b sign = rev (digits_rev b (unat xx))" by (auto simp: printint_bytes_def Let_def)
    moreover have "signed_val b (rev (digits_rev b (unat xx))) = uint xx"
      using ud [of "unat xx"] digits_rev_val [OF assms] by (simp add: signed_val_def)
    ultimately show ?thesis using False pos by auto
  qed
qed

lemma digits_rev_length:
  assumes "2 \<le> b"
  shows "x < b ^ k \<Longrightarrow> 0 < k \<Longrightarrow> length (digits_rev b x) \<le> k"
proof (induction k arbitrary: x)
  case (Suc k)
  show ?case
  proof (cases "x div b = 0")
    case False
    then have "0 < k" using Suc.prems by (cases k) auto
    moreover have "x div b < b ^ k" using Suc.prems assms by (simp add: less_mult_imp_div_less mult.commute)
    ultimately have "length (digits_rev b (x div b)) \<le> k" by (rule Suc.IH [rotated])
    then show ?thesis using assms False by (subst digits_rev.simps) simp
  qed (use assms in \<open>subst digits_rev.simps, simp\<close>)
qed simp

text \<open>C33: In the bases printf uses (any from 8 to 16) printint prints the number it is given, and its
  buffer of 16 characters is large enough: reading the printed characters back, with a leading minus
  sign where the number is printed as signed and is negative, gives the number, for every
  32-bit value, the most negative one included.
\<close>

theorem printint_roundtrip:
  assumes "8 \<le> b" and "b \<le> 16"
  shows "signed_val b (printint_bytes xx b sign) = (if sign then sint xx else uint xx) \<and>
    length (printint_bytes xx b sign) \<le> 16"
proof
  show "signed_val b (printint_bytes xx b sign) = (if sign then sint xx else uint xx)"
    using assms by (intro printint_value) simp_all
  have "length (digits_rev b (unat x)) \<le> 11" for x :: u32
  proof (rule digits_rev_length)
    have "unat x < 2 ^ 32" using unsigned_less [of x] by simp
    also have "\<dots> \<le> (8::nat) ^ 11" by simp
    also have "\<dots> \<le> b ^ 11" using assms(1) by (rule power_mono) simp
    finally show "unat x < b ^ 11" .
  qed (use assms in simp_all)
  from this [of xx] this [of "- xx"] show "length (printint_bytes xx b sign) \<le> 16"
    by (simp add: printint_bytes_def Let_def)
qed

theorem printint_roundtrip_witness:
  "signed_val 10 (printint_bytes 0x80000000 10 True) = - (2 ^ 31) \<and>
   length (printint_bytes 0x80000000 10 True) \<le> 16"
  using printint_roundtrip [of 10 "0x80000000" True] by simp

section \<open>The transmit buffer\<close>

definition tx_wf :: "'a kcons_scheme \<Rightarrow> bool" where
  "tx_wf s \<longleftrightarrow> length (uart_tx_buf s) = UART_TX_BUF_SIZE \<and> uart_tx_w s < UART_TX_BUF_SIZE \<and>
     uart_tx_r s < UART_TX_BUF_SIZE"

definition tx_count :: "'a kcons_scheme \<Rightarrow> nat" where
  "tx_count s = (uart_tx_w s + UART_TX_BUF_SIZE - uart_tx_r s) mod UART_TX_BUF_SIZE"

definition tx_contents :: "'a kcons_scheme \<Rightarrow> u8 list" where
  "tx_contents s = ring (uart_tx_buf s) (uart_tx_r s) (tx_count s)"

lemma tx_slot:
  assumes "w < n" and "r < (n::nat)"
  shows "(r + (w + n - r) mod n) mod n = w"
proof -
  have "(r + (w + n - r) mod n) mod n = (r + (w + n - r)) mod n" by (simp add: mod_add_right_eq)
  also have "r + (w + n - r) = w + n" using assms by simp
  finally show ?thesis using assms by simp
qed

lemma tx_next:
  assumes "w < n" and "r < (n::nat)" and "(w + 1) mod n \<noteq> r"
  shows "((w + 1) mod n + n - r) mod n = Suc ((w + n - r) mod n)"
proof (cases "w + 1 = n")
  case True
  then have "0 < r" "r \<le> w" using assms by auto
  moreover from this True have "(w + n - r) mod n = w - r"
    by (simp add: mod_if le_mod_geq)
  moreover have "(n - r) mod n = n - r" using \<open>0 < r\<close> assms(2) by simp
  ultimately show ?thesis using True by simp
next
  case False
  then have w: "(w + 1) mod n = w + 1" using assms(1) by simp
  show ?thesis
  proof (cases "r \<le> w")
    case True
    then show ?thesis using assms(1) False unfolding w by (simp add: mod_if le_mod_geq) linarith
  next
    case f: False
    then have "w + 1 < r" using assms(3) w by simp
    then show ?thesis using assms unfolding w by simp
  qed
qed

lemma tx_prev:
  assumes "w < n" and "r < (n::nat)" and "w \<noteq> r"
  shows "Suc ((w + n - (r + 1) mod n) mod n) = (w + n - r) mod n"
proof (cases "r + 1 = n")
  case True
  then have "(w + n - r) mod n = w + 1" using assms by simp
  then show ?thesis using True assms(1) by simp
next
  case False
  then have r: "(r + 1) mod n = r + 1" using assms(2) by simp
  show ?thesis
  proof (cases "r \<le> w")
    case True
    then have "r + 1 \<le> w" using assms(3) by simp
    then show ?thesis using assms(1) unfolding r by (simp add: mod_if le_mod_geq) linarith
  next
    case f: False
    then show ?thesis using assms unfolding r by simp
  qed
qed

interpretation txq: fifo tx_wf tx_contents "UART_TX_BUF_SIZE - 1" tx_full tx_empty tx_put tx_head tx_drop
proof unfold_locales
  fix s :: "'a kcons_scheme" and x
  assume wf: "tx_wf s"
  let ?n = UART_TX_BUF_SIZE
  have n: "uart_tx_w s < ?n" "uart_tx_r s < ?n" "length (uart_tx_buf s) = ?n" "0 < ?n"
    using wf by (simp_all add: tx_wf_def UART_TX_BUF_SIZE_def)
  have c: "tx_count s < ?n" using n by (simp add: tx_count_def)
  have slot: "(uart_tx_r s + tx_count s) mod ?n = uart_tx_w s"
    unfolding tx_count_def using n by (intro tx_slot)
  show "length (tx_contents s) \<le> ?n - 1" using c by (simp add: tx_contents_def)
  show "tx_full s \<longleftrightarrow> length (tx_contents s) = ?n - 1"
  proof
    assume f: "tx_full s"
    then have "(uart_tx_r s + Suc (tx_count s)) mod ?n = uart_tx_r s"
      using slot unfolding tx_full_def by (metis Suc_eq_plus1 add_Suc_right mod_Suc_eq)
    then have "\<not> Suc (tx_count s) < ?n" using ring_slot_neq [of 0 "Suc (tx_count s)" ?n "uart_tx_r s"] n by auto
    then show "length (tx_contents s) = ?n - 1" using c by (simp add: tx_contents_def)
  next
    assume "length (tx_contents s) = ?n - 1"
    then have "Suc (tx_count s) = ?n" using n by (simp add: tx_contents_def)
    moreover have "(uart_tx_w s + 1) mod ?n = (uart_tx_r s + Suc (tx_count s)) mod ?n"
      using slot by (metis Suc_eq_plus1 add_Suc_right mod_Suc_eq)
    ultimately show "tx_full s" using n by (simp add: tx_full_def)
  qed
  show "tx_empty s \<longleftrightarrow> tx_contents s = []"
  proof
    assume "tx_empty s"
    then show "tx_contents s = []" by (simp add: tx_empty_def tx_contents_def tx_count_def)
  next
    assume "tx_contents s = []"
    then have "tx_count s = 0" by (simp add: tx_contents_def ring_def)
    then show "tx_empty s" using slot n by (simp add: tx_empty_def)
  qed
  show "tx_wf (tx_put x s)" using wf by (simp add: tx_wf_def tx_put_def)
  show "tx_contents (tx_put x s) = tx_contents s @ [x]" if "\<not> tx_full s"
  proof -
    have "tx_count (tx_put x s) = Suc (tx_count s)"
      using that tx_next [OF n(1,2)] by (simp add: tx_count_def tx_put_def tx_full_def)
    then show ?thesis
      using ring_put [of "tx_count s" "uart_tx_buf s" "uart_tx_r s" x] c slot n
      by (simp add: tx_contents_def tx_put_def)
  qed
  show "tx_wf (tx_drop s)" using wf by (simp add: tx_wf_def tx_drop_def)
  show "tx_contents s = tx_head s # tx_contents (tx_drop s)" if "\<not> tx_empty s"
  proof -
    have "Suc (tx_count (tx_drop s)) = tx_count s"
      using that tx_prev [OF n(1,2)] by (simp add: tx_count_def tx_drop_def tx_empty_def)
    then have "tx_count s - 1 = tx_count (tx_drop s)" "0 < tx_count s" by simp_all
    then show ?thesis
      using ring_take [of "tx_count s" "uart_tx_buf s" "uart_tx_r s"] n
        ring_mod [of "uart_tx_buf s" "Suc (uart_tx_r s)"]
      by (simp add: tx_contents_def tx_head_def) (simp add: tx_drop_def)
  qed
qed

section \<open>Sending\<close>

text \<open>One byte moved from the buffer to the device.\<close>

definition uart_sent :: "'a kcons_scheme \<Rightarrow> 'a kcons_scheme" where
  "uart_sent s = s\<lparr>lsr_t := Suc (lsr_t s), uart_tx_r := (uart_tx_r s + 1) mod UART_TX_BUF_SIZE,
     procs := wake_table ChUartTx {..<NPROC} (procs s), uart_out := uart_out s @ [(THR, tx_head s)]\<rparr>"

definition tx_ready :: "'a kcons_scheme \<Rightarrow> nat \<Rightarrow> bool" where
  "tx_ready s i \<longleftrightarrow> lsr_in s (lsr_t s + i) AND LSR_TX_IDLE \<noteq> 0"

text \<open>How many bytes the device takes: those before its first busy answer.\<close>

definition tx_taken :: "'a kcons_scheme \<Rightarrow> nat" where
  "tx_taken s = length (takeWhile (tx_ready s) [0..<length (tx_contents s)])"

text \<open>Everything that has been or will be sent, in order.\<close>

definition tx_stream :: "'a kcons_scheme \<Rightarrow> (nat \<times> u8) list" where
  "tx_stream s = uart_out s @ map (Pair THR) (tx_contents s)"

lemma lockit_uart [simp]:
  "uart_tx_buf (lockit l s) = uart_tx_buf s" "uart_tx_w (lockit l s) = uart_tx_w s"
  "uart_tx_r (lockit l s) = uart_tx_r s" "uart_out (lockit l s) = uart_out s"
  "lsr_in (lockit l s) = lsr_in s" "lsr_t (lockit l s) = lsr_t s" "panicked (lockit l s) = panicked s"
  "tx_empty (lockit l s) = tx_empty s" "tx_full (lockit l s) = tx_full s" "tx_head (lockit l s) = tx_head s"
  "tx_put c (lockit l s) = lockit l (tx_put c s)"
  "uart_sent (lockit l s) = lockit l (uart_sent s)"
  "(lockit l s)\<lparr>lsr_t := n\<rparr> = lockit l (s\<lparr>lsr_t := n\<rparr>)" "(lockit l s)\<lparr>uart_out := os\<rparr> = lockit l (s\<lparr>uart_out := os\<rparr>)"
  by (simp_all add: lockit_def tx_empty_def tx_full_def tx_head_def tx_put_def uart_sent_def)

lemma uart_frame [simp]:
  "settled (uart_sent s) = settled s" "proc_locks_free (uart_sent s) = proc_locks_free s" "lk_free l (uart_sent s) = lk_free l s"
  "settled (tx_put c s) = settled s" "proc_locks_free (tx_put c s) = proc_locks_free s" "lk_free l (tx_put c s) = lk_free l s"
  "settled (s\<lparr>lsr_t := n\<rparr>) = settled s" "proc_locks_free (s\<lparr>lsr_t := n\<rparr>) = proc_locks_free s"
  "lk_free l (s\<lparr>lsr_t := n\<rparr>) = lk_free l s" "tx_contents (s\<lparr>lsr_t := n\<rparr>) = tx_contents s" "tx_wf (s\<lparr>lsr_t := n\<rparr>) = tx_wf s"
  "panicked (uart_sent s) = panicked s" "panicked (tx_put c s) = panicked s"
  by (simp_all add: uart_sent_def tx_put_def settled_def lk_free_def proc_locks_free_def tx_contents_def tx_count_def tx_wf_def)

lemma uart_sent_contents:
  "tx_contents (uart_sent s) = tx_contents (tx_drop s)" "tx_wf (uart_sent s) = tx_wf (tx_drop s)"
  by (simp_all add: tx_contents_def tx_count_def tx_drop_def uart_sent_def tx_wf_def)

lemma uartstart_step:
  assumes "settled s" and "proc_locks_free s"
  shows "uartstart (lockit UartTxLock s) =
    (if tx_empty s then Inr ((), lockit UartTxLock s)
     else if \<not> tx_ready s 0 then Inr ((), lockit UartTxLock (s\<lparr>lsr_t := Suc (lsr_t s)\<rparr>))
     else uartstart (lockit UartTxLock (uart_sent s)))"
proof -
  let ?t = "(s\<lparr>lsr_t := Suc (lsr_t s)\<rparr>)\<lparr>uart_tx_r := Suc (uart_tx_r s) mod UART_TX_BUF_SIZE\<rparr>"
  have d: "tx_drop (lockit UartTxLock (s\<lparr>lsr_t := Suc (lsr_t s)\<rparr>)) = lockit UartTxLock ?t"
    by (simp add: tx_drop_def lockit_def)
  have "settled ?t" "proc_locks_free ?t" using assms by (simp_all add: settled_def proc_locks_free_def lk_free_def)
  then have w: "wakeup ChUartTx (lockit UartTxLock ?t) =
      Inr ((), lockit UartTxLock (?t\<lparr>procs := wake_table ChUartTx {..<NPROC} (procs ?t)\<rparr>))" by simp
  show ?thesis
    unfolding uartstart_def
    by (subst kloop_unfold) (simp add: kmon ReadLSR_def WriteReg_def tx_ready_def d w, simp add: uart_sent_def tx_head_def)
qed

lemma tx_taken_Suc:
  assumes "tx_contents s = c # q" and "tx_ready s 0" and "tx_contents (uart_sent s) = q"
  shows "tx_taken s = Suc (tx_taken (uart_sent s))"
proof -
  have "tx_ready (uart_sent s) i = tx_ready s (Suc i)" for i by (simp add: tx_ready_def uart_sent_def)
  then have "takeWhile (tx_ready s) (map Suc [0..<length q]) = map Suc (takeWhile (tx_ready (uart_sent s)) [0..<length q])"
    by (simp add: takeWhile_map comp_def cong: takeWhile_cong)
  moreover have "[0..<length (tx_contents s)] = 0 # map Suc [0..<length q]"
    using assms(1) by (simp add: map_Suc_upt upt_conv_Cons del: upt_Suc)
  ultimately show ?thesis using assms(2,3) by (simp add: tx_taken_def)
qed

lemma uartstart_sends:
  assumes "settled s" and "proc_locks_free s" and "tx_wf s"
  shows "\<exists>s'. uartstart (lockit UartTxLock s) = Inr ((), lockit UartTxLock s') \<and>
    settled s' \<and> tx_wf s' \<and> (\<forall>l. lk_free l s' = lk_free l s) \<and>
    uart_out s' = uart_out s @ map (Pair THR) (take (tx_taken s) (tx_contents s)) \<and>
    tx_contents s' = drop (tx_taken s) (tx_contents s)"
  using assms
proof (induction "tx_contents s" arbitrary: s)
  case Nil
  then have "tx_empty s" using txq.emp_iff by metis
  with Nil show ?case by (intro exI [of _ s]) (simp add: uartstart_step tx_taken_def)
next
  case (Cons c q)
  then have e: "\<not> tx_empty s" using txq.emp_iff by (metis list.distinct(1))
  note fr = txq.front_rest [OF Cons.prems(3) e]
  show ?case
  proof (cases "tx_ready s 0")
    case False
    moreover have "tx_taken s = 0" using False Cons.hyps(2) [symmetric] by (simp add: tx_taken_def upt_conv_Cons del: upt_Suc)
    ultimately show ?thesis using e Cons.prems
      by (intro exI [of _ "s\<lparr>lsr_t := Suc (lsr_t s)\<rparr>"]) (simp add: uartstart_step)
  next
    case True
    have q: "tx_contents (uart_sent s) = q" "tx_head s = c"
      using fr Cons.hyps(2) by (simp_all add: uart_sent_contents)
    have "tx_wf (uart_sent s)" using txq.rest_inv [OF Cons.prems(3) e] by (simp add: uart_sent_contents)
    with Cons.hyps(1) [of "uart_sent s"] q(1) Cons.prems obtain s' where
      s': "uartstart (lockit UartTxLock (uart_sent s)) = Inr ((), lockit UartTxLock s')" "settled s'" "tx_wf s'"
        "\<forall>l. lk_free l s' = lk_free l s"
        "uart_out s' = uart_out (uart_sent s) @ map (Pair THR) (take (tx_taken (uart_sent s)) q)"
        "tx_contents s' = drop (tx_taken (uart_sent s)) q" by auto
    have "uart_out (uart_sent s) = uart_out s @ [(THR, c)]" using q(2) by (simp add: uart_sent_def)
    then show ?thesis using s' True e Cons.prems tx_taken_Suc [OF Cons.hyps(2) [symmetric] True q(1)]
      by (intro exI [of _ s']) (simp add: uartstart_step flip: Cons.hyps(2))
  qed
qed

text \<open>C32: uartputc on a buffer with room never loses or reorders output: the byte joins the end of
  what has been sent or is still buffered; the bytes handed to the device are exactly those
  before its first busy answer, in order; the buffer stays well formed and the lock is free again.
  On a full buffer the caller goes to sleep on the buffer, with the byte not yet taken.
\<close>

theorem uartputc_in_order:
  assumes "settled s" and "proc_locks_free s" and "lk_free UartTxLock s" and "tx_wf s" and "\<not> panicked s"
  shows "if tx_full s then
      uartputc sw c s = kseq (sleep sw ChUartTx UartTxLock) (kloop (
         kbind (kget tx_full) (\<lambda>full. if full then kseq (sleep sw ChUartTx UartTxLock) (kret None)
           else kseq (kmod (tx_put c)) (kseq uartstart (kseq (release UartTxLock) (kret (Some ()))))))) (lockit UartTxLock s)
    else \<exists>s'. uartputc sw c s = Inr ((), s') \<and> settled s' \<and> lk_free UartTxLock s' \<and> tx_wf s' \<and>
      tx_stream s' = tx_stream s @ [(THR, c)] \<and>
      uart_out s' = uart_out s @ map (Pair THR) (take (tx_taken (tx_put c s)) (tx_contents s @ [c]))"
proof (cases "tx_full s")
  case True
  then show ?thesis using assms unfolding uartputc_def
    by (simp add: kmon) (subst kloop_unfold, simp add: kmon split: sum.splits prod.splits)
next
  case False
  let ?u = "tx_put c s"
  have c: "tx_contents ?u = tx_contents s @ [c]" and wf: "tx_wf ?u"
    using txq.put_contents [OF assms(4) False] txq.put_inv [OF assms(4) False] by simp_all
  from uartstart_sends [of ?u] assms wf obtain s' where
    s': "uartstart (lockit UartTxLock ?u) = Inr ((), lockit UartTxLock s')" "settled s'" "tx_wf s'"
      "lk_free UartTxLock s'" "uart_out s' = uart_out ?u @ map (Pair THR) (take (tx_taken ?u) (tx_contents s @ [c]))"
      "tx_contents s' = drop (tx_taken ?u) (tx_contents s @ [c])" by (auto simp: c)
  have o: "uart_out ?u = uart_out s" by (simp add: tx_put_def)
  have "uartputc sw c s = Inr ((), s')"
    using assms s'(1,2,4) False unfolding uartputc_def by (simp add: kmon) (subst kloop_unfold, simp add: kmon)
  moreover have "tx_stream s' = tx_stream s @ [(THR, c)]"
    unfolding tx_stream_def s'(5,6) o append.assoc map_append [symmetric] append_take_drop_id by simp
  ultimately show ?thesis using s' False o by (intro if_not_P [THEN iffD2]) auto
qed

lemma demo_kcons_uart [simp]:
  "uart_tx_buf demo_kcons = replicate 32 0" "uart_tx_w demo_kcons = 0" "uart_tx_r demo_kcons = 0"
  "uart_out demo_kcons = []" "panicked demo_kcons = False" "lsr_t demo_kcons = 0"
  "lsr_in demo_kcons = (\<lambda>i. if i = 0 then LSR_TX_IDLE else 0)"
  by (simp_all add: demo_kcons_def demo_klog_def demo_kdisk_def demo_kproc_def)

theorem uartputc_in_order_witness:
  "\<exists>s'. uartputc (kret ()) 65 demo_kcons = Inr ((), s') \<and> tx_wf s' \<and> tx_stream s' = [(THR, 65)]"
proof -
  have "tx_wf demo_kcons" "tx_stream demo_kcons = []" "\<not> tx_full demo_kcons"
    by (simp_all add: tx_wf_def UART_TX_BUF_SIZE_def tx_stream_def tx_contents_def tx_count_def tx_full_def)
  then show ?thesis using uartputc_in_order [of demo_kcons "kret ()" 65] by auto
qed

end
