(* ===== verification/Dll.thy ===== *)
theory Dll
  imports Xv6_Prelude
begin

text \<open>
  Circular doubly linked lists. The buffer caches of kernel/bio.c link their buffers through prev and
  next pointers, with a node of its own as the head of each list. A ring is related to the list
  of the buffers it represents, and linking at the front and unlinking become
  operations on that list. The nodes are a parameter of the locale dll: the cache of lab 2 has one
  head, the cache of lab 3 one for each bucket.
\<close>

fun chain :: "(nat \<Rightarrow> 'n) \<Rightarrow> ('n \<Rightarrow> 'n) \<Rightarrow> 'n \<Rightarrow> nat list \<Rightarrow> 'n \<Rightarrow> bool" where
  "chain node f a [] c = (f a = c)"
| "chain node f a (b # bs) c = (f a = node b \<and> chain node f (node b) bs c)"

definition ring :: "(nat \<Rightarrow> 'n) \<Rightarrow> 'n \<Rightarrow> ('n \<Rightarrow> 'n) \<Rightarrow> ('n \<Rightarrow> 'n) \<Rightarrow> nat list \<Rightarrow> bool" where
  "ring node h nx pv bs \<longleftrightarrow> distinct bs \<and> chain node nx h bs h \<and> chain node pv h (rev bs) h"

lemma chain_append: "chain node f a (xs @ b # ys) c \<longleftrightarrow> chain node f a xs (node b) \<and> chain node f (node b) ys c"
  by (induction xs arbitrary: a) auto

lemma chain_cong:
  "f a = g a \<Longrightarrow> (\<forall>b \<in> set bs. f (node b) = g (node b)) \<Longrightarrow> chain node f a bs c = chain node g a bs c"
  by (induction bs arbitrary: a) auto

lemma chain_upd_other:
  "n \<noteq> a \<Longrightarrow> n \<notin> node ` set bs \<Longrightarrow> chain node (f(n := v)) a bs c = chain node f a bs c"
  by (rule chain_cong) auto

lemma ring_hd: "ring node h nx pv bs \<Longrightarrow> nx h = (if bs = [] then h else node (hd bs))"
  by (cases bs) (auto simp: ring_def)

lemma ring_last: "ring node h nx pv bs \<Longrightarrow> pv h = (if bs = [] then h else node (last bs))"
  by (cases bs rule: rev_cases) (auto simp: ring_def)

lemma ring_upd:
  assumes "a \<noteq> h" and "a \<notin> node ` set bs"
  shows "ring node h (nx(a := v)) pv bs = ring node h nx pv bs" and "ring node h nx (pv(a := v)) bs = ring node h nx pv bs"
  using assms by (simp_all add: ring_def chain_upd_other)

locale dll =
  fixes node :: "nat \<Rightarrow> 'n" and heads :: "'n set"
  assumes node_eq: "node i = node j \<longleftrightarrow> i = j" and node_head: "node i \<notin> heads"
begin

lemma node_image: "node b \<in> node ` S \<longleftrightarrow> b \<in> S" and head_image: "h \<in> heads \<Longrightarrow> h \<notin> node ` S"
  using node_eq node_head by auto

text \<open>Redirecting the last link of a chain.\<close>

lemma chain_last:
  "distinct bs \<Longrightarrow> a \<notin> node ` set bs \<Longrightarrow> chain node f a bs c \<Longrightarrow>
   chain node (f((if bs = [] then a else node (last bs)) := d)) a bs d"
proof (induction bs arbitrary: a)
  case (Cons b bs)
  have "chain node (f((if bs = [] then node b else node (last bs)) := d)) (node b) bs d"
  proof (rule Cons.IH)
    show "distinct bs" "node b \<notin> node ` set bs" "chain node f (node b) bs c" using Cons.prems node_image by auto
  qed
  moreover have "a \<noteq> (if bs = [] then node b else node (last bs))" using Cons.prems(2) by auto
  then have "(f((if bs = [] then node b else node (last bs)) := d)) a = node b" using Cons.prems(3) by simp
  moreover have "(if b # bs = [] then a else node (last (b # bs))) = (if bs = [] then node b else node (last bs))" by simp
  ultimately show ?case by (simp only: chain.simps(2) simp_thms)
qed auto

lemma link_ring:
  assumes r: "ring node h nx pv bs" and b: "b \<notin> set bs" and h: "h \<in> heads"
  shows "ring node h (nx(node b := nx h, h := node b)) (pv(node b := h, nx h := node b)) (b # bs)"
proof -
  have d: "distinct bs" and n: "chain node nx h bs h" and p: "chain node pv h (rev bs) h" using r by (auto simp: ring_def)
  have nh: "node i \<noteq> h" for i using h node_head by blast
  have bn: "node b \<notin> node ` set bs" using b by (simp add: node_image)
  have "chain node (nx(node b := nx h, h := node b)) h (b # bs) h"
  proof (cases bs)
    case (Cons c cs)
    have "chain node (nx(node b := node c, h := node b)) (node c) cs h"
      using n b Cons nh node_eq head_image [OF h] node_image by (intro chain_upd_other [THEN iffD2]) auto
    then show ?thesis using n Cons nh by simp
  qed (use n nh in simp)
  moreover have "chain node (pv(node b := h, nx h := node b)) h (rev bs @ [b]) h"
  proof -
    have "nx h = (if bs = [] then h else node (last (rev bs)))" using ring_hd [OF r] by (simp add: last_rev)
    moreover have "chain node (pv(node b := h)) h (rev bs) h" using p bn nh by (subst chain_upd_other) auto
    ultimately have "chain node (pv(node b := h, nx h := node b)) h (rev bs) (node b)"
      using chain_last [of "rev bs" h "pv(node b := h)" h "node b"] d head_image [OF h] by simp
    moreover have "nx h \<noteq> node b" using ring_hd [OF r] b nh node_eq by (cases bs) auto
    ultimately show ?thesis by (simp add: chain_append)
  qed
  ultimately show ?thesis using d b by (simp add: ring_def)
qed

lemma chain_cut:
  assumes "distinct (xs @ b # ys)" and "chain node f h (xs @ b # ys) h" and h: "h \<in> heads"
  shows "chain node (f((if xs = [] then h else node (last xs)) := f (node b))) h (xs @ ys) h"
proof -
  let ?l = "if xs = [] then h else node (last xs)"
  have b: "chain node f h xs (node b)" "chain node f (node b) ys h" using assms(2) by (auto simp: chain_append)
  have l: "chain node (f(?l := f (node b))) h xs (f (node b))"
    using chain_last [OF _ _ b(1)] assms(1) head_image [OF h] by simp
  show ?thesis
  proof (cases ys)
    case Nil
    then show ?thesis using l b(2) by simp
  next
    case (Cons c cs)
    have "?l \<notin> node ` set ys" using assms(1) last_in_set [of xs] head_image [OF h] node_image by (auto simp: disjoint_iff)
    then have "chain node (f(?l := f (node b))) (node c) cs h" using b(2) Cons by (subst chain_upd_other) auto
    then show ?thesis using l b(2) Cons by (simp add: chain_append)
  qed
qed

lemma chain_neighbour:
  "chain node f h (rev (xs @ b # ys)) h \<Longrightarrow> f (node b) = (if xs = [] then h else node (last xs))"
  by (cases xs rule: rev_cases) (auto simp: chain_append)

lemma unlink_ring:
  assumes r: "ring node h nx pv bs" and b: "b \<in> set bs" and h: "h \<in> heads"
  shows "ring node h (nx(pv (node b) := nx (node b))) (pv(nx (node b) := pv (node b))) (remove1 b bs)"
    and "nx (node b) \<noteq> node b" and "pv (node b) = h \<or> pv (node b) \<in> node ` set bs" and "nx (node b) = h \<or> nx (node b) \<in> node ` set bs"
proof -
  obtain xs ys where bs: "bs = xs @ b # ys" using b by (meson split_list)
  have d: "distinct (xs @ b # ys)" and n: "chain node nx h (xs @ b # ys) h" and p: "chain node pv h (rev (xs @ b # ys)) h"
    using r by (auto simp: ring_def bs)
  have p1: "pv (node b) = (if xs = [] then h else node (last xs))" by (rule chain_neighbour [OF p])
  have n1: "nx (node b) = (if ys = [] then h else node (hd ys))" using n by (cases ys) (auto simp: chain_append)
  show "nx (node b) \<noteq> node b" using n1 d h node_head node_eq by (cases ys) auto
  show "pv (node b) = h \<or> pv (node b) \<in> node ` set bs" "nx (node b) = h \<or> nx (node b) \<in> node ` set bs"
    unfolding p1 n1 bs by (auto simp: image_iff)
  have "chain node (nx(pv (node b) := nx (node b))) h (xs @ ys) h" unfolding p1 using chain_cut [OF d n h] by simp
  moreover have "chain node (pv(nx (node b) := pv (node b))) h (rev (xs @ ys)) h"
    unfolding n1 using chain_cut [of "rev ys" b "rev xs" pv h] d p h by (auto simp: last_rev Int_commute)
  moreover have "remove1 b bs = xs @ ys" using d by (simp add: bs remove1_append)
  ultimately show "ring node h (nx(pv (node b) := nx (node b))) (pv(nx (node b) := pv (node b))) (remove1 b bs)"
    using d by (simp add: ring_def)
qed

end

end
