(* ===== verification/Bio_List.thy ===== *)
theory Bio_List
  imports Demo_Kernel Dll
begin

text \<open>
  The list of the buffer cache. The prev and next pointers of kernel/bio.c are related to the list
  of buffers they represent, most recently used first; linking, unlinking and
  scanning are the corresponding operations on that list.
\<close>

section \<open>The list that the pointers represent\<close>

interpretation bl: dll Buf "{Head}"
  by unfold_locales simp_all

definition lru :: "'a kbio_scheme \<Rightarrow> nat list \<Rightarrow> bool" where
  "lru s bs \<longleftrightarrow> distinct bs \<and> chain Buf (bnext s) Head bs Head \<and> chain Buf (bprev s) Head (rev bs) Head"

lemma lru_ring: "lru s bs \<longleftrightarrow> ring Buf Head (bnext s) (bprev s) bs"
  by (simp add: lru_def ring_def)

lemma lru_distinct: "lru s bs \<Longrightarrow> distinct bs"
  by (simp add: lru_def)

section \<open>Linking and unlinking\<close>

lemma link_front_eq:
  "bnext (link_front b s) = (bnext s)(b := bnext s Head, Head := b)"
  "b \<noteq> Head \<Longrightarrow> bprev (link_front b s) = (bprev s)(b := Head, bnext s Head := b)"
  by (simp_all add: link_front_def Let_def set_next_def set_prev_def)

lemma link_front_lru: "lru s bs \<Longrightarrow> b \<notin> set bs \<Longrightarrow> lru (link_front (Buf b) s) (b # bs)"
  unfolding lru_ring link_front_eq(1) link_front_eq(2) [OF bnode.distinct(2)] by (rule bl.link_ring) simp_all

lemma unlink_lru:
  assumes "lru s bs" and "b \<in> set bs"
  shows "lru (unlink (Buf b) s) (remove1 b bs)"
proof -
  note u = bl.unlink_ring [OF assms(1) [unfolded lru_ring] assms(2) singletonI]
  have "bnext (unlink (Buf b) s) = (bnext s)(bprev s (Buf b) := bnext s (Buf b))"
    "bprev (unlink (Buf b) s) = (bprev s)(bnext s (Buf b) := bprev s (Buf b))"
    using u(2) by (simp_all add: unlink_def Let_def set_next_def set_prev_def)
  then show ?thesis unfolding lru_ring using u(1) by simp
qed

section \<open>Scanning\<close>

lemma bscan_chain:
  assumes "chain Buf (link s) a bs Head"
  shows "bscan link test (link s a) s = Inr (find (\<lambda>b. test (bufs s b)) bs, s)"
  using assms
proof (induction bs arbitrary: a)
  case Nil
  then show ?case unfolding bscan_def by (subst kiter_unfold) (simp add: kret_def)
next
  case (Cons b bs)
  then have "bscan link test (link s (Buf b)) s = Inr (find (\<lambda>b. test (bufs s b)) bs, s)" by simp
  then show ?case using Cons.prems unfolding bscan_def by (subst kiter_unfold) (simp add: kmon)
qed

lemma bscan_next: "lru s bs \<Longrightarrow> bscan bnext test (bnext s Head) s = Inr (find (\<lambda>b. test (bufs s b)) bs, s)"
  using bscan_chain [of bnext s Head bs test] by (simp add: lru_def)

lemma bscan_prev: "lru s bs \<Longrightarrow> bscan bprev test (bprev s Head) s = Inr (find (\<lambda>b. test (bufs s b)) (rev bs), s)"
  using bscan_chain [of bprev s Head "rev bs" test] by (simp add: lru_def)

end
