(* ===== verification/Sleeplock_Facts.thy ===== *)
theory Sleeplock_Facts
  imports Sleeplock Proc_Sync
begin

text \<open>
  What the operations on sleep locks do when a process runs them outside any critical section.
  A kernel thread is idle in this sense when it belongs to a process, runs with the
  interrupt bookkeeping settled, and no spin lock is held.
\<close>

definition idle :: "nat \<Rightarrow> 'a kproc_scheme \<Rightarrow> bool" where
  "idle p s \<longleftrightarrow> settled s \<and> noff (cur_cpu s) = 0 \<and> cpu_proc (cur_cpu s) = Some p \<and> p < NPROC \<and> (\<forall>l. lk_free l s)"

lemma idleD:
  "idle p s \<Longrightarrow> settled s" "idle p s \<Longrightarrow> lk_free l s" "idle p s \<Longrightarrow> proc_locks_free s"
  "idle p s \<Longrightarrow> cpu_proc (cur_cpu s) = Some p" "idle p s \<Longrightarrow> p < NPROC" "idle p s \<Longrightarrow> noff (cur_cpu s) = 0"
  by (simp_all add: idle_def proc_locks_free_def)

lemma idle_procs [simp]: "idle p (s\<lparr>procs := f\<rparr>) = idle p s"
  by (simp add: idle_def)

lemma idle_slocks [simp]:
  "idle p (s\<lparr>slocks := f\<rparr>) = idle p s" "settled (s\<lparr>slocks := f\<rparr>) = settled s" "lk_free l (s\<lparr>slocks := f\<rparr>) = lk_free l s"
  "proc_locks_free (s\<lparr>slocks := f\<rparr>) = proc_locks_free s"
  by (simp_all add: idle_def settled_def lk_free_def proc_locks_free_def)

lemma lockit_slocks [simp]:
  "slocks (lockit l s) = slocks s" "(lockit l s)\<lparr>slocks := f\<rparr> = lockit l (s\<lparr>slocks := f\<rparr>)"
  by (simp_all add: lockit_def)

lemma curproc_lockit: "idle p s \<Longrightarrow> curproc (lockit l s) = Inr (p, lockit l s)"
  by (rule curproc_eq) (auto simp: lockit_def settled_def idle_def)

section \<open>Waking leaves identities alone\<close>

lemma wake_table_fields [simp]:
  "p_pid (wake_table ch P t q) = p_pid (t q)" "p_kstack (wake_table ch P t q) = p_kstack (t q)"
  "p_sz (wake_table ch P t q) = p_sz (t q)" "p_pagetable (wake_table ch P t q) = p_pagetable (t q)"
  "p_killed (wake_table ch P t q) = p_killed (t q)"
  by (simp_all add: wake_table_def woken_def)

section \<open>The operations\<close>

definition sl_taken :: "sleep_id \<Rightarrow> nat \<Rightarrow> 'a ksleep_scheme \<Rightarrow> 'a ksleep_scheme" where
  "sl_taken lk p s = s\<lparr>slocks := (slocks s)(lk := (slocks s lk)\<lparr>sl_locked := True, sl_pid := p_pid (procs s p)\<rparr>)\<rparr>"

definition sl_given :: "sleep_id \<Rightarrow> 'a ksleep_scheme \<Rightarrow> 'a ksleep_scheme" where
  "sl_given lk s = s\<lparr>slocks := (slocks s)(lk := (slocks s lk)\<lparr>sl_locked := False, sl_pid := 0\<rparr>),
     procs := wake_table (ChSleep lk) {..<NPROC} (procs s)\<rparr>"

definition sl_mine :: "sleep_id \<Rightarrow> nat \<Rightarrow> 'a ksleep_scheme \<Rightarrow> bool" where
  "sl_mine lk p s \<longleftrightarrow> sl_locked (slocks s lk) \<and> sl_pid (slocks s lk) = p_pid (procs s p)"

lemma idle_sl [simp]: "idle q (sl_taken lk p s) = idle q s" "idle q (sl_given lk s) = idle q s"
  by (simp_all add: sl_taken_def sl_given_def)

lemma acquiresleep_free:
  assumes "idle p s" and "\<not> sl_locked (slocks s lk)"
  shows "acquiresleep sw lk s = Inr ((), sl_taken lk p s)"
proof -
  let ?t = "s\<lparr>slocks := (slocks s)(lk := (slocks s lk)\<lparr>sl_locked := True\<rparr>)\<rparr>"
  have c: "curproc (lockit (InnerLock lk) ?t) = Inr (p, lockit (InnerLock lk) ?t)"
    using assms(1) by (intro curproc_lockit) simp
  have l: "kloop (kbind (kget (\<lambda>s. sl_locked (slocks s lk))) (\<lambda>l.
       if l then kseq (sleep sw (ChSleep lk) (InnerLock lk)) (kret None) else kret (Some ()))) (lockit (InnerLock lk) s)
     = Inr ((), lockit (InnerLock lk) s)"
    using assms(2) by (subst kloop_unfold) (simp add: kmon)
  show ?thesis
    unfolding acquiresleep_def
    using idleD [OF assms(1)] l c by (simp add: kmon upd_slock_def proc_eqs sl_taken_def)
qed

lemma acquiresleep_held:
  assumes "idle p s" and "sl_locked (slocks s lk)"
  shows "acquiresleep sw lk s = kseq (sleep sw (ChSleep lk) (InnerLock lk)) (
     kseq (kloop (kbind (kget (\<lambda>s. sl_locked (slocks s lk))) (\<lambda>l.
       if l then kseq (sleep sw (ChSleep lk) (InnerLock lk)) (kret None) else kret (Some ())))) (
     kseq (upd_slock lk (\<lambda>k. k\<lparr>sl_locked := True\<rparr>)) (
     kbind curproc (\<lambda>p. kbind (get_proc p p_pid) (\<lambda>pid.
     kseq (upd_slock lk (\<lambda>k. k\<lparr>sl_pid := pid\<rparr>)) (release (InnerLock lk))))))) (lockit (InnerLock lk) s)"
  using idleD [OF assms(1)] assms(2) unfolding acquiresleep_def
  by (simp add: kmon) (subst kloop_unfold, simp add: kmon split: sum.splits prod.splits)

lemma releasesleep_eq:
  assumes "idle p s"
  shows "releasesleep lk s = Inr ((), sl_given lk s)"
  using idleD [OF assms] by (simp add: releasesleep_def kmon upd_slock_def sl_given_def)

lemma holdingsleep_eq:
  assumes "idle p s"
  shows "holdingsleep lk s = Inr (sl_mine lk p s, s)"
  using idleD [OF assms] by (simp add: holdingsleep_def kmon curproc_lockit [OF assms] proc_eqs sl_mine_def)

lemma holdingsleep_taken: "idle p s \<Longrightarrow> sl_mine lk p (sl_taken lk p s)"
  by (simp add: sl_mine_def sl_taken_def)

end
