(* ===== verification/Disk_Rw.thy ===== *)
theory Disk_Rw
  imports Demo_Kernel Sleeplock_Facts
begin

text \<open>
  Disk requests from end to end. A process posts a request and sleeps; the disk carries it out;
  the interrupt handler wakes the process up. The disk is hardware: it holds the
  contents of the blocks, takes the request that was made available last, moves one block
  between the disk and the buffer of the request, and puts the request on the used ring.
  The states that the disk has gone through are kept, newest first: a crash leaves
  one of them behind.
\<close>

type_synonym disk = "u32 \<Rightarrow> u8 list"

type_synonym kdk = "disk list klog_scheme"

abbreviation disk_now :: "kdk \<Rightarrow> disk" where
  "disk_now s \<equiv> hd (klog.more s)"

section \<open>The device\<close>

text \<open>
  The device follows the virtio specification for block devices. It looks at the available ring
  when the driver has notified queue 0. A request is a chain of three descriptors: a header of
  16 bytes that the device only reads, the data, and one byte for the status that the device
  may write. The data descriptor must be writable for the device when the request reads the
  disk and not writable when it writes it; as many bytes move as its length says, from the
  512-byte sector of the header on. The device writes status 0 after a transfer and 2 for a
  request type it does not know, and puts the request on the used ring. A chain of another
  shape is not completed. A request of the model stays within one block of BSIZE bytes.
\<close>

definition has_flag :: "u16 \<Rightarrow> VRingDesc \<Rightarrow> bool" where
  "has_flag f d \<longleftrightarrow> vd_flags d AND f \<noteq> 0"

text \<open>n bytes of new replace those of old from offset off on; both hold BSIZE bytes.\<close>

definition splice :: "nat \<Rightarrow> nat \<Rightarrow> u8 list \<Rightarrow> u8 list \<Rightarrow> u8 list" where
  "splice off n new old =
     (if off = 0 \<and> n = BSIZE then new else take off old @ take n new @ drop (off + n) old)"

definition dev_read :: "nat \<Rightarrow> nat \<Rightarrow> u8 list \<Rightarrow> u8 list \<Rightarrow> u8 list" where
  "dev_read off n blk data =
     (if off = 0 \<and> n = BSIZE then blk else take n (drop off blk) @ drop n data)"

definition dev_notified :: "kdk \<Rightarrow> bool" where
  "dev_notified s \<longleftrightarrow> vio_out s \<noteq> [] \<and> last (vio_out s) = (VIRTIO_MMIO_QUEUE_NOTIFY, 0)"

definition chain_ok :: "VRingDesc \<Rightarrow> VRingDesc \<Rightarrow> VRingDesc \<Rightarrow> bool" where
  "chain_ok h d st \<longleftrightarrow>
     vd_len h = 16 \<and> \<not> has_flag VRING_DESC_F_WRITE h \<and> has_flag VRING_DESC_F_NEXT h \<and>
     has_flag VRING_DESC_F_NEXT d \<and>
     1 \<le> vd_len st \<and> has_flag VRING_DESC_F_WRITE st \<and> \<not> has_flag VRING_DESC_F_NEXT st"

text \<open>The transfer and the status it ends with, or None when the request is not completed.\<close>

definition dev_transfer :: "virtio_blk_outhdr \<Rightarrow> VRingDesc \<Rightarrow> nat \<Rightarrow> kdk \<Rightarrow> (u8 \<times> kdk) option" where
  "dev_transfer h d b s =
     (let blk = (ucast (hdr_sector h div 2) :: u32);
          off = 512 * unat (hdr_sector h mod 2);
          n = unat (vd_len d) in
      if hdr_type h = VIRTIO_BLK_T_OUT then
        if has_flag VRING_DESC_F_WRITE d \<or> off + n > BSIZE then None
        else Some (0, s\<lparr>klog.more :=
          (disk_now s)(blk := splice off n (b_data (bufs s b)) (disk_now s blk)) # klog.more s\<rparr>)
      else if hdr_type h = VIRTIO_BLK_T_IN then
        if \<not> has_flag VRING_DESC_F_WRITE d \<or> off + n > BSIZE then None
        else Some (0, s\<lparr>bufs := (bufs s)(b := (bufs s b)\<lparr>b_data :=
          dev_read off n (disk_now s blk) (b_data (bufs s b))\<rparr>)\<rparr>)
      else Some (2, s))"

definition device :: "kdk \<Rightarrow> kdk" where
  "device s =
     (let d = vdk s;
          i = unat (v_avail d (unat (v_avail_idx d - 1) mod NUM));
          d0 = v_desc d i;
          d1 = v_desc d (unat (vd_next d0));
          d2 = v_desc d (unat (vd_next d1)) in
      if dev_notified s \<and> chain_ok d0 d1 d2 then
        (case (vd_addr d0, vd_addr d1, vd_addr d2) of
           (VHdr pa, VData b, VStatus k) \<Rightarrow>
             (case dev_transfer (hdrs s pa) d1 b s of
                None \<Rightarrow> s
              | Some (st, s1) \<Rightarrow>
                  s1\<lparr>vdk := d\<lparr>v_info := (v_info d)(k := (v_info d k)\<lparr>info_status := st\<rparr>),
                    v_used_elems := (v_used_elems d)(unat (v_used_id d) mod NUM := of_nat i),
                    v_used_id := v_used_id d + 1\<rparr>\<rparr>)
         | _ \<Rightarrow> s)
      else s)"

text \<open>
  What happens between the moment a process p gives up its hart for a request and the moment it
  runs again: the scheduler releases its lock, the disk completes the request, the interrupt
  handler runs, and the scheduler picks the process again.
\<close>

definition disk_switch :: "nat \<Rightarrow> (kdk, unit) km" where
  "disk_switch p =
     kseq (release (ProcLock p)) (
     kseq (kmod device) (
     kseq virtio_disk_intr (
     kseq (acquire (ProcLock p)) (
     upd_proc p (\<lambda>q. if p_state q = RUNNABLE then q\<lparr>p_state := RUNNING\<rparr> else q)))))"

text \<open>A context switch that behaves like that for a process that waits for a buffer.\<close>

definition serves :: "(kdk, unit) km \<Rightarrow> nat \<Rightarrow> bool" where
  "serves sw p \<longleftrightarrow>
     (\<forall>u b. p_state (procs u p) = SLEEPING \<and> p_chan (procs u p) = Some (ChBuf b) \<longrightarrow> sw u = disk_switch p u)"

section \<open>Frame lemmas\<close>

lemma lockit_disk [simp]:
  "bufs (lockit l s) = bufs s" "vdk (lockit l s) = vdk s" "vio_in (lockit l s) = vio_in s" "vio_out (lockit l s) = vio_out s"
  "(lockit l s)\<lparr>bufs := f\<rparr> = lockit l (s\<lparr>bufs := f\<rparr>)" "(lockit l s)\<lparr>vdk := d\<rparr> = lockit l (s\<lparr>vdk := d\<rparr>)"
  "(lockit l s)\<lparr>vio_out := os\<rparr> = lockit l (s\<lparr>vio_out := os\<rparr>)"
  "hdrs (lockit l s) = hdrs s" "buf0_va (lockit l s) = buf0_va s"
  "(lockit l s)\<lparr>hdrs := h\<rparr> = lockit l (s\<lparr>hdrs := h\<rparr>)"
  by (simp_all add: lockit_def)

lemma idle_disk [simp]:
  "idle p (s\<lparr>bufs := f\<rparr>) = idle p s" "idle p (s\<lparr>vdk := d\<rparr>) = idle p s" "idle p (s\<lparr>vio_out := os\<rparr>) = idle p s"
  "idle p (s\<lparr>hdrs := h\<rparr>) = idle p s"
  by (simp_all add: idle_def settled_def lk_free_def)

lemma idle_more [simp]: "idle p (s\<lparr>klog.more := x\<rparr>) = idle p s"
  by (simp add: idle_def settled_def lk_free_def)

section \<open>Descriptors\<close>

lemma NUM_8: "NUM = 8" by (simp add: NUM_def)

definition all_free :: "'a kdisk_scheme \<Rightarrow> bool" where
  "all_free s \<longleftrightarrow> (\<forall>i < NUM. v_free (vdk s) i)"

definition claim3 :: "'a kdisk_scheme \<Rightarrow> 'a kdisk_scheme" where
  "claim3 s = s\<lparr>vdk := (vdk s)\<lparr>v_free := (v_free (vdk s))(0 := False, Suc 0 := False, 2 := False)\<rparr>\<rparr>"

lemma alloc_desc_eq:
  "alloc_desc s = (case find (v_free (vdk s)) [0..<NUM] of None \<Rightarrow> Inr (- 1, s)
     | Some i \<Rightarrow> Inr (int i, s\<lparr>vdk := (vdk s)\<lparr>v_free := (v_free (vdk s))(i := False)\<rparr>\<rparr>))"
proof -
  have "kfind is (\<lambda>i. kbind (kget (\<lambda>s. v_free (vdk s) i)) (\<lambda>fr.
       if fr then kseq (upd_vdk (\<lambda>d. d\<lparr>v_free := (v_free d)(i := False)\<rparr>)) (kret (Some (int i))) else kret None)) s
    = (case find (v_free (vdk s)) is of None \<Rightarrow> Inr (None, s)
       | Some i \<Rightarrow> Inr (Some (int i), s\<lparr>vdk := (vdk s)\<lparr>v_free := (v_free (vdk s))(i := False)\<rparr>\<rparr>))" for "is"
    by (induction "is") (simp_all add: kmon upd_vdk_def)
  then show ?thesis unfolding alloc_desc_def by (simp add: kmon split: option.splits)
qed

lemma alloc3_all_free:
  assumes "all_free s"
  shows "alloc3_desc s = Inr (Some (0, Suc 0, 2), claim3 s)"
proof -
  have f: "v_free (vdk s) 0" "v_free (vdk s) (Suc 0)" "v_free (vdk s) 2" using assms by (simp_all add: all_free_def NUM_8)
  have u: "[0..<8] = [0, Suc 0, 2, 3, 4, 5, 6, 7]" by (simp add: upt_rec)
  show ?thesis
    by (simp add: alloc3_desc_def alloc_desc_eq kmon NUM_8 u f claim3_def)
qed

section \<open>Posting a request\<close>

text \<open>The kernel stack of the process is mapped and writable, so the header has a physical address.\<close>

definition kva_mapped :: "memory \<Rightarrow> u64 \<Rightarrow> u64 \<Rightarrow> bool" where
  "kva_mapped m root va \<longleftrightarrow> va < MAXVA \<and> (case tnode m root (idx va) of None \<Rightarrow> False
     | Some q \<Rightarrow> pte_addr q (PX 0 va) \<noteq> 0 \<and> valid (load64 m (pte_addr q (PX 0 va))) \<and>
         load64 m (pte_addr q (PX 0 va)) AND PTE_W \<noteq> 0)"

definition kva_pa :: "memory \<Rightarrow> u64 \<Rightarrow> u64 \<Rightarrow> u64" where
  "kva_pa m root va = PTE2PA (leaf m root va) + va mod PGSIZE"

lemma kva_translated:
  assumes "kva_mapped (mem s) (kernel_pagetable s) va"
  shows "kvmpa va s = Inr (kva_pa (mem s) (kernel_pagetable s) va, s)"
    "mmu (mem s) (kernel_pagetable s) va = Some (kva_pa (mem s) (kernel_pagetable s) va)"
proof -
  obtain q where q: "va < MAXVA" "tnode (mem s) (kernel_pagetable s) (idx va) = Some q" "pte_addr q (PX 0 va) \<noteq> 0"
    "valid (load64 (mem s) (pte_addr q (PX 0 va)))" "load64 (mem s) (pte_addr q (PX 0 va)) AND PTE_W \<noteq> 0"
    using assms by (auto simp: kva_mapped_def split: option.splits)
  then have l: "leaf (mem s) (kernel_pagetable s) va = load64 (mem s) (pte_addr q (PX 0 va))" by (simp add: leaf_def pte_at_def)
  show "kvmpa va s = Inr (kva_pa (mem s) (kernel_pagetable s) va, s)"
    using q l by (simp add: kvmpa_def kmon walk_noalloc kva_pa_def)
  show "mmu (mem s) (kernel_pagetable s) va = Some (kva_pa (mem s) (kernel_pagetable s) va)"
    using q l by (simp add: mmu_def kva_pa_def)
qed

definition sector_of :: "u32 \<Rightarrow> u64" where
  "sector_of blockno = ucast (blockno * of_nat (BSIZE div 512))"

definition posted :: "nat \<Rightarrow> u64 \<Rightarrow> bool \<Rightarrow> 'a kdisk_scheme \<Rightarrow> 'a kdisk_scheme" where
  "posted b pa write s = s\<lparr>
     hdrs := (hdrs s)(pa := \<lparr>hdr_type = (if write then VIRTIO_BLK_T_OUT else VIRTIO_BLK_T_IN), hdr_reserved = 0,
       hdr_sector = sector_of (b_blockno (bufs s b))\<rparr>),
     bufs := (bufs s)(b := (bufs s b)\<lparr>b_disk := True\<rparr>),
     vdk := (vdk s)\<lparr>
       v_desc := (v_desc (vdk s))(
         0 := \<lparr>vd_addr = VHdr pa, vd_len = 16, vd_flags = VRING_DESC_F_NEXT, vd_next = 1\<rparr>,
         Suc 0 := \<lparr>vd_addr = VData b, vd_len = of_nat BSIZE,
               vd_flags = (if write then 0 else VRING_DESC_F_WRITE) OR VRING_DESC_F_NEXT, vd_next = 2\<rparr>,
         2 := \<lparr>vd_addr = VStatus 0, vd_len = 1, vd_flags = VRING_DESC_F_WRITE, vd_next = 0\<rparr>),
       v_info := (v_info (vdk s))(0 := (v_info (vdk s) 0)\<lparr>info_status := 0, info_b := Some b\<rparr>),
       v_avail := (v_avail (vdk s))(unat (v_avail_idx (vdk s)) mod NUM := 0),
       v_avail_idx := v_avail_idx (vdk s) + 1\<rparr>,
     vio_out := vio_out s @ [(VIRTIO_MMIO_QUEUE_NOTIFY, 0)]\<rparr>"

lemma idle_posted [simp]: "idle p (posted b pa write s) = idle p s"
  by (simp add: posted_def)

lemma hdr_complete:
  "h\<lparr>hdr_type := t, hdr_reserved := r, hdr_sector := n\<rparr> = \<lparr>hdr_type = t, hdr_reserved = r, hdr_sector = n\<rparr>"
  by (cases h) simp

lemma upd_hdr_eq:
  assumes "mmu (mem s) (kernel_pagetable s) va = Some pa"
  shows "upd_hdr va f s = Inr ((), s\<lparr>hdrs := (hdrs s)(pa := f (hdrs s pa))\<rparr>)"
  using assms by (simp add: upd_hdr_def kmon)

lemma virtio_submit_eq:
  assumes "idle p s" and "kva_mapped (mem s) (kernel_pagetable s) (buf0_va s p)"
  defines "pa \<equiv> kva_pa (mem s) (kernel_pagetable s) (buf0_va s p)"
  shows "virtio_submit b write (0, Suc 0, 2) (lockit VdiskLock s) = Inr ((), lockit VdiskLock (posted b pa write s))"
proof -
  have t: "kvmpa (buf0_va s p) (lockit VdiskLock (s\<lparr>hdrs := h\<rparr>)) = Inr (pa, lockit VdiskLock (s\<lparr>hdrs := h\<rparr>))"
    "mmu (mem s) (kernel_pagetable s) (buf0_va s p) = Some pa" for h
    using kva_translated [of "lockit VdiskLock (s\<lparr>hdrs := h\<rparr>)" "buf0_va s p"] assms(2) by (simp_all add: lockit_def pa_def)
  have u: "upd_hdr (buf0_va s p) f (lockit VdiskLock (s\<lparr>hdrs := h\<rparr>)) = Inr ((), lockit VdiskLock (s\<lparr>hdrs := h(pa := f (h pa))\<rparr>))" for f h
    using upd_hdr_eq [of "lockit VdiskLock (s\<lparr>hdrs := h\<rparr>)" "buf0_va s p" pa f] t(2) by (simp add: lockit_def)
  have u0: "upd_hdr (buf0_va s p) f (lockit VdiskLock s) = Inr ((), lockit VdiskLock (s\<lparr>hdrs := (hdrs s)(pa := f (hdrs s pa))\<rparr>))" for f
    using u [of f "hdrs s"] by simp
  show ?thesis
    using assms(1) t(1) u u0
    by (simp add: virtio_submit_def kmon get_buf_def upd_buf_def upd_vdk_def set_desc_def vreg_write_def
        curproc_lockit Let_def posted_def sector_of_def hdr_complete)
qed

section \<open>The device and the interrupt handler\<close>

lemma unat_sector: "unat n < 2 ^ 31 \<Longrightarrow> unat (sector_of n) = unat n * 2" for n :: u32
proof -
  assume n: "unat n < 2 ^ 31"
  then have "unat (n * 2) = unat n * 2" by (simp add: unat_word_ariths)
  moreover have "of_nat (BSIZE div 512) = (2 :: u32)" by (simp add: BSIZE_def)
  ultimately show ?thesis using n by (simp add: sector_of_def unsigned_ucast_eq take_bit_nat_eq_self)
qed

lemma sector_block: "unat n < 2 ^ 31 \<Longrightarrow> ucast (sector_of n div 2) = n" for n :: u32
proof -
  assume "unat n < 2 ^ 31"
  then have "unat (sector_of n div 2) = unat n" by (simp add: unat_sector unat_div)
  then show ?thesis using u32_lt [of n] by (simp add: word_unat_eq_iff unsigned_ucast_eq take_bit_nat_eq_self)
qed

lemma sector_even: "unat n < 2 ^ 31 \<Longrightarrow> sector_of n mod 2 = 0" for n :: u32
  by (simp add: word_unat_eq_iff unat_mod unat_sector)

lemma posted_chain:
  "vd_addr (v_desc (vdk (posted b pa write s)) 0) = VHdr pa" "vd_next (v_desc (vdk (posted b pa write s)) 0) = 1"
  "vd_addr (v_desc (vdk (posted b pa write s)) (Suc 0)) = VData b" "vd_next (v_desc (vdk (posted b pa write s)) (Suc 0)) = 2"
  "vd_addr (v_desc (vdk (posted b pa write s)) 2) = VStatus 0"
  "unat (vd_len (v_desc (vdk (posted b pa write s)) (Suc 0))) = BSIZE"
  "has_flag VRING_DESC_F_WRITE (v_desc (vdk (posted b pa write s)) (Suc 0)) \<longleftrightarrow> \<not> write"
  "chain_ok (v_desc (vdk (posted b pa write s)) 0) (v_desc (vdk (posted b pa write s)) (Suc 0)) (v_desc (vdk (posted b pa write s)) 2)"
  "unat (v_avail (vdk (posted b pa write s)) (unat (v_avail_idx (vdk (posted b pa write s)) - 1) mod NUM)) = 0"
  by (simp_all add: posted_def chain_ok_def has_flag_def VRING_DESC_F_NEXT_def VRING_DESC_F_WRITE_def BSIZE_def)

lemma dev_transfer_block:
  assumes "unat (vd_len d) = BSIZE" and "has_flag VRING_DESC_F_WRITE d \<longleftrightarrow> \<not> write"
    and "hdr_type h = (if write then VIRTIO_BLK_T_OUT else VIRTIO_BLK_T_IN)"
    and "hdr_sector h mod 2 = 0" and "ucast (hdr_sector h div 2) = n"
  shows "dev_transfer h d b t =
    Some (0, if write then t\<lparr>klog.more := (disk_now t)(n := b_data (bufs t b)) # klog.more t\<rparr>
       else t\<lparr>bufs := (bufs t)(b := (bufs t b)\<lparr>b_data := disk_now t n\<rparr>)\<rparr>)"
  using assms by (simp add: dev_transfer_def Let_def splice_def dev_read_def VIRTIO_BLK_T_OUT_def VIRTIO_BLK_T_IN_def)

lemma device_chain:
  assumes "dev_notified t" and "unat (v_avail (vdk t) (unat (v_avail_idx (vdk t) - 1) mod NUM)) = i"
    and "unat (vd_next (v_desc (vdk t) i)) = j" and "unat (vd_next (v_desc (vdk t) j)) = k"
    and "chain_ok (v_desc (vdk t) i) (v_desc (vdk t) j) (v_desc (vdk t) k)"
    and "vd_addr (v_desc (vdk t) i) = VHdr pa" and "vd_addr (v_desc (vdk t) j) = VData b"
    and "vd_addr (v_desc (vdk t) k) = VStatus l"
    and "dev_transfer (hdrs t pa) (v_desc (vdk t) j) b t = Some (st, t1)" and "of_nat i = (e :: u32)"
  shows "device t = t1\<lparr>vdk := (vdk t)\<lparr>v_info := (v_info (vdk t))(l := (v_info (vdk t) l)\<lparr>info_status := st\<rparr>),
    v_used_elems := (v_used_elems (vdk t))(unat (v_used_id (vdk t)) mod NUM := e),
    v_used_id := v_used_id (vdk t) + 1\<rparr>\<rparr>"
  using assms by (simp add: device_def Let_def)

lemma device_posted:
  fixes s :: kdk
  assumes "unat (b_blockno (bufs s b)) < 2 ^ 31"
  shows "device ((posted b pa write s)\<lparr>procs := f\<rparr>) =
    (let t = (posted b pa write s)\<lparr>procs := f\<rparr>; d = vdk t;
         t1 = (if write then t\<lparr>klog.more := (disk_now s)(b_blockno (bufs s b) := b_data (bufs s b)) # klog.more s\<rparr>
               else t\<lparr>bufs := (bufs t)(b := (bufs t b)\<lparr>b_data := disk_now s (b_blockno (bufs s b))\<rparr>)\<rparr>)
     in t1\<lparr>vdk := d\<lparr>v_info := (v_info d)(0 := (v_info d 0)\<lparr>info_status := 0\<rparr>),
          v_used_elems := (v_used_elems d)(unat (v_used_id d) mod NUM := 0), v_used_id := v_used_id d + 1\<rparr>\<rparr>)"
proof -
  let ?t = "(posted b pa write s)\<lparr>procs := f\<rparr>"
  let ?h = "\<lparr>hdr_type = (if write then VIRTIO_BLK_T_OUT else VIRTIO_BLK_T_IN), hdr_reserved = 0,
       hdr_sector = sector_of (b_blockno (bufs s b))\<rparr>"
  have n: "dev_notified ?t" "hdrs ?t pa = ?h" "klog.more ?t = klog.more s" "b_data (bufs ?t b) = b_data (bufs s b)"
    by (simp_all add: dev_notified_def posted_def)
  have c: "vdk ?t = vdk (posted b pa write s)" by simp
  have tr: "dev_transfer (hdrs ?t pa) (v_desc (vdk ?t) (Suc 0)) b ?t =
      Some (0, if write then ?t\<lparr>klog.more := (disk_now ?t)(b_blockno (bufs s b) := b_data (bufs ?t b)) # klog.more ?t\<rparr>
        else ?t\<lparr>bufs := (bufs ?t)(b := (bufs ?t b)\<lparr>b_data := disk_now ?t (b_blockno (bufs s b))\<rparr>)\<rparr>)"
    using sector_block [OF assms] sector_even [OF assms] posted_chain(6,7) [of b pa "write" s] unfolding n(2) c
    by (intro dev_transfer_block) simp_all
  have two: "unat (vd_next (v_desc (vdk ?t) 0)) = Suc 0" "unat (vd_next (v_desc (vdk ?t) (Suc 0))) = 2"
    unfolding c posted_chain by simp_all
  note ch = posted_chain [of b pa "write" s, folded c]
  show ?thesis unfolding Let_def using device_chain [OF n(1) ch(9) two ch(8,1,3,5) tr semiring_1_class.of_nat_0] by (simp only: n(3,4))
qed

definition disk_done :: "nat \<Rightarrow> 'a kdisk_scheme \<Rightarrow> 'a kdisk_scheme" where
  "disk_done b s = s\<lparr>bufs := (bufs s)(b := (bufs s b)\<lparr>b_disk := False\<rparr>),
     procs := wake_table (ChBuf b) {..<NPROC} (procs s),
     vdk := (vdk s)\<lparr>v_used_idx := (v_used_idx (vdk s) + 1) mod of_nat NUM\<rparr>\<rparr>"

lemma used_next:
  fixes x :: u16
  assumes "unat x < NUM"
  shows "unat ((x + 1) mod of_nat NUM) = (unat x + 1) mod NUM"
proof -
  have "unat (x + 1) = unat x + 1" using assms by (simp add: unat_word_ariths NUM_8)
  then show ?thesis by (simp add: unat_mod NUM_8)
qed

lemma virtio_disk_intr_eq:
  assumes "settled s" and "lk_free VdiskLock s" and "proc_locks_free s"
    and "unat (v_used_idx (vdk s)) < NUM" and "(unat (v_used_idx (vdk s)) + 1) mod NUM = unat (v_used_id (vdk s)) mod NUM"
    and "info_status (v_info (vdk s) (unat (v_used_elems (vdk s) (unat (v_used_idx (vdk s)))))) = 0"
    and "info_b (v_info (vdk s) (unat (v_used_elems (vdk s) (unat (v_used_idx (vdk s)))))) = Some b"
  shows "virtio_disk_intr s = Inr ((), (disk_done b s)\<lparr>vio_out := vio_out s @
    [(VIRTIO_MMIO_INTERRUPT_ACK, vio_in s VIRTIO_MMIO_INTERRUPT_STATUS AND 3)]\<rparr>)"
proof -
  let ?d = "vdk s"
  let ?body = "kbind (kget vdk) (\<lambda>d.
       if unat (v_used_idx d) mod NUM \<noteq> unat (v_used_id d) mod NUM then
         let id = unat (v_used_elems d (unat (v_used_idx d))) in
         if info_status (v_info d id) \<noteq> 0 then kpanic ''virtio_disk_intr status''
         else kbind (nonnull (info_b (v_info d id))) (\<lambda>b.
           kseq (upd_buf b (\<lambda>q. q\<lparr>b_disk := False\<rparr>)) (
           kseq (wakeup (ChBuf b)) (
           kseq (upd_vdk (\<lambda>d. d\<lparr>v_used_idx := (v_used_idx d + 1) mod of_nat NUM\<rparr>)) (
           kret None))))
       else kret (Some ())) :: ('a kdisk_scheme, unit option) km"
  have neq: "unat (v_used_idx ?d) mod NUM \<noteq> unat (v_used_id ?d) mod NUM"
    using assms(4) by (simp only: assms(5) [symmetric]) (auto simp: NUM_8 mod_if split: if_splits)
  have "settled (s\<lparr>bufs := f\<rparr>)" "proc_locks_free (s\<lparr>bufs := f\<rparr>)" for f
    using assms(1,3) by (simp_all add: settled_def proc_locks_free_def lk_free_def)
  then have b1: "?body (lockit VdiskLock s) = Inr (None, lockit VdiskLock (disk_done b s))"
    using neq assms(6,7) by (simp add: kmon nonnull_def upd_buf_def upd_vdk_def disk_done_def)
  have "unat (v_used_idx (vdk (disk_done b s))) mod NUM = unat (v_used_id (vdk (disk_done b s))) mod NUM"
    using used_next [OF assms(4)] assms(5) by (simp add: disk_done_def NUM_8)
  then have b2: "?body (lockit VdiskLock (disk_done b s)) = Inr (Some (), lockit VdiskLock (disk_done b s))"
    by (simp add: kmon)
  have l: "kloop ?body (lockit VdiskLock s) = Inr ((), lockit VdiskLock (disk_done b s))"
    by (subst kloop_unfold, subst kloop_unfold) (simp only: b1 b2 sum.case prod.case option.case)
  have "settled ((disk_done b s)\<lparr>vio_out := os\<rparr>)" "lk_free VdiskLock ((disk_done b s)\<lparr>vio_out := os\<rparr>)" for os
    using assms(1,2) by (simp_all add: disk_done_def settled_def lk_free_def)
  moreover have "vio_out (disk_done b s) = vio_out s" "vio_in (disk_done b s) = vio_in s" by (simp_all add: disk_done_def)
  ultimately show ?thesis
    using assms(1,2) l unfolding virtio_disk_intr_def by (simp add: kseq_Inr vreg_read_def vreg_write_def kget_def kmod_def)
qed

section \<open>Giving descriptors back\<close>

definition freed_desc :: "nat \<Rightarrow> 'a kdisk_scheme \<Rightarrow> 'a kdisk_scheme" where
  "freed_desc i s = s\<lparr>vdk := (vdk s)\<lparr>v_desc := (v_desc (vdk s))(i := (v_desc (vdk s) i)\<lparr>vd_addr := VNull\<rparr>),
       v_free := (v_free (vdk s))(i := True)\<rparr>,
     procs := wake_table ChDiskFree {..<NPROC} (procs s)\<rparr>"

lemma freed_desc_simps [simp]:
  "bufs (freed_desc i s) = bufs s" "idle p (freed_desc i s) = idle p s"
  "v_free (vdk (freed_desc i s)) = (v_free (vdk s))(i := True)"
  "v_desc (vdk (freed_desc i s)) = (v_desc (vdk s))(i := (v_desc (vdk s) i)\<lparr>vd_addr := VNull\<rparr>)"
  "v_used_idx (vdk (freed_desc i s)) = v_used_idx (vdk s)" "v_used_id (vdk (freed_desc i s)) = v_used_id (vdk s)"
  by (simp_all add: freed_desc_def)

lemma free_desc_eq:
  assumes "idle p s" and "i < NUM" and "\<not> v_free (vdk s) i"
  shows "free_desc i (lockit VdiskLock s) = Inr ((), lockit VdiskLock (freed_desc i s))"
proof -
  have "settled (s\<lparr>vdk := d\<rparr>)" "proc_locks_free (s\<lparr>vdk := d\<rparr>)" for d
    using idleD [of p "s\<lparr>vdk := d\<rparr>"] assms(1) by simp_all
  then show ?thesis using assms by (simp add: free_desc_def kmon upd_vdk_def freed_desc_def)
qed

lemma free_chain_step:
  assumes "idle p s" and "i < NUM" and "\<not> v_free (vdk s) i"
  shows "free_chain i (lockit VdiskLock s) =
    (if vd_flags (v_desc (vdk s) i) AND VRING_DESC_F_NEXT \<noteq> 0
     then free_chain (unat (vd_next (v_desc (vdk s) i))) (lockit VdiskLock (freed_desc i s))
     else Inr ((), lockit VdiskLock (freed_desc i s)))"
  unfolding free_chain_def using free_desc_eq [OF assms]
  by (subst kiter_unfold) (simp add: kseq_Inr kbind_cases kget_def kret_def)

lemma free_chain3:
  assumes "idle p s" and "\<not> v_free (vdk s) 0" "\<not> v_free (vdk s) (Suc 0)" "\<not> v_free (vdk s) 2"
    and "vd_flags (v_desc (vdk s) 0) AND VRING_DESC_F_NEXT \<noteq> 0" "vd_next (v_desc (vdk s) 0) = 1"
    and "vd_flags (v_desc (vdk s) (Suc 0)) AND VRING_DESC_F_NEXT \<noteq> 0" "vd_next (v_desc (vdk s) (Suc 0)) = 2"
    and "vd_flags (v_desc (vdk s) 2) AND VRING_DESC_F_NEXT = 0"
  shows "free_chain 0 (lockit VdiskLock s) =
    Inr ((), lockit VdiskLock (freed_desc 2 (freed_desc (Suc 0) (freed_desc 0 s))))"
  using assms free_chain_step [of p s 0] free_chain_step [of p "freed_desc 0 s" "Suc 0"]
    free_chain_step [of p "freed_desc (Suc 0) (freed_desc 0 s)" 2]
  by (simp add: NUM_8)

section \<open>A request from end to end\<close>

definition quiet :: "nat \<Rightarrow> 'a kdisk_scheme \<Rightarrow> bool" where
  "quiet p s \<longleftrightarrow> idle p s \<and> p_state (procs s p) = RUNNING \<and> all_free s \<and>
     unat (v_used_idx (vdk s)) = unat (v_used_id (vdk s)) mod NUM \<and>
     kva_mapped (mem s) (kernel_pagetable s) (buf0_va s p)"

definition frame :: "kdk \<Rightarrow> memory \<times> u64 \<times> u32 \<times> int \<times> int \<times> bool \<times> u32 \<times> (nat \<Rightarrow> int) \<times> (nat \<Rightarrow> u64) \<times> (nat \<Rightarrow> u64)" where
  "frame s = (mem s, kernel_pagetable s, l_start s, l_size s, l_outstanding s, l_committing s, l_dev s,
     (\<lambda>q. p_pid (procs s q)), (\<lambda>q. p_kstack (procs s q)), buf0_va s)"

definition rest_same :: "kdk \<Rightarrow> kdk \<Rightarrow> bool" where
  "rest_same s s' \<longleftrightarrow> frame s' = frame s \<and> l_lh s' = l_lh s \<and> slocks s' = slocks s \<and> bnext s' = bnext s \<and> bprev s' = bprev s"

definition moved :: "nat \<Rightarrow> bool \<Rightarrow> kdk \<Rightarrow> kdk \<Rightarrow> bool" where
  "moved b write s s' \<longleftrightarrow>
     bufs s' = (bufs s)(b := (bufs s b)\<lparr>
       b_data := (if write then b_data (bufs s b) else disk_now s (b_blockno (bufs s b))), b_disk := False\<rparr>) \<and>
     klog.more s' = (if write then (disk_now s)(b_blockno (bufs s b) := b_data (bufs s b)) # klog.more s else klog.more s)"

lemma used_step:
  fixes x :: u16
  shows "unat (x + 1) mod NUM = (unat x mod NUM + 1) mod NUM"
proof -
  have "(n mod 65536) mod 8 = n mod 8" for n :: nat by (rule mod_mod_cancel) simp
  then show ?thesis by (simp add: unat_word_ariths NUM_8 mod_Suc_eq)
qed

lemma disk_switch_steps:
  assumes "idle p t" and "virtio_disk_intr (device t) = Inr ((), w)" and "idle p w" and "p_state (procs w p) = RUNNABLE"
  shows "disk_switch p (lockit (ProcLock p) t) =
    Inr ((), lockit (ProcLock p) (w\<lparr>procs := (procs w)(p := (procs w p)\<lparr>p_state := RUNNING\<rparr>)\<rparr>))"
  using idleD [OF assms(1)] idleD [OF assms(3)] assms(2,4)
  by (simp add: disk_switch_def kseq_Inr kmod_def upd_proc_eq)

lemma disk_switch_eq:
  fixes s :: kdk
  assumes t: "t = (posted b pa write s)\<lparr>procs := f\<rparr>" and i: "idle p s" and blk: "unat (b_blockno (bufs s b)) < 2 ^ 31"
    and used: "unat (v_used_idx (vdk s)) = unat (v_used_id (vdk s)) mod NUM"
    and f: "p_state (f p) = SLEEPING" "p_chan (f p) = Some (ChBuf b)"
  shows "\<exists>v. disk_switch p (lockit (ProcLock p) t) = Inr ((), lockit (ProcLock p) v) \<and> idle p v \<and>
     moved b write s v \<and> tp v = tp s \<and> sie v = sie s \<and> cpus v = cpus s \<and>
     mem v = mem s \<and> kernel_pagetable v = kernel_pagetable s \<and> slocks v = slocks s \<and> bnext v = bnext s \<and> bprev v = bprev s \<and>
     l_start v = l_start s \<and> l_size v = l_size s \<and> l_outstanding v = l_outstanding s \<and> l_committing v = l_committing s \<and>
     l_dev v = l_dev s \<and> l_lh v = l_lh s \<and> buf0_va v = buf0_va s \<and>
     procs v = (wake_table (ChBuf b) {..<NPROC} f)(p := (f p)\<lparr>p_state := RUNNING\<rparr>) \<and>
     v_free (vdk v) = v_free (vdk s) \<and> v_desc (vdk v) = v_desc (vdk (posted b pa write s)) \<and>
     unat (v_used_idx (vdk v)) = unat (v_used_id (vdk v)) mod NUM"
proof -
  let ?t = "(posted b pa write s)\<lparr>procs := f\<rparr>"
  have it: "idle p ?t" using i by simp
  have p: "p < NPROC" using i by (rule idleD)
  note dev = device_posted [OF blk, of f pa "write"]
  have id: "idle p (device ?t)" unfolding dev Let_def using i by simp
  have lt: "unat (v_used_id (vdk s)) mod NUM < NUM" by (simp add: NUM_8)
  have vd: "v_used_idx (vdk (device ?t)) = v_used_idx (vdk s)" "v_used_id (vdk (device ?t)) = v_used_id (vdk s) + 1"
    "v_used_elems (vdk (device ?t)) (unat (v_used_id (vdk s)) mod NUM) = 0"
    "info_status (v_info (vdk (device ?t)) 0) = 0" "info_b (v_info (vdk (device ?t)) 0) = Some b"
    unfolding dev Let_def by (simp_all add: posted_def used)
  have "virtio_disk_intr (device ?t) = Inr ((), (disk_done b (device ?t))\<lparr>vio_out := vio_out (device ?t) @
      [(VIRTIO_MMIO_INTERRUPT_ACK, vio_in (device ?t) VIRTIO_MMIO_INTERRUPT_STATUS AND 3)]\<rparr>)" (is "_ = Inr ((), ?w)")
    using idleD [OF id] used used_step [of "v_used_id (vdk s)"] lt by (intro virtio_disk_intr_eq) (simp_all add: vd)
  moreover have w: "idle p ?w" using id by (simp add: disk_done_def)
  moreover have "p_state (procs ?w p) = RUNNABLE"
    unfolding disk_done_def dev Let_def using f p by (simp add: wake_table_def woken_def)
  ultimately have run: "disk_switch p (lockit (ProcLock p) ?t) =
      Inr ((), lockit (ProcLock p) (?w\<lparr>procs := (procs ?w)(p := (procs ?w p)\<lparr>p_state := RUNNING\<rparr>)\<rparr>))" (is "_ = Inr ((), lockit _ ?v)")
    by (intro disk_switch_steps [OF it])
  have "unat (v_used_idx (vdk ?v)) = unat (v_used_id (vdk ?v)) mod NUM"
    using used used_next [of "v_used_idx (vdk s)"] used_step [of "v_used_id (vdk s)"] lt by (simp add: disk_done_def vd)
  moreover have "moved b write s ?v" unfolding disk_done_def dev Let_def by (simp add: moved_def posted_def)
  moreover have "procs ?v = (wake_table (ChBuf b) {..<NPROC} f)(p := (f p)\<lparr>p_state := RUNNING\<rparr>)"
    unfolding disk_done_def dev Let_def using f p by (simp add: wake_table_def woken_def fun_eq_iff)
  moreover have "idle p ?v" using w by simp
  moreover have "tp ?v = tp s" "sie ?v = sie s" "cpus ?v = cpus s" "mem ?v = mem s" "kernel_pagetable ?v = kernel_pagetable s"
    "slocks ?v = slocks s" "bnext ?v = bnext s" "bprev ?v = bprev s" "l_start ?v = l_start s" "l_size ?v = l_size s"
    "l_outstanding ?v = l_outstanding s" "l_committing ?v = l_committing s" "l_dev ?v = l_dev s" "l_lh ?v = l_lh s"
    "buf0_va ?v = buf0_va s" "v_free (vdk ?v) = v_free (vdk s)" "v_desc (vdk ?v) = v_desc (vdk (posted b pa write s))"
    unfolding disk_done_def dev Let_def by (simp_all add: posted_def)
  ultimately show ?thesis unfolding t using run by (intro exI [of _ ?v] conjI)
qed

lemma virtio_disk_rw_eq:
  fixes s :: kdk
  assumes sw: "serves sw p" and q: "quiet p s" and blk: "unat (b_blockno (bufs s b)) < 2 ^ 31"
  shows "\<exists>s'. virtio_disk_rw sw b write s = Inr ((), s') \<and> quiet p s' \<and> moved b write s s' \<and> rest_same s s'"
proof -
  have i: "idle p s" and run: "p_state (procs s p) = RUNNING" and fr: "all_free s"
    and used: "unat (v_used_idx (vdk s)) = unat (v_used_id (vdk s)) mod NUM"
    and m: "kva_mapped (mem s) (kernel_pagetable s) (buf0_va s p)" using q by (auto simp: quiet_def)
  let ?c = "claim3 s"
  let ?pa = "kva_pa (mem s) (kernel_pagetable s) (buf0_va s p)"
  let ?t = "posted b ?pa write ?c"
  let ?f = "(procs s)(p := (procs s p)\<lparr>p_chan := Some (ChBuf b), p_state := SLEEPING\<rparr>)"
  have c: "idle p ?c" "bufs ?c = bufs s" "mem ?c = mem s" "kernel_pagetable ?c = kernel_pagetable s" "procs ?c = procs s"
    "procs ?t = procs s" "buf0_va ?c = buf0_va s" "v_used_idx (vdk ?c) = v_used_idx (vdk s)" "v_used_id (vdk ?c) = v_used_id (vdk s)" "klog.more ?c = klog.more s"
    using i by (simp_all add: claim3_def posted_def)
  have it: "idle p ?t" using c(1) by simp
  obtain v where v: "disk_switch p (lockit (ProcLock p) (?t\<lparr>procs := ?f\<rparr>)) = Inr ((), lockit (ProcLock p) v)"
    "idle p v" "moved b write ?c v" "tp v = tp ?c" "sie v = sie ?c" "cpus v = cpus ?c"
    "mem v = mem s" "kernel_pagetable v = kernel_pagetable s" "slocks v = slocks ?c" "bnext v = bnext ?c" "bprev v = bprev ?c"
    "l_start v = l_start ?c" "l_size v = l_size ?c" "l_outstanding v = l_outstanding ?c" "l_committing v = l_committing ?c"
    "l_dev v = l_dev ?c" "l_lh v = l_lh ?c" "buf0_va v = buf0_va ?c"
    "procs v = (wake_table (ChBuf b) {..<NPROC} ?f)(p := (?f p)\<lparr>p_state := RUNNING\<rparr>)"
    "v_free (vdk v) = v_free (vdk ?c)" "v_desc (vdk v) = v_desc (vdk ?t)" "unat (v_used_idx (vdk v)) = unat (v_used_id (vdk v)) mod NUM"
    using disk_switch_eq [OF refl c(1), of b ?f ?pa "write"] blk used c by auto
  have pk: "parked p (ChBuf b) ?t = lockit (ProcLock p) (?t\<lparr>procs := ?f\<rparr>)" by (simp add: parked_def c(6))
  have "sw (parked p (ChBuf b) ?t) = disk_switch p (parked p (ChBuf b) ?t)"
    using sw unfolding serves_def by (simp add: parked_def)
  then have "resumes sw p (parked p (ChBuf b) ?t) v"
    using v idleD [OF v(2)] idleD [OF i] unfolding resumes_def pk by (simp add: claim3_def posted_def lockit_def settled_def)
  then have sl: "sleep sw (ChBuf b) VdiskLock (lockit VdiskLock ?t) = Inr ((), lockit VdiskLock (unparked p v))"
    using idleD [OF it] idleD [OF v(2)] by (intro sleep_eq) simp_all
  let ?u = "unparked p v"
  let ?w = "?u\<lparr>vdk := (vdk ?u)\<lparr>v_info := (v_info (vdk ?u))(0 := (v_info (vdk ?u) 0)\<lparr>info_b := None\<rparr>)\<rparr>\<rparr>"
  let ?e = "freed_desc 2 (freed_desc (Suc 0) (freed_desc 0 ?w))"
  have iw: "idle p ?w" using v(2) by (simp add: unparked_def)
  have vu: "vdk ?u = vdk v" by (simp add: unparked_def)
  have vw: "v_free (vdk ?w) = v_free (vdk ?c)" "v_desc (vdk ?w) = v_desc (vdk ?t)" "bufs ?w = bufs v" "bufs ?u = bufs v"
    using v by (simp_all add: unparked_def)
  have fc: "free_chain 0 (lockit VdiskLock ?w) = Inr ((), lockit VdiskLock ?e)"
    using iw by (rule free_chain3)
      (simp_all add: vu v(20,21) claim3_def posted_def VRING_DESC_F_NEXT_def VRING_DESC_F_WRITE_def)
  have d: "\<not> b_disk (bufs v b)" using v(3) by (simp add: moved_def)
  have lp: "kloop (kbind (get_buf b b_disk) (\<lambda>d. if d then kseq (sleep sw (ChBuf b) VdiskLock) (kret None) else kret (Some ())))
      (lockit VdiskLock ?t) = Inr ((), lockit VdiskLock ?u)"
    by (subst kloop_unfold, subst kloop_unfold)
      (simp add: get_buf_def kmon posted_def vw(4) d sl [unfolded posted_def])
  have al: "kloop (kbind alloc3_desc (\<lambda>r. case r of Some ix \<Rightarrow> kret (Some ix)
       | None \<Rightarrow> kseq (sleep sw ChDiskFree VdiskLock) (kret None))) (lockit VdiskLock s) = Inr ((0, Suc 0, 2), lockit VdiskLock ?c)"
    using alloc3_all_free [of "lockit VdiskLock s"] fr
    by (subst kloop_unfold) (simp add: all_free_def kmon claim3_def)
  have ie: "idle p ?e" using iw by simp
  have "virtio_disk_rw sw b write s = Inr ((), ?e)"
    unfolding virtio_disk_rw_def
    using idleD [OF i] idleD [OF ie] al lp fc virtio_submit_eq [OF c(1), of b "write"] m c(3-5,7)
    by (simp add: kseq_Inr upd_vdk_def kmod_def)
  moreover have "moved b write s ?e" using v(3) unfolding moved_def by (simp add: c vw freed_desc_def unparked_def)
  moreover have "rest_same s ?e"
    using v by (simp add: rest_same_def frame_def freed_desc_def unparked_def claim3_def fun_eq_iff wake_table_fields)
  moreover have "quiet p ?e"
    unfolding quiet_def all_free_def
    using ie v fr m by (auto simp: freed_desc_def unparked_def claim3_def all_free_def wake_table_def woken_def)
  ultimately show ?thesis by blast
qed

section \<open>Properties\<close>

text \<open>C3: A disk request from end to end: when the disk carries out the request that the driver made available
  and interrupts, virtio_disk_rw returns, having written the bytes of the buffer to exactly its
  block of the disk (or read that block into the buffer and left the disk alone); the interrupt
  handler has found and marked the right buffer, every descriptor is free again, no other
  buffer and nothing else the kernel relies on has changed.\<close>

theorem virtio_disk_rw_transfers:
  fixes s :: kdk
  assumes "serves sw p" and "quiet p s" and "unat (b_blockno (bufs s b)) < 2 ^ 31"
  shows "\<exists>s'. virtio_disk_rw sw b write s = Inr ((), s') \<and> quiet p s' \<and> rest_same s s' \<and>
    bufs s' = (bufs s)(b := (bufs s b)\<lparr>b_data := (if write then b_data (bufs s b) else disk_now s (b_blockno (bufs s b))), b_disk := False\<rparr>) \<and>
    klog.more s' = (if write then (disk_now s)(b_blockno (bufs s b) := b_data (bufs s b)) # klog.more s else klog.more s)"
  using virtio_disk_rw_eq [OF assms, of "write"] unfolding moved_def by blast

definition demo_boot :: "disk \<Rightarrow> kdk" where
  "demo_boot D = (demo_klog [D])\<lparr>kernel_pagetable := 0x87FF8000\<rparr>"

abbreviation demo_kdk :: kdk where
  "demo_kdk \<equiv> demo_boot (\<lambda>_. replicate 1024 0)"

lemma demo_mapped: "kva_mapped demo_mem 0x87FF8000 0"
proof -
  have t: "tnode demo_mem 0x87FF8000 [0, 0] = Some 0x87FFA000"
    using demo_tnode(1) [of "[0, 0]"] by (simp add: tpath_def)
  have "pte_at demo_mem 0x87FFA000 0 = PA2PTE 0x87FFB000 OR UPERM OR PTE_V" by (simp add: demo_pte)
  then show ?thesis using t
    by (simp add: kva_mapped_def idx_def PX_def PXSHIFT_def pte_at_def pte_addr_def PA2PTE_def UPERM_def PTE_V_def PTE_W_def PTE_X_def PTE_R_def PTE_U_def valid_def MAXVA_def)
qed

lemma demo_boot_simps [simp]:
  "buf0_va (demo_boot D) = (\<lambda>_. 0)"
  "procs (demo_boot D) = demo_table" "bufs (demo_boot D) = (\<lambda>_. demo_buf)" "vdk (demo_boot D) = demo_vdisk"
  "klog.more (demo_boot D) = [D]" "kernel_pagetable (demo_boot D) = 0x87FF8000" "mem (demo_boot D) = demo_mem"
  "slocks (demo_boot D) = (\<lambda>_. \<lparr>sl_locked = False, sl_name = [], sl_pid = 0\<rparr>)" "bnext (demo_boot D) = demo_bnext" "bprev (demo_boot D) = demo_bprev"
  "l_start (demo_boot D) = 2" "l_size (demo_boot D) = 30" "l_outstanding (demo_boot D) = 0" "l_committing (demo_boot D) = False" "l_dev (demo_boot D) = 1"
  "l_lh (demo_boot D) = \<lparr>lh_n = 0, lh_block = replicate LOGSIZE 0\<rparr>"
  by (simp_all add: demo_boot_def demo_klog_def demo_kdisk_def demo_kproc_def)

lemma demo_quiet [simp]: "quiet 3 (demo_boot D)"
proof -
  have "settled (demo_boot D)" "lk_free l (demo_boot D)" "noff (cur_cpu (demo_boot D)) = 0" "cpu_proc (cur_cpu (demo_boot D)) = Some 3" for l
    by (simp_all add: demo_boot_def demo_klog_def demo_kdisk_def demo_kproc_def settled_def lk_free_def)
  then have "idle 3 (demo_boot D)" by (simp add: idle_def NPROC_64)
  then show ?thesis using demo_mapped by (simp add: quiet_def all_free_def demo_vdisk_def demo_proc_def)
qed

theorem virtio_disk_rw_transfers_witness:
  "\<exists>s'. virtio_disk_rw (disk_switch 3) 4 False demo_kdk = Inr ((), s') \<and> b_data (bufs s' 4) = replicate 1024 0 \<and>
     klog.more s' = klog.more demo_kdk"
  using virtio_disk_rw_transfers [of "disk_switch 3" 3 demo_kdk 4 False] by (auto simp: serves_def demo_buf_def)

end
