(* ===== verification/Bio_Facts.thy ===== *)
theory Bio_Facts
  imports Bio_List Disk_Rw
begin

text \<open>
  What the buffer cache of kernel/bio.c promises the layers above it, when one process uses it with
  the disk behind it: a block has at most one buffer, reading a block gives its current
  contents, writing a held buffer changes exactly its block of the disk, and releasing
  a buffer loses nothing.
\<close>

section \<open>The invariant\<close>

text \<open>
  The cache as process p sees it, for the one disk, whose device number is d; p holds the buffers
  in L. A buffer that nobody refers to and that holds data agrees with the disk, so that it
  may be recycled.
\<close>

definition holds :: "nat \<Rightarrow> nat set \<Rightarrow> kdk \<Rightarrow> bool" where
  "holds p L s \<longleftrightarrow> L \<subseteq> {..<NBUF} \<and>
     (\<forall>i < NBUF. if i \<in> L then sl_mine (BufLock i) p s else \<not> sl_locked (slocks s (BufLock i)))"

definition unique_bufs :: "(nat \<Rightarrow> buf) \<Rightarrow> bool" where
  "unique_bufs t \<longleftrightarrow> (\<forall>i < NBUF. \<forall>j < NBUF. i \<noteq> j \<and> b_dev (t i) = b_dev (t j) \<and> b_blockno (t i) = b_blockno (t j) \<longrightarrow>
     b_dev (t i) = 0)"

definition buf_ok :: "u32 \<Rightarrow> disk \<Rightarrow> buf \<Rightarrow> bool" where
  "buf_ok d dk q \<longleftrightarrow> \<not> b_disk q \<and> (b_dev q = 0 \<and> b_refcnt q = 0 \<or> b_dev q = d) \<and>
     (b_valid q \<and> b_refcnt q = 0 \<and> b_dev q = d \<longrightarrow> b_data q = dk (b_blockno q))"

definition cache :: "u32 \<Rightarrow> nat \<Rightarrow> nat set \<Rightarrow> kdk \<Rightarrow> bool" where
  "cache d p L s \<longleftrightarrow> d \<noteq> 0 \<and> quiet p s \<and> klog.more s \<noteq> [] \<and> (\<exists>bs. lru s bs \<and> set bs = {..<NBUF}) \<and>
     holds p L s \<and> unique_bufs (bufs s) \<and> (\<forall>i < NBUF. buf_ok d (disk_now s) (bufs s i))"

text \<open>The current contents of a block: those of its buffer, or those on the disk.\<close>

definition holder :: "u32 \<Rightarrow> u32 \<Rightarrow> (nat \<Rightarrow> buf) \<Rightarrow> nat option" where
  "holder d n t = find (\<lambda>i. b_dev (t i) = d \<and> b_blockno (t i) = n) [0..<NBUF]"

definition content :: "u32 \<Rightarrow> kdk \<Rightarrow> u32 \<Rightarrow> u8 list" where
  "content d s n = (case holder d n (bufs s) of
       Some i \<Rightarrow> if b_valid (bufs s i) then b_data (bufs s i) else disk_now s n
     | None \<Rightarrow> disk_now s n)"

lemma find_unique:
  "i \<in> set xs \<Longrightarrow> P i \<Longrightarrow> (\<And>j. j \<in> set xs \<Longrightarrow> P j \<Longrightarrow> j = i) \<Longrightarrow> find P xs = Some i"
proof (induction xs)
  case (Cons x xs)
  show ?case
  proof (cases "P x")
    case True
    then have "x = i" using Cons.prems(3) by simp
    then show ?thesis using True by simp
  next
    case False
    then show ?thesis using Cons by (metis find.simps(2) list.set_intros(2) set_ConsD)
  qed
qed simp

lemma find_None: "find P xs = None \<longleftrightarrow> (\<forall>x \<in> set xs. \<not> P x)"
  by (induction xs) auto

lemma find_Some: "find P xs = Some i \<Longrightarrow> i \<in> set xs \<and> P i"
  by (induction xs) (auto split: if_splits)

lemma holder_unique:
  assumes "unique_bufs t" and "d \<noteq> 0" and "i < NBUF" and "b_dev (t i) = d" and "b_blockno (t i) = n" and "set xs = {..<NBUF}"
  shows "find (\<lambda>i. b_dev (t i) = d \<and> b_blockno (t i) = n) xs = Some i"
  using assms by (intro find_unique) (auto simp: unique_bufs_def)

lemma holderI:
  assumes "unique_bufs t" and "d \<noteq> 0" and "i < NBUF" and "b_dev (t i) = d" and "b_blockno (t i) = n"
  shows "holder d n t = Some i"
  unfolding holder_def by (rule holder_unique [OF assms]) (simp add: atLeast0LessThan)

lemma holderD: "holder d n t = Some i \<Longrightarrow> i < NBUF \<and> b_dev (t i) = d \<and> b_blockno (t i) = n"
  unfolding holder_def by (drule find_Some) simp

lemma holder_None: "holder d n t = None \<longleftrightarrow> (\<forall>i < NBUF. \<not> (b_dev (t i) = d \<and> b_blockno (t i) = n))"
  by (auto simp: holder_def find_None)

section \<open>Finding a buffer\<close>

lemma lru_frame [simp]:
  "lru (s\<lparr>bufs := f\<rparr>) bs = lru s bs" "lru (s\<lparr>slocks := g\<rparr>) bs = lru s bs" "lru (s\<lparr>procs := h\<rparr>) bs = lru s bs"
  "lru (lockit l s) bs = lru s bs"
  by (simp_all add: lru_def lockit_def)

lemma lockit_bio [simp]: "bnext (lockit l s) = bnext s" "bprev (lockit l s) = bprev s"
  by (simp_all add: lockit_def)

lemma find_cong_lockit: "find (\<lambda>b. P (bufs (lockit l s) b)) xs = find (\<lambda>b. P (bufs s b)) xs"
  by simp

lemma bget_hit:
  assumes "idle p s" and "lru s bs" and "find (\<lambda>i. b_dev (bufs s i) = d \<and> b_blockno (bufs s i) = n) bs = Some i"
    and "\<not> sl_locked (slocks s (BufLock i))"
  shows "bget sw d n s = Inr (i, sl_taken (BufLock i) p (s\<lparr>bufs := (bufs s)(i := (bufs s i)\<lparr>b_refcnt := b_refcnt (bufs s i) + 1\<rparr>)\<rparr>))"
proof -
  let ?u = "s\<lparr>bufs := (bufs s)(i := (bufs s i)\<lparr>b_refcnt := b_refcnt (bufs s i) + 1\<rparr>)\<rparr>"
  have u: "idle p ?u" using assms(1) by simp
  have sc: "bscan bnext (\<lambda>q. b_dev q = d \<and> b_blockno q = n) (bnext s Head) (lockit BcacheLock s) = Inr (Some i, lockit BcacheLock s)"
    using bscan_next [of "lockit BcacheLock s" bs] assms(2,3) by simp
  have a: "acquiresleep sw (BufLock i) ?u = Inr ((), sl_taken (BufLock i) p ?u)"
    using u assms(4) by (intro acquiresleep_free) simp_all
  have "settled s" "lk_free BcacheLock s" "settled ?u" "lk_free BcacheLock ?u" using idleD assms(1) u by blast+
  then show ?thesis unfolding bget_def
    by (simp add: kmon sc a upd_buf_def)
qed

lemma bget_miss:
  assumes "idle p s" and "lru s bs" and "find (\<lambda>i. b_dev (bufs s i) = d \<and> b_blockno (bufs s i) = n) bs = None"
  shows "find (\<lambda>i. b_refcnt (bufs s i) = 0) (rev bs) = None \<Longrightarrow> bget sw d n s = Inl (Panic ''bget: no buffers'')"
    and "find (\<lambda>i. b_refcnt (bufs s i) = 0) (rev bs) = Some i \<Longrightarrow> \<not> sl_locked (slocks s (BufLock i)) \<Longrightarrow>
      bget sw d n s = Inr (i, sl_taken (BufLock i) p (s\<lparr>bufs := (bufs s)(i :=
        (bufs s i)\<lparr>b_dev := d, b_blockno := n, b_valid := False, b_refcnt := 1\<rparr>)\<rparr>))"
proof -
  have sc: "bscan bnext (\<lambda>q. b_dev q = d \<and> b_blockno q = n) (bnext s Head) (lockit BcacheLock s) = Inr (None, lockit BcacheLock s)"
    using bscan_next [of "lockit BcacheLock s" bs] assms(2,3) by simp
  have sp: "bscan bprev (\<lambda>q. b_refcnt q = 0) (bprev s Head) (lockit BcacheLock s) =
      Inr (find (\<lambda>i. b_refcnt (bufs s i) = 0) (rev bs), lockit BcacheLock s)"
    using bscan_prev [of "lockit BcacheLock s" bs] assms(2) by simp
  have f: "settled s" "lk_free BcacheLock s" using idleD assms(1) by blast+
  show "bget sw d n s = Inl (Panic ''bget: no buffers'')" if "find (\<lambda>i. b_refcnt (bufs s i) = 0) (rev bs) = None"
    unfolding bget_def using f that by (simp add: kmon sc sp)
  let ?u = "s\<lparr>bufs := (bufs s)(i := (bufs s i)\<lparr>b_dev := d, b_blockno := n, b_valid := False, b_refcnt := 1\<rparr>)\<rparr>"
  have u: "idle p ?u" using assms(1) by simp
  show "bget sw d n s = Inr (i, sl_taken (BufLock i) p ?u)"
    if "find (\<lambda>i. b_refcnt (bufs s i) = 0) (rev bs) = Some i" "\<not> sl_locked (slocks s (BufLock i))"
  proof -
    have "acquiresleep sw (BufLock i) ?u = Inr ((), sl_taken (BufLock i) p ?u)"
      using u that(2) by (intro acquiresleep_free) simp_all
    moreover have "settled ?u" "lk_free BcacheLock ?u" using idleD u by blast+
    ultimately show ?thesis unfolding bget_def using f that(1) by (simp add: kmon sc sp upd_buf_def)
  qed
qed

section \<open>Reading a block\<close>

lemma quiet_frame [simp]:
  "quiet p (s\<lparr>bufs := f\<rparr>) = quiet p s" "quiet p (sl_taken lk q s) = quiet p s"
  by (simp_all add: quiet_def all_free_def sl_taken_def)

lemma sl_taken_simps [simp]:
  "bufs (sl_taken lk p s) = bufs s" "frame (sl_taken lk p s) = frame s" "klog.more (sl_taken lk p s) = klog.more s"
  "l_lh (sl_taken lk p s) = l_lh s" "lru (sl_taken lk p s) bs = lru s bs" "bnext (sl_taken lk p s) = bnext s" "bprev (sl_taken lk p s) = bprev s"
  by (simp_all add: sl_taken_def frame_def)

lemma frame_bufs [simp]: "frame (s\<lparr>bufs := f\<rparr>) = frame s"
  by (simp add: frame_def)

lemma frame_pid: "frame s' = frame s \<Longrightarrow> p_pid (procs s' p) = p_pid (procs s p)"
  by (auto simp: frame_def dest: fun_cong)

lemma holds_frame: "frame s' = frame s \<Longrightarrow> slocks s' = slocks s \<Longrightarrow> holds p L s' = holds p L s"
  using frame_pid [of s' s p] by (simp add: holds_def sl_mine_def)

lemma holds_taken: "holds p L s \<Longrightarrow> i < NBUF \<Longrightarrow> holds p (insert i L) (sl_taken (BufLock i) p s)"
  by (auto simp: holds_def sl_taken_def sl_mine_def)

lemma lru_same: "bnext s' = bnext s \<Longrightarrow> bprev s' = bprev s \<Longrightarrow> lru s' bs = lru s bs"
  by (simp add: lru_def)

lemma holds_bufs [simp]: "holds p L (s\<lparr>bufs := f\<rparr>) = holds p L s"
  by (rule holds_frame) simp_all

text \<open>The number of references to a block.\<close>

definition refs :: "u32 \<Rightarrow> kdk \<Rightarrow> u32 \<Rightarrow> u32" where
  "refs d s n = (case holder d n (bufs s) of None \<Rightarrow> 0 | Some i \<Rightarrow> b_refcnt (bufs s i))"

definition read_buf :: "u32 \<Rightarrow> u32 \<Rightarrow> kdk \<Rightarrow> buf" where
  "read_buf d n s = \<lparr>b_valid = True, b_disk = False, b_dev = d, b_blockno = n, b_refcnt = refs d s n + 1, b_data = content d s n\<rparr>"

definition room :: "u32 \<Rightarrow> u32 \<Rightarrow> kdk \<Rightarrow> bool" where
  "room d n s \<longleftrightarrow> holder d n (bufs s) \<noteq> None \<or> (\<exists>i < NBUF. b_refcnt (bufs s i) = 0)"

definition slot_for :: "u32 \<Rightarrow> u32 \<Rightarrow> kdk \<Rightarrow> nat \<Rightarrow> bool" where
  "slot_for d n s i \<longleftrightarrow> i < NBUF \<and> (holder d n (bufs s) = Some i \<or> holder d n (bufs s) = None \<and> b_refcnt (bufs s i) = 0)"

lemma bget_cache:
  assumes c: "cache d p L s" and nl: "\<forall>j \<in> L. holder d n (bufs s) \<noteq> Some j" and pos: "\<forall>j \<in> L. b_refcnt (bufs s j) \<noteq> 0"
    and rm: "room d n s"
  shows "\<exists>i. slot_for d n s i \<and> i \<notin> L \<and> bget sw d n s = Inr (i, sl_taken (BufLock i) p (s\<lparr>bufs := (bufs s)(i :=
    (bufs s i)\<lparr>b_dev := d, b_blockno := n, b_valid := (holder d n (bufs s) \<noteq> None \<and> b_valid (bufs s i)), b_refcnt := refs d s n + 1\<rparr>)\<rparr>))"
proof -
  obtain bs where bs: "lru s bs" "set bs = {..<NBUF}" using c by (auto simp: cache_def)
  have i: "idle p s" and u: "unique_bufs (bufs s)" and h: "holds p L s" and d: "d \<noteq> 0" using c by (auto simp: cache_def quiet_def)
  have unl: "\<not> sl_locked (slocks s (BufLock i))" if "i < NBUF" "i \<notin> L" for i using h that by (auto simp: holds_def)
  show ?thesis
  proof (cases "holder d n (bufs s)")
    case (Some i)
    then have m: "i < NBUF" "b_dev (bufs s i) = d" "b_blockno (bufs s i) = n" and "i \<notin> L" using holderD nl by blast+
    have "bget sw d n s = Inr (i, sl_taken (BufLock i) p (s\<lparr>bufs := (bufs s)(i := (bufs s i)\<lparr>b_refcnt := b_refcnt (bufs s i) + 1\<rparr>)\<rparr>))"
      using holder_unique [OF u d m bs(2)] unl [OF m(1) \<open>i \<notin> L\<close>] by (intro bget_hit [OF i bs(1)]) auto
    moreover have "(bufs s i)\<lparr>b_dev := d, b_blockno := n, b_valid := (holder d n (bufs s) \<noteq> None \<and> b_valid (bufs s i)), b_refcnt := refs d s n + 1\<rparr>
        = (bufs s i)\<lparr>b_refcnt := b_refcnt (bufs s i) + 1\<rparr>"
      using m Some by (intro buf.equality) (simp_all add: refs_def)
    ultimately show ?thesis using Some m \<open>i \<notin> L\<close> by (intro exI [of _ i]) (simp add: slot_for_def)
  next
    case None
    then have none: "find (\<lambda>i. b_dev (bufs s i) = d \<and> b_blockno (bufs s i) = n) bs = None" using bs(2) by (simp add: find_None holder_None)
    obtain i where f: "find (\<lambda>i. b_refcnt (bufs s i) = 0) (rev bs) = Some i"
      using rm None bs(2) by (cases "find (\<lambda>i. b_refcnt (bufs s i) = 0) (rev bs)") (auto simp: room_def find_None)
    then have m: "i < NBUF" "b_refcnt (bufs s i) = 0" using find_Some [OF f] bs(2) by auto
    then have "i \<notin> L" using pos by auto
    have "bget sw d n s = Inr (i, sl_taken (BufLock i) p (s\<lparr>bufs := (bufs s)(i :=
        (bufs s i)\<lparr>b_dev := d, b_blockno := n, b_valid := False, b_refcnt := 1\<rparr>)\<rparr>))"
      by (rule bget_miss(2) [OF i bs(1) none f unl [OF m(1) \<open>i \<notin> L\<close>]])
    then show ?thesis using None m \<open>i \<notin> L\<close> by (intro exI [of _ i]) (simp add: slot_for_def refs_def)
  qed
qed

lemma unique_set:
  assumes "unique_bufs t" and "b_dev q = d" and "b_blockno q = n"
    and "holder d n t = Some i \<or> holder d n t = None"
  shows "unique_bufs (t(i := q))"
  unfolding unique_bufs_def
proof (intro allI impI)
  fix j k
  assume jk: "j < NBUF" "k < NBUF"
    "j \<noteq> k \<and> b_dev ((t(i := q)) j) = b_dev ((t(i := q)) k) \<and> b_blockno ((t(i := q)) j) = b_blockno ((t(i := q)) k)"
  have other: "b_dev q = 0" if "m < NBUF" "m \<noteq> i" "b_dev (t m) = d" "b_blockno (t m) = n" for m
  proof (cases "holder d n t")
    case (Some h)
    then have "h = i" "i < NBUF" "b_dev (t i) = d" "b_blockno (t i) = n" using assms(4) holderD [OF Some] by auto
    then show ?thesis using assms(1,2) that unfolding unique_bufs_def by metis
  qed (use that in \<open>simp add: holder_None\<close>)
  consider "j = i" | "k = i" | "j \<noteq> i" "k \<noteq> i" by blast
  then show "b_dev ((t(i := q)) j) = 0"
  proof cases
    case 1
    then show ?thesis using other [of k] jk assms(2,3) by simp
  next
    case 2
    then show ?thesis using other [of j] jk assms(2,3) by (simp split: if_splits)
  next
    case 3
    then show ?thesis using assms(1) jk by (simp add: unique_bufs_def)
  qed
qed

lemma cache_set:
  assumes c: "cache d p L s" and sl: "slot_for d n s i" and q: "b_dev q = d" "b_blockno q = n" "\<not> b_disk q"
    and ok: "b_refcnt q \<noteq> 0 \<or> b_data q = disk_now s n"
    and s': "quiet p s'" "klog.more s' = klog.more s" "bnext s' = bnext s" "bprev s' = bprev s" "holds p L' s'" "bufs s' = (bufs s)(i := q)"
  shows "cache d p L' s'"
proof -
  have "unique_bufs (bufs s')" using c q(1,2) sl unfolding s'(6) by (intro unique_set) (auto simp: cache_def slot_for_def)
  moreover have "buf_ok d (disk_now s') (bufs s' j)" if "j < NBUF" for j
    using c that q ok by (simp add: s' cache_def buf_ok_def)
  moreover have "\<exists>bs. lru s' bs \<and> set bs = {..<NBUF}" using c lru_same [OF s'(3,4)] by (auto simp: cache_def)
  ultimately show ?thesis using c s' by (auto simp: cache_def)
qed

lemma bread_cache:
  assumes c: "cache d p L s" and nl: "\<forall>j \<in> L. holder d n (bufs s) \<noteq> Some j" and pos: "\<forall>j \<in> L. b_refcnt (bufs s j) \<noteq> 0"
    and rm: "room d n s" and nw: "refs d s n + 1 \<noteq> 0" and n: "unat n < 2 ^ 31" and sw: "serves sw p"
  shows "\<exists>i s'. bread sw d n s = Inr (i, s') \<and> slot_for d n s i \<and> i \<notin> L \<and> cache d p (insert i L) s' \<and>
    bufs s' = (bufs s)(i := read_buf d n s) \<and> frame s' = frame s \<and> l_lh s' = l_lh s \<and> klog.more s' = klog.more s"
proof -
  let ?v = "holder d n (bufs s) \<noteq> None"
  obtain i where sl: "slot_for d n s i" "i \<notin> L" and g: "bget sw d n s = Inr (i, sl_taken (BufLock i) p (s\<lparr>bufs := (bufs s)(i :=
      (bufs s i)\<lparr>b_dev := d, b_blockno := n, b_valid := (?v \<and> b_valid (bufs s i)), b_refcnt := refs d s n + 1\<rparr>)\<rparr>))" (is "_ = Inr (i, ?s1)")
    using bget_cache [OF c nl pos rm] by blast
  have i: "i < NBUF" using sl(1) by (simp add: slot_for_def)
  have dk: "\<not> b_disk (bufs s i)" using c i by (simp add: cache_def buf_ok_def)
  have h1: "holds p (insert i L) ?s1" using c i by (intro holds_taken) (simp_all add: cache_def)
  have q1: "quiet p ?s1" using c by (simp add: cache_def)
  note cs = cache_set [OF c sl(1), where L' = "insert i L" and q = "read_buf d n s"]
  show ?thesis
  proof (cases "?v \<and> b_valid (bufs s i)")
    case True
    then have "holder d n (bufs s) = Some i" using sl(1) by (auto simp: slot_for_def)
    then have "content d s n = b_data (bufs s i)" using True by (simp add: content_def)
    then have "bufs ?s1 i = read_buf d n s" using True dk by (intro buf.equality) (simp_all add: read_buf_def)
    then have b: "bufs ?s1 = (bufs s)(i := read_buf d n s)" by simp
    have "cache d p (insert i L) ?s1"
      using nw by (intro cs [OF _ _ _ _ q1 _ _ _ h1 b]) (simp_all add: read_buf_def)
    moreover have "bread sw d n s = Inr (i, ?s1)"
      using True by (simp add: bread_def g kmon get_buf_def)
    ultimately show ?thesis using sl b by (intro exI [of _ i] exI [of _ ?s1]) simp
  next
    case False
    then have "content d s n = disk_now s n" using sl(1) by (auto simp: content_def slot_for_def)
    obtain s2 where s2: "virtio_disk_rw sw i False ?s1 = Inr ((), s2)" "quiet p s2" "moved i False ?s1 s2" "rest_same ?s1 s2"
      using virtio_disk_rw_eq [OF sw q1, of i False] n by auto
    let ?s3 = "s2\<lparr>bufs := (bufs s2)(i := (bufs s2 i)\<lparr>b_valid := True\<rparr>)\<rparr>"
    have "bufs ?s3 i = read_buf d n s" using s2(3) dk \<open>content d s n = disk_now s n\<close>
      by (intro buf.equality) (simp_all add: moved_def read_buf_def)
    then have b: "bufs ?s3 = (bufs s)(i := read_buf d n s)" using s2(3) by (simp add: moved_def)
    have r: "frame s2 = frame s" "l_lh s2 = l_lh s" "bnext s2 = bnext s" "bprev s2 = bprev s" "klog.more s2 = klog.more s"
      "slocks s2 = slocks ?s1" using s2(3,4) by (simp_all add: rest_same_def moved_def)
    have "holds p (insert i L) s2" using h1 holds_frame [of s2 ?s1] r by simp
    then have "cache d p (insert i L) ?s3"
      using s2(2) nw r b by (intro cs) (simp_all add: read_buf_def)
    moreover have "bread sw d n s = Inr (i, ?s3)"
      using False s2(1) by (simp add: bread_def g kmon get_buf_def upd_buf_def)
    ultimately show ?thesis using sl b r by (intro exI [of _ i] exI [of _ ?s3]) simp
  qed
qed

section \<open>Writing and releasing\<close>

lemma holds_mine: "holds p L s \<Longrightarrow> i \<in> L \<Longrightarrow> sl_mine (BufLock i) p s \<and> i < NBUF"
  by (auto simp: holds_def)

lemma cache_idle: "cache d p L s \<Longrightarrow> idle p s"
  by (simp add: cache_def quiet_def)

lemma bwrite_cache:
  assumes c: "cache d p L s" and i: "i \<in> L" "b_dev (bufs s i) = d" and n: "unat (b_blockno (bufs s i)) < 2 ^ 31" and sw: "serves sw p"
  shows "\<exists>s'. bwrite sw i s = Inr ((), s') \<and> cache d p L s' \<and> bufs s' = bufs s \<and> frame s' = frame s \<and> l_lh s' = l_lh s \<and>
    klog.more s' = (disk_now s)(b_blockno (bufs s i) := b_data (bufs s i)) # klog.more s"
proof -
  have m: "sl_mine (BufLock i) p s" "i < NBUF" using c i holds_mine by (auto simp: cache_def)
  obtain s' where s': "virtio_disk_rw sw i True s = Inr ((), s')" "quiet p s'" "moved i True s s'" "rest_same s s'"
    using virtio_disk_rw_eq [OF sw, of s i True] n c by (auto simp: cache_def)
  have "\<not> b_disk (bufs s i)" using c m by (simp add: cache_def buf_ok_def)
  then have "bufs s' i = bufs s i" using s'(3) by (intro buf.equality) (simp_all add: moved_def)
  moreover have "bufs s' = (bufs s)(i := bufs s' i)" using s'(3) by (simp add: moved_def)
  ultimately have b: "bufs s' = bufs s" by (metis fun_upd_triv)
  have mr: "klog.more s' = (disk_now s)(b_blockno (bufs s i) := b_data (bufs s i)) # klog.more s"
    using s'(3) by (simp add: moved_def)
  have r: "frame s' = frame s" "l_lh s' = l_lh s" "bnext s' = bnext s" "bprev s' = bprev s" "slocks s' = slocks s"
    using s'(4) by (simp_all add: rest_same_def)
  have "buf_ok d (disk_now s') (bufs s' j)" if j: "j < NBUF" for j
  proof (cases "j = i")
    case True
    then show ?thesis using c m i by (simp add: b mr cache_def buf_ok_def)
  next
    case False
    then have "b_dev (bufs s j) = d \<longrightarrow> b_blockno (bufs s j) \<noteq> b_blockno (bufs s i)"
      using c j m i by (auto simp: cache_def unique_bufs_def)
    then show ?thesis using c j by (auto simp: b mr cache_def buf_ok_def)
  qed
  moreover have "holds p L s'" using c holds_frame [OF r(1,5)] by (simp add: cache_def)
  moreover have "\<exists>bs. lru s' bs \<and> set bs = {..<NBUF}" using c lru_same [OF r(3,4)] by (auto simp: cache_def)
  ultimately have "cache d p L s'" using c s'(2) by (simp add: cache_def b mr)
  moreover have "bwrite sw i s = Inr ((), s')"
    using holdingsleep_eq [OF cache_idle [OF c], of "BufLock i"] m s'(1) by (simp add: bwrite_def)
  ultimately show ?thesis using b r mr by blast
qed

definition relink :: "nat \<Rightarrow> 'a kbio_scheme \<Rightarrow> 'a kbio_scheme" where
  "relink i s = link_front (Buf i) (unlink (Buf i) s)"

lemma link_simps [simp]:
  "idle p (link_front b s) = idle p s" "idle p (unlink b s) = idle p s"
  "quiet p (link_front b s) = quiet p s" "quiet p (unlink b s) = quiet p s"
  "bufs (link_front b s) = bufs s" "bufs (unlink b s) = bufs s" "slocks (link_front b s) = slocks s" "slocks (unlink b s) = slocks s"
  "link_front b (lockit l s) = lockit l (link_front b s)" "unlink b (lockit l s) = lockit l (unlink b s)"
  by (simp_all add: link_front_def unlink_def Let_def set_next_def set_prev_def idle_def settled_def lk_free_def
      quiet_def all_free_def lockit_def)

lemma link_more [simp]:
  "klog.more (link_front b s) = klog.more s" "klog.more (unlink b s) = klog.more s"
  "frame (link_front b s) = frame s" "frame (unlink b s) = frame s" "l_lh (link_front b s) = l_lh s" "l_lh (unlink b s) = l_lh s"
  by (simp_all add: link_front_def unlink_def Let_def set_next_def set_prev_def frame_def)

lemma relink_lru: "lru s bs \<Longrightarrow> i \<in> set bs \<Longrightarrow> lru (relink i s) (i # remove1 i bs)"
  unfolding relink_def by (intro link_front_lru unlink_lru) (auto simp: lru_def)

text \<open>The state after brelse.\<close>

definition released :: "nat \<Rightarrow> 'a kbio_scheme \<Rightarrow> 'a kbio_scheme" where
  "released i s =
     (let t = (sl_given (BufLock i) s)\<lparr>bufs := (bufs s)(i := (bufs s i)\<lparr>b_refcnt := b_refcnt (bufs s i) - 1\<rparr>)\<rparr>
      in if b_refcnt (bufs s i) - 1 = 0 then relink i t else t)"

lemma brelse_eq:
  assumes "idle p s" and "sl_mine (BufLock i) p s"
  shows "brelse i s = Inr ((), released i s)"
proof -
  let ?g = "sl_given (BufLock i) s"
  have g: "idle p ?g" "bufs ?g = bufs s" using assms(1) by (simp_all add: sl_given_def)
  let ?t = "?g\<lparr>bufs := (bufs s)(i := (bufs s i)\<lparr>b_refcnt := b_refcnt (bufs s i) - 1\<rparr>)\<rparr>"
  have t: "idle p ?t" "idle p (relink i ?t)" using g by (simp_all add: relink_def)
  have f: "settled ?g" "lk_free BcacheLock ?g" "settled ?t" "lk_free BcacheLock ?t" "settled (relink i ?t)" "lk_free BcacheLock (relink i ?t)"
    using idleD g t by blast+
  show ?thesis
  proof (cases "b_refcnt (bufs s i) - 1 = 0")
    case True
    then have "released i s = relink i ?t" by (simp add: released_def)
    then show ?thesis unfolding brelse_def
      using f True g(2) assms(2) holdingsleep_eq [OF assms(1), of "BufLock i"] releasesleep_eq [OF assms(1), of "BufLock i"]
      by (simp add: kmon upd_buf_def get_buf_def relink_def)
  next
    case False
    then have "released i s = ?t" by (simp add: released_def)
    then show ?thesis unfolding brelse_def
      using f False g(2) assms(2) holdingsleep_eq [OF assms(1), of "BufLock i"] releasesleep_eq [OF assms(1), of "BufLock i"]
      by (simp add: kmon upd_buf_def get_buf_def)
  qed
qed

lemma sl_given_simps [simp]:
  "bufs (sl_given lk s) = bufs s" "frame (sl_given lk s) = frame s" "klog.more (sl_given lk s) = klog.more s"
  "l_lh (sl_given lk s) = l_lh s"
  by (simp_all add: sl_given_def frame_def)

lemma sl_given_lru [simp]: "lru (sl_given lk s) bs = lru s bs"
  by (simp add: sl_given_def)

lemma quiet_given [simp]: "quiet p s \<Longrightarrow> quiet p (sl_given lk s)"
  by (auto simp: quiet_def all_free_def sl_given_def wake_table_def woken_def)

lemma holds_given: "holds p L s \<Longrightarrow> holds p (L - {i}) (sl_given (BufLock i) s)"
  by (auto simp: holds_def sl_given_def sl_mine_def)

lemma released_simps [simp]:
  "bufs (released i s) = (bufs s)(i := (bufs s i)\<lparr>b_refcnt := b_refcnt (bufs s i) - 1\<rparr>)"
  "frame (released i s) = frame s" "klog.more (released i s) = klog.more s" "l_lh (released i s) = l_lh s"
  by (simp_all add: released_def Let_def relink_def)

lemma holds_released: "holds p L s \<Longrightarrow> holds p (L - {i}) (released i s)"
proof -
  assume "holds p L s"
  then have h: "holds p (L - {i}) (sl_given (BufLock i) s)" by (rule holds_given)
  have "slocks (released i s) = slocks (sl_given (BufLock i) s)" by (simp add: released_def Let_def relink_def)
  then show ?thesis using h holds_frame [of "released i s" "sl_given (BufLock i) s"] by simp
qed

lemma unique_refcnt: "unique_bufs (t(i := (t i)\<lparr>b_refcnt := r\<rparr>)) = unique_bufs t"
proof -
  have "b_dev ((t(i := (t i)\<lparr>b_refcnt := r\<rparr>)) j) = b_dev (t j)"
    "b_blockno ((t(i := (t i)\<lparr>b_refcnt := r\<rparr>)) j) = b_blockno (t j)" for j by simp_all
  then show ?thesis unfolding unique_bufs_def by presburger
qed

lemma released_lru:
  assumes "lru s bs" and "set bs = {..<NBUF}" and "i < NBUF"
  shows "\<exists>bs'. lru (released i s) bs' \<and> set bs' = {..<NBUF}"
proof (cases "b_refcnt (bufs s i) - 1 = 0")
  case True
  have "lru (relink i ((sl_given (BufLock i) s)\<lparr>bufs := f\<rparr>)) (i # remove1 i bs)" for f
    using assms by (intro relink_lru) simp_all
  then have "lru (released i s) (i # remove1 i bs)" using True by (simp add: released_def Let_def)
  moreover have "set (i # remove1 i bs) = {..<NBUF}" using assms by (auto simp: lru_def set_remove1_eq)
  ultimately show ?thesis by blast
next
  case False
  then show ?thesis using assms by (intro exI [of _ bs]) (simp add: released_def Let_def)
qed

lemma brelse_cache:
  assumes c: "cache d p L s" and i: "i \<in> L" and dv: "b_dev (bufs s i) = d"
    and cl: "b_refcnt (bufs s i) = 1 \<Longrightarrow> b_data (bufs s i) = disk_now s (b_blockno (bufs s i))"
  shows "brelse i s = Inr ((), released i s) \<and> cache d p (L - {i}) (released i s)"
proof
  have m: "sl_mine (BufLock i) p s" "i < NBUF" using c i holds_mine by (auto simp: cache_def)
  then show "brelse i s = Inr ((), released i s)" using cache_idle [OF c] by (intro brelse_eq)
  have "buf_ok d (disk_now s) ((bufs s i)\<lparr>b_refcnt := b_refcnt (bufs s i) - 1\<rparr>)"
    using c m cl dv by (auto simp: cache_def buf_ok_def)
  moreover have "quiet p (released i s)" using c by (simp add: cache_def released_def Let_def relink_def)
  moreover have "\<exists>bs'. lru (released i s) bs' \<and> set bs' = {..<NBUF}" using c m released_lru by (auto simp: cache_def)
  ultimately show "cache d p (L - {i}) (released i s)" using c holds_released by (simp add: cache_def unique_refcnt)
qed

definition unpinned :: "nat \<Rightarrow> 'a kdisk_scheme \<Rightarrow> 'a kdisk_scheme" where
  "unpinned i s = s\<lparr>bufs := (bufs s)(i := (bufs s i)\<lparr>b_refcnt := b_refcnt (bufs s i) - 1\<rparr>)\<rparr>"

lemma bunpin_cache:
  assumes c: "cache d p L s" and dv: "b_dev (bufs s i) = d"
    and cl: "b_refcnt (bufs s i) = 1 \<Longrightarrow> b_data (bufs s i) = disk_now s (b_blockno (bufs s i))"
  shows "bunpin i s = Inr ((), unpinned i s) \<and> cache d p L (unpinned i s)"
proof
  have f: "idle p s" "idle p (unpinned i s)" using cache_idle [OF c] by (simp_all add: unpinned_def)
  then have "settled s" "lk_free BcacheLock s" "settled (unpinned i s)" "lk_free BcacheLock (unpinned i s)" using idleD by blast+
  then show "bunpin i s = Inr ((), unpinned i s)" by (simp add: bunpin_def kmon upd_buf_def unpinned_def)
  show "cache d p L (unpinned i s)"
    using c cl dv by (auto simp: cache_def unpinned_def unique_refcnt buf_ok_def)
qed

lemma bpin_eq:
  assumes "idle p s"
  shows "bpin i s = Inr ((), s\<lparr>bufs := (bufs s)(i := (bufs s i)\<lparr>b_refcnt := b_refcnt (bufs s i) + 1\<rparr>)\<rparr>)"
proof -
  have "settled (s\<lparr>bufs := f\<rparr>)" "lk_free BcacheLock (s\<lparr>bufs := f\<rparr>)" "settled s" "lk_free BcacheLock s" for f
    using idleD [of p "s\<lparr>bufs := f\<rparr>"] idleD [OF assms] assms by simp_all
  then show ?thesis by (simp add: bpin_def kmon upd_buf_def)
qed

end
