(* ===== verification/Bio_View.thy ===== *)
theory Bio_View
  imports Bio_Facts
begin

text \<open>
  The buffer cache seen block by block: the current contents of every block, the number of
  references to it, and the contents of the disk. The layers above the cache are verified on this
  view; which buffer a block sits in no longer matters to them.
\<close>

section \<open>Blocks and their buffers\<close>

definition buf_of :: "u32 \<Rightarrow> kdk \<Rightarrow> nat \<Rightarrow> u32 \<Rightarrow> bool" where
  "buf_of d s i n \<longleftrightarrow> holder d n (bufs s) = Some i \<and> b_valid (bufs s i)"

lemma buf_ofD:
  assumes "buf_of d s i n"
  shows "i < NBUF" "b_dev (bufs s i) = d" "b_blockno (bufs s i) = n" "b_valid (bufs s i)"
    "content d s n = b_data (bufs s i)" "refs d s n = b_refcnt (bufs s i)"
  using assms holderD by (auto simp: buf_of_def content_def refs_def)

lemma buf_of_inj: "buf_of d s i n \<Longrightarrow> buf_of d s i m \<Longrightarrow> n = m"
  using buf_ofD(3) by blast

lemma holder_None_upd:
  assumes "unique_bufs t" and "d \<noteq> 0" and "i < NBUF" and "b_dev (t i) = d \<longrightarrow> b_blockno (t i) \<noteq> m"
    and "\<not> (b_dev q = d \<and> b_blockno q = m)"
  shows "holder d m (t(i := q)) = holder d m t"
proof (cases "holder d m t")
  case (Some j)
  then have j: "j < NBUF" "b_dev (t j) = d" "b_blockno (t j) = m" using holderD by blast+
  then have "j \<noteq> i" using assms(4) by auto
  have "find (\<lambda>k. b_dev ((t(i := q)) k) = d \<and> b_blockno ((t(i := q)) k) = m) [0..<NBUF] = Some j"
  proof (rule find_unique)
    fix k
    assume "k \<in> set [0..<NBUF]" and k: "b_dev ((t(i := q)) k) = d \<and> b_blockno ((t(i := q)) k) = m"
    then show "k = j" using assms j by (cases "k = i") (auto simp: unique_bufs_def)
  qed (use j \<open>j \<noteq> i\<close> in simp_all)
  then show ?thesis using Some by (simp add: holder_def)
next
  case None
  then have "holder d m (t(i := q)) = None" using assms(5) by (auto simp: holder_None)
  then show ?thesis using None by simp
qed

lemma cache_free_content:
  assumes "cache d p L s" and "refs d s n = 0"
  shows "content d s n = disk_now s n"
proof (cases "holder d n (bufs s)")
  case (Some i)
  then have "i < NBUF" "b_dev (bufs s i) = d" "b_blockno (bufs s i) = n" using holderD by blast+
  then show ?thesis using assms Some by (auto simp: cache_def buf_ok_def content_def refs_def)
qed (simp add: content_def)

lemma room_card:
  assumes c: "cache d p L s" and B: "finite B" "card B < NBUF" "\<And>m. refs d s m \<noteq> 0 \<Longrightarrow> m \<in> B"
  shows "room d n s"
proof (rule ccontr)
  assume "\<not> room d n s"
  then have nz: "b_refcnt (bufs s i) \<noteq> 0" if "i < NBUF" for i using that by (auto simp: room_def)
  have dv: "b_dev (bufs s i) = d" if "i < NBUF" for i using c nz [OF that] that by (auto simp: cache_def buf_ok_def)
  have u: "unique_bufs (bufs s)" "d \<noteq> 0" using c by (auto simp: cache_def)
  have "inj_on (\<lambda>i. b_blockno (bufs s i)) {..<NBUF}"
    using u dv by (auto simp: inj_on_def unique_bufs_def)
  moreover have "(\<lambda>i. b_blockno (bufs s i)) ` {..<NBUF} \<subseteq> B"
  proof
    fix m
    assume "m \<in> (\<lambda>i. b_blockno (bufs s i)) ` {..<NBUF}"
    then obtain i where i: "i < NBUF" "m = b_blockno (bufs s i)" by auto
    then have "holder d m (bufs s) = Some i" using u dv by (intro holderI) simp_all
    then show "m \<in> B" using nz [OF i(1)] by (intro B(3)) (simp add: refs_def)
  qed
  ultimately have "NBUF \<le> card B" using B(1) by (metis card_image card_lessThan card_mono)
  then show False using B(2) by simp
qed

section \<open>The operations on blocks\<close>

lemma read_slot:
  assumes c: "cache d p L s" and sl: "slot_for d n s i" and b: "bufs s' = (bufs s)(i := read_buf d n s)" and m: "klog.more s' = klog.more s"
  shows "buf_of d s' i n" and "content d s' = content d s" and "refs d s' = (refs d s)(n := refs d s n + 1)"
    and "buf_of d s j k \<Longrightarrow> refs d s k \<noteq> 0 \<Longrightarrow> buf_of d s' j k"
proof -
  have u: "unique_bufs (bufs s)" "d \<noteq> 0" "i < NBUF" using c sl by (auto simp: cache_def slot_for_def)
  have q: "b_dev (read_buf d n s) = d" "b_blockno (read_buf d n s) = n" "b_valid (read_buf d n s)"
    "b_data (read_buf d n s) = content d s n" "b_refcnt (read_buf d n s) = refs d s n + 1" by (simp_all add: read_buf_def)
  have u': "unique_bufs (bufs s')" unfolding b using u(1) q sl by (intro unique_set) (auto simp: slot_for_def)
  have hn: "holder d n (bufs s') = Some i" using u u' b q by (intro holderI) simp_all
  show bi: "buf_of d s' i n" using hn b q by (simp add: buf_of_def)
  have other: "content d s' k = content d s k \<and> refs d s' k = refs d s k \<and> (refs d s k \<noteq> 0 \<longrightarrow> holder d k (bufs s') = holder d k (bufs s))"
    if k: "k \<noteq> n" for k
  proof (cases "b_dev (bufs s i) = d \<and> b_blockno (bufs s i) = k")
    case False
    then have "holder d k (bufs s') = holder d k (bufs s)"
      unfolding b using u k q by (intro holder_None_upd) auto
    moreover have "holder d k (bufs s) \<noteq> Some i" using False holderD by blast
    ultimately show ?thesis using m by (auto simp: content_def refs_def b split: option.splits)
  next
    case True
    then have h: "holder d k (bufs s) = Some i" using u by (intro holderI) simp_all
    have "holder d n (bufs s) \<noteq> Some i" using True k holderD by blast
    then have z: "b_refcnt (bufs s i) = 0" using sl by (auto simp: slot_for_def)
    have "holder d k (bufs s') = None"
      using True u k q unfolding holder_None b by (auto simp: unique_bufs_def)
    then show ?thesis using h z m cache_free_content [OF c, of k] by (simp add: content_def refs_def)
  qed
  show "content d s' = content d s"
  proof
    fix k
    show "content d s' k = content d s k" using other [of k] buf_ofD(5) [OF bi] b q by (cases "k = n") auto
  qed
  show "refs d s' = (refs d s)(n := refs d s n + 1)"
  proof
    fix k
    show "refs d s' k = ((refs d s)(n := refs d s n + 1)) k" using other [of k] buf_ofD(6) [OF bi] b q by (cases "k = n") auto
  qed
  show "buf_of d s' j k" if jk: "buf_of d s j k" "refs d s k \<noteq> 0"
  proof (cases "k = n")
    case True
    then have "i = j" using jk(1) sl by (auto simp: slot_for_def buf_of_def)
    then show ?thesis using bi True by simp
  next
    case False
    then have "holder d k (bufs s') = Some j" using other [of k] jk by (simp add: buf_of_def)
    moreover have "j \<noteq> i"
      using holderD [OF \<open>holder d k (bufs s') = Some j\<close>] False b q by auto
    ultimately show ?thesis using jk(1) b by (simp add: buf_of_def)
  qed
qed

definition view :: "u32 \<Rightarrow> kdk \<Rightarrow> (u32 \<Rightarrow> u8 list) \<times> (u32 \<Rightarrow> u32) \<times> disk list" where
  "view d s = (content d s, refs d s, klog.more s)"

definition log_same :: "kdk \<Rightarrow> kdk \<Rightarrow> bool" where
  "log_same s s' \<longleftrightarrow> frame s' = frame s \<and> l_lh s' = l_lh s"

lemma log_same_trans: "log_same s t \<Longrightarrow> log_same t u \<Longrightarrow> log_same s u"
  by (simp add: log_same_def)

text \<open>The process may read block n: it does not hold it, and there is a buffer for it.\<close>

definition can_read :: "u32 \<Rightarrow> nat set \<Rightarrow> kdk \<Rightarrow> u32 \<Rightarrow> bool" where
  "can_read d L s n \<longleftrightarrow> (\<forall>j \<in> L. holder d n (bufs s) \<noteq> Some j) \<and> (\<forall>j \<in> L. b_refcnt (bufs s j) \<noteq> 0) \<and>
     room d n s \<and> refs d s n + 1 \<noteq> 0 \<and> unat n < 2 ^ 31"

lemma blk_read:
  assumes "cache d p L s" and "can_read d L s n" and "serves sw p"
  shows "\<exists>i s'. bread sw d n s = Inr (i, s') \<and> i \<notin> L \<and> cache d p (insert i L) s' \<and> buf_of d s' i n \<and>
    view d s' = (content d s, (refs d s)(n := refs d s n + 1), klog.more s) \<and> log_same s s' \<and>
    (\<forall>j k. buf_of d s j k \<and> refs d s k \<noteq> 0 \<longrightarrow> buf_of d s' j k)"
proof -
  obtain i s' where r: "bread sw d n s = Inr (i, s')" "slot_for d n s i" "i \<notin> L" "cache d p (insert i L) s'"
    "bufs s' = (bufs s)(i := read_buf d n s)" "frame s' = frame s" "l_lh s' = l_lh s" "klog.more s' = klog.more s"
    using bread_cache [OF assms(1) _ _ _ _ _ assms(3), of n] assms(2) unfolding can_read_def by blast
  then show ?thesis using read_slot [OF assms(1) r(2,5,8)] by (auto simp: view_def log_same_def)
qed

lemma holder_same_ids:
  assumes "b_dev q = b_dev (t i)" and "b_blockno q = b_blockno (t i)"
  shows "holder d n (t(i := q)) = holder d n t"
proof -
  have "b_dev ((t(i := q)) j) = b_dev (t j)" "b_blockno ((t(i := q)) j) = b_blockno (t j)" for j using assms by simp_all
  then show ?thesis unfolding holder_def by presburger
qed

lemma view_upd:
  assumes "buf_of d s i n" and "bufs s' = (bufs s)(i := q)" and "b_dev q = d" "b_blockno q = n" "b_valid q"
    and "disk_now s' = disk_now s"
  shows "content d s' = (content d s)(n := b_data q)" and "refs d s' = (refs d s)(n := b_refcnt q)" and "buf_of d s' j k = buf_of d s j k"
proof -
  note b = buf_ofD [OF assms(1)]
  have h: "holder d m (bufs s') = holder d m (bufs s)" for m
    unfolding assms(2) using assms(3,4) b by (intro holder_same_ids) simp_all
  have hn: "holder d n (bufs s) = Some i" using assms(1) by (simp add: buf_of_def)
  have ni: "j \<noteq> i" if "holder d m (bufs s) = Some j" "m \<noteq> n" for m j using holderD [OF that(1)] that(2) b by auto
  have bi: "bufs s' i = q" and bj: "\<And>j. j \<noteq> i \<Longrightarrow> bufs s' j = bufs s j" using assms(2) by simp_all
  have "content d s' m = ((content d s)(n := b_data q)) m \<and> refs d s' m = ((refs d s)(n := b_refcnt q)) m" for m
  proof (cases "m = n")
    case True
    then show ?thesis using assms(5) by (simp add: content_def refs_def h hn bi)
  next
    case False
    then show ?thesis using ni assms(6) by (cases "holder d m (bufs s)") (simp_all add: content_def refs_def h bj)
  qed
  then show "content d s' = (content d s)(n := b_data q)" and "refs d s' = (refs d s)(n := b_refcnt q)" by (simp_all add: fun_eq_iff)
  show "buf_of d s' j k = buf_of d s j k" using assms(5) b(4) bi bj [of j] by (cases "j = i") (simp_all add: buf_of_def h)
qed

lemma blk_modify:
  assumes c: "cache d p L s" and b: "buf_of d s i n" and z: "refs d s n \<noteq> 0"
  shows "let s' = s\<lparr>bufs := (bufs s)(i := (bufs s i)\<lparr>b_data := x\<rparr>)\<rparr> in
    cache d p L s' \<and> view d s' = ((content d s)(n := x), refs d s, klog.more s) \<and> log_same s s' \<and>
    (\<forall>j k. buf_of d s' j k = buf_of d s j k)"
proof -
  let ?q = "(bufs s i)\<lparr>b_data := x\<rparr>"
  let ?s = "s\<lparr>bufs := (bufs s)(i := ?q)\<rparr>"
  note bd = buf_ofD [OF b]
  note v = view_upd [OF b, where s' = ?s and q = ?q]
  have "slot_for d n s i" using b bd by (simp add: slot_for_def buf_of_def)
  then have "cache d p L ?s"
    using c bd z by (rule_tac cache_set [OF c]) (auto simp: cache_def buf_ok_def)
  moreover have "view d ?s = ((content d s)(n := x), refs d s, klog.more s)"
  proof -
    have "(refs d s)(n := b_refcnt (bufs s i)) = refs d s" using bd(6) by (metis fun_upd_triv)
    then show ?thesis using v(1,2) bd(2-4) by (simp add: view_def)
  qed
  moreover have "log_same s ?s" by (simp add: log_same_def)
  moreover have "\<forall>j k. buf_of d ?s j k = buf_of d s j k" using v(3) bd by simp
  ultimately show ?thesis by (simp only: Let_def simp_thms)
qed

lemma blk_write:
  assumes c: "cache d p L s" and b: "buf_of d s i n" and i: "i \<in> L" and n: "unat n < 2 ^ 31" and sw: "serves sw p"
  shows "\<exists>s'. bwrite sw i s = Inr ((), s') \<and> cache d p L s' \<and>
    view d s' = (content d s, refs d s, (disk_now s)(n := content d s n) # klog.more s) \<and> log_same s s' \<and>
    (\<forall>j k. buf_of d s' j k = buf_of d s j k)"
proof -
  note bd = buf_ofD [OF b]
  obtain s' where s': "bwrite sw i s = Inr ((), s')" "cache d p L s'" "bufs s' = bufs s" "frame s' = frame s" "l_lh s' = l_lh s"
    "klog.more s' = (disk_now s)(n := b_data (bufs s i)) # klog.more s"
    using bwrite_cache [OF c i _ _ sw] bd n by auto
  have "content d s' m = content d s m" for m
    using s'(3,6) bd b by (cases "m = n") (auto simp: content_def buf_of_def split: option.splits)
  then have "content d s' = content d s" by (rule ext)
  moreover have "refs d s' = refs d s" by (rule ext) (simp only: refs_def s'(3))
  ultimately show ?thesis using s' bd by (auto simp: view_def log_same_def buf_of_def)
qed

lemma blk_release:
  assumes c: "cache d p L s" and b: "buf_of d s i n" and i: "i \<in> L" and cl: "refs d s n = 1 \<Longrightarrow> content d s n = disk_now s n"
  shows "\<exists>s'. brelse i s = Inr ((), s') \<and> cache d p (L - {i}) s' \<and>
    view d s' = (content d s, (refs d s)(n := refs d s n - 1), klog.more s) \<and> log_same s s' \<and>
    (\<forall>j k. buf_of d s' j k = buf_of d s j k)"
proof -
  note bd = buf_ofD [OF b]
  have r: "brelse i s = Inr ((), released i s)" "cache d p (L - {i}) (released i s)"
    using brelse_cache [OF c i] bd cl by auto
  have "content d (released i s) = content d s" "refs d (released i s) = (refs d s)(n := refs d s n - 1)"
    "\<forall>j k. buf_of d (released i s) j k = buf_of d s j k"
    using view_upd [OF b released_simps(1)] bd by auto
  then show ?thesis using r by (intro exI [of _ "released i s"]) (simp add: view_def log_same_def)
qed

lemma blk_unpin:
  assumes c: "cache d p L s" and b: "buf_of d s i n" and cl: "refs d s n = 1 \<Longrightarrow> content d s n = disk_now s n"
  shows "\<exists>s'. bunpin i s = Inr ((), s') \<and> cache d p L s' \<and>
    view d s' = (content d s, (refs d s)(n := refs d s n - 1), klog.more s) \<and> log_same s s' \<and>
    (\<forall>j k. buf_of d s' j k = buf_of d s j k)"
proof -
  note bd = buf_ofD [OF b]
  have r: "bunpin i s = Inr ((), unpinned i s)" "cache d p L (unpinned i s)"
    using bunpin_cache [OF c] bd cl by auto
  have bu: "bufs (unpinned i s) = (bufs s)(i := (bufs s i)\<lparr>b_refcnt := b_refcnt (bufs s i) - 1\<rparr>)" by (simp add: unpinned_def)
  have "content d (unpinned i s) = content d s" "refs d (unpinned i s) = (refs d s)(n := refs d s n - 1)"
    "\<forall>j k. buf_of d (unpinned i s) j k = buf_of d s j k"
    using view_upd [OF b bu] bd by (auto simp: unpinned_def)
  then show ?thesis using r by (intro exI [of _ "unpinned i s"]) (simp add: view_def log_same_def unpinned_def)
qed

end
