(* ===== verification/Log_Facts.thy ===== *)
theory Log_Facts
  imports Bio_View
begin

text \<open>
  What the parts of kernel/log.c do to blocks: the sequence of disk writes that write_log, write_head,
  install_trans and commit perform, and their effect on the contents of the cache.
\<close>

section \<open>Small steps\<close>

lemma view_parts:
  "view d s = (c, r, h) \<longleftrightarrow> content d s = c \<and> refs d s = r \<and> klog.more s = h"
  by (simp add: view_def)

lemma log_same_fields:
  assumes "log_same s s'"
  shows "l_dev s' = l_dev s" "l_start s' = l_start s" "l_lh s' = l_lh s" "l_size s' = l_size s" "l_outstanding s' = l_outstanding s"
    "l_committing s' = l_committing s" "frame s' = frame s"
  using assms by (auto simp: log_same_def frame_def)

lemma refs_holder: "refs d s n \<noteq> 0 \<Longrightarrow> holder d n (bufs s) \<noteq> None"
  by (auto simp: refs_def split: option.splits)

lemma get_buf_eq: "get_buf i f s = Inr (f (bufs s i), s)"
  by (simp add: get_buf_def kmon)

lemma upd_buf_eq: "upd_buf i f s = Inr ((), s\<lparr>bufs := (bufs s)(i := f (bufs s i))\<rparr>)"
  by (simp add: upd_buf_def kmon)

lemma get_lh_block_eq: "i < LOGSIZE \<Longrightarrow> get_lh_block i s = Inr (lh_block (l_lh s) ! i, s)"
  by (simp add: get_lh_block_def kmon)

lemma log_blockno_eq: "log_blockno i s = Inr (l_start s + of_nat i + 1, s)"
  by (simp add: log_blockno_def kmon)

lemma kget_eq: "kget f s = Inr (f s, s)"
  by (simp add: kget_def)

text \<open>References are held by a set of blocks that leaves a buffer free.\<close>

definition few_refs :: "u32 \<Rightarrow> kdk \<Rightarrow> nat \<Rightarrow> bool" where
  "few_refs d s k \<longleftrightarrow> (\<exists>B. finite B \<and> card B \<le> k \<and> (\<forall>m. refs d s m \<noteq> 0 \<longrightarrow> m \<in> B))"

lemma few_refs_room: "cache d p L s \<Longrightarrow> few_refs d s k \<Longrightarrow> k < NBUF \<Longrightarrow> room d n s"
  unfolding few_refs_def using room_card by (metis le_less_trans)

lemma few_refs_upd: "few_refs d s k \<Longrightarrow> refs d s' = (refs d s)(n := r) \<Longrightarrow> few_refs d s' (Suc k)"
  unfolding few_refs_def
  by (elim exE conjE) (rule_tac x = "insert n B" in exI, auto simp: card_insert_if)

lemma first_read:
  assumes "cache d p {} s" and "serves sw p" and "unat n < 2 ^ 31" and "refs d s n = 0" and "few_refs d s k" and "k < NBUF"
  shows "\<exists>i s'. bread sw d n s = Inr (i, s') \<and> cache d p {i} s' \<and> buf_of d s' i n \<and>
    view d s' = (content d s, (refs d s)(n := 1), klog.more s) \<and> log_same s s'"
proof -
  have "can_read d {} s n" using assms few_refs_room [OF assms(1,5,6)] by (simp add: can_read_def)
  from blk_read [OF assms(1) this assms(2)] show ?thesis using assms(4) by auto
qed

lemma second_read:
  assumes c: "cache d p {i} s" and sw: "serves sw p" and b: "buf_of d s i m" "refs d s m \<noteq> 0" and n: "unat n < 2 ^ 31" "n \<noteq> m"
    and r: "refs d s n + 1 \<noteq> 0" and f: "refs d s n \<noteq> 0 \<or> room d n s"
  shows "\<exists>j s'. bread sw d n s = Inr (j, s') \<and> j \<noteq> i \<and> cache d p {i, j} s' \<and> buf_of d s' j n \<and> buf_of d s' i m \<and>
    view d s' = (content d s, (refs d s)(n := refs d s n + 1), klog.more s) \<and> log_same s s'"
proof -
  have "holder d n (bufs s) \<noteq> Some i" using holderD buf_ofD(3) [OF b(1)] n(2) by blast
  moreover have "room d n s" using f refs_holder by (auto simp: room_def)
  moreover have "b_refcnt (bufs s i) \<noteq> 0" using b buf_ofD(6) [OF b(1)] by simp
  ultimately have "can_read d {i} s n" using n r by (simp add: can_read_def)
  from blk_read [OF c this sw] obtain j s' where j: "bread sw d n s = Inr (j, s')" "j \<notin> {i}" "cache d p (insert j {i}) s'"
    "buf_of d s' j n" "view d s' = (content d s, (refs d s)(n := refs d s n + 1), klog.more s)" "log_same s s'"
    "\<forall>j k. buf_of d s j k \<and> refs d s k \<noteq> 0 \<longrightarrow> buf_of d s' j k" by blast
  moreover have "buf_of d s' i m" using j(7) b by blast
  moreover have "insert j {i} = {i, j}" by blast
  ultimately show ?thesis by (intro exI [of _ j] exI [of _ s']) simp
qed

section \<open>write_log\<close>

definition write_log_body :: "(kdk, unit) km \<Rightarrow> nat \<Rightarrow> (kdk, unit) km" where
  "write_log_body sw tail =
       kbind (kget l_dev) (\<lambda>dev.
       kbind (log_blockno tail) (\<lambda>lno.
       kbind (bread sw dev lno) (\<lambda>to.
       kbind (get_lh_block tail) (\<lambda>home.
       kbind (bread sw dev home) (\<lambda>from.
       kbind (get_buf from b_data) (\<lambda>data.
       kseq (upd_buf to (\<lambda>q. q\<lparr>b_data := data\<rparr>)) (
       kseq (bwrite sw to) (
       kseq (brelse from) (
       brelse to)))))))))"

lemma write_log_unfold: "write_log sw = kbind get_lh_n (\<lambda>n. kfor [0..<nat n] (write_log_body sw))"
  unfolding write_log_def write_log_body_def ..

lemma write_log_step:
  assumes c: "cache d p {} s" and sw: "serves sw p" and d: "l_dev s = d" and t: "tail < LOGSIZE"
    and lno: "lno = l_start s + of_nat tail + 1" and home: "home = lh_block (l_lh s) ! tail"
    and ne: "home \<noteq> lno" and u: "unat lno < 2 ^ 31" "unat home < 2 ^ 31" and f: "few_refs d s k" "k < NBUF"
    and r: "refs d s lno = 0" "refs d s home = 1"
  shows "\<exists>s'. write_log_body sw tail s = Inr ((), s') \<and> cache d p {} s' \<and> log_same s s' \<and>
    view d s' = ((content d s)(lno := content d s home), refs d s, (disk_now s)(lno := content d s home) # klog.more s)"
proof -
  let ?x = "content d s home"
  obtain i s1 where s1: "bread sw d lno s = Inr (i, s1)" "cache d p {i} s1" "buf_of d s1 i lno"
    "content d s1 = content d s" "refs d s1 = (refs d s)(lno := 1)" "klog.more s1 = klog.more s" "log_same s s1"
    using first_read [OF c sw u(1) r(1) f] by (auto simp: view_parts)
  obtain j s2 where s2: "bread sw d home s1 = Inr (j, s2)" "j \<noteq> i" "cache d p {i, j} s2" "buf_of d s2 j home" "buf_of d s2 i lno"
    "content d s2 = content d s" "refs d s2 = (refs d s)(lno := 1, home := 2)" "klog.more s2 = klog.more s" "log_same s1 s2"
    using second_read [OF s1(2) sw s1(3) _ u(2) ne] s1 r ne by (auto simp: view_parts)
  let ?s3 = "s2\<lparr>bufs := (bufs s2)(i := (bufs s2 i)\<lparr>b_data := ?x\<rparr>)\<rparr>"
  have s3: "cache d p {i, j} ?s3" "content d ?s3 = (content d s)(lno := ?x)" "refs d ?s3 = refs d s2" "klog.more ?s3 = klog.more s"
    "log_same s2 ?s3" "buf_of d ?s3 i lno" "buf_of d ?s3 j home"
    using blk_modify [OF s2(3,5), of ?x] s2 ne by (auto simp: Let_def view_parts)
  obtain s4 where s4: "bwrite sw i ?s3 = Inr ((), s4)" "cache d p {i, j} s4" "content d s4 = (content d s)(lno := ?x)"
    "refs d s4 = refs d s2" "klog.more s4 = (disk_now s)(lno := ?x) # klog.more s" "log_same ?s3 s4" "buf_of d s4 i lno" "buf_of d s4 j home"
    using blk_write [OF s3(1,6) _ u(1) sw] s3 by (auto simp: view_parts)
  obtain s5 where s5: "brelse j s4 = Inr ((), s5)" "cache d p {i} s5" "content d s5 = (content d s)(lno := ?x)"
    "refs d s5 = (refs d s)(lno := 1, home := 1)" "klog.more s5 = klog.more s4" "log_same s4 s5" "buf_of d s5 i lno"
    using blk_release [OF s4(2,8)] s4 s2(2,7) ne by (auto simp: view_parts insert_Diff_if)
  obtain s6 where s6: "brelse i s5 = Inr ((), s6)" "cache d p {} s6" "content d s6 = (content d s)(lno := ?x)"
    "refs d s6 = (refs d s)(home := 1, lno := 0)" "klog.more s6 = klog.more s4" "log_same s5 s6"
    using blk_release [OF s5(2,7)] s5 s4(5) ne by (auto simp: view_parts fun_upd_twist)
  have "(refs d s)(home := 1, lno := 0) = refs d s" using r by (auto simp: fun_eq_iff)
  moreover have "log_same s s6" using log_same_trans s1(7) s2(9) s3(5) s4(6) s5(6) s6(6) by blast
  moreover have dt: "b_data (bufs s2 j) = ?x" using buf_ofD(5) [OF s2(4)] s2(6) by simp
  have "write_log_body sw tail s = Inr ((), s6)"
    unfolding write_log_body_def
    using s1(1) s2(1) s4(1) s5(1) s6(1) d t lno home log_same_fields [OF s1(7)] dt
    by (simp add: kget_eq log_blockno_eq get_lh_block_eq get_buf_eq upd_buf_eq kseq_Inr)
  ultimately show ?thesis using s6 s4(5) by (auto simp: view_parts)
qed

section \<open>install_trans\<close>

definition install_body :: "(kdk, unit) km \<Rightarrow> nat \<Rightarrow> (kdk, unit) km" where
  "install_body sw tail =
       kbind (kget l_dev) (\<lambda>dev.
       kbind (log_blockno tail) (\<lambda>lno.
       kbind (bread sw dev lno) (\<lambda>lbuf.
       kbind (get_lh_block tail) (\<lambda>home.
       kbind (bread sw dev home) (\<lambda>dbuf.
       kbind (get_buf lbuf b_data) (\<lambda>data.
       kseq (upd_buf dbuf (\<lambda>q. q\<lparr>b_data := data\<rparr>)) (
       kseq (bwrite sw dbuf) (
       kseq (bunpin dbuf) (
       kseq (brelse lbuf) (
       brelse dbuf))))))))))"

lemma install_unfold: "install_trans sw = kbind get_lh_n (\<lambda>n. kfor [0..<nat n] (install_body sw))"
  unfolding install_trans_def install_body_def ..

text \<open>
  The reference count of the home block goes down by one, from 1 to 0 in a commit, where log_write
  pinned it; in recovery nobody did, and it goes down from 0.
\<close>

lemma install_step:
  assumes c: "cache d p {} s" and sw: "serves sw p" and d: "l_dev s = d" and t: "tail < LOGSIZE"
    and lno: "lno = l_start s + of_nat tail + 1" and home: "home = lh_block (l_lh s) ! tail"
    and ne: "home \<noteq> lno" and u: "unat lno < 2 ^ 31" "unat home < 2 ^ 31" and f: "few_refs d s k" "k < NBUF"
    and r: "refs d s lno = 0" "refs d s home + 1 \<noteq> 0" and rm: "refs d s home \<noteq> 0 \<or> Suc k < NBUF"
  shows "\<exists>s'. install_body sw tail s = Inr ((), s') \<and> cache d p {} s' \<and> log_same s s' \<and>
    view d s' = ((content d s)(home := content d s lno), (refs d s)(home := refs d s home - 1),
      (disk_now s)(home := content d s lno) # klog.more s)"
proof -
  let ?x = "content d s lno"
  obtain i s1 where s1: "bread sw d lno s = Inr (i, s1)" "cache d p {i} s1" "buf_of d s1 i lno"
    "content d s1 = content d s" "refs d s1 = (refs d s)(lno := 1)" "klog.more s1 = klog.more s" "log_same s s1"
    using first_read [OF c sw u(1) r(1) f] by (auto simp: view_parts)
  have "refs d s1 home \<noteq> 0 \<or> room d home s1"
    using rm few_refs_room [OF s1(2) few_refs_upd [OF f(1) s1(5)]] ne s1(5) by auto
  then obtain j s2 where s2: "bread sw d home s1 = Inr (j, s2)" "j \<noteq> i" "cache d p {i, j} s2" "buf_of d s2 j home" "buf_of d s2 i lno"
    "content d s2 = content d s" "refs d s2 = (refs d s)(lno := 1, home := refs d s home + 1)" "klog.more s2 = klog.more s" "log_same s1 s2"
    using second_read [OF s1(2) sw s1(3) _ u(2) ne] s1 r ne by (auto simp: view_parts)
  let ?s3 = "s2\<lparr>bufs := (bufs s2)(j := (bufs s2 j)\<lparr>b_data := ?x\<rparr>)\<rparr>"
  have s3: "cache d p {i, j} ?s3" "content d ?s3 = (content d s)(home := ?x)" "refs d ?s3 = refs d s2" "klog.more ?s3 = klog.more s"
    "log_same s2 ?s3" "buf_of d ?s3 i lno" "buf_of d ?s3 j home"
    using blk_modify [OF s2(3,4), of ?x] s2 r(2) by (auto simp: Let_def view_parts)
  obtain s4 where s4: "bwrite sw j ?s3 = Inr ((), s4)" "cache d p {i, j} s4" "content d s4 = (content d s)(home := ?x)"
    "refs d s4 = refs d s2" "klog.more s4 = (disk_now s)(home := ?x) # klog.more s" "log_same ?s3 s4" "buf_of d s4 i lno" "buf_of d s4 j home"
    using blk_write [OF s3(1,7) _ u(2) sw] s3 by (auto simp: view_parts)
  obtain s5 where s5: "bunpin j s4 = Inr ((), s5)" "cache d p {i, j} s5" "content d s5 = (content d s)(home := ?x)"
    "refs d s5 = (refs d s)(lno := 1, home := refs d s home)" "klog.more s5 = klog.more s4" "log_same s4 s5"
    "buf_of d s5 i lno" "buf_of d s5 j home"
    using blk_unpin [OF s4(2,8)] s4 s2(7) by (auto simp: view_parts)
  have lno_clean: "?x = disk_now s lno" using cache_free_content [OF c r(1)] .
  obtain s6 where s6: "brelse i s5 = Inr ((), s6)" "cache d p {j} s6" "content d s6 = (content d s)(home := ?x)"
    "refs d s6 = (refs d s)(lno := 0, home := refs d s home)" "klog.more s6 = klog.more s4" "log_same s5 s6" "buf_of d s6 j home"
    using blk_release [OF s5(2,7)] s5 s4(5) s2(2) ne lno_clean by (auto simp: view_parts insert_Diff_if fun_upd_twist)
  obtain s7 where s7: "brelse j s6 = Inr ((), s7)" "cache d p {} s7" "content d s7 = (content d s)(home := ?x)"
    "refs d s7 = (refs d s)(lno := 0, home := refs d s home - 1)" "klog.more s7 = klog.more s4" "log_same s6 s7"
    using blk_release [OF s6(2,7)] s6 s4(5) by (auto simp: view_parts)
  have "(refs d s)(lno := 0, home := refs d s home - 1) = (refs d s)(home := refs d s home - 1)" using r(1) by (auto simp: fun_eq_iff)
  moreover have "log_same s s7" using log_same_trans s1(7) s2(9) s3(5) s4(6) s5(6) s6(6) s7(6) by blast
  moreover have dt: "b_data (bufs s2 i) = ?x" using buf_ofD(5) [OF s2(5)] s2(6) by simp
  have "install_body sw tail s = Inr ((), s7)"
    unfolding install_body_def
    using s1(1) s2(1) s4(1) s5(1) s6(1) s7(1) d t lno home log_same_fields [OF s1(7)] dt
    by (simp add: kget_eq log_blockno_eq get_lh_block_eq get_buf_eq upd_buf_eq kseq_Inr)
  ultimately show ?thesis using s7 s4(5) by (auto simp: view_parts)
qed

section \<open>write_head\<close>

definition put_head :: "logheader \<Rightarrow> u8 list \<Rightarrow> u8 list" where
  "put_head h data = fold (\<lambda>i dt. put32 dt (4 + 4 * i) (lh_block h ! i)) [0..<nat (lh_n h)] (put32 data 0 (of_int (lh_n h)))"

lemma write_head_loop:
  assumes "cache d p {i} s" and "buf_of d s i n" and "refs d s n = 1" and "\<forall>k \<in> set ks. k < LOGSIZE"
  shows "\<exists>s'. kfor ks (\<lambda>k. kbind (get_lh_block k) (\<lambda>v. upd_buf i (\<lambda>q. q\<lparr>b_data := put32 (b_data q) (4 + 4 * k) v\<rparr>))) s = Inr ((), s') \<and>
    cache d p {i} s' \<and> buf_of d s' i n \<and> log_same s s' \<and>
    view d s' = ((content d s)(n := fold (\<lambda>k dt. put32 dt (4 + 4 * k) (lh_block (l_lh s) ! k)) ks (content d s n)), refs d s, klog.more s)"
  using assms
proof (induction ks arbitrary: s)
  case Nil
  then show ?case by (simp add: kret_def log_same_def view_def)
next
  case (Cons k ks)
  let ?x = "put32 (content d s n) (4 + 4 * k) (lh_block (l_lh s) ! k)"
  define s1 where "s1 = s\<lparr>bufs := (bufs s)(i := (bufs s i)\<lparr>b_data := ?x\<rparr>)\<rparr>"
  have s1: "cache d p {i} s1" "content d s1 = (content d s)(n := ?x)" "refs d s1 = refs d s" "klog.more s1 = klog.more s"
    "log_same s s1" "buf_of d s1 i n"
    using blk_modify [OF Cons.prems(1,2), of ?x] Cons.prems by (auto simp: Let_def view_parts s1_def)
  have st: "kbind (get_lh_block k) (\<lambda>v. upd_buf i (\<lambda>q. q\<lparr>b_data := put32 (b_data q) (4 + 4 * k) v\<rparr>)) s = Inr ((), s1)"
    using Cons.prems(4) buf_ofD(5) [OF Cons.prems(2)] by (simp add: get_lh_block_eq upd_buf_eq s1_def)
  have "refs d s1 n = 1" "\<forall>k \<in> set ks. k < LOGSIZE" using s1(3) Cons.prems by simp_all
  then obtain s' where
    s': "kfor ks (\<lambda>k. kbind (get_lh_block k) (\<lambda>v. upd_buf i (\<lambda>q. q\<lparr>b_data := put32 (b_data q) (4 + 4 * k) v\<rparr>))) s1 = Inr ((), s')"
      "cache d p {i} s'" "buf_of d s' i n" "log_same s1 s'"
      "view d s' = ((content d s1)(n := fold (\<lambda>k dt. put32 dt (4 + 4 * k) (lh_block (l_lh s1) ! k)) ks (content d s1 n)), refs d s1, klog.more s1)"
    using Cons.IH [OF s1(1,6)] by blast
  have "l_lh s1 = l_lh s" by (simp add: s1_def)
  then show ?case using s' s1 st log_same_trans [OF s1(5) s'(4)]
    by (intro exI [of _ s']) (auto simp: kseq_Inr view_parts fun_eq_iff)
qed

lemma write_head_ok:
  assumes c: "cache d p {} s" and sw: "serves sw p" and d: "l_dev s = d" and n: "nat (lh_n (l_lh s)) \<le> LOGSIZE"
    and u: "unat (l_start s) < 2 ^ 31" and r: "refs d s (l_start s) = 0" and f: "few_refs d s k" "k < NBUF"
  shows "\<exists>s'. write_head sw s = Inr ((), s') \<and> cache d p {} s' \<and> log_same s s' \<and>
    view d s' = ((content d s)(l_start s := put_head (l_lh s) (content d s (l_start s))), refs d s,
      (disk_now s)(l_start s := put_head (l_lh s) (content d s (l_start s))) # klog.more s)"
proof -
  let ?st = "l_start s"
  let ?h = "l_lh s"
  let ?y = "put32 (content d s ?st) 0 (of_int (lh_n ?h))"
  let ?x = "put_head ?h (content d s ?st)"
  obtain i s1 where s1: "bread sw d ?st s = Inr (i, s1)" "cache d p {i} s1" "buf_of d s1 i ?st"
    "content d s1 = content d s" "refs d s1 = (refs d s)(?st := 1)" "klog.more s1 = klog.more s" "log_same s s1"
    using first_read [OF c sw u r f] by (auto simp: view_parts)
  define s2 where "s2 = s1\<lparr>bufs := (bufs s1)(i := (bufs s1 i)\<lparr>b_data := ?y\<rparr>)\<rparr>"
  have s2: "cache d p {i} s2" "content d s2 = (content d s)(?st := ?y)" "refs d s2 = (refs d s)(?st := 1)" "klog.more s2 = klog.more s"
    "log_same s1 s2" "buf_of d s2 i ?st"
    using blk_modify [OF s1(2,3), of ?y] s1 by (auto simp: Let_def view_parts s2_def)
  have lh: "l_lh s1 = ?h" "l_lh s2 = ?h" using log_same_fields [OF s1(7)] log_same_fields [OF s2(5)] by simp_all
  obtain s3 where s3: "kfor [0..<nat (lh_n ?h)] (\<lambda>k. kbind (get_lh_block k) (\<lambda>v. upd_buf i (\<lambda>q. q\<lparr>b_data := put32 (b_data q) (4 + 4 * k) v\<rparr>))) s2 = Inr ((), s3)"
    "cache d p {i} s3" "buf_of d s3 i ?st" "log_same s2 s3"
    "view d s3 = ((content d s2)(?st := fold (\<lambda>k dt. put32 dt (4 + 4 * k) (lh_block (l_lh s2) ! k)) [0..<nat (lh_n ?h)] (content d s2 ?st)), refs d s2, klog.more s2)"
    using write_head_loop [OF s2(1,6), of "[0..<nat (lh_n ?h)]"] s2(3) n by auto
  have c3: "content d s3 = (content d s)(?st := ?x)" "refs d s3 = (refs d s)(?st := 1)" "klog.more s3 = klog.more s"
    using s3(5) s2 lh by (auto simp: view_parts put_head_def fun_eq_iff)
  obtain s4 where s4: "bwrite sw i s3 = Inr ((), s4)" "cache d p {i} s4" "content d s4 = (content d s)(?st := ?x)"
    "refs d s4 = (refs d s)(?st := 1)" "klog.more s4 = (disk_now s)(?st := ?x) # klog.more s" "log_same s3 s4" "buf_of d s4 i ?st"
    using blk_write [OF s3(2,3) _ u sw] c3 s3(3) by (auto simp: view_parts)
  obtain s5 where s5: "brelse i s4 = Inr ((), s5)" "cache d p {} s5" "content d s5 = (content d s)(?st := ?x)"
    "refs d s5 = (refs d s)(?st := 0)" "klog.more s5 = (disk_now s)(?st := ?x) # klog.more s" "log_same s4 s5"
    using blk_release [OF s4(2,7)] s4 by (auto simp: view_parts)
  have rr: "(refs d s)(?st := 0) = refs d s" using r by (auto simp: fun_eq_iff)
  have y: "b_data (bufs s1 i) = content d s ?st" using buf_ofD(5) [OF s1(3)] s1(4) by simp
  have "write_head sw s = Inr ((), s5)"
    unfolding write_head_def
    using s1(1) s3(1) s4(1) s5(1) d lh y
    by (simp add: kget_eq get_lh_n_def upd_buf_eq kseq_Inr flip: s2_def)
  moreover have "log_same s s5" using log_same_trans s1(7) s2(5) s3(4) s4(6) s5(6) by blast
  ultimately show ?thesis using s5 rr by (auto simp: view_parts)
qed

section \<open>Sequences of disk writes\<close>

definition apply_writes :: "(u32 \<times> u8 list) list \<Rightarrow> (u32 \<Rightarrow> u8 list) \<Rightarrow> u32 \<Rightarrow> u8 list" where
  "apply_writes ws C = foldl (\<lambda>C (n, x). C(n := x)) C ws"

definition run_writes :: "(u32 \<times> u8 list) list \<Rightarrow> disk list \<Rightarrow> disk list" where
  "run_writes ws h = foldl (\<lambda>h (n, x). (hd h)(n := x) # h) h ws"

lemma apply_writes_simps [simp]:
  "apply_writes [] C = C" "apply_writes ((n, x) # ws) C = apply_writes ws (C(n := x))"
  "apply_writes (ws @ vs) C = apply_writes vs (apply_writes ws C)"
  by (simp_all add: apply_writes_def)

lemma run_writes_simps [simp]:
  "run_writes [] h = h" "run_writes ((n, x) # ws) h = run_writes ws ((hd h)(n := x) # h)"
  "run_writes (ws @ vs) h = run_writes vs (run_writes ws h)"
  by (simp_all add: run_writes_def)

lemma run_writes_hd: "hd (run_writes ws h) = apply_writes ws (hd h)"
  by (induction ws arbitrary: h) auto

lemma apply_writes_other: "m \<notin> fst ` set ws \<Longrightarrow> apply_writes ws C m = C m"
  by (induction ws arbitrary: C) (auto split: prod.splits)

lemma apply_writes_at:
  "distinct (map fst ws) \<Longrightarrow> (m, x) \<in> set ws \<Longrightarrow> apply_writes ws C m = x"
proof (induction ws arbitrary: C)
  case (Cons w ws)
  obtain n y where w: "w = (n, y)" by (cases w)
  show ?case
  proof (cases "(m, x) \<in> set ws")
    case True
    then show ?thesis using Cons by (simp add: w)
  next
    case False
    then have "m = n" "x = y" "m \<notin> fst ` set ws" using Cons.prems by (auto simp: w)
    then show ?thesis by (simp add: w apply_writes_other)
  qed
qed simp

text \<open>The disks the machine can be left with are those after the first k writes.\<close>

lemma run_writes_set: "set (run_writes ws h) = set h \<union> (\<lambda>k. apply_writes (take k ws) (hd h)) ` {1..length ws}"
proof (induction ws arbitrary: h)
  case (Cons w ws)
  obtain n y where w: "w = (n, y)" by (cases w)
  let ?g = "\<lambda>k. apply_writes (take k (w # ws)) (hd h)"
  have "set (run_writes (w # ws) h) = set h \<union> {(hd h)(n := y)} \<union> (\<lambda>k. apply_writes (take k ws) ((hd h)(n := y))) ` {1..length ws}"
    unfolding w run_writes_simps Cons.IH list.set list.sel by blast
  also have "(\<lambda>k. apply_writes (take k ws) ((hd h)(n := y))) ` {1..length ws} = ?g ` (Suc ` {1..length ws})"
    unfolding image_image w by (simp only: take_Suc_Cons apply_writes_simps)
  also have "set h \<union> {(hd h)(n := y)} \<union> ?g ` (Suc ` {1..length ws}) = set h \<union> ?g ` (insert 1 (Suc ` {1..length ws}))"
    by (simp add: w)
  also have "insert 1 (Suc ` {1..length ws}) = {1..length (w # ws)}"
    by (auto simp: image_Suc_atLeastAtMost)
  finally show ?case .
qed simp

end
