(* ===== verification/Log_Crash.thy ===== *)
theory Log_Crash
  imports Log_Facts
begin

text \<open>
  Crash safety of the write-ahead log. A commit is a sequence of disk writes; the machine may stop
  after any of them. Whatever disk is left behind, recovery turns it into one that, outside the
  log area, is either the disk before the commit or the disk after it.
\<close>

section \<open>The log area\<close>

definition log_blk :: "u32 \<Rightarrow> nat \<Rightarrow> u32" where
  "log_blk st i = st + of_nat i + 1"

definition log_area :: "u32 \<Rightarrow> u32 set" where
  "log_area st = insert st (log_blk st ` {..<LOGSIZE})"

definition log_geo :: "u32 \<Rightarrow> u32 list \<Rightarrow> bool" where
  "log_geo st hs \<longleftrightarrow> unat st + LOGSIZE < 2 ^ 31 \<and> length hs \<le> LOGSIZE \<and> distinct hs \<and>
     (\<forall>h \<in> set hs. unat h < 2 ^ 31 \<and> h \<notin> log_area st)"

lemma LOGSIZE_30: "LOGSIZE = 30" and NBUF_30: "NBUF = 30" and BSIZE_1024: "BSIZE = 1024"
  by (simp_all add: LOGSIZE_def NBUF_def MAXOPBLOCKS_def BSIZE_def)

lemma unat_log_blk: "unat st + LOGSIZE < 2 ^ 31 \<Longrightarrow> i < LOGSIZE \<Longrightarrow> unat (log_blk st i) = unat st + i + 1"
  by (simp add: log_blk_def unat_word_ariths unat_of_nat LOGSIZE_30)

lemma log_blk_facts:
  assumes "log_geo st hs" and "i < LOGSIZE"
  shows "unat (log_blk st i) < 2 ^ 31" "log_blk st i \<noteq> st" "log_blk st i \<in> log_area st"
    "h \<in> set hs \<Longrightarrow> h \<noteq> log_blk st i" "j < LOGSIZE \<Longrightarrow> j \<noteq> i \<Longrightarrow> log_blk st j \<noteq> log_blk st i"
  using assms unat_log_blk [of st i] unat_log_blk [of st j]
  by (auto simp: log_geo_def log_area_def LOGSIZE_30)

lemma log_geo_start: "log_geo st hs \<Longrightarrow> unat st < 2 ^ 31"
  by (simp add: log_geo_def)

section \<open>The loops\<close>

definition log_writes :: "u32 \<Rightarrow> u32 list \<Rightarrow> (u32 \<Rightarrow> u8 list) \<Rightarrow> nat list \<Rightarrow> (u32 \<times> u8 list) list" where
  "log_writes st hs C ts = map (\<lambda>i. (log_blk st i, C (hs ! i))) ts"

definition home_writes :: "u32 \<Rightarrow> u32 list \<Rightarrow> (u32 \<Rightarrow> u8 list) \<Rightarrow> nat list \<Rightarrow> (u32 \<times> u8 list) list" where
  "home_writes st hs C ts = map (\<lambda>i. (hs ! i, C (log_blk st i))) ts"

definition log_at :: "u32 \<Rightarrow> u32 \<Rightarrow> u32 list \<Rightarrow> kdk \<Rightarrow> bool" where
  "log_at d st hs s \<longleftrightarrow> l_dev s = d \<and> l_start s = st \<and> lh_n (l_lh s) = int (length hs) \<and> take (length hs) (lh_block (l_lh s)) = hs \<and>
     length (lh_block (l_lh s)) = LOGSIZE"

lemma log_at_same: "log_same s s' \<Longrightarrow> log_at d st hs s \<Longrightarrow> log_at d st hs s'"
  by (simp add: log_at_def log_same_fields)

lemma log_at_nth: "log_at d st hs s \<Longrightarrow> i < length hs \<Longrightarrow> lh_block (l_lh s) ! i = hs ! i"
  by (metis log_at_def nth_take)

lemma write_log_loop:
  assumes "cache d p {} s" and "serves sw p" and "log_at d st hs s" and "log_geo st hs" and "few_refs d s k" and "k < NBUF"
    and "\<forall>m \<in> log_area st. refs d s m = 0" and "\<forall>h \<in> set hs. refs d s h = 1" and "\<forall>i \<in> set ts. i < length hs"
  shows "\<exists>s'. kfor ts (write_log_body sw) s = Inr ((), s') \<and> cache d p {} s' \<and> log_same s s' \<and>
    view d s' = (apply_writes (log_writes st hs (content d s) ts) (content d s), refs d s,
      run_writes (log_writes st hs (content d s) ts) (klog.more s))"
  using assms
proof (induction ts arbitrary: s)
  case Nil
  then show ?case by (simp add: kret_def log_same_def view_def log_writes_def)
next
  case (Cons i ts)
  have i: "i < length hs" "i < LOGSIZE" using Cons.prems(4,9) by (auto simp: log_geo_def)
  note lb = log_blk_facts [OF Cons.prems(4) i(2)]
  let ?l = "log_blk st i"
  let ?x = "content d s (hs ! i)"
  have h: "hs ! i \<in> set hs" using i by simp
  obtain s1 where s1: "write_log_body sw i s = Inr ((), s1)" "cache d p {} s1" "log_same s s1"
    "content d s1 = (content d s)(?l := ?x)" "refs d s1 = refs d s" "klog.more s1 = (disk_now s)(?l := ?x) # klog.more s"
    using write_log_step [OF Cons.prems(1,2), of i ?l "hs ! i" k] Cons.prems lb h log_at_nth [OF Cons.prems(3) i(1)] i
    by (auto simp: view_parts log_at_def log_blk_def log_geo_def)
  have eq: "log_writes st hs (content d s1) ts = log_writes st hs (content d s) ts"
    unfolding log_writes_def
  proof (rule map_cong [OF refl])
    fix j
    assume "j \<in> set ts"
    then have "hs ! j \<noteq> ?l" using lb(4) [of "hs ! j"] Cons.prems(9) by simp
    then show "(log_blk st j, content d s1 (hs ! j)) = (log_blk st j, content d s (hs ! j))" by (simp add: s1(4))
  qed
  have "few_refs d s1 k" using Cons.prems(5) by (simp add: few_refs_def s1(5))
  with Cons.IH [OF s1(2) Cons.prems(2) log_at_same [OF s1(3) Cons.prems(3)] Cons.prems(4) _ Cons.prems(6)] Cons.prems s1(5)
  obtain s' where s': "kfor ts (write_log_body sw) s1 = Inr ((), s')" "cache d p {} s'" "log_same s1 s'"
    "view d s' = (apply_writes (log_writes st hs (content d s) ts) (content d s1), refs d s1,
      run_writes (log_writes st hs (content d s) ts) (klog.more s1))"
    unfolding eq by auto
  have cons: "log_writes st hs (content d s) (i # ts) = (?l, ?x) # log_writes st hs (content d s) ts" by (simp add: log_writes_def)
  show ?case using s' s1(1) log_same_trans [OF s1(3) s'(3)] unfolding cons s1(4-6)
    by (intro exI [of _ s']) (simp add: kseq_Inr view_parts)
qed

definition only_refs :: "u32 \<Rightarrow> kdk \<Rightarrow> u32 list \<Rightarrow> bool" where
  "only_refs d s hs \<longleftrightarrow> (\<forall>m. refs d s m \<noteq> 0 \<longrightarrow> m \<in> set hs)"

lemma only_refs_few: "only_refs d s hs \<Longrightarrow> few_refs d s (length hs)"
  unfolding few_refs_def only_refs_def by (intro exI [of _ "set hs"]) (simp add: card_length)

lemma only_refs_few_but:
  assumes "only_refs d s hs" and "h \<in> set hs" and "refs d s h = 0"
  shows "few_refs d s (length hs - 1)"
  unfolding few_refs_def
proof (intro exI [of _ "set hs - {h}"] conjI allI impI)
  show "card (set hs - {h}) \<le> length hs - 1" using assms(2) card_length [of hs] by simp
qed (use assms in \<open>auto simp: only_refs_def\<close>)

lemma only_refs_area: "only_refs d s hs \<Longrightarrow> log_geo st hs \<Longrightarrow> m \<in> log_area st \<Longrightarrow> refs d s m = 0"
  by (auto simp: only_refs_def log_geo_def)

definition dropped :: "u32 list \<Rightarrow> nat list \<Rightarrow> (u32 \<Rightarrow> u32) \<Rightarrow> u32 \<Rightarrow> u32" where
  "dropped hs ts R = (\<lambda>m. if m \<in> (!) hs ` set ts then R m - 1 else R m)"

lemma install_loop:
  assumes "cache d p {} s" and "serves sw p" and "log_at d st hs s" and "log_geo st hs" and "only_refs d s hs" and "length hs < NBUF"
    and "\<forall>i \<in> set ts. refs d s (hs ! i) + 1 \<noteq> 0" and "\<forall>i \<in> set ts. i < length hs" and "distinct ts"
  shows "\<exists>s'. kfor ts (install_body sw) s = Inr ((), s') \<and> cache d p {} s' \<and> log_same s s' \<and>
    view d s' = (apply_writes (home_writes st hs (content d s) ts) (content d s), dropped hs ts (refs d s),
      run_writes (home_writes st hs (content d s) ts) (klog.more s))"
  using assms
proof (induction ts arbitrary: s)
  case Nil
  then show ?case by (simp add: kret_def log_same_def view_def home_writes_def dropped_def)
next
  case (Cons i ts)
  have i: "i < length hs" "i < LOGSIZE" using Cons.prems(4,8) by (auto simp: log_geo_def)
  note lb = log_blk_facts [OF Cons.prems(4) i(2)]
  let ?h = "hs ! i"
  let ?x = "content d s (log_blk st i)"
  have h: "?h \<in> set hs" "unat ?h < 2 ^ 31" "?h \<notin> log_area st" using i Cons.prems(4) by (auto simp: log_geo_def)
  have dist: "hs ! j \<noteq> ?h" if "j \<in> set ts" for j
    using that Cons.prems(4,8,9) i by (auto simp: log_geo_def nth_eq_iff_index_eq)
  obtain k where k: "few_refs d s k" "k < NBUF" "refs d s ?h \<noteq> 0 \<or> Suc k < NBUF"
  proof (cases "refs d s ?h = 0")
    case True
    then have "few_refs d s (length hs - 1)" using Cons.prems(5) h(1) by (intro only_refs_few_but)
    moreover have "length hs - 1 < NBUF" "Suc (length hs - 1) < NBUF" using Cons.prems(6) i by simp_all
    ultimately show ?thesis using that by blast
  next
    case False
    then show ?thesis using that only_refs_few [OF Cons.prems(5)] Cons.prems(6) by blast
  qed
  obtain s1 where s1: "install_body sw i s = Inr ((), s1)" "cache d p {} s1" "log_same s s1"
    "content d s1 = (content d s)(?h := ?x)" "refs d s1 = (refs d s)(?h := refs d s ?h - 1)" "klog.more s1 = (disk_now s)(?h := ?x) # klog.more s"
    using install_step [OF Cons.prems(1,2), of i "log_blk st i" ?h k] Cons.prems lb h k log_at_nth [OF Cons.prems(3) i(1)] i
      only_refs_area [OF Cons.prems(5,4) lb(3)]
    by (auto simp: view_parts log_at_def log_blk_def)
  have eq: "home_writes st hs (content d s1) ts = home_writes st hs (content d s) ts"
    unfolding home_writes_def
  proof (rule map_cong [OF refl])
    fix j
    assume "j \<in> set ts"
    then have "j < LOGSIZE" using Cons.prems(4,8) by (auto simp: log_geo_def)
    then have "log_blk st j \<noteq> ?h" using log_blk_facts(3) [OF Cons.prems(4)] h(3) by metis
    then show "(hs ! j, content d s1 (log_blk st j)) = (hs ! j, content d s (log_blk st j))" by (simp add: s1(4))
  qed
  have o: "only_refs d s1 hs" using Cons.prems(5) h(1) by (auto simp: only_refs_def s1(5))
  have rr: "\<forall>j \<in> set ts. refs d s1 (hs ! j) + 1 \<noteq> 0" using Cons.prems(7) dist by (auto simp: s1(5))
  with Cons.IH [OF s1(2) Cons.prems(2) log_at_same [OF s1(3) Cons.prems(3)] Cons.prems(4) o Cons.prems(6)] Cons.prems(8,9)
  obtain s' where s': "kfor ts (install_body sw) s1 = Inr ((), s')" "cache d p {} s'" "log_same s1 s'"
    "view d s' = (apply_writes (home_writes st hs (content d s) ts) (content d s1), dropped hs ts (refs d s1),
      run_writes (home_writes st hs (content d s) ts) (klog.more s1))"
    unfolding eq by auto
  have cons: "home_writes st hs (content d s) (i # ts) = (?h, ?x) # home_writes st hs (content d s) ts" by (simp add: home_writes_def)
  have "?h \<notin> (!) hs ` set ts" using dist by (metis imageE)
  then have "dropped hs ts (refs d s1) = dropped hs (i # ts) (refs d s)" by (simp add: dropped_def s1(5) fun_eq_iff)
  then show ?case using s' s1(1) log_same_trans [OF s1(3) s'(3)] unfolding cons s1(4,6)
    by (intro exI [of _ s']) (simp add: kseq_Inr view_parts)
qed

section \<open>commit\<close>

definition commit_writes :: "u32 \<Rightarrow> u32 list \<Rightarrow> logheader \<Rightarrow> (u32 \<Rightarrow> u8 list) \<Rightarrow> (u32 \<times> u8 list) list" where
  "commit_writes st hs h C =
     map (\<lambda>i. (log_blk st i, C (hs ! i))) [0..<length hs] @
     [(st, put_head h (C st))] @
     map (\<lambda>i. (hs ! i, C (hs ! i))) [0..<length hs] @
     [(st, put_head (h\<lparr>lh_n := 0\<rparr>) (put_head h (C st)))]"

lemma quiet_lh [simp]: "quiet p (s\<lparr>l_lh := h\<rparr>) = quiet p s"
  by (simp add: quiet_def idle_def settled_def lk_free_def all_free_def)

lemma lh_frame [simp]:
  "cache d p L (s\<lparr>l_lh := h\<rparr>) = cache d p L s" "view d (s\<lparr>l_lh := h\<rparr>) = view d s" "frame (s\<lparr>l_lh := h\<rparr>) = frame s"
  "content d (s\<lparr>l_lh := h\<rparr>) = content d s" "refs d (s\<lparr>l_lh := h\<rparr>) = refs d s"
proof -
  have "lru (s\<lparr>l_lh := h\<rparr>) bs = lru s bs" for bs by (simp add: lru_def)
  moreover have "holds p L (s\<lparr>l_lh := h\<rparr>) = holds p L s" by (simp add: holds_def sl_mine_def)
  ultimately show "cache d p L (s\<lparr>l_lh := h\<rparr>) = cache d p L s" by (simp add: cache_def)
  have b: "bufs (s\<lparr>l_lh := h\<rparr>) = bufs s" "klog.more (s\<lparr>l_lh := h\<rparr>) = klog.more s" by simp_all
  show "content d (s\<lparr>l_lh := h\<rparr>) = content d s" "refs d (s\<lparr>l_lh := h\<rparr>) = refs d s"
    by (rule ext, simp only: content_def refs_def b)+
  then show "view d (s\<lparr>l_lh := h\<rparr>) = view d s" by (simp add: view_def)
  show "frame (s\<lparr>l_lh := h\<rparr>) = frame s" by (simp add: frame_def)
qed

lemma log_writes_fst: "fst ` set (log_writes st hs C ts) = log_blk st ` set ts"
  by (force simp: log_writes_def)

lemma log_writes_at:
  assumes "log_geo st hs" and "i < length hs"
  shows "apply_writes (log_writes st hs C [0..<length hs]) C (log_blk st i) = C (hs ! i)"
proof (rule apply_writes_at)
  have "inj_on (log_blk st) {0..<length hs}"
    using assms(1) log_blk_facts(5) [OF assms(1)] unfolding inj_on_def log_geo_def by (metis atLeastLessThan_iff order_less_le_trans)
  then show "distinct (map fst (log_writes st hs C [0..<length hs]))"
    by (simp add: log_writes_def comp_def distinct_map)
  show "(log_blk st i, C (hs ! i)) \<in> set (log_writes st hs C [0..<length hs])"
    using assms(2) by (auto simp: log_writes_def)
qed

lemma log_writes_other: "log_geo st hs \<Longrightarrow> apply_writes (log_writes st hs C [0..<length hs]) C st = C st"
proof (rule apply_writes_other)
  assume geo: "log_geo st hs"
  show "st \<notin> fst ` set (log_writes st hs C [0..<length hs])"
  proof
    assume "st \<in> fst ` set (log_writes st hs C [0..<length hs])"
    then obtain i where "i < length hs" "st = log_blk st i" by (auto simp: log_writes_fst)
    then show False using log_blk_facts(2) [OF geo, of i] geo by (simp add: log_geo_def)
  qed
qed

lemma commit_ok:
  assumes c: "cache d p {} s" and sw: "serves sw p" and la: "log_at d st hs s" and geo: "log_geo st hs" and ne: "hs \<noteq> []"
    and o: "only_refs d s hs" and pin: "\<forall>h \<in> set hs. refs d s h = 1" and nb: "length hs < NBUF"
  shows "\<exists>s'. commit sw s = Inr ((), s') \<and> cache d p {} s' \<and> frame s' = frame s \<and> l_lh s' = (l_lh s)\<lparr>lh_n := 0\<rparr> \<and>
    refs d s' = (\<lambda>_. 0) \<and>
    klog.more s' = run_writes (commit_writes st hs (l_lh s) (content d s)) (klog.more s)"
proof -
  let ?C = "content d s"
  let ?n = "length hs"
  let ?w1 = "log_writes st hs ?C [0..<?n]"
  let ?h1 = "put_head (l_lh s) (?C st)"
  let ?h2 = "put_head ((l_lh s)\<lparr>lh_n := 0\<rparr>) ?h1"
  let ?w3 = "map (\<lambda>i. (hs ! i, ?C (hs ! i))) [0..<?n]"
  have n: "lh_n (l_lh s) = int ?n" "l_start s = st" "l_dev s = d" using la by (auto simp: log_at_def)
  have area: "\<forall>m \<in> log_area st. refs d s m = 0" using only_refs_area [OF o geo] by blast
  have st0: "refs d s st = 0" using area by (simp add: log_area_def)
  obtain s1 where s1: "kfor [0..<?n] (write_log_body sw) s = Inr ((), s1)" "cache d p {} s1" "log_same s s1"
    "content d s1 = apply_writes ?w1 ?C" "refs d s1 = refs d s" "klog.more s1 = run_writes ?w1 (klog.more s)"
    using write_log_loop [OF c sw la geo only_refs_few [OF o] nb area pin, of "[0..<?n]"] by (auto simp: view_parts)
  have c1: "content d s1 st = ?C st" using log_writes_other [OF geo] s1(4) by simp
  have "nat (lh_n (l_lh s1)) \<le> LOGSIZE" "unat (l_start s1) < 2 ^ 31" "refs d s1 (l_start s1) = 0" "few_refs d s1 ?n"
    using log_same_fields [OF s1(3)] n geo st0 s1(5) only_refs_few [OF o] by (auto simp: log_geo_def few_refs_def)
  then obtain s2 where s2: "write_head sw s1 = Inr ((), s2)" "cache d p {} s2" "log_same s1 s2"
    "content d s2 = (content d s1)(st := ?h1)" "refs d s2 = refs d s" "klog.more s2 = (disk_now s1)(st := ?h1) # klog.more s1"
    using write_head_ok [OF s1(2) sw, of ?n] log_same_fields [OF s1(3)] n nb c1 s1(5) by (auto simp: view_parts)
  have s02: "log_same s s2" using log_same_trans s1(3) s2(3) by blast
  have o2: "only_refs d s2 hs" using o by (simp add: only_refs_def s2(5))
  have "home_writes st hs (content d s2) [0..<?n] = ?w3"
    unfolding home_writes_def
  proof (rule map_cong [OF refl])
    fix i
    assume i: "i \<in> set [0..<?n]"
    then have "log_blk st i \<noteq> st" using log_blk_facts(2) [OF geo, of i] geo by (simp add: log_geo_def)
    then show "(hs ! i, content d s2 (log_blk st i)) = (hs ! i, ?C (hs ! i))"
      using log_writes_at [OF geo, of i ?C] i by (simp add: s2(4) s1(4))
  qed
  then obtain s3 where s3: "kfor [0..<?n] (install_body sw) s2 = Inr ((), s3)" "cache d p {} s3" "log_same s2 s3"
    "content d s3 = apply_writes ?w3 (content d s2)" "refs d s3 = dropped hs [0..<?n] (refs d s)" "klog.more s3 = run_writes ?w3 (klog.more s2)"
    using install_loop [OF s2(2) sw log_at_same [OF s02 la] geo o2 nb, of "[0..<?n]"] pin s2(5) by (auto simp: view_parts)
  have r3: "refs d s3 = (\<lambda>_. 0)"
  proof -
    have "(!) hs ` set [0..<?n] = set hs" using nth_image [of ?n hs] by simp
    then show ?thesis using o pin by (auto simp: s3(5) dropped_def fun_eq_iff only_refs_def)
  qed
  have c3: "content d s3 st = ?h1"
  proof -
    have "st \<notin> fst ` set ?w3" using geo by (auto simp: log_geo_def log_area_def)
    then show ?thesis by (simp add: s3(4) s2(4) apply_writes_other)
  qed
  let ?s4 = "s3\<lparr>l_lh := (l_lh s3)\<lparr>lh_n := 0\<rparr>\<rparr>"
  have s03: "log_same s s3" using log_same_trans s02 s3(3) by blast
  then have l3: "l_lh s3 = l_lh s" "l_start s3 = st" "l_dev s3 = d" "frame s3 = frame s" using log_same_fields [OF s03] n by simp_all
  have "few_refs d ?s4 0" by (auto simp: few_refs_def r3)
  then obtain s5 where s5: "write_head sw ?s4 = Inr ((), s5)" "cache d p {} s5" "log_same ?s4 s5"
    "refs d s5 = (\<lambda>_. 0)" "klog.more s5 = (disk_now s3)(st := ?h2) # klog.more s3"
    using write_head_ok [of d p ?s4 sw 0] s3(2) sw r3 c3 l3 log_geo_start [OF geo] by (auto simp: view_parts NBUF_30)
  have nn: "get_lh_n s = Inr (int ?n, s)" "get_lh_n s2 = Inr (int ?n, s2)"
    using n log_same_fields [OF s02] by (simp_all add: get_lh_n_def kmon)
  have "commit sw s = Inr ((), s5)"
    unfolding commit_def write_log_unfold install_unfold
    using nn ne s1(1) s2(1) s3(1) s5(1) by (simp add: kseq_Inr upd_lh_def kmod_def)
  moreover have "klog.more s5 = run_writes (commit_writes st hs (l_lh s) ?C) (klog.more s)"
    unfolding s5(5) s3(6) s2(6) s1(6) commit_writes_def log_writes_def by simp
  ultimately show ?thesis using s5 log_same_fields [OF s5(3)] l3 by (intro exI [of _ s5]) simp
qed

section \<open>The header on disk\<close>

definition head_n :: "u8 list \<Rightarrow> nat" where
  "head_n data = nat (sint (get32 data 0))"

definition head_blocks :: "u8 list \<Rightarrow> u32 list" where
  "head_blocks data = map (\<lambda>i. get32 data (4 + 4 * i)) [0..<head_n data]"

lemma put32_fold_length: "\<forall>i \<in> set ks. 8 + 4 * i \<le> length x \<Longrightarrow> length (fold (\<lambda>i dt. put32 dt (4 + 4 * i) (f i)) ks x) = length x"
  by (induction ks arbitrary: x) auto

lemma put32_fold_get0: "\<forall>i \<in> set ks. 8 + 4 * i \<le> length x \<Longrightarrow> get32 (fold (\<lambda>i dt. put32 dt (4 + 4 * i) (f i)) ks x) 0 = get32 x 0"
  by (induction ks arbitrary: x) (auto simp: get32_put32_other)

lemma put32_fold_get:
  "\<forall>i \<in> set ks. 8 + 4 * i \<le> length x \<Longrightarrow> distinct ks \<Longrightarrow> j \<in> set ks \<Longrightarrow>
   get32 (fold (\<lambda>i dt. put32 dt (4 + 4 * i) (f i)) ks x) (4 + 4 * j) = f j"
proof (induction ks arbitrary: x)
  case (Cons k ks)
  have keep: "get32 (fold (\<lambda>i dt. put32 dt (4 + 4 * i) (f i)) is y) (4 + 4 * k) = get32 y (4 + 4 * k)"
    if "\<forall>i \<in> set is. 8 + 4 * i \<le> length y" "k \<notin> set is" for "is" y
    using that
  proof (induction "is" arbitrary: y)
    case (Cons i "is")
    then have "get32 (put32 y (4 + 4 * i) (f i)) (4 + 4 * k) = get32 y (4 + 4 * k)" by (intro get32_put32_other) auto
    then show ?case using Cons by simp
  qed simp
  show ?case
  proof (cases "j = k")
    case True
    then show ?thesis using Cons.prems keep [of ks "put32 x (4 + 4 * k) (f k)"] by simp
  next
    case False
    then show ?thesis using Cons by simp
  qed
qed simp

lemma put_head_decode:
  assumes "length x = BSIZE" and "lh_n h = int n" and "n \<le> LOGSIZE"
  shows "length (put_head h x) = BSIZE" and "head_n (put_head h x) = n"
    and "head_blocks (put_head h x) = map (\<lambda>i. lh_block h ! i) [0..<n]" and "sint (get32 (put_head h x) 0) = int n"
proof -
  have l: "\<forall>i \<in> set [0..<n]. 8 + 4 * i \<le> length (put32 x 0 (of_int (lh_n h)))"
    using assms by (auto simp: BSIZE_1024 LOGSIZE_30)
  have n: "nat (lh_n h) = n" using assms(2) by simp
  show "length (put_head h x) = BSIZE" using put32_fold_length [OF l] assms(1) by (simp add: put_head_def n BSIZE_1024)
  have "get32 (put_head h x) 0 = of_nat n"
    using put32_fold_get0 [OF l] assms by (simp add: put_head_def n BSIZE_1024)
  moreover have "sint (of_nat n :: u32) = int n"
    using assms(3) by (simp add: signed_of_nat signed_take_bit_int_eq_self LOGSIZE_30)
  ultimately show sn: "sint (get32 (put_head h x) 0) = int n" by simp
  then show hn: "head_n (put_head h x) = n" by (simp add: head_n_def)
  show "head_blocks (put_head h x) = map (\<lambda>i. lh_block h ! i) [0..<n]"
    unfolding head_blocks_def hn using put32_fold_get [OF l]
    by (intro map_cong refl) (simp add: put_head_def n)
qed

section \<open>Recovery\<close>

lemma fold_update_take:
  "n \<le> length bl \<Longrightarrow> take n (fold (\<lambda>i bl. bl[i := f i]) [0..<n] bl) = map f [0..<n] \<and> length (fold (\<lambda>i bl. bl[i := f i]) [0..<n] bl) = length bl"
proof (induction n)
  case (Suc n)
  let ?b = "fold (\<lambda>i bl. bl[i := f i]) [0..<n] bl"
  have "take n ?b = map f [0..<n]" "length ?b = length bl" using Suc by auto
  then show ?case using Suc.prems by (simp add: take_Suc_conv_app_nth)
qed simp

lemma set_lh_loop:
  "\<forall>i \<in> set ks. i < LOGSIZE \<Longrightarrow> kfor ks (\<lambda>i. set_lh_block i (f i)) s =
     Inr ((), s\<lparr>l_lh := (l_lh s)\<lparr>lh_block := fold (\<lambda>i bl. bl[i := f i]) ks (lh_block (l_lh s))\<rparr>\<rparr>)"
  by (induction ks arbitrary: s) (simp_all add: kret_def set_lh_block_def upd_lh_def kmod_def kseq_Inr)

definition log_ready :: "u32 \<Rightarrow> u32 \<Rightarrow> kdk \<Rightarrow> bool" where
  "log_ready d st s \<longleftrightarrow> l_dev s = d \<and> l_start s = st \<and> length (lh_block (l_lh s)) = LOGSIZE"

lemma read_head_ok:
  assumes c: "cache d p {} s" and sw: "serves sw p" and rdy: "log_ready d st s" and z: "refs d s = (\<lambda>_. 0)"
    and u: "unat st < 2 ^ 31" and x: "x = disk_now s st" and n: "0 \<le> sint (get32 x 0)" "head_n x \<le> LOGSIZE"
  shows "\<exists>s'. read_head sw s = Inr ((), s') \<and> cache d p {} s' \<and> view d s' = view d s \<and> frame s' = frame s \<and> log_at d st (head_blocks x) s'"
proof -
  have fw: "few_refs d s 0" by (auto simp: few_refs_def z)
  have l: "l_dev s = d" "l_start s = st" "length (lh_block (l_lh s)) = LOGSIZE" using rdy by (auto simp: log_ready_def)
  obtain i s1 where s1: "bread sw d st s = Inr (i, s1)" "cache d p {i} s1" "buf_of d s1 i st"
    "content d s1 = content d s" "refs d s1 = (refs d s)(st := 1)" "klog.more s1 = klog.more s" "log_same s s1"
    using first_read [OF c sw u _ fw] z by (auto simp: view_parts NBUF_30)
  have cx: "content d s st = x" using cache_free_content [OF c] z x by simp
  have data: "b_data (bufs s1 i) = x" using buf_ofD(5) [OF s1(3)] s1(4) cx by simp
  let ?f = "\<lambda>i. get32 x (4 + 4 * i)"
  let ?h = "(l_lh s)\<lparr>lh_n := sint (get32 x 0), lh_block := fold (\<lambda>i bl. bl[i := ?f i]) [0..<head_n x] (lh_block (l_lh s))\<rparr>"
  let ?s2 = "s1\<lparr>l_lh := ?h\<rparr>"
  have lp: "kfor [0..<head_n x] (\<lambda>i. set_lh_block i (?f i)) (s1\<lparr>l_lh := (l_lh s)\<lparr>lh_n := sint (get32 x 0)\<rparr>\<rparr>) = Inr ((), ?s2)"
    using set_lh_loop [of "[0..<head_n x]" ?f "s1\<lparr>l_lh := (l_lh s)\<lparr>lh_n := sint (get32 x 0)\<rparr>\<rparr>"] n(2) by simp
  have b2: "buf_of d ?s2 i st" using s1(3) by (simp add: buf_of_def)
  have "content d ?s2 st = disk_now ?s2 st" using s1(4,6) cx x by simp
  then obtain s3 where s3: "brelse i ?s2 = Inr ((), s3)" "cache d p {} s3" "content d s3 = content d s" "refs d s3 = (refs d s)(st := 0)"
    "klog.more s3 = klog.more s" "log_same ?s2 s3"
    using blk_release [of d p "{i}" ?s2 i st] s1 b2 by (auto simp: view_parts)
  have "(refs d s)(st := 0) = refs d s" by (simp add: z fun_eq_iff)
  moreover have "read_head sw s = Inr ((), s3)"
    unfolding read_head_def
    using s1(1) lp s3(1) l log_same_fields [OF s1(7)] data
    by (simp add: kget_eq get_buf_eq upd_lh_def get_lh_n_def kmod_def kseq_Inr head_n_def)
  moreover have "log_at d st (head_blocks x) s3"
    using log_same_fields [OF s3(6)] log_same_fields [OF s1(7)] l n fold_update_take [of "head_n x" "lh_block (l_lh s)" ?f]
    by (simp add: log_at_def head_blocks_def head_n_def frame_def)
  ultimately show ?thesis using s3 log_same_fields(7) [OF s3(6)] log_same_fields(7) [OF s1(7)] by (intro exI [of _ s3]) (simp add: view_parts view_def)
qed

lemma home_writes_fst: "\<forall>i \<in> set ts. i < length hs \<Longrightarrow> fst ` set (home_writes st hs C ts) \<subseteq> set hs"
  by (auto simp: home_writes_def)

text \<open>What recovery writes, given the disk it finds.\<close>

definition recovery_writes :: "u32 \<Rightarrow> disk \<Rightarrow> (u32 \<times> u8 list) list" where
  "recovery_writes st D = home_writes st (head_blocks (D st)) D [0..<head_n (D st)]"

text \<open>A disk whose log is in order: the header names distinct blocks outside the log.\<close>

definition log_clean :: "u32 \<Rightarrow> disk \<Rightarrow> bool" where
  "log_clean st D \<longleftrightarrow> length (D st) = BSIZE \<and> 0 \<le> sint (get32 (D st) 0) \<and> head_n (D st) < NBUF \<and> log_geo st (head_blocks (D st))"

lemma length_head_blocks [simp]: "length (head_blocks x) = head_n x"
  by (simp add: head_blocks_def)

lemma recover_ok:
  assumes c: "cache d p {} s" and sw: "serves sw p" and rdy: "log_ready d st s" and z: "refs d s = (\<lambda>_. 0)"
    and cl: "log_clean st (disk_now s)"
  shows "\<exists>s'. recover_from_log sw s = Inr ((), s') \<and> cache d p {} s' \<and> frame s' = frame s \<and> lh_n (l_lh s') = 0 \<and>
    refs d s' = (\<lambda>m. if m \<in> set (head_blocks (disk_now s st)) then - 1 else 0) \<and>
    (\<exists>x. get32 x 0 = 0 \<and> length x = BSIZE \<and> klog.more s' = run_writes (recovery_writes st (disk_now s) @ [(st, x)]) (klog.more s))"
proof -
  let ?D = "disk_now s"
  let ?hs = "head_blocks (?D st)"
  let ?n = "head_n (?D st)"
  have geo: "log_geo st ?hs" and n: "?n < NBUF" "0 \<le> sint (get32 (?D st) 0)" and len: "length (?D st) = BSIZE"
    using cl by (auto simp: log_clean_def)
  have nl: "?n \<le> LOGSIZE" using geo by (simp add: log_geo_def)
  obtain s1 where s1: "read_head sw s = Inr ((), s1)" "cache d p {} s1" "view d s1 = view d s" "frame s1 = frame s" "log_at d st ?hs s1"
    using read_head_ok [OF c sw rdy z log_geo_start [OF geo] refl n(2) nl] by blast
  have v1: "content d s1 = content d s" "refs d s1 = (\<lambda>_. 0)" "klog.more s1 = klog.more s" using s1(3) z by (simp_all add: view_def)
  have CD: "content d s = ?D" using cache_free_content [OF c] z by (simp add: fun_eq_iff)
  have o1: "only_refs d s1 ?hs" by (simp add: only_refs_def v1)
  obtain s2 where s2: "kfor [0..<?n] (install_body sw) s1 = Inr ((), s2)" "cache d p {} s2" "log_same s1 s2"
    "content d s2 = apply_writes (recovery_writes st ?D) ?D" "refs d s2 = dropped ?hs [0..<?n] (\<lambda>_. 0)"
    "klog.more s2 = run_writes (recovery_writes st ?D) (klog.more s)"
    using install_loop [OF s1(2) sw s1(5) geo o1, of "[0..<?n]"] n(1) v1 CD by (auto simp: view_parts recovery_writes_def)
  have im: "(!) ?hs ` set [0..<?n] = set ?hs" using nth_image [of ?n ?hs] by simp
  have r2: "refs d s2 = (\<lambda>m. if m \<in> set ?hs then - 1 else 0)" unfolding s2(5) dropped_def im by (auto simp: fun_eq_iff)
  have st2: "content d s2 st = ?D st"
  proof -
    have "st \<notin> set ?hs" using geo by (auto simp: log_geo_def log_area_def)
    then have "st \<notin> fst ` set (recovery_writes st ?D)" using home_writes_fst [of "[0..<?n]" ?hs st ?D] by (auto simp: recovery_writes_def)
    then show ?thesis by (simp add: s2(4) apply_writes_other)
  qed
  let ?s3 = "s2\<lparr>l_lh := (l_lh s2)\<lparr>lh_n := 0\<rparr>\<rparr>"
  let ?x = "put_head ((l_lh s2)\<lparr>lh_n := 0\<rparr>) (?D st)"
  have l2: "l_start s2 = st" "l_dev s2 = d" "frame s2 = frame s" "lh_n (l_lh s1) = int ?n"
    using log_same_fields [OF s2(3)] s1(4,5) by (simp_all add: log_at_def)
  have "st \<notin> set ?hs" using geo by (auto simp: log_geo_def log_area_def)
  moreover have "few_refs d ?s3 ?n" using only_refs_few [of d s2 ?hs] r2 by (simp add: only_refs_def few_refs_def)
  ultimately obtain s4 where s4: "write_head sw ?s3 = Inr ((), s4)" "cache d p {} s4" "log_same ?s3 s4" "refs d s4 = refs d s2"
    "klog.more s4 = (disk_now s2)(st := ?x) # klog.more s2"
    using write_head_ok [of d p ?s3 sw ?n] s2(2) sw r2 st2 l2 log_geo_start [OF geo] n(1) by (auto simp: view_parts)
  have "recover_from_log sw s = Inr ((), s4)"
    unfolding recover_from_log_def install_unfold
    using s1(1) s2(1) s4(1) l2(4) by (simp add: kseq_Inr get_lh_n_def kget_eq upd_lh_def kmod_def)
  moreover have "get32 ?x 0 = 0" "length ?x = BSIZE" using put_head_decode(1) [OF len, of "(l_lh s2)\<lparr>lh_n := 0\<rparr>" 0] len
    by (simp_all add: put_head_def BSIZE_1024)
  moreover have "klog.more s4 = run_writes (recovery_writes st ?D @ [(st, ?x)]) (klog.more s)"
    unfolding s4(5) s2(6) by simp
  ultimately show ?thesis using s4 r2 log_same_fields [OF s4(3)] l2(3) by (intro exI [of _ s4]) auto
qed

section \<open>Every crash point\<close>

text \<open>The disk that recovery makes of D, outside the log.\<close>

definition recovered :: "u32 \<Rightarrow> disk \<Rightarrow> disk" where
  "recovered st D = apply_writes (recovery_writes st D) D"

definition same_outside :: "u32 \<Rightarrow> disk \<Rightarrow> disk \<Rightarrow> bool" where
  "same_outside st D E \<longleftrightarrow> (\<forall>m. m \<notin> log_area st \<longrightarrow> D m = E m)"

lemma recovered_empty: "head_n (D st) = 0 \<Longrightarrow> recovered st D = D"
  by (simp add: recovered_def recovery_writes_def home_writes_def)

lemma recovered_full:
  assumes geo: "log_geo st hs" and h: "head_blocks (D st) = hs"
    and l: "\<forall>i < length hs. D (log_blk st i) = C (hs ! i)"
    and out: "\<forall>m. m \<notin> log_area st \<and> m \<notin> set hs \<longrightarrow> D m = C m"
  shows "same_outside st (recovered st D) C"
  unfolding same_outside_def
proof (intro allI impI)
  fix m
  assume m: "m \<notin> log_area st"
  have n: "head_n (D st) = length hs" using h length_head_blocks by metis
  let ?w = "home_writes st hs D [0..<length hs]"
  have r: "recovered st D = apply_writes ?w D" by (simp add: recovered_def recovery_writes_def h n)
  have d: "distinct (map fst ?w)" using geo by (simp add: home_writes_def comp_def map_nth log_geo_def)
  show "recovered st D m = C m"
  proof (cases "m \<in> set hs")
    case True
    then obtain i where i: "i < length hs" "m = hs ! i" by (auto simp: in_set_conv_nth)
    then have "(m, C m) \<in> set ?w" using l by (auto simp: home_writes_def)
    then show ?thesis unfolding r by (rule apply_writes_at [OF d])
  next
    case False
    then have "m \<notin> fst ` set ?w" by (auto simp: home_writes_def)
    then show ?thesis using out m False unfolding r by (simp add: apply_writes_other)
  qed
qed

text \<open>The state of the log and the disk when a commit starts.\<close>

definition commit_view :: "u32 \<Rightarrow> u32 list \<Rightarrow> logheader \<Rightarrow> (u32 \<Rightarrow> u8 list) \<Rightarrow> disk \<Rightarrow> bool" where
  "commit_view st hs h C D \<longleftrightarrow> log_geo st hs \<and> length hs < NBUF \<and> lh_n h = int (length hs) \<and> take (length hs) (lh_block h) = hs \<and>
     (\<forall>m. m \<notin> set hs \<longrightarrow> C m = D m) \<and> length (D st) = BSIZE \<and> get32 (D st) 0 = 0"

lemma empty_header: "length x = BSIZE \<Longrightarrow> get32 x 0 = 0 \<Longrightarrow> unat st + LOGSIZE < 2 ^ 31 \<Longrightarrow> D st = x \<Longrightarrow> log_clean st D \<and> head_n (D st) = 0"
  by (simp add: log_clean_def head_n_def head_blocks_def log_geo_def NBUF_30)

lemma commit_head:
  assumes "commit_view st hs h C D"
  shows "C st = D st" and "length (put_head h (C st)) = BSIZE" and "head_n (put_head h (C st)) = length hs"
    and "head_blocks (put_head h (C st)) = hs" and "get32 (put_head (h\<lparr>lh_n := 0\<rparr>) (put_head h (C st))) 0 = 0"
    and "length (put_head (h\<lparr>lh_n := 0\<rparr>) (put_head h (C st))) = BSIZE" and "sint (get32 (put_head h (C st)) 0) = int (length hs)"
proof -
  have v: "log_geo st hs" "lh_n h = int (length hs)" "take (length hs) (lh_block h) = hs" "length (D st) = BSIZE"
    using assms by (auto simp: commit_view_def)
  have st: "st \<notin> set hs" "length hs \<le> LOGSIZE" using v(1) by (auto simp: log_geo_def log_area_def)
  then show c: "C st = D st" using assms by (simp add: commit_view_def)
  note p = put_head_decode [OF _ v(2) st(2), of "C st"]
  show l: "length (put_head h (C st)) = BSIZE" and "head_n (put_head h (C st)) = length hs"
    and "sint (get32 (put_head h (C st)) 0) = int (length hs)" using p v(4) c by simp_all
  have "map ((!) (lh_block h)) [0..<length hs] = map ((!) hs) [0..<length hs]"
    by (intro map_cong refl) (metis atLeastLessThan_iff nth_take set_upt v(3))
  then show "head_blocks (put_head h (C st)) = hs" using p(3) v(4) c by (simp add: map_nth)
  show "get32 (put_head (h\<lparr>lh_n := 0\<rparr>) (put_head h (C st))) 0 = 0" using l by (simp add: put_head_def BSIZE_1024)
  show "length (put_head (h\<lparr>lh_n := 0\<rparr>) (put_head h (C st))) = BSIZE" using put_head_decode(1) [OF l, of "h\<lparr>lh_n := 0\<rparr>" 0] by simp
qed

lemma crash_before:
  assumes v: "commit_view st hs h C D" and k: "k \<le> length hs"
  defines "E \<equiv> apply_writes (take k (map (\<lambda>i. (log_blk st i, C (hs ! i))) [0..<length hs])) D"
  shows "log_clean st E" and "same_outside st (recovered st E) D"
proof -
  have geo: "log_geo st hs" and hd: "length (D st) = BSIZE" "get32 (D st) 0 = 0" using v by (auto simp: commit_view_def)
  have other: "E m = D m" if "m \<notin> log_blk st ` {..<LOGSIZE}" for m
    unfolding E_def
  proof (rule apply_writes_other)
    have "length hs \<le> LOGSIZE" using geo by (simp add: log_geo_def)
    then show "m \<notin> fst ` set (take k (map (\<lambda>i. (log_blk st i, C (hs ! i))) [0..<length hs]))"
      using that by (auto dest!: in_set_takeD)
  qed
  have st: "E st = D st" using log_blk_facts(2) [OF geo] by (intro other) fastforce
  have "unat st + LOGSIZE < 2 ^ 31" using geo by (simp add: log_geo_def)
  from empty_header [where D = E and st = st, OF hd this st] show "log_clean st E" and "same_outside st (recovered st E) D"
    using other by (auto simp: recovered_empty same_outside_def log_area_def)
qed

lemma written_out:
  assumes v: "commit_view st hs h C D" and m: "m \<notin> log_area st" "m \<notin> set hs"
  shows "apply_writes (take k (map (\<lambda>i. (hs ! i, C (hs ! i))) [0..<length hs]))
    (apply_writes (log_writes st hs C [0..<length hs] @ [(st, put_head h (C st))]) D) m = C m" (is "apply_writes ?w ?F m = _")
proof -
  have "length hs \<le> LOGSIZE" using v by (simp add: commit_view_def log_geo_def)
  then have "m \<notin> fst ` set (log_writes st hs C [0..<length hs] @ [(st, put_head h (C st))])"
    using m(1) by (auto simp: log_writes_def log_area_def)
  then have "?F m = D m" by (rule apply_writes_other)
  moreover have "apply_writes ?w ?F m = ?F m" using m(2) by (intro apply_writes_other) (auto dest!: in_set_takeD)
  ultimately show ?thesis using v m(2) by (simp add: commit_view_def)
qed

lemma installed_all:
  assumes v: "commit_view st hs h C D"
  shows "same_outside st (apply_writes (map (\<lambda>i. (hs ! i, C (hs ! i))) [0..<length hs])
    (apply_writes (log_writes st hs C [0..<length hs] @ [(st, put_head h (C st))]) D)) C"
  unfolding same_outside_def
proof (intro allI impI)
  fix m
  assume m: "m \<notin> log_area st"
  let ?w = "map (\<lambda>i. (hs ! i, C (hs ! i))) [0..<length hs]"
  show "apply_writes ?w (apply_writes (log_writes st hs C [0..<length hs] @ [(st, put_head h (C st))]) D) m = C m"
  proof (cases "m \<in> set hs")
    case True
    then have "(m, C m) \<in> set ?w" by (auto simp: in_set_conv_nth)
    moreover have "distinct (map fst ?w)" using v by (simp add: comp_def map_nth commit_view_def log_geo_def)
    ultimately show ?thesis by (intro apply_writes_at)
  next
    case False
    then show ?thesis using written_out [OF v m False, of "length hs"] by simp
  qed
qed

lemma crash_after:
  assumes v: "commit_view st hs h C D" and k: "k \<le> length hs"
  defines "E \<equiv> apply_writes (take k (map (\<lambda>i. (hs ! i, C (hs ! i))) [0..<length hs]))
    (apply_writes (log_writes st hs C [0..<length hs] @ [(st, put_head h (C st))]) D)"
  shows "log_clean st E" and "same_outside st (recovered st E) C"
proof -
  have geo: "log_geo st hs" and n: "length hs < NBUF" and CD: "\<forall>m. m \<notin> set hs \<longrightarrow> C m = D m" using v by (auto simp: commit_view_def)
  note ch = commit_head [OF v]
  let ?F = "apply_writes (log_writes st hs C [0..<length hs] @ [(st, put_head h (C st))]) D"
  have keep: "E m = ?F m" if "m \<notin> set hs" for m
    unfolding E_def using that by (intro apply_writes_other) (auto dest!: in_set_takeD)
  have sth: "st \<notin> set hs" using geo by (auto simp: log_geo_def log_area_def)
  have st: "E st = put_head h (C st)" using keep [OF sth] by simp
  have lg: "E (log_blk st i) = C (hs ! i)" if i: "i < length hs" for i
  proof -
    have il: "i < LOGSIZE" using i geo by (simp add: log_geo_def)
    have "log_blk st i \<notin> set hs" "log_blk st i \<noteq> st" using log_blk_facts [OF geo il] by blast+
    moreover have "apply_writes (log_writes st hs C [0..<length hs]) D (log_blk st i) = C (hs ! i)"
    proof (rule apply_writes_at)
      show "distinct (map fst (log_writes st hs C [0..<length hs]))"
        using log_blk_facts(5) [OF geo] geo
        by (auto simp: log_writes_def comp_def distinct_map inj_on_def log_geo_def) (metis order_less_le_trans)
      show "(log_blk st i, C (hs ! i)) \<in> set (log_writes st hs C [0..<length hs])" using i by (auto simp: log_writes_def)
    qed
    ultimately show ?thesis using keep by simp
  qed
  have out: "E m = C m" if "m \<notin> log_area st" "m \<notin> set hs" for m
    unfolding E_def by (rule written_out [OF v that])
  show "log_clean st E" using geo ch n
    by (simp add: log_clean_def st)
  have "\<forall>i < length hs. E (log_blk st i) = C (hs ! i)" "\<forall>m. m \<notin> log_area st \<and> m \<notin> set hs \<longrightarrow> E m = C m" using lg out by blast+
  from recovered_full [where D = E and C = C, OF geo _ this] show "same_outside st (recovered st E) C" using ch(4) st by simp
qed

lemma crash_points:
  assumes v: "commit_view st hs h C D" and k: "k \<le> length (commit_writes st hs h C)"
  defines "E \<equiv> apply_writes (take k (commit_writes st hs h C)) D"
  shows "log_clean st E" and "same_outside st (recovered st E) (if k \<le> length hs then D else C)"
proof -
  let ?n = "length hs"
  let ?w1 = "map (\<lambda>i. (log_blk st i, C (hs ! i))) [0..<?n]"
  let ?w3 = "map (\<lambda>i. (hs ! i, C (hs ! i))) [0..<?n]"
  let ?h1 = "(st, put_head h (C st))"
  let ?h2 = "(st, put_head (h\<lparr>lh_n := 0\<rparr>) (put_head h (C st)))"
  have ws: "commit_writes st hs h C = ?w1 @ [?h1] @ ?w3 @ [?h2]" by (simp add: commit_writes_def)
  have lw: "log_writes st hs C [0..<?n] = ?w1" by (simp add: log_writes_def)
  consider (a) "k \<le> ?n" | (b) j where "j \<le> ?n" "k = Suc (?n + j)" | (c) "k = Suc (Suc (?n + ?n))"
  proof (cases "k \<le> ?n")
    case False
    then have "k = Suc (?n + (k - ?n - 1))" by simp
    moreover have "k \<le> Suc (Suc (?n + ?n))" using k by (simp add: ws)
    ultimately show ?thesis using that(2) [of "k - ?n - 1"] that(3) by linarith
  qed (use that in blast)
  then have "log_clean st E \<and> same_outside st (recovered st E) (if k \<le> ?n then D else C)"
  proof cases
    case a
    then have "E = apply_writes (take k ?w1) D" by (simp add: E_def ws)
    then show ?thesis using crash_before [OF v a] a by simp
  next
    case b
    then have "take k (commit_writes st hs h C) = (?w1 @ [?h1]) @ take j ?w3" by (simp add: ws)
    then have "E = apply_writes (take j ?w3) (apply_writes (log_writes st hs C [0..<?n] @ [?h1]) D)"
      unfolding E_def lw by (simp only: apply_writes_simps)
    then show ?thesis using crash_after [OF v b(1)] b by simp
  next
    case c
    let ?F = "apply_writes (take ?n ?w3) (apply_writes (log_writes st hs C [0..<?n] @ [?h1]) D)"
    have "take k (commit_writes st hs h C) = (?w1 @ [?h1]) @ ?w3 @ [?h2]" using c by (simp add: ws)
    then have "E = apply_writes [?h2] (apply_writes ?w3 (apply_writes (?w1 @ [?h1]) D))"
      unfolding E_def by (simp only: apply_writes_simps)
    then have E: "E = ?F(st := snd ?h2)" by (simp add: lw)
    have geo: "log_geo st hs" using v by (simp add: commit_view_def)
    have "log_clean st E \<and> head_n (E st) = 0"
      using commit_head(5,6) [OF v] geo by (intro empty_header [of "snd ?h2"]) (simp_all add: E log_geo_def)
    moreover have "same_outside st ?F C" using installed_all [OF v] by simp
    ultimately show ?thesis using c by (simp add: recovered_empty same_outside_def E log_area_def)
  qed
  then show "log_clean st E" and "same_outside st (recovered st E) (if k \<le> ?n then D else C)" by blast+
qed

section \<open>A crash during recovery\<close>

definition disks_of :: "(u32 \<times> u8 list) list \<Rightarrow> disk \<Rightarrow> disk list" where
  "disks_of ws D = map (\<lambda>k. apply_writes (take k ws) D) (rev [1..<Suc (length ws)])"

lemma run_writes_disks: "run_writes ws h = disks_of ws (hd h) @ h"
proof (induction ws rule: rev_induct)
  case (snoc w ws)
  obtain n x where w: "w = (n, x)" by (cases w)
  have "run_writes (ws @ [w]) h = (hd (run_writes ws h))(n := x) # run_writes ws h" by (simp add: w)
  also have "(hd (run_writes ws h))(n := x) = apply_writes (ws @ [w]) (hd h)" by (simp add: run_writes_hd w)
  also have "run_writes ws h = disks_of ws (hd h) @ h" by (rule snoc.IH)
  also have "disks_of ws (hd h) = map (\<lambda>k. apply_writes (take k (ws @ [w])) (hd h)) (rev [1..<Suc (length ws)])"
    unfolding disks_of_def by (intro map_cong refl) auto
  finally show ?case by (simp add: disks_of_def)
qed (simp add: disks_of_def)

lemma disks_of_set: "E \<in> insert D (set (disks_of ws D)) \<Longrightarrow> \<exists>k \<le> length ws. E = apply_writes (take k ws) D"
proof -
  assume "E \<in> insert D (set (disks_of ws D))"
  then consider "E = apply_writes (take 0 ws) D" | k where "k < Suc (length ws)" "E = apply_writes (take k ws) D"
    by (auto simp: disks_of_def simp del: upt_Suc)
  then show ?thesis by cases (metis le0, metis less_Suc_eq_le)
qed

lemma recovery_crash:
  assumes cl: "log_clean st D" and E: "E = apply_writes (take k (recovery_writes st D)) D"
  shows "log_clean st E" and "same_outside st (recovered st E) (recovered st D)"
proof -
  let ?hs = "head_blocks (D st)"
  let ?w = "recovery_writes st D"
  have geo: "log_geo st ?hs" using cl by (simp add: log_clean_def)
  have hw: "fst ` set ?w \<subseteq> set ?hs" unfolding recovery_writes_def by (rule home_writes_fst) simp
  have keep: "E m = D m" if "m \<notin> set ?hs" for m
    unfolding E using that hw by (intro apply_writes_other) (meson image_mono set_take_subset subsetD)
  have area: "E m = D m" if "m \<in> log_area st" for m
    using geo that by (intro keep) (auto simp: log_geo_def)
  have st: "E st = D st" using area [of st] by (simp add: log_area_def)
  then show "log_clean st E" using cl by (simp add: log_clean_def)
  have d: "distinct (map fst ?w)" using geo map_nth [of ?hs] by (simp add: recovery_writes_def home_writes_def comp_def log_geo_def)
  have "E (log_blk st i) = recovered st D (?hs ! i)" if i: "i < length ?hs" for i
  proof -
    have "i < LOGSIZE" using i geo by (simp add: log_geo_def)
    then have "E (log_blk st i) = D (log_blk st i)" using log_blk_facts(3) [OF geo] area by blast
    moreover have "(?hs ! i, D (log_blk st i)) \<in> set ?w" using i by (auto simp: recovery_writes_def home_writes_def)
    ultimately show ?thesis using apply_writes_at [OF d] unfolding recovered_def by metis
  qed
  moreover have "E m = recovered st D m" if "m \<notin> set ?hs" for m
    unfolding recovered_def using keep [OF that] that hw by (subst apply_writes_other) auto
  ultimately have "\<forall>i < length ?hs. E (log_blk st i) = recovered st D (?hs ! i)"
    "\<forall>m. m \<notin> log_area st \<and> m \<notin> set ?hs \<longrightarrow> E m = recovered st D m" by blast+
  from recovered_full [where D = E and C = "recovered st D", OF geo _ this] st
  show "same_outside st (recovered st E) (recovered st D)" by simp
qed

text \<open>A state after booting from disk D: an empty cache, and the log not yet read.\<close>

definition booted :: "u32 \<Rightarrow> nat \<Rightarrow> u32 \<Rightarrow> disk \<Rightarrow> kdk \<Rightarrow> bool" where
  "booted d p st D t \<longleftrightarrow> cache d p {} t \<and> refs d t = (\<lambda>_. 0) \<and> log_ready d st t \<and> klog.more t = [D]"

lemma recover_booted:
  assumes b: "booted d p st D t" and sw: "serves sw p" and cl: "log_clean st D"
  shows "\<exists>t' hist. recover_from_log sw t = Inr ((), t') \<and> klog.more t' = hist @ [D] \<and>
    same_outside st (disk_now t') (recovered st D) \<and> head_n (disk_now t' st) = 0 \<and>
    refs d t' = (\<lambda>m. if m \<in> set (head_blocks (D st)) then - 1 else 0) \<and>
    (\<forall>E \<in> set hist. log_clean st E \<and> same_outside st (recovered st E) (recovered st D))"
proof -
  let ?w = "recovery_writes st D"
  have D: "disk_now t = D" "klog.more t = [D]" using b by (simp_all add: booted_def)
  obtain t' x where t': "recover_from_log sw t = Inr ((), t')" "get32 x 0 = 0" "length x = BSIZE"
    "klog.more t' = run_writes (?w @ [(st, x)]) [D]" "refs d t' = (\<lambda>m. if m \<in> set (head_blocks (D st)) then - 1 else 0)"
    using recover_ok [of d p t sw st] b sw cl D by (auto simp: booted_def)
  have last: "apply_writes (?w @ [(st, x)]) D = (recovered st D)(st := x)" by (simp add: recovered_def)
  have now: "disk_now t' = (recovered st D)(st := x)" unfolding t'(4) run_writes_hd using last by simp
  have st: "unat st + LOGSIZE < 2 ^ 31" using cl by (simp add: log_clean_def log_geo_def)
  have fin: "log_clean st ((recovered st D)(st := x)) \<and> head_n (((recovered st D)(st := x)) st) = 0"
    by (rule empty_header [OF t'(3,2) st]) simp
  have out: "same_outside st ((recovered st D)(st := x)) (recovered st D)" by (simp add: same_outside_def log_area_def)
  have "log_clean st E \<and> same_outside st (recovered st E) (recovered st D)" if e: "E \<in> set (disks_of (?w @ [(st, x)]) D)" for E
  proof -
    obtain k where k: "k \<le> Suc (length ?w)" "E = apply_writes (take k (?w @ [(st, x)])) D"
      using disks_of_set [OF insertI2 [OF e]] by (metis length_append_singleton)
    show ?thesis
    proof (cases "k \<le> length ?w")
      case True
      then show ?thesis using recovery_crash [OF cl, of E k] k(2) by simp
    next
      case False
      then have "E = (recovered st D)(st := x)" using k last by simp
      then show ?thesis using fin out by (simp add: recovered_empty)
    qed
  qed
  then show ?thesis using t' now fin out
    by (intro exI [of _ t'] exI [of _ "disks_of (?w @ [(st, x)]) D"]) (simp add: run_writes_disks)
qed

section \<open>Properties\<close>

lemma same_outside_trans: "same_outside st A B \<Longrightarrow> same_outside st B C \<Longrightarrow> same_outside st A C"
  by (simp add: same_outside_def)

text \<open>C1: Crash atomicity of the log. A commit of the blocks in the header returns, with the header empty and
  all blocks unpinned. Wherever in the commit the machine stops, the log it leaves on the disk is in order,
  and booting from that disk and recovering gives a disk that agrees, outside the log area, either
  with the disk before the commit or with what the cache held when the commit started: all of the
  transaction or nothing of it. After the commit has returned it is all of it.\<close>

theorem commit_crash_atomic:
  assumes c: "cache d p {} s" and sw: "serves sw p" and la: "log_at d st hs s" and ne: "hs \<noteq> []"
    and o: "only_refs d s hs" and pin: "\<forall>h \<in> set hs. refs d s h = 1" and geo: "log_geo st hs" and nb: "length hs < NBUF"
    and hd: "length (disk_now s st) = BSIZE" "get32 (disk_now s st) 0 = 0"
  shows "\<exists>s' hist. commit sw s = Inr ((), s') \<and> cache d p {} s' \<and> lh_n (l_lh s') = 0 \<and> refs d s' = (\<lambda>_. 0) \<and>
    klog.more s' = hist @ klog.more s \<and> hist \<noteq> [] \<and>
    (\<forall>D \<in> insert (disk_now s) (set hist). \<forall>p' sw' t. booted d p' st D t \<and> serves sw' p' \<longrightarrow>
       (\<exists>t'. recover_from_log sw' t = Inr ((), t') \<and>
          (same_outside st (disk_now t') (disk_now s) \<or> same_outside st (disk_now t') (content d s)) \<and>
          (D = disk_now s' \<longrightarrow> same_outside st (disk_now t') (content d s))))"
proof -
  let ?ws = "commit_writes st hs (l_lh s) (content d s)"
  obtain s' where s': "commit sw s = Inr ((), s')" "cache d p {} s'" "l_lh s' = (l_lh s)\<lparr>lh_n := 0\<rparr>" "refs d s' = (\<lambda>_. 0)"
    "klog.more s' = run_writes ?ws (klog.more s)"
    using commit_ok [OF c sw la geo ne o pin nb] by blast
  have v: "commit_view st hs (l_lh s) (content d s) (disk_now s)"
    using la geo nb hd o cache_free_content [OF c] by (auto simp: commit_view_def log_at_def only_refs_def)
  let ?hist = "disks_of ?ws (disk_now s)"
  have hist: "klog.more s' = ?hist @ klog.more s" by (simp add: s'(5) run_writes_disks)
  have now: "disk_now s' = apply_writes (take (length ?ws) ?ws) (disk_now s)" by (simp add: s'(5) run_writes_hd)
  have len: "\<not> length ?ws \<le> length hs" by (simp add: commit_writes_def)
  have rec: "\<exists>t'. recover_from_log sw' t = Inr ((), t') \<and> same_outside st (disk_now t') (recovered st D)"
    if "log_clean st D" "booted d p' st D t" "serves sw' p'" for D p' sw' t
    using recover_booted [OF that(2,3,1)] by blast
  have main: "\<exists>t'. recover_from_log sw' t = Inr ((), t') \<and>
      (same_outside st (disk_now t') (disk_now s) \<or> same_outside st (disk_now t') (content d s)) \<and>
      (D = disk_now s' \<longrightarrow> same_outside st (disk_now t') (content d s))"
    if D: "D \<in> insert (disk_now s) (set ?hist)" and b: "booted d p' st D t" "serves sw' p'" for D p' sw' t
  proof -
    obtain k where k: "k \<le> length ?ws" "D = apply_writes (take k ?ws) (disk_now s)" using disks_of_set [OF D] by blast
    note cp = crash_points [OF v k(1), folded k(2)]
    obtain t' where t': "recover_from_log sw' t = Inr ((), t')" "same_outside st (disk_now t') (recovered st D)"
      using rec [OF cp(1) b] by blast
    have a: "same_outside st (disk_now t') (disk_now s) \<or> same_outside st (disk_now t') (content d s)"
      using same_outside_trans [OF t'(2) cp(2)] by (cases "k \<le> length hs") simp_all
    have "same_outside st (recovered st D) (content d s)" if "D = disk_now s'"
      using crash_points(2) [OF v order_refl] len that now by simp
    then have "D = disk_now s' \<longrightarrow> same_outside st (disk_now t') (content d s)" using same_outside_trans [OF t'(2)] by blast
    then show ?thesis using t'(1) a by blast
  qed
  have "?hist \<noteq> []" by (simp add: disks_of_def commit_writes_def)
  moreover have "lh_n (l_lh s') = 0" by (simp add: s'(3))
  moreover have "\<forall>D \<in> insert (disk_now s) (set ?hist). \<forall>p' sw' t. booted d p' st D t \<and> serves sw' p' \<longrightarrow>
       (\<exists>t'. recover_from_log sw' t = Inr ((), t') \<and>
          (same_outside st (disk_now t') (disk_now s) \<or> same_outside st (disk_now t') (content d s)) \<and>
          (D = disk_now s' \<longrightarrow> same_outside st (disk_now t') (content d s)))" using main by blast
  ultimately show ?thesis using s'(1,2,4) hist by (intro exI [of _ s'] exI [of _ ?hist] conjI)
qed

text \<open>C2: Recovery survives crashes and finishes: booted from a disk whose log is in order, recovery returns with
  an empty log and every committed block in its home; a machine that stops during recovery leaves a
  disk whose log is again in order and that recovers to the same blocks.\<close>

theorem recovery_idempotent:
  assumes "booted d p st D t" and "serves sw p" and "log_clean st D"
  shows "\<exists>t' hist. recover_from_log sw t = Inr ((), t') \<and> klog.more t' = hist @ [D] \<and> head_n (disk_now t' st) = 0 \<and>
    (\<forall>i < head_n (D st). disk_now t' (head_blocks (D st) ! i) = D (log_blk st i)) \<and>
    (\<forall>m. m \<notin> log_area st \<and> m \<notin> set (head_blocks (D st)) \<longrightarrow> disk_now t' m = D m) \<and>
    (\<forall>E \<in> set hist. log_clean st E \<and>
       (\<forall>p' sw' u. booted d p' st E u \<and> serves sw' p' \<longrightarrow>
          (\<exists>u'. recover_from_log sw' u = Inr ((), u') \<and> same_outside st (disk_now u') (disk_now t'))))"
proof -
  let ?hs = "head_blocks (D st)"
  obtain t' hist where t': "recover_from_log sw t = Inr ((), t')" "klog.more t' = hist @ [D]"
    "same_outside st (disk_now t') (recovered st D)" "head_n (disk_now t' st) = 0"
    "\<forall>E \<in> set hist. log_clean st E \<and> same_outside st (recovered st E) (recovered st D)"
    using recover_booted [OF assms] by blast
  have geo: "log_geo st ?hs" using assms(3) by (simp add: log_clean_def)
  let ?w = "recovery_writes st D"
  have d: "distinct (map fst ?w)" using geo map_nth [of ?hs] by (simp add: recovery_writes_def home_writes_def comp_def log_geo_def)
  have hw: "fst ` set ?w \<subseteq> set ?hs" unfolding recovery_writes_def by (rule home_writes_fst) simp
  have "disk_now t' (?hs ! i) = D (log_blk st i)" if i: "i < head_n (D st)" for i
  proof -
    have "(?hs ! i, D (log_blk st i)) \<in> set ?w" using i by (auto simp: recovery_writes_def home_writes_def)
    then have "recovered st D (?hs ! i) = D (log_blk st i)" unfolding recovered_def by (rule apply_writes_at [OF d])
    moreover have "?hs ! i \<notin> log_area st" using geo i by (auto simp: log_geo_def)
    ultimately show ?thesis using t'(3) by (simp add: same_outside_def)
  qed
  moreover have "disk_now t' m = D m" if "m \<notin> log_area st" "m \<notin> set ?hs" for m
    using t'(3) that hw apply_writes_other [of m ?w D] by (auto simp: same_outside_def recovered_def)
  moreover have "\<exists>u'. recover_from_log sw' u = Inr ((), u') \<and> same_outside st (disk_now u') (disk_now t')"
    if e: "E \<in> set hist" "booted d p' st E u" "serves sw' p'" for E p' sw' u
  proof -
    obtain u' where u': "recover_from_log sw' u = Inr ((), u')" "same_outside st (disk_now u') (recovered st E)"
      using recover_booted [OF e(2,3)] t'(5) e(1) by blast
    moreover have "same_outside st (recovered st D) (disk_now t')" using t'(3) by (simp add: same_outside_def)
    ultimately show ?thesis using t'(5) e(1) same_outside_trans by blast
  qed
  ultimately show ?thesis using t' by (intro exI [of _ t'] exI [of _ hist]) blast
qed

section \<open>A concrete transaction\<close>

lemma demo_chain_next: "chain Buf demo_bnext (Buf n) (rev [0..<n]) Head"
  by (induction n) (simp_all add: demo_bnext_def)

lemma demo_chain_prev: "n < NBUF \<Longrightarrow> chain Buf demo_bprev (Buf n) [Suc n..<NBUF] Head"
proof (induction "NBUF - n" arbitrary: n)
  case (Suc k)
  show ?case
  proof (cases "Suc n < NBUF")
    case True
    then have "chain Buf demo_bprev (Buf (Suc n)) [Suc (Suc n)..<NBUF] Head" using Suc by (intro Suc.hyps(1)) simp_all
    moreover have "demo_bprev (Buf n) = Buf (Suc n)" using True by (simp add: demo_bprev_def)
    ultimately show ?thesis using True by (simp add: upt_conv_Cons)
  next
    case False
    then have "n = NBUF - 1" "[Suc n..<NBUF] = []" using Suc.prems by simp_all
    then show ?thesis by (simp add: demo_bprev_def)
  qed
qed simp

lemma demo_lru: "bnext s = demo_bnext \<Longrightarrow> bprev s = demo_bprev \<Longrightarrow> lru s (rev [0..<NBUF])"
proof -
  assume s: "bnext s = demo_bnext" "bprev s = demo_bprev"
  have u: "[0..<NBUF] = [0..<NBUF - 1] @ [NBUF - 1]" "[0..<NBUF] = 0 # [Suc 0..<NBUF]"
    using upt_Suc_append [of 0 "NBUF - 1"] by (simp_all add: NBUF_30 upt_conv_Cons)
  have "chain Buf demo_bnext Head (rev [0..<NBUF]) Head"
    unfolding u(1) using demo_chain_next [of "NBUF - 1"] by (simp add: demo_bnext_def)
  moreover have "chain Buf demo_bprev Head [0..<NBUF] Head"
    unfolding u(2) using demo_chain_prev [of 0] by (simp add: demo_bprev_def NBUF_30)
  ultimately show ?thesis by (simp add: lru_def s)
qed

text \<open>Block 50 has been written in the cache, and log_write has recorded and pinned it.\<close>

definition demo_txn :: kdk where
  "demo_txn = demo_kdk\<lparr>bufs := (\<lambda>_. demo_buf)(0 := \<lparr>b_valid = True, b_disk = False, b_dev = 1, b_blockno = 50, b_refcnt = 1,
       b_data = replicate 1024 7\<rparr>), l_lh := \<lparr>lh_n = 1, lh_block = 50 # replicate 29 0\<rparr>\<rparr>"

lemma demo_boot_cache: "cache 1 3 {} (demo_boot D)"
proof -
  have "lru (demo_boot D) (rev [0..<NBUF])" by (rule demo_lru) simp_all
  then have "\<exists>bs. lru (demo_boot D) bs \<and> set bs = {..<NBUF}" by (intro exI [of _ "rev [0..<NBUF]"]) auto
  then show ?thesis by (simp add: cache_def holds_def unique_bufs_def buf_ok_def demo_buf_def)
qed

lemma demo_boot_refs: "refs 1 (demo_boot D) = (\<lambda>_. 0)"
  by (rule ext) (simp add: refs_def demo_buf_def split: option.splits)

lemma demo_txn_simps [simp]:
  "bufs demo_txn = (\<lambda>_. demo_buf)(0 := \<lparr>b_valid = True, b_disk = False, b_dev = 1, b_blockno = 50, b_refcnt = 1, b_data = replicate 1024 7\<rparr>)"
  "l_lh demo_txn = \<lparr>lh_n = 1, lh_block = 50 # replicate 29 0\<rparr>" "klog.more demo_txn = [\<lambda>_. replicate 1024 0]"
  "l_start demo_txn = 2" "l_dev demo_txn = 1" "bnext demo_txn = demo_bnext" "bprev demo_txn = demo_bprev"
  "slocks demo_txn = (\<lambda>_. \<lparr>sl_locked = False, sl_name = [], sl_pid = 0\<rparr>)"
  by (simp_all add: demo_txn_def)

lemma demo_txn_unique: "unique_bufs (bufs demo_txn)"
  by (auto simp: unique_bufs_def demo_buf_def)

lemma demo_txn_cache: "cache 1 3 {} demo_txn"
proof -
  have "lru demo_txn (rev [0..<NBUF])" by (rule demo_lru) simp_all
  then have "\<exists>bs. lru demo_txn bs \<and> set bs = {..<NBUF}" by (intro exI [of _ "rev [0..<NBUF]"]) auto
  moreover have "quiet 3 demo_txn" unfolding demo_txn_def by simp
  ultimately show ?thesis using demo_txn_unique by (simp add: cache_def holds_def buf_ok_def demo_buf_def)
qed

lemma demo_txn_refs: "refs 1 demo_txn = (\<lambda>m. if m = 50 then 1 else 0)"
proof
  fix m
  have "holder 1 50 (bufs demo_txn) = Some 0" by (intro holderI demo_txn_unique) (simp_all add: NBUF_30)
  moreover have "holder 1 m (bufs demo_txn) = None" if "m \<noteq> 50"
    unfolding holder_None using that by (auto simp: demo_buf_def)
  ultimately show "refs 1 demo_txn m = (if m = 50 then 1 else 0)" by (cases "m = 50") (simp_all add: refs_def)
qed

lemma demo_log: "log_geo 2 [50]" "log_at 1 2 [50] demo_txn" "only_refs 1 demo_txn [50]"
proof -
  have "log_blk 2 i \<noteq> 50" if "i < LOGSIZE" for i
    using unat_log_blk [of 2 i] that by (auto simp: LOGSIZE_30)
  then have "(50 :: u32) \<notin> log_area 2" by (auto simp: log_area_def)
  then show "log_geo 2 [50]" by (simp add: log_geo_def LOGSIZE_30)
qed (simp_all add: log_at_def LOGSIZE_30 only_refs_def demo_txn_refs)

lemma demo_booted: "booted 1 3 2 D (demo_boot D)"
  using demo_boot_cache demo_boot_refs by (simp add: booted_def log_ready_def)

lemma demo_zero: "get32 (replicate 1024 0) 0 = 0"
  by (simp add: get32_def get_le_def eval_nat_numeral)

theorem commit_crash_atomic_witness:
  "\<exists>s'. commit (disk_switch 3) demo_txn = Inr ((), s') \<and> lh_n (l_lh s') = 0 \<and>
     (\<exists>t'. recover_from_log (disk_switch 3) demo_kdk = Inr ((), t') \<and>
        (same_outside 2 (disk_now t') (disk_now demo_txn) \<or> same_outside 2 (disk_now t') (content 1 demo_txn)))"
proof -
  have sv: "serves (disk_switch 3) 3" by (simp add: serves_def)
  have z: "length (disk_now demo_txn 2) = BSIZE" "get32 (disk_now demo_txn 2) 0 = 0"
    by (simp_all add: BSIZE_1024 demo_zero)
  have p: "[50 :: u32] \<noteq> []" "\<forall>h \<in> set [50]. refs 1 demo_txn h = 1" "length [50 :: u32] < NBUF"
    by (simp_all add: demo_txn_refs NBUF_30)
  have b: "booted 1 3 2 (disk_now demo_txn) demo_kdk" using demo_booted by (simp only: demo_txn_simps list.sel)
  note c = commit_crash_atomic [OF demo_txn_cache sv demo_log(2) p(1) demo_log(3) p(2) demo_log(1) p(3) z]
  then obtain s' hist where s': "commit (disk_switch 3) demo_txn = Inr ((), s')" "lh_n (l_lh s') = 0"
    and r: "\<forall>D \<in> insert (disk_now demo_txn) (set hist). \<forall>p' sw' t. booted 1 p' 2 D t \<and> serves sw' p' \<longrightarrow>
       (\<exists>t'. recover_from_log sw' t = Inr ((), t') \<and>
          (same_outside 2 (disk_now t') (disk_now demo_txn) \<or> same_outside 2 (disk_now t') (content 1 demo_txn)) \<and>
          (D = disk_now s' \<longrightarrow> same_outside 2 (disk_now t') (content 1 demo_txn)))"
    by (elim exE conjE) (rule that)
  show ?thesis using s' r [THEN bspec, OF insertI1, rule_format, OF conjI, OF b sv] by blast
qed

theorem recovery_idempotent_witness:
  "\<exists>t'. recover_from_log (disk_switch 3) demo_kdk = Inr ((), t') \<and> head_n (disk_now t' 2) = 0"
proof -
  have "log_clean 2 (\<lambda>_. replicate 1024 0)"
    by (rule empty_header [of "replicate 1024 0", THEN conjunct1]) (simp_all add: BSIZE_1024 LOGSIZE_30 demo_zero)
  moreover have "serves (disk_switch 3) 3" by (simp add: serves_def)
  ultimately show ?thesis using recovery_idempotent [OF demo_booted] by blast
qed

text \<open>C34: Recovery unpins buffers that nobody pinned: install_trans serves commit, whose blocks log_write has
  pinned, and recovery, whose blocks are not pinned. After recovery of a non-empty log the
  reference count of every recovered block is therefore not 0 but the largest 32-bit value.\<close>

theorem recovery_unpins_unpinned:
  assumes "booted d p st D t" and "serves sw p" and "log_clean st D" and "h \<in> set (head_blocks (D st))"
  shows "refs d t h = 0 \<and> (\<exists>t'. recover_from_log sw t = Inr ((), t') \<and> refs d t' h = 0xFFFFFFFF)"
proof -
  have "refs d t h = 0" using assms(1) by (simp add: booted_def)
  moreover have "\<exists>t'. recover_from_log sw t = Inr ((), t') \<and> refs d t' h = - 1"
    using recover_booted [OF assms(1-3)] assms(4) by auto
  moreover have "(- 1 :: u32) = 0xFFFFFFFF" by simp
  ultimately show ?thesis by metis
qed

text \<open>A disk that was left with block 50 committed but not installed.\<close>

definition demo_committed :: disk where
  "demo_committed = (\<lambda>_. replicate 1024 0)(2 := put_head (l_lh demo_txn) (replicate 1024 0))"

lemma demo_commit_view: "commit_view 2 [50] (l_lh demo_txn) (\<lambda>_. replicate 1024 0) (\<lambda>_. replicate 1024 0)"
  using demo_log(1) by (simp add: commit_view_def NBUF_30 BSIZE_1024 demo_zero)

lemma demo_committed_clean: "log_clean 2 demo_committed" "head_blocks (demo_committed 2) = [50]"
  using commit_head [OF demo_commit_view] demo_log(1)
  by (simp_all add: demo_committed_def log_clean_def NBUF_30 del: demo_txn_simps)

theorem recovery_unpins_unpinned_witness:
  "\<exists>t'. recover_from_log (disk_switch 3) (demo_boot demo_committed) = Inr ((), t') \<and> refs 1 t' 50 = 0xFFFFFFFF"
proof -
  have "serves (disk_switch 3) 3" by (simp add: serves_def)
  moreover have "50 \<in> set (head_blocks (demo_committed 2))" by (simp add: demo_committed_clean)
  ultimately show ?thesis using recovery_unpins_unpinned [OF demo_booted _ demo_committed_clean(1)] by blast
qed

end
