(* ===== verification/Bio_Contract.thy ===== *)
theory Bio_Contract
  imports Log_Crash
begin

text \<open>
  The contract of the buffer cache of lab 2: how bget chooses a buffer, and that the cache together
  with the disk implements a store of blocks.
\<close>

section \<open>Choosing a buffer\<close>

text \<open>C17: bget gives the buffer that holds the block, with one more reference; when no buffer holds it, the least
  recently used buffer without references, now for this block, not valid, with one
  reference; and it panics when every buffer is referenced. The buffer is locked for the caller, and nothing
  else changes.\<close>

theorem bget_recycles_lru:
  assumes "idle p s" and "lru s bs" and "\<forall>i \<in> set bs. \<not> sl_locked (slocks s (BufLock i))"
  shows "bget sw d n s =
    (case find (\<lambda>i. b_dev (bufs s i) = d \<and> b_blockno (bufs s i) = n) bs of
       Some i \<Rightarrow> Inr (i, sl_taken (BufLock i) p (s\<lparr>bufs := (bufs s)(i := (bufs s i)\<lparr>b_refcnt := b_refcnt (bufs s i) + 1\<rparr>)\<rparr>))
     | None \<Rightarrow>
         (case find (\<lambda>i. b_refcnt (bufs s i) = 0) (rev bs) of
            Some i \<Rightarrow> Inr (i, sl_taken (BufLock i) p (s\<lparr>bufs := (bufs s)(i :=
              (bufs s i)\<lparr>b_dev := d, b_blockno := n, b_valid := False, b_refcnt := 1\<rparr>)\<rparr>))
          | None \<Rightarrow> Inl (Panic ''bget: no buffers'')))"
proof (cases "find (\<lambda>i. b_dev (bufs s i) = d \<and> b_blockno (bufs s i) = n) bs")
  case (Some i)
  then have "\<not> sl_locked (slocks s (BufLock i))" using find_Some [OF Some] assms(3) by blast
  then show ?thesis using bget_hit [OF assms(1,2) Some] Some by simp
next
  case None
  note miss = bget_miss [OF assms(1,2) None]
  show ?thesis
  proof (cases "find (\<lambda>i. b_refcnt (bufs s i) = 0) (rev bs)")
    case (Some i)
    then have "\<not> sl_locked (slocks s (BufLock i))" using find_Some [OF Some] assms(3) by simp
    then show ?thesis using miss(2) [OF Some] None Some by simp
  qed (use miss(1) None in simp)
qed

theorem bget_recycles_lru_witness:
  "bget (kret ()) 1 50 demo_kdk = Inr (0, sl_taken (BufLock 0) 3 (demo_kdk\<lparr>bufs := (bufs demo_kdk)(0 :=
     (bufs demo_kdk 0)\<lparr>b_dev := 1, b_blockno := 50, b_valid := False, b_refcnt := 1\<rparr>)\<rparr>))"
proof -
  have "idle 3 demo_kdk" using demo_quiet by (simp add: quiet_def del: demo_quiet)
  moreover have "lru demo_kdk (rev [0..<NBUF])" by (rule demo_lru) simp_all
  moreover have "find (\<lambda>i. b_dev (bufs demo_kdk i) = 1 \<and> b_blockno (bufs demo_kdk i) = 50) (rev [0..<NBUF]) = None"
    by (simp add: find_None demo_buf_def)
  moreover have "find (\<lambda>i. b_refcnt (bufs demo_kdk i) = 0) (rev (rev [0..<NBUF])) = Some 0"
    by (simp add: NBUF_30 upt_rec demo_buf_def)
  ultimately show ?thesis using bget_recycles_lru [of 3 demo_kdk "rev [0..<NBUF]" "kret ()" 1 50] by simp
qed

section \<open>A store of blocks\<close>

text \<open>
  The abstract state: the current contents of every block, and the blocks that survive a crash. Reading
  looks at the former; writing a block through copies its contents to the latter.
\<close>

definition store :: "u32 \<Rightarrow> kdk \<Rightarrow> (u32 \<Rightarrow> u8 list) \<times> disk" where
  "store d s = (content d s, disk_now s)"

definition store_write :: "u32 \<Rightarrow> u8 list \<Rightarrow> (u32 \<Rightarrow> u8 list) \<times> disk \<Rightarrow> (u32 \<Rightarrow> u8 list) \<times> disk" where
  "store_write n x a = ((fst a)(n := x), (snd a)(n := x))"

text \<open>How the kernel reads a block, and how it writes one through.\<close>

definition read_block :: "(kdk, unit) km \<Rightarrow> u32 \<Rightarrow> u32 \<Rightarrow> (kdk, u8 list) km" where
  "read_block sw d n =
     kbind (bread sw d n) (\<lambda>b. kbind (get_buf b b_data) (\<lambda>x. kseq (brelse b) (kret x)))"

definition write_block :: "(kdk, unit) km \<Rightarrow> u32 \<Rightarrow> u32 \<Rightarrow> u8 list \<Rightarrow> (kdk, unit) km" where
  "write_block sw d n x =
     kbind (bread sw d n) (\<lambda>b.
     kseq (upd_buf b (\<lambda>q. q\<lparr>b_data := x\<rparr>)) (kseq (bwrite sw b) (brelse b)))"

lemma can_read_free:
  assumes "cache d p {} s" and "refs d s = (\<lambda>_. 0)" and "unat n < 2 ^ 31"
  shows "can_read d {} s n"
  using room_card [OF assms(1), of "{}" n] assms(2,3) by (simp add: can_read_def NBUF_30)

lemma read_block_ok:
  assumes c: "cache d p {} s" and z: "refs d s = (\<lambda>_. 0)" and n: "unat n < 2 ^ 31" and sw: "serves sw p"
  shows "\<exists>s'. read_block sw d n s = Inr (content d s n, s') \<and> cache d p {} s' \<and> refs d s' = (\<lambda>_. 0) \<and> store d s' = store d s"
proof -
  obtain i s1 where r: "bread sw d n s = Inr (i, s1)" "cache d p {i} s1" "buf_of d s1 i n"
    "view d s1 = (content d s, (refs d s)(n := refs d s n + 1), klog.more s)"
    using blk_read [OF c can_read_free [OF c z n] sw] by auto
  have v: "content d s1 = content d s" "refs d s1 = (\<lambda>_. 0)(n := 1)" "disk_now s1 = disk_now s" using r(4) z by (simp_all add: view_def)
  have "content d s1 n = disk_now s1 n" using cache_free_content [OF c, of n] z v by simp
  then obtain s2 where s2: "brelse i s1 = Inr ((), s2)" "cache d p {} s2"
    "view d s2 = (content d s1, (refs d s1)(n := refs d s1 n - 1), klog.more s1)"
    using blk_release [OF r(2,3)] by auto
  have "read_block sw d n s = Inr (content d s n, s2)"
    using r(1) s2(1) buf_ofD(5) [OF r(3)] v by (simp add: read_block_def get_buf_def kmon)
  moreover have "refs d s2 = (\<lambda>_. 0)" "store d s2 = store d s" using s2(3) v r(4) by (auto simp: view_def store_def)
  ultimately show ?thesis using s2(2) by blast
qed

lemma write_block_ok:
  assumes c: "cache d p {} s" and z: "refs d s = (\<lambda>_. 0)" and n: "unat n < 2 ^ 31" and sw: "serves sw p"
  shows "\<exists>s'. write_block sw d n x s = Inr ((), s') \<and> cache d p {} s' \<and> refs d s' = (\<lambda>_. 0) \<and> store d s' = store_write n x (store d s)"
proof -
  obtain i s1 where r: "bread sw d n s = Inr (i, s1)" "cache d p {i} s1" "buf_of d s1 i n"
    "view d s1 = (content d s, (refs d s)(n := refs d s n + 1), klog.more s)"
    using blk_read [OF c can_read_free [OF c z n] sw] by auto
  have v: "content d s1 = content d s" "refs d s1 = (\<lambda>_. 0)(n := 1)" "klog.more s1 = klog.more s" using r(4) z by (simp_all add: view_def)
  define s2 where "s2 = s1\<lparr>bufs := (bufs s1)(i := (bufs s1 i)\<lparr>b_data := x\<rparr>)\<rparr>"
  have s2: "cache d p {i} s2" "view d s2 = ((content d s1)(n := x), refs d s1, klog.more s1)" "buf_of d s2 i n"
    using blk_modify [OF r(2,3), of x] v r(3) by (simp_all add: s2_def Let_def)
  then have v2: "content d s2 n = x" "refs d s2 = (\<lambda>_. 0)(n := 1)" "klog.more s2 = klog.more s" using v by (simp_all add: view_def)
  obtain s3 where s3: "bwrite sw i s2 = Inr ((), s3)" "cache d p {i} s3" "buf_of d s3 i n"
    "view d s3 = (content d s2, refs d s2, (disk_now s2)(n := content d s2 n) # klog.more s2)"
    using blk_write [OF s2(1,3) _ n sw] s2(3) by auto
  then have "content d s3 n = disk_now s3 n" by (simp add: view_def)
  then obtain s4 where s4: "brelse i s3 = Inr ((), s4)" "cache d p {} s4"
    "view d s4 = (content d s3, (refs d s3)(n := refs d s3 n - 1), klog.more s3)"
    using blk_release [OF s3(2,3)] by auto
  have "write_block sw d n x s = Inr ((), s4)"
    using r(1) s3(1) s4(1) by (simp add: write_block_def upd_buf_def kmon s2_def)
  moreover have "refs d s4 = (\<lambda>_. 0)" "store d s4 = store_write n x (store d s)"
    using s4(3) s3(4) v2 s2(2) v by (auto simp: view_def store_def store_write_def)
  ultimately show ?thesis using s4(2) by blast
qed

text \<open>C16: The buffer cache with the disk behind it implements a store of blocks: reading a block (bread, brelse)
  gives its current contents and changes nothing; writing one through (bread, new data, bwrite, brelse)
  changes exactly that block, in the cache and on the disk; and both leave the cache in order, so that what
  was written is what is read, whichever buffer it is in.\<close>

theorem cache_implements_store:
  assumes "cache d p {} s" and "refs d s = (\<lambda>_. 0)" and "serves sw p"
  shows "(\<forall>n. unat n < 2 ^ 31 \<longrightarrow> (\<exists>s'. read_block sw d n s = Inr (fst (store d s) n, s') \<and>
      cache d p {} s' \<and> refs d s' = (\<lambda>_. 0) \<and> store d s' = store d s)) \<and>
    (\<forall>n x. unat n < 2 ^ 31 \<longrightarrow> (\<exists>s'. write_block sw d n x s = Inr ((), s') \<and>
      cache d p {} s' \<and> refs d s' = (\<lambda>_. 0) \<and> store d s' = store_write n x (store d s)))"
  using read_block_ok [OF assms(1,2) _ assms(3)] write_block_ok [OF assms(1,2) _ assms(3)] by (simp add: store_def)

theorem cache_implements_store_witness:
  "\<exists>s'. read_block (disk_switch 3) 1 50 demo_kdk = Inr (fst (store 1 demo_kdk) 50, s') \<and> store 1 s' = store 1 demo_kdk"
proof -
  have "serves (disk_switch 3) 3" "unat (50 :: u32) < 2 ^ 31" by (simp_all add: serves_def)
  then show ?thesis using cache_implements_store [OF demo_boot_cache demo_boot_refs] by blast
qed

end
