(* ===== verification/Bio_Hash.thy ===== *)
theory Bio_Hash
  imports Virtio
begin

text \<open>
  kernel/bio.c of lab 3: the buffer cache with one list and one lock for each of 13 buckets. A block
  belongs to the bucket of its number modulo 13. All buffers start in bucket 0; a bucket that
  has no unused buffer steals one from another bucket. The names of lab 3 get the prefix hash_
  where lab 2 has the same function.
\<close>

definition NBUCKETS :: nat where "NBUCKETS = 13"

datatype hnode = Bucket nat | Cell nat

record khash = kdisk +
  hprev :: "hnode \<Rightarrow> hnode"
  hnext :: "hnode \<Rightarrow> hnode"

definition set_hnext :: "hnode \<Rightarrow> hnode \<Rightarrow> 'a khash_scheme \<Rightarrow> 'a khash_scheme" where
  "set_hnext b c s = s\<lparr>hnext := (hnext s)(b := c)\<rparr>"

definition set_hprev :: "hnode \<Rightarrow> hnode \<Rightarrow> 'a khash_scheme \<Rightarrow> 'a khash_scheme" where
  "set_hprev b c s = s\<lparr>hprev := (hprev s)(b := c)\<rparr>"

definition hash_link_front :: "nat \<Rightarrow> hnode \<Rightarrow> 'a khash_scheme \<Rightarrow> 'a khash_scheme" where
  "hash_link_front bucket b s =
     (let s1 = set_hnext b (hnext s (Bucket bucket)) s;
          s2 = set_hprev b (Bucket bucket) s1;
          s3 = set_hprev (hnext s2 (Bucket bucket)) b s2
      in set_hnext (Bucket bucket) b s3)"

definition hash_unlink :: "hnode \<Rightarrow> 'a khash_scheme \<Rightarrow> 'a khash_scheme" where
  "hash_unlink b s =
     (let s1 = set_hprev (hnext s b) (hprev s b) s
      in set_hnext (hprev s1 b) (hnext s1 b) s1)"

definition hash_binit :: "('a khash_scheme, unit) km" where
  "hash_binit =
     kseq (kfor [0..<NBUCKETS] (\<lambda>i. initlock (BucketLock i) ''bcache'')) (
     kseq (kfor [0..<NBUCKETS] (\<lambda>i.
       kseq (kmod (set_hprev (Bucket i) (Bucket i))) (kmod (set_hnext (Bucket i) (Bucket i))))) (
     kfor [0..<NBUF] (\<lambda>i.
       kseq (kmod (\<lambda>s. set_hnext (Cell i) (hnext s (Bucket 0)) s)) (
       kseq (kmod (set_hprev (Cell i) (Bucket 0))) (
       kseq (initsleeplock (BufLock i) ''buffer'') (
       kseq (kmod (\<lambda>s. set_hprev (hnext s (Bucket 0)) (Cell i) s)) (
       kmod (set_hnext (Bucket 0) (Cell i)))))))))"

text \<open>A scan of the list of a bucket that ends at the head of that bucket.\<close>

definition hash_scan ::
  "nat \<Rightarrow> (('a khash_scheme) \<Rightarrow> hnode \<Rightarrow> hnode) \<Rightarrow> (buf \<Rightarrow> bool) \<Rightarrow> ('a khash_scheme, nat option) km" where
  "hash_scan bucket link test =
     kbind (kget (\<lambda>s. link s (Bucket bucket))) (
     kiter (\<lambda>b.
       case b of
         Bucket j \<Rightarrow> if j = bucket then kret (Inr None) else kstop (Undef ''head of another bucket'')
       | Cell i \<Rightarrow> kbind (kget (\<lambda>s. (test (bufs s i), link s b))) (\<lambda>(found, nxt).
           kret (if found then Inr (Some i) else Inl nxt))))"

definition hash_recycle :: "u32 \<Rightarrow> u32 \<Rightarrow> buf \<Rightarrow> buf" where
  "hash_recycle dev blockno q = q\<lparr>b_dev := dev, b_blockno := blockno, b_valid := False, b_refcnt := 1\<rparr>"

definition hash_steal :: "nat \<Rightarrow> u32 \<Rightarrow> u32 \<Rightarrow> nat \<Rightarrow> ('a khash_scheme, nat option) km" where
  "hash_steal bucket dev blockno i =
     (if i \<noteq> bucket then
        kseq (acquire (BucketLock i)) (
        kbind (hash_scan i hprev (\<lambda>q. b_refcnt q = 0)) (\<lambda>r.
        case r of
          Some b \<Rightarrow>
            kseq (upd_buf b (hash_recycle dev blockno)) (
            kseq (kmod (hash_unlink (Cell b))) (
            kseq (kmod (hash_link_front bucket (Cell b))) (
            kseq (release (BucketLock i)) (
            kseq (release (BucketLock bucket)) (
            kret (Some b))))))
        | None \<Rightarrow> kseq (release (BucketLock i)) (kret None)))
      else kret None)"

definition hash_bget :: "('a khash_scheme, unit) km \<Rightarrow> u32 \<Rightarrow> u32 \<Rightarrow> ('a khash_scheme, nat) km" where
  "hash_bget sw dev blockno =
     (let bucket = unat (blockno mod 13) in
      kseq (acquire (BucketLock bucket)) (
      kbind (hash_scan bucket hnext (\<lambda>q. b_dev q = dev \<and> b_blockno q = blockno)) (\<lambda>r.
      case r of
        Some b \<Rightarrow>
          kseq (upd_buf b (\<lambda>q. q\<lparr>b_refcnt := b_refcnt q + 1\<rparr>)) (
          kseq (release (BucketLock bucket)) (
          kseq (acquiresleep sw (BufLock b)) (kret b)))
      | None \<Rightarrow>
          kbind (hash_scan bucket hprev (\<lambda>q. b_refcnt q = 0)) (\<lambda>r.
          case r of
            Some b \<Rightarrow>
              kseq (upd_buf b (hash_recycle dev blockno)) (
              kseq (release (BucketLock bucket)) (
              kseq (acquiresleep sw (BufLock b)) (kret b)))
          | None \<Rightarrow>
              kbind (kfind [0..<NBUCKETS] (hash_steal bucket dev blockno)) (\<lambda>r.
              case r of
                Some b \<Rightarrow> kseq (acquiresleep sw (BufLock b)) (kret b)
              | None \<Rightarrow> kpanic ''bget: no buffers'')))))"

definition hash_bread :: "('a khash_scheme, unit) km \<Rightarrow> u32 \<Rightarrow> u32 \<Rightarrow> ('a khash_scheme, nat) km" where
  "hash_bread sw dev blockno =
     kbind (hash_bget sw dev blockno) (\<lambda>b.
     kbind (get_buf b b_valid) (\<lambda>v.
     kseq (if \<not> v then
         kseq (virtio_disk_rw sw b False) (upd_buf b (\<lambda>q. q\<lparr>b_valid := True\<rparr>))
       else kret ()) (
     kret b)))"

definition hash_bwrite :: "('a khash_scheme, unit) km \<Rightarrow> nat \<Rightarrow> ('a khash_scheme, unit) km" where
  "hash_bwrite sw b =
     kbind (holdingsleep (BufLock b)) (\<lambda>h.
     if \<not> h then kpanic ''bwrite'' else virtio_disk_rw sw b True)"

definition hash_brelse :: "nat \<Rightarrow> ('a khash_scheme, unit) km" where
  "hash_brelse b =
     kbind (get_buf b b_blockno) (\<lambda>blockno.
     let bucket = unat (blockno mod 13) in
     kbind (holdingsleep (BufLock b)) (\<lambda>h.
     if \<not> h then kpanic ''brelse''
     else
       kseq (releasesleep (BufLock b)) (
       kseq (acquire (BucketLock bucket)) (
       kseq (upd_buf b (\<lambda>q. q\<lparr>b_refcnt := b_refcnt q - 1\<rparr>)) (
       kbind (get_buf b b_refcnt) (\<lambda>n.
       kseq (if n = 0 then
           kseq (kmod (hash_unlink (Cell b))) (kmod (hash_link_front bucket (Cell b)))
         else kret ()) (
       release (BucketLock bucket))))))))"

definition hash_bpin :: "nat \<Rightarrow> ('a khash_scheme, unit) km" where
  "hash_bpin b =
     kbind (get_buf b b_blockno) (\<lambda>blockno.
     let bucket = unat (blockno mod 13) in
     kseq (acquire (BucketLock bucket)) (
     kseq (upd_buf b (\<lambda>q. q\<lparr>b_refcnt := b_refcnt q + 1\<rparr>)) (
     release (BucketLock bucket))))"

definition hash_bunpin :: "nat \<Rightarrow> ('a khash_scheme, unit) km" where
  "hash_bunpin b =
     kbind (get_buf b b_blockno) (\<lambda>blockno.
     let bucket = unat (blockno mod 13) in
     kseq (acquire (BucketLock bucket)) (
     kseq (upd_buf b (\<lambda>q. q\<lparr>b_refcnt := b_refcnt q - 1\<rparr>)) (
     release (BucketLock bucket))))"

end
