(* ===== verification/Bio_Hash_Facts.thy ===== *)
theory Bio_Hash_Facts
  imports Bio_Hash Bio_Facts
begin

text \<open>
  The bucketed buffer cache of lab 3. Its lists partition the buffers, and a buffer is always in the
  bucket of its block, so that looking through one bucket is as good as looking through
  the whole cache.
\<close>

section \<open>The lists of the buckets\<close>

interpretation hl: dll Cell "range Bucket"
  by unfold_locales auto

definition buckets :: "'a khash_scheme \<Rightarrow> (nat \<Rightarrow> nat list) \<Rightarrow> bool" where
  "buckets s L \<longleftrightarrow> (\<forall>k < NBUCKETS. ring Cell (Bucket k) (hnext s) (hprev s) (L k)) \<and>
     (\<forall>k < NBUCKETS. \<forall>j < NBUCKETS. k \<noteq> j \<longrightarrow> set (L k) \<inter> set (L j) = {})"

lemma buckets_ring: "buckets s L \<Longrightarrow> k < NBUCKETS \<Longrightarrow> ring Cell (Bucket k) (hnext s) (hprev s) (L k)"
  by (simp add: buckets_def)

lemma buckets_same: "hnext s' = hnext s \<Longrightarrow> hprev s' = hprev s \<Longrightarrow> buckets s' L = buckets s L"
  by (simp add: buckets_def)

lemma hash_link_eq:
  "hnext (hash_link_front k (Cell b) s) = (hnext s)(Cell b := hnext s (Bucket k), Bucket k := Cell b)"
  "hprev (hash_link_front k (Cell b) s) = (hprev s)(Cell b := Bucket k, hnext s (Bucket k) := Cell b)"
  by (simp_all add: hash_link_front_def Let_def set_hnext_def set_hprev_def)

lemma hash_unlink_eq:
  assumes "hnext s (Cell b) \<noteq> Cell b"
  shows "hnext (hash_unlink (Cell b) s) = (hnext s)(hprev s (Cell b) := hnext s (Cell b))"
    and "hprev (hash_unlink (Cell b) s) = (hprev s)(hnext s (Cell b) := hprev s (Cell b))"
  using assms by (simp_all add: hash_unlink_def Let_def set_hnext_def set_hprev_def)

text \<open>A node of one ring is not a node of another.\<close>

lemma node_other:
  assumes "buckets s L" and "k < NBUCKETS" and "j < NBUCKETS" and "k \<noteq> j" and "n = Bucket j \<or> n \<in> Cell ` set (L j)"
  shows "n \<noteq> Bucket k \<and> n \<notin> Cell ` set (L k)"
  using assms by (auto simp: buckets_def disjoint_iff)

lemma hash_unlink_buckets:
  assumes b: "buckets s L" and i: "i \<in> set (L j)" and j: "j < NBUCKETS"
  shows "buckets (hash_unlink (Cell i) s) (L(j := remove1 i (L j)))"
proof -
  note r = buckets_ring [OF b j]
  note u = hl.unlink_ring [OF r i rangeI]
  note e = hash_unlink_eq [OF u(2)]
  have "ring Cell (Bucket k) (hnext (hash_unlink (Cell i) s)) (hprev (hash_unlink (Cell i) s)) ((L(j := remove1 i (L j))) k)"
    if k: "k < NBUCKETS" for k
  proof (cases "k = j")
    case True
    then show ?thesis using u(1) by (simp add: e)
  next
    case False
    then have "hprev s (Cell i) \<noteq> Bucket k \<and> hprev s (Cell i) \<notin> Cell ` set (L k)" "hnext s (Cell i) \<noteq> Bucket k \<and> hnext s (Cell i) \<notin> Cell ` set (L k)"
      using node_other [OF b k j] u(3,4) by blast+
    then have "ring Cell (Bucket k) ((hnext s)(hprev s (Cell i) := hnext s (Cell i))) ((hprev s)(hnext s (Cell i) := hprev s (Cell i))) (L k)"
      using buckets_ring [OF b k] by (simp add: ring_upd)
    then show ?thesis using False by (simp add: e)
  qed
  moreover have "set ((L(j := remove1 i (L j))) a) \<inter> set ((L(j := remove1 i (L j))) c) = {}"
    if "a < NBUCKETS" "c < NBUCKETS" "a \<noteq> c" for a c
  proof -
    have "set ((L(j := remove1 i (L j))) m) \<subseteq> set (L m)" for m by (simp add: fun_upd_apply set_remove1_subset)
    moreover have "set (L a) \<inter> set (L c) = {}" using b that by (simp add: buckets_def)
    ultimately show ?thesis by blast
  qed
  ultimately show ?thesis by (simp add: buckets_def)
qed

lemma hash_link_buckets:
  assumes b: "buckets s L" and i: "\<forall>j < NBUCKETS. i \<notin> set (L j)" and k: "k < NBUCKETS"
  shows "buckets (hash_link_front k (Cell i) s) (L(k := i # L k))"
proof -
  note r = buckets_ring [OF b k]
  have "ring Cell (Bucket j) (hnext (hash_link_front k (Cell i) s)) (hprev (hash_link_front k (Cell i) s)) ((L(k := i # L k)) j)"
    if j: "j < NBUCKETS" for j
  proof (cases "j = k")
    case True
    then show ?thesis using hl.link_ring [OF r _ rangeI] i k by (simp add: hash_link_eq)
  next
    case False
    have "hnext s (Bucket k) = Bucket k \<or> hnext s (Bucket k) \<in> Cell ` set (L k)"
      using ring_hd [OF r] by (cases "L k") auto
    then have "hnext s (Bucket k) \<noteq> Bucket j \<and> hnext s (Bucket k) \<notin> Cell ` set (L j)" using node_other [OF b j k False] by blast
    then have "ring Cell (Bucket j) ((hnext s)(Cell i := hnext s (Bucket k), Bucket k := Cell i))
        ((hprev s)(Cell i := Bucket k, hnext s (Bucket k) := Cell i)) (L j)"
      using False i j buckets_ring [OF b j] by (simp add: ring_upd hl.node_image hl.head_image)
    then show ?thesis using False by (simp add: hash_link_eq)
  qed
  moreover have "set ((L(k := i # L k)) a) \<inter> set ((L(k := i # L k)) c) = {}"
    if "a < NBUCKETS" "c < NBUCKETS" "a \<noteq> c" for a c
  proof -
    have "set (L a) \<inter> set (L c) = {}" using b that by (simp add: buckets_def)
    then show ?thesis using i that by (simp add: fun_upd_apply) blast
  qed
  ultimately show ?thesis by (simp add: buckets_def)
qed

section \<open>Scanning a bucket\<close>

lemma hash_iter:
  assumes "chain Cell (link s) a bs (Bucket k)"
  shows "kiter (\<lambda>b. case b of
         Bucket j \<Rightarrow> if j = k then kret (Inr None) else kstop (Undef ''head of another bucket'')
       | Cell i \<Rightarrow> kbind (kget (\<lambda>s. (test (bufs s i), link s b))) (\<lambda>(found, nxt).
           kret (if found then Inr (Some i) else Inl nxt))) (link s a) s = Inr (find (\<lambda>b. test (bufs s b)) bs, s)"
  using assms
proof (induction bs arbitrary: a)
  case Nil
  then show ?case by (subst kiter_unfold) (simp add: kret_def)
next
  case (Cons b bs)
  have "link s a = Cell b" using Cons.prems by simp
  note IH = Cons.IH [of "Cell b"]
  show ?case using Cons.prems IH by (subst kiter_unfold) (simp add: kmon)
qed

lemma hash_scan_next:
  "buckets s L \<Longrightarrow> k < NBUCKETS \<Longrightarrow> hash_scan k hnext test s = Inr (find (\<lambda>b. test (bufs s b)) (L k), s)"
  using hash_iter [of hnext s "Bucket k" "L k" k test] by (simp add: hash_scan_def kmon buckets_def ring_def)

lemma hash_scan_prev:
  "buckets s L \<Longrightarrow> k < NBUCKETS \<Longrightarrow> hash_scan k hprev test s = Inr (find (\<lambda>b. test (bufs s b)) (rev (L k)), s)"
  using hash_iter [of hprev s "Bucket k" "rev (L k)" k test] by (simp add: hash_scan_def kmon buckets_def ring_def)

section \<open>The invariant\<close>

text \<open>
  Every buffer is in exactly one bucket, that of the number of its block, whether the buffer is in
  use or not; and a block has at most one buffer. L gives the list of each bucket.
\<close>

definition bucket_of :: "u32 \<Rightarrow> nat" where
  "bucket_of n = unat (n mod 13)"

definition hash_ok :: "nat \<Rightarrow> 'a khash_scheme \<Rightarrow> (nat \<Rightarrow> nat list) \<Rightarrow> bool" where
  "hash_ok p s L \<longleftrightarrow> idle p s \<and> buckets s L \<and> (\<Union>k < NBUCKETS. set (L k)) = {..<NBUF} \<and>
     (\<forall>k < NBUCKETS. \<forall>i \<in> set (L k). bucket_of (b_blockno (bufs s i)) = k) \<and> unique_bufs (bufs s)"

lemma bucket_of_less [simp]: "bucket_of n < NBUCKETS"
  by (simp add: bucket_of_def NBUCKETS_def unat_mod)

lemma hash_in_bucket:
  assumes "hash_ok p s L" and "i < NBUF" and "k < NBUCKETS"
  shows "i \<in> set (L k) \<longleftrightarrow> k = bucket_of (b_blockno (bufs s i))"
proof -
  obtain j where j: "j < NBUCKETS" "i \<in> set (L j)" using assms unfolding hash_ok_def by blast
  then have "bucket_of (b_blockno (bufs s i)) = j" using assms(1) by (auto simp: hash_ok_def)
  moreover have "bucket_of (b_blockno (bufs s i)) = k" if "i \<in> set (L k)" using assms(1,3) that by (simp add: hash_ok_def)
  ultimately show ?thesis using j by blast
qed

lemma hash_members: "hash_ok p s L \<Longrightarrow> k < NBUCKETS \<Longrightarrow> i \<in> set (L k) \<Longrightarrow> i < NBUF"
  unfolding hash_ok_def by blast

text \<open>Looking through the bucket of a block is looking through the whole cache.\<close>

lemma hash_find:
  assumes h: "hash_ok p s L" and d: "d \<noteq> 0"
  shows "find (\<lambda>i. b_dev (bufs s i) = d \<and> b_blockno (bufs s i) = n) (L (bucket_of n)) = holder d n (bufs s)"
proof (cases "holder d n (bufs s)")
  case None
  then have "find (\<lambda>i. b_dev (bufs s i) = d \<and> b_blockno (bufs s i) = n) (L (bucket_of n)) = None"
    using hash_members [OF h bucket_of_less] by (auto simp: find_None holder_None)
  then show ?thesis using None by simp
next
  case (Some i)
  then have i: "i < NBUF" "b_dev (bufs s i) = d" "b_blockno (bufs s i) = n" using holderD by blast+
  have "find (\<lambda>i. b_dev (bufs s i) = d \<and> b_blockno (bufs s i) = n) (L (bucket_of n)) = Some i"
  proof (rule find_unique)
    show "i \<in> set (L (bucket_of n))" using hash_in_bucket [OF h i(1)] i by simp
    show "b_dev (bufs s i) = d \<and> b_blockno (bufs s i) = n" using i by simp
    show "j = i" if "j \<in> set (L (bucket_of n))" "b_dev (bufs s j) = d \<and> b_blockno (bufs s j) = n" for j
      using h d i that hash_members [OF h bucket_of_less that(1)] by (auto simp: hash_ok_def unique_bufs_def)
  qed
  then show ?thesis using Some by simp
qed

section \<open>Frames\<close>

lemma hash_lockit [simp]:
  "hnext (lockit l s) = hnext s" "hprev (lockit l s) = hprev s"
  "buckets (lockit l s) L = buckets s L" "buckets (s\<lparr>bufs := f\<rparr>) L = buckets s L" "buckets (sl_taken lk p s) L = buckets s L"
  "hash_link_front k b (lockit l s) = lockit l (hash_link_front k b s)" "hash_unlink b (lockit l s) = lockit l (hash_unlink b s)"
  "bufs (hash_link_front k b s) = bufs s" "bufs (hash_unlink b s) = bufs s"
  "slocks (hash_link_front k b s) = slocks s" "slocks (hash_unlink b s) = slocks s"
  "idle p (hash_link_front k b s) = idle p s" "idle p (hash_unlink b s) = idle p s"
  by (simp_all add: lockit_def buckets_def sl_taken_def hash_link_front_def hash_unlink_def set_hnext_def set_hprev_def
      Let_def idle_def settled_def lk_free_def)

section \<open>Finding a buffer\<close>

abbreviation unused :: "'a khash_scheme \<Rightarrow> nat \<Rightarrow> bool" where
  "unused s i \<equiv> b_refcnt (bufs s i) = 0"

definition recycled :: "u32 \<Rightarrow> u32 \<Rightarrow> nat \<Rightarrow> 'a kdisk_scheme \<Rightarrow> 'a kdisk_scheme" where
  "recycled d n i s = s\<lparr>bufs := (bufs s)(i := hash_recycle d n (bufs s i))\<rparr>"

definition stolen :: "nat \<Rightarrow> u32 \<Rightarrow> u32 \<Rightarrow> nat \<Rightarrow> 'a khash_scheme \<Rightarrow> 'a khash_scheme" where
  "stolen k d n i s = hash_link_front k (Cell i) (hash_unlink (Cell i) (recycled d n i s))"

lemma hash_steal_eq:
  assumes h: "hash_ok p s L" and j: "j < NBUCKETS" and k: "k < NBUCKETS"
  shows "hash_steal k d n j (lockit (BucketLock k) s) =
    (if j = k then Inr (None, lockit (BucketLock k) s)
     else case find (unused s) (rev (L j)) of
       None \<Rightarrow> Inr (None, lockit (BucketLock k) s) | Some i \<Rightarrow> Inr (Some i, stolen k d n i s))"
proof (cases "j = k")
  case False
  let ?s = "lockit (BucketLock j) (lockit (BucketLock k) s)"
  have b: "buckets s L" "idle p s" using h by (simp_all add: hash_ok_def)
  have sc: "hash_scan j hprev (\<lambda>q. b_refcnt q = 0) ?s = Inr (find (unused s) (rev (L j)), ?s)"
    using hash_scan_prev [of ?s L j] b j by simp
  have f: "settled s" "lk_free (BucketLock k) s" "lk_free (BucketLock j) s" using idleD b by blast+
  have "idle p (stolen k d n i s)" for i using b by (simp add: stolen_def recycled_def)
  then have g: "settled (stolen k d n i s)" "lk_free (BucketLock k) (stolen k d n i s)" "lk_free (BucketLock j) (stolen k d n i s)" for i
    using idleD by blast+
  show ?thesis
  proof (cases "find (unused s) (rev (L j))")
    case None
    then show ?thesis using False f sc by (simp add: hash_steal_def kmon)
  next
    case (Some i)
    then show ?thesis using False f g [of i] sc
      by (simp add: hash_steal_def kmon upd_buf_def stolen_def recycled_def)
  qed
qed (simp add: hash_steal_def kmon)

lemma hash_steal_all:
  assumes h: "hash_ok p s L" and k: "k < NBUCKETS" and "set js \<subseteq> {..<NBUCKETS}"
  shows "kfind js (hash_steal k d n) (lockit (BucketLock k) s) =
    (case find (\<lambda>j. j \<noteq> k \<and> find (unused s) (rev (L j)) \<noteq> None) js of
       None \<Rightarrow> Inr (None, lockit (BucketLock k) s)
     | Some j \<Rightarrow> Inr (Some (the (find (unused s) (rev (L j)))), stolen k d n (the (find (unused s) (rev (L j)))) s))"
  using assms(3)
proof (induction js)
  case (Cons j js)
  then have "j < NBUCKETS" by simp
  note st = hash_steal_eq [OF h this k, of d n]
  show ?case
  proof (cases "j \<noteq> k \<and> find (unused s) (rev (L j)) \<noteq> None")
    case True
    then obtain i where "find (unused s) (rev (L j)) = Some i" by blast
    then show ?thesis using True st by (simp add: kmon)
  next
    case False
    then have "hash_steal k d n j (lockit (BucketLock k) s) = Inr (None, lockit (BucketLock k) s)" using st by auto
    then show ?thesis using False Cons by (subst kfind_Cons_None) auto
  qed
qed (simp add: kmon)

text \<open>The lists after a buffer has moved from bucket j to the front of bucket k.\<close>

definition moved_to :: "nat \<Rightarrow> nat \<Rightarrow> nat \<Rightarrow> (nat \<Rightarrow> nat list) \<Rightarrow> nat \<Rightarrow> nat list" where
  "moved_to k j i L = (if j = k then L else (L(j := remove1 i (L j)))(k := i # L k))"

lemma moved_to_set:
  assumes "buckets s L" and "k < NBUCKETS" and "j < NBUCKETS" and "i \<in> set (L j)" and "m < NBUCKETS"
  shows "set (moved_to k j i L m) = (if m = k then insert i (set (L k)) else set (L m) - {i})"
proof -
  have "distinct (L j)" using assms(1,3) by (simp add: buckets_def ring_def)
  moreover have "i \<notin> set (L m)" if "m \<noteq> j" using assms that by (auto simp: buckets_def)
  ultimately show ?thesis using assms(4) by (auto simp: moved_to_def set_remove1_eq)
qed

lemma stolen_buckets:
  assumes b: "buckets s L" and k: "k < NBUCKETS" and j: "j < NBUCKETS" "j \<noteq> k" and i: "i \<in> set (L j)"
  shows "buckets (stolen k d n i s) (moved_to k j i L)"
proof -
  let ?L = "L(j := remove1 i (L j))"
  have "buckets (hash_unlink (Cell i) (recycled d n i s)) ?L"
    using b i j by (intro hash_unlink_buckets) (simp_all add: recycled_def)
  moreover have "i \<notin> set (?L m)" if "m < NBUCKETS" for m
  proof (cases "m = j")
    case True
    then show ?thesis using b j by (simp add: buckets_def ring_def)
  next
    case False
    then show ?thesis using b i j that by (auto simp: buckets_def)
  qed
  ultimately have "buckets (stolen k d n i s) (?L(k := i # ?L k))" unfolding stolen_def using k by (intro hash_link_buckets) simp_all
  then show ?thesis using j by (simp add: moved_to_def)
qed

lemma hash_ok_recycle:
  assumes h: "hash_ok p s L" and j: "j < NBUCKETS" and i: "i \<in> set (L j)" and no: "holder d n (bufs s) = None"
    and s': "idle p s'" "buckets s' (moved_to (bucket_of n) j i L)" "bufs s' = (bufs s)(i := hash_recycle d n (bufs s i))"
  shows "hash_ok p s' (moved_to (bucket_of n) j i L)"
proof -
  have b: "buckets s L" using h by (simp add: hash_ok_def)
  note m = moved_to_set [OF b bucket_of_less j i]
  have "i < NBUF" using hash_members [OF h j i] .
  then have "(\<Union>k < NBUCKETS. set (moved_to (bucket_of n) j i L k)) = {..<NBUF}"
    using h m bucket_of_less [of n] unfolding hash_ok_def by (auto split: if_splits)
  moreover have "bucket_of (b_blockno (bufs s' q)) = k" if "k < NBUCKETS" "q \<in> set (moved_to (bucket_of n) j i L k)" for k q
    using h m [OF that(1)] that by (auto simp: s'(3) hash_recycle_def hash_ok_def split: if_splits)
  moreover have "unique_bufs (bufs s')"
    unfolding s'(3) using h no by (intro unique_set [of _ _ d n]) (simp_all add: hash_ok_def hash_recycle_def)
  ultimately show ?thesis using s' by (simp add: hash_ok_def)
qed

lemma hash_bget_hit:
  assumes h: "hash_ok p s L" and d: "d \<noteq> 0" and i: "holder d n (bufs s) = Some i" and u: "\<not> sl_locked (slocks s (BufLock i))"
  shows "hash_bget sw d n s = Inr (i, sl_taken (BufLock i) p (s\<lparr>bufs := (bufs s)(i := (bufs s i)\<lparr>b_refcnt := b_refcnt (bufs s i) + 1\<rparr>)\<rparr>))"
proof -
  let ?k = "bucket_of n" let ?l = "lockit (BucketLock (bucket_of n)) s"
  let ?u = "s\<lparr>bufs := (bufs s)(i := (bufs s i)\<lparr>b_refcnt := b_refcnt (bufs s i) + 1\<rparr>)\<rparr>"
  have b: "buckets s L" "idle p s" "idle p ?u" using h by (simp_all add: hash_ok_def)
  have sc: "hash_scan ?k hnext (\<lambda>q. b_dev q = d \<and> b_blockno q = n) ?l = Inr (Some i, ?l)"
    using hash_scan_next [of ?l L ?k] b hash_find [OF h d, of n] i by simp
  have a: "acquiresleep sw (BufLock i) ?u = Inr ((), sl_taken (BufLock i) p ?u)"
    using b(3) u by (intro acquiresleep_free) simp_all
  have "settled s" "lk_free (BucketLock ?k) s" "settled ?u" "lk_free (BucketLock ?k) ?u" using idleD b by blast+
  then show ?thesis unfolding hash_bget_def bucket_of_def [symmetric] Let_def by (simp add: kmon sc a upd_buf_def)
qed

text \<open>
  Which buffer a block that is not cached gets: the least recently used one of its own
  bucket that is unused, or else that of the first other bucket that has one.
\<close>

definition victim :: "'a khash_scheme \<Rightarrow> (nat \<Rightarrow> nat list) \<Rightarrow> nat \<Rightarrow> (nat \<times> nat) option" where
  "victim s L k = (case find (\<lambda>j. find (unused s) (rev (L j)) \<noteq> None) (k # [0..<NBUCKETS]) of
       None \<Rightarrow> None | Some j \<Rightarrow> Some (j, the (find (unused s) (rev (L j)))))"

lemma find_skip: "find P (k # xs) = (if P k then Some k else find (\<lambda>j. j \<noteq> k \<and> P j) xs)"
proof (cases "P k")
  case False
  then have "(\<lambda>j. j \<noteq> k \<and> P j) = P" by auto
  then show ?thesis using False by simp
qed simp

lemma hash_bget_miss:
  assumes h: "hash_ok p s L" and d: "d \<noteq> 0" and no: "holder d n (bufs s) = None"
    and u: "\<forall>i < NBUF. unused s i \<longrightarrow> \<not> sl_locked (slocks s (BufLock i))"
  shows "victim s L (bucket_of n) = None \<Longrightarrow> hash_bget sw d n s = Inl (Panic ''bget: no buffers'')"
    and "victim s L (bucket_of n) = Some (j, i) \<Longrightarrow>
      hash_bget sw d n s = Inr (i, sl_taken (BufLock i) p (if j = bucket_of n then recycled d n i s else stolen (bucket_of n) d n i s))"
proof -
  let ?k = "bucket_of n" let ?l = "lockit (BucketLock (bucket_of n)) s"
  have b: "buckets s L" "idle p s" using h by (simp_all add: hash_ok_def)
  have sc: "hash_scan ?k hnext (\<lambda>q. b_dev q = d \<and> b_blockno q = n) ?l = Inr (None, ?l)"
    using hash_scan_next [of ?l L ?k] b hash_find [OF h d, of n] no by simp
  have sp: "hash_scan ?k hprev (\<lambda>q. b_refcnt q = 0) ?l = Inr (find (unused s) (rev (L ?k)), ?l)"
    using hash_scan_prev [of ?l L ?k] b by simp
  note sa = hash_steal_all [OF h bucket_of_less, of "[0..<NBUCKETS]" n d n]
  have f: "settled s" "lk_free (BucketLock ?k) s" using idleD b by blast+
  note fs = find_skip [of "\<lambda>j. find (unused s) (rev (L j)) \<noteq> None" ?k "[0..<NBUCKETS]"]
  show "hash_bget sw d n s = Inl (Panic ''bget: no buffers'')" if "victim s L ?k = None"
  proof -
    have "find (unused s) (rev (L ?k)) = None" "find (\<lambda>j. j \<noteq> ?k \<and> find (unused s) (rev (L j)) \<noteq> None) [0..<NBUCKETS] = None"
      using that unfolding victim_def fs by (auto split: if_splits option.splits)
    then show ?thesis unfolding hash_bget_def bucket_of_def [symmetric] Let_def using f sa by (simp add: kmon sc sp atLeast0LessThan)
  qed
  have ac: "acquiresleep sw (BufLock i) t = Inr ((), sl_taken (BufLock i) p t)"
    if "idle p t" "slocks t = slocks s" "i < NBUF" "unused s i" for i t
    using that u by (intro acquiresleep_free) simp_all
  have r: "idle p (recycled d n i s)" "idle p (stolen ?k d n i s)" using b by (simp_all add: recycled_def stolen_def)
  then have g: "settled (recycled d n i s)" "lk_free (BucketLock ?k) (recycled d n i s)" using idleD by blast+
  show "hash_bget sw d n s = Inr (i, sl_taken (BufLock i) p (if j = ?k then recycled d n i s else stolen ?k d n i s))"
    if v: "victim s L ?k = Some (j, i)"
  proof (cases "find (unused s) (rev (L ?k))")
    case (Some i')
    then have ji: "j = ?k" "i = i'" using v unfolding victim_def fs by simp_all
    then have "i < NBUF" "unused s i" using find_Some [OF Some] hash_members [OF h bucket_of_less] by auto
    then have "acquiresleep sw (BufLock i) (recycled d n i s) = Inr ((), sl_taken (BufLock i) p (recycled d n i s))"
      using r by (intro ac) (simp_all add: recycled_def)
    then show ?thesis unfolding hash_bget_def bucket_of_def [symmetric] Let_def
      using f g ji Some by (simp add: kmon sc sp upd_buf_def recycled_def)
  next
    case None
    then obtain fj: "find (\<lambda>j. j \<noteq> ?k \<and> find (unused s) (rev (L j)) \<noteq> None) [0..<NBUCKETS] = Some j"
        and i: "i = the (find (unused s) (rev (L j)))"
      using v unfolding victim_def fs by (auto split: option.splits)
    have "j \<in> set [0..<NBUCKETS] \<and> j \<noteq> ?k \<and> find (unused s) (rev (L j)) \<noteq> None" using find_Some [OF fj] .
    then have j: "j < NBUCKETS" "j \<noteq> ?k" "find (unused s) (rev (L j)) = Some i" using i by auto
    then have "i < NBUF" "unused s i" using find_Some [OF j(3)] hash_members [OF h j(1)] by auto
    then have "acquiresleep sw (BufLock i) (stolen ?k d n i s) = Inr ((), sl_taken (BufLock i) p (stolen ?k d n i s))"
      using r by (intro ac) (simp_all add: recycled_def stolen_def)
    then show ?thesis unfolding hash_bget_def bucket_of_def [symmetric] Let_def
      using f None j fj sa by (simp add: kmon sc sp atLeast0LessThan)
  qed
qed

section \<open>Releasing a buffer\<close>

definition hash_released :: "nat \<Rightarrow> 'a khash_scheme \<Rightarrow> 'a khash_scheme" where
  "hash_released i s =
     (let t = (sl_given (BufLock i) s)\<lparr>bufs := (bufs s)(i := (bufs s i)\<lparr>b_refcnt := b_refcnt (bufs s i) - 1\<rparr>)\<rparr>
      in if b_refcnt (bufs s i) - 1 = 0 then hash_link_front (bucket_of (b_blockno (bufs s i))) (Cell i) (hash_unlink (Cell i) t) else t)"

lemma hash_brelse_eq:
  assumes "idle p s" and "sl_mine (BufLock i) p s"
  shows "hash_brelse i s = Inr ((), hash_released i s)"
proof -
  let ?k = "bucket_of (b_blockno (bufs s i))"
  let ?g = "sl_given (BufLock i) s"
  let ?t = "?g\<lparr>bufs := (bufs s)(i := (bufs s i)\<lparr>b_refcnt := b_refcnt (bufs s i) - 1\<rparr>)\<rparr>"
  let ?r = "hash_link_front ?k (Cell i) (hash_unlink (Cell i) ?t)"
  have g: "idle p ?g" "bufs ?g = bufs s" using assms(1) by (simp_all add: sl_given_def)
  then have t: "idle p ?t" "idle p ?r" by simp_all
  have f: "settled ?g" "lk_free (BucketLock ?k) ?g" "settled ?t" "lk_free (BucketLock ?k) ?t" "settled ?r" "lk_free (BucketLock ?k) ?r"
    using idleD g t by blast+
  note h = holdingsleep_eq [OF assms(1), of "BufLock i"] releasesleep_eq [OF assms(1), of "BufLock i"]
  show ?thesis
  proof (cases "b_refcnt (bufs s i) - 1 = 0")
    case True
    then have "hash_released i s = ?r" by (simp add: hash_released_def)
    then show ?thesis unfolding hash_brelse_def bucket_of_def [symmetric] Let_def
      using f True g(2) assms(2) h by (simp add: kmon upd_buf_def get_buf_def)
  next
    case False
    then have "hash_released i s = ?t" by (simp add: hash_released_def)
    then show ?thesis unfolding hash_brelse_def bucket_of_def [symmetric] Let_def
      using f False g(2) assms(2) h by (simp add: kmon upd_buf_def get_buf_def)
  qed
qed

lemma hash_given [simp]: "hnext (sl_given lk s) = hnext s" "hprev (sl_given lk s) = hprev s" "buckets (sl_given lk s) L = buckets s L"
  by (simp_all add: sl_given_def buckets_def)

lemma hash_released_ok:
  assumes h: "hash_ok p s L" and i: "i < NBUF"
  defines "k \<equiv> bucket_of (b_blockno (bufs s i))"
  shows "hash_ok p (hash_released i s) (if b_refcnt (bufs s i) = 1 then L(k := i # remove1 i (L k)) else L)"
proof -
  let ?q = "(bufs s)(i := (bufs s i)\<lparr>b_refcnt := b_refcnt (bufs s i) - 1\<rparr>)"
  let ?t = "(sl_given (BufLock i) s)\<lparr>bufs := ?q\<rparr>"
  let ?L = "L(k := remove1 i (L k))"
  have k: "k < NBUCKETS" and ik: "i \<in> set (L k)" using hash_in_bucket [OF h i] by (simp_all add: k_def)
  have b: "buckets s L" "idle p s" "unique_bufs ?q" using h by (simp_all add: hash_ok_def unique_refcnt)
  have d: "i \<notin> set (remove1 i (L k))" using b k by (simp add: buckets_def ring_def)
  have w: "(\<Union>k < NBUCKETS. set (L k)) = {..<NBUF} \<and> (\<forall>k < NBUCKETS. \<forall>j \<in> set (L k). bucket_of (b_blockno (?q j)) = k)"
    using h by (simp add: hash_ok_def)
  show ?thesis
  proof (cases "b_refcnt (bufs s i) = 1")
    case True
    have "buckets (hash_unlink (Cell i) ?t) ?L" using b ik k by (intro hash_unlink_buckets) simp_all
    moreover have "i \<notin> set (?L j)" if "j < NBUCKETS" for j using that d k ik b(1) by (auto simp: buckets_def)
    ultimately have "buckets (hash_link_front k (Cell i) (hash_unlink (Cell i) ?t)) (?L(k := i # ?L k))"
      using k by (intro hash_link_buckets) simp_all
    then have "buckets (hash_released i s) (L(k := i # remove1 i (L k)))" using True by (simp add: hash_released_def k_def)
    moreover have "set ((L(k := i # remove1 i (L k))) j) = set (L j)" for j
      using ik d b(1) k by (auto simp: buckets_def ring_def set_remove1_eq)
    moreover have "idle p (hash_released i s)" "bufs (hash_released i s) = ?q" using b(2) by (simp_all add: hash_released_def Let_def)
    ultimately have "hash_ok p (hash_released i s) (L(k := i # remove1 i (L k)))" using w b(3) by (simp only: hash_ok_def simp_thms) blast
    then show ?thesis using True by simp
  next
    case False
    then have "hash_released i s = ?t" by (simp add: hash_released_def)
    then show ?thesis using False w b by (simp add: hash_ok_def)
  qed
qed

section \<open>Initialisation\<close>

lemma kfor_upt:
  assumes "\<And>i s. i < n \<Longrightarrow> P i s \<Longrightarrow> \<exists>s'. body i s = Inr ((), s') \<and> P (Suc i) s'" and "P 0 s"
  shows "\<exists>s'. kfor [0..<n] body s = Inr ((), s') \<and> P n s'"
  using assms
proof (induction n)
  case (Suc n)
  then obtain s1 where s1: "kfor [0..<n] body s = Inr ((), s1)" "P n s1" by (metis less_SucI)
  then obtain s2 where "body n s1 = Inr ((), s2)" "P (Suc n) s2" using Suc.prems(1) by blast
  then show ?case using s1 by (simp add: kfor_append kmon)
qed (simp add: kmon)

lemma idle_initlock: "idle p s \<Longrightarrow> idle p (s\<lparr>locks := (locks s)(l := \<lparr>locked = False, lname = nm, lcpu = None\<rparr>)\<rparr>)"
  by (auto simp: idle_def settled_def lk_free_def)

lemma ring_empty: "ring node h nx pv [] \<longleftrightarrow> nx h = h \<and> pv h = h"
  by (simp add: ring_def)

text \<open>What binit assumes of the memory of the buffers: C initialises it with zeros.\<close>

definition fresh_bufs :: "nat \<Rightarrow> 'a khash_scheme \<Rightarrow> bool" where
  "fresh_bufs p s \<longleftrightarrow> idle p s \<and> (\<forall>i < NBUF. b_dev (bufs s i) = 0 \<and> b_blockno (bufs s i) = 0)"

lemma hash_binit_ok:
  assumes "fresh_bufs p s"
  shows "\<exists>s'. hash_binit s = Inr ((), s') \<and> hash_ok p s' (\<lambda>k. if k = 0 then rev [0..<NBUF] else []) \<and> bufs s' = bufs s \<and>
    (\<forall>i < NBUF. \<not> sl_locked (slocks s' (BufLock i)))"
proof -
  let ?keep = "\<lambda>t. idle p t \<and> bufs t = bufs s"
  have s: "?keep s" using assms by (simp add: fresh_bufs_def)
  have "\<exists>s1. kfor [0..<NBUCKETS] (\<lambda>i. initlock (BucketLock i) ''bcache'') s = Inr ((), s1) \<and> ?keep s1"
    by (rule kfor_inv [where P = ?keep]) (use s idle_initlock in \<open>auto simp: initlock_def kmon\<close>)
  then obtain s1 where s1: "kfor [0..<NBUCKETS] (\<lambda>i. initlock (BucketLock i) ''bcache'') s = Inr ((), s1)" "?keep s1" by blast
  let ?P = "\<lambda>n t. ?keep t \<and> (\<forall>k < n. hnext t (Bucket k) = Bucket k \<and> hprev t (Bucket k) = Bucket k)"
  have "\<exists>s2. kfor [0..<NBUCKETS] (\<lambda>i. kseq (kmod (set_hprev (Bucket i) (Bucket i))) (kmod (set_hnext (Bucket i) (Bucket i)))) s1 =
      Inr ((), s2) \<and> ?P NBUCKETS s2"
  proof (rule kfor_upt [where P = ?P])
    show "\<exists>s'. kseq (kmod (set_hprev (Bucket i) (Bucket i))) (kmod (set_hnext (Bucket i) (Bucket i))) t = Inr ((), s') \<and> ?P (Suc i) s'"
      if "?P i t" for i t
      using that by (auto simp: kmon set_hprev_def set_hnext_def less_Suc_eq idle_def settled_def lk_free_def)
  qed (use s1 in simp)
  then obtain s2 where s2: "kfor [0..<NBUCKETS] (\<lambda>i. kseq (kmod (set_hprev (Bucket i) (Bucket i))) (kmod (set_hnext (Bucket i) (Bucket i)))) s1 =
      Inr ((), s2)" "?P NBUCKETS s2" by blast
  let ?L = "\<lambda>n (k :: nat). if k = 0 then rev [0..<n] else []"
  let ?Q = "\<lambda>n t. ?keep t \<and> buckets t (?L n) \<and> (\<forall>i < n. \<not> sl_locked (slocks t (BufLock i)))"
  have "\<exists>s3. kfor [0..<NBUF] (\<lambda>i.
       kseq (kmod (\<lambda>s. set_hnext (Cell i) (hnext s (Bucket 0)) s)) (
       kseq (kmod (set_hprev (Cell i) (Bucket 0))) (
       kseq (initsleeplock (BufLock i) ''buffer'') (
       kseq (kmod (\<lambda>s. set_hprev (hnext s (Bucket 0)) (Cell i) s)) (
       kmod (set_hnext (Bucket 0) (Cell i))))))) s2 = Inr ((), s3) \<and> ?Q NBUF s3"
  proof (rule kfor_upt [where P = ?Q])
    fix i t assume "i < NBUF" and t: "?Q i t"
    let ?u = "t\<lparr>locks := (locks t)(InnerLock (BufLock i) := \<lparr>locked = False, lname = ''sleep lock'', lcpu = None\<rparr>),
      slocks := (slocks t)(BufLock i := \<lparr>sl_locked = False, sl_name = ''buffer'', sl_pid = 0\<rparr>)\<rparr>"
    let ?v = "hash_link_front 0 (Cell i) ?u"
    have bu: "buckets ?u (?L i)" using t by (simp add: buckets_def)
    have di: "\<forall>j < NBUCKETS. i \<notin> set (?L i j)" and z: "0 < NBUCKETS" by (simp_all add: NBUCKETS_def)
    have "buckets ?v ((?L i)(0 := i # ?L i 0))" by (rule hash_link_buckets [OF bu di z])
    moreover have "(?L i)(0 := i # ?L i 0) = ?L (Suc i)" by auto
    moreover have "idle p ?v" using t idle_initlock [of p t] by simp
    ultimately show "\<exists>s'. kseq (kmod (\<lambda>s. set_hnext (Cell i) (hnext s (Bucket 0)) s)) (
       kseq (kmod (set_hprev (Cell i) (Bucket 0))) (
       kseq (initsleeplock (BufLock i) ''buffer'') (
       kseq (kmod (\<lambda>s. set_hprev (hnext s (Bucket 0)) (Cell i) s)) (
       kmod (set_hnext (Bucket 0) (Cell i)))))) t = Inr ((), s') \<and> ?Q (Suc i) s'"
      using t by (intro exI [of _ ?v])
        (simp add: kmon initsleeplock_def initlock_def upd_slock_def hash_link_front_def set_hnext_def set_hprev_def Let_def less_Suc_eq)
  next
    show "?Q 0 s2" using s2 by (simp add: buckets_def ring_empty)
  qed
  then obtain s3 where s3: "kseq (kfor [0..<NBUCKETS] (\<lambda>i. kseq (kmod (set_hprev (Bucket i) (Bucket i))) (kmod (set_hnext (Bucket i) (Bucket i))))) (
     kfor [0..<NBUF] (\<lambda>i.
       kseq (kmod (\<lambda>s. set_hnext (Cell i) (hnext s (Bucket 0)) s)) (
       kseq (kmod (set_hprev (Cell i) (Bucket 0))) (
       kseq (initsleeplock (BufLock i) ''buffer'') (
       kseq (kmod (\<lambda>s. set_hprev (hnext s (Bucket 0)) (Cell i) s)) (
       kmod (set_hnext (Bucket 0) (Cell i)))))))) s1 = Inr ((), s3)" "?Q NBUF s3" using s2(1) by (auto simp: kseq_Inr)
  have "(\<Union>k < NBUCKETS. set (?L NBUF k)) = {..<NBUF}" by (auto simp: NBUCKETS_def)
  moreover have "unique_bufs (bufs s)" "\<forall>i \<in> set (?L NBUF k). bucket_of (b_blockno (bufs s i)) = k" for k
    using assms by (auto simp: fresh_bufs_def unique_bufs_def bucket_of_def)
  ultimately have "hash_ok p s3 (?L NBUF)" using s3(2) by (simp add: hash_ok_def)
  then show ?thesis using s1(1) s3 by (intro exI [of _ s3]) (simp add: hash_binit_def kseq_Inr)
qed

section \<open>Every operation keeps the invariant\<close>

lemma sl_taken_mine: "sl_mine (BufLock i) p (sl_taken (BufLock i) p s)"
  by (simp add: sl_mine_def sl_taken_def)

lemma taken_bufs [simp]: "bufs (sl_taken lk q (s :: 'a khash_scheme)) = bufs s"
  by (simp add: sl_taken_def)

lemma hash_ok_taken [simp]: "hash_ok p (sl_taken lk q s) L = hash_ok p s L"
  by (simp add: hash_ok_def)

lemma hash_ok_refcnt:
  "hash_ok p (s\<lparr>bufs := (bufs s)(i := (bufs s i)\<lparr>b_refcnt := r\<rparr>)\<rparr>) L = hash_ok p s L"
proof -
  have "b_blockno (((bufs s)(i := (bufs s i)\<lparr>b_refcnt := r\<rparr>)) j) = b_blockno (bufs s j)" for j by simp
  then show ?thesis unfolding hash_ok_def by (simp add: unique_refcnt del: fun_upd_apply)
qed

lemma victim_Some:
  assumes "hash_ok p s L" and "victim s L k = Some (j, i)" and "k < NBUCKETS"
  shows "j < NBUCKETS" and "find (unused s) (rev (L j)) = Some i" and "i \<in> set (L j)" and "i < NBUF" and "unused s i"
proof -
  obtain fj: "find (\<lambda>j. find (unused s) (rev (L j)) \<noteq> None) (k # [0..<NBUCKETS]) = Some j"
      and i: "i = the (find (unused s) (rev (L j)))"
    using assms(2) unfolding victim_def by (auto split: option.splits)
  have "j \<in> set (k # [0..<NBUCKETS]) \<and> find (unused s) (rev (L j)) \<noteq> None" using find_Some [OF fj] .
  then show j: "j < NBUCKETS" and f: "find (unused s) (rev (L j)) = Some i" using assms(3) i by auto
  then show m: "i \<in> set (L j)" "unused s i" using find_Some [OF f] by auto
  show "i < NBUF" using hash_members [OF assms(1) j m(1)] .
qed

lemma victim_None:
  assumes "hash_ok p s L" and "k < NBUCKETS"
  shows "victim s L k = None \<longleftrightarrow> (\<forall>i < NBUF. \<not> unused s i)"
proof
  assume "victim s L k = None"
  then have "find (\<lambda>j. find (unused s) (rev (L j)) \<noteq> None) (k # [0..<NBUCKETS]) = None"
    unfolding victim_def by (cases "find (\<lambda>j. find (unused s) (rev (L j)) \<noteq> None) (k # [0..<NBUCKETS])") (simp_all only: option.case option.distinct)
  then have "\<forall>j \<in> set (k # [0..<NBUCKETS]). find (unused s) (rev (L j)) = None" unfolding find_None by blast
  then have "\<forall>j < NBUCKETS. \<forall>i \<in> set (L j). \<not> unused s i" by (simp add: find_None)
  moreover have "\<exists>j < NBUCKETS. i \<in> set (L j)" if "i < NBUF" for i
    using hash_in_bucket [OF assms(1) that] bucket_of_less by blast
  ultimately show "\<forall>i < NBUF. \<not> unused s i" by blast
next
  assume "\<forall>i < NBUF. \<not> unused s i"
  then show "victim s L k = None" using victim_Some(4,5) [OF assms(1) _ assms(2)] by (cases "victim s L k") auto
qed

lemma hash_miss_ok:
  assumes h: "hash_ok p s L" and no: "holder d n (bufs s) = None" and v: "victim s L (bucket_of n) = Some (j, i)"
  defines "s' \<equiv> if j = bucket_of n then recycled d n i s else stolen (bucket_of n) d n i s"
  shows "hash_ok p s' (moved_to (bucket_of n) j i L)" and "bufs s' = (bufs s)(i := hash_recycle d n (bufs s i))"
proof -
  note vs = victim_Some [OF h v bucket_of_less]
  have b: "buckets s L" "idle p s" using h by (simp_all add: hash_ok_def)
  show q: "bufs s' = (bufs s)(i := hash_recycle d n (bufs s i))" by (simp add: s'_def recycled_def stolen_def)
  have "buckets s' (moved_to (bucket_of n) j i L)"
    using b vs stolen_buckets [OF b(1) bucket_of_less vs(1) _ vs(3)] by (simp add: s'_def recycled_def moved_to_def)
  moreover have "idle p s'" using b by (simp add: s'_def recycled_def stolen_def)
  ultimately show "hash_ok p s' (moved_to (bucket_of n) j i L)" using hash_ok_recycle [OF h vs(1,3) no] q by blast
qed

definition can_get :: "u32 \<Rightarrow> u32 \<Rightarrow> 'a khash_scheme \<Rightarrow> bool" where
  "can_get d n s \<longleftrightarrow> d \<noteq> 0 \<and> (\<forall>i < NBUF. unused s i \<or> holder d n (bufs s) = Some i \<longrightarrow> \<not> sl_locked (slocks s (BufLock i)))"

lemma hash_bget_cases:
  assumes "hash_ok p s L" and "can_get d n s"
  shows "case holder d n (bufs s) of
      Some i \<Rightarrow> \<exists>s'. hash_bget sw d n s = Inr (i, s') \<and> sl_mine (BufLock i) p s' \<and> hash_ok p s' L \<and>
        bufs s' = (bufs s)(i := (bufs s i)\<lparr>b_refcnt := b_refcnt (bufs s i) + 1\<rparr>)
    | None \<Rightarrow> if \<forall>i < NBUF. \<not> unused s i then hash_bget sw d n s = Inl (Panic ''bget: no buffers'')
        else \<exists>i j s'. hash_bget sw d n s = Inr (i, s') \<and> sl_mine (BufLock i) p s' \<and> victim s L (bucket_of n) = Some (j, i) \<and>
          unused s i \<and> i \<in> set (L j) \<and> hash_ok p s' (moved_to (bucket_of n) j i L) \<and>
          bufs s' = (bufs s)(i := hash_recycle d n (bufs s i))"
proof (cases "holder d n (bufs s)")
  case (Some i)
  then have "\<not> sl_locked (slocks s (BufLock i))" "d \<noteq> 0" using assms(2) holderD by (auto simp: can_get_def)
  then show ?thesis
    using hash_bget_hit [OF assms(1) _ Some] Some assms(1) by (simp add: sl_taken_mine hash_ok_refcnt)
next
  case None
  have d: "d \<noteq> 0" and u: "\<forall>i < NBUF. unused s i \<longrightarrow> \<not> sl_locked (slocks s (BufLock i))" using assms(2) by (simp_all add: can_get_def)
  note miss = hash_bget_miss [OF assms(1) d None u]
  show ?thesis
  proof (cases "\<forall>i < NBUF. \<not> unused s i")
    case True
    then show ?thesis using victim_None [OF assms(1) bucket_of_less] miss(1) None by simp
  next
    case False
    then obtain j i where v: "victim s L (bucket_of n) = Some (j, i)" using victim_None [OF assms(1) bucket_of_less] by fastforce
    note m = hash_miss_ok [OF assms(1) None v] victim_Some [OF assms(1) v bucket_of_less]
    define t where "t = (if j = bucket_of n then recycled d n i s else stolen (bucket_of n) d n i s)"
    have "hash_bget sw d n s = Inr (i, sl_taken (BufLock i) p t)" using miss(2) [OF v] by (simp add: t_def)
    then show ?thesis unfolding None option.case if_not_P [OF False]
      using m(1,2,5,7) [folded t_def] v by (intro exI [of _ i] exI [of _ j] exI [of _ "sl_taken (BufLock i) p t"]) (simp add: sl_taken_mine)
  qed
qed

text \<open>C18: The bucketed cache finds a block exactly when some buffer of the whole cache holds it, and then gives that
  buffer, locked and with one more reference. Otherwise it recycles an unused buffer: the least
  recently used one of the bucket of the block, or of the first other bucket that has one, which then moves to
  the front of the bucket of the block. It panics only when every buffer is in use. The
  invariant of the cache holds afterwards.\<close>

theorem hash_bget_correct:
  assumes "hash_ok p s L" and "can_get d n s"
  shows "case holder d n (bufs s) of
      Some i \<Rightarrow> \<exists>s'. hash_bget sw d n s = Inr (i, s') \<and> sl_mine (BufLock i) p s' \<and> hash_ok p s' L \<and>
        bufs s' = (bufs s)(i := (bufs s i)\<lparr>b_refcnt := b_refcnt (bufs s i) + 1\<rparr>)
    | None \<Rightarrow> if \<forall>i < NBUF. \<not> unused s i then hash_bget sw d n s = Inl (Panic ''bget: no buffers'')
        else \<exists>i j s'. hash_bget sw d n s = Inr (i, s') \<and> sl_mine (BufLock i) p s' \<and> victim s L (bucket_of n) = Some (j, i) \<and>
          unused s i \<and> i \<in> set (L j) \<and> hash_ok p s' (moved_to (bucket_of n) j i L) \<and>
          bufs s' = (bufs s)(i := hash_recycle d n (bufs s i))"
  by (rule hash_bget_cases [OF assms])

text \<open>
  What a process may do with the cache: get a block whose buffer it does not hold, change the data of
  a buffer, pin and unpin, and release.
\<close>

inductive hash_step :: "'a khash_scheme \<Rightarrow> 'a khash_scheme \<Rightarrow> bool" where
  get: "can_get d n s \<Longrightarrow> hash_bget sw d n s = Inr (i, s') \<Longrightarrow> hash_step s s'"
| relse: "i < NBUF \<Longrightarrow> hash_brelse i s = Inr ((), s') \<Longrightarrow> hash_step s s'"
| pin: "i < NBUF \<Longrightarrow> hash_bpin i s = Inr ((), s') \<Longrightarrow> hash_step s s'"
| unpin: "i < NBUF \<Longrightarrow> hash_bunpin i s = Inr ((), s') \<Longrightarrow> hash_step s s'"
| data: "hash_step s (s\<lparr>bufs := (bufs s)(i := (bufs s i)\<lparr>b_data := x, b_valid := v\<rparr>)\<rparr>)"

lemma hash_pin_eq:
  assumes "idle p s"
  shows "hash_bpin i s = Inr ((), s\<lparr>bufs := (bufs s)(i := (bufs s i)\<lparr>b_refcnt := b_refcnt (bufs s i) + 1\<rparr>)\<rparr>)"
    and "hash_bunpin i s = Inr ((), s\<lparr>bufs := (bufs s)(i := (bufs s i)\<lparr>b_refcnt := b_refcnt (bufs s i) - 1\<rparr>)\<rparr>)"
proof -
  have "settled (s\<lparr>bufs := f\<rparr>)" "lk_free (BucketLock k) (s\<lparr>bufs := f\<rparr>)" "settled s" "lk_free (BucketLock k) s" for f k
    using idleD [of p "s\<lparr>bufs := f\<rparr>"] idleD [OF assms] assms by simp_all
  then show "hash_bpin i s = Inr ((), s\<lparr>bufs := (bufs s)(i := (bufs s i)\<lparr>b_refcnt := b_refcnt (bufs s i) + 1\<rparr>)\<rparr>)"
    "hash_bunpin i s = Inr ((), s\<lparr>bufs := (bufs s)(i := (bufs s i)\<lparr>b_refcnt := b_refcnt (bufs s i) - 1\<rparr>)\<rparr>)"
    by (simp_all add: hash_bpin_def hash_bunpin_def kmon upd_buf_def get_buf_def Let_def)
qed

lemma hash_ok_data:
  "hash_ok p s L \<Longrightarrow> hash_ok p (s\<lparr>bufs := (bufs s)(i := (bufs s i)\<lparr>b_data := x, b_valid := v\<rparr>)\<rparr>) L"
  by (simp add: hash_ok_def unique_bufs_def)

lemma hash_step_ok:
  assumes "hash_step s s'" and "hash_ok p s L"
  shows "\<exists>L'. hash_ok p s' L'"
  using assms(1)
proof cases
  case (get d n sw i)
  have "\<exists>L'. hash_ok p s' L'"
  proof (cases "holder d n (bufs s)")
    case (Some j)
    then show ?thesis using hash_bget_cases [OF assms(2) get(1), of sw] get(2) by auto
  next
    case None
    then show ?thesis using hash_bget_cases [OF assms(2) get(1), of sw] get(2) by (auto split: if_splits)
  qed
  then show ?thesis .
next
  case (relse i)
  have p: "idle p s" using assms(2) by (simp add: hash_ok_def)
  have "sl_mine (BufLock i) p s"
    using relse(2) holdingsleep_eq [OF p, of "BufLock i"] by (auto simp: hash_brelse_def kmon get_buf_def Let_def split: if_splits)
  then have "s' = hash_released i s" using hash_brelse_eq [OF p] relse(2) by simp
  then show ?thesis using hash_released_ok [OF assms(2) relse(1)] by blast
next
  case (pin i)
  then have "s' = s\<lparr>bufs := (bufs s)(i := (bufs s i)\<lparr>b_refcnt := b_refcnt (bufs s i) + 1\<rparr>)\<rparr>"
    using hash_pin_eq(1) [of p s i] assms(2) by (simp add: hash_ok_def)
  then show ?thesis using assms(2) hash_ok_refcnt by blast
next
  case (unpin i)
  then have "s' = s\<lparr>bufs := (bufs s)(i := (bufs s i)\<lparr>b_refcnt := b_refcnt (bufs s i) - 1\<rparr>)\<rparr>"
    using hash_pin_eq(2) [of p s i] assms(2) by (simp add: hash_ok_def)
  then show ?thesis using assms(2) hash_ok_refcnt by blast
next
  case (data i x v)
  then show ?thesis using hash_ok_data [OF assms(2)] by blast
qed

lemma hash_steps_ok: "hash_step\<^sup>*\<^sup>* s s' \<Longrightarrow> hash_ok p s L \<Longrightarrow> \<exists>L'. hash_ok p s' L'"
  by (induction rule: rtranclp_induct) (auto dest: hash_step_ok)

text \<open>C19: The lists of the bucketed cache stay consistent: after binit and any sequence of getting, changing,
  pinning, unpinning and releasing buffers, the rings of the 13 buckets partition the buffers, each
  buffer is in the bucket of its block, and no block of the disk has two buffers.\<close>

theorem hash_cache_invariant:
  assumes "fresh_bufs p s0" and "hash_binit s0 = Inr ((), s1)" and "hash_step\<^sup>*\<^sup>* s1 s"
  shows "\<exists>L. buckets s L \<and> (\<forall>i < NBUF. \<forall>k < NBUCKETS. i \<in> set (L k) \<longleftrightarrow> k = unat (b_blockno (bufs s i) mod 13)) \<and>
    (\<forall>i < NBUF. \<forall>j < NBUF. b_dev (bufs s i) \<noteq> 0 \<and> b_dev (bufs s i) = b_dev (bufs s j) \<and>
       b_blockno (bufs s i) = b_blockno (bufs s j) \<longrightarrow> i = j)"
proof -
  obtain L where L: "hash_ok p s L"
    using hash_binit_ok [OF assms(1)] assms(2) hash_steps_ok [OF assms(3), of p] by auto
  have "i \<in> set (L k) \<longleftrightarrow> k = unat (b_blockno (bufs s i) mod 13)" if "i < NBUF" "k < NBUCKETS" for i k
    using hash_in_bucket [OF L that] by (simp add: bucket_of_def)
  moreover have "i = j" if "i < NBUF" "j < NBUF" "b_dev (bufs s i) \<noteq> 0" "b_dev (bufs s i) = b_dev (bufs s j)"
    "b_blockno (bufs s i) = b_blockno (bufs s j)" for i j
    using L that by (auto simp: hash_ok_def unique_bufs_def)
  ultimately show ?thesis using L by (intro exI [of _ L]) (auto simp: hash_ok_def)
qed

section \<open>A concrete cache\<close>

definition demo_khash :: khash where
  "demo_khash = demo_kdisk (khash_ext (\<lambda>_. Bucket 0) (\<lambda>_. Bucket 0) ())"

lemma demo_fresh: "fresh_bufs 3 demo_khash"
proof -
  have "settled demo_khash" "lk_free l demo_khash" "noff (cur_cpu demo_khash) = 0" "cpu_proc (cur_cpu demo_khash) = Some 3"
    "bufs demo_khash = (\<lambda>_. demo_buf)" for l
    by (simp_all add: demo_khash_def demo_kdisk_def demo_kproc_def settled_def lk_free_def)
  then show ?thesis by (simp add: fresh_bufs_def idle_def NPROC_64 demo_buf_def)
qed

lemma demo_can_get: "bufs s = bufs demo_khash \<Longrightarrow> (\<forall>i < NBUF. \<not> sl_locked (slocks s (BufLock i))) \<Longrightarrow> can_get 1 50 s"
  by (simp add: can_get_def)

lemma demo_miss: "holder 1 50 (bufs demo_khash) = None" "\<exists>i < NBUF. unused demo_khash i"
  by (auto simp: holder_None demo_khash_def demo_kdisk_def demo_kproc_def demo_buf_def NBUF_def MAXOPBLOCKS_def intro: exI [of _ 0])

theorem hash_bget_correct_witness:
  "\<exists>i s'. kseq hash_binit (hash_bget (kret ()) 1 50) demo_khash = Inr (i, s') \<and> b_dev (bufs s' i) = 1 \<and> b_blockno (bufs s' i) = 50"
proof -
  obtain s L where s: "hash_binit demo_khash = Inr ((), s)" "hash_ok 3 s L" "bufs s = bufs demo_khash"
    "\<forall>i < NBUF. \<not> sl_locked (slocks s (BufLock i))" using hash_binit_ok [OF demo_fresh] by blast
  have "\<exists>i s'. hash_bget (kret ()) 1 50 s = Inr (i, s') \<and> bufs s' = (bufs s)(i := hash_recycle 1 50 (bufs s i))"
    using hash_bget_correct [OF s(2) demo_can_get [OF s(3,4)], of "kret ()"] demo_miss by (auto simp: s(3) split: if_splits)
  then show ?thesis using s(1) by (auto simp: kseq_Inr hash_recycle_def)
qed

theorem hash_cache_invariant_witness:
  "\<exists>s i s' L. hash_binit demo_khash = Inr ((), s) \<and> hash_bget (kret ()) 1 50 s = Inr (i, s') \<and> buckets s' L"
proof -
  obtain s L where s: "hash_binit demo_khash = Inr ((), s)" "hash_ok 3 s L" "bufs s = bufs demo_khash"
    "\<forall>i < NBUF. \<not> sl_locked (slocks s (BufLock i))" using hash_binit_ok [OF demo_fresh] by blast
  note cg = demo_can_get [OF s(3,4)]
  obtain i s' where g: "hash_bget (kret ()) 1 50 s = Inr (i, s')"
    using hash_bget_cases [OF s(2) cg, of "kret ()"] demo_miss by (auto simp: s(3) split: if_splits)
  have "hash_step\<^sup>*\<^sup>* s s'" using hash_step.get [OF cg g] by simp
  then show ?thesis using hash_cache_invariant [OF demo_fresh s(1)] s(1) g by blast
qed

end
