(* ===== verification/Kpt.thy ===== *)
theory Kpt
  imports Vm
begin

text \<open>
  kernel/vm.c of lab 4: a kernel page table for every process. The functions that lab 4 adds to
  those of theory Vm: building such a table, freeing its pages without the memory that it maps,
  sharing the user pages of a process with it, and switching to it.
\<close>

definition Pvmmap :: "u64 \<Rightarrow> u64 \<Rightarrow> u64 \<Rightarrow> u64 \<Rightarrow> u64 \<Rightarrow> ('a kheap_scheme, unit) km" where
  "Pvmmap va pa sz perm pgtbl =
     kbind (mappages pgtbl va sz pa perm) (\<lambda>r. if r \<noteq> 0 then kpanic ''Pvmmap'' else kret ())"

text \<open>The result of kalloc is not checked: when no page is free, the page at address 0 is cleared.\<close>

definition Pvminit :: "('a kheap_scheme, u64) km" where
  "Pvminit =
     kbind kalloc (\<lambda>pgtbl.
     kseq (fill pgtbl 0) (
     kseq (Pvmmap UART0 UART0 PGSIZE (PTE_R OR PTE_W) pgtbl) (
     kseq (Pvmmap VIRTIO0 VIRTIO0 PGSIZE (PTE_R OR PTE_W) pgtbl) (
     kseq (Pvmmap PLIC PLIC 0x400000 (PTE_R OR PTE_W) pgtbl) (
     kbind (kget k_etext) (\<lambda>etext.
     kseq (Pvmmap KERNBASE KERNBASE (etext - KERNBASE) (PTE_R OR PTE_X) pgtbl) (
     kseq (Pvmmap etext etext (PHYSTOP - etext) (PTE_R OR PTE_W) pgtbl) (
     kbind (kget k_trampoline) (\<lambda>trampoline.
     kseq (Pvmmap TRAMPOLINE trampoline PGSIZE (PTE_R OR PTE_X) pgtbl) (
     kret pgtbl))))))))))"

definition Pvminithart :: "u64 \<Rightarrow> ('a kvm_scheme, unit) km" where
  "Pvminithart pgtbl = kmod (\<lambda>s. s\<lparr>satp := (satp s)(tp s := MAKE_SATP pgtbl)\<rparr>)"

text \<open>As for freewalk, the first argument bounds the depth of the recursion.\<close>

fun Pfreewalk :: "nat \<Rightarrow> u64 \<Rightarrow> ('a kheap_scheme, unit) km"
  and Pfreewalk_loop :: "nat \<Rightarrow> u64 \<Rightarrow> nat list \<Rightarrow> ('a kheap_scheme, unit) km" where
  "Pfreewalk 0 pagetable s = Inl Diverge"
| "Pfreewalk (Suc d) pagetable s = kseq (Pfreewalk_loop d pagetable [0..<512]) (kfree pagetable) s"
| "Pfreewalk_loop d pagetable [] s = Inr ((), s)"
| "Pfreewalk_loop d pagetable (i # is) s =
     (let pte = load64 (mem s) (pte_addr pagetable (of_nat i)) in
      if valid pte \<and> pte AND (PTE_R OR PTE_W OR PTE_X) = 0 then
        (case Pfreewalk d (PTE2PA pte) s of Inl e \<Rightarrow> Inl e
         | Inr (_, s1) \<Rightarrow> (case poke (pte_addr pagetable (of_nat i)) 0 s1 of Inl e \<Rightarrow> Inl e
           | Inr (_, s2) \<Rightarrow> Pfreewalk_loop d pagetable is s2))
      else if valid pte then
        (case poke (pte_addr pagetable (of_nat i)) 0 s of Inl e \<Rightarrow> Inl e
         | Inr (_, s1) \<Rightarrow> Pfreewalk_loop d pagetable is s1)
      else Pfreewalk_loop d pagetable is s)"

function Puvmcopy_loop :: "u64 \<Rightarrow> u64 \<Rightarrow> u64 \<Rightarrow> u64 \<Rightarrow> ('a kheap_scheme, int) km" where
  "Puvmcopy_loop old new i sz s =
     (if i < sz then
        (case walk old i False s of Inl e \<Rightarrow> Inl e
         | Inr (pte, s1) \<Rightarrow>
             if pte = 0 then Inl (Panic ''uvmcopy: pte should exist'')
             else let e = load64 (mem s1) pte in
               if \<not> valid e then Inl (Panic ''uvmcopy: page not present'')
               else (case mappages new i PGSIZE (PTE2PA e) (PTE_FLAGS e AND NOT PTE_U) s1 of Inl e \<Rightarrow> Inl e
                 | Inr (r, s2) \<Rightarrow>
                     if r \<noteq> 0 then kseq (uvmunmap new 0 (i div PGSIZE) True) (kret (- 1)) s2
                     else Puvmcopy_loop old new (i + PGSIZE) sz s2))
      else Inr (0, s))"
  by pat_completeness auto
termination
  by (relation "measure (\<lambda>(_, _, i, _). unat MAXVA - unat i)") (auto dest: walk_step)

declare Puvmcopy_loop.simps [simp del]

definition Puvmcopy :: "u64 \<Rightarrow> u64 \<Rightarrow> u64 \<Rightarrow> ('a kheap_scheme, int) km" where
  "Puvmcopy old new sz = Puvmcopy_loop old new 0 sz"

text \<open>Whether the hart runs on a page table other than the global one of the kernel.\<close>

definition test_pagetable :: "('a kvm_scheme, bool) km" where
  "test_pagetable = kget (\<lambda>s. satp s (tp s) \<noteq> MAKE_SATP (kernel_pagetable s))"

end
