(* ===== verification/Kpt_Facts.thy ===== *)
theory Kpt_Facts
  imports Kpt Vm_Demo
begin

text \<open>
  The kernel page tables of lab 4: freeing one gives back exactly the pages of the table, and none of the
  memory that it maps.
\<close>

section \<open>Tables as trees\<close>

abbreviation child :: "memory \<Rightarrow> u64 \<Rightarrow> nat \<Rightarrow> u64" where
  "child m p j \<equiv> PTE2PA (pte_at m p j)"

abbreviation inner :: "u64 \<Rightarrow> bool" where
  "inner e \<equiv> e AND (PTE_R OR PTE_W OR PTE_X) = 0"

text \<open>The slots of a page that are in use, and the pages of the table below a page, d levels deep.\<close>

definition used :: "memory \<Rightarrow> u64 \<Rightarrow> nat set" where
  "used m p = {j. j < 512 \<and> valid (pte_at m p j)}"

fun pages :: "nat \<Rightarrow> memory \<Rightarrow> u64 \<Rightarrow> u64 set" where
  "pages 0 m p = {p}"
| "pages (Suc d) m p = insert p (\<Union>j \<in> used m p. pages d m (child m p j))"

text \<open>
  A table of d levels below p: only the entries of the last level are leaves, and no page occurs twice.
  P says which pages the allocator manages.
\<close>

fun table :: "(u64 \<Rightarrow> bool) \<Rightarrow> nat \<Rightarrow> memory \<Rightarrow> u64 \<Rightarrow> bool" where
  "table P 0 m p \<longleftrightarrow> P p \<and> (\<forall>j \<in> used m p. \<not> inner (pte_at m p j))"
| "table P (Suc d) m p \<longleftrightarrow> P p \<and>
     (\<forall>j \<in> used m p. inner (pte_at m p j) \<and> table P d m (child m p j) \<and> p \<notin> pages d m (child m p j)) \<and>
     (\<forall>i \<in> used m p. \<forall>j \<in> used m p. i \<noteq> j \<longrightarrow> pages d m (child m p i) \<inter> pages d m (child m p j) = {})"

lemma pages_self: "p \<in> pages d m p"
  by (cases d) simp_all

lemma table_self: "table P d m p \<Longrightarrow> P p"
  by (cases d) simp_all

lemma used_same: "pg_aligned p \<Longrightarrow> same_on {p} m' m \<Longrightarrow> j < 512 \<Longrightarrow> pte_at m' p j = pte_at m p j"
  by (rule pte_at_cong) (auto simp: same_on_def)

lemma table_same:
  assumes "table P d m p" and "\<And>q. P q \<Longrightarrow> pg_aligned q" and "same_on (pages d m p) m' m"
  shows "pages d m' p = pages d m p" and "table P d m' p"
proof -
  have "pages d m' p = pages d m p \<and> table P d m' p" using assms(1,3)
  proof (induction d arbitrary: p)
    case 0
    then have "pte_at m' p j = pte_at m p j" if "j < 512" for j using assms(2) that by (auto intro: used_same)
    then show ?case using 0 by (auto simp: used_def)
  next
    case (Suc d)
    have "pg_aligned p" using Suc.prems(1) assms(2) by simp
    moreover have "same_on {p} m' m" using Suc.prems(2) by (rule same_on_mono) simp
    ultimately have e: "pte_at m' p j = pte_at m p j" if "j < 512" for j using that by (intro used_same)
    then have u: "used m' p = used m p" by (auto simp: used_def)
    have c: "child m' p j = child m p j" "pte_at m' p j = pte_at m p j" if "j \<in> used m p" for j using that e by (auto simp: used_def)
    have IH: "pages d m' (child m p j) = pages d m (child m p j) \<and> table P d m' (child m p j)" if "j \<in> used m p" for j
    proof (rule Suc.IH)
      show "table P d m (child m p j)" using Suc.prems(1) that by simp
      show "same_on (pages d m (child m p j)) m' m" using Suc.prems(2) by (rule same_on_mono) (use that in auto)
    qed
    have "pages (Suc d) m' p = pages (Suc d) m p" using IH c by (simp add: u)
    moreover have "table P (Suc d) m' p" using Suc.prems(1) IH c by (simp add: u)
    ultimately show ?case ..
  qed
  then show "pages d m' p = pages d m p" and "table P d m' p" by simp_all
qed

section \<open>Freeing\<close>

text \<open>What freeing the pages in A does: they are on the free list afterwards, and no other page has changed.\<close>

definition gave_back :: "'a kheap_scheme \<Rightarrow> u64 list \<Rightarrow> u64 set \<Rightarrow> u64 set \<Rightarrow> 'a kheap_scheme \<Rightarrow> bool" where
  "gave_back s xs A B s' \<longleftrightarrow> (\<exists>ys. kmem_inv s' ys \<and> set ys = set xs \<union> A) \<and> same_on (- B) (mem s') (mem s) \<and>
     s' = s\<lparr>freelist := freelist s', mem := mem s'\<rparr>"

lemma kfree_gave_back:
  assumes "kmem_inv s xs" and "kpage s p" and "p \<notin> set xs"
  shows "\<exists>s'. kfree p s = Inr ((), s') \<and> gave_back s xs {p} {p} s'"
proof -
  let ?m = "store64 (memset (mem s) p 1 4096) p (freelist s)"
  have p: "pg_aligned p" using assms(2) by (rule kpage_aligned)
  have "same_on (- {p}) (memset (mem s) p 1 4096) (mem s)" using p by (rule same_on_memset) simp
  moreover have "same_on (- {p}) ?m (memset (mem s) p 1 4096)"
    using same_on_store [of p "- {p}" 0 "memset (mem s) p 1 4096" "freelist s"] p by (simp add: pte_addr_def)
  ultimately have "same_on (- {p}) ?m (mem s)" using same_on_trans by blast
  then show ?thesis using kfree_eq [OF assms(1,2)] kfree_inv [OF assms] by (auto simp: gave_back_def)
qed

lemma poke_eq: "poke a v s = Inr ((), s\<lparr>mem := store64 (mem s) a v\<rparr>)"
  by (simp add: poke_def kmod_def)

lemma kpage_frame: "s' = s\<lparr>freelist := f, mem := m\<rparr> \<Longrightarrow> kpage s' q = kpage (s :: 'a kheap_scheme) q"
  by (simp add: kpage_def)

text \<open>The last level: the entries are cleared.\<close>

lemma Pfreewalk_leaves:
  assumes "kmem_inv s xs" and "pg_aligned p" and "p \<notin> set xs" and "set is \<subseteq> {..<512}"
    and "\<forall>j \<in> set is. valid (pte_at (mem s) p j) \<longrightarrow> \<not> inner (pte_at (mem s) p j)" and "distinct is"
  shows "\<exists>s'. Pfreewalk_loop d p is s = Inr ((), s') \<and> gave_back s xs {} {p} s'"
  using assms
proof (induction "is" arbitrary: s)
  case Nil
  then show ?case by (auto simp: gave_back_def)
next
  case (Cons i "is")
  let ?e = "pte_at (mem s) p i"
  show ?case
  proof (cases "valid ?e")
    case False
    then have "Pfreewalk_loop d p (i # is) s = Pfreewalk_loop d p is s" by (simp add: pte_at_def)
    then show ?thesis using Cons by simp
  next
    case True
    define t where "t = s\<lparr>mem := store64 (mem s) (pte_addr p (of_nat i)) 0\<rparr>"
    have i: "i < 512" and ni: "\<not> inner ?e" using Cons.prems True by auto
    have step: "Pfreewalk_loop d p (i # is) s = Pfreewalk_loop d p is t"
      using True ni by (simp add: pte_at_def poke_eq t_def Let_def)
    have sm: "same_on (- {p}) (mem t) (mem s)" using same_on_store [of p "- {p}" i] Cons.prems(2) i by (simp add: t_def)
    have inv: "kmem_inv t xs" unfolding t_def
      using Cons.prems(1,3) sm by (intro kmem_inv_same) (auto simp: t_def elim: same_on_mono)
    have "\<exists>s'. Pfreewalk_loop d p is t = Inr ((), s') \<and> gave_back t xs {} {p} s'"
    proof (rule Cons.IH [OF inv])
      have "pte_at (mem t) p j = pte_at (mem s) p j" if "j \<in> set is" for j
      proof -
        have "j < 512" "j \<noteq> i" using Cons.prems(4,6) that by auto
        then show ?thesis using pte_at_store [of p p i j "mem s" 0] Cons.prems(2) i by (simp add: t_def)
      qed
      then show "\<forall>j \<in> set is. valid (pte_at (mem t) p j) \<longrightarrow> \<not> inner (pte_at (mem t) p j)"
        using Cons.prems(5) by simp
    qed (use Cons.prems in auto)
    then obtain s' where s': "Pfreewalk_loop d p is t = Inr ((), s')" "gave_back t xs {} {p} s'" by blast
    have "gave_back s xs {} {p} s'"
      using s'(2) same_on_trans [OF _ sm] unfolding gave_back_def t_def by auto
    then show ?thesis using s'(1) step by auto
  qed
qed

text \<open>An inner level: the tables below are freed one after the other.\<close>

definition pending :: "nat \<Rightarrow> 'a kheap_scheme \<Rightarrow> u64 list \<Rightarrow> u64 \<Rightarrow> nat list \<Rightarrow> bool" where
  "pending d s xs p is \<longleftrightarrow> kmem_inv s xs \<and> pg_aligned p \<and> p \<notin> set xs \<and> set is \<subseteq> {..<512} \<and> distinct is \<and>
     (\<forall>j \<in> set is. valid (pte_at (mem s) p j) \<longrightarrow> inner (pte_at (mem s) p j) \<and> table (kpage s) d (mem s) (child (mem s) p j) \<and>
        p \<notin> pages d (mem s) (child (mem s) p j) \<and> pages d (mem s) (child (mem s) p j) \<inter> set xs = {}) \<and>
     (\<forall>i \<in> set is. \<forall>j \<in> set is. valid (pte_at (mem s) p i) \<and> valid (pte_at (mem s) p j) \<and> i \<noteq> j \<longrightarrow>
        pages d (mem s) (child (mem s) p i) \<inter> pages d (mem s) (child (mem s) p j) = {})"

abbreviation below :: "nat \<Rightarrow> memory \<Rightarrow> u64 \<Rightarrow> nat list \<Rightarrow> u64 set" where
  "below d m p is \<equiv> \<Union>j \<in> {j \<in> set is. valid (pte_at m p j)}. pages d m (child m p j)"

text \<open>Memory that is the same on p, except for slots already done, and on the tables that remain, leaves the rest of the work as it was.\<close>

lemma pending_same:
  assumes pe: "pending d s xs p (i # is)" and inv: "kmem_inv t ys" and k: "\<And>q. kpage t q = kpage s q" and py: "p \<notin> set ys"
    and ys: "set ys = set xs \<union> (if valid (pte_at (mem s) p i) then pages d (mem s) (child (mem s) p i) else {})"
    and ent: "\<And>j. j \<in> set is \<Longrightarrow> pte_at (mem t) p j = pte_at (mem s) p j"
    and sm: "same_on (below d (mem s) p is) (mem t) (mem s)"
  shows "pending d t ys p is" and "below d (mem t) p is = below d (mem s) p is"
proof -
  have tb: "table (kpage s) d (mem s) (child (mem s) p j)" if "j \<in> set is" "valid (pte_at (mem s) p j)" for j
    using pe that by (simp add: pending_def)
  have ts: "pages d (mem t) (child (mem s) p j) = pages d (mem s) (child (mem s) p j) \<and> table (kpage s) d (mem t) (child (mem s) p j)"
    if j: "j \<in> set is" "valid (pte_at (mem s) p j)" for j
  proof -
    have "same_on (pages d (mem s) (child (mem s) p j)) (mem t) (mem s)" using sm by (rule same_on_mono) (use j in auto)
    then show ?thesis using table_same [OF tb [OF j]] kpage_aligned by blast
  qed
  show "below d (mem t) p is = below d (mem s) p is" using ts ent by auto
  have kk: "kpage t = kpage s" using k by blast
  have dis: "pages d (mem s) (child (mem s) p j) \<inter> set ys = {}" if j: "j \<in> set is" "valid (pte_at (mem s) p j)" for j
  proof -
    have "j \<noteq> i" using pe j by (auto simp: pending_def)
    then show ?thesis using pe j unfolding ys pending_def by (auto simp: disjoint_iff)
  qed
  show "pending d t ys p is"
    unfolding pending_def kk
  proof (intro conjI ballI impI)
    fix j assume j: "j \<in> set is" and "valid (pte_at (mem t) p j)"
    then have v: "valid (pte_at (mem s) p j)" using ent by simp
    note tj = ts [OF j v]
    show "inner (pte_at (mem t) p j)" "table (kpage s) d (mem t) (child (mem t) p j)" "p \<notin> pages d (mem t) (child (mem t) p j)"
      "pages d (mem t) (child (mem t) p j) \<inter> set ys = {}"
      using pe j v tj dis [OF j v] by (simp_all add: ent [OF j] pending_def)
  next
    fix a b assume ab: "a \<in> set is" "b \<in> set is" "valid (pte_at (mem t) p a) \<and> valid (pte_at (mem t) p b) \<and> a \<noteq> b"
    then have v: "valid (pte_at (mem s) p a)" "valid (pte_at (mem s) p b)" using ent by simp_all
    show "pages d (mem t) (child (mem t) p a) \<inter> pages d (mem t) (child (mem t) p b) = {}"
      using pe ab ts [OF ab(1) v(1)] ts [OF ab(2) v(2)] v by (simp add: ent [OF ab(1)] ent [OF ab(2)] pending_def)
  qed (use pe inv py in \<open>auto simp: pending_def\<close>)
qed

lemma gave_back_trans:
  assumes "gave_back s xs A B s1" and "\<And>ys. kmem_inv s1 ys \<Longrightarrow> set ys = set xs \<union> A \<Longrightarrow> gave_back s1 ys A' B' s2"
    and "B \<subseteq> C" and "B' \<subseteq> C"
  shows "gave_back s xs (A \<union> A') C s2"
proof -
  obtain ys where ys: "kmem_inv s1 ys" "set ys = set xs \<union> A" "same_on (- B) (mem s1) (mem s)" "s1 = s\<lparr>freelist := freelist s1, mem := mem s1\<rparr>"
    using assms(1) by (auto simp: gave_back_def)
  then have g: "gave_back s1 ys A' B' s2" using assms(2) by blast
  have "same_on (- C) (mem s2) (mem s1)" "same_on (- C) (mem s1) (mem s)"
    using g ys(3) assms(3,4) by (auto simp: gave_back_def elim: same_on_mono)
  then have "same_on (- C) (mem s2) (mem s)" by (rule same_on_trans)
  moreover have "s2 = s\<lparr>freelist := freelist s2, mem := mem s2\<rparr>"
    using heap_frame_trans [OF ys(4)] g by (simp add: gave_back_def)
  ultimately show ?thesis using g ys(2) by (auto simp: gave_back_def Un_assoc)
qed

lemma Pfreewalk_tables:
  assumes IH: "\<And>(s :: 'a kheap_scheme) xs p. kmem_inv s xs \<Longrightarrow> table (kpage s) d (mem s) p \<Longrightarrow> pages d (mem s) p \<inter> set xs = {} \<Longrightarrow>
      \<exists>s'. Pfreewalk (Suc d) p s = Inr ((), s') \<and> gave_back s xs (pages d (mem s) p) (pages d (mem s) p) s'"
    and pe: "pending d (s :: 'a kheap_scheme) xs p is"
  shows "\<exists>s'. Pfreewalk_loop (Suc d) p is s = Inr ((), s') \<and> gave_back s xs (below d (mem s) p is) (insert p (below d (mem s) p is)) s'"
  using pe
proof (induction "is" arbitrary: s xs)
  case Nil
  then show ?case by (auto simp: gave_back_def pending_def)
next
  case (Cons i "is")
  note pe = Cons.prems
  let ?m = "mem s"
  let ?e = "pte_at ?m p i"
  have i: "i < 512" "pg_aligned p" "p \<notin> set xs" "kmem_inv s xs" "i \<notin> set is" using pe by (auto simp: pending_def)
  show ?case
  proof (cases "valid ?e")
    case False
    then have "Pfreewalk_loop (Suc d) p (i # is) s = Pfreewalk_loop (Suc d) p is s" by (simp add: pte_at_def)
    moreover have "pending d s xs p is" "below d ?m p (i # is) = below d ?m p is"
      using pending_same(1) [OF pe i(4)] i(3) False pe by (auto simp: pending_def)
    ultimately show ?thesis using Cons.IH by simp
  next
    case True
    let ?c = "child ?m p i"
    have v: "inner ?e" "table (kpage s) d ?m ?c" "p \<notin> pages d ?m ?c" "pages d ?m ?c \<inter> set xs = {}"
      using pe True by (auto simp: pending_def)
    obtain s1 where s1: "Pfreewalk (Suc d) ?c s = Inr ((), s1)" "gave_back s xs (pages d ?m ?c) (pages d ?m ?c) s1"
      using IH [OF i(4) v(2,4)] by blast
    define t where "t = s1\<lparr>mem := store64 (mem s1) (pte_addr p (of_nat i)) 0\<rparr>"
    have step: "Pfreewalk_loop (Suc d) p (i # is) s = Pfreewalk_loop (Suc d) p is t"
      using True v(1) s1(1) by (simp add: pte_at_def poke_eq t_def Let_def)
    obtain ys where ys: "kmem_inv s1 ys" "set ys = set xs \<union> pages d ?m ?c" using s1(2) by (auto simp: gave_back_def)
    have py: "p \<notin> set ys" using ys(2) i(3) v(3) by simp
    have sm1: "same_on (- pages d ?m ?c) (mem s1) ?m" using s1(2) by (simp add: gave_back_def)
    have smt: "same_on (- {p}) (mem t) (mem s1)" using same_on_store [of p "- {p}" i] i by (simp add: t_def)
    have inv: "kmem_inv t ys" unfolding t_def
      using ys(1) py smt by (intro kmem_inv_same) (auto simp: t_def elim: same_on_mono)
    have k: "kpage t q = kpage s q" for q
    proof -
      have "s1 = s\<lparr>freelist := freelist s1, mem := mem s1\<rparr>" using s1(2) by (simp add: gave_back_def)
      then have "kpage s1 q = kpage s q" by (rule kpage_frame)
      then show ?thesis by (simp add: t_def kpage_def)
    qed
    have ent: "pte_at (mem t) p j = pte_at ?m p j" if j: "j \<in> set is" for j
    proof -
      have "j < 512" "j \<noteq> i" using pe j i(5) by (auto simp: pending_def)
      then have "pte_at (mem t) p j = pte_at (mem s1) p j" using pte_at_store [of p p i j "mem s1" 0] i by (simp add: t_def)
      also have "\<dots> = pte_at ?m p j" using sm1 v(3) i(2) \<open>j < 512\<close> by (intro used_same) (auto elim: same_on_mono)
      finally show ?thesis .
    qed
    have dj: "pages d ?m (child ?m p j) \<inter> pages d ?m ?c = {} \<and> p \<notin> pages d ?m (child ?m p j)"
      if "j \<in> set is" "valid (pte_at ?m p j)" for j
      using pe that True i(5) by (auto simp: pending_def)
    have "same_on (below d ?m p is) (mem s1) ?m" using sm1 by (rule same_on_mono) (use dj in blast)
    moreover have "same_on (below d ?m p is) (mem t) (mem s1)" using smt by (rule same_on_mono) (use dj in blast)
    ultimately have sm: "same_on (below d ?m p is) (mem t) ?m" using same_on_trans by blast
    have pt: "pending d t ys p is" "below d (mem t) p is = below d ?m p is"
      using pending_same [OF pe inv k py _ ent sm] ys(2) True by simp_all
    obtain s' where s': "Pfreewalk_loop (Suc d) p is t = Inr ((), s')" "gave_back t ys (below d ?m p is) (insert p (below d ?m p is)) s'"
      using Cons.IH [OF pt(1)] pt(2) by auto
    have "same_on (- insert p (pages d ?m ?c)) (mem t) (mem s1)" using smt by (rule same_on_mono) auto
    moreover have "same_on (- insert p (pages d ?m ?c)) (mem s1) ?m" using sm1 by (rule same_on_mono) auto
    ultimately have st: "same_on (- insert p (pages d ?m ?c)) (mem t) ?m" by (rule same_on_trans)
    have "s1 = s\<lparr>freelist := freelist s1, mem := mem s1\<rparr>" using s1(2) by (simp add: gave_back_def)
    moreover have "t = s1\<lparr>freelist := freelist t, mem := mem t\<rparr>" by (simp add: t_def)
    ultimately have "t = s\<lparr>freelist := freelist t, mem := mem t\<rparr>" by (rule heap_frame_trans)
    then have "gave_back s xs (pages d ?m ?c) (insert p (pages d ?m ?c)) t"
      unfolding gave_back_def using inv ys(2) st by blast
    moreover have "gave_back t zs (below d ?m p is) (insert p (below d ?m p is)) s'"
      if "kmem_inv t zs" "set zs = set xs \<union> pages d ?m ?c" for zs using s'(2) that(2) ys(2) by (simp add: gave_back_def)
    ultimately have "gave_back s xs (pages d ?m ?c \<union> below d ?m p is) (insert p (pages d ?m ?c \<union> below d ?m p is)) s'"
      by (rule gave_back_trans) auto
    moreover have "below d ?m p (i # is) = pages d ?m ?c \<union> below d ?m p is" using True by auto
    ultimately show ?thesis using step s'(1) by simp
  qed
qed

lemma Pfreewalk_frees:
  "kmem_inv s xs \<Longrightarrow> table (kpage s) d (mem s) p \<Longrightarrow> pages d (mem s) p \<inter> set xs = {} \<Longrightarrow>
   \<exists>s'. Pfreewalk (Suc d) p s = Inr ((), s') \<and> gave_back s xs (pages d (mem s) p) (pages d (mem s) p) s'"
proof (induction d arbitrary: s xs p)
  case 0
  have p: "kpage s p" "pg_aligned p" "p \<notin> set xs" using 0 kpage_aligned by auto
  have "\<forall>j \<in> set [0..<512]. valid (pte_at (mem s) p j) \<longrightarrow> \<not> inner (pte_at (mem s) p j)" using 0(2) by (auto simp: used_def)
  then obtain s1 where s1: "Pfreewalk_loop 0 p [0..<512] s = Inr ((), s1)" "gave_back s xs {} {p} s1"
    using Pfreewalk_leaves [OF 0(1) p(2,3), of "[0..<512]" 0] by (auto simp: subset_iff)
  then obtain ys where ys: "kmem_inv s1 ys" "set ys = set xs" and fr: "s1 = s\<lparr>freelist := freelist s1, mem := mem s1\<rparr>"
    by (auto simp: gave_back_def)
  have k: "kpage s1 p" using p(1) kpage_frame [OF fr] by simp
  obtain s2 where s2: "kfree p s1 = Inr ((), s2)" "gave_back s1 ys {p} {p} s2"
    using kfree_gave_back [OF ys(1) k] p(3) ys(2) by auto
  have "gave_back s xs ({} \<union> {p}) {p} s2"
    by (rule gave_back_trans [OF s1(2)]) (use s2(2) ys(2) in \<open>auto simp: gave_back_def\<close>)
  then show ?case using s1(1) s2(1) by (simp add: kseq_Inr)
next
  case (Suc d)
  let ?b = "below d (mem s) p [0..<512]"
  have p: "kpage s p" "pg_aligned p" "p \<notin> set xs" using Suc.prems kpage_aligned by auto
  have b: "pages (Suc d) (mem s) p = insert p ?b" by (auto simp: used_def)
  have "pages d (mem s) (child (mem s) p j) \<inter> set xs = {}" if "j < 512" "valid (pte_at (mem s) p j)" for j
    using Suc.prems(3) that unfolding b by auto
  then have "pending d s xs p [0..<512]"
    using Suc.prems(1,2) p(2,3) unfolding pending_def by (simp add: used_def lessThan_atLeast0)
  then obtain s1 where s1: "Pfreewalk_loop (Suc d) p [0..<512] s = Inr ((), s1)" "gave_back s xs ?b (insert p ?b) s1"
    using Pfreewalk_tables [OF Suc.IH] by blast
  then obtain ys where ys: "kmem_inv s1 ys" "set ys = set xs \<union> ?b" and fr: "s1 = s\<lparr>freelist := freelist s1, mem := mem s1\<rparr>"
    by (auto simp: gave_back_def)
  have k: "kpage s1 p" using p(1) kpage_frame [OF fr] by simp
  have "p \<notin> ?b" using Suc.prems(2) by (auto simp: used_def)
  then obtain s2 where s2: "kfree p s1 = Inr ((), s2)" "gave_back s1 ys {p} {p} s2"
    using kfree_gave_back [OF ys(1) k] p(3) ys(2) by auto
  have "gave_back s xs (?b \<union> {p}) (insert p ?b) s2"
    by (rule gave_back_trans [OF s1(2)]) (use s2(2) ys(2) in \<open>auto simp: gave_back_def\<close>)
  then show ?case unfolding b using s1(1) s2(1) by (simp add: kseq_Inr)
qed

section \<open>The kernel table of a process\<close>

text \<open>C22: freeing the kernel page table of a process, three levels deep, ends, and gives back exactly the pages of
  the table: each is on the free list afterwards, and every other page of memory, the frames that the
  table mapped (kernel text, devices, the kernel stack, memory shared with the process) among them, is unchanged.\<close>

theorem Pfreewalk_keeps_frames:
  assumes "kmem_inv s xs" and "table (kpage s) 2 (mem s) root" and "pages 2 (mem s) root \<inter> set xs = {}"
  shows "\<exists>s' ys. Pfreewalk 3 root s = Inr ((), s') \<and> kmem_inv s' ys \<and> set ys = set xs \<union> pages 2 (mem s) root \<and>
    (\<forall>a. PGROUNDDOWN a \<notin> pages 2 (mem s) root \<longrightarrow> mem s' a = mem s a)"
proof -
  obtain s' where s': "Pfreewalk (Suc 2) root s = Inr ((), s')" "gave_back s xs (pages 2 (mem s) root) (pages 2 (mem s) root) s'"
    using Pfreewalk_frees [OF assms] by blast
  then obtain ys where "kmem_inv s' ys" "set ys = set xs \<union> pages 2 (mem s) root" unfolding gave_back_def by blast
  moreover have "mem s' a = mem s a" if "PGROUNDDOWN a \<notin> pages 2 (mem s) root" for a
    using s'(2) that by (simp add: gave_back_def same_on_def)
  moreover have "Suc 2 = (3 :: nat)" by simp
  ultimately show ?thesis using s'(1) by metis
qed

lemma demo_used:
  "used demo_mem 0x87FF8000 = {0}" "used demo_mem 0x87FF9000 = {0}" "used demo_mem 0x87FFA000 = {0}"
  using entry_fields(3) [OF demo_aligned(4) UPERM_entry(1)] by (auto simp: used_def demo_pte split: if_splits)

lemma demo_tree: "pages 2 demo_mem 0x87FF8000 = {0x87FF8000, 0x87FF9000, 0x87FFA000}"
  "table (kpage demo_user) 2 demo_mem 0x87FF8000"
proof -
  have e: "pte_at demo_mem 0x87FF8000 0 = PA2PTE 0x87FF9000 OR PTE_V" "pte_at demo_mem 0x87FF9000 0 = PA2PTE 0x87FFA000 OR PTE_V"
    "pte_at demo_mem 0x87FFA000 0 = PA2PTE 0x87FFB000 OR UPERM OR PTE_V" by (simp_all add: demo_pte)
  have c: "child demo_mem 0x87FF8000 0 = 0x87FF9000" "child demo_mem 0x87FF9000 0 = 0x87FFA000" by (simp_all add: e PA2PTE_V_PA)
  have i: "inner (pte_at demo_mem 0x87FF8000 0)" "inner (pte_at demo_mem 0x87FF9000 0)" "\<not> inner (pte_at demo_mem 0x87FFA000 0)"
    unfolding e by (simp_all add: PA2PTE_def PTE_V_def PTE_R_def PTE_W_def PTE_X_def UPERM_def PTE_U_def)
  have p2: "pages 2 = pages (Suc (Suc 0))" "table P 2 = table P (Suc (Suc 0))" for P by (simp_all add: eval_nat_numeral)
  show "pages 2 demo_mem 0x87FF8000 = {0x87FF8000, 0x87FF9000, 0x87FFA000}" unfolding p2 by (simp add: demo_used c)
  show "table (kpage demo_user) 2 demo_mem 0x87FF8000" unfolding p2 by (simp add: demo_used c i PHYSTOP_def KERNBASE_def)
qed

theorem Pfreewalk_keeps_frames_witness:
  "\<exists>s' ys. Pfreewalk 3 0x87FF8000 demo_user = Inr ((), s') \<and> kmem_inv s' ys \<and>
    set ys = {0x87FFE000, 0x87FF8000, 0x87FF9000, 0x87FFA000} \<and> mem s' 0x87FFB123 = demo_mem 0x87FFB123"
proof -
  have "PGROUNDDOWN 0x87FFB123 \<notin> {0x87FF8000, 0x87FF9000, 0x87FFA000}"
    by (simp add: PGROUNDDOWN_def PGSIZE_def)
  moreover have "\<exists>s' ys. Pfreewalk 3 0x87FF8000 demo_user = Inr ((), s') \<and> kmem_inv s' ys \<and>
      set ys = set [0x87FFE000] \<union> {0x87FF8000, 0x87FF9000, 0x87FFA000} \<and>
      (\<forall>a. PGROUNDDOWN a \<notin> {0x87FF8000, 0x87FF9000, 0x87FFA000} \<longrightarrow> mem s' a = mem demo_user a)"
    using Pfreewalk_keeps_frames [of demo_user "[0x87FFE000]" "0x87FF8000"] demo_kmem demo_tree(2)
    unfolding demo_user_simps demo_tree(1) by simp
  ultimately show ?thesis by (metis demo_user_simps(1) insert_is_Un list.simps(15) empty_set)
qed

end
