(* ===== verification/Kpt_Proc.thy ===== *)
theory Kpt_Proc
  imports Kpt Process
begin

text \<open>
  kernel/proc.c and kernel/exec.c of lab 4, where a process has its own kernel page table: the functions
  that lab 4 changes, or that call one of them. The other functions are those of theories Proc and Process.
\<close>

text \<open>The fields kpgtbl and pa that lab 4 adds to struct proc.\<close>

record kproc4 = kfile +
  kpgtbl :: "nat \<Rightarrow> u64"
  kstack_pa :: "nat \<Rightarrow> u64"

section \<open>Printing page tables\<close>

text \<open>The first argument bounds the depth of the recursion, as for freewalk.\<close>

definition vmprint_entry :: "nat \<Rightarrow> u64 \<Rightarrow> ('a kcons_scheme, unit) km" where
  "vmprint_entry i pte = printf (ascii ''%d: pte %p pa %p'' @ [10]) [VInt (of_nat i), VPtr pte, VPtr (PTE2PA pte)]"

fun vmprintf :: "nat \<Rightarrow> u64 \<Rightarrow> nat \<Rightarrow> ('a kcons_scheme, unit) km"
  and vmprintf_loop :: "nat \<Rightarrow> u64 \<Rightarrow> nat \<Rightarrow> nat list \<Rightarrow> ('a kcons_scheme, unit) km" where
  "vmprintf 0 pgtbl deepth s = Inl Diverge"
| "vmprintf (Suc d) pgtbl deepth s = vmprintf_loop d pgtbl deepth [0..<512] s"
| "vmprintf_loop d pgtbl deepth [] s = Inr ((), s)"
| "vmprintf_loop d pgtbl deepth (i # is) s =
     (let pte = load64 (mem s) (pte_addr pgtbl (of_nat i)) in
      if valid pte \<and> pte AND (PTE_R OR PTE_W OR PTE_X) = 0 then
        (case kseq (if deepth = 1 then printf (ascii ''||'') [] else kret ()) (
              kseq (if deepth = 2 then printf (ascii ''|| ||'') [] else kret ()) (
              vmprint_entry i pte)) s of Inl e \<Rightarrow> Inl e
         | Inr (_, s1) \<Rightarrow> (case vmprintf d (PTE2PA pte) (deepth + 1) s1 of Inl e \<Rightarrow> Inl e
           | Inr (_, s2) \<Rightarrow> vmprintf_loop d pgtbl deepth is s2))
      else if valid pte then
        (case kseq (printf (ascii ''|| || ||'') []) (vmprint_entry i pte) s of Inl e \<Rightarrow> Inl e
         | Inr (_, s1) \<Rightarrow> vmprintf_loop d pgtbl deepth is s1)
      else vmprintf_loop d pgtbl deepth is s)"

definition vmprint :: "u64 \<Rightarrow> ('a kcons_scheme, unit) km" where
  "vmprint pgtbl =
     kseq (printf (ascii ''page table %p'' @ [10]) [VPtr pgtbl]) (
     vmprintf PT_DEPTH pgtbl 1)"

section \<open>The process table\<close>

definition kpt_procinit :: "('a kproc4_scheme, unit) km" where
  "kpt_procinit =
     kseq (initlock PidLock ''nextpid'') (
     kseq (kfor [0..<NPROC] (\<lambda>p.
       kseq (initlock (ProcLock p) ''proc'') (
       kbind kalloc (\<lambda>pa.
       if pa = 0 then kpanic ''kalloc''
       else
         kseq (kmod (\<lambda>s. s\<lparr>kstack_pa := (kstack_pa s)(p := pa)\<rparr>)) (
         let va = KSTACK p in
         kseq (kvmmap va pa PGSIZE (PTE_R OR PTE_W)) (
         upd_proc p (\<lambda>q. q\<lparr>p_kstack := va\<rparr>))))))) (
     kvminithart))"

definition kpt_freeproc :: "nat \<Rightarrow> ('a kproc4_scheme, unit) km" where
  "kpt_freeproc p =
     kbind (get_proc p p_trapframe) (\<lambda>tf.
     kseq (if tf \<noteq> 0 then kfree tf else kret ()) (
     kseq (upd_proc p (\<lambda>q. q\<lparr>p_trapframe := 0\<rparr>)) (
     kbind (get_proc p p_pagetable) (\<lambda>pt.
     kbind (get_proc p p_sz) (\<lambda>sz.
     kseq (if pt \<noteq> 0 then proc_freepagetable pt sz else kret ()) (
     kseq (upd_proc p (\<lambda>q. q\<lparr>p_pagetable := 0\<rparr>)) (
     kbind (kget (\<lambda>s. kpgtbl s p)) (\<lambda>kpt.
     kseq (if kpt \<noteq> 0 then Pfreewalk PT_DEPTH kpt else kret ()) (
     kseq (kmod (\<lambda>s. s\<lparr>kpgtbl := (kpgtbl s)(p := 0)\<rparr>)) (
     upd_proc p (\<lambda>q. q\<lparr>p_sz := 0, p_pid := 0, p_parent := None,
       p_name := (p_name q)[0 := 0], p_chan := None, p_killed := 0, p_xstate := 0,
       p_state := UNUSED\<rparr>)))))))))))"

definition kpt_allocproc :: "('a kproc4_scheme, nat option) km" where
  "kpt_allocproc =
     kbind (kfind [0..<NPROC] (\<lambda>p.
       kseq (acquire (ProcLock p)) (
       kbind (get_proc p p_state) (\<lambda>st.
       if st = UNUSED then kret (Some p)
       else kseq (release (ProcLock p)) (kret None))))) (\<lambda>found.
     case found of None \<Rightarrow> kret None
     | Some p \<Rightarrow>
         kbind allocpid (\<lambda>pid.
         kseq (upd_proc p (\<lambda>q. q\<lparr>p_pid := pid\<rparr>)) (
         kbind kalloc (\<lambda>tf.
         kseq (upd_proc p (\<lambda>q. q\<lparr>p_trapframe := tf\<rparr>)) (
         if tf = 0 then kseq (release (ProcLock p)) (kret None)
         else kbind Pvminit (\<lambda>kpt.
           kseq (kmod (\<lambda>s. s\<lparr>kpgtbl := (kpgtbl s)(p := kpt)\<rparr>)) (
           if kpt = 0 then
             kseq (kpt_freeproc p) (
             kseq (release (ProcLock p)) (kret None))
           else kbind (kget (\<lambda>s. kstack_pa s p)) (\<lambda>pa.
             kseq (Pvmmap (KSTACK p) pa PGSIZE (PTE_R OR PTE_W) kpt) (
             kbind (proc_pagetable p) (\<lambda>pt.
             kseq (upd_proc p (\<lambda>q. q\<lparr>p_pagetable := pt\<rparr>)) (
             if pt = 0 then
               kseq (kpt_freeproc p) (
               kseq (release (ProcLock p)) (kret None))
             else kbind (kget k_forkret) (\<lambda>forkret.
               kseq (upd_proc p (\<lambda>q. q\<lparr>p_context :=
                 \<lparr>ctx_ra = forkret, ctx_sp = p_kstack q + PGSIZE, ctx_s = replicate 12 0\<rparr>\<rparr>)) (
               kret (Some p))))))))))))))"

definition kpt_userinit :: "('a kproc4_scheme, unit) km \<Rightarrow> ('a kproc4_scheme, unit) km" where
  "kpt_userinit sw =
     kbind kpt_allocproc (\<lambda>np.
     kseq (kmod (\<lambda>s. s\<lparr>initproc := np\<rparr>)) (
     kbind (nonnull np) (\<lambda>p.
     kbind (get_proc p p_pagetable) (\<lambda>pt.
     kbind (kget k_initcode) (\<lambda>src.
     kseq (uvminit pt src (of_nat (length initcode))) (
     kseq (upd_proc p (\<lambda>q. q\<lparr>p_sz := PGSIZE\<rparr>)) (
     kseq (tf_set p tf_epc 0) (
     kseq (tf_set p tf_sp PGSIZE) (
     kseq (set_name p (lview (ascii ''initcode''))) (
     kbind (namei sw (ascii ''/'')) (\<lambda>cwd.
     kseq (upd_proc p (\<lambda>q. q\<lparr>p_cwd := cwd\<rparr>)) (
     kseq (upd_proc p (\<lambda>q. q\<lparr>p_state := RUNNABLE\<rparr>)) (
     release (ProcLock p))))))))))))))"

definition kpt_fork :: "('a kproc4_scheme, int) km" where
  "kpt_fork =
     kbind curproc (\<lambda>p.
     kbind kpt_allocproc (\<lambda>a.
     case a of None \<Rightarrow> kret (- 1)
     | Some np \<Rightarrow>
         kbind (get_proc p id) (\<lambda>pp.
         kbind (get_proc np p_pagetable) (\<lambda>npt.
         kbind (uvmcopy (p_pagetable pp) npt (p_sz pp)) (\<lambda>r.
         if r < 0 then
           kseq (kpt_freeproc np) (
           kseq (release (ProcLock np)) (
           kret (- 1)))
         else
           kseq (upd_proc np (\<lambda>q. q\<lparr>p_sz := p_sz pp\<rparr>)) (
           kseq (upd_proc np (\<lambda>q. q\<lparr>p_parent := Some p\<rparr>)) (
           kbind (get_proc np p_trapframe) (\<lambda>ntf.
           kseq (kmod (\<lambda>s. s\<lparr>mem := wr (mem s) ntf (rd (mem s) (p_trapframe pp) sizeof_trapframe)\<rparr>)) (
           kseq (tf_set np (tf_a 0) 0) (
           kseq (kfor [0..<NOFILE] (\<lambda>i.
             kbind (get_proc p (\<lambda>q. p_ofile q ! i)) (\<lambda>f.
             case f of None \<Rightarrow> kret ()
             | Some f \<Rightarrow>
                 kbind (filedup f) (\<lambda>g.
                 upd_proc np (\<lambda>q. q\<lparr>p_ofile := (p_ofile q)[i := Some g]\<rparr>))))) (
           kbind (get_proc p p_cwd) (\<lambda>cwd.
           kbind (nonnull cwd) (\<lambda>ip.
           kbind (idup ip) (\<lambda>ip'.
           kseq (upd_proc np (\<lambda>q. q\<lparr>p_cwd := Some ip'\<rparr>)) (
           kseq (set_name np (lview (p_name pp))) (
           kbind (get_proc np p_pid) (\<lambda>pid.
           kseq (upd_proc np (\<lambda>q. q\<lparr>p_state := RUNNABLE\<rparr>)) (
           kseq (release (ProcLock np)) (
           kret pid)))))))))))))))))))"

fun kpt_wait_scan :: "nat \<Rightarrow> u64 \<Rightarrow> nat list \<Rightarrow> bool \<Rightarrow> ('a kproc4_scheme, bool + int) km" where
  "kpt_wait_scan p addr [] havekids = kret (Inl havekids)"
| "kpt_wait_scan p addr (np # nps) havekids =
     kbind (get_proc np p_parent) (\<lambda>par.
     if par \<noteq> Some p then kpt_wait_scan p addr nps havekids
     else kseq (acquire (ProcLock np)) (
       kbind (get_proc np p_state) (\<lambda>st.
       if st = ZOMBIE then
         kbind (get_proc np p_pid) (\<lambda>pid.
         kbind (get_proc np p_xstate) (\<lambda>xstate.
         kbind (get_proc p p_pagetable) (\<lambda>pt.
         kbind (if addr \<noteq> 0 then copyout_obj pt addr (int_bytes xstate) else kret 0) (\<lambda>r.
         if r < 0 then
           kseq (release (ProcLock np)) (kseq (release (ProcLock p)) (kret (Inr (- 1))))
         else
           kseq (kpt_freeproc np) (
           kseq (release (ProcLock np)) (
           kseq (release (ProcLock p)) (kret (Inr pid))))))))
       else kseq (release (ProcLock np)) (kpt_wait_scan p addr nps True))))"

definition kpt_wait :: "('a kproc4_scheme, unit) km \<Rightarrow> u64 \<Rightarrow> ('a kproc4_scheme, int) km" where
  "kpt_wait sw addr =
     kbind curproc (\<lambda>p.
     kseq (acquire (ProcLock p)) (
     kloop (
       kbind (kpt_wait_scan p addr [0..<NPROC] False) (\<lambda>r.
       case r of Inr x \<Rightarrow> kret (Some x)
       | Inl havekids \<Rightarrow>
           kbind (get_proc p p_killed) (\<lambda>killed.
           if \<not> havekids \<or> killed \<noteq> 0 then kseq (release (ProcLock p)) (kret (Some (- 1)))
           else kseq (sleep sw (ChProc p) (ProcLock p)) (kret None))))))"

text \<open>The scheduler runs a process on the kernel page table of that process, and itself on the global one.\<close>

fun kpt_sched_pass :: "(nat \<Rightarrow> ('a kproc4_scheme, unit) km) \<Rightarrow> nat list \<Rightarrow> bool \<Rightarrow> ('a kproc4_scheme, bool) km" where
  "kpt_sched_pass run [] found = kret found"
| "kpt_sched_pass run (p # ps) found =
     kseq (acquire (ProcLock p)) (
     kbind (get_proc p p_state) (\<lambda>st.
     if st = RUNNABLE then
       kseq (upd_proc p (\<lambda>q. q\<lparr>p_state := RUNNING\<rparr>)) (
       kseq (upd_mycpu (\<lambda>c. c\<lparr>cpu_proc := Some p\<rparr>)) (
       kbind (kget (\<lambda>s. kpgtbl s p)) (\<lambda>kpt.
       kseq (Pvminithart kpt) (
       kseq (run p) (
       kseq kvminithart (
       kseq (upd_mycpu (\<lambda>c. c\<lparr>cpu_proc := None\<rparr>)) (
       kseq (release (ProcLock p)) (
       kpt_sched_pass run ps True))))))))
     else kseq (release (ProcLock p)) (kpt_sched_pass run ps found)))"

text \<open>The build without LAB_FS, in which an idle hart waits for an interrupt.\<close>

definition kpt_scheduler ::
  "(nat \<Rightarrow> ('a kproc4_scheme, unit) km) \<Rightarrow> ('a kproc4_scheme, unit) km \<Rightarrow> ('a kproc4_scheme, 'r) km" where
  "kpt_scheduler run wfi =
     kseq (upd_mycpu (\<lambda>c. c\<lparr>cpu_proc := None\<rparr>)) (
     kloop (
       kseq intr_on (
       kbind (kpt_sched_pass run [0..<NPROC] False) (\<lambda>found.
       kseq (if \<not> found then kseq intr_on wfi else kret ()) (kret None)))))"

text \<open>exec returns -1 exactly on the paths that do not reach its last statements, which print the table of process 1.\<close>

definition kpt_exec ::
  "('a kproc4_scheme, unit) km \<Rightarrow> u8 list \<Rightarrow> u64 list \<Rightarrow> ('a kproc4_scheme, int) km" where
  "kpt_exec sw path argv =
     kbind (exec sw path argv) (\<lambda>argc.
     if argc < 0 then kret argc
     else
       kbind curproc (\<lambda>p.
       kbind (get_proc p id) (\<lambda>q.
       kseq (if p_pid q = 1 then vmprint (p_pagetable q) else kret ()) (
       kret argc))))"

section \<open>Which page table a hart runs on\<close>

text \<open>A hart in the scheduler runs on the global table; a process that runs, on its own.\<close>

definition on_global :: "'a kvm_scheme \<Rightarrow> bool" where
  "on_global s \<longleftrightarrow> satp s (tp s) = MAKE_SATP (kernel_pagetable s)"

definition on_own :: "nat \<Rightarrow> 'a kproc4_scheme \<Rightarrow> bool" where
  "on_own p s \<longleftrightarrow> satp s (tp s) = MAKE_SATP (kpgtbl s p) \<and> cpu_proc (cur_cpu s) = Some p \<and> p_state (procs s p) = RUNNING"

lemma acquire_on_global: "acquire l s = Inr (u, s') \<Longrightarrow> on_global s' = on_global s"
  by (auto simp: acquire_def push_off_def core_defs kmon on_global_def split: if_splits)

lemma release_on_global: "release l s = Inr (u, s') \<Longrightarrow> on_global s' = on_global s"
  by (auto simp: release_def pop_off_def core_defs kmon on_global_def split: if_splits)

lemma kseq_cong: "f = f' \<Longrightarrow> (\<And>u t. f s = Inr (u, t) \<Longrightarrow> g t = g' t) \<Longrightarrow> kseq f g s = kseq f' g' s"
  by (auto simp: kseq_def kbind_def split: sum.splits)

lemma kseq_InrE:
  assumes "kseq f g s = Inr (x, s')"
  obtains u t where "f s = Inr (u, t)" and "g t = Inr (x, s')"
  using assms by (auto simp: kseq_def kbind_def split: sum.splits)

text \<open>What a pass does when it finds process p runnable, from the moment its lock is held.\<close>

definition dispatch :: "(nat \<Rightarrow> ('a kproc4_scheme, unit) km) \<Rightarrow> nat \<Rightarrow> ('a kproc4_scheme, unit) km" where
  "dispatch run p s =
     run p (s\<lparr>procs := (procs s)(p := (procs s p)\<lparr>p_state := RUNNING\<rparr>),
       cpus := (cpus s)(tp s := (cur_cpu s)\<lparr>cpu_proc := Some p\<rparr>),
       satp := (satp s)(tp s := MAKE_SATP (kpgtbl s p))\<rparr>)"

definition undispatch :: "('a kproc4_scheme, unit) km" where
  "undispatch s = Inr ((), s\<lparr>satp := (satp s)(tp s := MAKE_SATP (kernel_pagetable s)),
     cpus := (cpus s)(tp s := (cur_cpu s)\<lparr>cpu_proc := None\<rparr>)\<rparr>)"

lemma undispatch_on_global: "undispatch s = Inr (u, t) \<Longrightarrow> on_global t"
  by (auto simp: undispatch_def on_global_def)

lemma kpt_sched_pass_Cons:
  "kpt_sched_pass run (p # ps) found =
     kseq (acquire (ProcLock p)) (\<lambda>s.
       if p_state (procs s p) = RUNNABLE then
         kseq (dispatch run p) (
         kseq undispatch (
         kseq (release (ProcLock p)) (kpt_sched_pass run ps True))) s
       else kseq (release (ProcLock p)) (kpt_sched_pass run ps found) s)"
  by (rule ext) (simp add: get_proc_def upd_proc_def upd_mycpu_def Pvminithart_def kvminithart_def dispatch_def undispatch_def
      kseq_def kbind_def kget_def kmod_def split: sum.splits)

lemma dispatch_on_own:
  assumes "\<And>t. on_own p t \<Longrightarrow> run p t = run' p t"
  shows "dispatch run p = dispatch run' p"
  by (rule ext) (auto simp: dispatch_def on_own_def intro!: assms)

lemma kpt_sched_pass_on_own:
  assumes "\<And>p t. on_own p t \<Longrightarrow> run p t = run' p t"
  shows "kpt_sched_pass run ps found = kpt_sched_pass run' ps found"
  by (induction ps arbitrary: found) (simp_all only: kpt_sched_pass_Cons dispatch_on_own [OF assms] kpt_sched_pass.simps(1))

lemma kpt_sched_pass_on_global:
  "kpt_sched_pass run ps found s = Inr (r, s') \<Longrightarrow> on_global s \<Longrightarrow> on_global s'"
proof (induction ps arbitrary: found s)
  case Nil
  then show ?case by (simp add: kret_def)
next
  case (Cons p ps)
  obtain t where t: "acquire (ProcLock p) s = Inr ((), t)" and r: "(if p_state (procs t p) = RUNNABLE then
         kseq (dispatch run p) (
         kseq undispatch (
         kseq (release (ProcLock p)) (kpt_sched_pass run ps True))) t
       else kseq (release (ProcLock p)) (kpt_sched_pass run ps found) t) = Inr (r, s')"
    using Cons.prems(1) unfolding kpt_sched_pass_Cons by (auto elim!: kseq_InrE)
  have "\<exists>u v b. on_global u \<and> release (ProcLock p) u = Inr ((), v) \<and> kpt_sched_pass run ps b v = Inr (r, s')"
  proof (cases "p_state (procs t p) = RUNNABLE")
    case True
    then show ?thesis using r undispatch_on_global by (auto elim!: kseq_InrE) blast
  next
    case False
    then show ?thesis using r acquire_on_global [OF t] Cons.prems(2) by (auto elim!: kseq_InrE) blast
  qed
  then show ?case using Cons.IH release_on_global by blast
qed

text \<open>The scheduler of lab 4 switches page tables with the process: what a pass does depends on the code of a
  process only in states in which the hart runs on that process's own kernel table, with the process
  marked as running on it, and a pass that starts on the global kernel table ends on it.\<close>

theorem kpt_scheduler_tables:
  assumes "\<And>p t. on_own p t \<Longrightarrow> run p t = run' p t"
  shows "kpt_sched_pass run [0..<NPROC] False s = kpt_sched_pass run' [0..<NPROC] False s \<and>
    (\<forall>found s'. on_global s \<and> kpt_sched_pass run [0..<NPROC] False s = Inr (found, s') \<longrightarrow> on_global s')"
proof (intro conjI allI impI)
  show "kpt_sched_pass run [0..<NPROC] False s = kpt_sched_pass run' [0..<NPROC] False s"
    by (rule fun_cong [OF kpt_sched_pass_on_own [OF assms]])
qed (use kpt_sched_pass_on_global in blast)

text \<open>Processes that stop the machine when they find themselves on another table.\<close>

definition demo_checked :: "nat \<Rightarrow> (kproc4, unit) km" where
  "demo_checked p s = (if satp s (tp s) = MAKE_SATP (kpgtbl s p) then Inr ((), s) else Inl (Panic ''wrong table''))"

theorem kpt_scheduler_tables_witness:
  "\<forall>s. kpt_sched_pass demo_checked [0..<NPROC] False s = kpt_sched_pass (\<lambda>_. kret ()) [0..<NPROC] False s"
proof
  have "demo_checked p t = kret () t" if "on_own p t" for p t
    using that by (simp add: demo_checked_def on_own_def kret_def)
  then show "kpt_sched_pass demo_checked [0..<NPROC] False s = kpt_sched_pass (\<lambda>_. kret ()) [0..<NPROC] False s" for s
    using kpt_scheduler_tables [of demo_checked "\<lambda>_. kret ()" s] by blast
qed

end
