(* ===== verification/Sleep_Steps.thy ===== *)
theory Sleep_Steps
  imports Proc_Sync
begin

text \<open>
  sleep and wakeup of kernel/proc.c between processes that run at the same time. The
  operations of theory Proc are what one hart does from its own point of view. Here their bodies are
  lists of instructions, which an interleaving semantics executes one at a time, in any order
  between the processes; that the lists are the bodies of sleep and wakeup is proved as well. The
  processes use them the way all callers do: a waiting process takes a lock and sleeps in a loop
  until the condition holds, a waking one takes the lock, makes the condition true and calls
  wakeup. The scheduler releases the lock of a process that it left and takes it before it
  resumes the process; kill may wake a process at any time.
\<close>

section \<open>Instructions\<close>

datatype instr =
    IAcquire lock_id | IRelease lock_id | IChan "chan option" | ISleeping | ISched | IWake nat chan

definition sleep_code :: "nat \<Rightarrow> chan \<Rightarrow> lock_id \<Rightarrow> instr list" where
  "sleep_code p ch lk =
     (if lk \<noteq> ProcLock p then [IAcquire (ProcLock p), IRelease lk] else []) @
     [IChan (Some ch), ISleeping, ISched, IChan None] @
     (if lk \<noteq> ProcLock p then [IRelease (ProcLock p), IAcquire lk] else [])"

definition wakeup_one :: "chan \<Rightarrow> nat \<Rightarrow> instr list" where
  "wakeup_one ch q = [IAcquire (ProcLock q), IWake q ch, IRelease (ProcLock q)]"

definition wakeup_code :: "chan \<Rightarrow> instr list" where
  "wakeup_code ch = concat (map (wakeup_one ch) [0..<NPROC])"

text \<open>What an instruction of process p does on one hart.\<close>

fun exec1 :: "('a kproc_scheme, unit) km \<Rightarrow> nat \<Rightarrow> instr \<Rightarrow> ('a kproc_scheme, unit) km" where
  "exec1 sw p (IAcquire l) = acquire l"
| "exec1 sw p (IRelease l) = release l"
| "exec1 sw p (IChan c) = upd_proc p (\<lambda>q. q\<lparr>p_chan := c\<rparr>)"
| "exec1 sw p ISleeping = upd_proc p (\<lambda>q. q\<lparr>p_state := SLEEPING\<rparr>)"
| "exec1 sw p ISched = sched sw"
| "exec1 sw p (IWake r c) = upd_proc r (\<lambda>q.
     if p_state q = SLEEPING \<and> p_chan q = Some c then q\<lparr>p_state := RUNNABLE\<rparr> else q)"

fun exec :: "('a kproc_scheme, unit) km \<Rightarrow> nat \<Rightarrow> instr list \<Rightarrow> ('a kproc_scheme, unit) km" where
  "exec sw p [] = kret ()"
| "exec sw p (i # is) = kseq (exec1 sw p i) (exec sw p is)"

lemma kseq_laws:
  "kseq (kseq a b) c = kseq a (kseq b c)" "kseq (kret x) c = c" "kseq a (kret ()) = a"
  by (auto simp: kseq_def kbind_def kret_def fun_eq_iff split: sum.splits)

lemma kseq_upd_proc:
  "kseq (upd_proc p f) (kseq (upd_proc p g) k) = kseq (upd_proc p (\<lambda>q. g (f q))) k"
  by (auto simp: kseq_def kbind_def upd_proc_def kmod_def fun_eq_iff)

lemma exec_append: "exec sw p (xs @ ys) = kseq (exec sw p xs) (exec sw p ys)"
  by (induction xs) (simp_all add: kseq_laws)

lemma sleep_exec: "sleep sw ch lk = kbind curproc (\<lambda>p. exec sw p (sleep_code p ch lk))"
proof -
  have "kseq (if lk \<noteq> ProcLock p then kseq (acquire (ProcLock p)) (release lk) else kret ()) (
     kseq (upd_proc p (\<lambda>q. q\<lparr>p_chan := Some ch, p_state := SLEEPING\<rparr>)) (
     kseq (sched sw) (
     kseq (upd_proc p (\<lambda>q. q\<lparr>p_chan := None\<rparr>)) (
     if lk \<noteq> ProcLock p then kseq (release (ProcLock p)) (acquire lk) else kret ())))) =
     exec sw p (sleep_code p ch lk)" for p
    by (simp add: sleep_code_def exec_append kseq_laws kseq_upd_proc)
  then show ?thesis by (simp add: sleep_def)
qed

lemma wakeup_exec: "wakeup ch = exec sw p (wakeup_code ch)"
proof -
  have "kfor qs (\<lambda>p. kseq (acquire (ProcLock p)) (
       kseq (upd_proc p (\<lambda>q.
         if p_state q = SLEEPING \<and> p_chan q = Some ch then q\<lparr>p_state := RUNNABLE\<rparr> else q)) (
       release (ProcLock p)))) = exec sw p (concat (map (wakeup_one ch) qs))" for qs
    by (induction qs) (simp_all add: exec_append wakeup_one_def kseq_laws)
  then show ?thesis by (simp add: wakeup_def wakeup_code_def)
qed

section \<open>Interleaved execution\<close>

text \<open>
  What the processes run: instructions, the test of the waiting loop, and setting the condition.
  A process is on a hart, or leaving it (the scheduler still holds its lock), or off.
\<close>

datatype cmd = Do instr | Loop | SetCond bool

datatype phase = On | Leaving | Off

record sys =
  y_lock :: "lock_id \<Rightarrow> nat option"
  y_phase :: "nat \<Rightarrow> phase"
  y_state :: "nat \<Rightarrow> procstate"
  y_chan :: "nat \<Rightarrow> chan option"
  y_cond :: bool
  y_code :: "nat \<Rightarrow> cmd list"

text \<open>
  acquire(lk); while(!cond) sleep(ch, lk); cond = 0; release(lk), and acquire(lk); cond = 1;
  wakeup(ch); release(lk).
\<close>

definition wait_code :: "lock_id \<Rightarrow> cmd list" where
  "wait_code lk = [Do (IAcquire lk), Loop, SetCond False, Do (IRelease lk)]"

definition signal_code :: "chan \<Rightarrow> lock_id \<Rightarrow> cmd list" where
  "signal_code ch lk = [Do (IAcquire lk), SetCond True] @ map Do (wakeup_code ch) @ [Do (IRelease lk)]"

definition rouse :: "nat \<Rightarrow> chan \<Rightarrow> sys \<Rightarrow> sys" where
  "rouse q x s = s\<lparr>y_state := (y_state s)(q :=
     if y_state s q = SLEEPING \<and> y_chan s q = Some x then RUNNABLE else y_state s q)\<rparr>"

definition go :: "nat \<Rightarrow> cmd list \<Rightarrow> sys \<Rightarrow> sys" where
  "go p c s = s\<lparr>y_code := (y_code s)(p := c)\<rparr>"

text \<open>The steps that are up to the kernel. A release by a process that does not hold the lock has no step.\<close>

inductive kstep :: "chan \<Rightarrow> lock_id \<Rightarrow> sys \<Rightarrow> sys \<Rightarrow> bool" for ch lk where
  acquire_step: "y_phase s p = On \<Longrightarrow> y_code s p = Do (IAcquire l) # c \<Longrightarrow> y_lock s l = None \<Longrightarrow>
    kstep ch lk s (go p c (s\<lparr>y_lock := (y_lock s)(l := Some p)\<rparr>))"
| release_step: "y_phase s p = On \<Longrightarrow> y_code s p = Do (IRelease l) # c \<Longrightarrow> y_lock s l = Some p \<Longrightarrow>
    kstep ch lk s (go p c (s\<lparr>y_lock := (y_lock s)(l := None)\<rparr>))"
| chan_step: "y_phase s p = On \<Longrightarrow> y_code s p = Do (IChan x) # c \<Longrightarrow>
    kstep ch lk s (go p c (s\<lparr>y_chan := (y_chan s)(p := x)\<rparr>))"
| sleeping_step: "y_phase s p = On \<Longrightarrow> y_code s p = Do ISleeping # c \<Longrightarrow>
    kstep ch lk s (go p c (s\<lparr>y_state := (y_state s)(p := SLEEPING)\<rparr>))"
| sched_step: "y_phase s p = On \<Longrightarrow> y_code s p = Do ISched # c \<Longrightarrow> y_lock s (ProcLock p) = Some p \<Longrightarrow>
    y_state s p \<noteq> RUNNING \<Longrightarrow> kstep ch lk s (go p c (s\<lparr>y_phase := (y_phase s)(p := Leaving)\<rparr>))"
| left_step: "y_phase s p = Leaving \<Longrightarrow>
    kstep ch lk s (s\<lparr>y_phase := (y_phase s)(p := Off), y_lock := (y_lock s)(ProcLock p := None)\<rparr>)"
| pick_step: "y_phase s p = Off \<Longrightarrow> y_lock s (ProcLock p) = None \<Longrightarrow> y_state s p = RUNNABLE \<Longrightarrow>
    kstep ch lk s (s\<lparr>y_phase := (y_phase s)(p := On), y_lock := (y_lock s)(ProcLock p := Some p),
      y_state := (y_state s)(p := RUNNING)\<rparr>)"
| wake_step: "y_phase s p = On \<Longrightarrow> y_code s p = Do (IWake q x) # c \<Longrightarrow>
    kstep ch lk s (go p c (rouse q x s))"
| set_step: "y_phase s p = On \<Longrightarrow> y_code s p = SetCond b # c \<Longrightarrow> kstep ch lk s (go p c (s\<lparr>y_cond := b\<rparr>))"
| done_step: "y_phase s p = On \<Longrightarrow> y_code s p = Loop # c \<Longrightarrow> y_cond s \<Longrightarrow> kstep ch lk s (go p c s)"
| sleep_step: "y_phase s p = On \<Longrightarrow> y_code s p = Loop # c \<Longrightarrow> \<not> y_cond s \<Longrightarrow>
    kstep ch lk s (go p (map Do (sleep_code p ch lk) @ Loop # c) s)"

text \<open>A process begins to wait or to signal; kill wakes a process that sleeps, holding its lock.\<close>

inductive ustep :: "chan \<Rightarrow> lock_id \<Rightarrow> sys \<Rightarrow> sys \<Rightarrow> bool" for ch lk where
  wait_step: "p < NPROC \<Longrightarrow> y_code s p = [] \<Longrightarrow> ustep ch lk s (go p (wait_code lk) s)"
| signal_step: "p < NPROC \<Longrightarrow> y_code s p = [] \<Longrightarrow> ustep ch lk s (go p (signal_code ch lk) s)"
| kill_step: "y_lock s (ProcLock p) = None \<Longrightarrow> y_state s p = SLEEPING \<Longrightarrow>
    ustep ch lk s (s\<lparr>y_state := (y_state s)(p := RUNNABLE)\<rparr>)"

inductive sreach :: "chan \<Rightarrow> lock_id \<Rightarrow> sys \<Rightarrow> bool" for ch lk where
  sreach_init: "sreach ch lk \<lparr>y_lock = (\<lambda>_. None), y_phase = (\<lambda>_. On), y_state = (\<lambda>_. RUNNING),
    y_chan = (\<lambda>_. None), y_cond = b, y_code = (\<lambda>_. [])\<rparr>"
| sreach_step: "sreach ch lk s \<Longrightarrow> kstep ch lk s t \<or> ustep ch lk s t \<Longrightarrow> sreach ch lk t"

section \<open>Well-formed programs\<close>

text \<open>A lock is held when the next thing that the rest of the program does with it is to release it.\<close>

fun rel :: "lock_id \<Rightarrow> cmd list \<Rightarrow> bool" where
  "rel l [] = False"
| "rel l (Do (IAcquire k) # c) = (l \<noteq> k \<and> rel l c)"
| "rel l (Do (IRelease k) # c) = (l = k \<or> rel l c)"
| "rel l (i # c) = rel l c"

definition nowake :: "cmd list \<Rightarrow> bool" where
  "nowake c \<longleftrightarrow> (\<forall>q x. Do (IWake q x) \<notin> set c)"

text \<open>The process has found the condition false and is about to be marked as sleeping.\<close>

definition committed :: "cmd list \<Rightarrow> bool" where
  "committed c \<longleftrightarrow> Do ISleeping \<in> set (takeWhile (\<lambda>i. i \<noteq> Do ISched) c)"

fun okhead :: "chan \<Rightarrow> lock_id \<Rightarrow> nat \<Rightarrow> cmd \<Rightarrow> cmd list \<Rightarrow> bool" where
  "okhead ch lk p (Do (IAcquire l)) c = (rel l c \<and> (l = lk \<or> (\<exists>q. l = ProcLock q)) \<and>
     (\<forall>q. l \<noteq> ProcLock q \<longrightarrow> \<not> rel (ProcLock q) c))"
| "okhead ch lk p (Do (IRelease l)) c = (\<not> rel l c \<and> (l = lk \<longrightarrow> nowake c))"
| "okhead ch lk p (Do (IChan x)) c = (x = None \<or> x = Some ch \<and> (\<exists>c'. c = Do ISleeping # c'))"
| "okhead ch lk p (Do ISleeping) c = (rel (ProcLock p) c \<and> (\<exists>c'. c = Do ISched # c'))"
| "okhead ch lk p (Do ISched) c = (rel (ProcLock p) c \<and> (\<forall>q. q \<noteq> p \<longrightarrow> \<not> rel (ProcLock q) c) \<and> \<not> rel lk c \<and>
     (\<exists>c'. c = Do (IChan None) # c') \<and> \<not> committed c)"
| "okhead ch lk p (Do (IWake q x)) c = (x = ch \<and> rel (ProcLock q) c \<and> rel lk c)"
| "okhead ch lk p (SetCond b) c = (rel lk c \<and> (b \<longrightarrow> (\<forall>q < NPROC. Do (IWake q ch) \<in> set c)))"
| "okhead ch lk p Loop c = (rel lk c \<and> (\<forall>q. \<not> rel (ProcLock q) c) \<and> nowake c \<and> \<not> committed c)"

text \<open>What has to come just before going to sleep, before sched and after the loop.\<close>

fun follows :: "chan \<Rightarrow> cmd \<Rightarrow> cmd list \<Rightarrow> bool" where
  "follows ch i (SetCond False # c) = (i = Loop)"
| "follows ch i (Do ISched # c) = (i = Do ISleeping)"
| "follows ch i (Do ISleeping # c) = (i = Do (IChan (Some ch)))"
| "follows ch i c = True"

fun wf :: "chan \<Rightarrow> lock_id \<Rightarrow> nat \<Rightarrow> cmd list \<Rightarrow> bool" where
  "wf ch lk p [] = True"
| "wf ch lk p (i # c) = (okhead ch lk p i c \<and> wf ch lk p c \<and>
     (committed (i # c) \<longrightarrow> nowake (i # c) \<and> (rel lk (i # c) \<or> rel (ProcLock p) (i # c))) \<and>
     follows ch i c)"

lemma committed_simps [simp]:
  "committed (i # c) = (i \<noteq> Do ISched \<and> (i = Do ISleeping \<or> committed c))" "\<not> committed []"
  by (auto simp: committed_def)

lemma nowake_simps [simp]:
  "nowake []" "nowake (i # c) = ((\<forall>q x. i \<noteq> Do (IWake q x)) \<and> nowake c)"
  by (auto simp: nowake_def)

lemma wf_sleep:
  assumes "wf ch lk p (Loop # c)" and "\<forall>q. lk \<noteq> ProcLock q"
  shows "wf ch lk p (map Do (sleep_code p ch lk) @ Loop # c)"
  using assms by (auto simp: sleep_code_def)

lemma wf_wait: "\<forall>q. lk \<noteq> ProcLock q \<Longrightarrow> wf ch lk p (wait_code lk)"
  by (auto simp: wait_code_def)

definition scan_code :: "chan \<Rightarrow> lock_id \<Rightarrow> nat list \<Rightarrow> cmd list" where
  "scan_code ch lk qs = map Do (concat (map (wakeup_one ch) qs)) @ [Do (IRelease lk)]"

lemma scan_code_simps:
  "scan_code ch lk [] = [Do (IRelease lk)]"
  "scan_code ch lk (x # qs) = Do (IAcquire (ProcLock x)) # Do (IWake x ch) # Do (IRelease (ProcLock x)) # scan_code ch lk qs"
  by (simp_all add: scan_code_def wakeup_one_def)

lemma scan_facts:
  assumes "\<forall>q. lk \<noteq> ProcLock q"
  shows "rel lk (scan_code ch lk qs)" "l \<noteq> lk \<Longrightarrow> \<not> rel l (scan_code ch lk qs)" "\<not> committed (scan_code ch lk qs)"
    "q \<in> set qs \<Longrightarrow> Do (IWake q ch) \<in> set (scan_code ch lk qs)" "follows ch i (scan_code ch lk qs)"
    "wf ch lk p (scan_code ch lk qs)"
proof -
  show r: "rel lk (scan_code ch lk qs)" and n: "l \<noteq> lk \<Longrightarrow> \<not> rel l (scan_code ch lk qs)" and k: "\<not> committed (scan_code ch lk qs)" for qs l
    using assms by (induction qs) (auto simp: scan_code_simps)
  have np: "\<not> rel (ProcLock q) (scan_code ch lk qs)" for q qs using n [of "ProcLock q" qs] assms by metis
  show "q \<in> set qs \<Longrightarrow> Do (IWake q ch) \<in> set (scan_code ch lk qs)" by (induction qs) (auto simp: scan_code_simps)
  show h: "follows ch i (scan_code ch lk qs)" for i qs by (cases qs) (simp_all add: scan_code_simps)
  show "wf ch lk p (scan_code ch lk qs)"
    by (induction qs) (use r np k h assms in \<open>auto simp: scan_code_simps\<close>)
qed

lemma signal_code_eq: "signal_code ch lk = Do (IAcquire lk) # SetCond True # scan_code ch lk [0..<NPROC]"
  by (simp add: signal_code_def scan_code_def wakeup_code_def)

lemma wf_signal:
  assumes "\<forall>q. lk \<noteq> ProcLock q"
  shows "wf ch lk p (signal_code ch lk)"
proof -
  let ?c = "scan_code ch lk [0..<NPROC]"
  have "\<not> rel (ProcLock q) ?c" for q using scan_facts(2) [OF assms] assms by metis
  then show ?thesis using scan_facts(1,3,5,6) [OF assms, where ch = ch and qs = "[0..<NPROC]"] scan_facts(4) [OF assms, where ch = ch and qs = "[0..<NPROC]"]
    unfolding signal_code_eq by auto
qed

section \<open>The invariant\<close>

definition inv_wf :: "chan \<Rightarrow> lock_id \<Rightarrow> sys \<Rightarrow> bool" where
  "inv_wf ch lk s \<longleftrightarrow> (\<forall>p. wf ch lk p (y_code s p)) \<and> (\<forall>p \<ge> NPROC. y_code s p = [] \<and> y_state s p \<noteq> SLEEPING)"

definition inv_lock :: "sys \<Rightarrow> bool" where
  "inv_lock s \<longleftrightarrow> (\<forall>l p. y_lock s l = Some p \<longleftrightarrow> rel l (y_code s p) \<and> \<not> (y_phase s p = Off \<and> l = ProcLock p))"

definition inv_off :: "chan \<Rightarrow> lock_id \<Rightarrow> sys \<Rightarrow> bool" where
  "inv_off ch lk s \<longleftrightarrow> (\<forall>p. y_phase s p \<noteq> On \<longrightarrow> (y_state s p = SLEEPING \<or> y_state s p = RUNNABLE) \<and> y_chan s p = Some ch \<and>
     rel (ProcLock p) (y_code s p) \<and> (\<forall>q. q \<noteq> p \<longrightarrow> \<not> rel (ProcLock q) (y_code s p)) \<and> \<not> rel lk (y_code s p) \<and> (\<exists>c. y_code s p = Do (IChan None) # c) \<and> \<not> committed (y_code s p))"

definition inv_park :: "chan \<Rightarrow> sys \<Rightarrow> bool" where
  "inv_park ch s \<longleftrightarrow> (\<forall>p c. y_code s p = Do ISched # c \<longrightarrow> y_state s p = SLEEPING \<and> y_chan s p = Some ch) \<and>
     (\<forall>p c. y_code s p = Do ISleeping # c \<longrightarrow> y_chan s p = Some ch) \<and>
     (\<forall>p c. y_code s p = SetCond False # c \<longrightarrow> y_cond s)"

text \<open>Nobody is forgotten: the holder of the lock is still going to look at the process.\<close>

definition inv_wake :: "chan \<Rightarrow> lock_id \<Rightarrow> sys \<Rightarrow> bool" where
  "inv_wake ch lk s \<longleftrightarrow> (\<forall>p. y_cond s \<and> (committed (y_code s p) \<or> y_state s p = SLEEPING \<and> y_chan s p = Some ch) \<longrightarrow>
     (\<exists>q. y_lock s lk = Some q \<and> Do (IWake p ch) \<in> set (y_code s q)))"

definition sinv :: "chan \<Rightarrow> lock_id \<Rightarrow> sys \<Rightarrow> bool" where
  "sinv ch lk s \<longleftrightarrow> inv_wf ch lk s \<and> inv_lock s \<and> inv_off ch lk s \<and> inv_park ch s \<and> inv_wake ch lk s"

lemma kstep_wf:
  assumes st: "kstep ch lk s t" and i: "sinv ch lk s" and lk: "\<forall>q. lk \<noteq> ProcLock q"
  shows "inv_wf ch lk t"
proof -
  have w: "wf ch lk p c" if "y_code s p = i # c" for p i c using i that unfolding sinv_def inv_wf_def by (metis wf.simps(2))
  have o: "y_code s p = []" "y_state s p \<noteq> SLEEPING" if "NPROC \<le> p" for p using i that by (auto simp: sinv_def inv_wf_def)
  have all: "wf ch lk p (y_code s p)" for p using i by (simp add: sinv_def inv_wf_def)
  show ?thesis using st
  proof cases
    case (sleep_step p c)
    then show ?thesis using all [of p] wf_sleep [OF _ lk] o all by (auto simp: inv_wf_def go_def rouse_def)
  qed (use w o all in \<open>auto simp: inv_wf_def go_def rouse_def\<close>)
qed

lemma kstep_lock:
  assumes st: "kstep ch lk s t" and i: "sinv ch lk s" and lk: "\<forall>q. lk \<noteq> ProcLock q"
  shows "inv_lock t"
proof -
  have h: "okhead ch lk p i c" if "y_code s p = i # c" for p i c using i that unfolding sinv_def inv_wf_def by (metis wf.simps(2))
  have l: "y_lock s l = Some p \<longleftrightarrow> rel l (y_code s p) \<and> \<not> (y_phase s p = Off \<and> l = ProcLock p)" for l p
    using i by (simp add: sinv_def inv_lock_def)
  have o: "rel (ProcLock p) (y_code s p)" if "y_phase s p \<noteq> On" for p using i that by (simp add: sinv_def inv_off_def)
  show ?thesis using st
  proof cases
    case (acquire_step p k c)
    have "\<not> (rel k (y_code s q) \<and> \<not> (y_phase s q = Off \<and> k = ProcLock q))" for q
      using l [of k q] acquire_step(4) by simp
    then show ?thesis using acquire_step h [OF acquire_step(3)] l by (auto simp: inv_lock_def go_def rouse_def)
  next
    case (sleep_step p c)
    have "rel k (map Do (sleep_code p ch lk) @ Loop # c) = rel k (Loop # c)" for k
      using h [OF sleep_step(3)] lk by (auto simp: sleep_code_def)
    then show ?thesis using sleep_step l by (auto simp: inv_lock_def go_def rouse_def)
  next
    case (release_step p k c)
    have "\<not> (rel k (y_code s q) \<and> \<not> (y_phase s q = Off \<and> k = ProcLock q))" if "q \<noteq> p" for q
      using l [of k q] release_step(4) that by simp
    then show ?thesis using release_step h [OF release_step(3)] l by (auto simp: inv_lock_def go_def rouse_def)
  next
    case (left_step p)
    have "y_lock s (ProcLock p) = Some p" using l [of "ProcLock p" p] o [of p] left_step(2) by simp
    then have "\<not> (rel (ProcLock p) (y_code s q))" if "q \<noteq> p" for q using l [of "ProcLock p" q] that by simp
    then show ?thesis using left_step l o [of p] by (auto simp: inv_lock_def)
  next
    case (pick_step p)
    have "\<not> rel (ProcLock p) (y_code s q)" if "q \<noteq> p" for q using l [of "ProcLock p" q] pick_step(3) that by simp
    then show ?thesis using pick_step l o [of p] by (auto simp: inv_lock_def)
  qed (use l in \<open>auto simp: inv_lock_def go_def rouse_def\<close>)
qed

lemma sinv_facts:
  assumes "sinv ch lk s"
  shows "y_code s p = i # c \<Longrightarrow> okhead ch lk p i c"
    and "wf ch lk p (y_code s p)"
    and "y_lock s l = Some p \<longleftrightarrow> rel l (y_code s p) \<and> \<not> (y_phase s p = Off \<and> l = ProcLock p)"
    and "y_phase s p \<noteq> On \<Longrightarrow> (y_state s p = SLEEPING \<or> y_state s p = RUNNABLE) \<and> y_chan s p = Some ch \<and>
      rel (ProcLock p) (y_code s p) \<and> (\<forall>q. q \<noteq> p \<longrightarrow> \<not> rel (ProcLock q) (y_code s p)) \<and> \<not> rel lk (y_code s p) \<and> (\<exists>c. y_code s p = Do (IChan None) # c) \<and> \<not> committed (y_code s p)"
    and "y_code s p = i # c \<Longrightarrow> follows ch i c"
    and "y_code s p = Do ISched # c \<Longrightarrow> y_state s p = SLEEPING \<and> y_chan s p = Some ch"
    and "y_code s p = Do ISleeping # c \<Longrightarrow> y_chan s p = Some ch"
    and "y_code s p = SetCond False # c \<Longrightarrow> y_cond s"
    and "y_cond s \<Longrightarrow> committed (y_code s p) \<or> y_state s p = SLEEPING \<and> y_chan s p = Some ch \<Longrightarrow>
      \<exists>q. y_lock s lk = Some q \<and> Do (IWake p ch) \<in> set (y_code s q)"
proof -
  show "okhead ch lk p i c" "follows ch i c" if "y_code s p = i # c"
    using assms that unfolding sinv_def inv_wf_def by (metis wf.simps(2))+
qed (use assms in \<open>auto simp: sinv_def inv_wf_def inv_lock_def inv_off_def inv_park_def inv_wake_def\<close>)

lemma held_once:
  assumes "sinv ch lk s" and "rel l (y_code s p)" and "rel l (y_code s q)" and "y_phase s p = On" and "y_phase s q = On"
  shows "p = q"
  using sinv_facts(3) [OF assms(1), of l p] sinv_facts(3) [OF assms(1), of l q] assms by simp

lemma kstep_off:
  assumes st: "kstep ch lk s t" and i: "sinv ch lk s" and lk: "\<forall>q. lk \<noteq> ProcLock q"
  shows "inv_off ch lk t"
proof -
  note f = sinv_facts [OF i]
  have "(y_state t p = SLEEPING \<or> y_state t p = RUNNABLE) \<and> y_chan t p = Some ch \<and>
     rel (ProcLock p) (y_code t p) \<and> (\<forall>q. q \<noteq> p \<longrightarrow> \<not> rel (ProcLock q) (y_code t p)) \<and> \<not> rel lk (y_code t p) \<and> (\<exists>c. y_code t p = Do (IChan None) # c) \<and> \<not> committed (y_code t p)" if "y_phase t p \<noteq> On" for p
    using st that
  proof cases
    case (sched_step q c)
    then show ?thesis using that f(1) [OF sched_step(3)] f(4) [of p] f(6) [OF sched_step(3)] by (auto simp: go_def rouse_def)
  qed (use f(4) [of p] that in \<open>auto simp: go_def rouse_def split: if_splits\<close>)
  then show ?thesis by (simp add: inv_off_def)
qed

lemma kstep_park:
  assumes st: "kstep ch lk s t" and i: "sinv ch lk s" and lk: "\<forall>q. lk \<noteq> ProcLock q"
  shows "inv_park ch t"
  using st
proof cases
  case (set_step p b c)
  note f = sinv_facts [OF i]
  have "q = p" if "y_code s q = SetCond False # c'" for q c'
  proof -
    have "rel lk (y_code s p)" "rel lk (y_code s q)" using f(1) [OF set_step(3)] f(1) [OF that] set_step(3) that by simp_all
    moreover have "y_phase s q = On" using f(4) [of q] that by auto
    ultimately show ?thesis using held_once [OF i] set_step(2) by blast
  qed
  moreover have "c \<noteq> SetCond False # c'" "c \<noteq> Do ISched # c'" "c \<noteq> Do ISleeping # c'" for c'
    using f(5) [OF set_step(3)] by auto
  ultimately show ?thesis using set_step f(6,7,8) unfolding inv_park_def go_def rouse_def by auto
next
  case (wake_step p q x c)
  note f = sinv_facts [OF i]
  have "y_code s q \<noteq> Do ISched # c'" for c'
  proof
    assume q: "y_code s q = Do ISched # c'"
    then have "rel (ProcLock q) (y_code s q)" "rel (ProcLock q) (y_code s p)" using f(1) [OF q] f(1) [OF wake_step(3)] wake_step(3) by simp_all
    moreover have "y_phase s q = On" using f(4) [of q] q by auto
    ultimately have "p = q" using held_once [OF i] wake_step(2) by blast
    then show False using q wake_step(3) by simp
  qed
  moreover have "c \<noteq> SetCond False # c'" "c \<noteq> Do ISched # c'" "c \<noteq> Do ISleeping # c'" for c'
    using f(5) [OF wake_step(3)] by auto
  ultimately show ?thesis using wake_step f(6,7,8) unfolding inv_park_def go_def rouse_def by auto
qed (use sinv_facts(6-8) [OF i] sinv_facts(1,4,5) [OF i] in \<open>auto simp: inv_park_def go_def rouse_def sleep_code_def dest: sinv_facts(5) [OF i]\<close>)

lemma committed_holds:
  assumes "sinv ch lk s" and "committed (y_code s p)"
  shows "y_phase s p = On" "nowake (y_code s p)" "rel lk (y_code s p) \<or> rel (ProcLock p) (y_code s p)"
proof -
  show "y_phase s p = On" using sinv_facts(4) [OF assms(1), of p] assms(2) by auto
  obtain i c where "y_code s p = i # c" using assms(2) by (cases "y_code s p") auto
  then show "nowake (y_code s p)" "rel lk (y_code s p) \<or> rel (ProcLock p) (y_code s p)"
    using sinv_facts(2) [OF assms(1), of p] assms(2) by (simp_all del: nowake_simps committed_simps)
qed

text \<open>A process that may be forgotten after a step could be before, and the holder keeps its promise.\<close>

lemma wake_kept:
  assumes i: "sinv ch lk s" and "y_cond s" and "committed (y_code s p) \<or> y_state s p = SLEEPING \<and> y_chan s p = Some ch"
    and "\<And>r. y_lock s lk = Some r \<Longrightarrow> Do (IWake p ch) \<in> set (y_code s r) \<Longrightarrow>
      y_lock t lk = Some r \<and> Do (IWake p ch) \<in> set (y_code t r)"
  shows "\<exists>q. y_lock t lk = Some q \<and> Do (IWake p ch) \<in> set (y_code t q)"
  using sinv_facts(9) [OF assms(1-3)] assms(4) by blast

text \<open>A scan that passes p finds it asleep, or p has not even taken its lock yet and holds the other one.\<close>

lemma wake_step_kept:
  assumes i: "sinv ch lk s" and q: "y_phase s q = On" "y_code s q = Do (IWake r ch) # c" and k: "committed (y_code s r)"
  shows False
proof -
  have h: "rel (ProcLock r) (y_code s q)" "rel lk (y_code s q)" using sinv_facts(1) [OF i q(2)] q(2) by simp_all
  note cm = committed_holds [OF i k]
  have "r = q" using cm(1,3) h held_once [OF i] q(1) by blast
  then show False using cm(2) q(2) by simp
qed

lemma set_step_covers:
  assumes i: "sinv ch lk s" and q: "y_phase s q = On" "y_code s q = SetCond True # c" and p: "y_code s p \<noteq> [] \<or> y_state s p = SLEEPING"
  shows "y_lock s lk = Some q" "Do (IWake p ch) \<in> set c"
proof -
  have h: "rel lk (y_code s q)" "\<forall>r < NPROC. Do (IWake r ch) \<in> set c" using sinv_facts(1) [OF i q(2)] q(2) by simp_all
  show "y_lock s lk = Some q" using sinv_facts(3) [OF i, of lk q] h(1) q(1) by simp
  have "p < NPROC" using i p by (auto simp: sinv_def inv_wf_def not_less [symmetric])
  then show "Do (IWake p ch) \<in> set c" using h(2) by blast
qed

lemma kstep_wake:
  assumes st: "kstep ch lk s t" and i: "sinv ch lk s" and lk: "\<forall>q. lk \<noteq> ProcLock q"
  shows "inv_wake ch lk t"
  unfolding inv_wake_def
proof (intro allI impI, elim conjE)
  fix p assume cond: "y_cond t" and pr: "committed (y_code t p) \<or> y_state t p = SLEEPING \<and> y_chan t p = Some ch"
  note f = sinv_facts [OF i]
  note keep = wake_kept [OF i]
  show "\<exists>q. y_lock t lk = Some q \<and> Do (IWake p ch) \<in> set (y_code t q)"
    using st
  proof cases
    case (release_step q l c)
    have "\<not> (y_lock s lk = Some q \<and> Do (IWake p ch) \<in> set (y_code s q))" if "l = lk"
      using f(1) [OF release_step(3)] release_step(3) that by (auto simp: nowake_def)
    then show ?thesis using release_step pr cond by (intro keep) (auto simp: go_def rouse_def split: if_splits)
  next
    case (wake_step q r x c)
    have x: "x = ch" using f(1) [OF wake_step(3)] by simp
    have "p \<noteq> r" if "Do (IWake p ch) \<notin> set c"
      using wake_step_kept [OF i wake_step(2) wake_step(3) [unfolded x]] pr wake_step(1,3) x by (auto simp: go_def rouse_def split: if_splits)
    then show ?thesis using wake_step pr cond x by (intro keep) (auto simp: go_def rouse_def split: if_splits)
  next
    case (set_step q b c)
    then have b: "b" using cond by (simp add: go_def rouse_def)
    have "y_code s p \<noteq> [] \<or> y_state s p = SLEEPING" using pr set_step(1,3) by (auto simp: go_def rouse_def split: if_splits)
    from set_step_covers [OF i set_step(2) set_step(3) [unfolded b [THEN eqTrueI]] this] show ?thesis
      using set_step(1) by (intro exI [of _ q]) (simp add: go_def rouse_def)
  next
    case (acquire_step q l c)
    then show ?thesis using pr cond by (intro keep) (auto simp: go_def rouse_def split: if_splits)
  next
    case (sleep_step q c)
    then show ?thesis using cond by (simp add: go_def rouse_def)
  next
    case (chan_step q x c)
    then show ?thesis using pr cond f(1) [OF chan_step(3)] by (intro keep) (auto simp: go_def rouse_def split: if_splits)
  next
    case (sleeping_step q c)
    then show ?thesis using pr cond by (intro keep) (auto simp: go_def rouse_def split: if_splits)
  next
    case (sched_step q c)
    then show ?thesis using pr cond f(1) [OF sched_step(3)] by (intro keep) (auto simp: go_def rouse_def split: if_splits)
  next
    case (done_step q c)
    then show ?thesis using pr cond f(1) [OF done_step(3)] by (intro keep) (auto simp: go_def rouse_def split: if_splits)
  next
    case (left_step q)
    then show ?thesis using pr cond lk by (intro keep) auto
  next
    case (pick_step q)
    then show ?thesis using pr cond lk by (intro keep) (auto split: if_splits)
  qed
qed

lemma sinv_kstep:
  assumes "kstep ch lk s t" and "sinv ch lk s" and "\<forall>q. lk \<noteq> ProcLock q"
  shows "sinv ch lk t"
  unfolding sinv_def using kstep_wf [OF assms] kstep_lock [OF assms] kstep_off [OF assms] kstep_park [OF assms] kstep_wake [OF assms]
  by simp

lemma sinv_start:
  assumes i: "sinv ch lk s" and p: "p < NPROC" "y_code s p = []" and w: "wf ch lk p c"
    and c: "\<And>l. \<not> rel l c" "\<not> committed c" "c = Do (IAcquire lk) # c'"
  shows "sinv ch lk (go p c s)"
proof -
  note f = sinv_facts [OF i]
  have on: "y_phase s p = On" using f(4) [of p] p(2) by auto
  have "inv_wf ch lk (go p c s)" using i w p(1) by (auto simp: sinv_def inv_wf_def go_def rouse_def)
  moreover have "inv_lock (go p c s)" using f(3) c(1) p(2) by (auto simp: inv_lock_def go_def rouse_def)
  moreover have "inv_off ch lk (go p c s)" using f(4) on by (simp add: inv_off_def go_def rouse_def)
  moreover have "inv_park ch (go p c s)" using f(6-8) c(3) by (auto simp: inv_park_def go_def rouse_def)
  moreover have "inv_wake ch lk (go p c s)"
    unfolding inv_wake_def
    by (intro allI impI, rule wake_kept [OF i]) (use c(2) p(2) in \<open>auto simp: go_def rouse_def split: if_splits\<close>)
  ultimately show ?thesis by (simp add: sinv_def)
qed

lemma sinv_kill:
  assumes i: "sinv ch lk s" and "y_lock s (ProcLock p) = None"
  shows "sinv ch lk (s\<lparr>y_state := (y_state s)(p := RUNNABLE)\<rparr>)"
proof -
  note f = sinv_facts [OF i]
  have "y_code s p \<noteq> Do ISched # c" for c
  proof
    assume c: "y_code s p = Do ISched # c"
    then have "y_phase s p = On" using f(4) [of p] by auto
    then show False using f(1) [OF c] f(3) [of "ProcLock p" p] c assms(2) by simp
  qed
  then show ?thesis using i
    by (auto simp: sinv_def inv_wf_def inv_lock_def inv_off_def inv_park_def inv_wake_def)
qed

lemma sinv_ustep:
  assumes "ustep ch lk s t" and i: "sinv ch lk s" and lk: "\<forall>q. lk \<noteq> ProcLock q"
  shows "sinv ch lk t"
  using assms(1)
proof cases
  case (wait_step p)
  then show ?thesis using sinv_start [OF i _ _ wf_wait [OF lk], of p] by (auto simp: wait_code_def)
next
  case (signal_step p)
  have "\<not> rel l (signal_code ch lk)" "\<not> committed (signal_code ch lk)" for l
    unfolding signal_code_eq using scan_facts(2,3) [OF lk] by auto
  then show ?thesis using sinv_start [OF i _ _ wf_signal [OF lk] _ _ signal_code_eq, of p] signal_step by auto
next
  case (kill_step p)
  then show ?thesis using sinv_kill [OF i] by simp
qed

lemma sinv_reach:
  assumes "sreach ch lk s" and lk: "\<forall>q. lk \<noteq> ProcLock q"
  shows "sinv ch lk s"
  using assms(1)
proof induction
  case (sreach_init b)
  show ?case by (auto simp: sinv_def inv_wf_def inv_lock_def inv_off_def inv_park_def inv_wake_def)
next
  case (sreach_step s t)
  then show ?case using sinv_kstep sinv_ustep lk by blast
qed

section \<open>Progress\<close>

lemma on_step:
  assumes i: "sinv ch lk s" and p: "y_phase s p = On" "y_code s p = j # c" and a: "\<And>l. j = Do (IAcquire l) \<Longrightarrow> y_lock s l = None"
  shows "\<exists>t. kstep ch lk s t"
proof -
  note f = sinv_facts [OF i]
  show ?thesis
  proof (cases j)
    case (Do x)
    then show ?thesis
    proof (cases x)
      case (IRelease l)
      then have "y_lock s l = Some p" using f(3) [of l p] p Do by simp
      then show ?thesis using release_step p Do IRelease by blast
    next
      case ISched
      then have "y_lock s (ProcLock p) = Some p" "y_state s p \<noteq> RUNNING"
        using f(1) [OF p(2)] f(3) [of "ProcLock p" p] f(6) [of p c] p Do by simp_all
      then show ?thesis using sched_step p Do ISched by blast
    qed (use p a Do in \<open>blast intro: kstep.intros\<close>)+
  next
    case Loop
    then show ?thesis using p by (cases "y_cond s") (blast intro: kstep.intros)+
  qed (use p in \<open>blast intro: kstep.intros\<close>)
qed

text \<open>When nothing can move, no lock is held, and every process in an operation sleeps, the condition being false.\<close>

lemma at_rest:
  assumes i: "sinv ch lk s" and no: "\<nexists>t. kstep ch lk s t" and lk: "\<forall>q. lk \<noteq> ProcLock q" and p: "y_code s p \<noteq> []"
  shows "y_phase s p = Off \<and> y_state s p = SLEEPING \<and> y_chan s p = Some ch \<and> \<not> y_cond s"
proof -
  note f = sinv_facts [OF i]
  have blocked: "\<exists>l c. y_code s r = Do (IAcquire l) # c \<and> y_lock s l \<noteq> None" if "y_phase s r = On" "y_code s r \<noteq> []" for r
    using on_step [OF i that(1)] that(2) no by (cases "y_code s r") blast+
  have pl: "y_lock s (ProcLock q) = None" for q
  proof (rule ccontr)
    assume "y_lock s (ProcLock q) \<noteq> None"
    then obtain r where r: "rel (ProcLock q) (y_code s r)" "\<not> (y_phase s r = Off \<and> q = r)" using f(3) by auto
    have "y_phase s r \<noteq> Leaving" using no left_step by blast
    then have "y_phase s r = On" using r f(4) [of r] by (cases "y_phase s r") auto
    then obtain l c where l: "y_code s r = Do (IAcquire l) # c" using blocked r(1) by fastforce
    then show False using f(1) [OF l] r(1) by (cases "l = ProcLock q") simp_all
  qed
  have lf: "y_lock s lk = None"
  proof (rule ccontr)
    assume "y_lock s lk \<noteq> None"
    then obtain r where r: "rel lk (y_code s r)" using f(3) by auto
    then have "y_phase s r = On" using f(4) [of r] by blast
    then obtain l c where l: "y_code s r = Do (IAcquire l) # c" "y_lock s l \<noteq> None" using blocked r by fastforce
    then show False using f(1) [OF l(1)] r pl by auto
  qed
  have "y_phase s p \<noteq> On"
  proof
    assume "y_phase s p = On"
    then obtain l c where "y_code s p = Do (IAcquire l) # c" "y_lock s l \<noteq> None" using blocked p by blast
    then show False using f(1) [of p "Do (IAcquire l)" c] pl lf by auto
  qed
  moreover have "y_phase s p \<noteq> Leaving" using no left_step by blast
  ultimately have off: "y_phase s p = Off" by (cases "y_phase s p") auto
  then have "y_state s p \<noteq> RUNNABLE" using no pick_step pl by blast
  then show ?thesis using f(4) [of p] f(9) [of p] off lf by auto
qed

section \<open>Running a schedule\<close>

text \<open>The step of process p, and the steps of a sequence of processes.\<close>

definition knext :: "chan \<Rightarrow> lock_id \<Rightarrow> nat \<Rightarrow> sys \<Rightarrow> sys option" where
  "knext ch lk p s =
     (case y_phase s p of
        Leaving \<Rightarrow> Some (s\<lparr>y_phase := (y_phase s)(p := Off), y_lock := (y_lock s)(ProcLock p := None)\<rparr>)
      | Off \<Rightarrow>
          if y_lock s (ProcLock p) = None \<and> y_state s p = RUNNABLE
          then Some (s\<lparr>y_phase := (y_phase s)(p := On), y_lock := (y_lock s)(ProcLock p := Some p),
            y_state := (y_state s)(p := RUNNING)\<rparr>)
          else None
      | On \<Rightarrow>
          (case y_code s p of
             [] \<Rightarrow> None
           | i # c \<Rightarrow>
               (case i of
                  Do (IAcquire l) \<Rightarrow>
                    if y_lock s l = None then Some (go p c (s\<lparr>y_lock := (y_lock s)(l := Some p)\<rparr>)) else None
                | Do (IRelease l) \<Rightarrow>
                    if y_lock s l = Some p then Some (go p c (s\<lparr>y_lock := (y_lock s)(l := None)\<rparr>)) else None
                | Do (IChan x) \<Rightarrow> Some (go p c (s\<lparr>y_chan := (y_chan s)(p := x)\<rparr>))
                | Do ISleeping \<Rightarrow> Some (go p c (s\<lparr>y_state := (y_state s)(p := SLEEPING)\<rparr>))
                | Do ISched \<Rightarrow>
                    if y_lock s (ProcLock p) = Some p \<and> y_state s p \<noteq> RUNNING
                    then Some (go p c (s\<lparr>y_phase := (y_phase s)(p := Leaving)\<rparr>)) else None
                | Do (IWake q x) \<Rightarrow> Some (go p c (rouse q x s))
                | SetCond b \<Rightarrow> Some (go p c (s\<lparr>y_cond := b\<rparr>))
                | Loop \<Rightarrow> Some (if y_cond s then go p c s else go p (map Do (sleep_code p ch lk) @ Loop # c) s))))"

fun krun :: "chan \<Rightarrow> lock_id \<Rightarrow> nat list \<Rightarrow> sys \<Rightarrow> sys option" where
  "krun ch lk [] s = Some s"
| "krun ch lk (p # ps) s = (case knext ch lk p s of None \<Rightarrow> None | Some t \<Rightarrow> krun ch lk ps t)"

lemma knext_kstep: "knext ch lk p s = Some t \<Longrightarrow> kstep ch lk s t"
  by (auto simp: knext_def intro: kstep.intros split: phase.splits list.splits cmd.splits instr.splits if_splits)

lemma krun_reach: "krun ch lk ps s = Some t \<Longrightarrow> sreach ch lk s \<Longrightarrow> sreach ch lk t"
  by (induction ps arbitrary: s) (auto split: option.splits dest: knext_kstep intro: sreach_step)

section \<open>Properties\<close>

text \<open>C27: a wakeup is not lost, however the processes that sleep and wake are interleaved. sleep and wakeup do
  exactly what their instruction lists do. In every state that processes can reach that run these
  lists one instruction at a time, a process that sleeps although the condition holds is still to be looked
  at by a wakeup: the holder of the lock has not yet scanned it. A process that
  leaves the waiting loop holds the lock and finds the condition true; release never panics, and a
  process calls sched with its own lock held and marked as sleeping. When no process can move any
  more, every process in an operation is asleep and the condition is false: there is no
  deadlock.\<close>

theorem sleep_wakeup_not_lost:
  assumes "\<forall>q. lk \<noteq> ProcLock q"
  shows "sleep sw ch lk = kbind curproc (\<lambda>p. exec sw p (sleep_code p ch lk)) \<and>
    (\<forall>p. wakeup ch = exec sw p (wakeup_code ch)) \<and>
    (sreach ch lk s \<longrightarrow>
      (\<forall>p. y_cond s \<and> y_state s p = SLEEPING \<and> y_chan s p = Some ch \<longrightarrow>
         (\<exists>q. y_lock s lk = Some q \<and> Do (IWake p ch) \<in> set (y_code s q))) \<and>
      (\<forall>p c. y_code s p = SetCond False # c \<longrightarrow> y_lock s lk = Some p \<and> y_cond s) \<and>
      (\<forall>p l c. y_phase s p = On \<and> y_code s p = Do (IRelease l) # c \<longrightarrow> y_lock s l = Some p) \<and>
      (\<forall>p c. y_code s p = Do ISched # c \<longrightarrow> y_lock s (ProcLock p) = Some p \<and> y_state s p = SLEEPING) \<and>
      ((\<nexists>t. kstep ch lk s t) \<longrightarrow>
         (\<forall>p. y_code s p \<noteq> [] \<longrightarrow> y_phase s p = Off \<and> y_state s p = SLEEPING \<and> \<not> y_cond s)))"
proof (intro conjI impI)
  show "sleep sw ch lk = kbind curproc (\<lambda>p. exec sw p (sleep_code p ch lk))" by (rule sleep_exec)
  show "\<forall>p. wakeup ch = exec sw p (wakeup_code ch)" using wakeup_exec by blast
  assume "sreach ch lk s"
  then have i: "sinv ch lk s" using sinv_reach assms by blast
  note f = sinv_facts [OF i]
  show "\<forall>p. y_cond s \<and> y_state s p = SLEEPING \<and> y_chan s p = Some ch \<longrightarrow>
         (\<exists>q. y_lock s lk = Some q \<and> Do (IWake p ch) \<in> set (y_code s q))" using f(9) by blast
  have on: "y_phase s p = On" if "y_code s p = j # c" "j \<noteq> Do (IChan None)" for p j c using f(4) [of p] that by auto
  show "\<forall>p c. y_code s p = SetCond False # c \<longrightarrow> y_lock s lk = Some p \<and> y_cond s"
  proof (intro allI impI conjI)
    fix p c assume c: "y_code s p = SetCond False # c"
    then show "y_lock s lk = Some p" using f(1) [OF c] f(3) [of lk p] on [OF c] by simp
    show "y_cond s" by (rule f(8) [OF c])
  qed
  show "\<forall>p l c. y_phase s p = On \<and> y_code s p = Do (IRelease l) # c \<longrightarrow> y_lock s l = Some p" using f(3) by simp
  show "\<forall>p c. y_code s p = Do ISched # c \<longrightarrow> y_lock s (ProcLock p) = Some p \<and> y_state s p = SLEEPING"
  proof (intro allI impI conjI)
    fix p c assume c: "y_code s p = Do ISched # c"
    then show "y_lock s (ProcLock p) = Some p" using f(1) [OF c] f(3) [of "ProcLock p" p] on [OF c] by simp
    show "y_state s p = SLEEPING" using f(6) [OF c] by simp
  qed
  show "\<forall>p. y_code s p \<noteq> [] \<longrightarrow> y_phase s p = Off \<and> y_state s p = SLEEPING \<and> \<not> y_cond s" if "\<nexists>t. kstep ch lk s t"
    using at_rest [OF i that assms] by blast
qed

text \<open>Process 0 goes to sleep, then process 1 takes the lock and makes the condition true.\<close>

definition demo_sys :: sys where
  "demo_sys = \<lparr>y_lock = (\<lambda>_. None), y_phase = (\<lambda>_. On), y_state = (\<lambda>_. RUNNING), y_chan = (\<lambda>_. None), y_cond = False,
     y_code = (\<lambda>_. [])(0 := wait_code TicksLock, 1 := signal_code ChTicks TicksLock)\<rparr>"

lemma demo_sys_reach: "sreach ChTicks TicksLock demo_sys"
proof -
  let ?i = "\<lparr>y_lock = (\<lambda>_. None), y_phase = (\<lambda>_. On), y_state = (\<lambda>_. RUNNING), y_chan = (\<lambda>_. None), y_cond = False, y_code = (\<lambda>_. [])\<rparr>"
  let ?w = "go 0 (wait_code TicksLock) ?i"
  have "ustep ChTicks TicksLock ?i ?w" by (rule wait_step) (simp_all add: NPROC_64)
  then have "sreach ChTicks TicksLock ?w" using sreach_step [OF sreach_init] by blast
  moreover have "ustep ChTicks TicksLock ?w (go 1 (signal_code ChTicks TicksLock) ?w)"
    by (rule signal_step) (simp_all add: NPROC_64 go_def)
  ultimately have "sreach ChTicks TicksLock (go 1 (signal_code ChTicks TicksLock) ?w)" using sreach_step by blast
  then show ?thesis by (simp add: go_def demo_sys_def)
qed

theorem sleep_wakeup_not_lost_witness:
  "\<exists>s q. krun ChTicks TicksLock [0, 0, 0, 0, 0, 0, 0, 0, 1, 1] demo_sys = Some s \<and> y_cond s \<and> y_state s 0 = SLEEPING \<and>
     y_lock s TicksLock = Some q \<and> Do (IWake 0 ChTicks) \<in> set (y_code s q)"
proof -
  obtain s where s: "krun ChTicks TicksLock [0, 0, 0, 0, 0, 0, 0, 0, 1, 1] demo_sys = Some s" "y_cond s" "y_state s 0 = SLEEPING"
    "y_chan s 0 = Some ChTicks"
    by (simp add: demo_sys_def knext_def wait_code_def signal_code_eq sleep_code_def go_def)
  have "sreach ChTicks TicksLock s" by (rule krun_reach [OF s(1) demo_sys_reach])
  then show ?thesis using sleep_wakeup_not_lost [of TicksLock "kret () :: (unit kproc_scheme, unit) km" ChTicks s] s by auto
qed

end
