(* ===== verification/Ulib.thy ===== *)
theory Ulib
  imports Memory
begin

text \<open>
  user/ulib.c: the string and memory functions of the user library. Where a function only reads C strings, a
  string is the list of its characters before the terminating zero; where it writes
  memory, it works on the byte memory of theory Memory.
\<close>

section \<open>Characters in strings\<close>

text \<open>strchr as the position of the character, if it occurs before the end of the C string.\<close>

fun strchr :: "string \<Rightarrow> char \<Rightarrow> nat option" where
  "strchr [] c = None"
| "strchr (x # s) c = (if x = CHR 0x00 then None else if x = c then Some 0 else map_option Suc (strchr s c))"

lemma strchr_less: "strchr s c = Some i \<Longrightarrow> i < length s"
  by (induction s arbitrary: i) (auto split: if_splits)

lemma strchr_None: "c \<notin> set s \<Longrightarrow> strchr s c = None"
  by (induction s) auto

lemma strchr_in: "CHR 0x00 \<notin> set s \<Longrightarrow> strchr s c = None \<longleftrightarrow> c \<notin> set s"
  by (induction s) auto

section \<open>Strings and memory\<close>

text \<open>A character as the value of an unsigned char.\<close>

abbreviation uchar :: "char \<Rightarrow> int" where "uchar c \<equiv> int (of_char c)"

fun ulib_strcmp :: "string \<Rightarrow> string \<Rightarrow> int" where
  "ulib_strcmp [] [] = 0"
| "ulib_strcmp [] (d # q) = - uchar d"
| "ulib_strcmp (c # p) [] = uchar c"
| "ulib_strcmp (c # p) (d # q) = (if c = d then ulib_strcmp p q else uchar c - uchar d)"

fun ulib_strcpy :: "memory \<Rightarrow> u64 \<Rightarrow> u8 list \<Rightarrow> memory" where
  "ulib_strcpy m s [] = m(s := 0)"
| "ulib_strcpy m s (c # t) = ulib_strcpy (m(s := c)) (s + 1) t"

definition ulib_strlen :: "string \<Rightarrow> u32" where
  "ulib_strlen s = of_nat (length s)"

definition ulib_memset :: "memory \<Rightarrow> u64 \<Rightarrow> int \<Rightarrow> u32 \<Rightarrow> memory" where
  "ulib_memset m dst c n = memset_loop m dst (of_int c) 0 (unat n)"

text \<open>The test decides between the two loops by the order of the blocks alone; a negative count copies nothing.\<close>

definition ulib_memmove :: "memory \<Rightarrow> u64 \<Rightarrow> u64 \<Rightarrow> int \<Rightarrow> memory" where
  "ulib_memmove m vdst vsrc n =
     (if vsrc > vdst then copy_fwd m vdst vsrc (nat n)
      else copy_back m (vdst + of_int n) (vsrc + of_int n) (nat n))"

definition ulib_memcpy :: "memory \<Rightarrow> u64 \<Rightarrow> u64 \<Rightarrow> u32 \<Rightarrow> memory" where
  "ulib_memcpy m dst src n = ulib_memmove m dst src (sint n)"

text \<open>The bytes are compared as unsigned, as char is on this machine.\<close>

fun ulib_memcmp :: "view \<Rightarrow> view \<Rightarrow> nat \<Rightarrow> int" where
  "ulib_memcmp p1 p2 0 = 0"
| "ulib_memcmp p1 p2 (Suc n) =
     (if p1 0 \<noteq> p2 0 then uint (p1 0) - uint (p2 0) else ulib_memcmp (adv p1) (adv p2) n)"

fun atoi_loop :: "u32 \<Rightarrow> string \<Rightarrow> u32" where
  "atoi_loop n [] = n"
| "atoi_loop n (c # s) =
     (if 48 \<le> uchar c \<and> uchar c \<le> 57 then atoi_loop (n * 10 + of_int (uchar c) - 48) s else n)"

definition atoi :: "string \<Rightarrow> u32" where
  "atoi s = atoi_loop 0 s"

lemma uchar_0: "uchar c = 0 \<longleftrightarrow> c = CHR 0x00"
proof -
  have "of_char c = (of_char (CHR 0x00) :: nat) \<longleftrightarrow> c = CHR 0x00" by (rule of_char_eq_iff)
  then show ?thesis by simp
qed

lemma sint_small: "(n :: u32) < 2 ^ 31 \<Longrightarrow> sint n = uint n"
proof -
  assume "n < 2 ^ 31"
  then have "uint n < 2 ^ 31" by (simp add: word_less_def)
  moreover have "- (2 ^ 31) \<le> uint n" by (rule order_trans [OF _ uint_ge_0]) simp
  ultimately show ?thesis by (auto simp: sint_uint signed_take_bit_int_eq_self_iff)
qed

lemma ulib_strcmp_zero: "ulib_strcmp p q = 0 \<longleftrightarrow> p = q" if "CHR 0x00 \<notin> set p" and "CHR 0x00 \<notin> set q"
  using that
proof (induction p q rule: ulib_strcmp.induct)
  case (4 c p d q)
  then show ?case by auto
qed (use uchar_0 in \<open>fastforce+\<close>)

text \<open>The library's memmove and that of the kernel choose between the loops differently, with the same effect.\<close>

lemma ulib_memmove_wr:
  assumes n: "0 \<le> n" "n < 2 ^ 31" and src: "unat src + nat n < 2 ^ 64" and dst: "unat dst + nat n \<le> 2 ^ 64"
  shows "ulib_memmove m dst src n = wr m dst (rd m src (nat n))"
proof (rule ext)
  fix x
  let ?n = "nat n"
  have n64: "?n \<le> 2 ^ 64" using n by simp
  have cn: "(of_int n :: u64) = of_nat ?n" using n(1) by simp
  have w: "wr m dst (rd m src ?n) x = (if unat (x - dst) < ?n then m (src + (x - dst)) else m x)"
    using n64 by (simp add: wr_apply)
  show "ulib_memmove m dst src n x = wr m dst (rd m src ?n) x"
  proof (cases "src > dst")
    case True
    then have "unat (dst - src) = 2 ^ 64 + unat dst - unat src"
      using unsigned_less [of src] by (simp add: word_less_nat_alt unat_sub_if')
    then have "?n \<le> unat (dst - src)" using True src by (simp add: word_less_nat_alt)
    then show ?thesis using True w copy_fwd_apply [of dst src ?n m x] n64 by (simp add: ulib_memmove_def)
  next
    case False
    have "unat (src - dst) = 0 \<or> ?n \<le> unat (src - dst)"
      using False dst by (auto simp: word_less_nat_alt unat_sub_if')
    then show ?thesis using False w copy_back_apply [of src dst ?n m x] n64 by (simp add: ulib_memmove_def cn)
  qed
qed

lemma ulib_strcpy_wr: "ulib_strcpy m s t = wr m s (t @ [0])"
  by (induction t arbitrary: m s) simp_all

section \<open>Properties\<close>

text \<open>The memory functions of the user library and of the kernel agree: the two versions of memmove, which
  decide differently in which direction to copy, leave the same memory for blocks that stay inside the address space,
  memcpy is memmove, and memset and memcmp give the same results.\<close>

theorem ulib_memory_as_kernel:
  assumes "n < 2 ^ 31" and "unat src + unat n < 2 ^ 64" and "unat dst + unat n \<le> 2 ^ 64"
  shows "ulib_memmove m dst src (sint n) = memmove m dst src n \<and> ulib_memcpy m dst src n = memmove m dst src n \<and>
    ulib_memset m dst c n = memset m dst c n \<and> ulib_memcmp p q k = memcmp p q k"
proof (intro conjI)
  have n: "sint n = int (unat n)" using sint_small [OF assms(1)] by simp
  then have "nat (sint n) = unat n" "0 \<le> sint n" by simp_all
  moreover have "sint n < 2 ^ 31" using sint_less [of n] by simp
  ultimately show "ulib_memmove m dst src (sint n) = memmove m dst src n"
    using ulib_memmove_wr [of "sint n" src dst m] memmove_wr [OF assms(2,3), of m] assms(2,3) by simp
  then show "ulib_memcpy m dst src n = memmove m dst src n" by (simp add: ulib_memcpy_def)
  show "ulib_memset m dst c n = memset m dst c n" by (simp add: ulib_memset_def memset_def)
  show "ulib_memcmp p q k = memcmp p q k" by (induction k arbitrary: p q) simp_all
qed

theorem ulib_memory_as_kernel_witness:
  "ulib_memmove (\<lambda>a. ucast a) 2 1 3 = memmove (\<lambda>a. ucast a) 2 1 3"
  using ulib_memory_as_kernel [of 3 1 2 "\<lambda>a. ucast a"] by simp

end
