(* ===== verification/Grep.thy ===== *)
theory Grep
  imports Ulib
begin

text \<open>
  user/grep.c: the pattern matcher and the line loop. A C string is the list of its characters before
  the terminating zero, so that advancing a pointer is taking the tail. The matcher is compared with the
  language that a pattern denotes.
\<close>

section \<open>The matcher\<close>

function (sequential) matchhere :: "string \<Rightarrow> string \<Rightarrow> bool"
  and matchstar :: "char \<Rightarrow> string \<Rightarrow> string \<Rightarrow> bool" where
  "matchhere [] tx = True"
| "matchhere (c # re) tx =
     (if re \<noteq> [] \<and> hd re = CHR ''*'' then matchstar c (tl re) tx
      else if c = CHR ''$'' \<and> re = [] then tx = []
      else if tx \<noteq> [] \<and> (c = CHR ''.'' \<or> c = hd tx) then matchhere re (tl tx)
      else False)"
| "matchstar c re tx =
     (if matchhere re tx then True
      else if tx \<noteq> [] \<and> (hd tx = c \<or> c = CHR ''.'') then matchstar c re (tl tx)
      else False)"
  by pat_completeness auto
termination
  by (relation "measure (\<lambda>x. case x of Inl (re, tx) \<Rightarrow> 2 * (length re + length tx)
      | Inr (c, re, tx) \<Rightarrow> 2 * (length re + length tx) + 1)") (auto simp: neq_Nil_conv)

text \<open>The do loop of match, which also looks at the empty rest.\<close>

fun match_from :: "string \<Rightarrow> string \<Rightarrow> bool" where
  "match_from re tx =
     (if matchhere re tx then True else case tx of [] \<Rightarrow> False | _ # t \<Rightarrow> match_from re t)"

definition match :: "string \<Rightarrow> string \<Rightarrow> bool" where
  "match re tx = (if re \<noteq> [] \<and> hd re = CHR ''^'' then matchhere (tl re) tx else match_from re tx)"

section \<open>What a pattern denotes\<close>

text \<open>
  A pattern is a sequence of items: a character, repeated or not, where a dot stands for any
  character; it may be bound to the end of the text.
\<close>

datatype item = One char | Many char

fun items :: "string \<Rightarrow> item list \<times> bool" where
  "items [] = ([], False)"
| "items (c # re) =
     (if re \<noteq> [] \<and> hd re = CHR ''*'' then (Many c # fst (items (tl re)), snd (items (tl re)))
      else if c = CHR ''$'' \<and> re = [] then ([], True)
      else (One c # fst (items re), snd (items re)))"

definition accepts :: "char \<Rightarrow> char \<Rightarrow> bool" where
  "accepts c x \<longleftrightarrow> c = CHR ''.'' \<or> c = x"

fun lang1 :: "item \<Rightarrow> string set" where
  "lang1 (One c) = {[x] | x. accepts c x}"
| "lang1 (Many c) = {u. \<forall>x \<in> set u. accepts c x}"

fun lang :: "item list \<Rightarrow> string set" where
  "lang [] = {[]}"
| "lang (i # is) = {u @ v | u v. u \<in> lang1 i \<and> v \<in> lang is}"

text \<open>The texts that begin with a word of the pattern, or are one.\<close>

definition denotes :: "string \<Rightarrow> string \<Rightarrow> bool" where
  "denotes re tx \<longleftrightarrow> (\<exists>u v. tx = u @ v \<and> u \<in> lang (fst (items re)) \<and> (snd (items re) \<longrightarrow> v = []))"

lemma denotes_Nil: "denotes [] tx"
  by (simp add: denotes_def)

lemma denotes_end: "denotes ''$'' tx \<longleftrightarrow> tx = []"
  by (simp add: denotes_def)

lemma lang_one: "w \<in> lang (One c # is) \<longleftrightarrow> (\<exists>x u. w = x # u \<and> accepts c x \<and> u \<in> lang is)"
proof
  assume "\<exists>x u. w = x # u \<and> accepts c x \<and> u \<in> lang is"
  then obtain x u where "w = [x] @ u" "[x] \<in> lang1 (One c)" "u \<in> lang is" by auto
  then show "w \<in> lang (One c # is)" unfolding lang.simps by blast
qed auto

lemma lang_many: "w \<in> lang (Many c # is) \<longleftrightarrow> (\<exists>u v. w = u @ v \<and> (\<forall>x \<in> set u. accepts c x) \<and> v \<in> lang is)"
  by auto

lemma denotes_one:
  assumes "\<not> (re \<noteq> [] \<and> hd re = CHR ''*'')" and "\<not> (c = CHR ''$'' \<and> re = [])"
  shows "denotes (c # re) tx \<longleftrightarrow> tx \<noteq> [] \<and> accepts c (hd tx) \<and> denotes re (tl tx)"
proof -
  have i: "items (c # re) = (One c # fst (items re), snd (items re))"
    unfolding items.simps if_not_P [OF assms(1)] if_not_P [OF assms(2)] ..
  have "denotes (c # re) tx \<longleftrightarrow> (\<exists>x u v. tx = (x # u) @ v \<and> accepts c x \<and> u \<in> lang (fst (items re)) \<and> (snd (items re) \<longrightarrow> v = []))"
    unfolding denotes_def i fst_conv snd_conv lang_one by blast
  then show ?thesis unfolding denotes_def by (cases tx) auto
qed

lemma denotes_star:
  assumes "re \<noteq> [] \<and> hd re = CHR ''*''"
  shows "denotes (c # re) tx \<longleftrightarrow> (\<exists>u v. tx = u @ v \<and> (\<forall>x \<in> set u. accepts c x) \<and> denotes (tl re) v)"
proof -
  have i: "items (c # re) = (Many c # fst (items (tl re)), snd (items (tl re)))" unfolding items.simps if_P [OF assms] ..
  have "denotes (c # re) tx \<longleftrightarrow>
    (\<exists>u w v. tx = (u @ w) @ v \<and> (\<forall>x \<in> set u. accepts c x) \<and> w \<in> lang (fst (items (tl re))) \<and> (snd (items (tl re)) \<longrightarrow> v = []))"
    unfolding denotes_def i fst_conv snd_conv lang_many by blast
  then show ?thesis unfolding denotes_def append_assoc by blast
qed

lemma star_unfold:
  "(\<exists>u v. tx = u @ v \<and> (\<forall>x \<in> set u. accepts c x) \<and> P v) \<longleftrightarrow>
   P tx \<or> tx \<noteq> [] \<and> accepts c (hd tx) \<and> (\<exists>u v. tl tx = u @ v \<and> (\<forall>x \<in> set u. accepts c x) \<and> P v)"
  (is "?l = ?r")
proof
  assume ?l
  then obtain u v where uv: "tx = u @ v" "\<forall>x \<in> set u. accepts c x" "P v" by blast
  then show ?r by (cases u) auto
next
  assume ?r
  then consider "P tx" | u v where "tx \<noteq> []" "accepts c (hd tx)" "tl tx = u @ v" "\<forall>x \<in> set u. accepts c x" "P v" by blast
  then show ?l
  proof cases
    case 1
    then show ?thesis by (intro exI [of _ Nil] exI [of _ tx]) simp
  next
    case 2
    then show ?thesis by (intro exI [of _ "hd tx # u"] exI [of _ v]) (cases tx, auto)
  qed
qed

lemma matchhere_denotes:
  "matchhere re tx = denotes re tx"
  "matchstar c re tx \<longleftrightarrow> (\<exists>u v. tx = u @ v \<and> (\<forall>x \<in> set u. accepts c x) \<and> denotes re v)"
proof (induction re tx and c re tx rule: matchhere_matchstar.induct)
  case (1 tx)
  then show ?case by (simp add: denotes_Nil)
next
  case (2 c re tx)
  consider (star) "re \<noteq> [] \<and> hd re = CHR ''*''" | (eol) "c = CHR ''$''" "re = []"
    | (one) "\<not> (re \<noteq> [] \<and> hd re = CHR ''*'')" "\<not> (c = CHR ''$'' \<and> re = [])" by blast
  then show ?case
  proof cases
    case star
    then show ?thesis using 2(1) by (simp add: denotes_star)
  next
    case eol
    then show ?thesis by (simp add: denotes_end)
  next
    case one
    have eq: "matchhere (c # re) tx = (if tx \<noteq> [] \<and> (c = CHR ''.'' \<or> c = hd tx) then matchhere re (tl tx) else False)"
      unfolding matchhere.simps if_not_P [OF one(1)] if_not_P [OF one(2)] ..
    show ?thesis
    proof (cases "tx \<noteq> [] \<and> (c = CHR ''.'' \<or> c = hd tx)")
      case True
      show ?thesis unfolding denotes_one [OF one] eq if_P [OF True] 2(2) [OF one True] accepts_def using True by blast
    next
      case False
      then show ?thesis unfolding denotes_one [OF one] eq if_not_P [OF False] accepts_def by blast
    qed
  qed
next
  case (3 c re tx)
  show ?case
  proof (cases "denotes re tx")
    case True
    then have "\<exists>u v. tx = u @ v \<and> (\<forall>x \<in> set u. accepts c x) \<and> denotes re v" by (subst star_unfold) simp
    then show ?thesis using 3(1) True by simp
  next
    case False
    then show ?thesis using 3 by (subst star_unfold) (auto simp: accepts_def)
  qed
qed

lemma match_from_denotes: "match_from re tx \<longleftrightarrow> (\<exists>w t. tx = w @ t \<and> denotes re t)"
proof (induction tx)
  case Nil
  then show ?case by (simp add: matchhere_denotes)
next
  case (Cons x tx)
  then show ?case by (subst match_from.simps) (auto simp: matchhere_denotes Cons_eq_append_conv)
qed

text \<open>C37: The matcher of grep is exact: it returns for every pattern and text, and accepts a text exactly when some part
  of it (its beginning, when the pattern starts with a caret; ending at its end, when the pattern ends with a
  dollar) is a word of the language that the items of the pattern denote.\<close>

theorem match_exact:
  "match re tx \<longleftrightarrow>
     (if re \<noteq> [] \<and> hd re = CHR ''^''
      then \<exists>u v. tx = u @ v \<and> u \<in> lang (fst (items (tl re))) \<and> (snd (items (tl re)) \<longrightarrow> v = [])
      else \<exists>w u v. tx = w @ u @ v \<and> u \<in> lang (fst (items re)) \<and> (snd (items re) \<longrightarrow> v = []))"
proof (cases "re \<noteq> [] \<and> hd re = CHR ''^''")
  case True
  then show ?thesis by (simp add: match_def matchhere_denotes denotes_def)
next
  case False
  then have "match re tx \<longleftrightarrow> (\<exists>w t. tx = w @ t \<and> denotes re t)" unfolding match_def if_not_P [OF False] by (metis match_from_denotes)
  then show ?thesis unfolding if_not_P [OF False] denotes_def by blast
qed

theorem match_exact_witness:
  "\<exists>w u v. ''abc'' = w @ u @ v \<and> u \<in> lang (fst (items ''b''))"
proof -
  have "match ''b'' ''abc''" by (simp add: match_def)
  then show ?thesis using match_exact [of "''b''" "''abc''"] by auto
qed

section \<open>The line loop\<close>

text \<open>
  The loop over the lines in the buffer: it writes the lines that match, and gives what is left after the last
  newline. The system call write is an argument.
\<close>

function grep_lines :: "(string \<Rightarrow> ('w, unit) km) \<Rightarrow> string \<Rightarrow> string \<Rightarrow> ('w, string) km" where
  "grep_lines put pattern p =
     (case strchr p CHR 0x0A of
        None \<Rightarrow> kret p
      | Some q \<Rightarrow>
          kseq (if match pattern (take q p) then put (take (Suc q) p) else kret ()) (
          grep_lines put pattern (drop (Suc q) p)))"
  by pat_completeness auto
termination
  by (relation "measure (\<lambda>(put, pattern, p). length p)") (auto dest: strchr_less)

declare grep_lines.simps [simp del]

text \<open>
  The outer loop. The system call read is an argument: given the number of bytes asked for, its return
  value and the bytes it puts into the buffer, which has room for 1024 with the terminating zero.
\<close>

definition grep :: "(nat \<Rightarrow> ('w, int \<times> string) km) \<Rightarrow> (string \<Rightarrow> ('w, unit) km) \<Rightarrow> string \<Rightarrow> ('w, unit) km" where
  "grep get put pattern =
     kiter (\<lambda>buf.
       kbind (get (1024 - length buf - 1)) (\<lambda>(n, bytes).
       if n > 0 then kbind (grep_lines put pattern (buf @ bytes)) (\<lambda>rest. kret (Inl rest))
       else kret (Inr ()))) []"

text \<open>The exit status; get and put take the descriptor first.\<close>

definition grep_main :: "(int \<Rightarrow> nat \<Rightarrow> ('w, int \<times> string) km) \<Rightarrow> (int \<Rightarrow> string \<Rightarrow> ('w, unit) km) \<Rightarrow>
    (string \<Rightarrow> ('w, int) km) \<Rightarrow> (int \<Rightarrow> ('w, unit) km) \<Rightarrow> string list \<Rightarrow> ('w, int) km" where
  "grep_main get put opn cls argv =
     (if length argv \<le> 1 then kseq (put 2 (''usage: grep pattern [file ...]'' @ [CHR 0x0A])) (kret 1)
      else if length argv \<le> 2 then kseq (grep (get 0) (put 1) (argv ! 1)) (kret 0)
      else kbind (kfind (drop 2 argv) (\<lambda>a.
          kbind (opn a) (\<lambda>fd.
          if fd < 0 then kseq (put 1 (''grep: cannot open '' @ a @ [CHR 0x0A])) (kret (Some 1))
          else kseq (grep (get fd) (put 1) (argv ! 1)) (kseq (cls fd) (kret None))))) (\<lambda>r.
        kret (case r of None \<Rightarrow> 0 | Some e \<Rightarrow> e)))"

section \<open>Lines do not depend on how they are read\<close>

text \<open>
  A file that is read in pieces: what is left to read, what has been written, and a counter into a
  sequence that says how large the pieces are at most. A piece is empty only at the end of the file, or when no
  byte was asked for.
\<close>

type_synonym stream = "string \<times> string \<times> nat"

definition read_piece :: "(nat \<Rightarrow> nat) \<Rightarrow> nat \<Rightarrow> (stream, int \<times> string) km" where
  "read_piece sz k = (\<lambda>(inp, out, t).
     let n = min k (min (length inp) (Suc (sz t))) in Inr ((int n, take n inp), (drop n inp, out, Suc t)))"

definition write_out :: "string \<Rightarrow> (stream, unit) km" where
  "write_out x = (\<lambda>(inp, out, t). Inr ((), (inp, out @ x, t)))"

text \<open>The lines of a text, and what follows the last newline.\<close>

fun split_lines :: "string \<Rightarrow> string list \<times> string" where
  "split_lines [] = ([], [])"
| "split_lines (c # s) =
     (let (ls, r) = split_lines s in
      if c = CHR 0x0A then ([] # ls, r) else case ls of [] \<Rightarrow> ([], c # r) | l # ls' \<Rightarrow> ((c # l) # ls', r))"

definition grep_out :: "string \<Rightarrow> string \<Rightarrow> string" where
  "grep_out pattern s = concat (map (\<lambda>l. l @ [CHR 0x0A]) (filter (match pattern) (fst (split_lines s))))"

lemma split_line: "CHR 0x0A \<notin> set l \<Longrightarrow> split_lines (l @ CHR 0x0A # s) = (l # fst (split_lines s), snd (split_lines s))"
  by (induction l) (auto simp: split_beta Let_def)

lemma split_rest: "CHR 0x0A \<notin> set r \<Longrightarrow> split_lines r = ([], r)"
  by (induction r) auto

lemma strchr_line: "CHR 0x00 \<notin> set l \<Longrightarrow> c \<notin> set l \<Longrightarrow> c \<noteq> CHR 0x00 \<Longrightarrow> strchr (l @ c # s) c = Some (length l)"
  by (induction l) auto

lemma line_cases:
  obtains "CHR 0x0A \<notin> set s" | l s' where "s = l @ CHR 0x0A # s'" "CHR 0x0A \<notin> set l"
  by (meson split_list_first)

lemma grep_lines_eq:
  assumes "CHR 0x00 \<notin> set p"
  shows "grep_lines write_out pattern p (inp, out, t) = Inr (snd (split_lines p), (inp, out @ grep_out pattern p, t))"
  using assms
proof (induction "length p" arbitrary: p out rule: less_induct)
  case less
  consider (rest) "CHR 0x0A \<notin> set p" | (line) l s where "p = l @ CHR 0x0A # s" "CHR 0x0A \<notin> set l" by (rule line_cases)
  then show ?case
  proof cases
    case rest
    then show ?thesis by (subst grep_lines.simps) (simp add: strchr_None split_rest grep_out_def kret_def)
  next
    case line
    then have q: "strchr p CHR 0x0A = Some (length l)" using less.prems by (simp add: strchr_line)
    have IH: "grep_lines write_out pattern s (inp, out', t) = Inr (snd (split_lines s), (inp, out' @ grep_out pattern s, t))" for out'
      using less.prems line by (intro less.hyps) auto
    have "grep_out pattern p = (if match pattern l then l @ [CHR 0x0A] else []) @ grep_out pattern s"
      using line by (simp add: grep_out_def split_line)
    then show ?thesis using line IH q by (subst grep_lines.simps) (simp add: kseq_def kbind_def write_out_def kret_def split_line)
  qed
qed

lemma split_append:
  "fst (split_lines (p @ s)) = fst (split_lines p) @ fst (split_lines (snd (split_lines p) @ s))"
  "snd (split_lines (p @ s)) = snd (split_lines (snd (split_lines p) @ s))"
proof (induction "length p" arbitrary: p rule: less_induct)
  case less
  case 1
  show ?case
  proof (cases p rule: line_cases)
    case 1
    then show ?thesis by (simp add: split_rest)
  next
    case (2 l q)
    then show ?thesis using less(1) [of q] by (simp add: split_line)
  qed
next
  case less
  case 2
  show ?case
  proof (cases p rule: line_cases)
    case 1
    then show ?thesis by (simp add: split_rest)
  next
    case (2 l q)
    then show ?thesis using less(2) [of q] by (simp add: split_line)
  qed
qed

definition short_lines :: "string \<Rightarrow> bool" where
  "short_lines s \<longleftrightarrow> (\<forall>l \<in> set (fst (split_lines s)). length l \<le> 1022) \<and> length (snd (split_lines s)) \<le> 1022"

lemma short_prefix:
  assumes "short_lines (buf @ inp)" and "CHR 0x0A \<notin> set buf"
  shows "length buf \<le> 1022"
proof (cases "buf @ inp" rule: line_cases)
  case 1
  then show ?thesis using assms(1) by (simp add: short_lines_def split_rest)
next
  case (2 l s')
  have "length buf \<le> length l"
  proof (rule ccontr)
    assume "\<not> length buf \<le> length l"
    then have "buf ! length l = (buf @ inp) ! length l" "length l < length buf" by (simp_all add: nth_append)
    then have "CHR 0x0A \<in> set buf" using 2(1) by (metis nth_append_length nth_mem)
    then show False using assms(2) by simp
  qed
  moreover have "length l \<le> 1022" using assms(1) 2 by (simp add: short_lines_def split_line)
  ultimately show ?thesis by simp
qed

lemma split_snd_clean: "CHR 0x0A \<notin> set (snd (split_lines s))" "set (snd (split_lines s)) \<subseteq> set s"
proof (induction s)
  case (Cons c s)
  case 1
  show ?case using Cons(1) by (auto simp: split_beta Let_def split: list.splits)
  case 2
  show ?case using Cons(2) by (auto simp: split_beta Let_def split: list.splits)
qed simp_all

lemma grep_loop:
  assumes "CHR 0x00 \<notin> set (buf @ inp)" and "CHR 0x0A \<notin> set buf" and "short_lines (buf @ inp)"
  shows "\<exists>t'. kiter (\<lambda>buf. kbind (read_piece sz (1024 - length buf - 1)) (\<lambda>(n, bytes).
       if n > 0 then kbind (grep_lines write_out pattern (buf @ bytes)) (\<lambda>rest. kret (Inl rest))
       else kret (Inr ()))) buf (inp, out, t) = Inr ((), ([], out @ grep_out pattern (buf @ inp), t'))"
  using assms
proof (induction "length inp" arbitrary: buf inp out t rule: less_induct)
  case less
  let ?n = "min (1024 - length buf - 1) (min (length inp) (Suc (sz t)))"
  let ?p = "buf @ take ?n inp"
  let ?r = "snd (split_lines ?p)"
  have get: "read_piece sz (1024 - length buf - 1) (inp, out, t) = Inr ((int ?n, take ?n inp), (drop ?n inp, out, Suc t))"
    by (simp add: read_piece_def Let_def)
  show ?case
  proof (cases "inp = []")
    case True
    then show ?thesis using get less.prems(2)
      by (subst kiter_unfold) (simp add: kbind_def kret_def grep_out_def split_rest)
  next
    case False
    then have n: "0 < ?n" using short_prefix [OF less.prems(3,2)] by simp
    have z: "CHR 0x00 \<notin> set ?p" using less.prems(1) by (auto dest: in_set_takeD)
    have zr: "CHR 0x00 \<notin> set ?r" using z split_snd_clean(2) [of ?p] by blast
    have gl: "grep_lines write_out pattern ?p (drop ?n inp, out, Suc t) = Inr (?r, (drop ?n inp, out @ grep_out pattern ?p, Suc t))"
      by (rule grep_lines_eq [OF z])
    have sp: "fst (split_lines (buf @ inp)) = fst (split_lines ?p) @ fst (split_lines (?r @ drop ?n inp))"
      "snd (split_lines (buf @ inp)) = snd (split_lines (?r @ drop ?n inp))"
      using split_append [of ?p "drop ?n inp"] by simp_all
    have "\<exists>t'. kiter (\<lambda>buf. kbind (read_piece sz (1024 - length buf - 1)) (\<lambda>(n, bytes).
       if n > 0 then kbind (grep_lines write_out pattern (buf @ bytes)) (\<lambda>rest. kret (Inl rest))
       else kret (Inr ()))) ?r (drop ?n inp, out @ grep_out pattern ?p, Suc t) =
       Inr ((), ([], (out @ grep_out pattern ?p) @ grep_out pattern (?r @ drop ?n inp), t'))"
    proof (rule less.hyps)
      show "length (drop ?n inp) < length inp" using n False by simp
      show "CHR 0x00 \<notin> set (?r @ drop ?n inp)" using zr less.prems(1) by (auto dest: in_set_dropD)
      show "CHR 0x0A \<notin> set ?r" by (rule split_snd_clean)
      show "short_lines (?r @ drop ?n inp)" using less.prems(3) unfolding short_lines_def sp by auto
    qed
    moreover have "grep_out pattern (buf @ inp) = grep_out pattern ?p @ grep_out pattern (?r @ drop ?n inp)"
      by (simp add: grep_out_def sp(1))
    moreover have "0 < int ?n" using n by linarith
    ultimately show ?thesis using get gl by (subst kiter_unfold) (simp only: kbind_Inr kbind_def sum.case prod.case if_True kret_def append_assoc)
  qed
qed

text \<open>Without file arguments the program is grep on its standard input, and its exit status is 0.\<close>

lemma grep_main_input:
  "grep (get 0) (put 1) pattern w = Inr ((), w') \<Longrightarrow> grep_main get put opn cls [name, pattern] w = Inr (0, w')"
  by (simp add: grep_main_def kseq_def kret_def)

text \<open>C38: grep prints exactly the matching lines, in order: on a file without zero bytes whose lines fit the buffer,
  whatever the sizes of the pieces that read delivers, grep reads to the end and its output is the
  concatenation of the complete lines that match, each with its newline.\<close>

theorem grep_prints_matching_lines:
  assumes "CHR 0x00 \<notin> set file" and "short_lines file"
  shows "\<exists>t. grep (read_piece sz) write_out pattern (file, [], 0) =
    Inr ((), ([], concat (map (\<lambda>l. l @ [CHR 0x0A]) (filter (match pattern) (fst (split_lines file)))), t))"
  using grep_loop [of Nil "file" sz pattern Nil 0] assms unfolding grep_def grep_out_def by simp

theorem grep_prints_matching_lines_witness:
  "\<exists>t. grep (read_piece (\<lambda>_. 3)) write_out ''b$'' (''ab'' @ [CHR 0x0A] @ ''ba'' @ [CHR 0x0A], [], 0) =
     Inr ((), ([], ''ab'' @ [CHR 0x0A], t))"
proof -
  have "match ''b$'' ''ab''" "\<not> match ''b$'' ''ba''" by (simp_all add: match_def)
  then show ?thesis
    using grep_prints_matching_lines [of "''ab'' @ [CHR 0x0A] @ ''ba'' @ [CHR 0x0A]" "\<lambda>_. 3" "''b$''"]
    by (simp add: short_lines_def)
qed

end
