(* ===== verification/Sh.thy ===== *)
theory Sh
  imports Ulib
begin

text \<open>
  user/sh.c: the shell. The parser works on positions in the command line; a token is the pair of the
  position where it starts and the one where it ends. The functions of the parser that call each other
  take a bound on the depth of the calls; parsecmd gives them one that always suffices.
\<close>

section \<open>Commands\<close>

definition MAXARGS :: nat where "MAXARGS = 10"

type_synonym tok = "nat \<times> nat"

datatype cmd =
    EXEC "tok list"
  | REDIR cmd tok u32 nat
  | PIPE cmd cmd
  | LIST cmd cmd
  | BACK cmd

section \<open>Tokens\<close>

definition whitespace :: string where "whitespace = [CHR '' '', CHR 0x09, CHR 0x0D, CHR 0x0A, CHR 0x0B]"
definition symbols :: string where "symbols = ''<|>&;()''"

definition ch :: "string \<Rightarrow> nat \<Rightarrow> char" where
  "ch t i = (if i < length t then t ! i else CHR 0x00)"

definition is_ws :: "char \<Rightarrow> bool" where "is_ws c \<longleftrightarrow> strchr whitespace c \<noteq> None"
definition is_sym :: "char \<Rightarrow> bool" where "is_sym c \<longleftrightarrow> strchr symbols c \<noteq> None"

function skip_ws :: "string \<Rightarrow> nat \<Rightarrow> nat" where
  "skip_ws t s = (if s < length t \<and> is_ws (ch t s) then skip_ws t (Suc s) else s)"
  by pat_completeness auto
termination
  by (relation "measure (\<lambda>(t, s). length t - s)") auto

function word_end :: "string \<Rightarrow> nat \<Rightarrow> nat" where
  "word_end t s = (if s < length t \<and> \<not> is_ws (ch t s) \<and> \<not> is_sym (ch t s) then word_end t (Suc s) else s)"
  by pat_completeness auto
termination
  by (relation "measure (\<lambda>(t, s). length t - s)") auto

declare skip_ws.simps [simp del] word_end.simps [simp del]

text \<open>gettoken gives the kind of the token, the token, and the position after it and the white space behind it.\<close>

definition token_at :: "string \<Rightarrow> nat \<Rightarrow> char \<times> nat" where
  "token_at t s =
     (let c = ch t s in
      if c = CHR 0x00 then (c, s)
      else if c \<in> set ''|();&<'' then (c, Suc s)
      else if c = CHR ''>'' then (if ch t (Suc s) = CHR ''>'' then (CHR ''+'', Suc (Suc s)) else (c, Suc s))
      else (CHR ''a'', word_end t s))"

definition gettoken :: "string \<Rightarrow> nat \<Rightarrow> char \<times> tok \<times> nat" where
  "gettoken t s =
     (let q = skip_ws t s; (ret, eq) = token_at t q
      in (ret, (q, eq), skip_ws t eq))"

definition peek :: "string \<Rightarrow> nat \<Rightarrow> string \<Rightarrow> bool \<times> nat" where
  "peek t s toks =
     (let s' = skip_ws t s in (ch t s' \<noteq> CHR 0x00 \<and> strchr toks (ch t s') \<noteq> None, s'))"

lemma skip_ws_ge: "s \<le> skip_ws t s"
  by (induction t s rule: skip_ws.induct) (subst skip_ws.simps, auto)

lemma word_end_ge: "s \<le> word_end t s"
  by (induction t s rule: word_end.induct) (subst word_end.simps, auto)

lemma ws_chars: "is_ws c \<longleftrightarrow> c \<in> set whitespace" and sym_chars: "is_sym c \<longleftrightarrow> c \<in> set symbols"
  by (simp_all add: is_ws_def is_sym_def strchr_in whitespace_def symbols_def)

lemma skip_ws_stop: "skip_ws t s < length t \<Longrightarrow> \<not> is_ws (ch t (skip_ws t s))"
  by (induction t s rule: skip_ws.induct) (subst skip_ws.simps, subst (asm) skip_ws.simps, auto split: if_splits)

lemma skip_ws_bound: "s \<le> length t \<Longrightarrow> skip_ws t s \<le> length t"
  by (induction t s rule: skip_ws.induct) (subst skip_ws.simps, auto)

lemma word_end_bound: "s \<le> length t \<Longrightarrow> word_end t s \<le> length t"
  by (induction t s rule: word_end.induct) (subst word_end.simps, auto)

lemma ch_NUL: "ch t s \<noteq> CHR 0x00 \<Longrightarrow> s < length t"
  by (simp add: ch_def split: if_splits)

text \<open>A token that is not the end of the line takes at least one character.\<close>

lemma token_at_moves:
  assumes "ch t s \<noteq> CHR 0x00" and "\<not> is_ws (ch t s)"
  shows "s < snd (token_at t s)" and "snd (token_at t s) \<le> length t"
proof -
  have l: "s < length t" using assms(1) by (rule ch_NUL)
  consider (sym) "ch t s \<in> set ''|();&<''" | (gt) "ch t s = CHR ''>''"
    | (word) "ch t s \<notin> set ''|();&<''" "ch t s \<noteq> CHR ''>''" by blast
  then have "s < snd (token_at t s) \<and> snd (token_at t s) \<le> length t"
  proof cases
    case word
    then have "\<not> is_sym (ch t s)" by (auto simp: sym_chars symbols_def)
    then have "word_end t s = word_end t (Suc s)" using assms(2) l by (subst word_end.simps) simp
    moreover have "Suc s \<le> word_end t (Suc s)" "word_end t (Suc s) \<le> length t" using word_end_ge word_end_bound l by simp_all
    moreover have "token_at t s = (CHR ''a'', word_end t s)" using word assms(1) by (simp add: token_at_def Let_def)
    ultimately show ?thesis by simp
  qed (use assms l ch_NUL [of t "Suc s"] in \<open>auto simp: token_at_def Let_def\<close>)
  then show "s < snd (token_at t s)" and "snd (token_at t s) \<le> length t" by simp_all
qed

lemma gettoken_moves:
  assumes "s \<le> length t" and "gettoken t s = (c, (q, e), s')"
  shows "c \<noteq> CHR 0x00 \<Longrightarrow> s < s'" and "s \<le> s'" and "s' \<le> length t"
proof -
  have q: "q = skip_ws t s" "e = snd (token_at t q)" "c = fst (token_at t q)" "s' = skip_ws t e"
    using assms(2) by (auto simp: gettoken_def Let_def split_beta)
  have ql: "s \<le> q" "q \<le> length t" using skip_ws_ge skip_ws_bound assms(1) q(1) by simp_all
  have c0: "c = CHR 0x00 \<longleftrightarrow> ch t q = CHR 0x00" by (auto simp: q(3) token_at_def Let_def)
  have mv: "q < e \<and> e \<le> length t" if "c \<noteq> CHR 0x00"
  proof -
    have "ch t q \<noteq> CHR 0x00" using that c0 by simp
    moreover have "\<not> is_ws (ch t q)" using skip_ws_stop ch_NUL [OF calculation] q(1) by blast
    ultimately show ?thesis using token_at_moves [of t q] q(2) by blast
  qed
  have e0: "e = q" if "c = CHR 0x00" using that c0 by (simp add: q(2) token_at_def Let_def)
  have "q \<le> e" "e \<le> length t" using mv e0 ql by fastforce+
  then show "s \<le> s'" "s' \<le> length t" using ql skip_ws_ge [of e t] skip_ws_bound [of e t] q(4) by simp_all
  show "s < s'" if "c \<noteq> CHR 0x00" using mv [OF that] ql skip_ws_ge [of e t] q(4) by simp
qed

lemma peek_moves:
  assumes "s \<le> length t" and "peek t s toks = (b, s')"
  shows "s \<le> s'" and "s' \<le> length t" and "b \<Longrightarrow> ch t s' \<noteq> CHR 0x00 \<and> s' < length t"
  using assms skip_ws_ge skip_ws_bound ch_NUL by (auto simp: peek_def Let_def)

lemma skip_ws_idem: "skip_ws t (skip_ws t s) = skip_ws t s"
  using skip_ws_stop [of t s] by (subst skip_ws.simps) auto

lemma peek_True:
  assumes "peek t s toks = (True, s1)"
  shows "s \<le> s1" and "s1 < length t" and "ch t s1 \<noteq> CHR 0x00" and "skip_ws t s1 = s1" and "strchr toks (ch t s1) \<noteq> None"
  using assms skip_ws_ge ch_NUL skip_ws_idem by (auto simp: peek_def Let_def)

lemma gettoken_after_peek:
  assumes "peek t s toks = (True, s1)" and "gettoken t s1 = (c, tk, s2)"
  shows "s < s2" and "s2 \<le> length t" and "c \<noteq> CHR 0x00"
proof -
  note p = peek_True [OF assms(1)]
  show c: "c \<noteq> CHR 0x00" using assms(2) p(3,4) by (auto simp: gettoken_def token_at_def Let_def split: if_splits)
  obtain q e where tk: "tk = (q, e)" by (cases tk)
  note g = gettoken_moves [OF less_imp_le [OF p(2)] assms(2) [unfolded tk]]
  show "s < s2" using g(1) [OF c] p(1) by simp
  show "s2 \<le> length t" by (rule g(3))
qed

lemma redir_step:
  assumes "peek t s toks = (True, s1)" and "gettoken t s1 = (c, tk, s2)" and "gettoken t s2 = (c2, tk2, s3)"
  shows "length t - s3 < length t - s"
proof -
  have "s < s2" "s2 \<le> length t" using gettoken_after_peek [OF assms(1,2)] by simp_all
  moreover have "s2 \<le> s3" "s3 \<le> length t" using gettoken_moves [OF \<open>s2 \<le> length t\<close>] assms(3) by (cases tk2; blast)+
  ultimately show ?thesis by simp
qed

section \<open>The parser\<close>

text \<open>The result of parsing: a value and the position reached, a panic, or the bound on the depth was too small.\<close>

datatype 'a pres = Parsed 'a nat | Panicked string | Too_deep

definition pbind :: "'a pres \<Rightarrow> ('a \<Rightarrow> nat \<Rightarrow> 'b pres) \<Rightarrow> 'b pres" where
  "pbind r f = (case r of Parsed x s \<Rightarrow> f x s | Panicked m \<Rightarrow> Panicked m | Too_deep \<Rightarrow> Too_deep)"

definition redir_mode :: "char \<Rightarrow> u32 \<times> nat" where
  "redir_mode c =
     (if c = CHR ''<'' then (O_RDONLY, 0)
      else if c = CHR ''>'' then (O_WRONLY OR O_CREATE OR O_TRUNC, 1)
      else (O_WRONLY OR O_CREATE, 1))"

text \<open>
  parseredirs wraps the command it is given. The caller parseexec goes on adding arguments to
  the innermost command through a pointer to it, so the redirections are collected here in the
  order in which they are read, and wrapped around the command by redirs.
\<close>

definition redircmd :: "cmd \<Rightarrow> tok \<times> u32 \<times> nat \<Rightarrow> cmd" where
  "redircmd c r = (case r of (file, mode, fd) \<Rightarrow> REDIR c file mode fd)"

definition redirs :: "cmd \<Rightarrow> (tok \<times> u32 \<times> nat) list \<Rightarrow> cmd" where
  "redirs = foldl redircmd"

function parseredirs :: "string \<Rightarrow> nat \<Rightarrow> (tok \<times> u32 \<times> nat) list pres" where
  "parseredirs t s =
     (case peek t s ''<>'' of
        (False, s1) \<Rightarrow> Parsed [] s1
      | (True, s1) \<Rightarrow>
          (case gettoken t s1 of (tok, _, s2) \<Rightarrow>
           case gettoken t s2 of (tok2, fl, s3) \<Rightarrow>
           if tok2 \<noteq> CHR ''a'' then Panicked ''missing file for redirection''
           else pbind (parseredirs t s3) (\<lambda>rs s4. Parsed ((fl, redir_mode tok) # rs) s4)))"
  by pat_completeness auto
termination
proof (relation "measure (\<lambda>(t, s). length t - s)")
  fix t s x y xa ya xb yb xc yc xd yd
  assume "(x, y) = peek t s ''<>''" "x = True" "(xa, ya) = gettoken t y" "(xb, yb) = ya" "(xc, yc) = gettoken t yb" "(xd, yd) = yc"
  then have "length t - yd < length t - s" using redir_step [of t s _ y xa xb yb xc xd yd] by metis
  then show "((t, yd), t, s) \<in> measure (\<lambda>(t, s). length t - s)" by simp
qed simp

declare parseredirs.simps [simp del]

text \<open>The arguments of a simple command, with the redirections between them.\<close>

function parseargs :: "string \<Rightarrow> tok list \<Rightarrow> (tok \<times> u32 \<times> nat) list \<Rightarrow> nat \<Rightarrow> cmd pres" where
  "parseargs t argv rs s =
     (case peek t s ''|)&;'' of
        (True, s1) \<Rightarrow> Parsed (redirs (EXEC argv) rs) s1
      | (False, s1) \<Rightarrow>
          (case gettoken t s1 of (tok, q, s2) \<Rightarrow>
           if tok = CHR 0x00 then Parsed (redirs (EXEC argv) rs) s2
           else if tok \<noteq> CHR ''a'' then Panicked ''syntax''
           else if length argv + 1 \<ge> MAXARGS then Panicked ''too many args''
           else (case parseredirs t s2 of
               Parsed rs' s3 \<Rightarrow> parseargs t (argv @ [q]) (rs @ rs') s3
             | Panicked m \<Rightarrow> Panicked m
             | Too_deep \<Rightarrow> Too_deep)))"
  by pat_completeness auto
termination
  by (relation "measure (\<lambda>(t, argv, rs, s). MAXARGS - length argv)") auto

declare parseargs.simps [simp del]

fun back_loop :: "nat \<Rightarrow> string \<Rightarrow> cmd \<Rightarrow> nat \<Rightarrow> cmd pres" where
  "back_loop 0 t c s = Too_deep"
| "back_loop (Suc k) t c s =
     (case peek t s ''&'' of
        (False, s1) \<Rightarrow> Parsed c s1
      | (True, s1) \<Rightarrow> (case gettoken t s1 of (_, _, s2) \<Rightarrow> back_loop k t (BACK c) s2))"

fun parseline :: "nat \<Rightarrow> string \<Rightarrow> nat \<Rightarrow> cmd pres"
  and parsepipe :: "nat \<Rightarrow> string \<Rightarrow> nat \<Rightarrow> cmd pres"
  and parseexec :: "nat \<Rightarrow> string \<Rightarrow> nat \<Rightarrow> cmd pres"
  and parseblock :: "nat \<Rightarrow> string \<Rightarrow> nat \<Rightarrow> cmd pres" where
  "parseline 0 t s = Too_deep"
| "parseline (Suc k) t s =
     pbind (parsepipe k t s) (\<lambda>c s1.
     pbind (back_loop (Suc (length t)) t c s1) (\<lambda>c s2.
     case peek t s2 '';'' of
       (False, s3) \<Rightarrow> Parsed c s3
     | (True, s3) \<Rightarrow> (case gettoken t s3 of (_, _, s4) \<Rightarrow>
         pbind (parseline k t s4) (\<lambda>r s5. Parsed (LIST c r) s5))))"
| "parsepipe 0 t s = Too_deep"
| "parsepipe (Suc k) t s =
     pbind (parseexec k t s) (\<lambda>c s1.
     case peek t s1 ''|'' of
       (False, s2) \<Rightarrow> Parsed c s2
     | (True, s2) \<Rightarrow> (case gettoken t s2 of (_, _, s3) \<Rightarrow>
         pbind (parsepipe k t s3) (\<lambda>r s4. Parsed (PIPE c r) s4)))"
| "parseexec 0 t s = Too_deep"
| "parseexec (Suc k) t s =
     (case peek t s ''('' of
        (True, s1) \<Rightarrow> parseblock k t s1
      | (False, s1) \<Rightarrow> pbind (parseredirs t s1) (\<lambda>rs s2. parseargs t [] rs s2))"
| "parseblock 0 t s = Too_deep"
| "parseblock (Suc k) t s =
     (case peek t s ''('' of
        (False, s1) \<Rightarrow> Panicked ''parseblock''
      | (True, s1) \<Rightarrow> (case gettoken t s1 of (_, _, s2) \<Rightarrow>
          pbind (parseline k t s2) (\<lambda>c s3.
          case peek t s3 '')'' of
            (False, s4) \<Rightarrow> Panicked ''syntax - missing )''
          | (True, s4) \<Rightarrow> (case gettoken t s4 of (_, _, s5) \<Rightarrow>
              pbind (parseredirs t s5) (\<lambda>rs s6. Parsed (redirs c rs) s6)))))"

definition depth :: "string \<Rightarrow> nat" where
  "depth t = 4 * length t + 4"

definition parsecmd :: "string \<Rightarrow> cmd pres" where
  "parsecmd t =
     pbind (parseline (depth t) t 0) (\<lambda>c s.
     case peek t s '''' of (_, s') \<Rightarrow> if s' \<noteq> length t then Panicked ''syntax'' else Parsed c s')"

section \<open>The parser returns, and its tokens are words\<close>

text \<open>A word of the line: no white space and no symbol in it, and it does not end before it has to.\<close>

definition word_tok :: "string \<Rightarrow> tok \<Rightarrow> bool" where
  "word_tok t w \<longleftrightarrow> fst w < snd w \<and> snd w \<le> length t \<and>
     (\<forall>i. fst w \<le> i \<and> i < snd w \<longrightarrow> \<not> is_ws (ch t i) \<and> \<not> is_sym (ch t i)) \<and>
     (snd w < length t \<longrightarrow> is_ws (ch t (snd w)) \<or> is_sym (ch t (snd w)))"

fun toks :: "cmd \<Rightarrow> tok list" where
  "toks (EXEC argv) = argv"
| "toks (REDIR c w m fd) = toks c @ [w]"
| "toks (PIPE a b) = toks a @ toks b"
| "toks (LIST a b) = toks a @ toks b"
| "toks (BACK c) = toks c"

lemma word_end_word: "s \<le> i \<Longrightarrow> i < word_end t s \<Longrightarrow> \<not> is_ws (ch t i) \<and> \<not> is_sym (ch t i)"
proof (induction t s rule: word_end.induct)
  case (1 t s)
  show ?case
  proof (cases "s < length t \<and> \<not> is_ws (ch t s) \<and> \<not> is_sym (ch t s)")
    case True
    then have "i < word_end t (Suc s)" using 1(3) by (subst (asm) word_end.simps) simp
    then show ?thesis using 1(1) [OF True] 1(2) True by (cases "s = i") auto
  next
    case False
    then have "word_end t s = s" by (subst word_end.simps) auto
    then show ?thesis using 1(2,3) by simp
  qed
qed

lemma word_end_stop: "word_end t s < length t \<Longrightarrow> is_ws (ch t (word_end t s)) \<or> is_sym (ch t (word_end t s))"
proof (induction t s rule: word_end.induct)
  case (1 t s)
  show ?case
  proof (cases "s < length t \<and> \<not> is_ws (ch t s) \<and> \<not> is_sym (ch t s)")
    case True
    then have "word_end t s = word_end t (Suc s)" by (subst word_end.simps) simp
    then show ?thesis using 1(1) [OF True] 1(2) by simp
  next
    case False
    then have "word_end t s = s" by (subst word_end.simps) auto
    then show ?thesis using False 1(2) by auto
  qed
qed

lemma gettoken_word:
  assumes "s \<le> length t" and "gettoken t s = (CHR ''a'', w, s')"
  shows "word_tok t w"
proof -
  define q where "q = skip_ws t s"
  have w: "w = (q, snd (token_at t q))" "fst (token_at t q) = CHR ''a''"
    using assms(2) by (auto simp: gettoken_def Let_def split_beta q_def)
  then have c: "ch t q \<noteq> CHR 0x00" "token_at t q = (CHR ''a'', word_end t q)"
    by (auto simp: token_at_def Let_def split: if_splits)
  have "\<not> is_ws (ch t q)" using skip_ws_stop [of t s] ch_NUL [OF c(1)] by (simp add: q_def)
  then have "q < word_end t q" "word_end t q \<le> length t" using token_at_moves [OF c(1)] c(2) by simp_all
  then show ?thesis using word_end_word [of q _ t] word_end_stop [of t q] w(1) c(2) by (auto simp: word_tok_def)
qed

text \<open>A good result: not cut off, the position moved forward within the line, and what was parsed satisfies P.\<close>

definition good :: "('a \<Rightarrow> bool) \<Rightarrow> string \<Rightarrow> nat \<Rightarrow> 'a pres \<Rightarrow> bool" where
  "good P t s r \<longleftrightarrow> (case r of Parsed x s' \<Rightarrow> P x \<and> s \<le> s' \<and> s' \<le> length t | Panicked m \<Rightarrow> True | Too_deep \<Rightarrow> False)"

lemma good_simps [simp]:
  "good P t s (Parsed x s') \<longleftrightarrow> P x \<and> s \<le> s' \<and> s' \<le> length t" "good P t s (Panicked m)" "\<not> good P t s Too_deep"
  by (simp_all add: good_def)

lemma good_later: "good P t s1 r \<Longrightarrow> s \<le> s1 \<Longrightarrow> good P t s r"
  by (cases r) auto

lemma good_pbind:
  "good P t s r \<Longrightarrow> (\<And>x s1. P x \<Longrightarrow> s \<le> s1 \<Longrightarrow> s1 \<le> length t \<Longrightarrow> good Q t s (f x s1)) \<Longrightarrow> good Q t s (pbind r f)"
  by (cases r) (auto simp: pbind_def)

text \<open>Redirections are of the standard input or output only.\<close>

fun std_redirs :: "cmd \<Rightarrow> bool" where
  "std_redirs (EXEC argv) \<longleftrightarrow> True"
| "std_redirs (REDIR c w m fd) \<longleftrightarrow> fd \<le> 1 \<and> std_redirs c"
| "std_redirs (PIPE a b) \<longleftrightarrow> std_redirs a \<and> std_redirs b"
| "std_redirs (LIST a b) \<longleftrightarrow> std_redirs a \<and> std_redirs b"
| "std_redirs (BACK c) \<longleftrightarrow> std_redirs c"

definition words :: "string \<Rightarrow> cmd \<Rightarrow> bool" where
  "words t c \<longleftrightarrow> (\<forall>w \<in> set (toks c). word_tok t w) \<and> std_redirs c"

lemma std_redirs_redirs: "std_redirs (redirs c rs) \<longleftrightarrow> std_redirs c \<and> (\<forall>r \<in> set rs. snd (snd r) \<le> 1)"
  by (induction rs arbitrary: c) (auto simp: redirs_def redircmd_def)

lemma toks_redirs: "set (toks (redirs c rs)) = set (toks c) \<union> set (map fst rs)"
  by (induction rs arbitrary: c) (auto simp: redirs_def redircmd_def)

abbreviation rwords :: "string \<Rightarrow> (tok \<times> u32 \<times> nat) list \<Rightarrow> bool" where
  "rwords t rs \<equiv> \<forall>r \<in> set rs. word_tok t (fst r) \<and> snd (snd r) \<le> 1"

lemma parseredirs_good: "s \<le> length t \<Longrightarrow> good (rwords t) t s (parseredirs t s)"
proof (induction t s rule: parseredirs.induct)
  case (1 t s)
  obtain b s1 where p: "peek t s ''<>'' = (b, s1)" by fastforce
  note pm = peek_moves [OF 1(2) p]
  show ?case
  proof (cases b)
    case False
    then show ?thesis using p pm by (subst parseredirs.simps) auto
  next
    case True
    obtain c tk s2 c2 tk2 s3 where g: "gettoken t s1 = (c, tk, s2)" "gettoken t s2 = (c2, tk2, s3)" by (metis prod_cases3)
    have m: "s < s2" "s2 \<le> length t" using gettoken_after_peek [of t s _ s1] p True g(1) by auto
    then have m3: "s2 \<le> s3" "s3 \<le> length t" using gettoken_moves [of s2 t c2 "fst tk2" "snd tk2" s3] g(2) by auto
    have eq: "parseredirs t s = (if c2 \<noteq> CHR ''a'' then Panicked ''missing file for redirection''
        else pbind (parseredirs t s3) (\<lambda>rs s4. Parsed ((tk2, redir_mode c) # rs) s4))"
      by (subst parseredirs.simps) (simp add: p True g)
    show ?thesis
    proof (cases "c2 = CHR ''a''")
      case c2: True
      have "word_tok t tk2 \<and> snd (redir_mode c) \<le> 1" using gettoken_word [OF m(2)] g(2) c2 by (simp add: redir_mode_def)
      moreover have "good (rwords t) t s3 (parseredirs t s3)"
        using 1(1) [OF p [symmetric] _ g(1) [symmetric] refl g(2) [symmetric] refl] True c2 m3 by simp
      then have "good (rwords t) t s (parseredirs t s3)" by (rule good_later) (use m m3 in simp)
      ultimately show ?thesis unfolding eq using c2 by (simp, intro good_pbind [where P = "rwords t"]) auto
    qed (simp add: eq)
  qed
qed

lemma parseargs_good:
  "s \<le> length t \<Longrightarrow> \<forall>w \<in> set argv. word_tok t w \<Longrightarrow> rwords t rs \<Longrightarrow> good (words t) t s (parseargs t argv rs s)"
proof (induction t argv rs s rule: parseargs.induct)
  case (1 t argv rs s)
  obtain b s1 where p: "peek t s ''|)&;'' = (b, s1)" by fastforce
  note pm = peek_moves [OF 1(2) p]
  have w: "words t (redirs (EXEC argv) rs)" using 1(3,4) by (auto simp: words_def toks_redirs std_redirs_redirs)
  obtain c q s2 where g: "gettoken t s1 = (c, q, s2)" by (metis prod_cases3)
  have m: "s1 \<le> s2" "s2 \<le> length t" using gettoken_moves [OF pm(2), of c "fst q" "snd q" s2] g by auto
  have eq: "parseargs t argv rs s = (if b then Parsed (redirs (EXEC argv) rs) s1
      else if c = CHR 0x00 then Parsed (redirs (EXEC argv) rs) s2
      else if c \<noteq> CHR ''a'' then Panicked ''syntax''
      else if length argv + 1 \<ge> MAXARGS then Panicked ''too many args''
      else (case parseredirs t s2 of Parsed rs' s3 \<Rightarrow> parseargs t (argv @ [q]) (rs @ rs') s3
             | Panicked m \<Rightarrow> Panicked m | Too_deep \<Rightarrow> Too_deep))"
    by (subst parseargs.simps) (simp add: p g split: bool.splits)
  show ?case
  proof (cases "b \<or> c = CHR 0x00 \<or> c \<noteq> CHR ''a'' \<or> length argv + 1 \<ge> MAXARGS")
    case True
    then show ?thesis unfolding eq using w pm(1,2) m by auto
  next
    case False
    then have c: "\<not> b" "c \<noteq> CHR 0x00" "c = CHR ''a''" "\<not> length argv + 1 \<ge> MAXARGS" by simp_all
    note rg = parseredirs_good [OF m(2)]
    show ?thesis
    proof (cases "parseredirs t s2")
      case (Parsed rs' s3)
      then have r: "rwords t rs'" "s2 \<le> s3" "s3 \<le> length t" using rg by simp_all
      have "word_tok t q" using gettoken_word [OF pm(2)] g c(3) by simp
      then have "good (words t) t s3 (parseargs t (argv @ [q]) (rs @ rs') s3)"
        using 1(3,4) r c Parsed by (intro 1(1) [OF p [symmetric] _ g [symmetric] refl]) auto
      then have "good (words t) t s (parseargs t (argv @ [q]) (rs @ rs') s3)" by (rule good_later) (use pm m r in simp)
      then show ?thesis unfolding eq using c Parsed by simp
    qed (use rg c in \<open>simp_all add: eq\<close>)
  qed
qed

lemma back_loop_good:
  "s \<le> length t \<Longrightarrow> length t - s < k \<Longrightarrow> words t c \<Longrightarrow> good (words t) t s (back_loop k t c s)"
proof (induction k arbitrary: c s)
  case (Suc k)
  obtain b s1 where p: "peek t s ''&'' = (b, s1)" by fastforce
  note pm = peek_moves [OF Suc.prems(1) p]
  show ?case
  proof (cases b)
    case False
    then show ?thesis using p pm Suc.prems(3) by simp
  next
    case True
    obtain x q s2 where g: "gettoken t s1 = (x, q, s2)" by (metis prod_cases3)
    have m: "s < s2" "s2 \<le> length t" using gettoken_after_peek [of t s _ s1] p True g by auto
    then have "good (words t) t s2 (back_loop k t (BACK c) s2)" using Suc.prems by (intro Suc.IH) (auto simp: words_def)
    then have "good (words t) t s (back_loop k t (BACK c) s2)" by (rule good_later) (use m in simp)
    then show ?thesis using p True g by simp
  qed
qed simp

text \<open>What follows a symbol that has been seen.\<close>

lemma good_after_peek:
  assumes "s \<le> length t" and "\<And>s1. s \<le> s1 \<Longrightarrow> s1 \<le> length t \<Longrightarrow> good P t s (no s1)"
    and "\<And>s2. s < s2 \<Longrightarrow> s2 \<le> length t \<Longrightarrow> good P t s (yes s2)"
  shows "good P t s (case peek t s x of (False, s1) \<Rightarrow> no s1 | (True, s1) \<Rightarrow> (case gettoken t s1 of (_, _, s2) \<Rightarrow> yes s2))"
proof -
  obtain b s1 where p: "peek t s x = (b, s1)" by fastforce
  obtain y q s2 where g: "gettoken t s1 = (y, q, s2)" by (metis prod_cases3)
  show ?thesis
  proof (cases b)
    case True
    then have "s < s2" "s2 \<le> length t" using gettoken_after_peek [of t s x s1] p g by auto
    then show ?thesis using assms(3) p g True by simp
  next
    case False
    then show ?thesis using peek_moves [OF assms(1) p] assms(2) p by simp
  qed
qed

text \<open>One level of the four functions, when the level below is good.\<close>

definition deep_enough :: "string \<Rightarrow> nat \<Rightarrow> nat \<Rightarrow> bool" where
  "deep_enough t k s \<longleftrightarrow>
     (4 * (length t - s) + 4 \<le> k \<longrightarrow> good (words t) t s (parseline k t s)) \<and>
     (4 * (length t - s) + 3 \<le> k \<longrightarrow> good (words t) t s (parsepipe k t s)) \<and>
     (4 * (length t - s) + 2 \<le> k \<longrightarrow> good (words t) t s (parseexec k t s)) \<and>
     (4 * (length t - s) + 1 \<le> k \<longrightarrow> good (words t) t s (parseblock k t s))"

lemma parseline_good:
  assumes IH: "\<And>s. s \<le> length t \<Longrightarrow> deep_enough t k s" and s: "s \<le> length t" and k: "4 * (length t - s) + 4 \<le> Suc k"
  shows "good (words t) t s (parseline (Suc k) t s)"
  unfolding parseline.simps
proof (rule good_pbind)
  show "good (words t) t s (parsepipe k t s)" using IH [OF s] k by (simp add: deep_enough_def)
  fix c s1 assume c: "words t c" "s \<le> s1" "s1 \<le> length t"
  have "good (words t) t s1 (back_loop (Suc (length t)) t c s1)" using c by (intro back_loop_good) simp_all
  then have "good (words t) t s (back_loop (Suc (length t)) t c s1)" by (rule good_later) (rule c)
  then show "good (words t) t s (pbind (back_loop (Suc (length t)) t c s1) (\<lambda>c s2. case peek t s2 '';'' of
       (False, s3) \<Rightarrow> Parsed c s3
     | (True, s3) \<Rightarrow> (case gettoken t s3 of (_, _, s4) \<Rightarrow> pbind (parseline k t s4) (\<lambda>r s5. Parsed (LIST c r) s5))))"
  proof (rule good_pbind)
    fix c s2 assume c: "words t c" "s \<le> s2" "s2 \<le> length t"
    show "good (words t) t s (case peek t s2 '';'' of (False, s3) \<Rightarrow> Parsed c s3
     | (True, s3) \<Rightarrow> (case gettoken t s3 of (_, _, s4) \<Rightarrow> pbind (parseline k t s4) (\<lambda>r s5. Parsed (LIST c r) s5)))"
    proof (rule good_later [OF good_after_peek [OF c(3)] c(2)])
      fix s4 assume s4: "s2 < s4" "s4 \<le> length t"
      have "good (words t) t s4 (parseline k t s4)" using IH [OF s4(2)] k c(2) s4 by (simp add: deep_enough_def)
      then have "good (words t) t s2 (parseline k t s4)" by (rule good_later) (use s4 in simp)
      then show "good (words t) t s2 (pbind (parseline k t s4) (\<lambda>r s5. Parsed (LIST c r) s5))"
        by (rule good_pbind) (use c in \<open>auto simp: words_def\<close>)
    qed (use c in simp)
  qed
qed

lemma parsepipe_good:
  assumes IH: "\<And>s. s \<le> length t \<Longrightarrow> deep_enough t k s" and s: "s \<le> length t" and k: "4 * (length t - s) + 3 \<le> Suc k"
  shows "good (words t) t s (parsepipe (Suc k) t s)"
  unfolding parsepipe.simps
proof (rule good_pbind)
  show "good (words t) t s (parseexec k t s)" using IH [OF s] k by (simp add: deep_enough_def)
  fix c s1 assume c: "words t c" "s \<le> s1" "s1 \<le> length t"
  show "good (words t) t s (case peek t s1 ''|'' of (False, s2) \<Rightarrow> Parsed c s2
     | (True, s2) \<Rightarrow> (case gettoken t s2 of (_, _, s3) \<Rightarrow> pbind (parsepipe k t s3) (\<lambda>r s4. Parsed (PIPE c r) s4)))"
  proof (rule good_later [OF good_after_peek [OF c(3)] c(2)])
    fix s3 assume s3: "s1 < s3" "s3 \<le> length t"
    have "good (words t) t s3 (parsepipe k t s3)" using IH [OF s3(2)] k c(2) s3 by (simp add: deep_enough_def)
    then have "good (words t) t s1 (parsepipe k t s3)" by (rule good_later) (use s3 in simp)
    then show "good (words t) t s1 (pbind (parsepipe k t s3) (\<lambda>r s4. Parsed (PIPE c r) s4))"
      by (rule good_pbind) (use c in \<open>auto simp: words_def\<close>)
  qed (use c in simp)
qed

lemma parseexec_good:
  assumes IH: "\<And>s. s \<le> length t \<Longrightarrow> deep_enough t k s" and s: "s \<le> length t" and k: "4 * (length t - s) + 2 \<le> Suc k"
  shows "good (words t) t s (parseexec (Suc k) t s)"
proof -
  obtain b s1 where p: "peek t s ''('' = (b, s1)" by fastforce
  note pm = peek_moves [OF s p]
  show ?thesis
  proof (cases b)
    case True
    have "good (words t) t s1 (parseblock k t s1)" using IH [OF pm(2)] k pm(1) by (simp add: deep_enough_def)
    then have "good (words t) t s (parseblock k t s1)" by (rule good_later) (rule pm)
    then show ?thesis using p True by simp
  next
    case False
    have "good (words t) t s (pbind (parseredirs t s1) (\<lambda>rs s2. parseargs t [] rs s2))"
    proof (rule good_pbind [OF good_later [OF parseredirs_good [OF pm(2)] pm(1)]])
      fix rs s2 assume "rwords t rs" "s \<le> s2" "s2 \<le> length t"
      then show "good (words t) t s (parseargs t [] rs s2)" by (intro good_later [OF parseargs_good]) auto
    qed
    then show ?thesis using p False by simp
  qed
qed

lemma parseblock_good:
  assumes IH: "\<And>s. s \<le> length t \<Longrightarrow> deep_enough t k s" and s: "s \<le> length t" and k: "4 * (length t - s) + 1 \<le> Suc k"
  shows "good (words t) t s (parseblock (Suc k) t s)"
  unfolding parseblock.simps
proof (rule good_after_peek [OF s])
  fix s2 assume s2: "s < s2" "s2 \<le> length t"
  have "good (words t) t s2 (parseline k t s2)" using IH [OF s2(2)] k s2 by (simp add: deep_enough_def)
  then have "good (words t) t s (parseline k t s2)" by (rule good_later) (use s2 in simp)
  then show "good (words t) t s (pbind (parseline k t s2) (\<lambda>c s3. case peek t s3 '')'' of
            (False, s4) \<Rightarrow> Panicked ''syntax - missing )''
          | (True, s4) \<Rightarrow> (case gettoken t s4 of (_, _, s5) \<Rightarrow> pbind (parseredirs t s5) (\<lambda>rs s6. Parsed (redirs c rs) s6))))"
  proof (rule good_pbind)
    fix c s3 assume c: "words t c" "s \<le> s3" "s3 \<le> length t"
    show "good (words t) t s (case peek t s3 '')'' of (False, s4) \<Rightarrow> Panicked ''syntax - missing )''
          | (True, s4) \<Rightarrow> (case gettoken t s4 of (_, _, s5) \<Rightarrow> pbind (parseredirs t s5) (\<lambda>rs s6. Parsed (redirs c rs) s6)))"
    proof (rule good_later [OF good_after_peek [OF c(3)] c(2)])
      fix s5 assume s5: "s3 < s5" "s5 \<le> length t"
      have "good (rwords t) t s3 (parseredirs t s5)" by (rule good_later [OF parseredirs_good]) (use s5 in auto)
      then show "good (words t) t s3 (pbind (parseredirs t s5) (\<lambda>rs s6. Parsed (redirs c rs) s6))"
        by (rule good_pbind) (use c in \<open>auto simp: words_def toks_redirs std_redirs_redirs\<close>)
    qed simp
  qed
qed simp

lemma parser_good: "s \<le> length t \<Longrightarrow> deep_enough t k s"
proof (induction k arbitrary: s)
  case 0
  then show ?case by (simp add: deep_enough_def)
next
  case (Suc k)
  then show ?case
    using parseline_good [OF Suc.IH Suc.prems] parsepipe_good [OF Suc.IH Suc.prems] parseexec_good [OF Suc.IH Suc.prems]
      parseblock_good [OF Suc.IH Suc.prems] unfolding deep_enough_def by blast
qed

lemma parsecmd_good: "good (words t) t 0 (parsecmd t)"
proof -
  have "good (words t) t 0 (parseline (depth t) t 0)" using parser_good [of 0 t "depth t"] by (simp add: deep_enough_def depth_def)
  then show ?thesis unfolding parsecmd_def
    by (rule good_pbind) (auto simp: peek_def Let_def dest: skip_ws_bound)
qed

section \<open>Terminating the strings\<close>

text \<open>nulterminate writes a zero behind every argument and file name, in the buffer that holds the line.\<close>

fun nulterminate :: "cmd \<Rightarrow> string \<Rightarrow> string" where
  "nulterminate (EXEC argv) buf = fold (\<lambda>w b. b[snd w := CHR 0x00]) argv buf"
| "nulterminate (REDIR c w m fd) buf = (nulterminate c buf)[snd w := CHR 0x00]"
| "nulterminate (PIPE a b) buf = nulterminate b (nulterminate a buf)"
| "nulterminate (LIST a b) buf = nulterminate b (nulterminate a buf)"
| "nulterminate (BACK c) buf = nulterminate c buf"

text \<open>The C string that starts at a position of a buffer.\<close>

definition cstr_at :: "string \<Rightarrow> nat \<Rightarrow> string" where
  "cstr_at buf i = takeWhile (\<lambda>c. c \<noteq> CHR 0x00) (drop i buf)"

definition text_of :: "string \<Rightarrow> tok \<Rightarrow> string" where
  "text_of t w = take (snd w - fst w) (drop (fst w) t)"

lemma nulterminate_fold: "nulterminate c buf = fold (\<lambda>w b. b[snd w := CHR 0x00]) (toks c) buf"
  by (induction c arbitrary: buf) auto

lemma fold_zero_length [simp]: "length (fold (\<lambda>w b. b[snd w := z]) ws buf) = length buf"
  by (induction ws arbitrary: buf) auto

lemma fold_zero_nth:
  "i < length buf \<Longrightarrow> fold (\<lambda>w b. b[snd w := z]) ws buf ! i = (if i \<in> snd ` set ws then z else buf ! i)"
  by (induction ws arbitrary: buf) (auto simp: nth_list_update)

lemma cstr_at_eq:
  assumes "q < e" and "e < length buf" and "buf ! e = CHR 0x00" and "\<And>i. q \<le> i \<Longrightarrow> i < e \<Longrightarrow> buf ! i \<noteq> CHR 0x00"
  shows "cstr_at buf q = take (e - q) (drop q buf)"
proof -
  have "takeWhile (\<lambda>c. c \<noteq> CHR 0x00) (drop q buf) = take (e - q) (drop q buf)"
    using assms by (intro takeWhile_eq_take_P_nth) auto
  then show ?thesis by (simp add: cstr_at_def)
qed

lemma nulterminate_words:
  assumes w: "words t c" and z: "CHR 0x00 \<notin> set t" and m: "m \<in> set (toks c)"
  shows "cstr_at (nulterminate c (t @ [CHR 0x00])) (fst m) = text_of t m"
proof -
  let ?b = "nulterminate c (t @ [CHR 0x00])"
  have wt: "word_tok t v" if "v \<in> set (toks c)" for v using w that by (simp add: words_def)
  have len: "length ?b = Suc (length t)" by (simp add: nulterminate_fold)
  have nth: "?b ! i = (if i \<in> snd ` set (toks c) then CHR 0x00 else (t @ [CHR 0x00]) ! i)" if "i \<le> length t" for i
    using that by (simp add: nulterminate_fold fold_zero_nth)
  have q: "fst m < snd m" "snd m \<le> length t" using wt [OF m] by (simp_all add: word_tok_def)
  have same: "?b ! i = t ! i" if i: "fst m \<le> i" "i < snd m" for i
  proof -
    have l: "i < length t" using i q by simp
    have "\<not> is_ws (ch t i) \<and> \<not> is_sym (ch t i)" using wt [OF m] i by (simp add: word_tok_def)
    then have "i \<notin> snd ` set (toks c)" using wt l by (auto simp: word_tok_def)
    then show ?thesis using nth [of i] l by (simp add: nth_append)
  qed
  have "?b ! i \<noteq> CHR 0x00" if i: "fst m \<le> i" "i < snd m" for i
  proof -
    have "t ! i \<in> set t" using i q by simp
    then show ?thesis using same [OF i] z by metis
  qed
  moreover have "?b ! snd m = CHR 0x00" using nth [of "snd m"] m q by auto
  ultimately have "cstr_at ?b (fst m) = take (snd m - fst m) (drop (fst m) ?b)" using q len by (intro cstr_at_eq) auto
  also have "\<dots> = text_of t m" unfolding text_of_def using q len same by (intro nth_equalityI) auto
  finally show ?thesis .
qed

section \<open>Properties\<close>

text \<open>C36: The parser of the shell returns on every command line: with the given bound on the depth of its
  calls, and with every larger one, it gives a command or one of its panics, and it never reads behind the end of
  the line.\<close>

theorem parsecmd_returns:
  "parsecmd t \<noteq> Too_deep \<and> (\<forall>k. depth t \<le> k \<longrightarrow> parseline k t 0 \<noteq> Too_deep) \<and>
   (\<forall>c s. parsecmd t = Parsed c s \<longrightarrow> s = length t)"
proof -
  have "good (words t) t 0 (parseline k t 0)" if "depth t \<le> k" for k
    using parser_good [of 0 t k] that by (simp add: deep_enough_def depth_def)
  then have "parseline k t 0 \<noteq> Too_deep" if "depth t \<le> k" for k using that good_simps(3) by metis
  moreover have "parsecmd t \<noteq> Too_deep" using parsecmd_good [of t] by auto
  moreover have "s = length t" if "parsecmd t = Parsed c s" for c s
    using that by (auto simp: parsecmd_def pbind_def split: pres.splits prod.splits if_splits)
  ultimately show ?thesis by blast
qed

theorem parsecmd_returns_witness: "parseline 5 [] 0 \<noteq> Too_deep"
  using parsecmd_returns [of "[]"] by (simp add: depth_def)

text \<open>C35: The strings that the shell passes on are the words of the command line: after parsing a line and terminating
  the strings in place, every argument and file name of the command, read as a C string, is exactly the
  text of its token, a non-empty run of characters without white space and symbols. No terminator
  overwrites a character of another string.\<close>

theorem parsed_strings_intact:
  assumes "parsecmd t = Parsed c s" and "CHR 0x00 \<notin> set t"
  shows "\<forall>w \<in> set (toks c). cstr_at (nulterminate c (t @ [CHR 0x00])) (fst w) = text_of t w \<and> text_of t w \<noteq> [] \<and>
    (\<forall>x \<in> set (text_of t w). \<not> is_ws x \<and> \<not> is_sym x)"
proof
  fix w assume w: "w \<in> set (toks c)"
  have ws: "words t c" using parsecmd_good [of t] assms(1) by simp
  then have t: "word_tok t w" using w by (simp add: words_def)
  then have ne: "text_of t w \<noteq> []" by (auto simp: word_tok_def text_of_def)
  have "\<not> is_ws x \<and> \<not> is_sym x" if x: "x \<in> set (text_of t w)" for x
  proof -
    obtain i where "i < snd w - fst w" "fst w + i < length t" "x = t ! (fst w + i)"
      using x by (auto simp: text_of_def in_set_conv_nth)
    then show ?thesis using t by (auto simp: word_tok_def ch_def)
  qed
  then show "cstr_at (nulterminate c (t @ [CHR 0x00])) (fst w) = text_of t w \<and> text_of t w \<noteq> [] \<and>
      (\<forall>x \<in> set (text_of t w). \<not> is_ws x \<and> \<not> is_sym x)"
    using nulterminate_words [OF ws assms(2) w] ne by blast
qed

lemma demo_line: "parsecmd ''ls>f'' = Parsed (REDIR (EXEC [(0, 2)]) (3, 4) (O_WRONLY OR O_CREATE OR O_TRUNC) 1) 4"
  by code_simp

theorem parsed_strings_intact_witness:
  "cstr_at (nulterminate (REDIR (EXEC [(0, 2)]) (3, 4) (O_WRONLY OR O_CREATE OR O_TRUNC) 1) (''ls>f'' @ [CHR 0x00])) 3 = ''f''"
  using parsed_strings_intact [OF demo_line] by (simp add: text_of_def)

end
