(* ===== verification/User.thy ===== *)
theory User
  imports Ulib Fs
begin

text \<open>
  User programs: what a process does is a tree of system calls, which branches on their results, so that
  after fork both branches are there. On top of it the functions of user/ulib.c and user/printf.c that
  make system calls.
\<close>

section \<open>Programs\<close>

datatype call =
    fork_call | wait_call | write_call int string | close_call int | kill_call int
  | exec_call string "string list" | open_call string u32 | mknod_call string u16 u16 | unlink_call string
  | link_call string string | mkdir_call string | chdir_call string | dup_call int | getpid_call
  | sbrk_call int | sleep_call int | uptime_call | trace_call int

text \<open>
  Sys is a call whose result is an int; read, pipe, fstat, a wait that asks for the exit status and
  sysinfo (on a variable of the program, or on an address that is given) deliver data as well. More is a program that is
  still running when the bound on the rounds of its loops is reached, Undef one that has left what C defines.
\<close>

datatype 'a prog =
    Ret 'a
  | Exit int
  | More
  | Undef
  | Sys call "int \<Rightarrow> 'a prog"
  | Read int nat "int \<times> string \<Rightarrow> 'a prog"
  | Pipe "int \<times> int \<times> int \<Rightarrow> 'a prog"
  | Fstat int "int \<times> stat \<Rightarrow> 'a prog"
  | Wait "int \<times> int \<Rightarrow> 'a prog"
  | Sysinfo "u64 option" "int \<times> u64 \<times> u64 \<times> u64 \<Rightarrow> 'a prog"

primrec bind :: "'a prog \<Rightarrow> ('a \<Rightarrow> 'b prog) \<Rightarrow> 'b prog" where
  "bind (Ret x) f = f x"
| "bind (Exit n) f = Exit n"
| "bind More f = More"
| "bind Undef f = Undef"
| "bind (Sys c k) f = Sys c (\<lambda>r. bind (k r) f)"
| "bind (Read fd n k) f = Read fd n (\<lambda>r. bind (k r) f)"
| "bind (Pipe k) f = Pipe (\<lambda>r. bind (k r) f)"
| "bind (Fstat fd k) f = Fstat fd (\<lambda>r. bind (k r) f)"
| "bind (Wait k) f = Wait (\<lambda>r. bind (k r) f)"
| "bind (Sysinfo a k) f = Sysinfo a (\<lambda>r. bind (k r) f)"

abbreviation andthen :: "'a prog \<Rightarrow> 'b prog \<Rightarrow> 'b prog" where
  "andthen p q \<equiv> bind p (\<lambda>_. q)"

abbreviation sys :: "call \<Rightarrow> int prog" where "sys c \<equiv> Sys c Ret"

lemma bind_Ret [simp]: "bind p Ret = p"
  by (induction p) simp_all

lemma bind_assoc [simp]: "bind (bind p f) g = bind p (\<lambda>x. bind (f x) g)"
  by (induction p) simp_all

primrec each :: "'a list \<Rightarrow> ('a \<Rightarrow> unit prog) \<Rightarrow> unit prog" where
  "each [] f = Ret ()"
| "each (x # xs) f = andthen (f x) (each xs f)"

text \<open>At most n rounds of a loop: Inl goes on with a new state, Inr leaves the loop.\<close>

primrec rounds :: "nat \<Rightarrow> ('s \<Rightarrow> ('s + 'a) prog) \<Rightarrow> 's \<Rightarrow> 'a prog" where
  "rounds 0 body s = More"
| "rounds (Suc n) body s = bind (body s) (\<lambda>r. case r of Inl s' \<Rightarrow> rounds n body s' | Inr x \<Rightarrow> Ret x)"

section \<open>printf\<close>

definition putc :: "int \<Rightarrow> char \<Rightarrow> unit prog" where
  "putc fd c = andthen (sys (write_call fd [c])) (Ret ())"

definition udigits :: string where "udigits = ''0123456789ABCDEF''"

function int_digits :: "nat \<Rightarrow> nat \<Rightarrow> string" where
  "int_digits b x = udigits ! (x mod b) # (if x div b = 0 \<or> b < 2 then [] else int_digits b (x div b))"
  by pat_completeness auto
termination
proof (relation "measure snd")
  fix b x :: nat assume "\<not> (x div b = 0 \<or> b < 2)"
  then have "1 < b" "0 < x" by (auto intro: gr0I)
  then show "((b, x div b), (b, x)) \<in> measure snd" by simp
qed simp

declare int_digits.simps [simp del]

text \<open>The characters that printint puts out; buf holds them in the reverse order.\<close>

definition printint_str :: "u32 \<Rightarrow> nat \<Rightarrow> bool \<Rightarrow> string" where
  "printint_str xx b sg =
     (let neg = sg \<and> sint xx < 0; x = (if neg then - xx else xx)
      in rev (int_digits b (unat x) @ (if neg then ''-'' else [])))"

definition u_printint :: "int \<Rightarrow> u32 \<Rightarrow> nat \<Rightarrow> bool \<Rightarrow> unit prog" where
  "u_printint fd xx b sg = each (printint_str xx b sg) (putc fd)"

definition u_printptr :: "int \<Rightarrow> u64 \<Rightarrow> unit prog" where
  "u_printptr fd x =
     each (''0x'' @ map (\<lambda>i. udigits ! unat (drop_bit 60 (push_bit (4 * i) x))) [0..<16]) (putc fd)"

text \<open>A variable argument takes a register of 64 bits; an int is its low half.\<close>

datatype arg = Num u64 | Str "string option"

text \<open>The loop over the format, with state for a percent sign that was read.\<close>

fun vprintf_loop :: "int \<Rightarrow> string \<Rightarrow> bool \<Rightarrow> arg list \<Rightarrow> unit prog" where
  "vprintf_loop fd [] state ap = Ret ()"
| "vprintf_loop fd (c # fmt) False ap =
     (if c = CHR ''%'' then vprintf_loop fd fmt True ap
      else andthen (putc fd c) (vprintf_loop fd fmt False ap))"
| "vprintf_loop fd (c # fmt) True ap =
     (if c = CHR ''d'' then (case ap of Num x # ap' \<Rightarrow> andthen (u_printint fd (ucast x) 10 True) (vprintf_loop fd fmt False ap') | _ \<Rightarrow> Undef)
      else if c = CHR ''l'' then (case ap of Num x # ap' \<Rightarrow> andthen (u_printint fd (ucast x) 10 False) (vprintf_loop fd fmt False ap') | _ \<Rightarrow> Undef)
      else if c = CHR ''x'' then (case ap of Num x # ap' \<Rightarrow> andthen (u_printint fd (ucast x) 16 False) (vprintf_loop fd fmt False ap') | _ \<Rightarrow> Undef)
      else if c = CHR ''p'' then (case ap of Num x # ap' \<Rightarrow> andthen (u_printptr fd x) (vprintf_loop fd fmt False ap') | _ \<Rightarrow> Undef)
      else if c = CHR ''s'' then
        (case ap of Str s # ap' \<Rightarrow>
           andthen (each (case s of None \<Rightarrow> ''(null)'' | Some t \<Rightarrow> t) (putc fd)) (vprintf_loop fd fmt False ap') | _ \<Rightarrow> Undef)
      else if c = CHR ''c'' then
        (case ap of Num x # ap' \<Rightarrow> andthen (putc fd (char_of (unat x))) (vprintf_loop fd fmt False ap') | _ \<Rightarrow> Undef)
      else if c = CHR ''%'' then andthen (putc fd c) (vprintf_loop fd fmt False ap)
      else andthen (putc fd CHR ''%'') (andthen (putc fd c) (vprintf_loop fd fmt False ap)))"

definition fprintf :: "int \<Rightarrow> string \<Rightarrow> arg list \<Rightarrow> unit prog" where
  "fprintf fd fmt ap = vprintf_loop fd fmt False ap"

definition uprintf :: "string \<Rightarrow> arg list \<Rightarrow> unit prog" where
  "uprintf fmt ap = vprintf_loop 1 fmt False ap"

abbreviation NL :: string where "NL \<equiv> [CHR 0x0A]"

section \<open>gets and stat\<close>

text \<open>The characters read, at most one less than the size of the buffer; k is the room that is left.\<close>

primrec gets_loop :: "nat \<Rightarrow> string \<Rightarrow> string prog" where
  "gets_loop 0 buf = Ret buf"
| "gets_loop (Suc k) buf =
     Read 0 1 (\<lambda>(cc, d).
       if cc < 1 then Ret buf
       else case d of [] \<Rightarrow> Undef
         | c # _ \<Rightarrow> if c = CHR 0x0A \<or> c = CHR 0x0D then Ret (buf @ [c]) else gets_loop k (buf @ [c]))"

definition gets :: "nat \<Rightarrow> string prog" where
  "gets n = gets_loop (n - 1) []"

definition ustat :: "string \<Rightarrow> (int \<times> stat option) prog" where
  "ustat n =
     Sys (open_call n O_RDONLY) (\<lambda>fd.
     if fd < 0 then Ret (- 1, None)
     else Fstat fd (\<lambda>(r, st).
       Sys (close_call fd) (\<lambda>_. Ret (r, if r < 0 then None else Some st))))"

end
