(* ===== verification/Sh_Run.thy ===== *)
theory Sh_Run
  imports Sh User
begin

text \<open>
  The other half of user/sh.c: running a parsed command, reading command lines, and the main loop. What the
  programs that the shell starts find in their descriptors is compared with what the command line says.
\<close>

section \<open>Running commands\<close>

definition sh_panic :: "string \<Rightarrow> 'a prog" where
  "sh_panic s = andthen (fprintf 2 (''%s'' @ NL) [Str (Some s)]) (Exit 1)"

definition fork1 :: "int prog" where
  "fork1 = Sys fork_call (\<lambda>pid. if pid = - 1 then sh_panic ''fork'' else Ret pid)"

text \<open>The strings of a command are C strings in the buffer that nulterminate has prepared.\<close>

fun runcmd :: "string \<Rightarrow> cmd \<Rightarrow> unit prog" where
  "runcmd buf (EXEC argv) =
     (case argv of [] \<Rightarrow> Exit 1
      | w # _ \<Rightarrow>
          Sys (exec_call (cstr_at buf (fst w)) (map (\<lambda>v. cstr_at buf (fst v)) argv)) (\<lambda>_.
          andthen (fprintf 2 (''exec %s failed'' @ NL) [Str (Some (cstr_at buf (fst w)))]) (
          Exit 0)))"
| "runcmd buf (REDIR c w mode fd) =
     Sys (close_call (int fd)) (\<lambda>_.
     Sys (open_call (cstr_at buf (fst w)) mode) (\<lambda>r.
     if r < 0 then andthen (fprintf 2 (''open %s failed'' @ NL) [Str (Some (cstr_at buf (fst w)))]) (Exit 1)
     else andthen (runcmd buf c) (Exit 0)))"
| "runcmd buf (LIST l r) =
     bind fork1 (\<lambda>pid.
     andthen (if pid = 0 then runcmd buf l else Ret ()) (
     Sys wait_call (\<lambda>_.
     andthen (runcmd buf r) (Exit 0))))"
| "runcmd buf (PIPE l r) =
     Pipe (\<lambda>(res, p0, p1).
     if res < 0 then sh_panic ''pipe''
     else bind fork1 (\<lambda>pid.
       andthen (if pid = 0 then
           Sys (close_call 1) (\<lambda>_. Sys (dup_call p1) (\<lambda>_. Sys (close_call p0) (\<lambda>_. Sys (close_call p1) (\<lambda>_.
           runcmd buf l)))) else Ret ()) (
       bind fork1 (\<lambda>pid.
       andthen (if pid = 0 then
           Sys (close_call 0) (\<lambda>_. Sys (dup_call p0) (\<lambda>_. Sys (close_call p0) (\<lambda>_. Sys (close_call p1) (\<lambda>_.
           runcmd buf r)))) else Ret ()) (
       Sys (close_call p0) (\<lambda>_. Sys (close_call p1) (\<lambda>_.
       Sys wait_call (\<lambda>_. Sys wait_call (\<lambda>_.
       Exit 0)))))))))"
| "runcmd buf (BACK c) =
     bind fork1 (\<lambda>pid.
     andthen (if pid = 0 then runcmd buf c else Ret ()) (Exit 0))"

section \<open>The main loop\<close>

text \<open>None at the end of the input.\<close>

definition getcmd :: "string option prog" where
  "getcmd =
     andthen (fprintf 2 ''$ '' []) (
     bind (gets 100) (\<lambda>buf. Ret (if ch buf 0 = CHR 0x00 then None else Some buf)))"

text \<open>A line that is not used up is reported before the panic.\<close>

definition leftovers :: "string \<Rightarrow> unit prog" where
  "leftovers t =
     (case parseline (depth t) t 0 of
        Parsed c s \<Rightarrow> fprintf 2 (''leftovers: %s'' @ NL) [Str (Some (drop (snd (peek t s '''')) t))]
      | _ \<Rightarrow> Ret ())"

definition run_line :: "string \<Rightarrow> unit prog" where
  "run_line t =
     (case parsecmd t of
        Parsed c s \<Rightarrow> runcmd (nulterminate c (t @ [CHR 0x00])) c
      | pres.Panicked m \<Rightarrow> andthen (leftovers t) (sh_panic m)
      | Too_deep \<Rightarrow> More)"

definition open_console :: "nat \<Rightarrow> unit prog" where
  "open_console n =
     rounds n (\<lambda>_. Sys (open_call ''console'' O_RDWR) (\<lambda>fd.
       if fd < 0 then Ret (Inr ())
       else if fd \<ge> 3 then Sys (close_call fd) (\<lambda>_. Ret (Inr ()))
       else Ret (Inl ()))) ()"

definition sh_main :: "nat \<Rightarrow> unit prog" where
  "sh_main n =
     andthen (open_console n) (
     andthen (rounds n (\<lambda>_. bind getcmd (\<lambda>r.
       case r of None \<Rightarrow> Ret (Inr ())
       | Some buf \<Rightarrow>
           let t = takeWhile (\<lambda>c. c \<noteq> CHR 0x00) buf in
           if ch buf 0 = CHR ''c'' \<and> ch buf 1 = CHR ''d'' \<and> ch buf 2 = CHR '' '' then
             (let dir = drop 3 (butlast t) in
              Sys (chdir_call dir) (\<lambda>r.
              andthen (if r < 0 then fprintf 2 (''cannot cd %s'' @ NL) [Str (Some dir)] else Ret ()) (Ret (Inl ()))))
           else
             bind fork1 (\<lambda>pid.
             andthen (if pid = 0 then run_line t else Ret ()) (
             Sys wait_call (\<lambda>_. Ret (Inl ())))))) ()) (
     Exit 0))"

section \<open>Descriptors\<close>

text \<open>What a descriptor designates: something inherited, a file opened with a mode, or an end of a pipe.\<close>

datatype obj = Given nat | File string u32 | Pipe_read nat | Pipe_write nat

type_synonym fds = "int \<Rightarrow> obj option"

text \<open>A program that is started, with its descriptors and arguments.\<close>

type_synonym started = "fds \<times> string \<times> string list"

definition lowest :: "fds \<Rightarrow> int option" where
  "lowest f = map_option int (find (\<lambda>n. f (int n) = None) [0..<16])"

text \<open>
  The programs that a process and its descendants start: calls give the lowest free descriptor, opens says
  which files can be opened, a fork shows the child 0 and the parent pid, and pipes are numbered in the order in which the
  processes, child before parent, make them. A process that has started a program is over.
\<close>

primrec starts :: "(string \<Rightarrow> u32 \<Rightarrow> bool) \<Rightarrow> int \<Rightarrow> 'a prog \<Rightarrow> fds \<Rightarrow> nat \<Rightarrow> started list \<times> nat" where
  "starts opens pid (Ret x) f s = ([], s)"
| "starts opens pid (Exit n) f s = ([], s)"
| "starts opens pid More f s = ([], s)"
| "starts opens pid Undef f s = ([], s)"
| "starts opens pid (Sys c k) f s =
     (case c of
        fork_call \<Rightarrow>
          (case starts opens pid (k 0) f s of (e0, s1) \<Rightarrow>
           case starts opens pid (k pid) f s1 of (e1, s2) \<Rightarrow> (e0 @ e1, s2))
      | wait_call \<Rightarrow> starts opens pid (k pid) f s
      | write_call fd d \<Rightarrow> starts opens pid (k (int (length d))) f s
      | close_call fd \<Rightarrow> starts opens pid (k (if f fd = None then - 1 else 0)) (f(fd := None)) s
      | dup_call fd \<Rightarrow>
          (case (f fd, lowest f) of (Some x, Some n) \<Rightarrow> starts opens pid (k n) (f(n := Some x)) s
           | _ \<Rightarrow> starts opens pid (k (- 1)) f s)
      | open_call path mode \<Rightarrow>
          (case lowest f of Some n \<Rightarrow>
             if opens path mode then starts opens pid (k n) (f(n := Some (File path mode))) s
             else starts opens pid (k (- 1)) f s
           | None \<Rightarrow> starts opens pid (k (- 1)) f s)
      | exec_call path argv \<Rightarrow> ([(f, path, argv)], s)
      | _ \<Rightarrow> starts opens pid (k 0) f s)"
| "starts opens pid (Read fd n k) f s = starts opens pid (k (0, [])) f s"
| "starts opens pid (Pipe k) f s =
     (case lowest f of None \<Rightarrow> starts opens pid (k (- 1, 0, 0)) f s
      | Some a \<Rightarrow> (case lowest (f(a := Some (Pipe_read s))) of None \<Rightarrow> starts opens pid (k (- 1, 0, 0)) f s
        | Some b \<Rightarrow> starts opens pid (k (0, a, b)) (f(a := Some (Pipe_read s), b := Some (Pipe_write s))) (Suc s)))"
| "starts opens pid (Fstat fd k) f s = ([], s)"
| "starts opens pid (Wait k) f s = starts opens pid (k (pid, 0)) f s"
| "starts opens pid (Sysinfo a k) f s = ([], s)"

text \<open>What a command asks for; name gives the text of a token.\<close>

fun asks :: "(string \<Rightarrow> u32 \<Rightarrow> bool) \<Rightarrow> (tok \<Rightarrow> string) \<Rightarrow> cmd \<Rightarrow> fds \<Rightarrow> nat \<Rightarrow> started list \<times> nat" where
  "asks opens name (EXEC []) f s = ([], s)"
| "asks opens name (EXEC (w # ws)) f s = ([(f, name w, map name (w # ws))], s)"
| "asks opens name (REDIR c w mode fd) f s =
     (if opens (name w) mode then asks opens name c (f(int fd := Some (File (name w) mode))) s else ([], s))"
| "asks opens name (LIST l r) f s =
     (case asks opens name l f s of (e0, s1) \<Rightarrow> case asks opens name r f s1 of (e1, s2) \<Rightarrow> (e0 @ e1, s2))"
| "asks opens name (PIPE l r) f s =
     (case asks opens name l (f(1 := Some (Pipe_write s))) (Suc s) of (e0, s1) \<Rightarrow>
      case asks opens name r (f(0 := Some (Pipe_read s))) s1 of (e1, s2) \<Rightarrow> (e0 @ e1, s2))"
| "asks opens name (BACK c) f s = asks opens name c f s"

section \<open>Programs that do not come back, and output\<close>

primrec ends :: "'a prog \<Rightarrow> bool" where
  "ends (Ret x) \<longleftrightarrow> False"
| "ends (Exit n) \<longleftrightarrow> True"
| "ends More \<longleftrightarrow> True"
| "ends Undef \<longleftrightarrow> True"
| "ends (Sys c k) \<longleftrightarrow> (\<forall>r. ends (k r))"
| "ends (Read fd n k) \<longleftrightarrow> (\<forall>r. ends (k r))"
| "ends (Pipe k) \<longleftrightarrow> (\<forall>r. ends (k r))"
| "ends (Fstat fd k) \<longleftrightarrow> (\<forall>r. ends (k r))"
| "ends (Wait k) \<longleftrightarrow> (\<forall>r. ends (k r))"
| "ends (Sysinfo a k) \<longleftrightarrow> (\<forall>r. ends (k r))"

lemma ends_bind: "(\<And>x. ends (f x)) \<Longrightarrow> ends (bind p f)"
  by (induction p) simp_all

lemma starts_ends: "ends p \<Longrightarrow> starts opens pid (bind p g) = starts opens pid p"
proof (induction p)
  case (Sys c k)
  then show ?case by (intro ext) (simp split: call.splits option.splits prod.splits)
next
  case (Read fd n k)
  then show ?case by (intro ext) simp
next
  case (Pipe k)
  then show ?case by (intro ext) (simp split: option.splits)
qed (simp_all add: fun_eq_iff)

primrec writes_only :: "'a prog \<Rightarrow> bool" where
  "writes_only (Ret x) \<longleftrightarrow> True"
| "writes_only (Exit n) \<longleftrightarrow> True"
| "writes_only More \<longleftrightarrow> True"
| "writes_only Undef \<longleftrightarrow> True"
| "writes_only (Sys c k) \<longleftrightarrow> (\<exists>fd d. c = write_call fd d) \<and> (\<forall>r. writes_only (k r))"
| "writes_only (Read fd n k) \<longleftrightarrow> False"
| "writes_only (Pipe k) \<longleftrightarrow> False"
| "writes_only (Fstat fd k) \<longleftrightarrow> False"
| "writes_only (Wait k) \<longleftrightarrow> False"
| "writes_only (Sysinfo a k) \<longleftrightarrow> False"

lemma writes_only_bind: "writes_only p \<Longrightarrow> (\<And>x. writes_only (f x)) \<Longrightarrow> writes_only (bind p f)"
  by (induction p) simp_all

lemma starts_writes_only: "writes_only p \<Longrightarrow> starts opens pid p f s = ([], s)"
  by (induction p arbitrary: f s) auto

lemma writes_only_putc: "writes_only (putc fd c)"
  by (simp add: putc_def)

lemma writes_only_each: "(\<And>x. writes_only (f x)) \<Longrightarrow> writes_only (each xs f)"
  by (induction xs) (auto intro: writes_only_bind)

lemmas writes_only_rules = writes_only_bind writes_only_each writes_only_putc

lemma writes_only_arg:
  "(\<And>x ap'. writes_only (p x ap')) \<Longrightarrow> writes_only (case ap of Num x # ap' \<Rightarrow> p x ap' | _ \<Rightarrow> Undef)"
  "(\<And>x ap'. writes_only (q x ap')) \<Longrightarrow> writes_only (case ap of Str x # ap' \<Rightarrow> q x ap' | _ \<Rightarrow> Undef)"
  "writes_only a \<Longrightarrow> writes_only b \<Longrightarrow> writes_only (if c then a else b)"
  by (simp_all split: list.split arg.split)

lemma writes_only_vprintf: "writes_only (vprintf_loop fd fmt st ap)"
proof (induction fmt arbitrary: st ap)
  case (Cons c fmt)
  show ?case
    by (cases st; simp only: vprintf_loop.simps u_printint_def u_printptr_def)
      (intro writes_only_arg writes_only_rules Cons.IH)+
qed simp

lemma starts_message: "starts opens pid (andthen (fprintf fd fmt ap) (Exit n)) f s = ([], s)"
  by (rule starts_writes_only) (simp add: fprintf_def writes_only_bind writes_only_vprintf)

lemma starts_panic: "starts opens pid (sh_panic m) f s = ([], s)"
  by (simp add: sh_panic_def starts_message)

lemma ends_rules:
  "ends (Exit n)" "(\<And>r. ends (k r)) \<Longrightarrow> ends (Sys c k)" "(\<And>r. ends (h r)) \<Longrightarrow> ends (Pipe h)"
  "ends p \<Longrightarrow> ends q \<Longrightarrow> ends (if b then p else q)" "(\<And>x y. ends (g x y)) \<Longrightarrow> ends (case_prod g z)"
  by (simp_all add: split_def)

lemma runcmd_ends: "ends (runcmd buf c)"
proof (cases c)
  case (EXEC argv)
  then show ?thesis by (cases argv) (simp_all only: runcmd.simps list.case ends_rules ends_bind)
qed (simp_all only: runcmd.simps sh_panic_def, (intro ends_rules ends_bind)+)

section \<open>The shell connects its programs as asked\<close>

text \<open>Only the three standard descriptors are open.\<close>

definition std_fds :: "fds \<Rightarrow> bool" where
  "std_fds f \<longleftrightarrow> (\<forall>fd. f fd \<noteq> None \<longleftrightarrow> fd \<in> {0, 1, 2})"

lemma std_fdsD: "std_fds f \<Longrightarrow> f fd = None \<longleftrightarrow> fd \<notin> {0, 1, 2}"
  unfolding std_fds_def by blast

lemma upt16: "[0..<16] = [0, 1, 2, 3, 4, 5, 6, 7, 8, 9, 10, 11, 12, 13, 14, 15 :: nat]"
  by (simp add: upt_rec)

lemma lowest_std:
  assumes "std_fds f"
  shows "lowest f = Some 3" and "lowest (f(3 := Some x)) = Some 4"
    and "lowest (f(0 := None)) = Some 0" and "lowest (f(1 := None)) = Some 1"
    and "lowest (f(3 := Some x, 4 := Some y, 0 := None)) = Some 0" and "lowest (f(3 := Some x, 4 := Some y, 1 := None)) = Some 1"
  by (simp_all add: lowest_def upt16 std_fdsD [OF assms])

lemma std_fds_upd: "std_fds f \<Longrightarrow> fd \<in> {0, 1} \<Longrightarrow> std_fds (f(fd := Some x))"
  by (auto simp: std_fds_def)

text \<open>fork1 in front of a program: both branches.\<close>

lemma starts_fork1:
  "pid > 0 \<Longrightarrow> starts opens pid (bind fork1 k) f s =
     (case starts opens pid (k 0) f s of (e0, s1) \<Rightarrow> case starts opens pid (k pid) f s1 of (e1, s2) \<Rightarrow> (e0 @ e1, s2))"
  by (simp add: fork1_def)

lemma starts_child: "starts opens pid (andthen (runcmd buf c) q) f s = starts opens pid (runcmd buf c) f s"
  by (simp only: starts_ends [OF runcmd_ends])

lemma starts_plumbed:
  assumes "std_fds f" and "end_fd = 0 \<and> keep = Pipe_read n \<and> from = 3 \<or> end_fd = 1 \<and> keep = Pipe_write n \<and> from = 4"
  shows "starts opens pid (Sys (close_call end_fd) (\<lambda>_. Sys (dup_call from) (\<lambda>_. Sys (close_call 3) (\<lambda>_. Sys (close_call 4) (\<lambda>_. p)))))
      (f(3 := Some (Pipe_read n), 4 := Some (Pipe_write n))) s = starts opens pid p (f(end_fd := Some keep)) s"
proof -
  let ?g = "f(3 := Some (Pipe_read n), 4 := Some (Pipe_write n))"
  have n: "f 3 = None" "f 4 = None" using std_fdsD [OF assms(1)] by simp_all
  have l: "(?g(end_fd := None)) from = Some keep" "lowest (?g(end_fd := None)) = Some end_fd"
    using assms(2) lowest_std(5,6) [OF assms(1)] by auto
  have "(?g(end_fd := None, end_fd := Some keep, 3 := None, 4 := None)) = f(end_fd := Some keep)"
    using assms(2) n by (intro ext) (auto simp: fun_upd_def)
  then show ?thesis by (simp only: starts.simps call.case prod.case option.case l)
qed

lemma runcmd_starts:
  assumes "pid > 0" and "\<And>w. w \<in> set (toks c) \<Longrightarrow> cstr_at buf (fst w) = name w" and "std_redirs c" and "std_fds f"
  shows "starts opens pid (runcmd buf c) f s = asks opens name c f s"
  using assms(2-4)
proof (induction c arbitrary: f s)
  case (EXEC argv)
  then show ?case by (cases argv) simp_all
next
  case (REDIR c w mode fd)
  have fd: "int fd \<in> {0, 1}" using REDIR.prems(2) by auto
  then have l: "lowest (f(int fd := None)) = Some (int fd)" using lowest_std(3,4) [OF REDIR.prems(3)] by auto
  have o: "f (int fd) \<noteq> None" using fd std_fdsD [OF REDIR.prems(3)] by auto
  have w: "cstr_at buf (fst w) = name w" using REDIR.prems(1) by simp
  have "starts opens pid (runcmd buf c) (f(int fd := Some x)) s = asks opens name c (f(int fd := Some x)) s" for x
    by (rule REDIR.IH [OF _ _ std_fds_upd [OF REDIR.prems(3) fd]]) (use REDIR.prems in simp_all)
  then show ?case using l o w by (simp add: starts_child starts_message)
next
  case (PIPE l r)
  have n: "f 3 = None" "f 4 = None" using std_fdsD [OF PIPE.prems(3)] by simp_all
  have L: "starts opens pid (runcmd buf l) (f(1 := Some x)) t = asks opens name l (f(1 := Some x)) t" for x t
    by (rule PIPE.IH(1) [OF _ _ std_fds_upd [OF PIPE.prems(3)]]) (use PIPE.prems in simp_all)
  have R: "starts opens pid (runcmd buf r) (f(0 := Some x)) t = asks opens name r (f(0 := Some x)) t" for x t
    by (rule PIPE.IH(2) [OF _ _ std_fds_upd [OF PIPE.prems(3)]]) (use PIPE.prems in simp_all)
  have E: "ends (Sys c1 (\<lambda>_. Sys c2 (\<lambda>_. Sys c3 (\<lambda>_. Sys c4 (\<lambda>_. runcmd buf d)))))" for c1 c2 c3 c4 d
    by (intro ends_rules runcmd_ends)
  have p: "pid \<noteq> 0" "\<not> (0 :: int) < 0" using assms(1) by simp_all
  note pl = starts_plumbed [OF PIPE.prems(3), of 1 "Pipe_write s" s 4, OF disjI2, OF conjI, OF refl conjI, OF refl refl]
    starts_plumbed [OF PIPE.prems(3), of 0 "Pipe_read s" s 3, OF disjI1, OF conjI, OF refl conjI, OF refl refl]
  have t: "starts opens pid (Sys (close_call 3) (\<lambda>_. Sys (close_call 4) (\<lambda>_. Sys wait_call (\<lambda>_. Sys wait_call (\<lambda>_. Exit 0))))) g u = ([], u)"
    for g u by simp
  have "starts opens pid (runcmd buf (PIPE l r)) f s =
    (case asks opens name l (f(1 := Some (Pipe_write s))) (Suc s) of (e0, s1) \<Rightarrow>
     case (case asks opens name r (f(0 := Some (Pipe_read s))) s1 of (e1, s2) \<Rightarrow> case ([], s2) of (e2, s3) \<Rightarrow> (e1 @ e2, s3)) of
       (e1, s2) \<Rightarrow> (e0 @ e1, s2))"
    by (simp only: runcmd.simps starts.simps(7) lowest_std(1,2) [OF PIPE.prems(3)] option.case prod.case p if_False if_True simp_thms
        starts_fork1 [OF assms(1)] bind.simps(1) starts_ends [OF E] pl L R t)
  then show ?case by (simp add: split_def)
next
  case (LIST l r)
  have L: "starts opens pid (runcmd buf l) f t = asks opens name l f t" for t using LIST.prems by (intro LIST.IH(1)) auto
  have R: "starts opens pid (runcmd buf r) f t = asks opens name r f t" for t using LIST.prems by (intro LIST.IH(2)) auto
  show ?case using assms(1) by (simp add: starts_fork1 starts_child L R split: prod.splits)
next
  case (BACK c)
  have "starts opens pid (runcmd buf c) f t = asks opens name c f t" for t using BACK.prems by (intro BACK.IH) auto
  then show ?case using assms(1) by (simp add: starts_fork1 starts_child split: prod.splits)
qed

lemma asks_std_fds: "std_redirs c \<Longrightarrow> std_fds f \<Longrightarrow> e \<in> set (fst (asks opens name c f s)) \<Longrightarrow> std_fds (fst e)"
proof (induction c arbitrary: f s)
  case (EXEC argv)
  then show ?case by (cases argv) auto
next
  case (REDIR c w mode fd)
  have "int fd \<in> {0, 1}" using REDIR.prems(1) by auto
  note u = std_fds_upd [OF REDIR.prems(2) this]
  have "e \<in> set (fst (asks opens name c (f(int fd := Some (File (name w) mode))) s))"
    using REDIR.prems(3) by (simp split: if_splits)
  then show ?case by (rule REDIR.IH [OF _ u, rotated]) (use REDIR.prems in simp)
next
  case (PIPE l r)
  consider s1 where "e \<in> set (fst (asks opens name l (f(1 := Some (Pipe_write s))) s1))"
    | s1 where "e \<in> set (fst (asks opens name r (f(0 := Some (Pipe_read s))) s1))"
    using PIPE.prems(3) by (auto simp: split_def simp del: fun_upd_apply)
  then show ?case
  proof cases
    case 1
    show ?thesis by (rule PIPE.IH(1) [OF _ std_fds_upd 1]) (use PIPE.prems in simp_all)
  next
    case 2
    show ?thesis by (rule PIPE.IH(2) [OF _ std_fds_upd 2]) (use PIPE.prems in simp_all)
  qed
next
  case (LIST l r)
  then show ?case by (auto simp: split_def)
qed auto

section \<open>Properties\<close>

text \<open>C20: The shell runs a command line as the line says: the programs that it and its children start are those of the
  command, with the words of the line as arguments, and each finds in its descriptors exactly what the
  redirections and pipes around it ask for (the file opened with the mode of the redirection, the writing end of the
  pipe on the left of a bar and the reading end on the right), the other standard descriptors inherited, and no
  other descriptor open, in particular no end of a pipe that would keep its reader waiting.\<close>

theorem shell_connects_as_asked:
  assumes "parsecmd t = Parsed c e" and "CHR 0x00 \<notin> set t" and "pid > 0" and "std_fds f"
  shows "starts opens pid (run_line t) f n = asks opens (text_of t) c f n \<and>
    (\<forall>(g, path, argv) \<in> set (fst (asks opens (text_of t) c f n)). std_fds g)"
proof
  have w: "words t c" using parsecmd_good [of t] assms(1) by simp
  then have r: "std_redirs c" by (simp add: words_def)
  show "starts opens pid (run_line t) f n = asks opens (text_of t) c f n"
    using runcmd_starts [OF assms(3) _ r assms(4), of "nulterminate c (t @ [CHR 0x00])" "text_of t" opens n]
      nulterminate_words [OF w assms(2)] assms(1) by (simp add: run_line_def)
  show "\<forall>(g, path, argv) \<in> set (fst (asks opens (text_of t) c f n)). std_fds g"
    using asks_std_fds [OF r assms(4)] by fastforce
qed

definition demo_fds :: fds where
  "demo_fds fd = (if fd = 0 \<or> fd = 1 \<or> fd = 2 then Some (Given (nat fd)) else None)"

lemma demo_pipeline: "parsecmd ''a<x|b c'' = Parsed (PIPE (REDIR (EXEC [(0, 1)]) (2, 3) O_RDONLY 0) (EXEC [(4, 5), (6, 7)])) 7"
  by code_simp

theorem shell_connects_as_asked_witness:
  "starts (\<lambda>_ _. True) 5 (run_line ''a<x|b c'') demo_fds 0 =
     ([(demo_fds(1 := Some (Pipe_write 0), 0 := Some (File ''x'' O_RDONLY)), ''a'', [''a'']),
       (demo_fds(0 := Some (Pipe_read 0)), ''b'', [''b'', ''c''])], 1)"
proof -
  have "std_fds demo_fds" by (simp add: std_fds_def demo_fds_def)
  then have "starts (\<lambda>_ _. True) 5 (run_line ''a<x|b c'') demo_fds 0 =
      asks (\<lambda>_ _. True) (text_of ''a<x|b c'') (PIPE (REDIR (EXEC [(0, 1)]) (2, 3) O_RDONLY 0) (EXEC [(4, 5), (6, 7)])) demo_fds 0"
    using shell_connects_as_asked [OF demo_pipeline, of 5 demo_fds "\<lambda>_ _. True" 0] by simp
  then show ?thesis by (simp add: text_of_def)
qed

end
