(* ===== verification/Programs.thy ===== *)
theory Programs
  imports User "HOL-Library.Signed_Division"
begin

text \<open>
  The small user programs: those of user/ of lab 2 and the programs of lab 1. The first argument of a
  program with loops bounds the rounds of each loop; argv is the argument vector with the name of the program first.
\<close>

abbreviation argc :: "string list \<Rightarrow> nat" where "argc argv \<equiv> length argv"

section \<open>echo, mkdir, rm, ln, kill, zombie, sleep, trace\<close>

definition echo_main :: "string list \<Rightarrow> unit prog" where
  "echo_main argv =
     andthen (each [1..<argc argv] (\<lambda>i.
       Sys (write_call 1 (argv ! i)) (\<lambda>_.
       if i + 1 < argc argv then Sys (write_call 1 '' '') (\<lambda>_. Ret ())
       else Sys (write_call 1 NL) (\<lambda>_. Ret ())))) (Exit 0)"

text \<open>A loop over the arguments that ends when a call fails.\<close>

fun until_fails :: "string list \<Rightarrow> (string \<Rightarrow> call) \<Rightarrow> string \<Rightarrow> unit prog" where
  "until_fails [] f msg = Ret ()"
| "until_fails (a # as) f msg =
     Sys (f a) (\<lambda>r. if r < 0 then fprintf 2 msg [Str (Some a)] else until_fails as f msg)"

definition mkdir_main :: "string list \<Rightarrow> unit prog" where
  "mkdir_main argv =
     (if argc argv < 2 then andthen (fprintf 2 (''Usage: mkdir files...'' @ NL) []) (Exit 1)
      else andthen (until_fails (tl argv) mkdir_call (''mkdir: %s failed to create'' @ NL)) (Exit 0))"

definition rm_main :: "string list \<Rightarrow> unit prog" where
  "rm_main argv =
     (if argc argv < 2 then andthen (fprintf 2 (''Usage: rm files...'' @ NL) []) (Exit 1)
      else andthen (until_fails (tl argv) unlink_call (''rm: %s failed to delete'' @ NL)) (Exit 0))"

definition ln_main :: "string list \<Rightarrow> unit prog" where
  "ln_main argv =
     (if argc argv \<noteq> 3 then andthen (fprintf 2 (''Usage: ln old new'' @ NL) []) (Exit 1)
      else Sys (link_call (argv ! 1) (argv ! 2)) (\<lambda>r.
        andthen (if r < 0 then fprintf 2 (''link %s %s: failed'' @ NL) [Str (Some (argv ! 1)), Str (Some (argv ! 2))] else Ret ())
          (Exit 0)))"

definition kill_main :: "string list \<Rightarrow> unit prog" where
  "kill_main argv =
     (if argc argv < 2 then andthen (fprintf 2 (''usage: kill pid...'' @ NL) []) (Exit 1)
      else andthen (each (tl argv) (\<lambda>a. Sys (kill_call (sint (atoi a))) (\<lambda>_. Ret ()))) (Exit 0))"

definition zombie_main :: "unit prog" where
  "zombie_main = Sys fork_call (\<lambda>pid. if pid > 0 then Sys (sleep_call 5) (\<lambda>_. Exit 0) else Exit 0)"

definition sleep_main :: "string list \<Rightarrow> unit prog" where
  "sleep_main argv =
     (if argc argv \<noteq> 2 then andthen (uprintf (''Sleep needs one argument!'' @ NL) []) (Exit (- 1))
      else Sys (sleep_call (sint (atoi (argv ! 1)))) (\<lambda>_.
        andthen (uprintf (''(nothing happens for a little while)'' @ NL) []) (Exit 0)))"

text \<open>The copy of the argument vector is not terminated: junk is what the stack behind it designates.\<close>

definition trace_main :: "string list \<Rightarrow> string list \<Rightarrow> unit prog" where
  "trace_main junk argv =
     (if argc argv < 3 \<or> (case argv ! 1 of [] \<Rightarrow> True | c # _ \<Rightarrow> uchar c < 48 \<or> uchar c > 57)
      then andthen (fprintf 2 (''Usage: %s mask command'' @ NL) [Str (Some (argv ! 0))]) (Exit 1)
      else Sys (trace_call (sint (atoi (argv ! 1)))) (\<lambda>r.
        if r < 0 then andthen (fprintf 2 (''%s: trace failed'' @ NL) [Str (Some (argv ! 0))]) (Exit 1)
        else Sys (exec_call (argv ! 2) (map (\<lambda>i. argv ! i) (filter (\<lambda>i. i < 32) [2..<argc argv]) @ junk)) (\<lambda>_. Exit 0)))"

section \<open>cat and wc\<close>

definition cat :: "nat \<Rightarrow> int \<Rightarrow> unit prog" where
  "cat n fd =
     bind (rounds n (\<lambda>_. Read fd 512 (\<lambda>(k, buf).
       if k > 0 then Sys (write_call 1 (take (nat k) buf)) (\<lambda>m.
         if m \<noteq> k then andthen (fprintf 2 (''cat: write error'' @ NL) []) (Exit 1) else Ret (Inl ()))
       else Ret (Inr k))) ()) (\<lambda>k.
     if k < 0 then andthen (fprintf 2 (''cat: read error'' @ NL) []) (Exit 1) else Ret ())"

definition cat_main :: "nat \<Rightarrow> string list \<Rightarrow> unit prog" where
  "cat_main n argv =
     (if argc argv \<le> 1 then andthen (cat n 0) (Exit 0)
      else andthen (each (tl argv) (\<lambda>a.
        Sys (open_call a 0) (\<lambda>fd.
        if fd < 0 then andthen (fprintf 2 (''cat: cannot open %s'' @ NL) [Str (Some a)]) (Exit 1)
        else andthen (cat n fd) (Sys (close_call fd) (\<lambda>_. Ret ()))))) (Exit 0))"

definition wc_step :: "u32 \<times> u32 \<times> u32 \<times> bool \<Rightarrow> char \<Rightarrow> u32 \<times> u32 \<times> u32 \<times> bool" where
  "wc_step st x =
     (case st of (l, w, c, inword) \<Rightarrow>
       let c = c + 1; l = (if x = CHR 0x0A then l + 1 else l) in
       if strchr [CHR '' '', CHR 0x0D, CHR 0x09, CHR 0x0A, CHR 0x0B] x \<noteq> None then (l, w, c, False)
       else if \<not> inword then (l, w + 1, c, True)
       else (l, w, c, inword))"

definition wc :: "nat \<Rightarrow> int \<Rightarrow> string \<Rightarrow> unit prog" where
  "wc n fd name =
     bind (rounds n (\<lambda>st. Read fd 512 (\<lambda>(k, buf).
       if k > 0 then Ret (Inl (foldl wc_step st (take (nat k) buf))) else Ret (Inr (k, st)))) (0, 0, 0, False)) (\<lambda>(k, l, w, c, _).
     if k < 0 then andthen (uprintf (''wc: read error'' @ NL) []) (Exit 1)
     else uprintf (''%d %d %d %s'' @ NL) [Num (ucast l), Num (ucast w), Num (ucast c), Str (Some name)])"

definition wc_main :: "nat \<Rightarrow> string list \<Rightarrow> unit prog" where
  "wc_main n argv =
     (if argc argv \<le> 1 then andthen (wc n 0 '''') (Exit 0)
      else andthen (each (tl argv) (\<lambda>a.
        Sys (open_call a 0) (\<lambda>fd.
        if fd < 0 then andthen (uprintf (''wc: cannot open %s'' @ NL) [Str (Some a)]) (Exit 1)
        else andthen (wc n fd a) (Sys (close_call fd) (\<lambda>_. Ret ()))))) (Exit 0))"

section \<open>ls and find\<close>

text \<open>A directory entry as read: the inode number and the name, 14 characters padded with zeros.\<close>

definition de_inum :: "string \<Rightarrow> int" where "de_inum d = uchar (d ! 0) + 256 * uchar (d ! 1)"
definition de_name :: "string \<Rightarrow> string" where "de_name d = take DIRSIZ (drop 2 d)"

definition c_string :: "string \<Rightarrow> string" where "c_string s = takeWhile (\<lambda>c. c \<noteq> CHR 0x00) s"

definition after_slash :: "string \<Rightarrow> string" where
  "after_slash path = rev (takeWhile (\<lambda>c. c \<noteq> CHR ''/'') (rev path))"

definition ls_fmtname :: "string \<Rightarrow> string" where
  "ls_fmtname path =
     (let p = after_slash path in
      if length p \<ge> DIRSIZ then p else p @ replicate (DIRSIZ - length p) CHR '' '')"

definition ls_line :: "string \<Rightarrow> string \<Rightarrow> stat \<Rightarrow> unit prog" where
  "ls_line fmt path st =
     uprintf fmt [Str (Some (ls_fmtname path)), Num (scast (st_type st)), Num (ucast (st_ino st)), Num (st_size st)]"

definition ls_entry :: "string \<Rightarrow> string \<Rightarrow> unit prog" where
  "ls_entry path de =
     (if de_inum de = 0 then Ret ()
      else let buf = path @ ''/'' @ c_string (de_name de) in
        bind (ustat buf) (\<lambda>(r, st).
        case st of None \<Rightarrow> uprintf (''ls: cannot stat %s'' @ NL) [Str (Some buf)]
        | Some st \<Rightarrow> ls_line (''%s %d %d %d'' @ NL) buf st))"

definition ls :: "nat \<Rightarrow> string \<Rightarrow> unit prog" where
  "ls n path =
     Sys (open_call path 0) (\<lambda>fd.
     if fd < 0 then fprintf 2 (''ls: cannot open %s'' @ NL) [Str (Some path)]
     else Fstat fd (\<lambda>(r, st).
       if r < 0 then andthen (fprintf 2 (''ls: cannot stat %s'' @ NL) [Str (Some path)]) (Sys (close_call fd) (\<lambda>_. Ret ()))
       else andthen
         (if st_type st = T_FILE then ls_line (''%s %d %d %l'' @ NL) path st
          else if st_type st = T_DIR then
            (if length path + 1 + DIRSIZ + 1 > 512 then uprintf (''ls: path too long'' @ NL) []
             else rounds n (\<lambda>_. Read fd 16 (\<lambda>(k, de).
               if k \<noteq> 16 then Ret (Inr ()) else andthen (ls_entry path de) (Ret (Inl ())))) ())
          else Ret ())
         (Sys (close_call fd) (\<lambda>_. Ret ()))))"

definition ls_main :: "nat \<Rightarrow> string list \<Rightarrow> unit prog" where
  "ls_main n argv =
     (if argc argv < 2 then andthen (ls n ''.'') (Exit 0) else andthen (each (tl argv) (ls n)) (Exit 0))"

text \<open>The static buffer of fmtname holds 15 characters.\<close>

definition find_fmtname :: "string \<Rightarrow> string option" where
  "find_fmtname path = (let p = after_slash path in if length p + 1 > DIRSIZ + 1 then None else Some p)"

definition judge :: "string \<Rightarrow> string \<Rightarrow> unit prog" where
  "judge filename name =
     (case find_fmtname filename of None \<Rightarrow> Undef
      | Some f \<Rightarrow> if ulib_strcmp f name = 0 then uprintf (''%s'' @ NL) [Str (Some filename)] else Ret ())"

text \<open>A name of 14 characters has no terminating zero in its entry: strcmp and strlen read on behind it.\<close>

primrec find_path :: "nat \<Rightarrow> nat \<Rightarrow> string \<Rightarrow> string \<Rightarrow> unit prog" where
  "find_path 0 n path filename = More"
| "find_path (Suc d) n path filename =
     Sys (open_call path 0) (\<lambda>fd.
     if fd < 0 then fprintf 2 (''ls: cannot open %s'' @ NL) [Str (Some path)]
     else Fstat fd (\<lambda>(r, st).
       if r < 0 then andthen (fprintf 2 (''ls: cannot stat %s'' @ NL) [Str (Some path)]) (Sys (close_call fd) (\<lambda>_. Ret ()))
       else andthen
         (if st_type st = T_FILE then judge path filename
          else if st_type st = T_DIR then
            (if length path + 1 + DIRSIZ + 1 > 512 then uprintf (''find: path too long'' @ NL) []
             else rounds n (\<lambda>_. Read fd 16 (\<lambda>(k, de).
               if k \<noteq> 16 then Ret (Inr ())
               else let name = c_string (de_name de) in
                 if length name = DIRSIZ then Undef
                 else if ulib_strcmp name ''.'' = 0 \<or> ulib_strcmp name ''..'' = 0 then Ret (Inl ())
                 else andthen (find_path d n (path @ ''/'' @ name) filename) (Ret (Inl ())))) ())
          else Ret ())
         (Sys (close_call fd) (\<lambda>_. Ret ()))))"

definition find_main :: "nat \<Rightarrow> nat \<Rightarrow> string list \<Rightarrow> unit prog" where
  "find_main d n argv =
     (if argc argv < 3 then andthen (fprintf 2 (''usage: find <path> <filename>'' @ NL) []) (Exit 1)
      else andthen (find_path d n (argv ! 1) (argv ! 2)) (Exit 0))"

section \<open>xargs\<close>

text \<open>The words of a piece of input that are ended by a blank or a newline; param collects the one at hand.\<close>

fun xargs_words :: "string \<Rightarrow> string \<Rightarrow> string list" where
  "xargs_words param [] = []"
| "xargs_words param (c # line) =
     (if c = CHR '' '' \<or> c = CHR 0x0A then param # xargs_words [] line else xargs_words (param @ [c]) line)"

text \<open>
  params has room for 100 pointers, the terminating one included. The arguments of xargs itself come
  first; a child whose exec fails goes on reading with the arguments that it has collected.
\<close>

definition xargs_main :: "nat \<Rightarrow> string list \<Rightarrow> unit prog" where
  "xargs_main n argv =
     (if argc argv \<ge> 100 then Undef
      else andthen (rounds n (\<lambda>params. Read 0 100 (\<lambda>(k, line).
        if k > 0 then Sys fork_call (\<lambda>pid.
          if pid = 0 then
            (let params' = params @ xargs_words [] (take (nat k) line) in
             if length params' \<ge> 100 \<or> argc argv < 2 then Undef
             else Sys (exec_call (argv ! 1) params') (\<lambda>_. Ret (Inl params')))
          else Sys wait_call (\<lambda>_. Exit 0))
        else Ret (Inr ()))) (tl argv)) (Exit 0))"

section \<open>primes\<close>

text \<open>An int as the four bytes that go through the pipe.\<close>

definition int_str :: "u32 \<Rightarrow> string" where
  "int_str v = map (\<lambda>b. char_of (unat b)) (nat_le 4 (unat v))"

definition str_int :: "string \<Rightarrow> u32" where
  "str_int s = of_nat (le_nat (map (\<lambda>c. of_nat (of_char c)) (take 4 s)))"

text \<open>The child's loop: the numbers read that temp does not divide go to the front of num.\<close>

definition sieve_round :: "int \<Rightarrow> u32 \<Rightarrow> nat \<times> u32 list \<Rightarrow> ((nat \<times> u32 list) + (nat \<times> u32 list)) prog" where
  "sieve_round fd temp st =
     (case st of (counter, num) \<Rightarrow>
       Read fd 4 (\<lambda>(k, d).
         if k = 0 then Ret (Inr (counter, num))
         else if k \<noteq> 4 \<or> temp = 0 then Undef
         else if sint (str_int d) smod sint temp \<noteq> 0 then
           (if counter < length num then Ret (Inl (Suc counter, num[counter := str_int d])) else Undef)
         else Ret (Inl (counter, num))))"

text \<open>The first argument bounds the depth of the recursion.\<close>

primrec primes :: "nat \<Rightarrow> nat \<Rightarrow> u32 list \<Rightarrow> nat \<Rightarrow> unit prog" where
  "primes 0 n num count = More"
| "primes (Suc d) n num count =
     (if count = 1 then uprintf ''prime %d'' [Num (scast (hd num))]
      else Pipe (\<lambda>(r, p0, p1).
        let temp = hd num in
        andthen (uprintf (''prime %d'' @ NL) [Num (scast temp)]) (
        Sys fork_call (\<lambda>pid.
          if pid = 0 then
            Sys (close_call p1) (\<lambda>_.
            bind (rounds n (sieve_round p0 temp) (0, num)) (\<lambda>(counter, num').
            andthen (primes d n num' counter) (
            Sys wait_call (\<lambda>_. Exit 0))))
          else
            andthen (each [1..<count] (\<lambda>i.
              Sys (write_call p1 (int_str (num ! i))) (\<lambda>m.
              if m \<noteq> 4 then andthen (fprintf 2 (''write error from parent'' @ NL) []) (Exit 1) else Ret ()))) (
            Sys (close_call p1) (\<lambda>_.
            Sys wait_call (\<lambda>_. Exit 0)))))))"

definition primes_main :: "nat \<Rightarrow> nat \<Rightarrow> string list \<Rightarrow> unit prog" where
  "primes_main d n argv =
     (if argc argv > 1 then andthen (fprintf 2 (''usage: primes'' @ NL) []) (Exit 1)
      else andthen (primes d n (map of_nat [2..<36]) 34) (Sys wait_call (\<lambda>_. Exit 0)))"

section \<open>pingpong\<close>

definition close_all :: "int list \<Rightarrow> unit prog" where
  "close_all fds = each fds (\<lambda>fd. Sys (close_call fd) (\<lambda>_. Ret ()))"

text \<open>The four characters read are not terminated: junk is what the stack holds behind them.\<close>

definition pingpong_main :: "string \<Rightarrow> string list \<Rightarrow> unit prog" where
  "pingpong_main junk argv =
     Pipe (\<lambda>(_, p10, p11). Pipe (\<lambda>(_, p20, p21).
     if argc argv > 1 then andthen (fprintf 2 (''usage:pingpang'' @ NL) []) (Exit 1)
     else Sys fork_call (\<lambda>pid.
       if pid = 0 then
         Read p10 4 (\<lambda>(n, d).
         if n < 0 then andthen (fprintf 2 (''read error from child'' @ NL) []) (Exit 1)
         else let c = c_string (d @ junk) in
           andthen (if ulib_strcmp c ''ping'' = 0 then
               Sys getpid_call (\<lambda>me.
               andthen (fprintf 1 (''%d: received %s'' @ NL) [Num (of_int me), Str (Some c)]) (
               Sys (write_call p21 ''pong'') (\<lambda>n.
               if n \<noteq> 4 then andthen (fprintf 2 (''write error from child'' @ NL) []) (Exit 1) else Ret ())))
             else Ret ()) (
           andthen (close_all [p10, p11, p20, p21]) (Exit 0)))
       else
         Sys (write_call p11 ''ping'') (\<lambda>n.
         if n \<noteq> 4 then andthen (fprintf 2 (''write error from parent'' @ NL) []) (Exit 1)
         else Read p20 4 (\<lambda>(n, d).
           if n < 0 then andthen (fprintf 2 (''read error from parent'' @ NL) []) (Exit 1)
           else let c = c_string (d @ junk) in
             andthen (if ulib_strcmp c ''pong'' = 0 then
                 Sys getpid_call (\<lambda>me. fprintf 1 (''%d: received %s'' @ NL) [Num (of_int me), Str (Some c)])
               else Ret ()) (
             andthen (close_all [p10, p11, p20, p21]) (Exit 0)))))))"

section \<open>init\<close>

text \<open>One turn of the outer loop ends when the shell that it started has been waited for.\<close>

definition init_main :: "nat \<Rightarrow> unit prog" where
  "init_main n =
     Sys (open_call ''console'' O_RDWR) (\<lambda>fd.
     andthen (if fd < 0 then Sys (mknod_call ''console'' 1 0) (\<lambda>_. Sys (open_call ''console'' O_RDWR) (\<lambda>_. Ret ())) else Ret ()) (
     Sys (dup_call 0) (\<lambda>_. Sys (dup_call 0) (\<lambda>_.
     rounds n (\<lambda>_.
       andthen (uprintf (''init: starting sh'' @ NL) []) (
       Sys fork_call (\<lambda>pid.
       if pid < 0 then andthen (uprintf (''init: fork failed'' @ NL) []) (Exit 1)
       else if pid = 0 then
         Sys (exec_call ''sh'' [''sh'']) (\<lambda>_.
         andthen (uprintf (''init: exec sh failed'' @ NL) []) (Exit 1))
       else rounds n (\<lambda>_. Sys wait_call (\<lambda>wpid.
         if wpid = pid then Ret (Inr (Inl ()))
         else if wpid < 0 then andthen (uprintf (''init: wait returned an error'' @ NL) []) (Exit 1)
         else Ret (Inl ()))) ()))) ()))))"

section \<open>forktest and stressfs\<close>

text \<open>The parent's loop: the number of children made, 1000 if fork never failed.\<close>

primrec forktest_loop :: "nat \<Rightarrow> nat \<Rightarrow> nat prog" where
  "forktest_loop 0 n = Ret n"
| "forktest_loop (Suc k) n =
     Sys fork_call (\<lambda>pid.
     if pid < 0 then Ret n else if pid = 0 then Exit 0 else forktest_loop k (Suc n))"

definition print :: "string \<Rightarrow> unit prog" where
  "print s = Sys (write_call 1 s) (\<lambda>_. Ret ())"

definition forktest_main :: "unit prog" where
  "forktest_main =
     andthen (print (''fork test'' @ NL)) (
     bind (forktest_loop 1000 0) (\<lambda>n.
     if n = 1000 then andthen (print (''fork claimed to work N times!'' @ NL)) (Exit 1)
     else andthen (each [0..<n] (\<lambda>_.
         Sys wait_call (\<lambda>r. if r < 0 then andthen (print (''wait stopped early'' @ NL)) (Exit 1) else Ret ()))) (
       Sys wait_call (\<lambda>r.
       if r \<noteq> - 1 then andthen (print (''wait got too many'' @ NL)) (Exit 1)
       else andthen (print (''fork test OK'' @ NL)) (Exit 0)))))"

text \<open>The value of i when the loop that forks is left.\<close>

primrec stress_forks :: "nat \<Rightarrow> nat \<Rightarrow> nat prog" where
  "stress_forks 0 i = Ret i"
| "stress_forks (Suc k) i = Sys fork_call (\<lambda>pid. if pid > 0 then Ret i else stress_forks k (Suc i))"

definition stressfs_main :: "unit prog" where
  "stressfs_main =
     andthen (uprintf (''stressfs starting'' @ NL) []) (
     bind (stress_forks 4 0) (\<lambda>i.
     andthen (uprintf (''write %d'' @ NL) [Num (of_nat i)]) (
     let path = ''stressfs'' @ [char_of (48 + i :: nat)]; data = replicate 512 CHR ''a'' in
     Sys (open_call path (O_CREATE OR O_RDWR)) (\<lambda>fd.
     andthen (each [0..<20] (\<lambda>_. Sys (write_call fd data) (\<lambda>_. Ret ()))) (
     Sys (close_call fd) (\<lambda>_.
     andthen (uprintf (''read'' @ NL) []) (
     Sys (open_call path O_RDONLY) (\<lambda>fd.
     andthen (each [0..<20] (\<lambda>_. Read fd 512 (\<lambda>_. Ret ()))) (
     Sys (close_call fd) (\<lambda>_.
     Sys wait_call (\<lambda>_. Exit 0)))))))))))"

end
