(* ===== verification/Programs_Facts.thy ===== *)
theory Programs_Facts
  imports Programs
begin

text \<open>
  What the small programs compute: wc against a reference count of lines, words and characters, cat as a copy, and
  numbers that are printed and read again.
\<close>

section \<open>Running a program on files read in pieces\<close>

datatype 'a outcome = Done 'a | Exited int | Running | Wrong

text \<open>
  inp gives, for every descriptor, the pieces that the next reads deliver, the end of the file after the last one; the
  result has what is left of them and what was written to descriptor 1.
\<close>

type_synonym input = "int \<Rightarrow> string list"

primrec run :: "'a prog \<Rightarrow> input \<Rightarrow> string \<Rightarrow> 'a outcome \<times> input \<times> string" where
  "run (Ret x) inp out = (Done x, inp, out)"
| "run (Exit n) inp out = (Exited n, inp, out)"
| "run More inp out = (Running, inp, out)"
| "run Undef inp out = (Wrong, inp, out)"
| "run (Sys c k) inp out =
     (case c of write_call fd d \<Rightarrow> run (k (int (length d))) inp (if fd = 1 then out @ d else out) | _ \<Rightarrow> run (k 0) inp out)"
| "run (Read fd n k) inp out =
     (case inp fd of [] \<Rightarrow> run (k (0, [])) inp out | d # ds \<Rightarrow> run (k (int (length d), d)) (inp(fd := ds)) out)"
| "run (Pipe k) inp out = run (k (- 1, 0, 0)) inp out"
| "run (Fstat fd k) inp out = (Wrong, inp, out)"
| "run (Wait k) inp out = run (k (- 1, 0)) inp out"
| "run (Sysinfo a k) inp out = (Wrong, inp, out)"

lemma run_bind:
  "run (bind p f) = (\<lambda>inp out. case run p inp out of (Done x, inp', out') \<Rightarrow> run (f x) inp' out'
     | (Exited n, r) \<Rightarrow> (Exited n, r) | (Running, r) \<Rightarrow> (Running, r) | (Wrong, r) \<Rightarrow> (Wrong, r))"
proof (induction p)
  case (Sys c k)
  then show ?case by (intro ext) (simp split: call.splits)
next
  case (Read fd n k)
  then show ?case by (intro ext) (simp split: list.splits)
qed (simp_all add: fun_eq_iff)

lemma run_each_putc [simp]: "run (each s (putc 1)) inp out = (Done (), inp, out @ s)"
  by (induction s arbitrary: out) (simp_all add: putc_def run_bind)

lemma run_putc [simp]: "run (putc 1 c) inp out = (Done (), inp, out @ [c])"
  by (simp add: putc_def)

section \<open>wc\<close>

abbreviation blank :: "char \<Rightarrow> bool" where
  "blank x \<equiv> strchr [CHR '' '', CHR 0x0D, CHR 0x09, CHR 0x0A, CHR 0x0B] x \<noteq> None"

text \<open>The reference: the pieces of a text between its blanks; the words are those that are not empty.\<close>

fun fields :: "string \<Rightarrow> string list" where
  "fields [] = [[]]"
| "fields (x # s) = (if blank x then [] # fields s else (x # hd (fields s)) # tl (fields s))"

definition line_count :: "string \<Rightarrow> nat" where "line_count s = length (filter (\<lambda>x. x = CHR 0x0A) s)"
definition word_count :: "string \<Rightarrow> nat" where "word_count s = length (filter (\<lambda>w. w \<noteq> []) (fields s))"

text \<open>The words that begin in s, when a word is or is not under way.\<close>

fun begun :: "bool \<Rightarrow> string \<Rightarrow> nat" where
  "begun b [] = 0"
| "begun b (x # s) = (if blank x then begun False s else (if b then 0 else 1) + begun True s)"

lemma fields_ne [simp]: "fields s \<noteq> []"
  by (cases s) simp_all

lemma begun_fields: "begun b s + (if b \<and> hd (fields s) \<noteq> [] then 1 else 0) = word_count s"
proof (induction s arbitrary: b)
  case (Cons x s)
  have e: "length (filter (\<lambda>w. w \<noteq> []) (fields s)) = (if hd (fields s) \<noteq> [] then 1 else 0) + length (filter (\<lambda>w. w \<noteq> []) (tl (fields s)))"
    using fields_ne [of s] by (cases "fields s") simp_all
  show ?case using Cons.IH [of True] Cons.IH [of False] e by (auto simp: word_count_def)
qed (simp add: word_count_def)

lemma wc_fold:
  "\<exists>b'. foldl wc_step (l, w, c, b) s = (l + of_nat (line_count s), w + of_nat (begun b s), c + of_nat (length s), b')"
proof (induction s arbitrary: l w c b)
  case Nil
  then show ?case by (simp add: line_count_def)
next
  case (Cons x s)
  obtain l1 w1 c1 b1 where st: "wc_step (l, w, c, b) x = (l1, w1, c1, b1)" by (metis prod_cases4)
  have v: "l1 = l + (if x = CHR 0x0A then 1 else 0)" "c1 = c + 1" "b1 \<longleftrightarrow> \<not> blank x"
    "w1 = w + (if blank x \<or> b then 0 else 1)"
    using st by (auto simp: wc_step_def Let_def split: if_splits)
  obtain b' where "foldl wc_step (l1, w1, c1, b1) s = (l1 + of_nat (line_count s), w1 + of_nat (begun b1 s), c1 + of_nat (length s), b')"
    using Cons.IH by blast
  then have "foldl wc_step (l, w, c, b) (x # s) = (l1 + of_nat (line_count s), w1 + of_nat (begun b1 s), c1 + of_nat (length s), b')"
    by (simp add: st)
  then show ?case unfolding v by (auto simp: line_count_def algebra_simps)
qed

text \<open>The loop of wc, and of cat, over the pieces of a file.\<close>

definition pieces :: "string list \<Rightarrow> bool" where
  "pieces ds \<longleftrightarrow> (\<forall>d \<in> set ds. 0 < length d \<and> length d \<le> 512)"

lemma read_all:
  assumes "pieces ds" and "length ds < n"
    and "\<And>st d inp out. run (body st (int (length d), d)) inp out = (if d = [] then (Done (Inr (fin st)), inp, out) else (Done (Inl (upd st d)), inp, out @ echo d))"
  shows "run (rounds n (\<lambda>st. Read fd 512 (body st)) st) (inp(fd := ds)) out =
    (Done (fin (foldl upd st ds)), inp(fd := []), out @ concat (map echo ds))"
  using assms(1,2)
proof (induction ds arbitrary: n st out)
  case Nil
  then obtain m where "n = Suc m" by (cases n) auto
  then show ?case using assms(3) [of st "[]"] by (simp add: run_bind fun_upd_same del: fun_upd_apply)
next
  case (Cons d ds)
  obtain m where m: "n = Suc m" using Cons.prems(2) by (cases n) auto
  have "pieces ds" "d \<noteq> []" "length ds < m" using Cons.prems m by (auto simp: pieces_def)
  then show ?case using Cons.IH [of m "upd st d" "out @ echo d"] assms(3) [of st d]
    by (simp add: m run_bind fun_upd_same del: fun_upd_apply)
qed

lemma foldl_concat: "foldl (foldl f) st ds = foldl f st (concat ds)"
  by (induction ds arbitrary: st) simp_all

lemma wc_runs:
  assumes "pieces ds" and "length ds < n"
  shows "run (wc n fd name) (inp(fd := ds)) out = (Done (), inp(fd := []),
    out @ printint_str (of_nat (line_count (concat ds))) 10 True @ '' '' @ printint_str (of_nat (word_count (concat ds))) 10 True @
      '' '' @ printint_str (of_nat (length (concat ds))) 10 True @ '' '' @ name @ NL)"
proof -
  let ?body = "\<lambda>st (k, buf). if k > 0 then Ret (Inl (foldl wc_step st (take (nat k) buf))) else Ret (Inr (k, st))"
  obtain b where f: "foldl wc_step (0, 0, 0, False) (concat ds) =
      (of_nat (line_count (concat ds)), of_nat (word_count (concat ds)), of_nat (length (concat ds)), b)"
    using wc_fold [of 0 0 0 False "concat ds"] begun_fields [of False "concat ds"] by auto
  have "run (rounds n (\<lambda>st. Read fd 512 (?body st)) (0, 0, 0, False)) (inp(fd := ds)) out =
      (Done (0, foldl (foldl wc_step) (0, 0, 0, False) ds), inp(fd := []), out @ concat (map (\<lambda>_. []) ds))"
    by (rule read_all [OF assms]) simp
  moreover have "concat (map (\<lambda>_. []) ds) = ([] :: string)" by simp
  moreover have "ucast (ucast x :: u64) = x" for x :: u32 by (rule bit_word_eqI) (simp add: bit_ucast_iff)
  ultimately show ?thesis
    by (simp add: wc_def run_bind foldl_concat f uprintf_def u_printint_def del: fun_upd_apply)
qed

section \<open>cat\<close>

lemma cat_runs:
  assumes "pieces ds" and "length ds < n"
  shows "run (cat n fd) (inp(fd := ds)) out = (Done (), inp(fd := []), out @ concat ds)"
proof -
  let ?body = "\<lambda>_ (k, buf). if k > 0 then Sys (write_call 1 (take (nat k) buf)) (\<lambda>m.
         if m \<noteq> k then andthen (fprintf 2 (''cat: write error'' @ NL) []) (Exit 1) else Ret (Inl ())) else Ret (Inr k)"
  have "run (rounds n (\<lambda>st. Read fd 512 (?body st)) ()) (inp(fd := ds)) out =
      (Done 0, inp(fd := []), out @ concat (map (\<lambda>d. d) ds))"
    by (rule read_all [OF assms, where upd = "\<lambda>_ _. ()"]) simp
  then show ?thesis by (simp add: cat_def run_bind del: fun_upd_apply)
qed

section \<open>Numbers\<close>

definition digit :: "char \<Rightarrow> bool" where "digit c \<longleftrightarrow> 48 \<le> uchar c \<and> uchar c \<le> 57"

lemma udigit: "d < 10 \<Longrightarrow> uchar (udigits ! d) = 48 + int d"
proof -
  assume "d < 10"
  then have "d \<in> {0, 1, 2, 3, 4, 5, 6, 7, 8, 9}" by auto
  then show ?thesis unfolding udigits_def by (elim insertE emptyE) simp_all
qed

lemma int_digits_digit: "c \<in> set (int_digits 10 x) \<Longrightarrow> digit c"
proof (induction "10 :: nat" x rule: int_digits.induct)
  case (1 x)
  have "digit (udigits ! (x mod 10))" using udigit [of "x mod 10"] by (simp add: digit_def)
  then show ?case using 1 by (subst (asm) int_digits.simps) (auto split: if_splits)
qed

lemma atoi_loop_append: "\<forall>c \<in> set s. digit c \<Longrightarrow> atoi_loop n (s @ t) = atoi_loop (atoi_loop n s) t"
  by (induction s arbitrary: n) (simp_all add: digit_def)

lemma atoi_digits: "atoi_loop 0 (rev (int_digits 10 x)) = of_nat x"
proof (induction "10 :: nat" x rule: int_digits.induct)
  case (1 x)
  let ?r = "if x div 10 = 0 \<or> (10 :: nat) < 2 then [] else int_digits 10 (x div 10)"
  have r: "\<forall>c \<in> set (rev ?r). digit c" using int_digits_digit by auto
  have "atoi_loop 0 (rev ?r) = of_nat (x div 10)" using 1 by auto
  then have "atoi_loop 0 (rev ?r @ [udigits ! (x mod 10)]) = of_nat (x div 10) * 10 + of_int (48 + int (x mod 10)) - 48"
    unfolding atoi_loop_append [OF r] using udigit [of "x mod 10"] by simp
  also have "\<dots> = of_nat (x div 10 * 10 + x mod 10)" by (simp only: of_nat_add of_nat_mult) simp
  finally show ?case by (subst int_digits.simps) simp
qed

lemma atoi_printint: "n < 2 ^ 31 \<Longrightarrow> atoi (printint_str n 10 sg) = n"
proof -
  assume "n < 2 ^ 31"
  then have "\<not> sint n < 0" using sint_small [of n] by simp
  then show ?thesis by (simp add: printint_str_def atoi_def Let_def atoi_digits)
qed

section \<open>Properties\<close>

text \<open>A number that a user program prints in decimal is read back by atoi as the same number, for every value
  that an int has from 0 on; so the count that wc prints, given to another program as an argument, is the count.\<close>

theorem atoi_reads_printed:
  assumes "n < 2 ^ 31"
  shows "atoi (printint_str n 10 sg) = n"
  using assms by (rule atoi_printint)

theorem atoi_reads_printed_witness: "atoi (printint_str 2048 10 True) = 2048"
  using atoi_reads_printed [of 2048 True] by simp

text \<open>C39: wc prints the number of newlines, of words and of characters of its input, however the input is cut into
  pieces by the reads, and cat writes its input unchanged; a word is a longest run of characters without
  blanks, also when it crosses the border of two reads.\<close>

theorem wc_counts_cat_copies:
  assumes "pieces ds" and "length ds < n"
  shows "run (wc n fd name) (inp(fd := ds)) out = (Done (), inp(fd := []),
    out @ printint_str (of_nat (line_count (concat ds))) 10 True @ '' '' @ printint_str (of_nat (word_count (concat ds))) 10 True @
      '' '' @ printint_str (of_nat (length (concat ds))) 10 True @ '' '' @ name @ NL) \<and>
    run (cat n fd) (inp(fd := ds)) out = (Done (), inp(fd := []), out @ concat ds)"
  using wc_runs [OF assms] cat_runs [OF assms] by blast

lemma demo_count: "line_count (''a b'' @ ''c'' @ NL) = 1" "word_count (''a b'' @ ''c'' @ NL) = 2" "printint_str 1 10 True = ''1''"
  "printint_str 2 10 True = ''2''" "printint_str 5 10 True = ''5''"
  by code_simp+

theorem wc_counts_cat_copies_witness:
  "run (wc 3 0 ''f'') ((\<lambda>_. [])(0 := [''a b'', ''c'' @ NL])) [] = (Done (), (\<lambda>_. [])(0 := []), ''1 2 5 f'' @ NL) \<and>
   run (cat 3 0) ((\<lambda>_. [])(0 := [''a b'', ''c'' @ NL])) [] = (Done (), (\<lambda>_. [])(0 := []), ''a bc'' @ NL)"
proof -
  have "pieces [''a b'', ''c'' @ NL]" by (simp add: pieces_def)
  moreover have "concat [''a b'', ''c'' @ NL] = ''a b'' @ ''c'' @ NL" "length (''a b'' @ ''c'' @ NL) = 5" by simp_all
  ultimately show ?thesis
    using wc_counts_cat_copies [of "[''a b'', ''c'' @ NL]" 3 0 "''f''" "\<lambda>_. []" "[]"] demo_count by simp
qed

end
