(* ===== verification/Umalloc.thy ===== *)
theory Umalloc
  imports User
begin

text \<open>
  user/umalloc.c: the allocator of Kernighan and Ritchie. The free blocks of a process form a ring in the
  order of their addresses, linked through headers that lie in the memory of the process itself, so that
  the headers, the memory of the clients and the static header base share one byte-addressed memory. The
  theorems show what free and malloc do to the set of free bytes, and that the blocks in use never
  overlap each other, the free blocks or the headers, whatever the clients write into their blocks.
\<close>

section \<open>Headers\<close>

text \<open>A header has 16 bytes: the pointer at offset 0, the size in units of a header at offset 8.\<close>

definition load32 :: "memory \<Rightarrow> u64 \<Rightarrow> u32" where
  "load32 m a = of_nat (le_nat (rd m a 4))"

definition store32 :: "memory \<Rightarrow> u64 \<Rightarrow> u32 \<Rightarrow> memory" where
  "store32 m a v = wr m a (nat_le 4 (unat v))"

definition hptr :: "memory \<Rightarrow> u64 \<Rightarrow> u64" where "hptr m a = load64 m a"

definition hsize :: "memory \<Rightarrow> u64 \<Rightarrow> u32" where "hsize m a = load32 m (a + 8)"

definition set_hptr :: "u64 \<Rightarrow> u64 \<Rightarrow> memory \<Rightarrow> memory" where "set_hptr a v m = store64 m a v"

definition set_hsize :: "u64 \<Rightarrow> u32 \<Rightarrow> memory \<Rightarrow> memory" where "set_hsize a n m = store32 m (a + 8) n"

text \<open>Pointer arithmetic on Header*.\<close>

definition hadd :: "u64 \<Rightarrow> u32 \<Rightarrow> u64" where "hadd a n = a + 16 * ucast n"

text \<open>The memory of the process and the static freep; the address of the static base is an argument.\<close>

record ualloc =
  umem :: memory
  freep :: u64

section \<open>free\<close>

text \<open>The condition under which the search of free goes on from p.\<close>

definition free_goes_on :: "memory \<Rightarrow> u64 \<Rightarrow> u64 \<Rightarrow> bool" where
  "free_goes_on m bp p =
     (\<not> (bp > p \<and> bp < hptr m p) \<and> \<not> (p \<ge> hptr m p \<and> (bp > p \<or> bp < hptr m p)))"

definition free_upper :: "u64 \<Rightarrow> u64 \<Rightarrow> memory \<Rightarrow> memory" where
  "free_upper bp p m =
     (if hadd bp (hsize m bp) = hptr m p
      then let m = set_hsize bp (hsize m bp + hsize m (hptr m p)) m
           in set_hptr bp (hptr m (hptr m p)) m
      else set_hptr bp (hptr m p) m)"

definition free_lower :: "u64 \<Rightarrow> u64 \<Rightarrow> memory \<Rightarrow> memory" where
  "free_lower bp p m =
     (if hadd p (hsize m p) = bp
      then let m = set_hsize p (hsize m p + hsize m bp) m in set_hptr p (hptr m bp) m
      else set_hptr p bp m)"

definition ufree :: "u64 \<Rightarrow> ualloc \<Rightarrow> stop + ualloc" where
  "ufree ap s =
     (let bp = ap - 16
      in case kwhile (free_goes_on (umem s) bp) (hptr (umem s)) (freep s) of
           Inl e \<Rightarrow> Inl e
         | Inr p \<Rightarrow> Inr (s\<lparr>umem := free_lower bp p (free_upper bp p (umem s)), freep := p\<rparr>))"

section \<open>malloc\<close>

definition core_units :: "u32 \<Rightarrow> u32" where
  "core_units nu = (if nu < 4096 then 4096 else nu)"

text \<open>sbrk takes an int, to which the number of bytes is cut.\<close>

definition morecore :: "u32 \<Rightarrow> ualloc \<Rightarrow> (u64 \<times> ualloc) prog" where
  "morecore nu s =
     (let nu = core_units nu
      in bind (sys (sbrk_call (sint (ucast (ucast nu * 16 :: u64) :: u32)))) (\<lambda>r.
           let p = word_of_int r :: u64
           in if p = - 1 then Ret (0, s)
              else case ufree (p + 16) (s\<lparr>umem := set_hsize p nu (umem s)\<rparr>) of
                     Inl _ \<Rightarrow> More
                   | Inr s' \<Rightarrow> Ret (freep s', s')))"

definition nunits_of :: "u32 \<Rightarrow> u32" where
  "nunits_of nbytes = ucast ((ucast nbytes + 16 - 1) div 16 + 1 :: u64)"

text \<open>A block that fits is unlinked, or its upper part is cut off.\<close>

definition take_block :: "u32 \<Rightarrow> u64 \<Rightarrow> u64 \<Rightarrow> ualloc \<Rightarrow> u64 \<times> ualloc" where
  "take_block nunits prevp p s =
     (let m = umem s
      in if hsize m p = nunits then (p + 16, s\<lparr>umem := set_hptr prevp (hptr m p) m, freep := prevp\<rparr>)
         else let m = set_hsize p (hsize m p - nunits) m;
                  p = hadd p (hsize m p)
              in (p + 16, s\<lparr>umem := set_hsize p nunits m, freep := prevp\<rparr>))"

definition malloc_round :: "u32 \<Rightarrow> u64 \<times> u64 \<times> ualloc \<Rightarrow> ((u64 \<times> u64 \<times> ualloc) + (u64 \<times> ualloc)) prog" where
  "malloc_round nunits = (\<lambda>(prevp, p, s).
     if hsize (umem s) p \<ge> nunits then Ret (Inr (take_block nunits prevp p s))
     else if p = freep s then
       bind (morecore nunits s) (\<lambda>(p, s).
         if p = 0 then Ret (Inr (0, s)) else Ret (Inl (p, hptr (umem s) p, s)))
     else Ret (Inl (p, hptr (umem s) p, s)))"

definition malloc_init :: "u64 \<Rightarrow> ualloc \<Rightarrow> ualloc" where
  "malloc_init base s =
     (if freep s = 0 then s\<lparr>umem := set_hsize base 0 (set_hptr base base (umem s)), freep := base\<rparr> else s)"

text \<open>malloc, with a bound n on the rounds of its loop.\<close>

definition malloc :: "nat \<Rightarrow> u64 \<Rightarrow> u32 \<Rightarrow> ualloc \<Rightarrow> (u64 \<times> ualloc) prog" where
  "malloc n base nbytes s =
     (let s = malloc_init base s; prevp = freep s
      in rounds n (malloc_round (nunits_of nbytes)) (prevp, hptr (umem s) prevp, s))"

section \<open>Headers in memory\<close>

lemma load32_store32 [simp]: "load32 (store32 m a v) a = v"
proof -
  have "rd (wr m a (nat_le 4 (unat v))) a (length (nat_le 4 (unat v))) = nat_le 4 (unat v)"
    by (rule rd_wr_same) simp
  moreover have "unat v < 256 ^ 4" using u32_lt [of v] by simp
  ultimately show ?thesis by (simp add: load32_def store32_def le_nat_nat_le)
qed

text \<open>Headers that do not overlap.\<close>

definition apart :: "u64 \<Rightarrow> u64 \<Rightarrow> bool" where
  "apart a b \<longleftrightarrow> 16 \<le> unat (b - a) \<and> 16 \<le> unat (a - b)"

lemma apart_sym: "apart a b \<Longrightarrow> apart b a"
  by (simp add: apart_def)

lemma apart_irrefl [simp]: "\<not> apart a a"
  by (simp add: apart_def)

lemma apart_off:
  assumes "apart a b" and "i < 16"
  shows "16 \<le> unat (b + of_nat i - a)"
proof -
  have i: "unat (of_nat i :: u64) = i" using assms by (simp add: unat_of_nat)
  have "unat (b - a) + unat (a - b) = 2 ^ 64"
    using assms(1) by (auto simp: apart_def unat_sub_if' split: if_splits)
  then have "unat (b - a + of_nat i) = unat (b - a) + i"
    using assms i by (simp add: apart_def unat_word_ariths)
  moreover have "b + of_nat i - a = b - a + of_nat i" by simp
  ultimately have "unat (b + of_nat i - a) = unat (b - a) + i" by (simp only:)
  then show ?thesis using assms(1) unfolding apart_def by linarith
qed

lemma apartI:
  assumes "unat a + 16 \<le> unat b" and "unat b \<le> 2147483648"
  shows "apart a b" "apart b a"
proof -
  have "unat (b - a) = unat b - unat a" "unat (a - b) = 18446744073709551616 + unat a - unat b"
    using assms by (simp_all add: unat_sub_if')
  then show "apart a b" "apart b a" using assms unfolding apart_def by linarith+
qed

text \<open>The writes to a header leave the bytes outside of it as they are.\<close>

lemma set_hptr_outside: "16 \<le> unat (x - a) \<Longrightarrow> set_hptr a v m x = m x"
  by (simp add: set_hptr_def store64_def wr_outside)

lemma set_hsize_outside:
  assumes "16 \<le> unat (x - a)"
  shows "set_hsize a n m x = m x"
proof -
  have "unat (x - a - 8) = unat (x - a) - 8" using assms by (simp add: unat_sub_if')
  moreover have "x - (a + 8) = x - a - 8" by simp
  ultimately have "unat (x - (a + 8)) = unat (x - a) - 8" by (simp only:)
  then have "4 \<le> unat (x - (a + 8))" using assms by linarith
  then show ?thesis by (simp add: set_hsize_def store32_def wr_outside)
qed

lemma set_header_other [simp]:
  assumes "apart a b"
  shows "hptr (set_hptr a v m) b = hptr m b" "hsize (set_hptr a v m) b = hsize m b"
    "hptr (set_hsize a n m) b = hptr m b" "hsize (set_hsize a n m) b = hsize m b"
proof -
  have out: "16 \<le> unat (b + of_nat i - a)" if "i < 16" for i
    using apart_off [OF assms that] .
  have in8: "b + 8 + of_nat i = b + of_nat (i + 8)" for i by simp
  show "hptr (set_hptr a v m) b = hptr m b" "hptr (set_hsize a n m) b = hptr m b"
    unfolding hptr_def load64_def
    by (auto intro!: arg_cong [where f = "\<lambda>bs. of_nat (le_nat bs)"] rd_cong set_hptr_outside set_hsize_outside out)
  show "hsize (set_hptr a v m) b = hsize m b" "hsize (set_hsize a n m) b = hsize m b"
    unfolding hsize_def load32_def
    by (auto intro!: arg_cong [where f = "\<lambda>bs. of_nat (le_nat bs)"] rd_cong set_hptr_outside set_hsize_outside out
        simp only: in8)
qed

lemma set_header_same [simp]:
  "hptr (set_hptr a v m) a = v" "hsize (set_hsize a n m) a = n"
  by (simp_all add: hptr_def set_hptr_def hsize_def set_hsize_def)

lemma set_hptr_hsize [simp]: "hsize (set_hptr a v m) a = hsize m a"
proof -
  have "set_hptr a v m (a + 8 + of_nat i) = m (a + 8 + of_nat i)" if "i < 4" for i
  proof -
    have "a + 8 + of_nat i - a = of_nat (i + 8)" by simp
    then show ?thesis using that
      by (simp add: set_hptr_def store64_def wr_outside unat_of_nat del: of_nat_add)
  qed
  then show ?thesis unfolding hsize_def load32_def by (simp cong: rd_cong)
qed

lemma set_hsize_hptr [simp]: "hptr (set_hsize a n m) a = hptr m a"
proof -
  have "set_hsize a n m (a + of_nat i) = m (a + of_nat i)" if "i < 8" for i
  proof -
    have "a + of_nat i - (a + 8) = of_nat i - 8" by simp
    moreover have "unat (of_nat i - 8 :: u64) = 2 ^ 64 + i - 8" using that by (simp add: unat_sub_if' unat_of_nat)
    ultimately show ?thesis by (simp add: set_hsize_def store32_def wr_outside)
  qed
  then show ?thesis unfolding hptr_def load64_def by (simp cong: rd_cong)
qed

section \<open>The ring of free blocks\<close>

text \<open>
  A block is its address and its size in units. seg describes a segment of the linked list of headers; the free
  ring is a segment from base to base, in the order of the addresses, without two blocks that touch.
\<close>

type_synonym block = "u64 \<times> u32"

fun seg :: "memory \<Rightarrow> u64 \<Rightarrow> block list \<Rightarrow> u64 \<Rightarrow> bool" where
  "seg m a [] z = (a = z)"
| "seg m a ((b, n) # bs) z = (a = b \<and> hsize m b = n \<and> seg m (hptr m b) bs z)"

definition bytes :: "block \<Rightarrow> nat set" where
  "bytes b = {unat (fst b)..<unat (fst b) + 16 * unat (snd b)}"

definition area :: "block list \<Rightarrow> nat set" where
  "area bs = (\<Union>b\<in>set bs. bytes b)"

definition below :: "block \<Rightarrow> block \<Rightarrow> bool" where
  "below b c \<longleftrightarrow> unat (fst b) + 16 * unat (snd b) < unat (fst c) \<and> unat (fst b) + 16 \<le> unat (fst c)"

text \<open>The end of the memory that a process can have: sbrk gives its address as an int.\<close>

definition heap_block :: "block \<Rightarrow> bool" where
  "heap_block b \<longleftrightarrow> 0 < snd b \<and> unat (fst b) + 16 * unat (snd b) \<le> 2147483648"

definition free_ring :: "u64 \<Rightarrow> ualloc \<Rightarrow> block list \<Rightarrow> bool" where
  "free_ring base s fs \<longleftrightarrow>
     seg (umem s) base ((base, 0) # fs) base \<and> sorted_wrt below ((base, 0) # fs) \<and>
     list_all heap_block fs \<and> freep s \<in> fst ` set ((base, 0) # fs)"

lemma area_simps [simp]: "area [] = {}" "area (b # bs) = bytes b \<union> area bs" "area (bs @ cs) = area bs \<union> area cs"
  by (auto simp: area_def)

lemma bytes_empty [simp]: "bytes (a, 0) = {}"
  by (simp add: bytes_def)

lemma seg_append:
  "seg m a (bs @ cs) z \<longleftrightarrow> (\<exists>y. seg m a bs y \<and> seg m y cs z)"
  by (induction m a bs z rule: seg.induct) auto

lemma seg_cong:
  assumes "\<And>b. b \<in> fst ` set bs \<Longrightarrow> hptr m' b = hptr m b \<and> hsize m' b = hsize m b"
  shows "seg m' a bs z = seg m a bs z"
  using assms by (induction m a bs z rule: seg.induct) auto

lemma seg_cong_apart:
  assumes "seg m a bs z" and "\<And>c. c \<in> fst ` set bs \<Longrightarrow> apart x c"
  shows "seg (set_hptr x v m) a bs z" "seg (set_hsize x n m) a bs z"
  using assms by (subst seg_cong [where m = m]; auto)+

lemma seg_start: "seg m a bs z \<Longrightarrow> a = (if bs = [] then z else fst (hd bs))"
  by (cases bs) auto

lemma seg_size: "seg m a bs z \<Longrightarrow> b \<in> set bs \<Longrightarrow> hsize m (fst b) = snd b"
  by (induction m a bs z rule: seg.induct) auto

text \<open>Where a walk along a segment does not stop, it reaches the end of the segment.\<close>

lemma kwhile_step: "b x \<Longrightarrow> kwhile b c x = kwhile b c (c x)"
  unfolding kwhile_def by (subst while_option_unfold) simp

lemma kwhile_stop: "\<not> b x \<Longrightarrow> kwhile b c x = Inr x"
  unfolding kwhile_def by (subst while_option_unfold) simp

lemma kwhile_seg:
  "seg m a bs z \<Longrightarrow> (\<And>c. c \<in> fst ` set bs \<Longrightarrow> go c) \<Longrightarrow> kwhile go (hptr m) a = kwhile go (hptr m) z"
  by (induction m a bs z rule: seg.induct) (auto simp: kwhile_step)

text \<open>From any place of the ring a walk that stops at one place only gets there.\<close>

lemma kwhile_ring:
  assumes ring: "seg m x (L @ (p, n) # R) x" and a: "a \<in> fst ` set (L @ (p, n) # R)"
    and go: "\<And>c. c \<in> fst ` set (L @ R) \<Longrightarrow> go c" and stop: "\<not> go p"
  shows "kwhile go (hptr m) a = Inr p"
proof -
  have L: "seg m x L p" and R: "seg m (hptr m p) R x" using ring by (auto simp: seg_append)
  have p: "kwhile go (hptr m) p = Inr p" using stop by (rule kwhile_stop)
  have x: "kwhile go (hptr m) x = Inr p" using kwhile_seg [OF L, of go] go p by (auto simp: image_Un)
  consider "a = p" | k S T where "L = S @ (a, k) # T" | k S T where "R = S @ (a, k) # T"
    using a by (auto dest!: split_list)
  then show ?thesis
  proof cases
    case 2
    then have "seg m a ((a, k) # T) p" using L by (auto simp: seg_append)
    from kwhile_seg [OF this, of go] show ?thesis using go p 2 by auto
  next
    case 3
    then have "seg m a ((a, k) # T) x" using R by (auto simp: seg_append)
    from kwhile_seg [OF this, of go] show ?thesis using go x 3 by auto
  qed (simp add: p)
qed

section \<open>free\<close>

text \<open>The blocks of the ring that end before the block b, and those that begin behind it.\<close>

definition before :: "block \<Rightarrow> block \<Rightarrow> bool" where
  "before b c \<longleftrightarrow> unat (fst c) + 16 * unat (snd c) \<le> unat (fst b) \<and> unat (fst c) + 16 \<le> unat (fst b)"

definition behind :: "block \<Rightarrow> block \<Rightarrow> bool" where
  "behind b c \<longleftrightarrow> unat (fst b) + 16 * unat (snd b) \<le> unat (fst c)"

lemma unat_pos: "0 < (n :: u32) \<longleftrightarrow> 0 < unat n"
  by (simp add: word_less_nat_alt)

lemma intervals_apart:
  fixes a b c d :: nat
  assumes "{a..<b} \<inter> {c..<d} = {}" and "a < b" and "c < d"
  shows "b \<le> c \<or> d \<le> a"
proof (rule ccontr)
  assume "\<not> ?thesis"
  then have "max a c \<in> {a..<b} \<inter> {c..<d}" using assms(2,3) by auto
  with assms(1) show False by simp
qed

lemma before_or_behind:
  assumes "heap_block b" and "heap_block c" and "bytes b \<inter> bytes c = {}"
  shows "before b c \<or> behind b c"
proof -
  have "0 < unat (snd b)" "0 < unat (snd c)" using assms(1,2) by (simp_all add: heap_block_def unat_pos)
  then have "unat (fst b) + 16 * unat (snd b) \<le> unat (fst c) \<or> unat (fst c) + 16 * unat (snd c) \<le> unat (fst b)"
    using assms(3) unfolding bytes_def by (intro intervals_apart) auto
  then show ?thesis using \<open>0 < unat (snd c)\<close> unfolding before_def behind_def by linarith
qed

lemma behind_below: "behind b c \<Longrightarrow> below c d \<Longrightarrow> behind b d"
  by (auto simp: behind_def below_def)

lemma ring_split:
  assumes "sorted_wrt below (r # rs)" and "before b r" and "list_all (\<lambda>c. before b c \<or> behind b c) rs"
  shows "\<exists>L p R. r # rs = L @ p # R \<and> list_all (before b) L \<and> before b p \<and> list_all (behind b) R"
  using assms
proof (induction rs arbitrary: r)
  case Nil
  then show ?case by (intro exI [of _ "[]"] exI [of _ r]) simp
next
  case (Cons c rs)
  show ?case
  proof (cases "before b c")
    case True
    then obtain L p R where "c # rs = L @ p # R" "list_all (before b) L" "before b p" "list_all (behind b) R"
      using Cons.IH [of c] Cons.prems by auto
    then show ?thesis using Cons.prems(2) by (intro exI [of _ "r # L"] exI [of _ p] exI [of _ R]) simp
  next
    case False
    then have "behind b c" using Cons.prems by simp
    then have "list_all (behind b) (c # rs)"
      using Cons.prems(1) by (auto simp: list_all_iff intro: behind_below)
    then show ?thesis using Cons.prems(2) by (intro exI [of _ "[]"] exI [of _ r] exI [of _ "c # rs"]) simp
  qed
qed

text \<open>A place for the block b in the ring: b lies between p and what follows p.\<close>

definition place :: "u64 \<Rightarrow> block list \<Rightarrow> block \<Rightarrow> block list \<Rightarrow> block \<Rightarrow> block list \<Rightarrow> bool" where
  "place base fs b L p R \<longleftrightarrow>
     (base, 0) # fs = L @ p # R \<and> list_all (before b) L \<and> before b p \<and> list_all (behind b) R"

lemma place_exists:
  assumes "free_ring base s fs" and "unat base + 16 \<le> unat (fst b)" and "heap_block b"
    and "bytes b \<inter> area fs = {}"
  shows "\<exists>L p R. place base fs b L p R"
proof -
  have "before b c \<or> behind b c" if "c \<in> set fs" for c
  proof (rule before_or_behind [OF assms(3)])
    show "heap_block c" using assms(1) that by (simp add: free_ring_def list_all_iff)
    show "bytes b \<inter> bytes c = {}" using assms(4) that unfolding area_def by blast
  qed
  then have "list_all (\<lambda>c. before b c \<or> behind b c) fs" by (simp add: list_all_iff)
  moreover have "before b (base, 0)" using assms(2) by (simp add: before_def)
  ultimately show ?thesis using assms(1) ring_split [of "(base, 0)" fs b]
    by (auto simp: free_ring_def place_def)
qed

lemma before_less: "before b c \<Longrightarrow> fst c < fst b"
  by (simp add: before_def word_less_nat_alt)

lemma behind_less: "heap_block b \<Longrightarrow> behind b c \<Longrightarrow> fst b < fst c"
  by (simp add: behind_def heap_block_def word_less_nat_alt)

lemma below_less: "below b c \<Longrightarrow> fst b < fst c"
  by (simp add: below_def word_less_nat_alt)

lemma seg_next:
  assumes "seg m a bs z" and "sorted_wrt below bs" and "c \<in> fst ` set bs"
  shows "hptr m c = z \<or> c < hptr m c \<and> hptr m c \<in> fst ` set bs"
  using assms
proof (induction m a bs z rule: seg.induct)
  case (2 m a b n bs z)
  show ?case
  proof (cases "c = b")
    case True
    then show ?thesis using 2(2,3) by (cases bs) (auto dest: below_less)
  next
    case False
    then show ?thesis using 2 by auto
  qed
qed simp

lemma place_next:
  assumes "seg m base (L @ (p, n) # R) base"
  shows "hptr m p = (if R = [] then base else fst (hd R))"
  using assms by (auto simp: seg_append dest: seg_start)

lemma free_search:
  assumes ring: "free_ring base s fs" and b: "heap_block b" and pl: "place base fs b L (p, n) R"
  shows "kwhile (free_goes_on (umem s) (fst b)) (hptr (umem s)) (freep s) = Inr p"
proof -
  let ?m = "umem s"
  have eq: "(base, 0) # fs = L @ (p, n) # R" using pl by (simp add: place_def)
  have ch: "seg ?m base (L @ (p, n) # R) base" and srt: "sorted_wrt below (L @ (p, n) # R)"
    and fp: "freep s \<in> fst ` set (L @ (p, n) # R)"
    using ring eq unfolding free_ring_def by simp_all
  have pb: "p < fst b" using pl before_less [of b "(p, n)"] by (simp add: place_def)
  have Lb: "c < fst b" if "c \<in> fst ` set L" for c
    using that pl before_less [of b] by (auto simp: place_def list_all_iff)
  have Rb: "fst b < c" if "c \<in> fst ` set R" for c
    using that pl behind_less [OF b] by (auto simp: place_def list_all_iff)
  have base: "base \<le> p" "base < fst b" using eq pb Lb [of base] srt below_less [of "(base, 0)" "(p, n)"]
    by (cases L; auto simp: sorted_wrt_append dest: below_less)+
  show ?thesis
  proof (rule kwhile_ring [OF ch fp])
    fix c assume "c \<in> fst ` set (L @ R)"
    then consider "c \<in> fst ` set L" | "c \<in> fst ` set R" by auto
    then show "free_goes_on ?m (fst b) c"
    proof cases
      case 1
      then have "hptr ?m c = p \<or> c < hptr ?m c \<and> hptr ?m c \<in> fst ` set L"
        using ch srt by (intro seg_next) (auto simp: seg_append sorted_wrt_append)
      moreover have "c < p" using 1 srt below_less [of _ "(p, n)"] by (force simp: sorted_wrt_append)
      ultimately have "c < hptr ?m c \<and> hptr ?m c < fst b" using pb Lb by metis
      then show ?thesis unfolding free_goes_on_def by auto
    next
      case 2
      have "hptr ?m c = base \<or> c < hptr ?m c \<and> hptr ?m c \<in> fst ` set R"
        using 2 ch srt by (intro seg_next [of ?m "hptr ?m p"]) (auto simp: seg_append sorted_wrt_append)
      then show ?thesis using base Rb [OF 2] unfolding free_goes_on_def by auto
    qed
  next
    show "\<not> free_goes_on ?m (fst b) p"
      using place_next [OF ch] pb base Rb [of "fst (hd R)"] unfolding free_goes_on_def by (cases R) auto
  qed
qed

text \<open>What the two joins of free do to the list of the free blocks.\<close>

definition join_upper :: "block \<Rightarrow> block list \<Rightarrow> block \<times> block list" where
  "join_upper b R =
     (case R of [] \<Rightarrow> (b, [])
      | c # R' \<Rightarrow> if hadd (fst b) (snd b) = fst c then ((fst b, snd b + snd c), R') else (b, R))"

definition join_lower :: "block \<Rightarrow> block \<Rightarrow> block list" where
  "join_lower p b = (if hadd (fst p) (snd p) = fst b then [(fst p, snd p + snd b)] else [p, b])"

lemma unat_hadd:
  assumes "unat a + 16 * unat n \<le> 2147483648"
  shows "unat (hadd a n) = unat a + 16 * unat n"
proof -
  have "unat (ucast n :: u64) = unat n"
    using u32_lt [of n] by (simp add: unsigned_ucast_eq take_bit_nat_eq_self)
  then show ?thesis using assms by (simp add: hadd_def unat_word_ariths)
qed

lemma hadd_eq_iff:
  assumes "unat a + 16 * unat n \<le> 2147483648"
  shows "hadd a n = c \<longleftrightarrow> unat a + 16 * unat n = unat c"
  using unat_hadd [OF assms] u_eqI by metis

lemma free_upper_seg:
  assumes L: "seg m base L p" and R: "seg m (hptr m p) R base"
    and ap: "apart bp p" "\<And>c. c \<in> fst ` set (L @ R) \<Longrightarrow> apart bp c"
    and nb: "hadd bp (hsize m bp) \<noteq> base"
    and j: "join_upper (bp, hsize m bp) R = (b, R')"
  shows "seg (free_upper bp p m) base L p \<and> hsize (free_upper bp p m) p = hsize m p
    \<and> seg (free_upper bp p m) bp (b # R') base \<and> fst b = bp"
proof -
  have sL: "\<And>c. c \<in> fst ` set L \<Longrightarrow> apart bp c" and sR: "\<And>c. c \<in> fst ` set R \<Longrightarrow> apart bp c"
    using ap(2) by auto
  show ?thesis
  proof (cases R)
    case Nil
    then have "hptr m p = base" using R by simp
    then have "free_upper bp p m = set_hptr bp base m" using nb by (simp add: free_upper_def)
    moreover have "seg (set_hptr bp base m) base L p" using L sL by (rule seg_cong_apart)
    ultimately show ?thesis using j Nil ap by (auto simp: join_upper_def)
  next
    case (Cons c cs)
    obtain q k where c: "c = (q, k)" by (cases c)
    have q: "hptr m p = q" "hsize m q = k" "seg m (hptr m q) cs base" using R Cons c by auto
    have aq: "apart bp q" and cs: "\<And>c. c \<in> fst ` set cs \<Longrightarrow> apart bp c" using sR Cons c by auto
    show ?thesis
    proof (cases "hadd bp (hsize m bp) = q")
      case True
      let ?m = "set_hsize bp (hsize m bp + k) m"
      have "free_upper bp p m = set_hptr bp (hptr m q) ?m"
        using True q ap(1) aq by (simp add: free_upper_def Let_def)
      moreover have "b = (bp, hsize m bp + k)" "R' = cs"
        using j Cons c True by (simp_all add: join_upper_def)
      moreover have "seg (set_hptr bp (hptr m q) ?m) base L p"
        using L sL by (intro seg_cong_apart)
      moreover have "seg (set_hptr bp (hptr m q) ?m) (hptr m q) cs base"
        using q(3) cs by (intro seg_cong_apart)
      ultimately show ?thesis using ap(1) by simp
    next
      case False
      then have "free_upper bp p m = set_hptr bp q m" using q by (simp add: free_upper_def)
      moreover have "b = (bp, hsize m bp)" "R' = R"
        using j Cons c False by (auto simp: join_upper_def)
      moreover have "seg (set_hptr bp q m) base L p" using L sL by (rule seg_cong_apart)
      moreover have "seg (set_hptr bp q m) q R base" using R sR q by (intro seg_cong_apart) auto
      ultimately show ?thesis using ap(1) by simp
    qed
  qed
qed

lemma free_lower_seg:
  assumes L: "seg m base L p" and R: "seg m bp (b # R) base" and b: "fst b = bp"
    and ap: "apart p bp" "\<And>c. c \<in> fst ` set (L @ R) \<Longrightarrow> apart p c"
  shows "seg (free_lower bp p m) base (L @ join_lower (p, hsize m p) b @ R) base"
proof -
  have sL: "\<And>c. c \<in> fst ` set L \<Longrightarrow> apart p c" and sR: "\<And>c. c \<in> fst ` set R \<Longrightarrow> apart p c"
    using ap(2) by auto
  obtain n where n: "b = (bp, n)" "hsize m bp = n" "seg m (hptr m bp) R base" using R b by (cases b) auto
  show ?thesis
  proof (cases "hadd p (hsize m p) = bp")
    case True
    let ?m = "set_hptr p (hptr m bp) (set_hsize p (hsize m p + n) m)"
    have "free_lower bp p m = ?m" using True n ap(1) by (simp add: free_lower_def Let_def)
    moreover have "seg ?m base L p" using L sL by (intro seg_cong_apart)
    moreover have "seg ?m (hptr m bp) R base" using n(3) sR by (intro seg_cong_apart)
    ultimately show ?thesis using True n by (auto simp: join_lower_def seg_append)
  next
    case False
    then have "free_lower bp p m = set_hptr p bp m" by (simp add: free_lower_def)
    moreover have "seg (set_hptr p bp m) base L p" using L sL by (rule seg_cong_apart)
    moreover have "seg (set_hptr p bp m) (hptr m bp) R base" using n(3) sR by (rule seg_cong_apart)
    ultimately show ?thesis using False n ap(1) by (auto simp: join_lower_def seg_append)
  qed
qed

lemma unat_add_sizes:
  assumes "16 * (unat n + unat k) \<le> 2147483648"
  shows "unat (n + k :: u32) = unat n + unat k"
  using assms by (simp add: unat_word_ariths)

lemma join_upper_spec:
  assumes b: "heap_block b" and R: "list_all heap_block R" "list_all (behind b) R" "sorted_wrt below R"
    and j: "join_upper b R = (b', R')"
  shows "heap_block b' \<and> fst b' = fst b \<and> unat (snd b) \<le> unat (snd b') \<and> set R' \<subseteq> set R
    \<and> sorted_wrt below (b' # R') \<and> area (b' # R') = bytes b \<union> area R"
proof (cases R)
  case Nil
  then show ?thesis using b j by (auto simp: join_upper_def area_def)
next
  case (Cons c cs)
  have c: "heap_block c" "behind b c" and cs: "list_all (below c) cs" "sorted_wrt below cs"
    using R Cons by (simp_all add: list_all_iff)
  have hb: "unat (fst b) + 16 * unat (snd b) \<le> 2147483648" "0 < unat (snd b)"
    "unat (fst c) + 16 * unat (snd c) \<le> 2147483648" "0 < unat (snd c)"
    using b c by (simp_all add: heap_block_def unat_pos)
  show ?thesis
  proof (cases "hadd (fst b) (snd b) = fst c")
    case True
    then have eq: "unat (fst c) = unat (fst b) + 16 * unat (snd b)" using hadd_eq_iff [OF hb(1)] by simp
    have u: "unat (snd b + snd c) = unat (snd b) + unat (snd c)" using hb eq by (intro unat_add_sizes) simp
    have b': "b' = (fst b, snd b + snd c)" "R' = cs" using j Cons True by (simp_all add: join_upper_def)
    have "list_all (below b') cs" using cs(1) eq u hb unfolding b' below_def by (auto simp: list_all_iff)
    moreover have "bytes b' = bytes b \<union> bytes c" using eq u hb unfolding b' bytes_def by auto
    ultimately show ?thesis using cs hb u eq Cons unfolding b'
      by (auto simp: heap_block_def unat_pos area_def list_all_iff)
  next
    case False
    then have "below b c" using c(2) hb hadd_eq_iff [OF hb(1)] by (auto simp: below_def behind_def)
    moreover from this have "below b d" if "d \<in> set cs" for d
      using cs(1) that hb by (auto simp: list_all_iff below_def)
    moreover have "b' = b" "R' = R" using j Cons False by (simp_all add: join_upper_def)
    ultimately show ?thesis using b R Cons by (auto simp: area_def)
  qed
qed

lemma below_mono: "below c p \<Longrightarrow> unat (fst p) \<le> unat (fst d) \<Longrightarrow> below c d"
  unfolding below_def by linarith

lemma join_lower_spec:
  assumes p: "unat (fst p) + 16 * unat (snd p) \<le> 2147483648" "before b p"
    and b: "heap_block b" and L: "sorted_wrt below (L @ [p])" and R: "sorted_wrt below (b # R)"
  shows "sorted_wrt below (L @ join_lower p b @ R) \<and> area (join_lower p b) = bytes p \<union> bytes b
    \<and> (\<forall>c \<in> set (join_lower p b). heap_block c \<or> c = p) \<and> (\<exists>c \<in> set (join_lower p b). unat (snd b) \<le> unat (snd c))"
proof -
  have hb: "unat (fst b) + 16 * unat (snd b) \<le> 2147483648" "0 < unat (snd b)"
    "unat (fst p) + 16 * unat (snd p) \<le> unat (fst b)" "unat (fst p) + 16 \<le> unat (fst b)"
    using b p by (simp_all add: heap_block_def unat_pos before_def)
  show ?thesis
  proof (cases "hadd (fst p) (snd p) = fst b")
    case True
    let ?p = "(fst p, snd p + snd b)"
    have eq: "unat (fst b) = unat (fst p) + 16 * unat (snd p)" using True hadd_eq_iff [OF p(1)] by simp
    have u: "unat (snd p + snd b) = unat (snd p) + unat (snd b)" using hb eq by (intro unat_add_sizes) simp
    have pR: "below ?p d" if "d \<in> set R" for d using R that u eq hb by (auto simp: below_def)
    moreover have "below c d" if "c \<in> set L" "d = ?p \<or> d \<in> set R" for c d
    proof (rule below_mono)
      show "below c p" using L that(1) by (simp add: sorted_wrt_append)
      show "unat (fst p) \<le> unat (fst d)" using that(2) pR [of d] by (auto simp: below_def)
    qed
    moreover have "bytes ?p = bytes p \<union> bytes b" using eq u hb unfolding bytes_def by auto
    moreover have "heap_block ?p" using hb u eq by (simp add: heap_block_def unat_pos)
    ultimately show ?thesis using True L R u by (auto simp: join_lower_def sorted_wrt_append area_def)
  next
    case False
    then have pb: "below p b" using hb hadd_eq_iff [OF p(1)] by (auto simp: below_def)
    have "below c d" if "below c p \<or> c = p" "below b d \<or> d = b" for c d
      using that pb below_mono [of c p d] below_mono [of p b d] by (auto simp: below_def)
    then have "sorted_wrt below (L @ [p, b] @ R)" using L R by (auto simp: sorted_wrt_append)
    then show ?thesis using False b by (simp add: join_lower_def area_def)
  qed
qed

text \<open>The bytes that the allocator itself may write to.\<close>

definition foot :: "u64 \<Rightarrow> block list \<Rightarrow> nat set" where
  "foot base fs = {unat base..<unat base + 16} \<union> area fs"

lemma outside_header:
  fixes x a :: u64
  assumes "unat x \<notin> {unat a..<unat a + 16}" and "unat a \<le> 2147483648"
  shows "16 \<le> unat (x - a)"
  using assms u64_lt [of x] by (auto simp: unat_sub_if')

lemma ring_header:
  assumes "list_all heap_block fs" and "b \<in> set ((base, 0) # fs)"
  shows "{unat (fst b)..<unat (fst b) + 16} \<subseteq> foot base fs"
proof (cases "b = (base, 0)")
  case False
  then have b: "b \<in> set fs" using assms(2) by simp
  then have "0 < unat (snd b)" using assms(1) by (simp add: list_all_iff heap_block_def unat_pos)
  then have "{unat (fst b)..<unat (fst b) + 16} \<subseteq> bytes b" by (auto simp: bytes_def)
  then show ?thesis using b by (auto simp: foot_def area_def)
qed (simp add: foot_def)

lemma free_joins_outside:
  assumes "16 \<le> unat (x - bp)" and "16 \<le> unat (x - p)"
  shows "free_lower bp p (free_upper bp p m) x = m x"
  using assms by (simp add: free_lower_def free_upper_def Let_def set_hptr_outside set_hsize_outside)

text \<open>Headers of the ring lie apart from each other and from the header of the block that is freed.\<close>

lemma below_apart: "below b c \<Longrightarrow> unat (fst c) \<le> 2147483648 \<Longrightarrow> apart (fst b) (fst c) \<and> apart (fst c) (fst b)"
  by (auto simp: below_def intro: apartI)

lemma place_apart:
  assumes "heap_block b" and "list_all heap_block R" and "before b c \<or> behind b c \<and> c \<in> set R"
  shows "apart (fst b) (fst c)"
proof -
  have b: "0 < unat (snd b)" "unat (fst b) + 16 * unat (snd b) \<le> 2147483648"
    using assms(1) by (simp_all add: heap_block_def unat_pos)
  from assms(3) show ?thesis
  proof
    assume "before b c"
    then show ?thesis using b by (intro apartI) (auto simp: before_def)
  next
    assume c: "behind b c \<and> c \<in> set R"
    then have "unat (fst c) \<le> 2147483648" using assms(2) by (auto simp: list_all_iff heap_block_def)
    then show ?thesis using b c by (intro apartI) (auto simp: behind_def)
  qed
qed

text \<open>The facts about a place in the ring that the two joins rest on.\<close>

lemma place_facts:
  assumes ring: "free_ring base s fs" and pl: "place base fs b L (p, k) R" and b: "heap_block b"
  shows "seg (umem s) base L p" "hsize (umem s) p = k" "seg (umem s) (hptr (umem s) p) R base"
    "sorted_wrt below (L @ [(p, k)])" "sorted_wrt below R" "list_all (below (p, k)) R"
    "list_all heap_block R" "unat p + 16 * unat k \<le> 2147483648" "unat p \<le> 2147483648"
proof -
  have eq: "(base, 0) # fs = L @ (p, k) # R" and p: "before b (p, k)" using pl by (simp_all add: place_def)
  show "seg (umem s) base L p" "hsize (umem s) p = k" "seg (umem s) (hptr (umem s) p) R base"
    "sorted_wrt below (L @ [(p, k)])" "sorted_wrt below R" "list_all (below (p, k)) R"
    using ring eq unfolding free_ring_def by (auto simp: seg_append sorted_wrt_append list_all_iff)
  have "set R \<subseteq> set fs" using eq by (cases L) auto
  then show "list_all heap_block R" using ring by (auto simp: free_ring_def list_all_iff)
  show "unat p + 16 * unat k \<le> 2147483648" "unat p \<le> 2147483648"
    using p b by (simp_all add: before_def heap_block_def)
qed

lemma free_joins_seg:
  assumes ring: "free_ring base s fs" and pl: "place base fs (bp, hsize (umem s) bp) L (p, k) R"
    and b: "heap_block (bp, hsize (umem s) bp)" "unat base + 16 \<le> unat bp"
    and j: "join_upper (bp, hsize (umem s) bp) R = (b', R')"
  shows "seg (free_lower bp p (free_upper bp p (umem s))) base (L @ join_lower (p, k) b' @ R') base"
proof -
  let ?m1 = "free_upper bp p (umem s)"
  note pf = place_facts [OF ring pl b(1)]
  have bef: "list_all (before (bp, hsize (umem s) bp)) L" "before (bp, hsize (umem s) bp) (p, k)"
    and beh: "list_all (behind (bp, hsize (umem s) bp)) R" using pl by (simp_all add: place_def)
  have apb: "apart bp (fst c)" if "c = (p, k) \<or> c \<in> set (L @ R)" for c
    using place_apart [OF b(1) pf(7), of c] that bef beh by (auto simp: list_all_iff)
  have "hadd bp (hsize (umem s) bp) \<noteq> base" using b by (simp add: hadd_eq_iff heap_block_def)
  moreover have "apart bp p" "\<And>c. c \<in> fst ` set (L @ R) \<Longrightarrow> apart bp c"
    using apb [of "(p, k)"] apb by auto
  ultimately have c1: "seg ?m1 base L p" "hsize ?m1 p = k" "seg ?m1 bp (b' # R') base" "fst b' = bp"
    using free_upper_seg [OF pf(1,3) _ _ _ j] pf(2) by blast+
  have R': "set R' \<subseteq> set R" using join_upper_spec [OF b(1) pf(7) beh pf(5) j] by blast
  have "apart p (fst d)" if "d \<in> set (L @ R')" for d
  proof -
    have "below d (p, k) \<or> below (p, k) d \<and> heap_block d"
      using that R' pf(4,6,7) by (auto simp: sorted_wrt_append list_all_iff)
    then show ?thesis using below_apart [of d "(p, k)"] below_apart [of "(p, k)" d] pf(9)
      by (auto simp: heap_block_def)
  qed
  then have "\<And>c. c \<in> fst ` set (L @ R') \<Longrightarrow> apart p c" by auto
  from free_lower_seg [OF c1(1,3,4) _ this] show ?thesis
    using c1(2) apb [of "(p, k)"] apart_sym by simp
qed

lemma free_joins_ring:
  assumes ring: "free_ring base s fs" and pl: "place base fs (bp, n) L (p, k) R"
    and b: "heap_block (bp, n)" "hsize (umem s) bp = n" "unat base + 16 \<le> unat bp"
  shows "\<exists>fs'. free_ring base (s\<lparr>umem := free_lower bp p (free_upper bp p (umem s)), freep := p\<rparr>) fs'
    \<and> area fs' = area fs \<union> bytes (bp, n) \<and> (\<exists>c\<in>set fs'. n \<le> snd c)"
proof -
  have eq: "(base, 0) # fs = L @ (p, k) # R" and bef: "before (bp, n) (p, k)"
    and beh: "list_all (behind (bp, n)) R" using pl by (simp_all add: place_def)
  note pf = place_facts [OF ring pl b(1)]
  obtain b' R' where j: "join_upper (bp, n) R = (b', R')" by fastforce
  note up = join_upper_spec [OF b(1) pf(7) beh pf(5) j]
  have ch: "seg (free_lower bp p (free_upper bp p (umem s))) base (L @ join_lower (p, k) b' @ R') base"
    using free_joins_seg [OF ring, of bp L p k R b' R'] pl b j by simp
  have "before b' (p, k)" using bef up by (simp add: before_def)
  then have low: "sorted_wrt below (L @ join_lower (p, k) b' @ R')"
    "area (join_lower (p, k) b') = bytes (p, k) \<union> bytes b'"
    "\<forall>c\<in>set (join_lower (p, k) b'). heap_block c \<or> c = (p, k)"
    "\<exists>c\<in>set (join_lower (p, k) b'). unat (snd b') \<le> unat (snd c)"
    using join_lower_spec [of "(p, k)" b' L R'] up pf(4,8) by auto
  have "\<exists>fs'. L @ join_lower (p, k) b' @ R' = (base, 0) # fs'"
    using eq b(3) up by (cases L) (auto simp: join_lower_def hadd_def)
  then obtain fs' where fs': "L @ join_lower (p, k) b' @ R' = (base, 0) # fs'" ..
  have eqs: "set L \<union> set (join_lower (p, k) b') \<union> set R' = insert (base, 0) (set fs')"
    "insert (base, 0) (set fs) = set L \<union> {(p, k)} \<union> set R"
    using arg_cong [OF fs', of set] arg_cong [OF eq, of set] by auto
  have heap: "heap_block c" if "c \<in> set fs'" for c
  proof -
    have "c \<noteq> (base, 0)" using that low(1) fs' by (auto simp: below_def)
    have old: "heap_block d \<or> d = (base, 0)" if "d \<in> set L \<union> {(p, k)} \<union> set R" for d
      using that ring unfolding eqs(2) [symmetric] free_ring_def list_all_iff by blast
    have "c \<in> set L \<union> set (join_lower (p, k) b') \<union> set R'" using that unfolding eqs(1) by simp
    then have "heap_block c \<or> c = (base, 0)" using old [of c] low(3) old [of "(p, k)"] up by blast
    with \<open>c \<noteq> (base, 0)\<close> show ?thesis by simp
  qed
  have "area fs' = area ((base, 0) # fs')" by simp
  also have "\<dots> = area L \<union> bytes (p, k) \<union> (bytes (bp, n) \<union> area R)" using up low(2) fs' [symmetric] by auto
  also have "\<dots> = area ((base, 0) # fs) \<union> bytes (bp, n)" unfolding eq by auto
  finally have "area fs' = area fs \<union> bytes (bp, n)" by simp
  moreover have "\<exists>c\<in>set fs'. n \<le> snd c"
  proof -
    obtain c where "c \<in> set (join_lower (p, k) b')" "unat (snd b') \<le> unat (snd c)" using low(4) by blast
    then have c: "c \<in> insert (base, 0) (set fs')" "n \<le> snd c"
      using up unfolding eqs(1) [symmetric] by (auto simp: word_le_nat_alt)
    then have "0 < snd c" using b(1) by (auto simp: heap_block_def)
    then show ?thesis using c by auto
  qed
  moreover have "p \<in> fst ` set ((base, 0) # fs')" unfolding fs' [symmetric] by (auto simp: join_lower_def)
  ultimately show ?thesis using ch low(1) heap unfolding fs' by (auto simp: free_ring_def list_all_iff)
qed

text \<open>
  free gives the bytes of the block back to the ring, and writes to no byte but those of the allocator and
  of the block.
\<close>

lemma ufree_ring:
  assumes ring: "free_ring base s fs" and b: "heap_block (bp, n)" "hsize (umem s) bp = n" "unat base + 16 \<le> unat bp"
    and dis: "bytes (bp, n) \<inter> area fs = {}"
  shows "\<exists>s' fs'. ufree (bp + 16) s = Inr s' \<and> free_ring base s' fs' \<and> area fs' = area fs \<union> bytes (bp, n)
    \<and> (\<exists>c\<in>set fs'. n \<le> snd c)
    \<and> (\<forall>x. unat x \<notin> foot base fs \<union> bytes (bp, n) \<longrightarrow> umem s' x = umem s x)"
proof -
  obtain L p k R where pl: "place base fs (bp, n) L (p, k) R"
    using place_exists [OF ring _ b(1) dis] b(3) by auto
  let ?m = "free_lower bp p (free_upper bp p (umem s))"
  have "ufree (bp + 16) s = Inr (s\<lparr>umem := ?m, freep := p\<rparr>)"
    using free_search [OF ring b(1) pl] by (simp add: ufree_def)
  moreover have "?m x = umem s x" if x: "unat x \<notin> foot base fs \<union> bytes (bp, n)" for x
  proof (rule free_joins_outside)
    have "(p, k) \<in> set ((base, 0) # fs)" using pl by (simp only: place_def) simp
    then have "unat x \<notin> {unat p..<unat p + 16}" using ring_header [of fs "(p, k)" base] ring x by (auto simp: free_ring_def)
    then show "16 \<le> unat (x - p)" using place_facts(9) [OF ring pl b(1)] by (rule outside_header)
    have "unat x \<notin> {unat bp..<unat bp + 16}" "unat bp \<le> 2147483648"
      using x b(1) by (auto simp: bytes_def heap_block_def unat_pos)
    then show "16 \<le> unat (x - bp)" by (rule outside_header)
  qed
  ultimately show ?thesis using free_joins_ring [OF ring pl b] by auto
qed

section \<open>malloc\<close>

text \<open>A block of the ring with what lies before and after it.\<close>

lemma ring_at:
  assumes ring: "free_ring base s fs" and eq: "fs = F @ (a, n) # R"
  shows "seg (umem s) base ((base, 0) # F) a" "hsize (umem s) a = n" "seg (umem s) (hptr (umem s) a) R base"
    "heap_block (a, n)" "list_all heap_block F" "list_all heap_block R"
    "\<And>c. c \<in> set ((base, 0) # F) \<Longrightarrow> below c (a, n)" "\<And>c. c \<in> set R \<Longrightarrow> below (a, n) c"
    "sorted_wrt below ((base, 0) # F)" "sorted_wrt below R"
  using ring unfolding free_ring_def eq by (auto simp: seg_append sorted_wrt_append)

lemma below_disjoint: "below b c \<Longrightarrow> bytes b \<inter> bytes c = {}"
  by (auto simp: below_def bytes_def)

lemma ring_at_area:
  assumes "free_ring base s fs" and "fs = F @ (a, n) # R"
  shows "bytes (a, n) \<inter> area (F @ R) = {}"
proof -
  have "bytes (a, n) \<inter> bytes c = {}" if "c \<in> set (F @ R)" for c
  proof -
    have "below c (a, n) \<or> below (a, n) c" using ring_at(7,8) [OF assms, of c] that by auto
    then show ?thesis using below_disjoint by blast
  qed
  then show ?thesis by (auto simp: area_def)
qed

text \<open>The ring has one way to a block: from the block before it.\<close>

lemma ring_pred:
  assumes ring: "free_ring base s fs" and eq: "fs = F @ (a, n) # R"
    and p: "prevp \<in> fst ` set ((base, 0) # fs)" "hptr (umem s) prevp = a"
  shows "\<exists>G k. (base, 0) # F = G @ [(prevp, k)]"
proof -
  let ?m = "umem s"
  note r = ring_at [OF ring eq]
  obtain G l k where G: "(base, 0) # F = G @ [(l, k)]" by (metis append_butlast_last_id list.distinct(1) prod.exhaust)
  have chG: "seg ?m base G l" "hptr ?m l = a" using r(1) unfolding G by (auto simp: seg_append)
  have less: "c < a" if "c \<in> fst ` set (G @ [(l, k)])" for c
    using r(7) that below_less [of _ "(a, n)"] unfolding G by fastforce
  have "base < a" using below_less [OF r(7), of "(base, 0)"] by simp
  have "prevp = l"
  proof (rule ccontr)
    assume "prevp \<noteq> l"
    moreover have "set ((base, 0) # fs) = set G \<union> {(l, k)} \<union> set ((a, n) # R)"
      using arg_cong [OF G, of set] eq by auto
    ultimately consider "prevp \<in> fst ` set G" | "prevp \<in> fst ` set ((a, n) # R)" using p(1) by auto
    then show False
    proof cases
      case 1
      then have "hptr ?m prevp = l \<or> hptr ?m prevp \<in> fst ` set G"
        using seg_next [OF chG(1)] r(9) unfolding G by (auto simp: sorted_wrt_append)
      then show False using less [of a] p(2) by auto
    next
      case 2
      have "seg ?m a ((a, n) # R) base" using r(2,3) by simp
      moreover have "sorted_wrt below ((a, n) # R)" using r(8,10) by simp
      ultimately have "a = base \<or> prevp < a" using seg_next [OF _ _ 2] p(2) by metis
      moreover have "a \<le> prevp" using 2 below_less [OF r(8)] by fastforce
      ultimately show False using \<open>base < a\<close> by auto
    qed
  qed
  then show ?thesis using G by blast
qed

lemma ring_at_apart:
  assumes "free_ring base s fs" and "fs = F @ (a, n) # R" and "c \<in> fst ` set ((base, 0) # F @ R)"
  shows "apart a c" "apart c a"
proof -
  note r = ring_at [OF assms(1,2)]
  obtain d where d: "c = fst d" "d \<in> set ((base, 0) # F @ R)" using assms(3) by (rule imageE)
  have "below d (a, n) \<or> below (a, n) d \<and> heap_block d" using d(2) r(6) r(7,8) [of d] by (auto simp: list_all_iff)
  then show "apart a c" "apart c a"
    using r(4) below_apart [of d "(a, n)"] below_apart [of "(a, n)" d] unfolding d(1) by (auto simp: heap_block_def)
qed

text \<open>An exact fit is unlinked.\<close>

lemma take_exact:
  assumes ring: "free_ring base s fs" and eq: "fs = F @ (a, n) # R"
    and p: "prevp \<in> fst ` set ((base, 0) # fs)" "hptr (umem s) prevp = a"
  shows "free_ring base (s\<lparr>umem := set_hptr prevp (hptr (umem s) a) (umem s), freep := prevp\<rparr>) (F @ R)"
    and "hsize (set_hptr prevp (hptr (umem s) a) (umem s)) a = n"
proof -
  let ?m = "set_hptr prevp (hptr (umem s) a) (umem s)"
  note r = ring_at [OF ring eq]
  obtain G k where G: "(base, 0) # F = G @ [(prevp, k)]" using ring_pred [OF ring eq p] by blast
  have mem: "(prevp, k) \<in> set ((base, 0) # F)" unfolding G by simp
  show "hsize ?m a = n" using ring_at_apart(2) [OF ring eq, of prevp] r(2) mem by force
  have pG: "below c (prevp, k)" if "c \<in> set G" for c using that r(9) unfolding G by (simp add: sorted_wrt_append)
  have small: "unat prevp \<le> 2147483648" using r(4) r(7) [OF mem] by (simp add: below_def heap_block_def)
  have pR: "below (prevp, k) c" if "c \<in> set R" for c
    using below_mono [OF r(7) [OF mem], of c] r(8) [OF that] by (simp add: below_def)
  have "apart prevp (fst c)" if "c \<in> set (G @ R)" for c
    using that below_apart [OF pG, of c] below_apart [OF pR, of c] small r(6)
    by (auto simp: list_all_iff heap_block_def)
  then have ap: "apart prevp c" if "c \<in> fst ` set (G @ R)" for c using that by auto
  have "seg ?m base G prevp" "seg ?m (hptr (umem s) a) R base"
    using r(1,3) ap unfolding G by (auto simp: seg_append intro!: seg_cong_apart)
  moreover have "hsize ?m prevp = k" using r(1) unfolding G by (auto simp: seg_append)
  ultimately have "seg ?m base (G @ [(prevp, k)] @ R) base" by (simp add: seg_append)
  then have "seg ?m base ((base, 0) # F @ R) base" using G by (metis append_Cons append_assoc)
  moreover have "sorted_wrt below ((base, 0) # F @ R)"
    using ring unfolding free_ring_def eq by (auto simp: sorted_wrt_append)
  ultimately show "free_ring base (s\<lparr>umem := ?m, freep := prevp\<rparr>) (F @ R)"
    using r(5,6) image_eqI [OF _ mem, of prevp fst] unfolding free_ring_def by (auto simp: image_Un)
qed

text \<open>From a larger block the upper part is cut off.\<close>

lemma take_upper:
  assumes ring: "free_ring base s fs" and eq: "fs = F @ (a, n) # R" and u: "0 < u" "u < n"
    and p: "prevp \<in> fst ` set ((base, 0) # fs)"
  defines "q \<equiv> hadd a (n - u)"
  defines "m \<equiv> set_hsize q u (set_hsize a (n - u) (umem s))"
  shows "free_ring base (s\<lparr>umem := m, freep := prevp\<rparr>) (F @ (a, n - u) # R)"
    and "unat q = unat a + 16 * (unat n - unat u)" and "unat (n - u) = unat n - unat u"
proof -
  note r = ring_at [OF ring eq]
  have un: "unat (n - u) = unat n - unat u" "0 < unat u" "unat u < unat n"
    using u by (simp_all add: unat_sub word_less_nat_alt less_imp_le)
  have a: "unat a + 16 * unat n \<le> 2147483648" using r(4) by (simp add: heap_block_def)
  show uq: "unat q = unat a + 16 * (unat n - unat u)" and "unat (n - u) = unat n - unat u"
    unfolding q_def using un a by (simp_all add: unat_hadd)
  have aq: "apart q a" using uq un a by (intro apartI) auto
  have apq: "apart q (fst c)" if "c \<in> set ((base, 0) # F @ R)" for c
  proof -
    have "below c (a, n) \<or> below (a, n) c \<and> heap_block c"
      using that r(6) r(7,8) [of c] by (auto simp: list_all_iff)
    then show ?thesis
    proof
      assume "below c (a, n)"
      then show ?thesis using uq a un by (intro apartI) (auto simp: below_def)
    next
      assume "below (a, n) c \<and> heap_block c"
      then show ?thesis using uq un by (intro apartI) (auto simp: below_def heap_block_def)
    qed
  qed
  have ap: "apart q c" "apart a c" if "c \<in> fst ` set ((base, 0) # F @ R)" for c
    using ring_at_apart(1) [OF ring eq that] that by (auto elim!: imageE simp del: list.set intro: apq)
  have "seg m base ((base, 0) # F) a" "seg m (hptr (umem s) a) R base"
    unfolding m_def by (intro seg_cong_apart r(1,3) ap; auto simp: image_Un)+
  moreover have "hptr m a = hptr (umem s) a" "hsize m a = n - u" using aq by (simp_all add: m_def)
  ultimately have "seg m base ((base, 0) # F @ (a, n - u) # R) base"
    using seg_append [of m base "(base, 0) # F"] by simp
  moreover have "sorted_wrt below ((base, 0) # F @ (a, n - u) # R)"
  proof -
    have "below c (a, n - u)" if "below c (a, n)" for c using that by (simp add: below_def)
    moreover have "below (a, n - u) c" if "below (a, n) c" for c using that un by (auto simp: below_def)
    ultimately show ?thesis using ring unfolding free_ring_def eq by (auto simp: sorted_wrt_append)
  qed
  moreover have "heap_block (a, n - u)" using a un by (simp add: heap_block_def unat_pos)
  ultimately show "free_ring base (s\<lparr>umem := m, freep := prevp\<rparr>) (F @ (a, n - u) # R)"
    using r(5,6) p unfolding free_ring_def eq by auto
qed

text \<open>What a client gets: u units at q, taken from the free bytes; nothing outside of them is touched.\<close>

definition granted :: "u64 \<Rightarrow> u32 \<Rightarrow> u64 \<Rightarrow> ualloc \<Rightarrow> nat set \<Rightarrow> ualloc \<Rightarrow> block list \<Rightarrow> bool" where
  "granted base u q s A s' fs' \<longleftrightarrow>
     free_ring base s' fs' \<and> heap_block (q, u) \<and> bytes (q, u) \<subseteq> A \<and> area fs' = A - bytes (q, u) \<and>
     hsize (umem s') q = u \<and>
     (\<forall>x. unat x \<notin> {unat base..<unat base + 16} \<union> A \<longrightarrow> umem s' x = umem s x)"

lemma ring_outside:
  assumes ring: "free_ring base s fs" and ne: "fs \<noteq> []" and b: "b \<in> set ((base, 0) # fs)"
    and x: "unat x \<notin> {unat base..<unat base + 16} \<union> area fs"
  shows "16 \<le> unat (x - fst b)"
proof (rule outside_header)
  show "unat x \<notin> {unat (fst b)..<unat (fst b) + 16}"
    using ring_header [of fs b base] b x ring by (auto simp: free_ring_def foot_def)
  have hb: "\<forall>c\<in>set fs. heap_block c \<and> below (base, 0) c" using ring by (simp add: free_ring_def list_all_iff)
  then have "unat base \<le> 2147483648" using ne by (cases fs) (auto simp: heap_block_def below_def)
  then show "unat (fst b) \<le> 2147483648" using b hb by (auto simp: heap_block_def)
qed

lemma take_block_granted:
  assumes ring: "free_ring base s fs" and c: "(a, n) \<in> set fs" and u: "0 < u" "u \<le> n"
    and p: "prevp \<in> fst ` set ((base, 0) # fs)" "hptr (umem s) prevp = a"
  shows "\<exists>q s' fs'. take_block u prevp a s = (q + 16, s') \<and> granted base u q s (area fs) s' fs'"
proof -
  obtain F R where eq: "fs = F @ (a, n) # R" using c by (metis split_list)
  note r = ring_at [OF ring eq]
  have dis: "bytes (a, n) \<inter> area (F @ R) = {}" using ring_at_area [OF ring eq] .
  have fs: "area fs = bytes (a, n) \<union> area (F @ R)" using eq by auto
  have ne: "fs \<noteq> []" using c by auto
  note out = ring_outside [OF ring ne]
  show ?thesis
  proof (cases "n = u")
    case True
    let ?m = "set_hptr prevp (hptr (umem s) a) (umem s)"
    obtain b where b: "b \<in> set ((base, 0) # fs)" "prevp = fst b" using p(1) by (auto elim!: imageE simp del: list.set)
    have "?m x = umem s x" if "unat x \<notin> {unat base..<unat base + 16} \<union> area fs" for x
      using out [OF b(1) that] b(2) by (intro set_hptr_outside) simp
    then have "granted base u a s (area fs) (s\<lparr>umem := ?m, freep := prevp\<rparr>) (F @ R)"
      using take_exact [OF ring eq p] True r(4) fs dis by (auto simp: granted_def)
    moreover have "take_block u prevp a s = (a + 16, s\<lparr>umem := ?m, freep := prevp\<rparr>)"
      using r(2) True by (simp add: take_block_def Let_def)
    ultimately show ?thesis by blast
  next
    case False
    then have lt: "u < n" using u(2) by simp
    let ?q = "hadd a (n - u)" and ?m = "set_hsize (hadd a (n - u)) u (set_hsize a (n - u) (umem s))"
    note t = take_upper [OF ring eq u(1) lt p(1)]
    have un: "0 < unat u" "unat u < unat n" "unat a + 16 * unat n \<le> 2147483648"
      using u(1) lt r(4) by (simp_all add: word_less_nat_alt heap_block_def)
    have parts: "bytes (a, n) = bytes (a, n - u) \<union> bytes (?q, u)" "bytes (a, n - u) \<inter> bytes (?q, u) = {}"
      using t(2,3) un by (auto simp: bytes_def)
    have "?m x = umem s x" if x: "unat x \<notin> {unat base..<unat base + 16} \<union> area fs" for x
    proof -
      have "unat x \<notin> {unat ?q..<unat ?q + 16}" using x fs parts(1) un by (auto simp: bytes_def)
      then have "16 \<le> unat (x - ?q)" using t(2) un by (intro outside_header) auto
      then show ?thesis using out [OF _ x, of "(a, n)"] c by (simp add: set_hsize_outside)
    qed
    moreover have "heap_block (?q, u)" using t(2) un u(1) by (simp add: heap_block_def)
    ultimately have "granted base u ?q s (area fs) (s\<lparr>umem := ?m, freep := prevp\<rparr>) (F @ (a, n - u) # R)"
      using t(1) fs parts dis by (auto simp: granted_def)
    moreover have "take_block u prevp a s = (?q + 16, s\<lparr>umem := ?m, freep := prevp\<rparr>)"
      using r(2) False by (simp add: take_block_def Let_def)
    ultimately show ?thesis by blast
  qed
qed

lemma malloc_round_cases:
  "u \<le> hsize (umem s) p \<Longrightarrow> malloc_round u (prevp, p, s) = Ret (Inr (take_block u prevp p s))"
  "hsize (umem s) p < u \<Longrightarrow> p \<noteq> freep s \<Longrightarrow> malloc_round u (prevp, p, s) = Ret (Inl (p, hptr (umem s) p, s))"
  "hsize (umem s) p < u \<Longrightarrow> p = freep s \<Longrightarrow> malloc_round u (prevp, p, s) =
     bind (morecore u s) (\<lambda>(p, s). if p = 0 then Ret (Inr (0, s)) else Ret (Inl (p, hptr (umem s) p, s)))"
  by (auto simp: malloc_round_def dest: leD)

text \<open>The search passes over blocks that are too small.\<close>

lemma malloc_walk:
  assumes "seg (umem s) p X z" and "\<And>c. c \<in> fst ` set X \<Longrightarrow> hsize (umem s) c < u \<and> c \<noteq> freep s \<and> c \<in> A"
    and "hptr (umem s) prevp = p" and "prevp \<in> A"
  shows "\<exists>prevp'. rounds (length X + k) (malloc_round u) (prevp, p, s) = rounds k (malloc_round u) (prevp', z, s)
    \<and> hptr (umem s) prevp' = z \<and> prevp' \<in> A"
  using assms
proof (induction X arbitrary: p prevp)
  case Nil
  then show ?case by auto
next
  case (Cons c X)
  obtain n where c: "c = (p, n)" "seg (umem s) (hptr (umem s) p) X z" using Cons.prems(1) by (cases c) auto
  have p: "hsize (umem s) p < u" "p \<noteq> freep s" "p \<in> A" using Cons.prems(2) [of p] c by auto
  have "rounds (length (c # X) + k) (malloc_round u) (prevp, p, s)
      = rounds (length X + k) (malloc_round u) (p, hptr (umem s) p, s)"
    using p by (simp add: malloc_round_cases)
  then show ?case using Cons.IH [OF c(2), of p] Cons.prems(2) p(3) by simp
qed

text \<open>The ring, seen from the block at which the search begins and ends.\<close>

lemma ring_from_freep:
  assumes "free_ring base s fs"
  shows "\<exists>n0 W. seg (umem s) (hptr (umem s) (freep s)) W (freep s) \<and> hsize (umem s) (freep s) = n0
    \<and> length W = length fs \<and> insert (freep s, n0) (set W) = insert (base, 0) (set fs) \<and> freep s \<notin> fst ` set W"
proof -
  obtain b where "freep s = fst b" "b \<in> set ((base, 0) # fs)"
    using assms unfolding free_ring_def by (auto elim!: imageE simp del: list.set)
  then obtain S T n0 where eq: "(base, 0) # fs = S @ (freep s, n0) # T" by (metis split_list prod.collapse)
  have ch: "seg (umem s) base S (freep s)" "hsize (umem s) (freep s) = n0"
      "seg (umem s) (hptr (umem s) (freep s)) T base"
    and srt: "sorted_wrt below (S @ (freep s, n0) # T)"
    using assms unfolding free_ring_def eq by (auto simp: seg_append)
  have "seg (umem s) (hptr (umem s) (freep s)) (T @ S) (freep s)" using ch by (auto simp: seg_append)
  moreover have "freep s \<notin> fst ` set (T @ S)"
    using srt by (auto simp: sorted_wrt_append below_def)
  moreover have "length (T @ S) = length fs" using arg_cong [OF eq, of length] by simp
  moreover have "insert (freep s, n0) (set (T @ S)) = insert (base, 0) (set fs)" using arg_cong [OF eq, of set] by auto
  ultimately show ?thesis using ch(2) by blast
qed

text \<open>With a block that is large enough in the ring malloc succeeds without asking for memory.\<close>

lemma malloc_fit:
  assumes ring: "free_ring base s fs" and fit: "c \<in> set fs" "u \<le> snd c" and u: "0 < u"
  shows "\<exists>q s' fs'. rounds (length fs + Suc k) (malloc_round u) (freep s, hptr (umem s) (freep s), s) = Ret (q + 16, s')
    \<and> granted base u q s (area fs) s' fs'"
proof -
  let ?m = "umem s"
  obtain n0 W where W: "seg ?m (hptr ?m (freep s)) W (freep s)" "hsize ?m (freep s) = n0" "length W = length fs"
    "insert (freep s, n0) (set W) = insert (base, 0) (set fs)" "freep s \<notin> fst ` set W"
    using ring_from_freep [OF ring] by blast
  have V: "set (W @ [(freep s, n0)]) = insert (base, 0) (set fs)" using W(4) by simp
  then have "\<exists>d\<in>set (W @ [(freep s, n0)]). u \<le> snd d" using fit by blast
  then obtain X d Y where d: "W @ [(freep s, n0)] = X @ d # Y" "u \<le> snd d" "\<forall>x\<in>set X. \<not> u \<le> snd x"
    using split_list_first_prop [of "W @ [(freep s, n0)]" "\<lambda>d. u \<le> snd d"] by blast
  obtain a n where an: "d = (a, n)" by (cases d)
  have "W = X @ butlast (d # Y)" using d(1) by (metis butlast_append butlast_snoc list.distinct(1))
  then have XW: "set X \<subseteq> set W" "length X \<le> length fs" using W(3) by auto
  have "seg ?m (hptr ?m (freep s)) (W @ [(freep s, n0)]) (hptr ?m (freep s))" using W by (auto simp: seg_append)
  then have X: "seg ?m (hptr ?m (freep s)) X a" "hsize ?m a = n" unfolding d(1) an by (auto simp: seg_append)
  have "d \<in> insert (base, 0) (set fs)" unfolding V [symmetric] d(1) by simp
  then have afs: "(a, n) \<in> set fs" using d(2) u an by auto
  let ?A = "fst ` set ((base, 0) # fs)"
  have A: "?A = insert (freep s) (fst ` set W)" using arg_cong [OF W(4), of "image fst"] by simp
  have fA: "freep s \<in> ?A" unfolding A by simp
  have step: "hsize ?m x < u \<and> x \<noteq> freep s \<and> x \<in> ?A" if x: "x \<in> fst ` set X" for x
  proof -
    obtain y where y: "x = fst y" "y \<in> set X" using x by (rule imageE)
    then have "hsize ?m x = snd y" "x \<in> fst ` set W" using seg_size [OF X(1)] XW(1) by auto
    moreover have "\<not> u \<le> snd y" using d(3) y(2) by blast
    ultimately show ?thesis using W(5) unfolding A by (metis insertI2 not_le)
  qed
  have "\<exists>prevp. rounds (length X + (length fs - length X + Suc k)) (malloc_round u) (freep s, hptr ?m (freep s), s)
      = rounds (length fs - length X + Suc k) (malloc_round u) (prevp, a, s) \<and> hptr ?m prevp = a \<and> prevp \<in> ?A"
    by (rule malloc_walk [OF X(1) _ refl fA]) (rule step)
  then obtain prevp where p: "rounds (length fs + Suc k) (malloc_round u) (freep s, hptr ?m (freep s), s)
      = rounds (Suc (length fs - length X + k)) (malloc_round u) (prevp, a, s)" "hptr ?m prevp = a" "prevp \<in> ?A"
    using XW(2) by auto
  have "u \<le> n" using d(2) an by simp
  from take_block_granted [OF ring afs u this p(3,2)] show ?thesis
    using X(2) \<open>u \<le> n\<close> unfolding p(1) by (auto simp: malloc_round_cases)
qed

text \<open>
  What the kernel promises of sbrk: the break moves by n and the old break is the result, or, when there is
  no memory (ok is false) or the new break would not be an address of the process, -1 and no change.
\<close>

primrec run_sbrk :: "bool \<Rightarrow> 'a prog \<Rightarrow> nat \<Rightarrow> ('a \<times> nat) option" where
  "run_sbrk ok (Ret x) brk = Some (x, brk)"
| "run_sbrk ok (Sys c k) brk =
     (case c of sbrk_call n \<Rightarrow>
        (if ok \<and> 0 \<le> int brk + n \<and> int brk + n \<le> 2147483648
         then run_sbrk ok (k (int brk)) (nat (int brk + n)) else run_sbrk ok (k (- 1)) brk)
      | _ \<Rightarrow> None)"
| "run_sbrk ok (Exit n) brk = None"
| "run_sbrk ok More brk = None"
| "run_sbrk ok Undef brk = None"
| "run_sbrk ok (Read fd n k) brk = None"
| "run_sbrk ok (Pipe k) brk = None"
| "run_sbrk ok (Fstat fd k) brk = None"
| "run_sbrk ok (Wait k) brk = None"
| "run_sbrk ok (Sysinfo a k) brk = None"

lemma run_sbrk_bind:
  "run_sbrk ok (bind p f) brk = (case run_sbrk ok p brk of None \<Rightarrow> None | Some (x, brk') \<Rightarrow> run_sbrk ok (f x) brk')"
  by (induction p arbitrary: brk) (auto split: call.splits)

text \<open>A larger bound on the rounds does not change a result.\<close>

lemma run_sbrk_round:
  "run_sbrk ok (rounds (Suc n) body x) brk =
     (case run_sbrk ok (body x) brk of None \<Rightarrow> None | Some (Inl x', b) \<Rightarrow> run_sbrk ok (rounds n body x') b
      | Some (Inr y, b) \<Rightarrow> Some (y, b))"
  by (auto simp: run_sbrk_bind split: option.splits sum.splits)

lemma run_sbrk_rounds_Suc:
  "run_sbrk ok (rounds n body x) brk = Some r \<Longrightarrow> run_sbrk ok (rounds (Suc n) body x) brk = Some r"
proof (induction n arbitrary: x brk)
  case (Suc n)
  from Suc.prems [unfolded run_sbrk_round] show ?case
    by (subst run_sbrk_round) (auto split: option.splits sum.splits simp del: rounds.simps intro: Suc.IH)
qed simp

lemma run_sbrk_rounds_mono:
  assumes "run_sbrk ok (rounds n body x) brk = Some r" and "n \<le> n'"
  shows "run_sbrk ok (rounds n' body x) brk = Some r"
  using assms(2,1) by (induction n' rule: dec_induct) (auto simp: run_sbrk_rounds_Suc simp del: rounds.simps)

lemma nunits_of_unat: "unat (nunits_of nbytes) = (unat nbytes + 15) div 16 + 1"
proof -
  have un: "unat (ucast nbytes :: u64) = unat nbytes"
    using u32_lt [of nbytes] by (simp add: unsigned_ucast_eq take_bit_nat_eq_self)
  have "unat (ucast nbytes + 16 - 1 :: u64) = unat nbytes + 15"
    using un u32_lt [of nbytes] by (simp add: unat_word_ariths)
  then have "unat ((ucast nbytes + 16 - 1) div 16 + 1 :: u64) = (unat nbytes + 15) div 16 + 1"
    using u32_lt [of nbytes] by (simp add: unat_word_ariths unat_div)
  then show ?thesis using u32_lt [of nbytes]
    by (simp add: nunits_of_def unsigned_ucast_eq take_bit_nat_eq_self)
qed

text \<open>The number of bytes that reaches sbrk.\<close>

lemma core_request:
  fixes u :: u32
  assumes "16 * unat u < 2147483648"
  shows "sint (ucast (ucast u * 16 :: u64) :: u32) = int (16 * unat u)"
proof -
  have "unat (ucast u :: u64) = unat u"
    using u32_lt [of u] by (simp add: unsigned_ucast_eq take_bit_nat_eq_self)
  then have "unat (ucast u * 16 :: u64) = 16 * unat u" using assms by (simp add: unat_word_ariths)
  then have un: "unat (ucast (ucast u * 16 :: u64) :: u32) = 16 * unat u"
    using assms by (simp add: unsigned_ucast_eq take_bit_nat_eq_self)
  then have "(ucast (ucast u * 16 :: u64) :: u32) < 2 ^ 31" using assms by (simp add: word_less_nat_alt)
  then show ?thesis by (simp only: sint_small uint_nat un)
qed

text \<open>Memory from sbrk comes into the ring.\<close>

lemma morecore_ring:
  assumes ring: "free_ring base s fs" and brk: "unat base + 16 \<le> brk" "brk + 16 * unat n \<le> 2147483648"
    and n: "0 < n" and area: "area fs \<subseteq> {..<brk}"
  shows "\<exists>s' fs'. ufree (of_nat brk + 16) (s\<lparr>umem := set_hsize (of_nat brk) n (umem s)\<rparr>) = Inr s'
    \<and> free_ring base s' fs' \<and> area fs' = area fs \<union> {brk..<brk + 16 * unat n} \<and> (\<exists>c\<in>set fs'. n \<le> snd c)
    \<and> (\<forall>x. unat x \<notin> {unat base..<unat base + 16} \<union> area fs \<union> {brk..<brk + 16 * unat n} \<longrightarrow> umem s' x = umem s x)"
proof -
  let ?p = "of_nat brk :: u64"
  let ?s = "s\<lparr>umem := set_hsize ?p n (umem s)\<rparr>"
  have up: "unat ?p = brk" using brk(2) by (simp add: unat_of_nat)
  have hb: "heap_block (?p, n)" and by': "bytes (?p, n) = {brk..<brk + 16 * unat n}"
    using brk n up by (simp_all add: heap_block_def bytes_def)
  have un: "0 < unat n" using n by (simp add: unat_pos)
  have "apart ?p (fst c)" if "c \<in> set ((base, 0) # fs)" for c
  proof -
    have "{unat (fst c)..<unat (fst c) + 16} \<subseteq> foot base fs" using ring_header [OF _ that] ring by (simp add: free_ring_def)
    moreover have "foot base fs \<subseteq> {..<brk}" using area brk(1) by (auto simp: foot_def)
    ultimately have "unat (fst c) + 15 \<in> {..<brk}" by (auto simp: subset_iff)
    then have "unat (fst c) + 16 \<le> unat ?p" using up by simp
    then show ?thesis using apartI(2) up brk(2) by simp
  qed
  then have "seg (umem ?s) base ((base, 0) # fs) base"
    using ring unfolding free_ring_def by (auto intro!: seg_cong_apart simp del: seg.simps)
  then have ring': "free_ring base ?s fs" using ring by (simp add: free_ring_def)
  have out: "umem ?s x = umem s x" if "unat x \<notin> {brk..<brk + 16 * unat n}" for x
    using that un up brk(2) by (auto intro!: set_hsize_outside outside_header)
  have "bytes (?p, n) \<inter> area fs = {}" using area unfolding by' by auto
  from ufree_ring [OF ring' hb _ _ this] show ?thesis
    using out up brk(1) unfolding by' foot_def by auto
qed

lemma run_sbrk_morecore:
  assumes "16 * unat (core_units u) < 2147483648" and "brk \<le> 2147483648"
  shows "run_sbrk ok (morecore u s) brk =
    (if ok \<and> brk + 16 * unat (core_units u) \<le> 2147483648
     then (case ufree (of_nat brk + 16) (s\<lparr>umem := set_hsize (of_nat brk) (core_units u) (umem s)\<rparr>) of
             Inl _ \<Rightarrow> None | Inr s' \<Rightarrow> Some ((freep s', s'), brk + 16 * unat (core_units u)))
     else Some ((0, s), brk))"
proof -
  have "unat (of_nat brk :: u64) = brk" using assms(2) by (simp add: unat_of_nat)
  then have "(of_nat brk :: u64) \<noteq> - 1" using assms(2) arg_cong [of "of_nat brk :: u64" "- 1" unat] by auto
  moreover have "int brk + int (16 * unat (core_units u)) \<le> 2147483648 \<longleftrightarrow> brk + 16 * unat (core_units u) \<le> 2147483648"
    by linarith
  moreover have "nat (int brk + int (16 * unat (core_units u))) = brk + 16 * unat (core_units u)" by linarith
  ultimately show ?thesis
    unfolding morecore_def Let_def core_request [OF assms(1)]
    by (auto split: sum.splits simp del: of_nat_mult of_nat_add)
qed

lemma malloc_asks:
  assumes ring: "free_ring base s fs" and small: "\<And>c. c \<in> set fs \<Longrightarrow> snd c < u" and u: "0 < u"
  shows "rounds (length fs + Suc k) (malloc_round u) (freep s, hptr (umem s) (freep s), s) =
    bind (morecore u s) (\<lambda>(p, s). if p = 0 then Ret (0, s) else rounds k (malloc_round u) (p, hptr (umem s) p, s))"
proof -
  let ?m = "umem s"
  obtain n0 W where W: "seg ?m (hptr ?m (freep s)) W (freep s)" "hsize ?m (freep s) = n0" "length W = length fs"
    "insert (freep s, n0) (set W) = insert (base, 0) (set fs)" "freep s \<notin> fst ` set W"
    using ring_from_freep [OF ring] by blast
  have sm: "snd c < u" if "c \<in> insert (freep s, n0) (set W)" for c
    using that small [of c] u unfolding W(4) by auto
  have "\<exists>prevp. rounds (length W + Suc k) (malloc_round u) (freep s, hptr ?m (freep s), s)
      = rounds (Suc k) (malloc_round u) (prevp, freep s, s) \<and> hptr ?m prevp = freep s \<and> prevp \<in> UNIV"
  proof (rule malloc_walk [OF W(1)])
    fix c assume c: "c \<in> fst ` set W"
    then obtain d where d: "c = fst d" "d \<in> set W" by (rule imageE)
    have "c \<noteq> freep s" using c W(5) by blast
    then show "hsize ?m c < u \<and> c \<noteq> freep s \<and> c \<in> UNIV"
      using seg_size [OF W(1) d(2)] sm [of d] d by simp
  qed simp_all
  then obtain prevp where "rounds (length fs + Suc k) (malloc_round u) (freep s, hptr ?m (freep s), s)
      = rounds (Suc k) (malloc_round u) (prevp, freep s, s)" using W(3) by auto
  moreover have "hsize ?m (freep s) < u" using sm [of "(freep s, n0)"] W(2) by simp
  ultimately show ?thesis
    by (simp add: malloc_round_cases if_distrib [of "\<lambda>p. bind p f" for f] split_def if_distrib [of "case_sum f g" for f g]
        cong: if_cong)
qed

text \<open>The bound on a request: its units, as bytes, are an int.\<close>

definition sane :: "u32 \<Rightarrow> bool" where
  "sane nbytes \<longleftrightarrow> unat nbytes \<le> 2147483616"

lemma sane_units:
  assumes "sane nbytes"
  shows "0 < nunits_of nbytes" "16 * unat (nunits_of nbytes) < 2147483648"
    "16 * unat (core_units (nunits_of nbytes)) < 2147483648" "nunits_of nbytes \<le> core_units (nunits_of nbytes)"
    "0 < core_units (nunits_of nbytes)" "unat nbytes + 16 \<le> 16 * unat (nunits_of nbytes)"
proof -
  have "16 * ((unat nbytes + 15) div 16) \<le> unat nbytes + 15"
    "16 * ((unat nbytes + 15) div 16) + 15 \<ge> unat nbytes + 15" by presburger+
  then have b: "16 * unat (nunits_of nbytes) \<le> unat nbytes + 31" "unat nbytes + 16 \<le> 16 * unat (nunits_of nbytes)"
    unfolding nunits_of_unat by simp_all
  then show u: "0 < nunits_of nbytes" "16 * unat (nunits_of nbytes) < 2147483648"
    "unat nbytes + 16 \<le> 16 * unat (nunits_of nbytes)"
    using assms by (simp_all add: sane_def unat_pos)
  then show "16 * unat (core_units (nunits_of nbytes)) < 2147483648" "nunits_of nbytes \<le> core_units (nunits_of nbytes)"
    "0 < core_units (nunits_of nbytes)"
    by (auto simp: core_units_def)
qed

lemma freep_pos:
  assumes "free_ring base s fs" and "0 < unat base"
  shows "freep s \<noteq> 0"
proof -
  obtain b where b: "freep s = fst b" "b \<in> set ((base, 0) # fs)"
    using assms(1) unfolding free_ring_def by (auto elim!: imageE simp del: list.set)
  then have "unat base \<le> unat (fst b)" using assms(1) by (auto simp: free_ring_def below_def)
  then show ?thesis using assms(2) b(1) by auto
qed

text \<open>When no block is large enough malloc takes one from the memory that sbrk gives.\<close>

lemma malloc_grown:
  assumes ring: "free_ring base s fs" and nb: "sane nbytes" and base: "0 < unat base" "unat base + 16 \<le> brk"
    and ar: "area fs \<subseteq> {..<brk}"
  defines "u \<equiv> nunits_of nbytes"
  assumes none: "\<forall>c\<in>set fs. snd c < u" and room: "brk + 16 * unat (core_units u) \<le> 2147483648"
  shows "\<exists>n q s' fs'. run_sbrk True (rounds n (malloc_round u) (freep s, hptr (umem s) (freep s), s)) brk
      = Some ((q + 16, s'), brk + 16 * unat (core_units u))
    \<and> granted base u q s (area fs \<union> {brk..<brk + 16 * unat (core_units u)}) s' fs'"
proof -
  note su = sane_units [OF nb, folded u_def]
  let ?c = "16 * unat (core_units u)"
  obtain s1 fs1 where f: "ufree (of_nat brk + 16) (s\<lparr>umem := set_hsize (of_nat brk) (core_units u) (umem s)\<rparr>) = Inr s1"
    and r1: "free_ring base s1 fs1" and a1: "area fs1 = area fs \<union> {brk..<brk + ?c}"
    and c1: "\<exists>c\<in>set fs1. core_units u \<le> snd c"
    and fr: "\<forall>x. unat x \<notin> {unat base..<unat base + 16} \<union> area fs \<union> {brk..<brk + ?c} \<longrightarrow> umem s1 x = umem s x"
    using morecore_ring [OF ring base(2) room su(5) ar] by blast
  obtain c where c: "c \<in> set fs1" "u \<le> snd c" using c1 su(4) by (meson order_trans)
  from malloc_fit [OF r1 c su(1), of 0] obtain q s' fs' where
    r: "rounds (length fs1 + Suc 0) (malloc_round u) (freep s1, hptr (umem s1) (freep s1), s1) = Ret (q + 16, s')"
    and g: "granted base u q s1 (area fs1) s' fs'" by blast
  have "brk \<le> 2147483648" using room by simp
  then have "run_sbrk True (rounds (length fs + Suc (length fs1 + Suc 0)) (malloc_round u)
      (freep s, hptr (umem s) (freep s), s)) brk = Some ((q + 16, s'), brk + ?c)"
    using none room f freep_pos [OF r1 base(1)]
    by (subst malloc_asks [OF ring _ su(1)]) (simp_all add: run_sbrk_bind run_sbrk_morecore [OF su(3)] r [unfolded add_Suc_right add_0_right] del: rounds.simps)
  moreover have "granted base u q s (area fs \<union> {brk..<brk + ?c}) s' fs'" using g fr by (auto simp: granted_def a1)
  ultimately show ?thesis by blast
qed

text \<open>
  malloc on a ring: with enough rounds it returns, and either it grants a block from the free bytes, to which
  the bytes that sbrk gave belong, or nothing has changed because no block was large enough and sbrk failed.
\<close>

lemma malloc_ring:
  assumes ring: "free_ring base s fs" and nb: "sane nbytes" and base: "0 < unat base" "unat base + 16 \<le> brk"
    and brk: "brk \<le> 2147483648" and ar: "area fs \<subseteq> {..<brk}"
  defines "u \<equiv> nunits_of nbytes"
  shows "\<exists>n. (\<exists>q s' fs' brk'. run_sbrk ok (rounds n (malloc_round u) (freep s, hptr (umem s) (freep s), s)) brk
        = Some ((q + 16, s'), brk') \<and> brk \<le> brk' \<and> brk' \<le> 2147483648
        \<and> granted base u q s (area fs \<union> {brk..<brk'}) s' fs')
    \<or> run_sbrk ok (rounds n (malloc_round u) (freep s, hptr (umem s) (freep s), s)) brk = Some ((0, s), brk)
      \<and> (\<forall>c\<in>set fs. snd c < u) \<and> (ok \<longrightarrow> 2147483648 < brk + 16 * unat (core_units u))"
proof -
  note su = sane_units [OF nb, folded u_def]
  consider (fit) c where "c \<in> set fs" "u \<le> snd c"
    | (grow) "\<forall>c\<in>set fs. snd c < u" "ok" "brk + 16 * unat (core_units u) \<le> 2147483648"
    | (fail) "\<forall>c\<in>set fs. snd c < u" "\<not> (ok \<and> brk + 16 * unat (core_units u) \<le> 2147483648)" by (meson not_le)
  then show ?thesis
  proof cases
    case fit
    from malloc_fit [OF ring fit su(1), of 0] obtain q s' fs' where
      r: "rounds (length fs + Suc 0) (malloc_round u) (freep s, hptr (umem s) (freep s), s) = Ret (q + 16, s')"
      and g: "granted base u q s (area fs) s' fs'" by blast
    have "granted base u q s (area fs \<union> {brk..<brk}) s' fs'" using g by simp
    then show ?thesis using brk by (intro exI [of _ "length fs + Suc 0"] disjI1) (auto simp only: r run_sbrk.simps)
  next
    case grow
    obtain n q s' fs' where "run_sbrk True (rounds n (malloc_round u) (freep s, hptr (umem s) (freep s), s)) brk
      = Some ((q + 16, s'), brk + 16 * unat (core_units u))"
      "granted base u q s (area fs \<union> {brk..<brk + 16 * unat (core_units u)}) s' fs'"
      using malloc_grown [OF ring nb base ar] grow(1,3) unfolding u_def by blast
    then show ?thesis using grow(2,3) by (intro exI [of _ n] disjI1) auto
  next
    case fail
    then have "run_sbrk ok (rounds (length fs + Suc 0) (malloc_round u) (freep s, hptr (umem s) (freep s), s)) brk = Some ((0, s), brk)"
      by (subst malloc_asks [OF ring _ su(1)]) (auto simp: run_sbrk_bind run_sbrk_morecore [OF su(3) brk])
    then show ?thesis using fail by (intro exI [of _ "length fs + Suc 0"] disjI2) auto
  qed
qed

section \<open>Clients\<close>

text \<open>
  A process that uses the allocator: the state of the allocator, the blocks in use and the break. lo is the
  break with which the process starts. The process allocates, frees what it has in use, writes into its
  blocks and into the memory below lo, and moves the break up by itself.
\<close>

inductive heap_reach :: "u64 \<Rightarrow> nat \<Rightarrow> ualloc \<Rightarrow> block list \<Rightarrow> nat \<Rightarrow> bool" for base lo where
  start: "freep s = 0 \<Longrightarrow> heap_reach base lo s [] lo"
| alloc: "heap_reach base lo s live brk \<Longrightarrow> sane nbytes \<Longrightarrow>
    run_sbrk ok (malloc n base nbytes s) brk = Some ((ap, s'), brk') \<Longrightarrow>
    heap_reach base lo s' (if ap = 0 then live else (ap - 16, nunits_of nbytes) # live) brk'"
| release: "heap_reach base lo s live brk \<Longrightarrow> b \<in> set live \<Longrightarrow> ufree (fst b + 16) s = Inr s' \<Longrightarrow>
    heap_reach base lo s' (remove1 b live) brk"
| store: "heap_reach base lo s live brk \<Longrightarrow> b \<in> set live \<Longrightarrow> unat (fst b) + 16 \<le> unat x \<Longrightarrow> unat x \<in> bytes b \<Longrightarrow>
    heap_reach base lo (s\<lparr>umem := (umem s)(x := v)\<rparr>) live brk"
| outside: "heap_reach base lo s live brk \<Longrightarrow> unat x < lo \<Longrightarrow> unat x \<notin> {unat base..<unat base + 16} \<Longrightarrow>
    heap_reach base lo (s\<lparr>umem := (umem s)(x := v)\<rparr>) live brk"
| grow: "heap_reach base lo s live brk \<Longrightarrow> brk \<le> brk' \<Longrightarrow> brk' \<le> 2147483648 \<Longrightarrow> heap_reach base lo s live brk'"

definition live_ok :: "ualloc \<Rightarrow> block list \<Rightarrow> nat set \<Rightarrow> nat set \<Rightarrow> bool" where
  "live_ok s live A H \<longleftrightarrow>
     (\<forall>b\<in>set live. heap_block b \<and> hsize (umem s) (fst b) = snd b \<and> bytes b \<subseteq> H - A) \<and>
     sorted_wrt (\<lambda>b c. bytes b \<inter> bytes c = {}) live"

definition heap_inv :: "u64 \<Rightarrow> nat \<Rightarrow> ualloc \<Rightarrow> block list \<Rightarrow> nat \<Rightarrow> bool" where
  "heap_inv base lo s live brk \<longleftrightarrow> lo \<le> brk \<and> brk \<le> 2147483648 \<and>
     (freep s = 0 \<and> live = [] \<or>
      (\<exists>fs. free_ring base s fs \<and> area fs \<subseteq> {lo..<brk} \<and> live_ok s live (area fs) {lo..<brk}))"

text \<open>Writes that miss the headers of the blocks in use and of the ring keep the invariant.\<close>

lemma header_cong:
  assumes "\<And>x. unat (x - a) < 16 \<Longrightarrow> m' x = m x"
  shows "hptr m' a = hptr m a" "hsize m' a = hsize m a"
proof -
  have e: "m' (a + of_nat i) = m (a + of_nat i)" if "i < 16" for i
    using that by (intro assms) (simp add: unat_of_nat)
  have "m' (a + 8 + of_nat i) = m (a + 8 + of_nat i)" if "i < 4" for i using e [of "8 + i"] that by (simp add: add.assoc)
  then have "rd m' a 8 = rd m a 8" "rd m' (a + 8) 4 = rd m (a + 8) 4" using e by (auto intro!: rd_cong)
  then show "hptr m' a = hptr m a" "hsize m' a = hsize m a"
    by (simp_all add: hptr_def load64_def hsize_def load32_def)
qed

lemma header_cong_nat:
  assumes "\<And>x. unat x \<in> {unat a..<unat a + 16} \<Longrightarrow> m' x = m x" and "unat a \<le> 2147483648"
  shows "hptr m' a = hptr m a" "hsize m' a = hsize m a"
proof -
  have "unat x \<in> {unat a..<unat a + 16}" if "unat (x - a) < 16" for x
    using outside_header [of x a] assms(2) that by (meson not_le)
  then show "hptr m' a = hptr m a" "hsize m' a = hsize m a" using assms(1) by (blast intro: header_cong)+
qed

lemma free_ring_cong:
  assumes "free_ring base s fs" and "unat base \<le> 2147483648"
    and "\<And>x. unat x \<in> foot base fs \<Longrightarrow> m' x = umem s x"
  shows "free_ring base (s\<lparr>umem := m'\<rparr>) fs"
proof -
  have "hptr m' c = hptr (umem s) c \<and> hsize m' c = hsize (umem s) c" if c: "c \<in> fst ` set ((base, 0) # fs)" for c
  proof -
    obtain b where b: "c = fst b" "b \<in> set ((base, 0) # fs)" using c by (rule imageE)
    have "unat c \<le> 2147483648" using b assms(1,2) by (auto simp: free_ring_def list_all_iff heap_block_def)
    moreover have "m' x = umem s x" if "unat x \<in> {unat c..<unat c + 16}" for x
      using ring_header [of fs b base] assms(1,3) b that by (auto simp: free_ring_def)
    ultimately show ?thesis using header_cong_nat by blast
  qed
  then have "seg m' base ((base, 0) # fs) base = seg (umem s) base ((base, 0) # fs) base" by (rule seg_cong)
  then show ?thesis using assms(1) by (simp add: free_ring_def)
qed

lemma live_ok_cong:
  assumes "live_ok s live A H" and "\<And>x b. b \<in> set live \<Longrightarrow> unat x \<in> {unat (fst b)..<unat (fst b) + 16} \<Longrightarrow> umem s' x = umem s x"
  shows "live_ok s' live A H"
proof -
  have "hsize (umem s') (fst b) = hsize (umem s) (fst b)" if "b \<in> set live" for b
    using assms that by (intro header_cong_nat) (auto simp: live_ok_def heap_block_def)
  then show ?thesis using assms(1) by (simp add: live_ok_def)
qed

lemma live_header:
  assumes "live_ok s live A H" and "b \<in> set live"
  shows "{unat (fst b)..<unat (fst b) + 16} \<subseteq> bytes b" "bytes b \<subseteq> H - A" "bytes b \<noteq> {}"
proof -
  have "0 < unat (snd b)" using assms by (auto simp: live_ok_def heap_block_def unat_pos)
  then show "{unat (fst b)..<unat (fst b) + 16} \<subseteq> bytes b" "bytes b \<noteq> {}" by (auto simp: bytes_def)
  show "bytes b \<subseteq> H - A" using assms by (auto simp: live_ok_def)
qed

lemma live_disjoint:
  assumes "live_ok s live A H" and "b \<in> set live" and "c \<in> set (remove1 b live)"
  shows "bytes b \<inter> bytes c = {}"
proof -
  have "sorted_wrt (\<lambda>b c. bytes b \<inter> bytes c = {}) live" using assms(1) by (simp add: live_ok_def)
  then show ?thesis using assms(2,3) by (induction live) (auto split: if_splits dest: notin_set_remove1)
qed

lemma sorted_wrt_remove1: "sorted_wrt P xs \<Longrightarrow> sorted_wrt P (remove1 x xs)"
  by (induction xs) (auto dest: notin_set_remove1)

lemma malloc_init_ring:
  assumes inv: "heap_inv base lo s live brk" and base: "0 < unat base" "unat base + 16 \<le> lo"
  shows "\<exists>fs. free_ring base (malloc_init base s) fs \<and> area fs \<subseteq> {lo..<brk}
    \<and> live_ok (malloc_init base s) live (area fs) {lo..<brk}"
proof (cases "freep s = 0")
  case True
  then have "live = []" using inv freep_pos base(1) by (auto simp: heap_inv_def)
  moreover have "free_ring base (malloc_init base s) []" using True by (simp add: malloc_init_def free_ring_def)
  ultimately show ?thesis by (intro exI [of _ "[]"]) (simp add: live_ok_def)
next
  case False
  then show ?thesis using inv by (auto simp: heap_inv_def malloc_init_def)
qed

lemma live_ok_granted:
  assumes live: "live_ok s live (area fs) {lo..<brk}" and g: "granted base u q s (area fs \<union> {brk..<brk'}) s' fs'"
    and base: "unat base + 16 \<le> lo" and brk: "brk \<le> brk'" and ar: "area fs \<subseteq> {lo..<brk}" and lo: "lo \<le> brk"
  shows "live_ok s' ((q, u) # live) (area fs') {lo..<brk'}"
proof -
  have q: "bytes (q, u) \<subseteq> area fs \<union> {brk..<brk'}" "area fs' = area fs \<union> {brk..<brk'} - bytes (q, u)"
    "heap_block (q, u)" "hsize (umem s') q = u" using g by (simp_all add: granted_def)
  have "umem s' x = umem s x" if "b \<in> set live" "unat x \<in> {unat (fst b)..<unat (fst b) + 16}" for x b
  proof -
    have "unat x \<in> {lo..<brk} - area fs" using live_header [OF live that(1)] that(2) by blast
    then show ?thesis using g base by (auto simp: granted_def)
  qed
  then have l: "live_ok s' live (area fs) {lo..<brk}" using live by (rule live_ok_cong [rotated])
  have "bytes b \<inter> bytes (q, u) = {} \<and> bytes b \<subseteq> {lo..<brk'} - area fs'" if "b \<in> set live" for b
  proof -
    have "bytes b \<subseteq> {lo..<brk'}" "bytes b \<inter> (area fs \<union> {brk..<brk'}) = {}"
      using live_header(2) [OF l that] brk by fastforce+
    then show ?thesis using q(1,2) by blast
  qed
  moreover have "bytes (q, u) \<subseteq> {lo..<brk'} - area fs'" using q ar brk lo by fastforce
  ultimately show ?thesis using l q(3,4) by (auto simp: live_ok_def)
qed

lemma unat_add_16: "unat (q :: u64) \<le> 2147483648 \<Longrightarrow> unat (q + 16) = unat q + 16"
  by (simp add: unat_word_ariths)

lemma heap_inv_alloc:
  assumes inv: "heap_inv base lo s live brk" and nb: "sane nbytes" and base: "0 < unat base" "unat base + 16 \<le> lo"
  shows "\<exists>n. \<exists>ap s' brk'. run_sbrk ok (malloc n base nbytes s) brk = Some ((ap, s'), brk')
    \<and> heap_inv base lo s' (if ap = 0 then live else (ap - 16, nunits_of nbytes) # live) brk'
    \<and> (ap = 0 \<longrightarrow> ok \<longrightarrow> 2147483648 < brk + 16 * unat (core_units (nunits_of nbytes)))"
proof -
  let ?s = "malloc_init base s" and ?u = "nunits_of nbytes"
  obtain fs where fs: "free_ring base ?s fs" "area fs \<subseteq> {lo..<brk}" "live_ok ?s live (area fs) {lo..<brk}"
    using malloc_init_ring [OF inv base] by blast
  have b: "lo \<le> brk" "brk \<le> 2147483648" "unat base + 16 \<le> brk" "area fs \<subseteq> {..<brk}"
    using inv base fs(2) by (auto simp: heap_inv_def)
  have eq: "malloc n base nbytes s = rounds n (malloc_round ?u) (freep ?s, hptr (umem ?s) (freep ?s), ?s)" for n
    by (simp add: malloc_def Let_def)
  from malloc_ring [OF fs(1) nb base(1) b(3,2,4), of ok] show ?thesis unfolding eq [symmetric]
  proof (elim exE disjE conjE)
    fix n q s' fs' brk'
    assume r: "run_sbrk ok (malloc n base nbytes s) brk = Some ((q + 16, s'), brk')" "brk \<le> brk'" "brk' \<le> 2147483648"
      and g: "granted base ?u q ?s (area fs \<union> {brk..<brk'}) s' fs'"
    have "unat q \<le> 2147483648" using g by (simp add: granted_def heap_block_def)
    then have "q + 16 \<noteq> 0" using unat_add_16 [of q] by auto
    moreover have "live_ok s' ((q, ?u) # live) (area fs') {lo..<brk'}"
      using live_ok_granted [OF fs(3) g base(2) r(2) fs(2) b(1)] .
    moreover have "free_ring base s' fs'" "area fs' \<subseteq> {lo..<brk'}" using g fs(2) r(2) b(1) by (auto simp: granted_def)
    ultimately show ?thesis using r b(1) by (intro exI [of _ n]) (auto simp: heap_inv_def)
  next
    fix n
    assume "run_sbrk ok (malloc n base nbytes s) brk = Some ((0, ?s), brk)"
      "ok \<longrightarrow> 2147483648 < brk + 16 * unat (core_units ?u)"
    then show ?thesis using fs b by (intro exI [of _ n]) (auto simp: heap_inv_def)
  qed
qed

lemma heap_inv_release:
  assumes inv: "heap_inv base lo s live brk" and b: "b \<in> set live" and base: "unat base + 16 \<le> lo"
  shows "\<exists>s'. ufree (fst b + 16) s = Inr s' \<and> heap_inv base lo s' (remove1 b live) brk"
proof -
  obtain fs where fs: "free_ring base s fs" "area fs \<subseteq> {lo..<brk}" and live: "live_ok s live (area fs) {lo..<brk}"
    using inv b by (auto simp: heap_inv_def)
  have hb: "heap_block b" "hsize (umem s) (fst b) = snd b" using live b by (simp_all add: live_ok_def)
  note lh = live_header [OF live b]
  have "unat (fst b) \<in> bytes b" using lh(1) by auto
  then have "unat base + 16 \<le> unat (fst b)" using lh(2) base by auto
  moreover have "bytes b \<inter> area fs = {}" using lh(2) by auto
  ultimately obtain s' fs' where f: "ufree (fst b + 16) s = Inr s'" "free_ring base s' fs'" "area fs' = area fs \<union> bytes b"
    and fr: "\<forall>x. unat x \<notin> foot base fs \<union> bytes b \<longrightarrow> umem s' x = umem s x"
    using ufree_ring [OF fs(1), of "fst b" "snd b"] hb by auto
  have oth: "bytes b \<inter> bytes c = {}" "c \<in> set live" if "c \<in> set (remove1 b live)" for c
    using live_disjoint [OF live b that] notin_set_remove1 that by fast+
  have "live_ok s (remove1 b live) (area fs) {lo..<brk}"
    using live oth(2) sorted_wrt_remove1 by (auto simp: live_ok_def)
  moreover have "umem s' x = umem s x" if c: "c \<in> set (remove1 b live)" and x: "unat x \<in> {unat (fst c)..<unat (fst c) + 16}" for x c
  proof -
    have "unat x \<in> bytes c" "bytes c \<subseteq> {lo..<brk} - area fs" using live_header(1,2) [OF live oth(2) [OF c]] x by auto
    then have "unat x \<notin> foot base fs \<union> bytes b" using oth(1) [OF c] base by (auto simp: foot_def)
    then show ?thesis using fr by blast
  qed
  ultimately have "live_ok s' (remove1 b live) (area fs) {lo..<brk}" by (rule live_ok_cong)
  then have "live_ok s' (remove1 b live) (area fs') {lo..<brk}" using oth(1) unfolding f(3) live_ok_def by blast
  moreover have "area fs' \<subseteq> {lo..<brk}" using f(3) fs(2) lh(2) by auto
  ultimately show ?thesis using f(1,2) inv by (auto simp: heap_inv_def)
qed

text \<open>Stores of the client that miss the headers.\<close>

lemma heap_inv_store:
  assumes inv: "heap_inv base lo s live brk" and base: "unat base + 16 \<le> lo"
    and x: "unat x \<notin> {unat base..<unat base + 16}" "unat x < lo \<or>
      (\<exists>b\<in>set live. unat (fst b) + 16 \<le> unat x \<and> unat x \<in> bytes b)"
  shows "heap_inv base lo (s\<lparr>umem := (umem s)(x := v)\<rparr>) live brk"
proof (cases "freep s = 0 \<and> live = []")
  case True
  then show ?thesis using inv by (auto simp: heap_inv_def)
next
  case False
  let ?m = "(umem s)(x := v)"
  obtain fs where fs: "free_ring base s fs" "area fs \<subseteq> {lo..<brk}" and live: "live_ok s live (area fs) {lo..<brk}"
    using inv False by (auto simp: heap_inv_def)
  have xa: "unat x \<notin> area fs" using x(2) fs(2) live_header(2) [OF live] by fastforce
  have "free_ring base (s\<lparr>umem := ?m\<rparr>) fs"
    using fs(1) base inv x(1) xa by (intro free_ring_cong) (auto simp: foot_def heap_inv_def)
  moreover have "?m y = umem s y" if c: "c \<in> set live" and y: "unat y \<in> {unat (fst c)..<unat (fst c) + 16}" for y c
  proof -
    have yc: "unat y \<in> bytes c" "bytes c \<subseteq> {lo..<brk}" using live_header(1,2) [OF live c] y by auto
    have "y \<noteq> x"
    proof
      assume "y = x"
      then obtain b where b: "b \<in> set live" "unat (fst b) + 16 \<le> unat x" "unat x \<in> bytes b" using x(2) yc by auto
      then have "c \<noteq> b" using y \<open>y = x\<close> by auto
      then have "c \<in> set (remove1 b live)" using c by (simp add: in_set_remove1)
      then show False using live_disjoint [OF live b(1)] yc(1) b(3) \<open>y = x\<close> by blast
    qed
    then show ?thesis by simp
  qed
  then have "live_ok (s\<lparr>umem := ?m\<rparr>) live (area fs) {lo..<brk}" by (intro live_ok_cong [OF live]) simp
  ultimately show ?thesis using fs(2) inv by (auto simp: heap_inv_def)
qed

lemma malloc_deterministic:
  assumes "run_sbrk ok (malloc n base nbytes s) brk = Some r" and "run_sbrk ok (malloc n' base nbytes s) brk = Some r'"
  shows "r = r'"
  using assms run_sbrk_rounds_mono [of ok n _ _ brk r "max n n'"] run_sbrk_rounds_mono [of ok n' _ _ brk r' "max n n'"]
  by (fastforce simp: malloc_def Let_def)

lemma heap_inv_live:
  assumes "heap_inv base lo s live brk" and "b \<in> set live"
  shows "bytes b \<subseteq> {lo..<brk}" "heap_block b" "hsize (umem s) (fst b) = snd b"
    "sorted_wrt (\<lambda>b c. bytes b \<inter> bytes c = {}) live"
  using assms by (auto simp: heap_inv_def live_ok_def)

lemma heap_reach_inv:
  assumes "heap_reach base lo s live brk" and "0 < unat base" and "unat base + 16 \<le> lo" and "lo \<le> 2147483648"
  shows "heap_inv base lo s live brk"
  using assms(1)
proof (induction rule: heap_reach.induct)
  case (start s)
  then show ?case using assms(4) by (simp add: heap_inv_def)
next
  case (alloc s live brk nbytes ok n ap s' brk')
  from heap_inv_alloc [OF alloc.IH alloc.hyps(2) assms(2,3), of ok] show ?case
    using malloc_deterministic [OF alloc.hyps(3)] by (elim exE conjE) blast
next
  case (release s live brk b s')
  then show ?case using heap_inv_release [OF release.IH _ assms(3)] by fastforce
next
  case (store s live brk b x v)
  have "unat x \<notin> {unat base..<unat base + 16}"
    using heap_inv_live(1) [OF store.IH store.hyps(2)] store.hyps(4) assms(3) by auto
  then show ?case using store by (intro heap_inv_store [OF store.IH assms(3)]) auto
next
  case (outside s live brk x v)
  then show ?case by (intro heap_inv_store [OF outside.IH assms(3)]) auto
next
  case (grow s live brk brk')
  then have "{lo..<brk} \<subseteq> {lo..<brk'}" by auto
  then show ?case using grow by (fastforce simp: heap_inv_def live_ok_def)
qed

lemma payload_in_block:
  assumes "heap_block (ap - 16, nunits_of nbytes)" and "sane nbytes" and "ap \<noteq> 0"
    and "16 \<le> unat ap"
  shows "{unat ap..<unat ap + unat nbytes} \<subseteq> bytes (ap - 16, nunits_of nbytes)"
proof -
  have "unat (ap - 16) = unat ap - 16" using assms(4) by (simp add: unat_sub_if')
  then show ?thesis using sane_units(6) [OF assms(2)] assms(4) by (auto simp: bytes_def)
qed

text \<open>C21: Clients of malloc never share memory. In every state that a process can reach by calls of malloc and
  free, by stores into its blocks and outside of the heap and by moving its break, the blocks in use are
  pairwise disjoint and lie in the heap, free of any of them returns, and malloc of a sane size returns with
  enough rounds: 0 only when sbrk fails, and else the address of nbytes bytes in the heap that meet no block
  in use.
\<close>

theorem umalloc_blocks_disjoint:
  assumes "heap_reach base lo s live brk" and "0 < unat base" and "unat base + 16 \<le> lo" and "lo \<le> 2147483648"
  shows "sorted_wrt (\<lambda>b c. bytes b \<inter> bytes c = {}) live
    \<and> (\<forall>b\<in>set live. bytes b \<subseteq> {lo..<brk} \<and> hsize (umem s) (fst b) = snd b \<and> (\<exists>s'. ufree (fst b + 16) s = Inr s'))
    \<and> (\<forall>nbytes ok. sane nbytes \<longrightarrow> (\<exists>N ap s' brk'. \<forall>n\<ge>N. run_sbrk ok (malloc n base nbytes s) brk = Some ((ap, s'), brk')
        \<and> (ap = 0 \<longrightarrow> ok \<longrightarrow> 2147483648 < brk + 16 * unat (core_units (nunits_of nbytes)))
        \<and> (ap \<noteq> 0 \<longrightarrow> {unat ap..<unat ap + unat nbytes} \<subseteq> {lo..<brk'} - \<Union> (bytes ` set live))))"
proof (intro conjI ballI allI impI)
  note inv = heap_reach_inv [OF assms]
  show "sorted_wrt (\<lambda>b c. bytes b \<inter> bytes c = {}) live" using heap_inv_live(4) [OF inv] by (cases live) auto
  show "bytes b \<subseteq> {lo..<brk}" "hsize (umem s) (fst b) = snd b" if "b \<in> set live" for b
    using heap_inv_live [OF inv that] by auto
  show "\<exists>s'. ufree (fst b + 16) s = Inr s'" if "b \<in> set live" for b
    using heap_inv_release [OF inv that assms(3)] by blast
  fix nbytes ok assume nb: "sane nbytes"
  obtain N ap s' brk' where r: "run_sbrk ok (malloc N base nbytes s) brk = Some ((ap, s'), brk')"
    and i: "heap_inv base lo s' (if ap = 0 then live else (ap - 16, nunits_of nbytes) # live) brk'"
    and z: "ap = 0 \<longrightarrow> ok \<longrightarrow> 2147483648 < brk + 16 * unat (core_units (nunits_of nbytes))"
    using heap_inv_alloc [OF inv nb assms(2,3), of ok] by blast
  have "{unat ap..<unat ap + unat nbytes} \<subseteq> {lo..<brk'} - \<Union> (bytes ` set live)" if ap: "ap \<noteq> 0"
  proof -
    let ?b = "(ap - 16, nunits_of nbytes)"
    have l: "bytes ?b \<subseteq> {lo..<brk'}" "heap_block ?b" "\<forall>c\<in>set live. bytes ?b \<inter> bytes c = {}"
      using heap_inv_live [OF i, of ?b] ap by auto
    have "unat (ap - 16) \<le> 2147483648" using l(2) by (simp add: heap_block_def)
    then have "unat (ap - 16 + 16) = unat (ap - 16) + 16" by (rule unat_add_16)
    then have "16 \<le> unat ap" by simp
    then show ?thesis using payload_in_block [OF l(2) nb ap] l(1,3) by blast
  qed
  moreover have "run_sbrk ok (malloc n base nbytes s) brk = Some ((ap, s'), brk')" if "N \<le> n" for n
    using run_sbrk_rounds_mono [OF _ that] r by (simp add: malloc_def Let_def)
  ultimately show "\<exists>N ap s' brk'. \<forall>n\<ge>N. run_sbrk ok (malloc n base nbytes s) brk = Some ((ap, s'), brk')
      \<and> (ap = 0 \<longrightarrow> ok \<longrightarrow> 2147483648 < brk + 16 * unat (core_units (nunits_of nbytes)))
      \<and> (ap \<noteq> 0 \<longrightarrow> {unat ap..<unat ap + unat nbytes} \<subseteq> {lo..<brk'} - \<Union> (bytes ` set live))"
    using z by blast
qed

theorem umalloc_blocks_disjoint_witness:
  "\<exists>s live brk. heap_reach 4096 12288 s live brk \<and> live \<noteq> [] \<and> (\<forall>b\<in>set live. bytes b \<subseteq> {12288..<brk})"
proof -
  let ?s = "\<lparr>umem = \<lambda>_. 0, freep = 0\<rparr>"
  have st: "heap_reach 4096 12288 ?s [] 12288" by (simp add: heap_reach.start)
  have sane: "sane 10" by (simp add: sane_def)
  have u: "16 * unat (core_units (nunits_of 10)) = 65536"
    using nunits_of_unat [of 10] by (simp add: core_units_def word_less_nat_alt)
  have b: "0 < unat (4096 :: u64)" "unat (4096 :: u64) + 16 \<le> 12288" "(12288 :: nat) \<le> 2147483648" by simp_all
  from umalloc_blocks_disjoint [OF st b, THEN conjunct2, THEN conjunct2, THEN spec [of _ 10], THEN spec [of _ True]] sane u
  obtain n ap s' brk' where r: "run_sbrk True (malloc n 4096 10 ?s) 12288 = Some ((ap, s'), brk')"
    and "ap = 0 \<longrightarrow> 2147483648 < 12288 + (65536 :: nat)" by (metis order_refl)
  then have "ap \<noteq> 0" by auto
  from heap_reach.alloc [OF st sane r] have "heap_reach 4096 12288 s' [(ap - 16, nunits_of 10)] brk'"
    using \<open>ap \<noteq> 0\<close> by simp
  then show ?thesis using umalloc_blocks_disjoint [of 4096 12288 s' "[(ap - 16, nunits_of 10)]" brk'] by fastforce
qed

text \<open>
  The sizes beyond the sane ones: the number of bytes is cut to an int, so that a request of almost 4
  gigabytes asks sbrk for nothing, and the block that morecore makes of it has no memory.
\<close>

lemma huge_request:
  "nunits_of 4294967280 = 268435456" "sint (ucast (ucast (nunits_of 4294967280) * 16 :: u64) :: u32) = 0"
  by (simp_all add: nunits_of_def)

end
