(* ===== verification/Grind.thy ===== *)
theory Grind
  imports Programs
begin

text \<open>
  user/grind.c: two processes that make random system calls. The random numbers are those of the minimal
  standard generator, computed with the factorisation that avoids large products; the theorem shows that the
  numbers are the right ones and stay in their range.
\<close>

section \<open>Random numbers\<close>

text \<open>The value of a long, which has 64 bits.\<close>

definition long :: "int \<Rightarrow> int" where "long i = sint (word_of_int i :: u64)"

text \<open>The result and the new context.\<close>

definition do_rand :: "u64 \<Rightarrow> int \<times> u64" where
  "do_rand ctx =
     (let x = sint (ctx mod 0x7ffffffe + 1);
          hi = x sdiv 127773;
          lo = x smod 127773;
          x = long (16807 * lo - 2836 * hi);
          x = (if x < 0 then long (x + 0x7fffffff) else x);
          x = long (x - 1)
      in (sint (word_of_int x :: u32), word_of_int x))"

section \<open>System calls\<close>

abbreviation ignoring :: "call \<Rightarrow> 'a prog \<Rightarrow> 'a prog" where
  "ignoring c p \<equiv> Sys c (\<lambda>_. p)"

abbreviation creat :: "string \<Rightarrow> (int \<Rightarrow> 'a prog) \<Rightarrow> 'a prog" where
  "creat path k \<equiv> Sys (open_call path (O_CREATE OR O_RDWR)) k"

abbreviation touch :: "string \<Rightarrow> 'a prog \<Rightarrow> 'a prog" where
  "touch path p \<equiv> creat path (\<lambda>fd. ignoring (close_call fd) p)"

definition fail :: "int \<Rightarrow> string \<Rightarrow> int \<Rightarrow> 'a prog" where
  "fail fd msg n = bind (fprintf fd msg []) (\<lambda>_. Exit n)"

text \<open>A fork: the child, and what the parent goes on with.\<close>

definition forked :: "'a prog \<Rightarrow> 'a prog \<Rightarrow> (int \<Rightarrow> 'a prog) \<Rightarrow> 'a prog" where
  "forked child failed parent =
     Sys fork_call (\<lambda>pid. if pid = 0 then child else if pid < 0 then failed else parent pid)"

text \<open>The variables of go: fd, the number of rounds, the random context and the static buffer.\<close>

type_synonym gostate = "int \<times> u64 \<times> u64 \<times> string"

text \<open>The actions on files: 1 to 12.\<close>

definition go_files :: "int \<Rightarrow> int \<Rightarrow> string \<Rightarrow> (int \<times> string) prog" where
  "go_files what fd buf =
     (let ret = Ret (fd, buf) in
      if what = 1 then touch ''grindir/../a'' ret
      else if what = 2 then touch ''grindir/../grindir/../b'' ret
      else if what = 3 then ignoring (unlink_call ''grindir/../a'') ret
      else if what = 4 then
        Sys (chdir_call ''grindir'') (\<lambda>r. if r \<noteq> 0 then fail 1 (''chdir grindir failed'' @ NL) 1
          else ignoring (unlink_call ''../b'') (ignoring (chdir_call ''/'') ret))
      else if what = 5 then ignoring (close_call fd) (creat ''/grindir/../a'' (\<lambda>fd. Ret (fd, buf)))
      else if what = 6 then ignoring (close_call fd) (creat ''/./grindir/./../b'' (\<lambda>fd. Ret (fd, buf)))
      else if what = 7 then ignoring (write_call fd buf) ret
      else if what = 8 then
        Read fd 999 (\<lambda>(n, d). Ret (fd, if n > 0 then take (nat n) d @ drop (nat n) buf else buf))
      else if what = 9 then
        ignoring (mkdir_call ''grindir/../a'') (touch ''a/../a/./a'' (ignoring (unlink_call ''a/a'') ret))
      else if what = 10 then
        ignoring (mkdir_call ''/../b'') (touch ''grindir/../b/b'' (ignoring (unlink_call ''b/b'') ret))
      else if what = 11 then ignoring (unlink_call ''b'') (ignoring (link_call ''../grindir/./../a'' ''../b'') ret)
      else if what = 12 then ignoring (unlink_call ''../grindir/../a'') (ignoring (link_call ''.././b'' ''/grindir/../a'') ret)
      else ret)"

abbreviation fork_failed :: "'a prog" where "fork_failed \<equiv> fail 1 (''grind: fork failed'' @ NL) 1"

text \<open>The actions on memory and processes: 13 to 20.\<close>

definition go_procs :: "int \<Rightarrow> u64 \<Rightarrow> unit prog" where
  "go_procs what break0 =
     (if what = 13 then forked (Exit 0) fork_failed (\<lambda>_. ignoring wait_call (Ret ()))
      else if what = 14 then
        forked (ignoring fork_call (ignoring fork_call (Exit 0))) fork_failed (\<lambda>_. ignoring wait_call (Ret ()))
      else if what = 15 then ignoring (sbrk_call 6011) (Ret ())
      else if what = 16 then
        Sys (sbrk_call 0) (\<lambda>b. if word_of_int b > break0
          then Sys (sbrk_call 0) (\<lambda>b. ignoring (sbrk_call (sint (ucast (- (word_of_int b - break0)) :: u32))) (Ret ()))
          else Ret ())
      else if what = 17 then
        forked (touch ''a'' (Exit 0)) fork_failed (\<lambda>pid.
          Sys (chdir_call ''../grindir/..'') (\<lambda>r. if r \<noteq> 0 then fail 1 (''chdir failed'' @ NL) 1
            else ignoring (kill_call pid) (ignoring wait_call (Ret ()))))
      else if what = 18 then
        forked (Sys getpid_call (\<lambda>me. ignoring (kill_call me) (Exit 0))) fork_failed (\<lambda>_. ignoring wait_call (Ret ()))
      else if what = 19 then
        Pipe (\<lambda>(r, fds0, fds1). if r < 0 then fail 1 (''grind: pipe failed'' @ NL) 1
          else forked
            (ignoring fork_call (ignoring fork_call (
             Sys (write_call fds1 ''x'') (\<lambda>n.
             andthen (if n \<noteq> 1 then uprintf (''grind: pipe write failed'' @ NL) [] else Ret ()) (
             Read fds0 1 (\<lambda>(n, _).
             andthen (if n \<noteq> 1 then uprintf (''grind: pipe read failed'' @ NL) [] else Ret ()) (Exit 0)))))))
            fork_failed (\<lambda>_. ignoring (close_call fds0) (ignoring (close_call fds1) (ignoring wait_call (Ret ())))))
      else if what = 20 then
        forked
          (ignoring (unlink_call ''a'') (ignoring (mkdir_call ''a'') (ignoring (chdir_call ''a'') (
           ignoring (unlink_call ''../a'') (creat ''x'' (\<lambda>_. ignoring (unlink_call ''x'') (Exit 0)))))))
          (fail 1 (''fork failed'' @ NL) 1) (\<lambda>_. ignoring wait_call (Ret ()))
      else Ret ())"

text \<open>Action 21: there are free inodes, descriptors and blocks.\<close>

definition go_check :: "unit prog" where
  "go_check =
     ignoring (unlink_call ''c'') (creat ''c'' (\<lambda>fd1.
     if fd1 < 0 then fail 1 (''create c failed'' @ NL) 1
     else Sys (write_call fd1 ''x'') (\<lambda>n.
     if n \<noteq> 1 then fail 1 (''write c failed'' @ NL) 1
     else Fstat fd1 (\<lambda>(r, st).
     if r \<noteq> 0 then fail 1 (''fstat failed'' @ NL) 1
     else if st_size st \<noteq> 1 then
       andthen (uprintf (''fstat reports wrong size %d'' @ NL) [Num (scast (ucast (st_size st) :: u32))]) (Exit 1)
     else if st_ino st > 200 then
       andthen (uprintf (''fstat reports crazy i-number %d'' @ NL) [Num (scast (st_ino st))]) (Exit 1)
     else ignoring (close_call fd1) (ignoring (unlink_call ''c'') (Ret ()))))))"

text \<open>Action 22: echo hi | cat. A character that a read does not deliver stays 0.\<close>

definition go_pipeline :: "unit prog" where
  "go_pipeline =
     Pipe (\<lambda>(r, aa0, aa1). if r < 0 then fail 2 (''pipe failed'' @ NL) 1 else
     Pipe (\<lambda>(r, bb0, bb1). if r < 0 then fail 2 (''pipe failed'' @ NL) 1 else
     forked
       (ignoring (close_call bb0) (ignoring (close_call bb1) (ignoring (close_call aa0) (ignoring (close_call 1) (
        Sys (dup_call aa1) (\<lambda>r. if r \<noteq> 1 then fail 2 (''dup failed'' @ NL) 1
        else ignoring (close_call aa1) (
        ignoring (exec_call ''grindir/../echo'' [''echo'', ''hi'']) (
        fail 2 (''echo: not found'' @ NL) 2))))))))
       (fail 2 (''fork failed'' @ NL) 3) (\<lambda>pid1.
     forked
       (ignoring (close_call aa1) (ignoring (close_call bb0) (ignoring (close_call 0) (
        Sys (dup_call aa0) (\<lambda>r. if r \<noteq> 0 then fail 2 (''dup failed'' @ NL) 4
        else ignoring (close_call aa0) (ignoring (close_call 1) (
        Sys (dup_call bb1) (\<lambda>r. if r \<noteq> 1 then fail 2 (''dup failed'' @ NL) 5
        else ignoring (close_call bb1) (
        ignoring (exec_call ''/cat'' [''cat'']) (
        fail 2 (''cat: not found'' @ NL) 6))))))))))
       (fail 2 (''fork failed'' @ NL) 7) (\<lambda>pid2.
     ignoring (close_call aa0) (ignoring (close_call aa1) (ignoring (close_call bb1) (
     Read bb0 1 (\<lambda>(n, c0). Read bb0 1 (\<lambda>(n', c1).
     let buf = c_string ((if n > 0 then take 1 c0 else [CHR 0x00]) @ (if n' > 0 then take 1 c1 else [CHR 0x00])) in
     ignoring (close_call bb0) (
     Wait (\<lambda>(w1, st1). Wait (\<lambda>(w2, st2).
     if w1 < 0 \<or> w2 < 0 then Undef
     else if st1 \<noteq> 0 \<or> st2 \<noteq> 0 \<or> ulib_strcmp buf ''hi'' \<noteq> 0 then
       andthen (uprintf (''exec pipeline failed %d %d '' @ [CHR 0x22] @ ''%s'' @ [CHR 0x22] @ NL)
         [Num (of_int st1), Num (of_int st2), Str (Some buf)]) (Exit 1)
     else Ret ()))))))))))))"

section \<open>go, iter and main\<close>

definition go_round :: "bool \<Rightarrow> u64 \<Rightarrow> gostate \<Rightarrow> (gostate + unit) prog" where
  "go_round which_child break0 = (\<lambda>(fd, iters, rand_next, buf).
     let iters = iters + 1 in
     andthen (if iters mod 500 = 0 then ignoring (write_call 1 (if which_child then ''B'' else ''A'')) (Ret ()) else Ret ()) (
     case do_rand rand_next of (r, rand_next) \<Rightarrow>
     let what = r smod 23 in
     bind (go_files what fd buf) (\<lambda>(fd, buf).
     andthen (go_procs what break0) (
     andthen (if what = 21 then go_check else if what = 22 then go_pipeline else Ret ()) (
     Ret (Inl (fd, iters, rand_next, buf)))))))"

definition go :: "nat \<Rightarrow> bool \<Rightarrow> u64 \<Rightarrow> unit prog" where
  "go n which_child rand_next =
     Sys (sbrk_call 0) (\<lambda>break0.
     ignoring (mkdir_call ''grindir'') (
     Sys (chdir_call ''grindir'') (\<lambda>r.
     if r \<noteq> 0 then fail 1 (''chdir grindir failed'' @ NL) 1
     else ignoring (chdir_call ''/'') (
       rounds n (go_round which_child (word_of_int break0)) (- 1, 0, rand_next, replicate 999 CHR 0x00)))))"

definition grind_iter :: "nat \<Rightarrow> unit prog" where
  "grind_iter n =
     ignoring (unlink_call ''a'') (ignoring (unlink_call ''b'') (
     forked (andthen (go n False 31) (Exit 0)) fork_failed (\<lambda>pid1.
     forked (andthen (go n True 7177) (Exit 0)) fork_failed (\<lambda>pid2.
     Wait (\<lambda>(w, st). let st1 = (if w < 0 then - 1 else st) in
     andthen (if st1 \<noteq> 0 then ignoring (kill_call pid1) (ignoring (kill_call pid2) (Ret ())) else Ret ()) (
     Wait (\<lambda>_. Exit 0)))))))"

definition grind_main :: "nat \<Rightarrow> unit prog" where
  "grind_main n =
     rounds n (\<lambda>_.
       Sys fork_call (\<lambda>pid.
       andthen (if pid = 0 then andthen (grind_iter n) (Exit 0) else Ret ()) (
       andthen (if pid > 0 then ignoring wait_call (Ret ()) else Ret ()) (
       ignoring (sleep_call 20) (Ret (Inl ())))))) ()"

section \<open>The generator\<close>

lemma long_small: "- 9223372036854775808 \<le> i \<Longrightarrow> i < 9223372036854775808 \<Longrightarrow> long i = i"
  by (simp add: long_def sint_sbintrunc' signed_take_bit_int_eq_self)

text \<open>Schrage's identity: with m = a q + r, a x mod m is a (x mod q) - r (x div q), up to one m.\<close>

lemma schrage:
  fixes x :: int
  assumes "0 < x" and "x < 2147483647"
  defines "y \<equiv> 16807 * (x mod 127773) - 2836 * (x div 127773)"
  shows "- 2147483647 < y" "y < 2147483647" "16807 * x mod 2147483647 = (if y < 0 then y + 2147483647 else y)"
proof -
  have h: "0 \<le> x div 127773" "x div 127773 \<le> 16807" "0 \<le> x mod 127773" "x mod 127773 \<le> 127772" using assms by auto
  then show b: "- 2147483647 < y" "y < 2147483647" unfolding y_def by linarith+
  have "x = 127773 * (x div 127773) + x mod 127773" by simp
  then have "16807 * x = y + 2147483647 * (x div 127773)" unfolding y_def by linarith
  then have eq: "16807 * x mod 2147483647 = y mod 2147483647" by simp
  show "16807 * x mod 2147483647 = (if y < 0 then y + 2147483647 else y)"
  proof (cases "y < 0")
    case True
    then have "(y + 2147483647) mod 2147483647 = y + 2147483647" using b by (intro mod_pos_pos_trivial) auto
    then show ?thesis using eq True by simp
  next
    case False
    then show ?thesis using eq b by simp
  qed
qed

lemma generator_nonzero:
  fixes x :: int
  assumes "0 < x" and "x < 2147483647"
  shows "0 < 16807 * x mod 2147483647"
proof -
  have "coprime (2147483647 :: int) 16807" by code_simp
  moreover have "\<not> 2147483647 dvd x" using assms zdvd_imp_le [of 2147483647 x] by linarith
  ultimately have "\<not> 2147483647 dvd 16807 * x" by (simp add: coprime_dvd_mult_right_iff)
  then have "16807 * x mod 2147483647 \<noteq> 0" by (simp add: dvd_eq_mod_eq_0)
  moreover have "0 \<le> 16807 * x mod 2147483647" by (rule pos_mod_sign) simp
  ultimately show ?thesis by linarith
qed

text \<open>C40: The random numbers of grind: for every context, with x the context brought into the range 1 to 2^31 - 2,
  do_rand gives 7^5 x mod (2^31 - 1) less one, as the result and as the new context, and it lies between 0 and 2^31 - 3. No
  intermediate value leaves the range of 32-bit integers, so that the widths of the C types do not matter.\<close>

theorem do_rand_minimal_standard:
  "let x = int (unat ctx) mod (2 ^ 31 - 2) + 1; z = 7 ^ 5 * x mod (2 ^ 31 - 1)
   in do_rand ctx = (z - 1, word_of_int (z - 1)) \<and> 0 \<le> z - 1 \<and> z - 1 \<le> 2 ^ 31 - 3 \<and>
      \<bar>16807 * (x mod 127773) - 2836 * (x div 127773)\<bar> < 2 ^ 31"
proof -
  define x where "x = int (unat ctx) mod 2147483646 + 1"
  define y where "y = 16807 * (x mod 127773) - 2836 * (x div 127773)"
  define z where "z = 16807 * x mod 2147483647"
  have x: "0 < x" "x < 2147483647" unfolding x_def by (simp_all add: add_nonneg_pos)
  note sch = schrage [OF x, folded y_def z_def]
  have z: "0 < z" "z < 2147483647" using generator_nonzero [OF x] unfolding z_def by auto
  have sx: "sint (ctx mod 0x7ffffffe + 1) = x"
  proof -
    have "unat (ctx mod 0x7ffffffe + 1) = unat ctx mod 2147483646 + 1"
      by (simp add: unat_word_ariths unat_mod)
    then have "uint (ctx mod 0x7ffffffe + 1) = x" unfolding x_def uint_nat by (simp add: zmod_int)
    then show ?thesis using x by (simp add: sint_uint signed_take_bit_int_eq_self)
  qed
  have q: "x sdiv 127773 = x div 127773" "x smod 127773 = x mod 127773"
    using x by (simp_all add: signed_divide_int_def signed_modulo_int_def)
  have "do_rand ctx = (sint (word_of_int (z - 1) :: u32), word_of_int (z - 1))"
    using sch z by (simp add: do_rand_def sx q Let_def long_small flip: y_def)
  moreover have "sint (word_of_int (z - 1) :: u32) = z - 1"
    using z by (simp add: sint_sbintrunc' signed_take_bit_int_eq_self del: of_int_diff)
  moreover have pw: "(7 :: int) ^ 5 = 16807" "(2 :: int) ^ 31 - 2 = 2147483646" "(2 :: int) ^ 31 - 1 = 2147483647"
    "(2 :: int) ^ 31 - 3 = 2147483645" "(2 :: int) ^ 31 = 2147483648" by simp_all
  moreover have "\<bar>y\<bar> < 2147483648" "0 \<le> z - 1" "z - 1 \<le> 2147483645" using sch(1,2) z by linarith+
  ultimately show ?thesis
    unfolding Let_def pw(1-4) unfolding pw(5) x_def [symmetric] unfolding y_def [symmetric] z_def [symmetric] by simp
qed

end
