(* ===== verification/Sysinfotest.thy ===== *)
theory Sysinfotest
  imports Programs
begin

text \<open>
  user/sysinfotest.c, the test of the system call sysinfo, as a tree of system calls. The theorem says what the
  test demands: it reports success on every kernel that counts free memory, unused processes and free
  descriptors exactly.
\<close>

section \<open>The test\<close>

text \<open>The three numbers that sysinfo reports: bytes of free memory, processes, descriptors.\<close>

definition sinfo :: "(u64 \<times> u64 \<times> u64) prog" where
  "sinfo = Sysinfo None (\<lambda>(r, info).
     if r < 0 then andthen (uprintf ''FAIL: sysinfo failed'' []) (Exit 1) else Ret info)"

text \<open>The result of sbrk as the pointer that the code compares.\<close>

definition usbrk :: "int \<Rightarrow> u64 prog" where
  "usbrk n = Sys (sbrk_call n) (\<lambda>r. Ret (word_of_int r))"

definition countfree :: "nat \<Rightarrow> u32 prog" where
  "countfree fuel =
     bind (usbrk 0) (\<lambda>sz0.
     bind (rounds fuel (\<lambda>n.
       bind (usbrk 4096) (\<lambda>p. if p = 0xffffffffffffffff then Ret (Inr n) else Ret (Inl (n + 4096)))) 0) (\<lambda>n.
     bind sinfo (\<lambda>(freemem, _, _).
     if freemem \<noteq> 0 then
       andthen (uprintf (''FAIL: there is no free mem, but sysinfo.freemem=%d'' @ NL) [Num freemem]) (Exit 1)
     else
       bind (usbrk 0) (\<lambda>sz1.
       bind (usbrk (sint (ucast (- (sz1 - sz0)) :: u32))) (\<lambda>_. Ret n)))))"

text \<open>The int that countfree returns is converted to uint64.\<close>

definition testmem :: "nat \<Rightarrow> unit prog" where
  "testmem fuel =
     bind (countfree fuel) (\<lambda>k. let n = scast k :: u64 in
     bind sinfo (\<lambda>(freemem, _, _).
     if freemem \<noteq> n then
       andthen (uprintf (''FAIL: free mem %d (bytes) instead of %d'' @ NL) [Num freemem, Num n]) (Exit 1)
     else bind (usbrk 4096) (\<lambda>p.
     if p = 0xffffffffffffffff then andthen (uprintf ''sbrk failed'' []) (Exit 1)
     else bind sinfo (\<lambda>(freemem, _, _).
     if freemem \<noteq> n - 4096 then
       andthen (uprintf (''FAIL: free mem %d (bytes) instead of %d'' @ NL) [Num (n - 4096), Num freemem]) (Exit 1)
     else bind (usbrk (- 4096)) (\<lambda>p.
     if p = 0xffffffffffffffff then andthen (uprintf ''sbrk failed'' []) (Exit 1)
     else bind sinfo (\<lambda>(freemem, _, _).
     if freemem \<noteq> n then
       andthen (uprintf (''FAIL: free mem %d (bytes) instead of %d'' @ NL) [Num n, Num freemem]) (Exit 1)
     else Ret ()))))))"

definition testcall :: "unit prog" where
  "testcall =
     Sysinfo None (\<lambda>(r, _).
     if r < 0 then andthen (uprintf (''FAIL: sysinfo failed'' @ NL) []) (Exit 1)
     else Sysinfo (Some 0xeaeb0b5b00002f5e) (\<lambda>(r, _).
     if r \<noteq> - 1 then andthen (uprintf (''FAIL: sysinfo succeeded with bad argument'' @ NL) []) (Exit 1)
     else Ret ()))"

definition testproc :: "unit prog" where
  "testproc =
     bind sinfo (\<lambda>(_, nproc, _).
     Sys fork_call (\<lambda>pid.
     if pid < 0 then andthen (uprintf (''sysinfotest: fork failed'' @ NL) []) (Exit 1)
     else if pid = 0 then
       bind sinfo (\<lambda>(_, np, _).
       if np \<noteq> nproc - 1 then
         andthen (uprintf (''sysinfotest: FAIL nproc is %d instead of %d'' @ NL) [Num np, Num (nproc - 1)]) (Exit 1)
       else Exit 0)
     else Wait (\<lambda>_.
       bind sinfo (\<lambda>(_, np, _).
       if np \<noteq> nproc then
         andthen (uprintf (''sysinfotest: FAIL nproc is %d instead of %d'' @ NL) [Num np, Num nproc]) (Exit 1)
       else Ret ()))))"

definition testfd :: "unit prog" where
  "testfd =
     bind sinfo (\<lambda>(_, _, nfd).
     Sys (open_call ''cat'' O_RDONLY) (\<lambda>fd.
     bind sinfo (\<lambda>(_, _, f).
     if f \<noteq> nfd - 1 then
       andthen (uprintf (''sysinfotest: FAIL freefd is %d instead of %d'' @ NL) [Num f, Num (nfd - 1)]) (Exit 1)
     else andthen (each [0..<10] (\<lambda>i. Sys (dup_call fd) (\<lambda>_. Ret ()))) (
     bind sinfo (\<lambda>(_, _, f).
     if f \<noteq> nfd - 11 then
       andthen (uprintf (''sysinfotest: FAIL freefd is %d instead of %d'' @ NL) [Num f, Num (nfd - 11)]) (Exit 1)
     else Sys (close_call fd) (\<lambda>_.
     bind sinfo (\<lambda>(_, _, f).
     if f \<noteq> nfd - 10 then
       andthen (uprintf (''sysinfotest: FAIL freefd is %d instead of %d'' @ NL) [Num f, Num (nfd - 10)]) (Exit 1)
     else Ret ())))))))"

definition sysinfotest_main :: "nat \<Rightarrow> unit prog" where
  "sysinfotest_main fuel =
     andthen (uprintf (''sysinfotest: start'' @ NL) []) (
     andthen testcall (
     andthen (testmem fuel) (
     andthen testproc (
     andthen testfd (
     andthen (uprintf (''sysinfotest: OK'' @ NL) []) (
     Exit 0))))))"

section \<open>A kernel that counts exactly\<close>

text \<open>Free pages, unused processes and free descriptors, and the break of the process.\<close>

record counts =
  pages :: nat
  unused :: nat
  freefds :: nat
  brk :: nat

text \<open>
  What a program does on such a kernel: the value it returns if it does, the counts, and the exit codes of
  the processes, children before their parents; -1 stands for a program that leaves the part of the kernel described here.
\<close>

primrec counted :: "'a prog \<Rightarrow> counts \<Rightarrow> int list \<Rightarrow> 'a option \<times> counts \<times> int list" where
  "counted (Ret x) s es = (Some x, s, es)"
| "counted (Exit n) s es = (None, s, es @ [n])"
| "counted More s es = (None, s, es @ [- 1])"
| "counted Undef s es = (None, s, es @ [- 1])"
| "counted (Sys c k) s es =
     (case c of
        write_call fd d \<Rightarrow> counted (k (int (length d))) s es
      | sbrk_call n \<Rightarrow>
          (if n div 4096 \<le> int (pages s) then
             counted (k (int (brk s))) (s\<lparr>pages := nat (int (pages s) - n div 4096), brk := nat (int (brk s) + n)\<rparr>) es
           else counted (k (- 1)) s es)
      | open_call p m \<Rightarrow>
          (if 0 < freefds s then counted (k 3) (s\<lparr>freefds := freefds s - 1\<rparr>) es else counted (k (- 1)) s es)
      | dup_call fd \<Rightarrow>
          (if 0 < freefds s then counted (k 4) (s\<lparr>freefds := freefds s - 1\<rparr>) es else counted (k (- 1)) s es)
      | close_call fd \<Rightarrow> counted (k 0) (s\<lparr>freefds := freefds s + 1\<rparr>) es
      | fork_call \<Rightarrow>
          (if 0 < unused s then
             case counted (k 0) (s\<lparr>unused := unused s - 1\<rparr>) es of (_, _, es') \<Rightarrow>
               counted (k 1) (s\<lparr>unused := unused s - 1\<rparr>) es'
           else counted (k (- 1)) s es)
      | _ \<Rightarrow> (None, s, es @ [- 1]))"
| "counted (Wait k) s es = counted (k (1, last es)) (s\<lparr>unused := unused s + 1\<rparr>) es"
| "counted (Sysinfo a k) s es =
     (case a of None \<Rightarrow> counted (k (0, of_nat (4096 * pages s), of_nat (unused s), of_nat (freefds s))) s es
      | Some _ \<Rightarrow> counted (k (- 1, 0, 0, 0)) s es)"
| "counted (Read fd n k) s es = (None, s, es @ [- 1])"
| "counted (Pipe k) s es = (None, s, es @ [- 1])"
| "counted (Fstat fd k) s es = (None, s, es @ [- 1])"

lemma counted_print:
  "CHR ''%'' \<notin> set m \<Longrightarrow> counted (bind (uprintf m []) f) s es = counted (f ()) s es"
  unfolding uprintf_def by (induction m) (auto simp: putc_def)

lemma counted_sinfo:
  "counted (bind sinfo f) s es = counted (f (of_nat (4096 * pages s), of_nat (unused s), of_nat (freefds s))) s es"
  by (simp add: sinfo_def)

lemma counted_usbrk:
  "counted (bind (usbrk n) f) s es =
     (if n div 4096 \<le> int (pages s) then
        counted (f (of_nat (brk s))) (s\<lparr>pages := nat (int (pages s) - n div 4096), brk := nat (int (brk s) + n)\<rparr>) es
      else counted (f (- 1)) s es)"
  by (simp add: usbrk_def)

lemma counted_dups:
  "length xs \<le> freefds s \<Longrightarrow> counted (bind (each xs (\<lambda>i. Sys (dup_call fd) (\<lambda>_. Ret ()))) f) s es =
     counted (f ()) (s\<lparr>freefds := freefds s - length xs\<rparr>) es"
  by (induction xs arbitrary: s) simp_all

text \<open>The loop of countfree takes every page.\<close>

lemma counted_take_all:
  fixes n :: u32
  assumes "pages s < fuel" and "brk s + 4096 * pages s < 2147483648"
  shows "counted (bind (rounds fuel (\<lambda>n. bind (usbrk 4096) (\<lambda>p.
      if p = 0xffffffffffffffff then Ret (Inr n) else Ret (Inl (n + 4096)))) n) f) s es =
    counted (f (n + of_nat (4096 * pages s))) (s\<lparr>pages := 0, brk := brk s + 4096 * pages s\<rparr>) es"
  using assms
proof (induction fuel arbitrary: n s)
  case (Suc fuel)
  show ?case
  proof (cases "pages s")
    case 0
    then show ?thesis by (cases s) (simp add: counted_usbrk)
  next
    case k: (Suc k)
    let ?s = "s\<lparr>pages := k, brk := brk s + 4096\<rparr>"
    have "unat (of_nat (brk s) :: u64) = brk s" using Suc.prems(2) by (simp add: unat_of_nat)
    then have "(of_nat (brk s) :: u64) \<noteq> 0xffffffffffffffff" using Suc.prems(2)
      arg_cong [of "of_nat (brk s) :: u64" "0xffffffffffffffff" unat] by auto
    then show ?thesis using Suc.IH [of ?s "n + 4096"] Suc.prems k
      by (simp add: counted_usbrk nat_add_distrib algebra_simps)
  qed
qed simp

lemma counted_testcall: "counted (bind testcall f) s es = counted (f ()) s es"
  by (simp add: testcall_def)

lemma counted_testproc:
  assumes "0 < unused s"
  shows "counted (bind testproc f) s es = counted (f ()) s (es @ [0])"
proof -
  have "of_nat (unused s - Suc 0) = (of_nat (unused s) - 1 :: u64)" using assms by (simp add: of_nat_diff)
  moreover have "s\<lparr>unused := unused s\<rparr> = s" by (cases s) simp
  ultimately show ?thesis using assms by (simp add: testproc_def counted_sinfo)
qed

lemma counted_testfd:
  assumes "11 \<le> freefds s"
  shows "counted (bind testfd f) s es = counted (f ()) (s\<lparr>freefds := freefds s - 10\<rparr>) es"
proof -
  have "of_nat (freefds s - 1) = (of_nat (freefds s) - 1 :: u64)" "of_nat (freefds s - 11) = (of_nat (freefds s) - 11 :: u64)"
    "of_nat (freefds s - 10) = (of_nat (freefds s) - 10 :: u64)"
    using assms by (simp_all add: of_nat_diff)
  moreover have "Suc (freefds s - 11) = freefds s - 10" using assms by simp
  ultimately show ?thesis using assms
    by (simp add: testfd_def counted_sinfo counted_dups del: upt_conv_Nil each.simps upt.simps)
qed

lemma ucast_of_int: "(ucast (word_of_int k :: u64) :: u32) = word_of_int k"
  by (simp add: unsigned_of_int word_of_int_eq_iff)

lemma sint_back:
  assumes "a < 2147483648"
  shows "sint (ucast (- (of_nat (b + a) - of_nat b :: u64)) :: u32) = - int a"
proof -
  have "- (of_nat (b + a) - of_nat b :: u64) = word_of_int (- int a)" by simp
  then have "(ucast (- (of_nat (b + a) - of_nat b :: u64)) :: u32) = word_of_int (- int a)"
    by (simp only: ucast_of_int)
  then show ?thesis using assms
    by (simp add: sint_sbintrunc' signed_take_bit_int_eq_self del: of_int_minus of_int_of_nat_eq)
qed

lemma counted_countfree:
  assumes "pages s < fuel" and "brk s + 4096 * pages s < 2147483648"
  shows "counted (bind (countfree fuel) f) s es = counted (f (of_nat (4096 * pages s))) s es"
proof -
  have "s\<lparr>brk := brk s\<rparr> = s" by (cases s) simp
  moreover have "nat (int (brk s + 4096 * pages s) - 4096 * int (pages s)) = brk s" by simp
  moreover have "- (4096 * int (pages s)) div 4096 = - int (pages s)" by simp
  ultimately show ?thesis
    using assms sint_back [of "4096 * pages s" "brk s"]
    by (simp add: countfree_def counted_usbrk counted_sinfo counted_take_all [OF assms] del: of_nat_add)
qed

lemma counted_testmem:
  assumes "0 < pages s" and "pages s < fuel" and "brk s + 4096 * pages s < 2147483648"
  shows "counted (bind (testmem fuel) f) s es = counted (f ()) s es"
proof -
  have n: "(scast (of_nat (4096 * pages s) :: u32) :: u64) = of_nat (4096 * pages s)"
  proof -
    have "sint (of_nat (4096 * pages s) :: u32) = int (4096 * pages s)"
      using assms(3) by (simp add: sint_sbintrunc' signed_of_nat signed_take_bit_int_eq_self del: of_nat_mult)
    then show ?thesis by (metis of_int_of_nat_eq of_int_sint)
  qed
  have u: "unat (of_nat k :: u64) = k" if "k < 2147483648" for k using that by (simp add: unat_of_nat)
  have ne: "(of_nat k :: u64) \<noteq> 0xffffffffffffffff" if "k < 2147483648" for k
    using u [OF that] that arg_cong [of "of_nat k :: u64" "0xffffffffffffffff" unat] by auto
  have m: "of_nat (4096 * (pages s - Suc 0)) = (of_nat (4096 * pages s) - 4096 :: u64)"
    using assms(1) by (cases "pages s") simp_all
  have b: "nat (int (pages s) - 1) = pages s - Suc 0" "nat (int (pages s - Suc 0) + 1) = pages s"
    "nat (int (brk s) + 4096) = brk s + 4096" "nat (int (brk s + 4096) - 4096) = brk s" using assms(1) by auto
  have s: "s\<lparr>pages := pages s, brk := brk s\<rparr> = s" by (cases s) simp
  show ?thesis using assms ne [of "brk s"] ne [of "brk s + 4096"]
    by (simp add: testmem_def counted_countfree Let_def n counted_sinfo counted_usbrk m b s del: of_nat_mult of_nat_add)
qed

text \<open>
  The test reports success (the child of testproc and the test itself exit with 0) on every kernel that counts exactly,
  with memory that fits an int, an unused process and eleven free descriptors.
\<close>

theorem sysinfotest_accepts_exact_counts:
  assumes "0 < pages s" and "pages s < fuel" and "brk s + 4096 * pages s < 2147483648"
    and "0 < unused s" and "11 \<le> freefds s"
  shows "\<exists>s'. counted (sysinfotest_main fuel) s [] = (None, s', [0, 0])"
proof -
  have p: "CHR ''%'' \<notin> set (''sysinfotest: start'' @ NL)" "CHR ''%'' \<notin> set (''sysinfotest: OK'' @ NL)" by simp_all
  show ?thesis unfolding sysinfotest_main_def
    by (simp add: counted_print [OF p(1)] counted_print [OF p(2)] counted_testcall counted_testmem [OF assms(1-3)]
        counted_testproc [OF assms(4)] counted_testfd [OF assms(5)] del: append.simps append_assoc)
qed

end
