(* ===== verification/Spec2Isabelle.thy ===== *)
theory Spec2Isabelle
  imports Kalloc_Percpu Trap_Facts Fs_Facts Pipe_Rw Console_Facts Bio_Contract Bio_Hash_Facts Kpt_Facts Kpt_Proc Sleep_Steps
    Grep Sh_Run Programs_Facts Umalloc Grind Sysinfotest
begin

text \<open>
  A verification development for the xv6 teaching kernel with the changes of the labs: a small
  Unix for RISC-V multiprocessors in C. Directory names below are those of the second lab
  (the complete kernel with the system calls trace and sysinfo) unless lab 3 or lab 4 is
  named; they replace single files of it.

  \<^bold>\<open>The program and its model.\<close> From the bottom up, with the theory that holds the definitions,
  and after it the theories that hold facts only:

  \<^item> Xv6_Prelude: the integer types of types.h as words; an operation of the kernel is a function from
    the state to a result and a new state, or to the reason why the thread does not return
    (type stop: a panic with its message, a spin on a held lock, a sleep that nobody ends, a loop that
    never ends, an access outside an array). Panics and error returns of the code are
    therefore values of the model.
  \<^item> Riscv: riscv.h, memlayout.h, param.h (page arithmetic, page table entries, layout).
  \<^item> Memory: string.c on a byte memory indexed by 64-bit addresses.
  \<^item> Spinlock: spinlock.c, and struct cpu of proc.h; once as a hart executes it, once as the
    interleaving of the atomic steps of any number of harts.
  \<^item> Kalloc: kalloc.c with its list inside the free pages; Kalloc_Percpu: kalloc.c of lab 3.
  \<^item> Vm: vm.c on page tables that lie in the byte memory; facts in Vm_Table (tables as trees), Vm_Space
    (ranges), Vm_User (address spaces), Vm_Copy (user copies); Vm_Demo is a concrete machine.
  \<^item> Proc: proc.c below the file system (process table, sleep, wakeup, scheduler, wait, kill); facts in
    Proc_Sync. Sleep_Steps: sleep and wakeup as lists of instructions, proved equal to the operations of Proc, and the
    interleaving of processes that run them.
  \<^item> Sleeplock: sleeplock.c; facts in Sleeplock_Facts.
  \<^item> Pipe: pipe.c, with the ring buffers of theory Ring; facts in Copy_Obj and Pipe_Rw.
  \<^item> Virtio: virtio_disk.c, virtio.h, buf.h; facts in Disk_Rw.
  \<^item> Bio: bio.c; facts in Bio_List (the pointers as a list), Bio_Facts (what reading, writing and
    releasing a buffer does), Bio_View (the cache seen block by block), Bio_Contract (the cache as a
    store). Bio_Hash: bio.c of lab 3 with its buckets; facts in Bio_Hash_Facts. Dll: doubly linked rings, for both.
  \<^item> Log: log.c; facts in Log_Facts (the sequence of disk writes) and Log_Crash (crash safety).
  \<^item> Fs: fs.c, fs.h, stat.h; facts in Fs_Facts. File: file.c, file.h and pipealloc.
  \<^item> Console: uart.c, console.c, printf.c; facts in Console_Facts; Demo_Kernel is a concrete state.
  \<^item> Process: fork, exit and userinit of proc.c, and exec.c, elf.h.
  \<^item> Syscall: syscall.c, sysproc.c, sysfile.c. Trap: trap.c, plic.c, main.c, start.c; facts in Trap_Facts.
  \<^item> Kpt: the functions that lab 4 adds to vm.c (a kernel page table for every process); facts in
    Kpt_Facts. Kpt_Proc: the functions of proc.c and exec.c that lab 4 changes, with the state that it adds to a process.
  \<^item> Ulib: the string and memory functions of user/ulib.c. User: user programs as trees of system calls, and the functions of
    user/ulib.c and user/printf.c that make calls. Programs: the small programs of user/ and of lab 1;
    facts in Programs_Facts. Umalloc: user/umalloc.c, with its headers in the memory of the process.
  \<^item> Grind: user/grind.c. Sysinfotest: user/sysinfotest.c. Grep: user/grep.c. Sh: the parser of user/sh.c; Sh_Run: the rest of it.

  \<^bold>\<open>State.\<close> Each theory extends the state record of the one below it by the globals of its C file, so
  that an operation is defined on every state that has at least the fields it uses. Objects
  that C identifies by address (locks, wait channels, buffers, processes) are named by a value of a
  datatype or by their index; pages, page tables, trap frames and user memory are addresses in
  the byte memory, and aliasing among them is that of the code.

  \<^bold>\<open>Interfaces.\<close> The page allocator is a locale that both allocators interpret, and the facts on
  sequences of allocations are proved in it once. A bounded queue is a locale that pipes and the
  transmit buffer of the serial port interpret. A doubly linked ring is a locale that the list of
  the buffer cache and the 13 lists of the cache of lab 3 interpret.

  \<^bold>\<open>User programs.\<close> A program is a tree whose nodes are system calls and whose branches are their results, so that both
  sides of a fork are there; the kernel is not run below it. What a program does is read off by functions over the
  tree: starts gives the programs that a process and its children execute, with their descriptors (allocated lowest first, as
  fdalloc does), run gives the output of a program whose input arrives in arbitrary pieces.

  \<^bold>\<open>Outside the source.\<close> The context switch (assembly) is an argument sw of every operation that may
  block: it is what happens between the moment a thread gives up its hart and the moment it
  runs again. Theorems about blocking operations name what they need of it: in
  Disk_Rw, serves sw p says that the disk carries out the request made available last and interrupts,
  and that the scheduler then runs the process again. The concrete disk_switch satisfies it. The disk (device) follows
  the virtio rules: it acts on a notification of queue 0, and only on a chain whose flags, lengths and
  directions are in order, reads the header at the physical address in its descriptor, moves as many bytes as the data
  descriptor says, and writes the status byte. The compiler's choice of the stack address of a request
  header is a field of the state, and the translation of the hardware for a store to it is the function mmu. The
  hardware registers (serial port, interrupt controller, disk registers) are streams or fields of
  the state with arbitrary values.

  \<^bold>\<open>Integers.\<close> Unsigned integers are words of their width; a C int is an int, and where a sum may leave its 32 bits in
  the long run (process numbers, reference counts of inodes and files) it is wrapped by int32. The following ints are not
  wrapped, because they count things of which there are few: the depth of push_off (noff, at most the locks
  that a hart holds), the counters of balloc (below sb.size, which would have to be 2^31) and the offset of
  dirlink (an u32 here, an int there, the same below 2 GB, more than the largest file).

  \<^bold>\<open>Interrupt state.\<close> Most theorems on code that takes locks ask for a settled state: at depth 0 the recorded enable bit
  intena is the actual one. A state just after an intr_on() in scheduler() or usertrap() is not settled until the
  first acquire and release; the theorems on critical sections and on traps hold in it too (hart_ok).

  \<^bold>\<open>What is shown.\<close> Mutual exclusion of spin locks over all interleavings, and that critical sections
  restore the interrupt state; the page allocators hand out no page twice and change no page but
  the one they allocate or free; mapping, growing, shrinking and copying an address space on page
  tables in memory, error paths included; user copies stay within accessible memory; over all interleavings
  no wakeup is lost and waiting processes do not deadlock, and a scheduler pass runs every runnable process; pipes are bounded queues
  across wrap-around of their counters; a disk request moves its block and nothing else; a commit of
  the log is atomic under a crash after any disk write, and so is recovery; the buffer cache implements a
  store of blocks, and that of lab 3 keeps its buckets in order; inodes keep their places in their blocks, the
  inode cache has no duplicates, namex walks paths component by component; descriptors are allocated lowest first; traps return
  to where they came from, and killed processes do not return to user space; freeing a kernel page table of lab 4 frees the table and nothing that it maps; the parser of
  the shell returns and keeps the words of the line, and the shell connects the programs that it starts as
  the line says; the pattern matcher of grep decides its language; wc counts, cat copies; the blocks of malloc
  never overlap, whatever a process stores into them; the random numbers of grind are those of the minimal standard
  generator; sysinfotest accepts a kernel that counts exactly; strings and numbers.

  \<^bold>\<open>Loops.\<close> Loops over a range are folds (kfor, kfind), so they end. A loop whose end depends on the
  state is kloop or kiter, over while_option: not ending is the outcome Diverge, and a theorem
  that gives a result as Inr shows that the loop ends. Recursion over page tables (freewalk, Pfreewalk, vmprintf) has
  a bound on its depth, 3, the number of levels; the theorem on Pfreewalk shows that it is enough for a table of three levels. The
  parser of the shell has a bound that is linear in the length of the line, and never reaches it. The loops of user programs
  have a bound on their rounds, More when it is reached; the theorems on wc and cat and on malloc show that enough rounds suffice.

  \<^bold>\<open>Not modelled.\<close> Assembly (entry.S, swtch.S, trampoline.S, kernelvec.S, initcode.S, usys.S), the accessors of
  riscv.h that no code calls, the flushing of the TLB, the ram disk (ramdisk.c, not compiled
  in), the test program usertests.c, and the
  host tool that builds the disk image. malloc is taken to succeed in the shell and in xargs. The padding of C structures that are copied to user space is zero here.
\<close>

end
